(* ===== verification/Prelude.thy ===== *)
theory Prelude
  imports Main "HOL-Library.Sublist" "HOL-Library.Char_ord"
begin

text \<open>
  Shared vocabulary of the development: byte strings with the string functions of the Go
  standard library the modelled code calls, results with errors as values, lower-case
  hexadecimal numbers of a fixed width, UTF-8 validity, and reachability for step relations.
  A Go \<open>string\<close> or \<open>[]byte\<close> is a list of characters, one per byte.
\<close>

named_theorems result_intros \<open>introduction of successful results\<close>
named_theorems char_defs \<open>definitions of the byte classes\<close>

type_synonym bytes = string

subsection \<open>Results\<close>

definition bindE :: "'e + 'a \<Rightarrow> ('a \<Rightarrow> 'e + 'b) \<Rightarrow> 'e + 'b" where
  "bindE m f = (case m of Inl e \<Rightarrow> Inl e | Inr x \<Rightarrow> f x)"

lemma bindE_simps [simp]: "bindE (Inl e) f = Inl e" "bindE (Inr x) f = f x"
  by (simp_all add: bindE_def)

lemma bindE_eq_Inr [simp]: "bindE m f = Inr y \<longleftrightarrow> (\<exists>x. m = Inr x \<and> f x = Inr y)"
  by (cases m) auto

lemma bindE_eq_Inl: "bindE m f = Inl e \<longleftrightarrow> m = Inl e \<or> (\<exists>x. m = Inr x \<and> f x = Inl e)"
  by (cases m) auto

lemma bindE_cong [fundef_cong]:
  "m = m' \<Longrightarrow> (\<And>x. m' = Inr x \<Longrightarrow> f x = f' x) \<Longrightarrow> bindE m f = bindE m' f'"
  by (cases m') auto

definition requireE :: "bool \<Rightarrow> 'e \<Rightarrow> 'e + unit" where
  "requireE b e = (if b then Inr () else Inl e)"

lemma requireE_simps [simp]: "requireE True e = Inr ()" "requireE False e = Inl e"
  by (simp_all add: requireE_def)

lemma requireE_eq_Inr [simp]: "requireE b e = Inr u \<longleftrightarrow> b"
  by (simp add: requireE_def)

lemma requireE_eq_Inl [simp]: "requireE b e = Inl e' \<longleftrightarrow> \<not> b \<and> e' = e"
  by (auto simp: requireE_def)

lemma sum_case_eq_Inr:
  "(case m of Inl e \<Rightarrow> Inl (f e) | Inr x \<Rightarrow> g x) = Inr y \<longleftrightarrow> (\<exists>x. m = Inr x \<and> g x = Inr y)"
  by (cases m) auto

subsection \<open>Bytes and byte classes\<close>

definition byte :: "char \<Rightarrow> nat" where
  "byte c = of_char c"

lemma byte_less_256 [simp]: "byte c < 256"
  by (simp add: byte_def)

lemma byte_eq_iff [simp]: "byte a = byte b \<longleftrightarrow> a = b"
  by (simp add: byte_def)

definition is_digit :: "char \<Rightarrow> bool" where
  [char_defs]: "is_digit c \<longleftrightarrow> 48 \<le> byte c \<and> byte c \<le> 57"

definition is_lower :: "char \<Rightarrow> bool" where
  [char_defs]: "is_lower c \<longleftrightarrow> 97 \<le> byte c \<and> byte c \<le> 122"

definition is_upper :: "char \<Rightarrow> bool" where
  [char_defs]: "is_upper c \<longleftrightarrow> 65 \<le> byte c \<and> byte c \<le> 90"

definition is_hex_lower :: "char \<Rightarrow> bool" where
  [char_defs]: "is_hex_lower c \<longleftrightarrow> is_digit c \<or> (97 \<le> byte c \<and> byte c \<le> 102)"

definition is_hex_upper :: "char \<Rightarrow> bool" where
  [char_defs]: "is_hex_upper c \<longleftrightarrow> 65 \<le> byte c \<and> byte c \<le> 70"

definition lower_char :: "char \<Rightarrow> char" where
  "lower_char c = (if is_upper c then char_of (byte c + 32) else c)"

definition ascii_lower :: "bytes \<Rightarrow> bytes" where
  "ascii_lower = map lower_char"

lemma byte_lower_char: "byte (lower_char c) = (if is_upper c then byte c + 32 else byte c)"
  by (auto simp: lower_char_def byte_def is_upper_def)

lemma length_ascii_lower [simp]: "length (ascii_lower s) = length s"
  by (simp add: ascii_lower_def)

lemma lower_char_hex: "is_hex_lower c \<or> is_hex_upper c \<Longrightarrow> is_hex_lower (lower_char c)"
  by (auto simp: char_defs byte_lower_char)

lemma lower_char_id: "is_hex_lower c \<Longrightarrow> lower_char c = c"
  by (auto simp: lower_char_def char_defs)

lemma ascii_lower_id: "list_all is_hex_lower s \<Longrightarrow> ascii_lower s = s"
  by (induction s) (auto simp: ascii_lower_def lower_char_id)

subsection \<open>String functions\<close>

text \<open>Go's \<open>strings.CutPrefix\<close>, \<open>strings.TrimPrefix\<close> and their suffix forms.\<close>

definition cut_prefix :: "bytes \<Rightarrow> bytes \<Rightarrow> bytes option" where
  "cut_prefix p s = (if prefix p s then Some (drop (length p) s) else None)"

definition cut_suffix :: "bytes \<Rightarrow> bytes \<Rightarrow> bytes option" where
  "cut_suffix q s = (if suffix q s then Some (take (length s - length q) s) else None)"

definition trim_suffix :: "bytes \<Rightarrow> bytes \<Rightarrow> bytes" where
  "trim_suffix q s = (case cut_suffix q s of None \<Rightarrow> s | Some r \<Rightarrow> r)"

lemma cut_prefix_Some: "cut_prefix p s = Some r \<longleftrightarrow> s = p @ r"
  by (auto simp: cut_prefix_def prefix_def)

lemma cut_prefix_None: "cut_prefix p s = None \<longleftrightarrow> \<not> prefix p s"
  by (simp add: cut_prefix_def)

lemma cut_suffix_Some: "cut_suffix q s = Some r \<longleftrightarrow> s = r @ q"
  by (auto simp: cut_suffix_def suffix_def)

text \<open>Go's \<open>strings.Cut\<close> with a separator of one byte: before, after, found.\<close>

definition cut :: "char \<Rightarrow> bytes \<Rightarrow> bytes \<times> bytes \<times> bool" where
  "cut c s = (case dropWhile (\<lambda>x. x \<noteq> c) s of
      [] \<Rightarrow> (s, [], False)
    | _ # r \<Rightarrow> (takeWhile (\<lambda>x. x \<noteq> c) s, r, True))"

lemma cut_found: "c \<notin> set a \<Longrightarrow> cut c (a @ c # b) = (a, b, True)"
  by (induction a) (auto simp: cut_def split: list.splits)

lemma cut_not_found:
  assumes "c \<notin> set s"
  shows "cut c s = (s, [], False)"
proof -
  have "dropWhile (\<lambda>x. x \<noteq> c) s = []"
    using assms by (auto simp: dropWhile_eq_Nil_conv)
  then show ?thesis by (simp only: cut_def list.case)
qed

lemma cut_cases:
  obtains (found) a b where "s = a @ c # b" "c \<notin> set a" "cut c s = (a, b, True)"
  | (absent) "c \<notin> set s" "cut c s = (s, [], False)"
  by (metis cut_found cut_not_found split_list_first)

text \<open>Go's \<open>strings.Split\<close> with a separator of one byte: never an empty list.\<close>

fun split_on :: "char \<Rightarrow> bytes \<Rightarrow> bytes list" where
  "split_on c [] = [[]]"
| "split_on c (x # xs) =
     (if x = c then [] # split_on c xs
      else case split_on c xs of [] \<Rightarrow> [[x]] | w # ws \<Rightarrow> (x # w) # ws)"

lemma split_on_nonempty [simp]: "split_on c s \<noteq> []"
  by (induction s) (auto split: list.split)

lemma split_on_no_sep: "c \<notin> set s \<Longrightarrow> split_on c s = [s]"
  by (induction s) auto

lemma split_on_append: "c \<notin> set a \<Longrightarrow> split_on c (a @ c # b) = a # split_on c b"
  by (induction a) auto

lemma split_on_parts: "w \<in> set (split_on c s) \<Longrightarrow> c \<notin> set w \<and> set w \<subseteq> set s"
  by (induction s arbitrary: w) (fastforce split: list.splits if_splits)+

text \<open>Go's \<open>strings.Contains\<close>.\<close>

fun contains_str :: "bytes \<Rightarrow> bytes \<Rightarrow> bool" where
  "contains_str p [] = (p = [])"
| "contains_str p (x # xs) = (prefix p (x # xs) \<or> contains_str p xs)"

lemma contains_str_iff: "contains_str p s \<longleftrightarrow> (\<exists>a b. s = a @ p @ b)"
proof (induction s)
  case Nil
  show ?case by auto
next
  case (Cons x xs)
  have "contains_str p (x # xs) \<longleftrightarrow> prefix p (x # xs) \<or> (\<exists>a b. xs = a @ p @ b)"
    using Cons.IH by simp
  also have "\<dots> \<longleftrightarrow> (\<exists>a b. x # xs = a @ p @ b)"
    by (auto simp: prefix_def Cons_eq_append_conv)
  finally show ?case .
qed

subsection \<open>Lower-case hexadecimal of four digits\<close>

definition hex_value :: "char \<Rightarrow> nat option" where
  "hex_value c =
     (if is_digit c then Some (byte c - 48)
      else if 97 \<le> byte c \<and> byte c \<le> 102 then Some (byte c - 97 + 10) else None)"

definition hex_digit :: "nat \<Rightarrow> char" where
  "hex_digit n = char_of (if n < 10 then 48 + n else 87 + n)"

definition hex4 :: "nat \<Rightarrow> bytes" where
  "hex4 n = [hex_digit (n div 4096 mod 16), hex_digit (n div 256 mod 16),
             hex_digit (n div 16 mod 16), hex_digit (n mod 16)]"

lemma byte_hex_digit: "n < 16 \<Longrightarrow> byte (hex_digit n) = (if n < 10 then 48 + n else 87 + n)"
  by (simp add: hex_digit_def byte_def)

lemma hex_value_digit [simp]: "n < 16 \<Longrightarrow> hex_value (hex_digit n) = Some n"
  by (simp add: hex_value_def byte_hex_digit is_digit_def)

lemma hex_value_bound: "hex_value c = Some v \<Longrightarrow> v < 16"
  by (auto simp: hex_value_def is_digit_def split: if_splits)

lemma hex_value_Some_iff: "(\<exists>v. hex_value c = Some v) \<longleftrightarrow> is_hex_lower c"
  by (auto simp: hex_value_def is_hex_lower_def)

lemma length_hex4 [simp]: "length (hex4 n) = 4"
  by (simp add: hex4_def)

lemma hex4_digits: "list_all is_hex_lower (hex4 n)"
proof -
  have "is_hex_lower (hex_digit v)" if "v < 16" for v
    using hex_value_digit [OF that] hex_value_Some_iff by blast
  then show ?thesis by (simp add: hex4_def)
qed

subsection \<open>UTF-8 validity\<close>

text \<open>
  \<open>utf8.ValidString\<close> of Go: the well-formed byte sequences of the Unicode standard, so no
  overlong form, no surrogate and nothing above U+10FFFF.
\<close>

definition in_range :: "nat \<Rightarrow> nat \<Rightarrow> char \<Rightarrow> bool" where
  "in_range lo hi c \<longleftrightarrow> lo \<le> byte c \<and> byte c \<le> hi"

definition utf8_tail :: "char \<Rightarrow> bool" where
  "utf8_tail = in_range 128 191"

fun valid_utf8 :: "bytes \<Rightarrow> bool" where
  "valid_utf8 [] = True"
| "valid_utf8 (a # s) =
    (if byte a < 128 then valid_utf8 s
     else if in_range 194 223 a then
       (case s of b # t \<Rightarrow> utf8_tail b \<and> valid_utf8 t | _ \<Rightarrow> False)
     else if in_range 224 239 a then
       (case s of b # c # t \<Rightarrow>
          in_range (if byte a = 224 then 160 else 128) (if byte a = 237 then 159 else 191) b
          \<and> utf8_tail c \<and> valid_utf8 t
        | _ \<Rightarrow> False)
     else if in_range 240 244 a then
       (case s of b # c # d # t \<Rightarrow>
          in_range (if byte a = 240 then 144 else 128) (if byte a = 244 then 143 else 191) b
          \<and> utf8_tail c \<and> utf8_tail d \<and> valid_utf8 t
        | _ \<Rightarrow> False)
     else False)"

lemma valid_utf8_ascii: "list_all (\<lambda>c. byte c < 128) s \<Longrightarrow> valid_utf8 s"
  by (induction s) auto

lemma valid_utf8_ascii_append: "list_all (\<lambda>c. byte c < 128) p \<Longrightarrow> valid_utf8 (p @ s) = valid_utf8 s"
  by (induction p) auto

subsection \<open>White space\<close>

text \<open>
  Go's \<open>strings.TrimSpace\<close>: the Unicode white space characters, each as its UTF-8 bytes, are
  cut from both ends.
\<close>

definition space_runes :: "bytes list" where
  "space_runes =
     [[CHR 0x09], [CHR 0x0A], [CHR 0x0B], [CHR 0x0C], [CHR 0x0D], [CHR 0x20],
      [CHR 0xC2, CHR 0x85], [CHR 0xC2, CHR 0xA0], [CHR 0xE1, CHR 0x9A, CHR 0x80],
      [CHR 0xE2, CHR 0x80, CHR 0x80], [CHR 0xE2, CHR 0x80, CHR 0x81], [CHR 0xE2, CHR 0x80, CHR 0x82],
      [CHR 0xE2, CHR 0x80, CHR 0x83], [CHR 0xE2, CHR 0x80, CHR 0x84], [CHR 0xE2, CHR 0x80, CHR 0x85],
      [CHR 0xE2, CHR 0x80, CHR 0x86], [CHR 0xE2, CHR 0x80, CHR 0x87], [CHR 0xE2, CHR 0x80, CHR 0x88],
      [CHR 0xE2, CHR 0x80, CHR 0x89], [CHR 0xE2, CHR 0x80, CHR 0x8A], [CHR 0xE2, CHR 0x80, CHR 0xA8],
      [CHR 0xE2, CHR 0x80, CHR 0xA9], [CHR 0xE2, CHR 0x80, CHR 0xAF], [CHR 0xE2, CHR 0x81, CHR 0x9F],
      [CHR 0xE3, CHR 0x80, CHR 0x80]]"

lemma space_runes_nonempty: "w \<in> set space_runes \<Longrightarrow> w \<noteq> []"
  by (auto simp: space_runes_def)

function strip_front :: "bytes list \<Rightarrow> bytes \<Rightarrow> bytes" where
  "strip_front ws s =
     (case List.find (\<lambda>w. w \<noteq> [] \<and> prefix w s) ws of
       None \<Rightarrow> s
     | Some w \<Rightarrow> strip_front ws (drop (length w) s))"
  by pat_completeness auto
termination
proof (relation "measure (\<lambda>(ws, s). length s)", goal_cases)
  case (2 ws s w)
  then have "w \<noteq> []" "prefix w s" by (auto simp: find_Some_iff)
  then have "0 < length w" "length w \<le> length s" by (simp_all add: prefix_length_le)
  then have "length s - length w < length s" by (metis diff_less less_le_trans)
  then show ?case by simp
qed simp

declare strip_front.simps [simp del]

definition TrimSpace :: "bytes \<Rightarrow> bytes" where
  "TrimSpace s = rev (strip_front (map rev space_runes) (rev (strip_front space_runes s)))"

definition line_break :: "char \<Rightarrow> bool" where
  "line_break c \<longleftrightarrow> c = CHR 0x00 \<or> c = CHR 0x0D \<or> c = CHR 0x0A"

text \<open>\<open>validText\<close> of \<open>internal/state/pull_requests.go\<close>, which several parts of the store use.\<close>

definition validText :: "bytes \<Rightarrow> nat \<Rightarrow> bool" where
  "validText v maximum \<longleftrightarrow>
     (let t = TrimSpace v in t \<noteq> [] \<and> length t \<le> maximum \<and> valid_utf8 t \<and> \<not> list_ex line_break t)"

text \<open>
  Go's \<open>strings.Fields\<close>. The first byte of a white space character of several bytes never
  occurs inside another character, so looking for one at every byte is looking at every rune.
\<close>

definition at_space :: "bytes \<Rightarrow> bool" where
  "at_space s \<longleftrightarrow> (\<exists>w \<in> set space_runes. prefix w s)"

fun take_word :: "bytes \<Rightarrow> bytes \<times> bytes" where
  "take_word [] = ([], [])"
| "take_word (c # s) =
     (if at_space (c # s) then ([], c # s) else case take_word s of (w, rest) \<Rightarrow> (c # w, rest))"

lemma take_word_append: "take_word s = (w, rest) \<Longrightarrow> s = w @ rest"
  by (induction s arbitrary: w rest) (auto split: if_splits prod.splits)

lemma strip_front_none: "List.find (\<lambda>w. w \<noteq> [] \<and> prefix w (strip_front ws s)) ws = None"
proof (induction ws s rule: strip_front.induct)
  case (1 ws s)
  show ?case
  proof (cases "List.find (\<lambda>w. w \<noteq> [] \<and> prefix w s) ws")
    case None
    then show ?thesis by (simp add: strip_front.simps [of ws s])
  next
    case (Some w)
    then show ?thesis using "1" by (simp add: strip_front.simps [of ws s])
  qed
qed

lemma strip_front_not_space: "\<not> at_space (strip_front space_runes s)"
  using strip_front_none [of space_runes s] space_runes_nonempty
  by (auto simp: at_space_def find_None_iff)

lemma strip_front_length: "length (strip_front ws s) \<le> length s"
proof (induction ws s rule: strip_front.induct)
  case (1 ws s)
  then show ?case by (subst strip_front.simps) (auto split: option.splits intro: le_trans)
qed

function Fields :: "bytes \<Rightarrow> bytes list" where
  "Fields s =
     (let s' = strip_front space_runes s in
      if s' = [] then [] else case take_word s' of (w, rest) \<Rightarrow> w # Fields rest)"
  by pat_completeness auto
termination
proof (relation "measure length", goal_cases)
  case (2 s s' w rest)
  then have ne: "s' \<noteq> []" "\<not> at_space s'" using strip_front_not_space by auto
  then obtain c t where s': "s' = c # t" by (cases s') auto
  have "take_word s' = (w, rest)" using 2 by simp
  then have "w \<noteq> []" using ne(2) unfolding s' by (auto split: prod.splits)
  moreover have "s' = w @ rest" using 2 take_word_append by metis
  moreover have "length s' \<le> length s" using 2 strip_front_length by simp
  ultimately show ?case by (cases w) auto
qed simp

declare Fields.simps [simp del]

subsection \<open>Decimal numbers\<close>

text \<open>Go's \<open>strconv.Atoi\<close>: an optional sign and digits. Callers compare the value with small bounds, so values outside 64 bits, which Go refuses, are refused by them.\<close>

fun digits_value :: "nat \<Rightarrow> bytes \<Rightarrow> nat option" where
  "digits_value n [] = Some n"
| "digits_value n (d # ds) = (if is_digit d then digits_value (10 * n + (byte d - 48)) ds else None)"

definition unsigned_decimal :: "bytes \<Rightarrow> nat option" where
  "unsigned_decimal s = (if s = [] then None else digits_value 0 s)"

definition Atoi :: "bytes \<Rightarrow> int option" where
  "Atoi s =
     (if prefix ''-'' s then map_option (\<lambda>n. - int n) (unsigned_decimal (drop 1 s))
      else if prefix ''+'' s then map_option int (unsigned_decimal (drop 1 s))
      else map_option int (unsigned_decimal s))"

text \<open>\<open>strconv.Itoa\<close>: the decimal digits of a number, with its sign.\<close>

fun nat_digits :: "nat \<Rightarrow> bytes" where
  "nat_digits n = (if n < 10 then [char_of (48 + n)] else nat_digits (n div 10) @ [char_of (48 + n mod 10)])"

declare nat_digits.simps [simp del]

definition show_int :: "int \<Rightarrow> bytes" where
  "show_int n = (if n < 0 then ''-'' @ nat_digits (nat (- n)) else nat_digits (nat n))"

subsection \<open>Reachable states\<close>

inductive reach :: "('s \<Rightarrow> bool) \<Rightarrow> ('s \<Rightarrow> 's \<Rightarrow> bool) \<Rightarrow> 's \<Rightarrow> bool"
  for init :: "'s \<Rightarrow> bool" and step :: "'s \<Rightarrow> 's \<Rightarrow> bool" where
  reach_init: "init s \<Longrightarrow> reach init step s"
| reach_step: "reach init step s \<Longrightarrow> step s t \<Longrightarrow> reach init step t"

text \<open>The contract of an inductive invariant: what every proof of a safety property supplies.\<close>

locale inductive_invariant =
  fixes init :: "'s \<Rightarrow> bool" and step :: "'s \<Rightarrow> 's \<Rightarrow> bool" and inv :: "'s \<Rightarrow> bool"
  assumes inv_init: "init s \<Longrightarrow> inv s"
    and inv_step: "inv s \<Longrightarrow> step s t \<Longrightarrow> inv t"
begin

lemma reach_inv: "reach init step s \<Longrightarrow> inv s"
  by (induction rule: reach.induct) (auto intro: inv_init inv_step)

lemma steps_inv: "step\<^sup>*\<^sup>* s t \<Longrightarrow> inv s \<Longrightarrow> inv t"
  by (induction rule: rtranclp_induct) (auto intro: inv_step)

end

subsection \<open>Counting callers\<close>

text \<open>The callers of a component are numbered; \<open>z\<close> is the phase of one that is outside.\<close>

definition holders :: "('p \<Rightarrow> bool) \<Rightarrow> (nat \<Rightarrow> 'p) \<Rightarrow> nat" where
  "holders P ps = card {c. P (ps c)}"

lemma holders_update:
  fixes ps :: "nat \<Rightarrow> 'p"
  assumes "finite {c. ps c \<noteq> z}" and "\<not> P z"
  shows "holders P (ps(c := x)) + of_bool (P (ps c)) = holders P ps + of_bool (P x)"
proof -
  have fin: "finite {d. P (ps d)}"
    by (rule finite_subset [OF _ assms(1)]) (use assms(2) in auto)
  let ?rest = "{d. P (ps d)} - {c}"
  have "{d. P ((ps(c := x)) d)} = (if P x then insert c ?rest else ?rest)"
    by auto
  then have "holders P (ps(c := x)) = card (if P x then insert c ?rest else ?rest)"
    by (simp only: holders_def)
  also have "\<dots> = card ?rest + of_bool (P x)"
    using fin by (simp add: card_insert_disjoint del: insert_Diff_single)
  finally show ?thesis
    using fin by (cases "P (ps c)") (auto simp: holders_def card_Suc_Diff1 simp del: card_Diff_insert)
qed

lemma finite_update: "finite {d. ps d \<noteq> z} \<Longrightarrow> finite {d. (ps(c := x)) d \<noteq> z}"
  by (rule finite_subset [of _ "insert c {d. ps d \<noteq> z}"]) auto

lemma holders_change:
  assumes "finite {c. ps c \<noteq> z}" and "\<not> P z"
  shows "int (holders P (ps(c := x))) = int (holders P ps) - of_bool (P (ps c)) + of_bool (P x)"
  using holders_update [where P = P and ps = ps and z = z and c = c and x = x] assms
  by (auto simp: of_bool_def split: if_splits)

lemma holders_pos_iff:
  assumes "finite {c. ps c \<noteq> z}" and "\<not> P z"
  shows "0 < holders P ps \<longleftrightarrow> (\<exists>c. P (ps c))"
proof -
  have "finite {c. P (ps c)}" by (rule finite_subset [OF _ assms(1)]) (use assms(2) in auto)
  then show ?thesis by (auto simp: holders_def card_gt_0_iff)
qed

subsection \<open>Waiting for a channel that is closed and replaced\<close>

text \<open>A goroutine looks at a state, finds that it is not ready and keeps the channel of that
  moment, here the number \<open>e\<close> of its replacements. The contract of the operations: each either
  replaces the channel or makes nobody ready. Then nobody sleeps through the moment he is ready.\<close>

definition sleeps :: "('s \<Rightarrow> nat) \<Rightarrow> ('s \<Rightarrow> bool) \<Rightarrow> nat \<Rightarrow> 's \<Rightarrow> bool" where
  "sleeps epoch ready e s \<longleftrightarrow> e \<le> epoch s \<and> (e = epoch s \<longrightarrow> \<not> ready s)"

locale wakeup =
  fixes ok :: "'s \<Rightarrow> bool" and op :: "'s \<Rightarrow> 's \<Rightarrow> bool"
    and epoch :: "'s \<Rightarrow> nat" and ready :: "'k \<Rightarrow> 's \<Rightarrow> bool"
  assumes op_epoch: "op s t \<Longrightarrow> epoch s \<le> epoch t"
    and op_quiet: "ok s \<Longrightarrow> op s t \<Longrightarrow> epoch t = epoch s \<Longrightarrow> ready k t \<Longrightarrow> ready k s"
begin

lemma falls_asleep: "\<not> ready k s \<Longrightarrow> sleeps epoch (ready k) (epoch s) s"
  by (simp add: sleeps_def)

lemma sleeps_on: "ok s \<Longrightarrow> op s t \<Longrightarrow> sleeps epoch (ready k) e s \<Longrightarrow> sleeps epoch (ready k) e t"
  using op_epoch [of s t] op_quiet [of s t k] by (auto simp: sleeps_def)

lemma woken: "sleeps epoch (ready k) e s \<Longrightarrow> ready k s \<Longrightarrow> e < epoch s"
  by (auto simp: sleeps_def)

end

end
