(* ===== verification/PktLine.thy ===== *)
theory PktLine
  imports Prelude
begin

text \<open>
  Git's pkt-line framing as the importer reads it (\<open>internal/importgit/pktline.go\<close>): the
  byte source behind an \<open>io.Reader\<close>, the reader with its two byte budgets, and the framing
  laws. A source is the bytes it still has to give and the error it reports after them, which
  is \<open>io.EOF\<close> for a body that ends normally. \<open>io.ReadFull\<close> and \<open>io.CopyN\<close> are modelled as
  the Go documentation states them: they depend on nothing else about the reader.
\<close>

subsection \<open>Byte sources\<close>

datatype io_error =
    EOF
  | UnexpectedEOF
  | TotalBodyExceeded
  | PackExceeded
  | Transport bytes

record byte_source =
  src_data :: bytes
  src_end :: io_error

definition ReadFull :: "nat \<Rightarrow> byte_source \<Rightarrow> byte_source \<times> bytes \<times> io_error option" where
  "ReadFull n s =
     (if n \<le> length (src_data s)
      then (s\<lparr>src_data := drop n (src_data s)\<rparr>, take n (src_data s), None)
      else (s\<lparr>src_data := []\<rparr>, src_data s,
            Some (if src_data s \<noteq> [] \<and> src_end s = EOF then UnexpectedEOF else src_end s)))"

definition CopyN :: "nat \<Rightarrow> byte_source \<Rightarrow> byte_source \<times> bytes \<times> io_error option" where
  "CopyN n s =
     (if n \<le> length (src_data s)
      then (s\<lparr>src_data := drop n (src_data s)\<rparr>, take n (src_data s), None)
      else (s\<lparr>src_data := []\<rparr>, src_data s, Some (src_end s)))"

subsection \<open>Failures\<close>

text \<open>
  The typed failures of \<open>internal/importgit/errors.go\<close>. A \<open>ParseErr\<close> carries the offset of
  the packet that failed; \<open>OptionErr\<close> is a refusal before any parsing; \<open>IOErr\<close> is an error of
  the source passed on as it is. The detail texts are left out, except the remote text of
  \<open>ErrRemoteError\<close>, which is input the code has to make safe.
\<close>

datatype err_kind =
    ErrInvalidLimits | ErrInvalidOptions | ErrLimitExceeded | ErrTooManyRefs
  | ErrMalformedPacket | ErrTruncated | ErrTrailingContent | ErrMalformedService
  | ErrUnsupportedVersion | ErrInvalidRecord | ErrInvalidObjectID | ErrInvalidName
  | ErrConflictingRefs | ErrInvalidCapability | ErrObjectFormat | ErrRemoteError bytes
  | ErrIncompleteHistory

datatype parse_fail =
    IOErr io_error
  | ParseErr int err_kind
  | OptionErr err_kind

subsection \<open>The packet reader\<close>

datatype packet =
    packetData bytes
  | packetFlush
  | packetDelimiter
  | packetResponseEnd

abbreviation packetLengthBytes :: nat where
  "packetLengthBytes \<equiv> 4"

definition protocolMaxPacket :: nat where
  "protocolMaxPacket = 65520"

record packetReader =
  rd_source :: byte_source
  rd_maxPacket :: int
  rd_maxTotal :: int
  rd_consumed :: int
  rd_offset :: int

definition rd_read :: "nat \<Rightarrow> packetReader \<Rightarrow> packetReader \<times> (parse_fail + bytes)" where
  "rd_read n r =
     (if int n > rd_maxTotal r - rd_consumed r
      then (r, Inl (ParseErr (rd_consumed r) ErrLimitExceeded))
      else
        let (src, got, err) = ReadFull n (rd_source r);
            r' = r\<lparr>rd_source := src, rd_consumed := rd_consumed r + int (length got)\<rparr>
        in (r', case err of
                  None \<Rightarrow> Inr got
                | Some EOF \<Rightarrow> Inl (IOErr EOF)
                | Some UnexpectedEOF \<Rightarrow> Inl (ParseErr (rd_consumed r') ErrTruncated)
                | Some e \<Rightarrow> Inl (IOErr e)))"

fun hex_length :: "nat \<Rightarrow> bytes \<Rightarrow> nat option" where
  "hex_length value [] = Some value"
| "hex_length value (d # ds) =
     (case hex_value d of None \<Rightarrow> None | Some v \<Rightarrow> hex_length (16 * value + v) ds)"

definition parseHexLength :: "bytes \<Rightarrow> nat option" where
  "parseHexLength digits = hex_length 0 digits"

text \<open>
  \<open>next\<close> in two parts: the four length digits, then what the declared length asks for. The
  length is checked against the protocol ceiling, the packet limit and the remaining budget
  before any payload byte is read.
\<close>

definition rd_dispatch :: "int \<Rightarrow> nat \<Rightarrow> packetReader \<Rightarrow> packetReader \<times> (parse_fail + packet)" where
  "rd_dispatch off len r =
     (if len = 0 then (r, Inr packetFlush)
      else if len = 1 then (r, Inr packetDelimiter)
      else if len = 2 then (r, Inr packetResponseEnd)
      else if len = 3 \<or> len = packetLengthBytes then (r, Inl (ParseErr off ErrMalformedPacket))
      else if len > protocolMaxPacket then (r, Inl (ParseErr off ErrMalformedPacket))
      else if int len > rd_maxPacket r then (r, Inl (ParseErr off ErrLimitExceeded))
      else if int (len - packetLengthBytes) > rd_maxTotal r - rd_consumed r
        then (r, Inl (ParseErr off ErrLimitExceeded))
      else
        (case rd_read (len - packetLengthBytes) r of
          (r', Inl e) \<Rightarrow> (r', Inl (if e = IOErr EOF then ParseErr off ErrTruncated else e))
        | (r', Inr payload) \<Rightarrow> (r', Inr (packetData payload))))"

definition rd_next :: "packetReader \<Rightarrow> packetReader \<times> (parse_fail + packet)" where
  "rd_next r0 =
     (let off = rd_consumed r0 in
      case rd_read packetLengthBytes (r0\<lparr>rd_offset := off\<rparr>) of
        (r, Inl e) \<Rightarrow> (r, Inl e)
      | (r, Inr digits) \<Rightarrow>
        (case parseHexLength digits of
          None \<Rightarrow> (r, Inl (ParseErr off ErrMalformedPacket))
        | Some len \<Rightarrow> rd_dispatch off len r))"

definition trimLF :: "bytes \<Rightarrow> bytes" where
  "trimLF payload =
     (if payload \<noteq> [] \<and> last payload = CHR 0x0A then butlast payload else payload)"

subsection \<open>Frames\<close>

text \<open>
  The canonical wire form of a packet. \<open>fmt.Sprintf("%04x%s", len(payload)+4, payload)\<close> of
  the writers (\<open>internal/importfetch\<close>, \<open>internal/githttp\<close>) is \<open>pkt_line\<close> for every payload
  they accept, at most 65516 bytes.
\<close>

definition pkt_line :: "bytes \<Rightarrow> bytes" where
  "pkt_line payload = hex4 (length payload + 4) @ payload"

fun frame :: "packet \<Rightarrow> bytes" where
  "frame (packetData payload) = pkt_line payload"
| "frame packetFlush = ''0000''"
| "frame packetDelimiter = ''0001''"
| "frame packetResponseEnd = ''0002''"

fun sendable :: "packet \<Rightarrow> bool" where
  "sendable (packetData payload) \<longleftrightarrow> payload \<noteq> [] \<and> length payload + 4 \<le> protocolMaxPacket"
| "sendable _ \<longleftrightarrow> True"

lemma hex4_examples:
  "hex4 0 = ''0000''" "hex4 1 = ''0001''" "hex4 (Suc 0) = ''0001''" "hex4 2 = ''0002''"
  by code_simp+

lemma hex_value_digit_inv: "hex_value c = Some v \<Longrightarrow> c = hex_digit v"
  using hex_value_bound [of c v]
  by (intro byte_eq_iff [THEN iffD1])
    (auto simp: hex_value_def byte_hex_digit is_digit_def split: if_splits)

lemma parseHexLength_hex4 [simp]:
  assumes "n < 65536"
  shows "parseHexLength (hex4 n) = Some n"
proof -
  have d: "n div 256 = n div 16 div 16" "n div 4096 = n div 16 div 16 div 16"
    by (simp_all flip: div_mult2_eq)
  have "n div 16 div 16 div 16 < 16"
    using assms by (simp flip: div_mult2_eq add: less_mult_imp_div_less)
  then have n: "16 * (16 * (16 * (n div 4096 mod 16) + n div 256 mod 16) + n div 16 mod 16) + n mod 16 = n"
    by (simp only: d mod_less mult_div_mod_eq)
  have "parseHexLength (hex4 n) = Some
      (16 * (16 * (16 * (n div 4096 mod 16) + n div 256 mod 16) + n div 16 mod 16) + n mod 16)"
    unfolding parseHexLength_def hex4_def
    by (simp only: hex_length.simps hex_value_digit mod_less_divisor zero_less_numeral
        option.case mult_0_right add_0)
  then show ?thesis by (simp only: n)
qed

lemma parseHexLength_inv:
  assumes "length ds = 4" and "parseHexLength ds = Some n"
  shows "ds = hex4 n \<and> n < 65536"
proof -
  obtain a b c d where ds: "ds = [a, b, c, d]"
    using assms(1) by (auto simp: length_Suc_conv numeral_eq_Suc)
  obtain x y z w where v: "hex_value a = Some x" "hex_value b = Some y" "hex_value c = Some z"
      "hex_value d = Some w" and n: "n = 16 * (16 * (16 * x + y) + z) + w"
    using assms(2) by (auto simp: parseHexLength_def ds split: option.splits)
  have lt: "x < 16" "y < 16" "z < 16" "w < 16"
    using v hex_value_bound by blast+
  have step: "(16 * a + b) div 16 = a \<and> (16 * a + b) mod 16 = b" if "b < 16" for a b :: nat
    using that by simp
  have "n div 256 = n div 16 div 16" "n div 4096 = n div 16 div 16 div 16"
    by (simp_all flip: div_mult2_eq)
  then have "n div 4096 mod 16 = x" "n div 256 mod 16 = y" "n div 16 mod 16 = z" "n mod 16 = w"
    using lt by (simp_all only: n step mod_less)
  moreover have "n < 65536" using lt n by simp
  ultimately show ?thesis
    using v [THEN hex_value_digit_inv] by (simp add: hex4_def ds)
qed

lemma frame_length: "sendable p \<Longrightarrow> 4 \<le> length (frame p)"
  by (cases p) (auto simp: pkt_line_def)

subsection \<open>What one read does\<close>

text \<open>
  \<open>advance c r\<close> is the reader after consuming the chunk \<open>c\<close>; the budgets and the ending of
  the source never change.
\<close>

definition rd_data :: "packetReader \<Rightarrow> bytes" where
  "rd_data r = src_data (rd_source r)"

definition advanced :: "packetReader \<Rightarrow> bytes \<Rightarrow> packetReader \<Rightarrow> bool" where
  "advanced r c r' \<longleftrightarrow>
     rd_data r = c @ rd_data r' \<and>
     rd_consumed r' = rd_consumed r + int (length c) \<and>
     src_end (rd_source r') = src_end (rd_source r) \<and>
     rd_maxPacket r' = rd_maxPacket r \<and> rd_maxTotal r' = rd_maxTotal r"

lemma advanced_refl [simp]: "advanced r [] r"
  by (simp add: advanced_def)

lemma advanced_trans: "advanced r c r' \<Longrightarrow> advanced r' d r'' \<Longrightarrow> advanced r (c @ d) r''"
  by (auto simp: advanced_def)

lemma rd_read_Inr:
  assumes "rd_read n r = (r', Inr got)"
  shows "advanced r got r' \<and> length got = n \<and> rd_offset r' = rd_offset r
    \<and> rd_consumed r' \<le> rd_maxTotal r"
  using assms
  by (auto simp: rd_read_def ReadFull_def advanced_def rd_data_def Let_def
      split: if_splits option.splits io_error.splits)

lemma rd_read_ok:
  assumes "rd_data r = got @ rest" and "length got = n"
    and "rd_consumed r + int n \<le> rd_maxTotal r"
  shows "rd_read n r = (r\<lparr>rd_source := (rd_source r)\<lparr>src_data := rest\<rparr>,
           rd_consumed := rd_consumed r + int n\<rparr>, Inr got)"
  using assms by (auto simp: rd_read_def ReadFull_def rd_data_def Let_def)

lemma rd_read_budget:
  "rd_read n r = (r', x) \<Longrightarrow> rd_consumed r \<le> rd_maxTotal r \<Longrightarrow> rd_consumed r' \<le> rd_maxTotal r"
  by (auto simp: rd_read_def ReadFull_def Let_def split: if_splits option.splits)


subsection \<open>The framing laws\<close>

definition fits :: "packetReader \<Rightarrow> packet \<Rightarrow> bool" where
  "fits r p \<longleftrightarrow>
     (case p of packetData payload \<Rightarrow> int (length payload + 4) \<le> rd_maxPacket r | _ \<Rightarrow> True) \<and>
     rd_consumed r + int (length (frame p)) \<le> rd_maxTotal r"

lemma rd_read_fields:
  assumes "rd_read n r = (r', x)"
  shows "rd_maxPacket r' = rd_maxPacket r" "rd_maxTotal r' = rd_maxTotal r"
    "rd_offset r' = rd_offset r"
  using assms by (auto simp: rd_read_def Let_def split: if_splits prod.splits)

lemma advanced_offset [simp]: "advanced (r\<lparr>rd_offset := z\<rparr>) c r' = advanced r c r'"
  by (simp add: advanced_def rd_data_def)

lemma rd_next_Inr:
  assumes "rd_next r = (r', Inr p)"
  shows "advanced r (frame p) r'" "sendable p" "fits r p" "rd_offset r' = rd_consumed r"
    "rd_consumed r' \<le> rd_maxTotal r"
proof -
  let ?r0 = "r\<lparr>rd_offset := rd_consumed r\<rparr>"
  obtain r1 hd where h0: "rd_read 4 ?r0 = (r1, hd)" by (cases "rd_read 4 ?r0")
  obtain ds where h: "rd_read 4 ?r0 = (r1, Inr ds)"
    using assms h0 by (cases hd) (auto simp: rd_next_def)
  note H = rd_read_Inr [OF h]
  obtain n where n: "parseHexLength ds = Some n"
    using assms h by (cases "parseHexLength ds") (simp_all add: rd_next_def)
  have disp: "rd_dispatch (rd_consumed r) n r1 = (r', Inr p)"
    using assms h n by (simp add: rd_next_def)
  have ds: "ds = hex4 n" "n < 65536" using parseHexLength_inv [OF _ n] H by auto
  have A: "advanced r (hex4 n) r1" and T: "rd_consumed r1 \<le> rd_maxTotal r"
    and O: "rd_offset r1 = rd_consumed r" using H ds by simp_all
  have main: "advanced r (frame p) r' \<and> sendable p \<and> fits r p \<and> rd_offset r' = rd_consumed r
    \<and> rd_consumed r' \<le> rd_maxTotal r"
  proof (cases "n \<le> 2")
    case True
    then have "n = 0 \<or> n = 1 \<or> n = 2" by arith
    then show ?thesis
      using disp A T O by (auto simp: rd_dispatch_def hex4_examples fits_def advanced_def)
  next
    case False
    obtain payload where b: "rd_read (n - 4) r1 = (r', Inr payload)" and p: "p = packetData payload"
      and len: "n \<noteq> 3" "n \<noteq> 4" "n \<le> protocolMaxPacket" "int n \<le> rd_maxPacket r1"
      using disp False by (auto simp: rd_dispatch_def split: if_splits prod.splits sum.splits)
    note B = rd_read_Inr [OF b]
    have n': "n = length payload + 4" using B False len by auto
    have "advanced r (hex4 n @ payload) r'" using A B by (auto intro: advanced_trans)
    then have adv: "advanced r (frame p) r'" by (simp add: p pkt_line_def n')
    have mx: "rd_maxPacket r1 = rd_maxPacket r" "rd_maxTotal r1 = rd_maxTotal r"
      using A by (simp_all add: advanced_def)
    have "sendable p" using False len n' by (auto simp: p)
    moreover have "fits r p" using adv B len mx by (simp add: fits_def p n' advanced_def)
    ultimately show ?thesis using adv B O mx by simp
  qed
  then show "advanced r (frame p) r'" "sendable p" "fits r p" "rd_offset r' = rd_consumed r"
    "rd_consumed r' \<le> rd_maxTotal r" by simp_all
qed

lemma rd_next_frame:
  assumes "rd_data r = frame p @ rest" and "sendable p" and "fits r p"
  shows "rd_next r = (r\<lparr>rd_source := (rd_source r)\<lparr>src_data := rest\<rparr>,
      rd_consumed := rd_consumed r + int (length (frame p)), rd_offset := rd_consumed r\<rparr>, Inr p)"
proof -
  have hdr: "rd_read 4 (r\<lparr>rd_offset := rd_consumed r\<rparr>) = (r\<lparr>rd_offset := rd_consumed r,
      rd_source := (rd_source r)\<lparr>src_data := t\<rparr>, rd_consumed := rd_consumed r + 4\<rparr>, Inr h)"
    if "rd_data r = h @ t" "length h = 4" for h t
    using rd_read_ok [of "r\<lparr>rd_offset := rd_consumed r\<rparr>" h t 4] that assms(3) frame_length [OF assms(2)]
    by (simp add: fits_def rd_data_def)
  show ?thesis
  proof (cases p)
    case (packetData payload)
    let ?n = "length payload + 4"
    have d: "rd_data r = hex4 ?n @ (payload @ rest)" using assms(1) packetData by (simp add: pkt_line_def)
    have n: "5 \<le> ?n" "?n \<le> protocolMaxPacket" "?n < 65536" "int ?n \<le> rd_maxPacket r"
      "rd_consumed r + int ?n \<le> rd_maxTotal r"
      using assms(2,3) packetData by (auto simp: fits_def protocolMaxPacket_def pkt_line_def Suc_le_eq)
    let ?r1 = "r\<lparr>rd_offset := rd_consumed r, rd_source := (rd_source r)\<lparr>src_data := payload @ rest\<rparr>,
      rd_consumed := rd_consumed r + 4\<rparr>"
    have b: "rd_read (?n - 4) ?r1 = (?r1\<lparr>rd_source := (rd_source r)\<lparr>src_data := rest\<rparr>,
        rd_consumed := rd_consumed r + int ?n\<rparr>, Inr payload)"
      using rd_read_ok [of ?r1 payload rest "?n - 4"] n by (simp add: rd_data_def)
    show ?thesis
      using n b packetData unfolding rd_next_def Let_def hdr [OF d length_hex4]
      by (auto simp: pkt_line_def rd_dispatch_def)
  qed (use assms(1) hdr [of "frame p" rest] hex4_examples [symmetric] in \<open>auto simp: rd_next_def rd_dispatch_def Let_def\<close>)
qed

lemma rd_next_iff:
  "(\<exists>r'. rd_next r = (r', Inr p) \<and> rd_data r' = rest) \<longleftrightarrow>
   sendable p \<and> fits r p \<and> rd_data r = frame p @ rest"
  using rd_next_Inr [of r _ p] rd_next_frame [of r p rest]
  by (fastforce simp: advanced_def rd_data_def)


subsection \<open>More input, and less\<close>

definition with_tail :: "bytes \<Rightarrow> packetReader \<Rightarrow> packetReader" where
  "with_tail t r = r\<lparr>rd_source := (rd_source r)\<lparr>src_data := src_data (rd_source r) @ t\<rparr>\<rparr>"

definition truncation :: "parse_fail \<Rightarrow> bool" where
  "truncation e \<longleftrightarrow> e = IOErr EOF \<or> (\<exists>off. e = ParseErr off ErrTruncated)"

lemma with_tail_simps [simp]:
  "rd_data (with_tail t r) = rd_data r @ t" "rd_consumed (with_tail t r) = rd_consumed r"
  "rd_offset (with_tail t r) = rd_offset r" "rd_maxTotal (with_tail t r) = rd_maxTotal r"
  "rd_maxPacket (with_tail t r) = rd_maxPacket r"
  "src_end (rd_source (with_tail t r)) = src_end (rd_source r)"
  "fits (with_tail t r) p = fits r p"
  by (simp_all add: with_tail_def rd_data_def fits_def split: packet.split)

lemma rd_next_with_tail:
  assumes "rd_next r = (r', Inr p)"
  shows "rd_next (with_tail t r) = (with_tail t r', Inr p)"
proof -
  note N = rd_next_Inr [OF assms]
  obtain q where d: "rd_data r = frame p @ q" using N(1) by (auto simp: advanced_def)
  then have "rd_data (with_tail t r) = frame p @ (q @ t)" by simp
  from rd_next_frame [OF this N(2)] N(3)
  have "rd_next (with_tail t r) = ((with_tail t r)\<lparr>
      rd_source := (rd_source (with_tail t r))\<lparr>src_data := q @ t\<rparr>,
      rd_consumed := rd_consumed r + int (length (frame p)), rd_offset := rd_consumed r\<rparr>, Inr p)"
    by simp
  moreover have "r' = r\<lparr>rd_source := (rd_source r)\<lparr>src_data := q\<rparr>,
      rd_consumed := rd_consumed r + int (length (frame p)), rd_offset := rd_consumed r\<rparr>"
    using rd_next_frame [OF d N(2,3)] assms by simp
  ultimately show ?thesis by (simp add: with_tail_def)
qed

lemma rd_read_short:
  assumes "length (rd_data r) < n" and "src_end (rd_source r) = EOF"
    and "rd_consumed r + int n \<le> rd_maxTotal r"
  shows "\<exists>r' e. rd_read n r = (r', Inl e) \<and> truncation e"
  using assms by (auto simp: rd_read_def ReadFull_def rd_data_def truncation_def Let_def)

lemma rd_next_short:
  assumes "strict_prefix (rd_data r) (frame p)" and "sendable p" and "fits r p"
    and "src_end (rd_source r) = EOF"
  shows "\<exists>r' e. rd_next r = (r', Inl e) \<and> truncation e"
proof (cases "length (rd_data r) < 4")
  case True
  have b: "rd_consumed r + 4 \<le> rd_maxTotal r"
    using assms(3) frame_length [OF assms(2)] by (simp add: fits_def)
  have "length (rd_data (r\<lparr>rd_offset := rd_consumed r\<rparr>)) < 4" using True by (simp add: rd_data_def)
  from rd_read_short [OF this] obtain r' e
    where "rd_read 4 (r\<lparr>rd_offset := rd_consumed r\<rparr>) = (r', Inl e)" "truncation e"
    using assms(4) b by auto
  then show ?thesis by (auto simp: rd_next_def)
next
  case False
  have lt: "length (rd_data r) < length (frame p)" using assms(1) by (rule prefix_length_less)
  with False obtain payload where p: "p = packetData payload" by (cases p) auto
  let ?n = "length payload + 4"
  from assms(1) obtain u where u: "frame p = rd_data r @ u" by (auto simp: strict_prefix_def prefix_def)
  have d: "rd_data r = hex4 ?n @ drop 4 (rd_data r)"
  proof -
    have "take 4 (rd_data r) = take 4 (frame p)" using u False by simp
    also have "\<dots> = hex4 ?n" by (simp add: p pkt_line_def)
    finally show ?thesis by (metis append_take_drop_id)
  qed
  have n: "5 \<le> ?n" "?n \<le> protocolMaxPacket" "?n < 65536" "int ?n \<le> rd_maxPacket r"
    "rd_consumed r + int ?n \<le> rd_maxTotal r"
    using assms(2,3) p by (auto simp: fits_def protocolMaxPacket_def pkt_line_def Suc_le_eq)
  let ?r1 = "r\<lparr>rd_offset := rd_consumed r, rd_source := (rd_source r)\<lparr>src_data := drop 4 (rd_data r)\<rparr>,
      rd_consumed := rd_consumed r + 4\<rparr>"
  have hdr: "rd_read 4 (r\<lparr>rd_offset := rd_consumed r\<rparr>) = (?r1, Inr (hex4 ?n))"
    using rd_read_ok [of "r\<lparr>rd_offset := rd_consumed r\<rparr>" "hex4 ?n" "drop 4 (rd_data r)" 4] d n
    by (simp add: rd_data_def)
  have "length (rd_data ?r1) < length payload"
    using lt p False by (simp add: rd_data_def pkt_line_def)
  from rd_read_short [OF this] obtain r' e
    where "rd_read (length payload) ?r1 = (r', Inl e)" "truncation e"
    using assms(4) n by auto
  then show ?thesis
    using n hdr by (auto simp: rd_next_def rd_dispatch_def truncation_def Let_def)
qed

lemma rd_next_cut:
  assumes "rd_next (with_tail t r) = (r1, Inr p)" and "src_end (rd_source r) = EOF"
  shows "(\<exists>r'. rd_next r = (r', Inr p) \<and> r1 = with_tail t r') \<or>
    (\<exists>r' e. rd_next r = (r', Inl e) \<and> truncation e)"
proof -
  note N = rd_next_Inr [OF assms(1)]
  have d: "rd_data r @ t = frame p @ rd_data r1" using N(1) by (simp add: advanced_def)
  show ?thesis
  proof (cases "length (frame p) \<le> length (rd_data r)")
    case True
    with d obtain u where "rd_data r = frame p @ u"
      by (metis append_eq_append_conv_if append_take_drop_id)
    from rd_next_frame [OF this N(2)] N(3) obtain r' where r': "rd_next r = (r', Inr p)" by auto
    with rd_next_with_tail [OF this, of t] assms(1) show ?thesis by auto
  next
    case False
    with d have "strict_prefix (rd_data r) (frame p)"
      by (metis append_eq_append_conv2 nat_le_linear not_less prefixI strict_prefixI
          prefix_length_le append_Nil2 prefix_append)
    then show ?thesis using rd_next_short N(2,3) assms(2) by auto
  qed
qed


subsection \<open>Packet loops\<close>

text \<open>
  Every loop of the parsers reads a packet, turns the end of the body into a truncation,
  passes a read error on, and gives the packet with its offset to one handler, which fails,
  goes on with a new state or ends the loop.
\<close>

datatype ('f, 'g) progress = Again 'f | Done 'g

type_synonym ('f, 'g) handler = "int \<Rightarrow> packet \<Rightarrow> 'f \<Rightarrow> parse_fail + ('f, 'g) progress"

function read_packets ::
    "('f, 'g) handler \<Rightarrow> packetReader \<Rightarrow> 'f \<Rightarrow> parse_fail + (packetReader \<times> 'g)" where
  "read_packets handle r f =
     (case rd_next r of
       (r', Inl e) \<Rightarrow> Inl (if e = IOErr EOF then ParseErr (rd_offset r') ErrTruncated else e)
     | (r', Inr p) \<Rightarrow>
         (case handle (rd_offset r') p f of
           Inl e \<Rightarrow> Inl e
         | Inr (Done g) \<Rightarrow> Inr (r', g)
         | Inr (Again f') \<Rightarrow> read_packets handle r' f'))"
  by pat_completeness auto
termination
proof (relation "measure (\<lambda>(handle, r, f). length (rd_data r))", goal_cases)
  case (2 handle r f r1 res p y f')
  then have "rd_next r = (r1, Inr p)" by simp
  from rd_next_Inr(1,2) [OF this] frame_length [of p]
  show ?case by (auto simp: advanced_def)
qed simp

declare read_packets.simps [simp del]

lemma read_packets_eq_Inr:
  "read_packets handle r f = Inr (r', g) \<longleftrightarrow>
   (\<exists>r1 p. rd_next r = (r1, Inr p) \<and>
      (handle (rd_offset r1) p f = Inr (Done g) \<and> r' = r1 \<or>
       (\<exists>f'. handle (rd_offset r1) p f = Inr (Again f') \<and> read_packets handle r1 f' = Inr (r', g))))"
  by (subst read_packets.simps) (auto split: prod.splits sum.splits progress.splits)

lemma read_packets_advanced:
  "read_packets handle r f = Inr (r', g) \<Longrightarrow>
   \<exists>c. advanced r c r' \<and> c \<noteq> [] \<and> rd_consumed r' \<le> rd_maxTotal r"
proof (induction handle r f rule: read_packets.induct)
  case (1 handle r f)
  from "1.prems" obtain r1 p where n: "rd_next r = (r1, Inr p)"
    and c: "handle (rd_offset r1) p f = Inr (Done g) \<and> r' = r1 \<or>
       (\<exists>f'. handle (rd_offset r1) p f = Inr (Again f') \<and> read_packets handle r1 f' = Inr (r', g))"
    by (subst (asm) read_packets_eq_Inr) auto
  note N = rd_next_Inr [OF n]
  have ne: "frame p \<noteq> []" using frame_length [OF N(2)] by auto
  from c show ?case
  proof
    assume "\<exists>f'. handle (rd_offset r1) p f = Inr (Again f') \<and> read_packets handle r1 f' = Inr (r', g)"
    then obtain f' c' where "advanced r1 c' r'" "rd_consumed r' \<le> rd_maxTotal r1"
      using "1.IH" n by metis
    then show ?case using N ne advanced_trans [OF N(1)] by (auto simp: advanced_def)
  qed (use N ne in auto)
qed

lemma read_packets_with_tail:
  "read_packets handle r f = Inr (r', g) \<Longrightarrow>
   read_packets handle (with_tail t r) f = Inr (with_tail t r', g)"
proof (induction handle r f rule: read_packets.induct)
  case (1 handle r f)
  from "1.prems" obtain r1 p where n: "rd_next r = (r1, Inr p)"
    and c: "handle (rd_offset r1) p f = Inr (Done g) \<and> r' = r1 \<or>
       (\<exists>f'. handle (rd_offset r1) p f = Inr (Again f') \<and> read_packets handle r1 f' = Inr (r', g))"
    by (subst (asm) read_packets_eq_Inr) auto
  from c show ?case
    using rd_next_with_tail [OF n, of t] "1.IH" [OF n [symmetric]]
    by (subst read_packets_eq_Inr) auto
qed

lemma read_packets_cut:
  "read_packets handle (with_tail t r) f = Inr (r1, g) \<Longrightarrow> src_end (rd_source r) = EOF \<Longrightarrow>
   (\<exists>r'. read_packets handle r f = Inr (r', g) \<and> r1 = with_tail t r') \<or>
   (\<exists>off. read_packets handle r f = Inl (ParseErr off ErrTruncated))"
proof (induction handle r f rule: read_packets.induct)
  case (1 handle r f)
  from "1.prems"(1) obtain r2 p where n: "rd_next (with_tail t r) = (r2, Inr p)"
    and c: "handle (rd_offset r2) p f = Inr (Done g) \<and> r1 = r2 \<or>
       (\<exists>f'. handle (rd_offset r2) p f = Inr (Again f') \<and> read_packets handle r2 f' = Inr (r1, g))"
    by (subst (asm) read_packets_eq_Inr) auto
  from rd_next_cut [OF n "1.prems"(2)] show ?case
  proof
    assume "\<exists>r' e. rd_next r = (r', Inl e) \<and> truncation e"
    then show ?case by (subst (2) read_packets.simps) (auto simp: truncation_def)
  next
    assume "\<exists>r'. rd_next r = (r', Inr p) \<and> r2 = with_tail t r'"
    then obtain r' where r': "rd_next r = (r', Inr p)" "r2 = with_tail t r'" by auto
    have e: "src_end (rd_source r') = EOF"
      using rd_next_Inr(1) [OF r'(1)] "1.prems"(2) by (simp add: advanced_def)
    from c show ?case
    proof
      assume "handle (rd_offset r2) p f = Inr (Done g) \<and> r1 = r2"
      then show ?case using r' by (subst read_packets_eq_Inr) auto
    next
      assume "\<exists>f'. handle (rd_offset r2) p f = Inr (Again f') \<and> read_packets handle r2 f' = Inr (r1, g)"
      then obtain f' where f': "handle (rd_offset r') p f = Inr (Again f')"
        "read_packets handle (with_tail t r') f' = Inr (r1, g)" using r'(2) by auto
      have "read_packets handle r f = read_packets handle r' f'"
        using r'(1) f'(1) by (subst read_packets.simps) simp
      then show ?case using "1.IH" [OF r'(1) [symmetric] refl f'(1) refl f'(2) e] by simp
    qed
  qed
qed

lemma read_packets_rule:
  assumes "\<And>f off p f'. good f \<Longrightarrow> handle off p f = Inr (Again f') \<Longrightarrow> good f'"
    and "\<And>f off p g. good f \<Longrightarrow> handle off p f = Inr (Done g) \<Longrightarrow> post g"
    and "read_packets handle r f = Inr (r', g)" and "good f"
  shows "post g"
  using assms
proof (induction handle r f rule: read_packets.induct)
  case (1 handle r f)
  from "1.prems"(3) obtain r1 p where n: "rd_next r = (r1, Inr p)"
    and c: "handle (rd_offset r1) p f = Inr (Done g) \<and> r' = r1 \<or>
       (\<exists>f'. handle (rd_offset r1) p f = Inr (Again f') \<and> read_packets handle r1 f' = Inr (r', g))"
    by (subst (asm) read_packets_eq_Inr) auto
  from c show ?case
  proof
    assume "\<exists>f'. handle (rd_offset r1) p f = Inr (Again f') \<and> read_packets handle r1 f' = Inr (r', g)"
    then obtain f' where f': "handle (rd_offset r1) p f = Inr (Again f')"
      "read_packets handle r1 f' = Inr (r', g)" by auto
    have "good f'" using "1.prems"(1,4) f'(1) by blast
    with "1.IH" [OF n [symmetric] refl f'(1) refl] "1.prems"(1,2) f'(2) show ?case by blast
  qed (use "1.prems"(2,4) in blast)
qed

text \<open>
  On a body that is a sequence of packets the reader is out of the picture: a loop folds its
  handler over the packets, with the offset of each.
\<close>

definition frames :: "packet list \<Rightarrow> bytes" where
  "frames ps = concat (map frame ps)"

fun fold_packets :: "('f, 'g) handler \<Rightarrow> int \<Rightarrow> packet list \<Rightarrow> 'f \<Rightarrow> (int \<times> packet list \<times> 'g) option" where
  "fold_packets handle off [] f = None"
| "fold_packets handle off (p # ps) f =
     (case handle off p f of
       Inl e \<Rightarrow> None
     | Inr (Done g) \<Rightarrow> Some (off + int (length (frame p)), ps, g)
     | Inr (Again f') \<Rightarrow> fold_packets handle (off + int (length (frame p))) ps f')"

definition readable :: "packetReader \<Rightarrow> packet list \<Rightarrow> bool" where
  "readable r ps \<longleftrightarrow> list_all sendable ps \<and>
     list_all (\<lambda>p. case p of packetData x \<Rightarrow> int (length x + 4) \<le> rd_maxPacket r | _ \<Rightarrow> True) ps \<and>
     rd_consumed r + int (length (frames ps)) \<le> rd_maxTotal r"

definition reads_as :: "packetReader \<Rightarrow> packet list \<Rightarrow> bool" where
  "reads_as r ps \<longleftrightarrow> rd_data r = frames ps \<and> readable r ps"

lemma frames_simps [simp]: "frames [] = []" "frames (p # ps) = frame p @ frames ps"
  by (simp_all add: frames_def)

lemma rd_next_reads_as:
  assumes "reads_as r (p # ps)"
  obtains r' where "rd_next r = (r', Inr p)" "reads_as r' ps" "rd_offset r' = rd_consumed r"
    "rd_consumed r' = rd_consumed r + int (length (frame p))" "advanced r (frame p) r'"
proof -
  have "sendable p" "fits r p" "rd_data r = frame p @ frames ps"
    using assms by (auto simp: reads_as_def readable_def fits_def)
  from rd_next_frame [OF this(3,1,2)] show thesis
    by (rule that) (use assms in \<open>auto simp: reads_as_def readable_def rd_data_def advanced_def\<close>)
qed

lemma read_packets_fold:
  assumes "fold_packets handle (rd_consumed r) ps f = Some (off, qs, g)" and "reads_as r ps"
  shows "\<exists>r' c. read_packets handle r f = Inr (r', g) \<and> reads_as r' qs \<and> rd_consumed r' = off \<and> advanced r c r'"
  using assms
proof (induction ps arbitrary: r f)
  case (Cons p ps)
  obtain r1 where r1: "rd_next r = (r1, Inr p)" "reads_as r1 ps" "rd_offset r1 = rd_consumed r"
    "rd_consumed r1 = rd_consumed r + int (length (frame p))" "advanced r (frame p) r1"
    by (rule rd_next_reads_as [OF Cons.prems(2)])
  obtain y where y: "handle (rd_consumed r) p f = Inr y"
    using Cons.prems(1) by (cases "handle (rd_consumed r) p f") auto
  show ?case
  proof (cases y)
    case (Done g')
    then show ?thesis
      using Cons.prems(1) y r1 by (subst read_packets.simps) auto
  next
    case (Again f')
    with Cons.prems(1) y r1 have "fold_packets handle (rd_consumed r1) ps f' = Some (off, qs, g)" by simp
    from Cons.IH [OF this r1(2)] obtain r' c where "read_packets handle r1 f' = Inr (r', g)"
      "reads_as r' qs" "rd_consumed r' = off" "advanced r1 c r'" by blast
    then show ?thesis
      using r1 y Again advanced_trans by (subst read_packets.simps) fastforce
  qed
qed simp

text \<open>
  The contract of a handler: it keeps an invariant while it goes on and ends the loop only
  in a state with the result property. The loop then yields the result property.
\<close>

locale packet_handler =
  fixes handle :: "('f, 'g) handler" and good :: "'f \<Rightarrow> bool" and post :: "'g \<Rightarrow> bool"
  assumes handle_again: "good f \<Longrightarrow> handle off p f = Inr (Again f') \<Longrightarrow> good f'"
    and handle_done: "good f \<Longrightarrow> handle off p f = Inr (Done g) \<Longrightarrow> post g"
begin

lemma read_post: "read_packets handle r f = Inr (r', g) \<Longrightarrow> good f \<Longrightarrow> post g"
  using handle_again handle_done by (rule read_packets_rule)

end

end
