(* ===== verification/RefName.thy ===== *)
theory RefName
  imports Prelude
begin

text \<open>
  The reference name rules of \<open>internal/importgit/refname.go\<close>: the checks in the order the
  code makes them, each with its own refusal, and their meaning as one predicate on names.
  A check returns \<open>None\<close> for Go's \<open>nil\<close> error.
\<close>

datatype ref_error =
    NotHeadNorRefs | NotUtf8 | SingleAt | EndsWithDot | ConsecutiveDots | ReflogSequence
  | ControlCharacter | ForbiddenCharacter | OneComponent | EmptyComponent
  | ComponentBeginsWithDot | ComponentEndsWithLock

definition is_control :: "char \<Rightarrow> bool" where
  [char_defs]: "is_control c \<longleftrightarrow> byte c < 32 \<or> byte c = 127"

definition forbidden_chars :: bytes where
  "forbidden_chars = [CHR 0x5C, CHR ''~'', CHR 0x5E, CHR '':'', CHR '' '', CHR ''?'', CHR ''*'', CHR ''['']"

fun check_components :: "bytes list \<Rightarrow> ref_error option" where
  "check_components [] = None"
| "check_components (c # cs) =
     (if c = [] then Some EmptyComponent
      else if prefix ''.'' c then Some ComponentBeginsWithDot
      else if suffix ''.lock'' c then Some ComponentEndsWithLock
      else check_components cs)"

definition CheckRefFormat :: "bytes \<Rightarrow> ref_error option" where
  "CheckRefFormat name =
     (if name = ''@'' then Some SingleAt
      else if suffix ''.'' name then Some EndsWithDot
      else if contains_str ''..'' name then Some ConsecutiveDots
      else if contains_str [CHR ''@'', CHR ''{''] name then Some ReflogSequence
      else if list_ex is_control name then Some ControlCharacter
      else if list_ex (\<lambda>c. c \<in> set forbidden_chars) name then Some ForbiddenCharacter
      else let components = split_on (CHR ''/'') name
           in if length components < 2 then Some OneComponent
              else check_components components)"

definition validateRefName :: "bytes \<Rightarrow> ref_error option" where
  "validateRefName name =
     (if name = ''HEAD'' then None
      else if \<not> prefix ''refs/'' name then Some NotHeadNorRefs
      else if \<not> valid_utf8 name then Some NotUtf8
      else CheckRefFormat name)"

definition ValidBranchName :: "bytes \<Rightarrow> bool" where
  "ValidBranchName name \<longleftrightarrow> valid_utf8 name \<and> CheckRefFormat (''refs/heads/'' @ name) = None"

subsection \<open>The rules as one predicate\<close>

definition component_ok :: "bytes \<Rightarrow> bool" where
  "component_ok c \<longleftrightarrow> c \<noteq> [] \<and> hd c \<noteq> CHR ''.'' \<and> \<not> suffix ''.lock'' c"

definition ref_format_ok :: "bytes \<Rightarrow> bool" where
  "ref_format_ok name \<longleftrightarrow>
     2 \<le> length (split_on (CHR ''/'') name) \<and>
     (\<forall>c \<in> set (split_on (CHR ''/'') name). component_ok c) \<and>
     (\<forall>x \<in> set name. \<not> is_control x \<and> x \<notin> set forbidden_chars) \<and>
     (\<nexists>a b. name = a @ ''..'' @ b) \<and> (\<nexists>a b. name = a @ [CHR ''@'', CHR ''{''] @ b) \<and>
     (name \<noteq> [] \<longrightarrow> last name \<noteq> CHR ''.'')"

lemma check_components_None: "check_components cs = None \<longleftrightarrow> (\<forall>c \<in> set cs. component_ok c)"
proof (induction cs)
  case Nil
  show ?case by simp
next
  case (Cons c cs)
  have "prefix ''.'' c \<longleftrightarrow> c \<noteq> [] \<and> hd c = CHR ''.''" by (cases c) auto
  with Cons.IH show ?case by (auto simp: component_ok_def)
qed

lemma suffix_singleton: "suffix [x] s \<longleftrightarrow> s \<noteq> [] \<and> last s = x"
  by (cases s rule: rev_cases) (auto simp: suffix_def)

lemma CheckRefFormat_ok: "CheckRefFormat name = None \<longleftrightarrow> ref_format_ok name"
proof -
  have "\<not> ref_format_ok ''@''" by (simp add: ref_format_ok_def)
  then show ?thesis
    by (auto simp: CheckRefFormat_def ref_format_ok_def check_components_None contains_str_iff
        suffix_singleton list_ex_iff Let_def not_less)
qed

lemma validateRefName_ok:
  "validateRefName name = None \<longleftrightarrow>
   name = ''HEAD'' \<or> (prefix ''refs/'' name \<and> valid_utf8 name \<and> ref_format_ok name)"
  by (auto simp: validateRefName_def CheckRefFormat_ok)

lemma validateRefName_branch:
  "validateRefName (''refs/heads/'' @ name) = None \<longleftrightarrow> ValidBranchName name"
proof -
  have "valid_utf8 (''refs/heads/'' @ name) = valid_utf8 name"
    by (rule valid_utf8_ascii_append) (simp add: byte_def)
  then show ?thesis by (auto simp: validateRefName_ok ValidBranchName_def CheckRefFormat_ok)
qed

text \<open>
  What the other components rely on: an accepted name is one field of a text line, and as a
  path it stays below the directory it is joined to.
\<close>

definition field_safe :: "bytes \<Rightarrow> bool" where
  "field_safe s \<longleftrightarrow> s \<noteq> [] \<and> CHR '' '' \<notin> set s \<and> CHR 0x0A \<notin> set s \<and> CHR 0x00 \<notin> set s"

definition path_safe :: "bytes \<Rightarrow> bool" where
  "path_safe s \<longleftrightarrow> (\<forall>c \<in> set (split_on (CHR ''/'') s). c \<noteq> [] \<and> c \<noteq> ''.'' \<and> c \<noteq> ''..'')"

lemma validateRefName_field_safe:
  assumes "validateRefName name = None"
  shows "field_safe name"
proof (cases "name = ''HEAD''")
  case True
  then show ?thesis by (simp add: field_safe_def)
next
  case False
  with assms have "prefix ''refs/'' name" "ref_format_ok name" by (auto simp: validateRefName_ok)
  moreover have "is_control (CHR 0x0A)" "is_control (CHR 0x00)" "CHR '' '' \<in> set forbidden_chars"
    by (simp_all add: is_control_def byte_def forbidden_chars_def)
  ultimately show ?thesis by (auto simp: field_safe_def ref_format_ok_def)
qed

lemma validateRefName_path_safe:
  assumes "validateRefName name = None"
  shows "path_safe name"
proof (cases "name = ''HEAD''")
  case False
  with assms have "\<forall>c \<in> set (split_on (CHR ''/'') name). component_ok c"
    by (auto simp: validateRefName_ok ref_format_ok_def)
  then show ?thesis by (auto simp: path_safe_def component_ok_def)
qed (simp add: path_safe_def)

end
