(* ===== verification/Advertisement.thy ===== *)
theory Advertisement
  imports PktLine RefName
begin

text \<open>
  The advertisement parser of \<open>internal/importgit/advertisement.go\<close> with the protocol v2
  capability list of \<open>internal/importgit/v2.go\<close>. The parse state of the code is split into
  the packet reader, which the loops of \<open>PktLine\<close> thread, and \<open>parseFacts\<close>, which the record
  handlers change. Each handler is one iteration of the loop of the code it models.
\<close>

subsection \<open>Limits and options\<close>

record Limits =
  MaxPacketBytes :: int
  MaxTotalBytes :: int
  MaxRefRecords :: int
  MaxNameBytes :: int
  MaxCapabilities :: int
  MaxCapabilityBytes :: int

definition DefaultLimits :: Limits where
  "DefaultLimits = \<lparr>MaxPacketBytes = int protocolMaxPacket, MaxTotalBytes = 16 * 2 ^ 20,
     MaxRefRecords = 50000, MaxNameBytes = 1024, MaxCapabilities = 256, MaxCapabilityBytes = 1024\<rparr>"

definition or_default :: "int \<Rightarrow> int \<Rightarrow> int" where
  "or_default x d = (if x = 0 then d else x)"

definition Effective :: "Limits \<Rightarrow> parse_fail + Limits" where
  "Effective l =
     (if list_ex (\<lambda>v. v < 0) [MaxPacketBytes l, MaxRefRecords l, MaxNameBytes l,
           MaxCapabilities l, MaxCapabilityBytes l] \<or> MaxTotalBytes l < 0
      then Inl (OptionErr ErrInvalidLimits)
      else if or_default (MaxPacketBytes l) (MaxPacketBytes DefaultLimits) > int protocolMaxPacket
      then Inl (OptionErr ErrInvalidLimits)
      else Inr \<lparr>MaxPacketBytes = or_default (MaxPacketBytes l) (MaxPacketBytes DefaultLimits),
        MaxTotalBytes = or_default (MaxTotalBytes l) (MaxTotalBytes DefaultLimits),
        MaxRefRecords = or_default (MaxRefRecords l) (MaxRefRecords DefaultLimits),
        MaxNameBytes = or_default (MaxNameBytes l) (MaxNameBytes DefaultLimits),
        MaxCapabilities = or_default (MaxCapabilities l) (MaxCapabilities DefaultLimits),
        MaxCapabilityBytes = or_default (MaxCapabilityBytes l) (MaxCapabilityBytes DefaultLimits)\<rparr>)"

record Options =
  opt_Limits :: Limits
  opt_Service :: bytes
  opt_ProtocolV2 :: bool

subsection \<open>What an advertisement states\<close>

record Ref =
  ref_Name :: bytes
  ref_OID :: bytes
  ref_PeeledOID :: bytes
  ref_SymrefTarget :: bytes

record Symref =
  sym_Name :: bytes
  sym_Target :: bytes

record Head =
  head_Advertised :: bool
  head_OID :: bytes
  head_PeeledOID :: bytes
  head_SymrefTarget :: bytes

record Advertisement =
  ad_Service :: bytes
  ad_ProtocolVersion :: nat
  ad_ObjectFormat :: bytes
  ad_ObjectFormatAdvertised :: bool
  ad_Capabilities :: "bytes list"
  ad_Refs :: "Ref list"
  ad_Head :: Head
  ad_Symrefs :: "Symref list"
  ad_Empty :: bool
  ad_EffectiveLimits :: Limits
  ad_TotalBytes :: int

definition FormatSHA1 :: bytes where "FormatSHA1 = ''sha1''"

definition FormatSHA256 :: bytes where "FormatSHA256 = ''sha256''"

definition DefaultService :: bytes where "DefaultService = ''git-upload-pack''"

definition emptyHead :: Head where
  "emptyHead = \<lparr>head_Advertised = False, head_OID = [], head_PeeledOID = [], head_SymrefTarget = []\<rparr>"

record parseFacts =
  ps_limits :: Limits
  ps_result :: Advertisement
  ps_names :: "bytes \<rightharpoonup> nat"
  ps_oidWidth :: nat
  ps_records :: int
  ps_v2 :: bool
  ps_prefixes :: "bytes list"
  ps_unrequested :: "bytes set"

abbreviation fail :: "int \<Rightarrow> err_kind \<Rightarrow> parse_fail + 'a" where
  "fail off e \<equiv> Inl (ParseErr off e)"

subsection \<open>Object IDs and tokens\<close>

definition oidWidth :: "bytes \<Rightarrow> nat" where
  "oidWidth format = (if format = FormatSHA256 then 64 else 40)"

definition isZeroOID :: "bytes \<Rightarrow> bool" where
  "isZeroOID oid \<longleftrightarrow> count_list oid (CHR ''0'') = length oid \<and> 0 < length oid"

definition isHexOID :: "bytes \<Rightarrow> bool" where
  "isHexOID value = list_all (\<lambda>c. is_hex_lower c \<or> is_hex_upper c) value"

definition canonicalOID :: "bytes \<Rightarrow> bytes" where
  "canonicalOID oid = ascii_lower oid"

definition validCapabilityKey :: "bytes \<Rightarrow> bool" where
  "validCapabilityKey key \<longleftrightarrow> key \<noteq> [] \<and>
     list_all (\<lambda>c. is_lower c \<or> is_digit c \<or> c = CHR ''-'' \<or> c = CHR ''_'') key"

definition validCapabilityValue :: "bytes \<Rightarrow> bool" where
  "validCapabilityValue value \<longleftrightarrow> value \<noteq> [] \<and> list_all (\<lambda>c. 33 \<le> byte c \<and> byte c \<le> 126) value"

fun decimal :: "nat \<Rightarrow> bytes \<Rightarrow> nat option" where
  "decimal version [] = Some version"
| "decimal version (d # ds) =
     (if is_digit d then decimal (version * 10 + (byte d - 48)) ds else None)"

definition parseVersionLine :: "bytes \<Rightarrow> nat option" where
  "parseVersionLine line =
     (case cut_prefix ''version '' line of
       None \<Rightarrow> None
     | Some digits \<Rightarrow> if digits = [] \<or> length digits > 3 then None else decimal 0 digits)"

definition sanitizeRemoteText :: "bytes \<Rightarrow> bytes" where
  "sanitizeRemoteText text =
     map (\<lambda>c. if byte c < 32 \<or> byte c = 127 then CHR ''?'' else c) (take 200 text)
     @ (if length text > 200 then ''...'' else [])"

definition checkErrorPacket :: "int \<Rightarrow> bytes \<Rightarrow> parse_fail + unit" where
  "checkErrorPacket off line =
     (case cut_prefix ''ERR '' line of
       None \<Rightarrow> Inr ()
     | Some text \<Rightarrow> fail off (ErrRemoteError (sanitizeRemoteText text)))"

fun unsupportedControl :: "int \<Rightarrow> packet \<Rightarrow> parse_fail + 'a" where
  "unsupportedControl off packetDelimiter = fail off ErrUnsupportedVersion"
| "unsupportedControl off packetResponseEnd = fail off ErrUnsupportedVersion"
| "unsupportedControl off packetFlush = fail off ErrMalformedService"
| "unsupportedControl off (packetData payload) = fail off ErrMalformedPacket"

subsection \<open>Records\<close>

definition splitRecord :: "int \<Rightarrow> bytes \<Rightarrow> parseFacts \<Rightarrow> parse_fail + bytes \<times> bytes" where
  "splitRecord off line s =
     (let (oid, name, found) = cut (CHR '' '') line in
      if \<not> found then fail off ErrInvalidRecord
      else if length oid \<noteq> ps_oidWidth s then fail off ErrObjectFormat
      else if \<not> isHexOID oid then fail off ErrInvalidObjectID
      else if name = [] then fail off ErrInvalidName
      else if int (length name) > MaxNameBytes (ps_limits s) then fail off ErrLimitExceeded
      else Inr (canonicalOID oid, name))"

definition addRef :: "int \<Rightarrow> bytes \<Rightarrow> bytes \<Rightarrow> parseFacts \<Rightarrow> parse_fail + parseFacts" where
  "addRef off oid name s =
     (if isZeroOID oid then fail off ErrInvalidObjectID
      else if validateRefName name \<noteq> None then fail off ErrInvalidName
      else if ps_names s name \<noteq> None then fail off ErrConflictingRefs
      else
        let res = ps_result s;
            res1 = res\<lparr>ad_Refs := ad_Refs res @
              [\<lparr>ref_Name = name, ref_OID = oid, ref_PeeledOID = [], ref_SymrefTarget = []\<rparr>]\<rparr>;
            res2 = (if name = ''HEAD''
              then res1\<lparr>ad_Head := (ad_Head res1)\<lparr>head_Advertised := True, head_OID := oid\<rparr>\<rparr> else res1)
        in Inr (s\<lparr>ps_names := (ps_names s)(name \<mapsto> length (ad_Refs res)), ps_result := res2\<rparr>))"

definition setPeeled :: "bytes \<Rightarrow> bytes \<Rightarrow> Advertisement \<Rightarrow> Advertisement" where
  "setPeeled oid base res =
     (let i = length (ad_Refs res) - 1;
          res1 = res\<lparr>ad_Refs := (ad_Refs res)[i := (ad_Refs res ! i)\<lparr>ref_PeeledOID := oid\<rparr>]\<rparr>
      in if base = ''HEAD'' then res1\<lparr>ad_Head := (ad_Head res1)\<lparr>head_PeeledOID := oid\<rparr>\<rparr> else res1)"

definition addPeeled :: "int \<Rightarrow> bytes \<Rightarrow> bytes \<Rightarrow> parseFacts \<Rightarrow> parse_fail + parseFacts" where
  "addPeeled off oid base s =
     (let refs = ad_Refs (ps_result s) in
      if refs = [] then fail off ErrInvalidRecord
      else if ref_Name (last refs) \<noteq> base then fail off ErrInvalidRecord
      else if ref_PeeledOID (last refs) \<noteq> [] then fail off ErrConflictingRefs
      else if isZeroOID oid then fail off ErrInvalidObjectID
      else Inr (s\<lparr>ps_result := setPeeled oid base (ps_result s)\<rparr>))"

definition peeledSuffix :: bytes where
  "peeledSuffix = [CHR 0x5E, CHR ''{'', CHR ''}'']"

definition readRecord :: "int \<Rightarrow> bytes \<Rightarrow> parseFacts \<Rightarrow> parse_fail + parseFacts" where
  "readRecord off line s =
     (if CHR 0x00 \<in> set line then fail off ErrInvalidRecord
      else bindE (splitRecord off line s) (\<lambda>(oid, name).
        case cut_suffix peeledSuffix name of
          Some base \<Rightarrow> addPeeled off oid base s
        | None \<Rightarrow> addRef off oid name s))"

definition readShallow :: "int \<Rightarrow> bytes \<Rightarrow> bool \<Rightarrow> parseFacts \<Rightarrow> parse_fail" where
  "readShallow off line first s =
     ParseErr off
     (case cut_prefix ''shallow '' line of
       None \<Rightarrow> ErrInvalidRecord
     | Some oid \<Rightarrow>
         if first then ErrInvalidRecord
         else if length oid \<noteq> ps_oidWidth s then ErrObjectFormat
         else if \<not> isHexOID oid then ErrInvalidObjectID
         else if isZeroOID (canonicalOID oid) then ErrInvalidObjectID
         else ErrIncompleteHistory)"

subsection \<open>Capabilities of the first record\<close>

definition readSymref :: "int \<Rightarrow> bytes \<Rightarrow> bool \<Rightarrow> Advertisement \<Rightarrow> parse_fail + Advertisement" where
  "readSymref off value hasValue res =
     (let (name, target, found) = cut (CHR '':'') value in
      if \<not> hasValue \<or> \<not> found then fail off ErrInvalidCapability
      else if validateRefName name \<noteq> None then fail off ErrInvalidName
      else if validateRefName target \<noteq> None then fail off ErrInvalidName
      else if \<exists>x \<in> set (ad_Symrefs res). sym_Name x = name then fail off ErrConflictingRefs
      else Inr (res\<lparr>ad_Symrefs := ad_Symrefs res @ [\<lparr>sym_Name = name, sym_Target = target\<rparr>]\<rparr>))"

definition readFormat ::
    "int \<Rightarrow> bytes \<Rightarrow> bool \<Rightarrow> bool \<Rightarrow> Advertisement \<Rightarrow> parse_fail + bool \<times> Advertisement" where
  "readFormat off value hasValue seenFormat res =
     (if \<not> hasValue then fail off ErrObjectFormat
      else if seenFormat then Inr (True, res)
      else if value \<noteq> FormatSHA1 \<and> value \<noteq> FormatSHA256 then fail off ErrObjectFormat
      else Inr (True, res\<lparr>ad_ObjectFormat := value, ad_ObjectFormatAdvertised := True\<rparr>))"

definition readCapability ::
    "int \<Rightarrow> Limits \<Rightarrow> bytes \<Rightarrow> int \<Rightarrow> bool \<Rightarrow> Advertisement \<Rightarrow> parse_fail + bool \<times> Advertisement" where
  "readCapability off limits token count seenFormat res =
     (if count > MaxCapabilities limits then fail off ErrLimitExceeded
      else if token = [] then fail off ErrInvalidCapability
      else if int (length token) > MaxCapabilityBytes limits then fail off ErrLimitExceeded
      else
        let (key, value, hasValue) = cut (CHR ''='') token in
        if \<not> validCapabilityKey key then fail off ErrInvalidCapability
        else if hasValue \<and> \<not> validCapabilityValue value then fail off ErrInvalidCapability
        else
          bindE
            (if key = ''object-format'' then readFormat off value hasValue seenFormat res
             else if key = ''symref'' then map_sum id (Pair seenFormat) (readSymref off value hasValue res)
             else Inr (seenFormat, res))
            (\<lambda>(seen, res1). Inr (seen, res1\<lparr>ad_Capabilities := ad_Capabilities res1 @ [token]\<rparr>)))"

function readTokens ::
    "int \<Rightarrow> Limits \<Rightarrow> bytes \<Rightarrow> int \<Rightarrow> bool \<Rightarrow> Advertisement \<Rightarrow> parse_fail + Advertisement" where
  "readTokens off limits remaining count seenFormat res =
     (case cut (CHR '' '') remaining of (token, rest, again) \<Rightarrow>
        bindE (readCapability off limits token (count + 1) seenFormat res) (\<lambda>(seen, res1).
          if again then readTokens off limits rest (count + 1) seen res1 else Inr res1))"
  by pat_completeness auto
termination
proof (relation "measure (\<lambda>(off, limits, remaining, count, seenFormat, res). length remaining)",
    goal_cases)
  case (2 off limits remaining count seenFormat res token y rest again)
  then show ?case by (cases rule: cut_cases [of remaining "CHR '' ''"]) auto
qed simp

declare readTokens.simps [simp del]

definition readCapabilities :: "int \<Rightarrow> bytes \<Rightarrow> parseFacts \<Rightarrow> parse_fail + parseFacts" where
  "readCapabilities off list s =
     (if list = [] then fail off ErrInvalidCapability
      else bindE (readTokens off (ps_limits s) list 0 False (ps_result s)) (\<lambda>res.
        Inr (s\<lparr>ps_result := res\<rparr>)))"

definition capabilitiesSentinel :: bytes where
  "capabilitiesSentinel = ''capabilities'' @ peeledSuffix"

definition readFirstRecord :: "int \<Rightarrow> bytes \<Rightarrow> parseFacts \<Rightarrow> parse_fail + bool \<times> parseFacts" where
  "readFirstRecord off line s0 =
     (let (record_part, list, found) = cut (CHR 0x00) line in
      if \<not> found then fail off ErrInvalidRecord
      else bindE (readCapabilities off list s0) (\<lambda>s1.
        let s = s1\<lparr>ps_oidWidth := oidWidth (ad_ObjectFormat (ps_result s1))\<rparr> in
        bindE (splitRecord off record_part s) (\<lambda>(oid, name).
          if name = capabilitiesSentinel then
            (if \<not> isZeroOID oid then fail off ErrInvalidRecord
             else Inr (True, s\<lparr>ps_result := (ps_result s)\<lparr>ad_Empty := True\<rparr>\<rparr>))
          else if suffix peeledSuffix name then fail off ErrInvalidRecord
          else bindE (addRef off oid name s) (\<lambda>s'. Inr (False, s')))))"


subsection \<open>The loops\<close>

text \<open>
  \<open>readServiceAnnouncement\<close>: the state says whether the announcement was read, so the flush
  packet must follow. It ends with true when the response starts with an accepted
  \<open>version 2\<close>.
\<close>

definition announcementHandler :: "parseFacts \<Rightarrow> (bool, bool) handler" where
  "announcementHandler s off p announced =
     (case p of
       packetData payload \<Rightarrow>
         (let line = trimLF payload in
          bindE (checkErrorPacket off line) (\<lambda>_.
            if announced then fail off ErrMalformedService
            else case cut_prefix ''# service='' line of
              Some advertised \<Rightarrow>
                (if advertised \<noteq> ad_Service (ps_result s) then fail off ErrMalformedService
                 else Inr (Again True))
            | None \<Rightarrow>
                (case parseVersionLine line of
                  Some version \<Rightarrow>
                    (if version = 2 \<and> ps_v2 s then Inr (Done True)
                     else if version > 1 then fail off ErrUnsupportedVersion
                     else fail off ErrMalformedService)
                | None \<Rightarrow> fail off ErrMalformedService)))
     | packetFlush \<Rightarrow> if announced then Inr (Done False) else unsupportedControl off p
     | _ \<Rightarrow> unsupportedControl off p)"

text \<open>
  \<open>readRefList\<close>: the three local flags of the loop and the facts. It ends with true when the
  list turns out to be an accepted v2 capability advertisement, which the code goes on to read.
\<close>

record refListState =
  rl_first :: bool
  rl_sawVersion :: bool
  rl_sawSentinel :: bool
  rl_facts :: parseFacts

definition versionPacket ::
    "int \<Rightarrow> nat \<Rightarrow> refListState \<Rightarrow> parse_fail + (refListState, bool \<times> parseFacts) progress" where
  "versionPacket off version l =
     (let s = rl_facts l in
      if version = 2 \<and> ps_v2 s \<and> rl_first l \<and> \<not> rl_sawVersion l then Inr (Done (True, s))
      else if version > 1 then fail off ErrUnsupportedVersion
      else if \<not> rl_first l \<or> rl_sawVersion l then fail off ErrInvalidRecord
      else if version \<noteq> 1 then fail off ErrInvalidRecord
      else Inr (Again (l\<lparr>rl_sawVersion := True,
             rl_facts := s\<lparr>ps_result := (ps_result s)\<lparr>ad_ProtocolVersion := 1\<rparr>\<rparr>\<rparr>)))"

definition countRecord :: "int \<Rightarrow> parseFacts \<Rightarrow> parse_fail + parseFacts" where
  "countRecord off s =
     (if ps_records s + 1 > MaxRefRecords (ps_limits s) then fail off ErrTooManyRefs
      else Inr (s\<lparr>ps_records := ps_records s + 1\<rparr>))"

definition refRecord ::
    "int \<Rightarrow> bytes \<Rightarrow> refListState \<Rightarrow> parse_fail + (refListState, bool \<times> parseFacts) progress" where
  "refRecord off line l =
     bindE (countRecord off (rl_facts l)) (\<lambda>s.
       if line = ''shallow'' \<or> prefix ''shallow '' line then Inl (readShallow off line (rl_first l) s)
       else if rl_first l then
         bindE (readFirstRecord off line s) (\<lambda>(sentinel, s').
           Inr (Again (l\<lparr>rl_first := False, rl_sawSentinel := sentinel, rl_facts := s'\<rparr>)))
       else if rl_sawSentinel l then fail off ErrConflictingRefs
       else bindE (readRecord off line s) (\<lambda>s'. Inr (Again (l\<lparr>rl_facts := s'\<rparr>))))"

definition refListHandler :: "(refListState, bool \<times> parseFacts) handler" where
  "refListHandler off p l =
     (case p of
       packetFlush \<Rightarrow>
         if rl_first l then fail off ErrInvalidRecord else Inr (Done (False, rl_facts l))
     | packetData payload \<Rightarrow>
         (let line = trimLF payload in
          bindE (checkErrorPacket off line) (\<lambda>_.
            case parseVersionLine line of
              Some version \<Rightarrow> versionPacket off version l
            | None \<Rightarrow> refRecord off line l))
     | _ \<Rightarrow> unsupportedControl off p)"

text \<open>\<open>readV2Capabilities\<close>: the keys seen so far and the facts.\<close>

definition v2Capability ::
    "int \<Rightarrow> bytes \<Rightarrow> bytes set \<times> parseFacts \<Rightarrow> parse_fail + bytes set \<times> parseFacts" where
  "v2Capability off line st =
     (let (seen, s) = st; res = ps_result s; limits = ps_limits s;
          (key, value, hasValue) = cut (CHR ''='') line in
      if int (length (ad_Capabilities res)) \<ge> MaxCapabilities limits then fail off ErrLimitExceeded
      else if int (length line) > MaxCapabilityBytes limits then fail off ErrLimitExceeded
      else if \<not> validCapabilityKey key then fail off ErrInvalidCapability
      else if hasValue \<and> (value = [] \<or> list_ex (\<lambda>c. byte c < 32 \<or> byte c > 126) value)
      then fail off ErrInvalidCapability
      else if key \<in> seen then fail off ErrInvalidCapability
      else
        bindE
          (if key = ''object-format'' then
             (if value \<noteq> FormatSHA1 \<and> value \<noteq> FormatSHA256 then fail off ErrObjectFormat
              else Inr (res\<lparr>ad_ObjectFormat := value, ad_ObjectFormatAdvertised := True\<rparr>))
           else Inr res)
          (\<lambda>res1. Inr (insert key seen,
             s\<lparr>ps_result := res1\<lparr>ad_Capabilities := ad_Capabilities res1 @ [line]\<rparr>\<rparr>)))"

definition v2CapabilitiesHandler :: "(bytes set \<times> parseFacts, bytes set \<times> parseFacts) handler" where
  "v2CapabilitiesHandler off p st =
     (case p of
       packetFlush \<Rightarrow> Inr (Done st)
     | packetData payload \<Rightarrow>
         (let line = trimLF payload in
          bindE (checkErrorPacket off line) (\<lambda>_. map_sum id Again (v2Capability off line st)))
     | _ \<Rightarrow> fail off ErrMalformedPacket)"

definition readV2Capabilities ::
    "packetReader \<Rightarrow> parseFacts \<Rightarrow> parse_fail + packetReader \<times> parseFacts" where
  "readV2Capabilities r s =
     bindE (read_packets v2CapabilitiesHandler r
              ({}, s\<lparr>ps_result := (ps_result s)\<lparr>ad_ProtocolVersion := 2\<rparr>\<rparr>))
       (\<lambda>(r', seen, s').
          if ''ls-refs'' \<notin> seen \<or> ''fetch'' \<notin> seen then fail (rd_consumed r') ErrInvalidCapability
          else Inr (r', s'))"

definition readRefList ::
    "packetReader \<Rightarrow> parseFacts \<Rightarrow> parse_fail + packetReader \<times> parseFacts" where
  "readRefList r s =
     bindE (read_packets refListHandler r
        \<lparr>rl_first = True, rl_sawVersion = False, rl_sawSentinel = False,
         rl_facts = s\<lparr>ps_oidWidth := oidWidth (ad_ObjectFormat (ps_result s))\<rparr>\<rparr>)
       (\<lambda>(r', v2, s'). if v2 then readV2Capabilities r' s' else Inr (r', s'))"

subsection \<open>The end of the response\<close>

definition applySymref :: "int \<Rightarrow> (bytes \<rightharpoonup> nat) \<Rightarrow> Symref \<Rightarrow> Advertisement \<Rightarrow> parse_fail + Advertisement" where
  "applySymref off names sr res =
     bindE
       (case names (sym_Name sr) of
         None \<Rightarrow> Inr res
       | Some i \<Rightarrow>
           (let res1 = res\<lparr>ad_Refs := (ad_Refs res)[i := (ad_Refs res ! i)\<lparr>ref_SymrefTarget := sym_Target sr\<rparr>]\<rparr>
            in case names (sym_Target sr) of
                 None \<Rightarrow> Inr res1
               | Some j \<Rightarrow> if ref_OID (ad_Refs res1 ! j) \<noteq> ref_OID (ad_Refs res1 ! i)
                            then fail off ErrConflictingRefs else Inr res1))
       (\<lambda>res1. Inr (if sym_Name sr = ''HEAD''
          then res1\<lparr>ad_Head := (ad_Head res1)\<lparr>head_SymrefTarget := sym_Target sr\<rparr>\<rparr> else res1))"

fun applySymrefs ::
    "int \<Rightarrow> (bytes \<rightharpoonup> nat) \<Rightarrow> Symref list \<Rightarrow> Advertisement \<Rightarrow> parse_fail + Advertisement" where
  "applySymrefs off names [] res = Inr res"
| "applySymrefs off names (sr # srs) res =
     bindE (applySymref off names sr res) (applySymrefs off names srs)"

definition requireEndOfResponse ::
    "packetReader \<Rightarrow> parseFacts \<Rightarrow> parse_fail + Advertisement" where
  "requireEndOfResponse r s =
     bindE (applySymrefs (rd_consumed r) (ps_names s) (ad_Symrefs (ps_result s)) (ps_result s)) (\<lambda>res.
       case ReadFull 1 (rd_source r) of (src, got, err) \<Rightarrow>
         if got \<noteq> [] then fail (rd_consumed r) ErrTrailingContent
         else case err of
           None \<Rightarrow> Inr res
         | Some EOF \<Rightarrow> Inr res
         | Some e \<Rightarrow> Inl (IOErr e))"

subsection \<open>Parse\<close>

definition run_parse :: "packetReader \<Rightarrow> parseFacts \<Rightarrow> parse_fail + packetReader \<times> Advertisement" where
  "run_parse r s =
     bindE (read_packets (announcementHandler s) r False) (\<lambda>(r1, v2).
     bindE (if v2 then readV2Capabilities r1 s else readRefList r1 s) (\<lambda>(r2, s2).
     bindE (requireEndOfResponse r2 s2) (\<lambda>res. Inr (r2, res))))"

definition startReader :: "byte_source \<Rightarrow> Limits \<Rightarrow> packetReader" where
  "startReader src limits = \<lparr>rd_source = src, rd_maxPacket = MaxPacketBytes limits,
     rd_maxTotal = MaxTotalBytes limits, rd_consumed = 0, rd_offset = 0\<rparr>"

definition startFacts :: "Options \<Rightarrow> Limits \<Rightarrow> bytes \<Rightarrow> parseFacts" where
  "startFacts opts limits service = \<lparr>ps_limits = limits,
     ps_result = \<lparr>ad_Service = service, ad_ProtocolVersion = 0, ad_ObjectFormat = FormatSHA1,
       ad_ObjectFormatAdvertised = False, ad_Capabilities = [], ad_Refs = [], ad_Head = emptyHead,
       ad_Symrefs = [], ad_Empty = False, ad_EffectiveLimits = limits, ad_TotalBytes = 0\<rparr>,
     ps_names = Map.empty, ps_oidWidth = 0, ps_records = 0, ps_v2 = opt_ProtocolV2 opts,
     ps_prefixes = [], ps_unrequested = {}\<rparr>"

definition Parse :: "byte_source option \<Rightarrow> Options \<Rightarrow> parse_fail + Advertisement" where
  "Parse source opts =
     (case source of
       None \<Rightarrow> Inl (OptionErr ErrInvalidOptions)
     | Some src \<Rightarrow>
         bindE (Effective (opt_Limits opts)) (\<lambda>limits.
           let service = (if opt_Service opts = [] then DefaultService else opt_Service opts) in
           if service \<noteq> DefaultService then Inl (OptionErr ErrInvalidOptions)
           else bindE (run_parse (startReader src limits) (startFacts opts limits service)) (\<lambda>(r, res).
             Inr (res\<lparr>ad_TotalBytes := rd_consumed r\<rparr>))))"

end
