(* ===== verification/AdvertisementStream.thy ===== *)
theory AdvertisementStream
  imports Advertisement
begin

text \<open>
  How the advertisement parser uses its input: what a successful stage consumed, that more
  input after it changes nothing, and that a body cut short ends in \<open>ErrTruncated\<close>.
\<close>

subsection \<open>How the parser uses its input\<close>

lemma readV2Capabilities_Inr:
  "readV2Capabilities r s = Inr (r', s') \<longleftrightarrow>
   (\<exists>seen. read_packets v2CapabilitiesHandler r
       ({}, s\<lparr>ps_result := (ps_result s)\<lparr>ad_ProtocolVersion := 2\<rparr>\<rparr>) = Inr (r', seen, s') \<and>
     ''ls-refs'' \<in> seen \<and> ''fetch'' \<in> seen)"
  by (auto simp: readV2Capabilities_def)

lemma readRefList_Inr:
  "readRefList r s = Inr (r', s') \<longleftrightarrow>
   (\<exists>r1 v2 s1. read_packets refListHandler r
        \<lparr>rl_first = True, rl_sawVersion = False, rl_sawSentinel = False,
         rl_facts = s\<lparr>ps_oidWidth := oidWidth (ad_ObjectFormat (ps_result s))\<rparr>\<rparr> = Inr (r1, v2, s1) \<and>
     (if v2 then readV2Capabilities r1 s1 = Inr (r', s') else r' = r1 \<and> s' = s1))"
  by (auto simp: readRefList_def)

lemma run_parse_Inr:
  "run_parse r s = Inr (r', res) \<longleftrightarrow>
   (\<exists>r1 v2 s2. read_packets (announcementHandler s) r False = Inr (r1, v2) \<and>
      (if v2 then readV2Capabilities r1 s else readRefList r1 s) = Inr (r', s2) \<and>
      requireEndOfResponse r' s2 = Inr res)"
  by (auto simp: run_parse_def)

lemma requireEndOfResponse_Inr:
  "requireEndOfResponse r s = Inr res \<longleftrightarrow>
   applySymrefs (rd_consumed r) (ps_names s) (ad_Symrefs (ps_result s)) (ps_result s) = Inr res \<and>
   rd_data r = [] \<and> src_end (rd_source r) = EOF"
  by (cases "src_end (rd_source r)"; cases "src_data (rd_source r)")
    (auto simp: requireEndOfResponse_def ReadFull_def rd_data_def)

lemma readV2Capabilities_advanced:
  "readV2Capabilities r s = Inr (r', s') \<Longrightarrow> \<exists>c. advanced r c r' \<and> rd_consumed r' \<le> rd_maxTotal r"
  by (auto simp: readV2Capabilities_Inr dest: read_packets_advanced)

lemma readRefList_advanced:
  assumes "readRefList r s = Inr (r', s')"
  shows "\<exists>c. advanced r c r' \<and> rd_consumed r' \<le> rd_maxTotal r"
proof -
  from assms obtain r1 v2 s1 l where l: "read_packets refListHandler r l = Inr (r1, v2, s1)"
    and b: "if v2 then readV2Capabilities r1 s1 = Inr (r', s') else r' = r1 \<and> s' = s1"
    unfolding readRefList_Inr by blast
  from read_packets_advanced [OF l] obtain c1
    where a: "advanced r c1 r1" "rd_consumed r1 \<le> rd_maxTotal r" by blast
  show ?thesis
  proof (cases v2)
    case True
    with b have "readV2Capabilities r1 s1 = Inr (r', s')" by simp
    from readV2Capabilities_advanced [OF this] obtain c2
      where "advanced r1 c2 r'" "rd_consumed r' \<le> rd_maxTotal r1" by blast
    with a show ?thesis using advanced_trans by (fastforce simp: advanced_def)
  qed (use a b in auto)
qed

lemma run_parse_advanced:
  assumes "run_parse r s = Inr (r', res)"
  shows "advanced r (rd_data r) r' \<and> rd_data r' = [] \<and> src_end (rd_source r) = EOF
    \<and> rd_consumed r' \<le> rd_maxTotal r"
proof -
  from assms obtain r1 v2 s2 where a: "read_packets (announcementHandler s) r False = Inr (r1, v2)"
    and b: "(if v2 then readV2Capabilities r1 s else readRefList r1 s) = Inr (r', s2)"
    and e: "requireEndOfResponse r' s2 = Inr res"
    unfolding run_parse_Inr by blast
  obtain c1 where "advanced r c1 r1" using read_packets_advanced [OF a] by blast
  moreover obtain c2 where "advanced r1 c2 r'" "rd_consumed r' \<le> rd_maxTotal r1"
    using b readV2Capabilities_advanced readRefList_advanced by (metis (full_types))
  ultimately have adv: "advanced r (c1 @ c2) r'" "rd_consumed r' \<le> rd_maxTotal r"
    using advanced_trans by (auto simp: advanced_def)
  then have "c1 @ c2 = rd_data r" "src_end (rd_source r) = EOF"
    using e by (auto simp: requireEndOfResponse_Inr advanced_def)
  then show ?thesis using adv e by (auto simp: requireEndOfResponse_Inr)
qed

lemma readV2Capabilities_with_tail:
  "readV2Capabilities r s = Inr (r', s') \<Longrightarrow>
   readV2Capabilities (with_tail t r) s = Inr (with_tail t r', s')"
  by (auto simp: readV2Capabilities_Inr intro: read_packets_with_tail)

lemma readRefList_with_tail:
  "readRefList r s = Inr (r', s') \<Longrightarrow> readRefList (with_tail t r) s = Inr (with_tail t r', s')"
  unfolding readRefList_Inr
  using read_packets_with_tail readV2Capabilities_with_tail by (metis (full_types))

lemma readV2Capabilities_cut:
  assumes "readV2Capabilities (with_tail t r) s = Inr (r1, s')" and "src_end (rd_source r) = EOF"
  shows "(\<exists>r'. readV2Capabilities r s = Inr (r', s') \<and> r1 = with_tail t r') \<or>
    (\<exists>off. readV2Capabilities r s = fail off ErrTruncated)"
  using assms read_packets_cut [of v2CapabilitiesHandler t r]
  unfolding readV2Capabilities_Inr by (fastforce simp: readV2Capabilities_def)

lemma readRefList_cut:
  assumes "readRefList (with_tail t r) s = Inr (r1, s')" and eof: "src_end (rd_source r) = EOF"
  shows "(\<exists>r'. readRefList r s = Inr (r', s') \<and> r1 = with_tail t r') \<or>
    (\<exists>off. readRefList r s = fail off ErrTruncated)"
proof -
  let ?l = "\<lparr>rl_first = True, rl_sawVersion = False, rl_sawSentinel = False,
         rl_facts = s\<lparr>ps_oidWidth := oidWidth (ad_ObjectFormat (ps_result s))\<rparr>\<rparr>"
  from assms(1) obtain r2 v2 s1
    where a: "read_packets refListHandler (with_tail t r) ?l = Inr (r2, v2, s1)"
      and b: "if v2 then readV2Capabilities r2 s1 = Inr (r1, s') else r1 = r2 \<and> s' = s1"
    unfolding readRefList_Inr by blast
  from read_packets_cut [OF a eof] show ?thesis
  proof
    assume "\<exists>r'. read_packets refListHandler r ?l = Inr (r', v2, s1) \<and> r2 = with_tail t r'"
    then obtain q where q: "read_packets refListHandler r ?l = Inr (q, v2, s1)" "r2 = with_tail t q"
      by blast
    have "src_end (rd_source q) = EOF"
      using read_packets_advanced [OF q(1)] eof by (auto simp: advanced_def)
    then show ?thesis
      using q b readV2Capabilities_cut [of t q s1 r1 s'] by (cases v2) (auto simp: readRefList_def)
  qed (auto simp: readRefList_def)
qed

lemma run_parse_cut:
  assumes "run_parse (with_tail t r) s = Inr (r1, res)" and eof: "src_end (rd_source r) = EOF"
    and t: "t \<noteq> []"
  shows "\<exists>off. run_parse r s = fail off ErrTruncated"
proof -
  from assms(1) obtain q1 v2 s2
    where a: "read_packets (announcementHandler s) (with_tail t r) False = Inr (q1, v2)"
      and b: "(if v2 then readV2Capabilities q1 s else readRefList q1 s) = Inr (r1, s2)"
      and e: "requireEndOfResponse r1 s2 = Inr res"
    unfolding run_parse_Inr by blast
  from read_packets_cut [OF a eof] show ?thesis
  proof
    assume "\<exists>r'. read_packets (announcementHandler s) r False = Inr (r', v2) \<and> q1 = with_tail t r'"
    then obtain q where q: "read_packets (announcementHandler s) r False = Inr (q, v2)"
      "q1 = with_tail t q" by blast
    have "src_end (rd_source q) = EOF"
      using read_packets_advanced [OF q(1)] eof by (auto simp: advanced_def)
    then have "(\<exists>r'. r1 = with_tail t r') \<or>
      (\<exists>off. (if v2 then readV2Capabilities q s else readRefList q s) = fail off ErrTruncated)"
      using b q(2) readV2Capabilities_cut [of t q s r1 s2] readRefList_cut [of t q s r1 s2]
      by (cases v2) auto
    moreover have "\<nexists>r'. r1 = with_tail t r'"
      using e t by (auto simp: requireEndOfResponse_Inr)
    ultimately show ?thesis using q(1) by (auto simp: run_parse_def)
  qed (auto simp: run_parse_def)
qed

lemma run_parse_trailing:
  assumes "run_parse r s = Inr (r1, res)" and "t \<noteq> []"
  shows "run_parse (with_tail t r) s = fail (rd_consumed r1) ErrTrailingContent"
proof -
  from assms(1) obtain q v2 s2
    where a: "read_packets (announcementHandler s) r False = Inr (q, v2)"
      and b: "(if v2 then readV2Capabilities q s else readRefList q s) = Inr (r1, s2)"
      and e: "requireEndOfResponse r1 s2 = Inr res"
    unfolding run_parse_Inr by blast
  have "(if v2 then readV2Capabilities (with_tail t q) s else readRefList (with_tail t q) s)
      = Inr (with_tail t r1, s2)"
    using b readV2Capabilities_with_tail readRefList_with_tail by (cases v2) auto
  moreover have "requireEndOfResponse (with_tail t r1) s2 = fail (rd_consumed r1) ErrTrailingContent"
    using e assms(2)
    by (auto simp: requireEndOfResponse_Inr requireEndOfResponse_def ReadFull_def with_tail_def
        rd_data_def Suc_le_eq)
  ultimately show ?thesis
    using read_packets_with_tail [OF a, of t] by (simp add: run_parse_def)
qed

end
