(* ===== verification/AdvertisementFacts.thy ===== *)
theory AdvertisementFacts
  imports Advertisement
begin

text \<open>
  The invariant of the parse facts: every reference recorded so far is valid, the name index
  is exact, the head agrees with the list and the limits hold. Every record handler keeps it,
  and the loops inherit it through the \<open>packet_handler\<close> contract.
\<close>

subsection \<open>Well-formed parse facts\<close>

definition oid_ok :: "nat \<Rightarrow> bytes \<Rightarrow> bool" where
  "oid_ok w x \<longleftrightarrow> length x = w \<and> list_all is_hex_lower x \<and> \<not> isZeroOID x"

definition ref_ok :: "Limits \<Rightarrow> nat \<Rightarrow> Ref \<Rightarrow> bool" where
  "ref_ok lim w r \<longleftrightarrow> validateRefName (ref_Name r) = None \<and>
     int (length (ref_Name r)) \<le> MaxNameBytes lim \<and> oid_ok w (ref_OID r) \<and>
     (ref_PeeledOID r = [] \<or> oid_ok w (ref_PeeledOID r))"

definition names_index :: "(bytes \<rightharpoonup> nat) \<Rightarrow> Ref list \<Rightarrow> bool" where
  "names_index names refs \<longleftrightarrow>
     (\<forall>n i. names n = Some i \<longleftrightarrow> i < length refs \<and> ref_Name (refs ! i) = n)"

definition head_ok :: "(bytes \<rightharpoonup> nat) \<Rightarrow> Advertisement \<Rightarrow> bool" where
  "head_ok names res \<longleftrightarrow>
     (case names ''HEAD'' of
       None \<Rightarrow> \<not> head_Advertised (ad_Head res) \<and> head_PeeledOID (ad_Head res) = []
     | Some i \<Rightarrow> head_Advertised (ad_Head res) \<and> head_OID (ad_Head res) = ref_OID (ad_Refs res ! i)
         \<and> head_PeeledOID (ad_Head res) = ref_PeeledOID (ad_Refs res ! i))"

definition caps_ok :: "Limits \<Rightarrow> Advertisement \<Rightarrow> bool" where
  "caps_ok lim res \<longleftrightarrow> int (length (ad_Capabilities res)) \<le> MaxCapabilities lim \<and>
     (\<forall>c \<in> set (ad_Capabilities res). int (length c) \<le> MaxCapabilityBytes lim)"

definition symrefs_ok :: "Advertisement \<Rightarrow> bool" where
  "symrefs_ok res \<longleftrightarrow> distinct (map sym_Name (ad_Symrefs res)) \<and>
     (\<forall>x \<in> set (ad_Symrefs res). validateRefName (sym_Name x) = None \<and> validateRefName (sym_Target x) = None)"

definition result_ok :: "Limits \<Rightarrow> Advertisement \<Rightarrow> bool" where
  "result_ok lim res \<longleftrightarrow> ad_EffectiveLimits res = lim \<and>
     ad_ObjectFormat res \<in> {FormatSHA1, FormatSHA256} \<and> caps_ok lim res \<and> symrefs_ok res \<and>
     head_SymrefTarget (ad_Head res) = [] \<and> (\<forall>r \<in> set (ad_Refs res). ref_SymrefTarget r = [])"

definition facts_ok :: "parseFacts \<Rightarrow> bool" where
  "facts_ok s \<longleftrightarrow> result_ok (ps_limits s) (ps_result s) \<and>
     names_index (ps_names s) (ad_Refs (ps_result s)) \<and>
     (\<forall>r \<in> set (ad_Refs (ps_result s)). ref_ok (ps_limits s) (oidWidth (ad_ObjectFormat (ps_result s))) r) \<and>
     head_ok (ps_names s) (ps_result s) \<and>
     int (length (ad_Refs (ps_result s))) \<le> ps_records s \<and> ps_records s \<le> MaxRefRecords (ps_limits s)"

definition width_ok :: "parseFacts \<Rightarrow> bool" where
  "width_ok s \<longleftrightarrow> ps_oidWidth s = oidWidth (ad_ObjectFormat (ps_result s))"

lemma names_index_snoc:
  assumes "names_index names refs" and "names (ref_Name r) = None"
  shows "names_index (names(ref_Name r \<mapsto> length refs)) (refs @ [r])"
proof -
  have "\<not> (i < length refs \<and> ref_Name (refs ! i) = ref_Name r)" for i
    using assms unfolding names_index_def by (metis option.distinct(1))
  with assms show ?thesis by (auto simp: names_index_def nth_append less_Suc_eq split: if_splits)
qed

lemma names_index_update:
  "names_index names refs \<Longrightarrow> ref_Name r = ref_Name (refs ! i) \<Longrightarrow> names_index names (refs[i := r])"
  unfolding names_index_def length_list_update by (metis nth_list_update_eq nth_list_update_neq)

lemma names_index_distinct: "names_index names refs \<Longrightarrow> distinct (map ref_Name refs)"
  unfolding names_index_def distinct_conv_nth by (metis length_map nth_map option.inject)

lemma isHexOID_canonical: "isHexOID x \<Longrightarrow> list_all is_hex_lower (canonicalOID x)"
  by (auto simp: isHexOID_def canonicalOID_def ascii_lower_def list_all_iff lower_char_hex)

lemma splitRecord_Inr:
  assumes "splitRecord off line s = Inr (oid, name)"
  shows "length oid = ps_oidWidth s" "list_all is_hex_lower oid" "name \<noteq> []"
    "int (length name) \<le> MaxNameBytes (ps_limits s)"
  using assms isHexOID_canonical
  by (auto simp: splitRecord_def canonicalOID_def split: prod.splits if_splits)

text \<open>What the record handlers keep and change, besides the facts being well formed.\<close>

definition same_frame :: "parseFacts \<Rightarrow> parseFacts \<Rightarrow> bool" where
  "same_frame s s' \<longleftrightarrow> ps_limits s' = ps_limits s \<and> ps_records s' = ps_records s \<and>
     ps_oidWidth s' = ps_oidWidth s \<and>
     ad_ObjectFormat (ps_result s') = ad_ObjectFormat (ps_result s) \<and>
     ad_Capabilities (ps_result s') = ad_Capabilities (ps_result s) \<and>
     ad_Symrefs (ps_result s') = ad_Symrefs (ps_result s) \<and>
     ad_Empty (ps_result s') = ad_Empty (ps_result s) \<and>
     ad_ProtocolVersion (ps_result s') = ad_ProtocolVersion (ps_result s) \<and>
     ad_Refs (ps_result s') \<noteq> []"

lemma addRef_ok:
  assumes "addRef off oid name s = Inr s'" and "facts_ok s" and "width_ok s"
    and "length oid = ps_oidWidth s" and "list_all is_hex_lower oid"
    and "int (length name) \<le> MaxNameBytes (ps_limits s)"
    and "int (length (ad_Refs (ps_result s))) < ps_records s"
  shows "facts_ok s' \<and> same_frame s s'"
proof -
  let ?r = "\<lparr>ref_Name = name, ref_OID = oid, ref_PeeledOID = [], ref_SymrefTarget = []\<rparr>"
  have c: "\<not> isZeroOID oid" "validateRefName name = None" "ps_names s name = None"
    using assms(1) by (auto simp: addRef_def split: if_splits)
  then have s': "ps_names s' = (ps_names s)(name \<mapsto> length (ad_Refs (ps_result s)))"
    "ad_Refs (ps_result s') = ad_Refs (ps_result s) @ [?r]" "same_frame s s'"
    "ad_EffectiveLimits (ps_result s') = ad_EffectiveLimits (ps_result s)"
    "ad_Head (ps_result s') = (if name = ''HEAD''
       then (ad_Head (ps_result s))\<lparr>head_Advertised := True, head_OID := oid\<rparr> else ad_Head (ps_result s))"
    using assms(1) by (cases "name = ''HEAD''"; auto simp: addRef_def Let_def same_frame_def)+
  have idx: "names_index (ps_names s') (ad_Refs (ps_result s'))"
    using names_index_snoc [of "ps_names s" _ ?r] c(3) assms(2) by (simp add: s' facts_ok_def)
  have "ref_ok (ps_limits s) (oidWidth (ad_ObjectFormat (ps_result s))) ?r"
    using c assms by (simp add: ref_ok_def oid_ok_def width_ok_def)
  then have refs: "\<forall>r \<in> set (ad_Refs (ps_result s')).
      ref_ok (ps_limits s) (oidWidth (ad_ObjectFormat (ps_result s))) r"
    using assms(2) by (simp add: s' facts_ok_def)
  have res: "result_ok (ps_limits s) (ps_result s')"
    using assms(2) s' by (auto simp: facts_ok_def result_ok_def caps_ok_def symrefs_ok_def same_frame_def)
  have old: "x < length (ad_Refs (ps_result s))" if "ps_names s n = Some x" for n x
    using that assms(2) by (simp add: facts_ok_def names_index_def)
  have hd: "head_ok (ps_names s') (ps_result s')"
  proof (cases "name = ''HEAD''")
    case True
    then show ?thesis using assms(2) c(3) s' by (simp add: facts_ok_def head_ok_def nth_append)
  next
    case False
    then show ?thesis
      using assms(2) s' by (auto simp: facts_ok_def head_ok_def nth_append old split: option.splits)
  qed
  show ?thesis
    using idx refs res hd s'(2,3) assms(2,7) by (simp add: facts_ok_def same_frame_def)
qed


lemma addPeeled_ok:
  assumes "addPeeled off oid base s = Inr s'" and "facts_ok s" and "width_ok s"
    and "length oid = ps_oidWidth s" and "list_all is_hex_lower oid"
  shows "facts_ok s' \<and> same_frame s s'"
proof -
  let ?refs = "ad_Refs (ps_result s)" and ?i = "length (ad_Refs (ps_result s)) - 1"
  have c: "?refs \<noteq> []" "ref_Name (last ?refs) = base" "\<not> isZeroOID oid"
    and s': "s' = s\<lparr>ps_result := setPeeled oid base (ps_result s)\<rparr>"
    using assms(1) by (auto simp: addPeeled_def Let_def split: if_splits)
  have i: "?i < length ?refs" "last ?refs = ?refs ! ?i" using c(1) by (auto simp: last_conv_nth)
  let ?refs' = "?refs[?i := (?refs ! ?i)\<lparr>ref_PeeledOID := oid\<rparr>]"
  have R: "ad_Refs (ps_result s') = ?refs'" "ps_names s' = ps_names s" "same_frame s s'"
    "ad_EffectiveLimits (ps_result s') = ad_EffectiveLimits (ps_result s)"
    "ad_Head (ps_result s') = (if base = ''HEAD''
       then (ad_Head (ps_result s))\<lparr>head_PeeledOID := oid\<rparr> else ad_Head (ps_result s))"
    using c(1) by (simp_all add: s' setPeeled_def Let_def same_frame_def)
  have idx: "names_index (ps_names s) ?refs'"
    using assms(2) by (simp add: facts_ok_def names_index_update)
  have mem: "\<exists>q \<in> set ?refs. x = q \<or> x = q\<lparr>ref_PeeledOID := oid\<rparr>" if "x \<in> set ?refs'" for x
    using that i(1) by (metis insertE nth_mem set_update_subset_insert subsetD)
  have refs: "\<forall>r \<in> set ?refs'. ref_ok (ps_limits s) (oidWidth (ad_ObjectFormat (ps_result s))) r"
    using mem assms(2-5) c(3) unfolding facts_ok_def width_ok_def
    by (fastforce simp: ref_ok_def oid_ok_def)
  have "\<forall>r \<in> set ?refs'. ref_SymrefTarget r = []"
    using mem assms(2) by (fastforce simp: facts_ok_def result_ok_def)
  then have res: "result_ok (ps_limits s) (ps_result s')"
    using assms(2) R by (auto simp: facts_ok_def result_ok_def caps_ok_def symrefs_ok_def same_frame_def)
  have hd: "head_ok (ps_names s) (ps_result s')"
  proof (cases "base = ''HEAD''")
    case True
    then have "ps_names s ''HEAD'' = Some ?i"
      using assms(2) i c(2) by (simp add: facts_ok_def names_index_def)
    then show ?thesis using assms(2) R True i(1) by (simp add: facts_ok_def head_ok_def)
  next
    case False
    then have "ps_names s ''HEAD'' \<noteq> Some ?i"
      using assms(2) i c(2) by (simp add: facts_ok_def names_index_def)
    then show ?thesis using assms(2) R False
      by (auto simp: facts_ok_def head_ok_def nth_list_update split: option.splits)
  qed
  show ?thesis
    using idx refs res hd R assms(2) by (simp add: facts_ok_def same_frame_def)
qed

lemma readRecord_ok:
  assumes "readRecord off line s = Inr s'" and "facts_ok s" and "width_ok s"
    and "int (length (ad_Refs (ps_result s))) < ps_records s"
  shows "facts_ok s' \<and> same_frame s s'"
proof -
  from assms(1) obtain oid name where sp: "splitRecord off line s = Inr (oid, name)"
    and c: "(case cut_suffix peeledSuffix name of
          Some base \<Rightarrow> addPeeled off oid base s | None \<Rightarrow> addRef off oid name s) = Inr s'"
    by (auto simp: readRecord_def split: if_splits)
  note S = splitRecord_Inr [OF sp]
  show ?thesis
    using c addPeeled_ok [OF _ assms(2,3) S(1,2)] addRef_ok [OF _ assms(2,3) S(1,2,4) assms(4)]
    by (auto split: option.splits)
qed

lemma readCapability_ok:
  assumes "readCapability off lim token count seen res = Inr (seen', res')"
    and "result_ok lim res" and "int (length (ad_Capabilities res)) < count"
  shows "result_ok lim res'" "int (length (ad_Capabilities res')) \<le> count" "ad_Capabilities res' \<noteq> []"
    "ad_Refs res' = ad_Refs res" "ad_Head res' = ad_Head res" "ad_Empty res' = ad_Empty res"
    "ad_ProtocolVersion res' = ad_ProtocolVersion res"
proof -
  obtain key val hasValue where k: "cut (CHR ''='') token = (key, val, hasValue)"
    by (cases "cut (CHR ''='') token") auto
  have b: "count \<le> MaxCapabilities lim" "int (length token) \<le> MaxCapabilityBytes lim"
    using assms(1) by (auto simp: readCapability_def split: if_splits)
  obtain res1 where r1: "res' = res1\<lparr>ad_Capabilities := ad_Capabilities res1 @ [token]\<rparr>"
    and d: "(key = ''object-format'' \<and> readFormat off val hasValue seen res = Inr (seen', res1)) \<or>
       readSymref off val hasValue res = Inr res1 \<or> res1 = res"
  proof -
    from assms(1) k obtain res1 where r1: "res' = res1\<lparr>ad_Capabilities := ad_Capabilities res1 @ [token]\<rparr>"
      and d: "(if key = ''object-format'' then readFormat off val hasValue seen res
             else if key = ''symref'' then map_sum id (Pair seen) (readSymref off val hasValue res)
             else Inr (seen, res)) = Inr (seen', res1)"
      by (auto simp: readCapability_def split: if_splits)
    show thesis
      using that [OF r1] d by (cases "readSymref off val hasValue res") (auto split: if_splits)
  qed
  have same: "ad_Refs res1 = ad_Refs res" "ad_Head res1 = ad_Head res" "ad_Empty res1 = ad_Empty res"
    "ad_ProtocolVersion res1 = ad_ProtocolVersion res" "ad_Capabilities res1 = ad_Capabilities res"
    "ad_EffectiveLimits res1 = ad_EffectiveLimits res"
    "ad_ObjectFormat res1 \<in> {FormatSHA1, FormatSHA256, ad_ObjectFormat res}"
    using d by (auto simp: readFormat_def readSymref_def split: if_splits prod.splits)
  have "symrefs_ok res1"
    using d assms(2)
    by (auto simp: readFormat_def readSymref_def result_ok_def symrefs_ok_def split: if_splits prod.splits)
  then show "result_ok lim res'"
    using same assms(2,3) b by (auto simp: r1 result_ok_def caps_ok_def symrefs_ok_def)
  show "int (length (ad_Capabilities res')) \<le> count" "ad_Capabilities res' \<noteq> []"
    "ad_Refs res' = ad_Refs res" "ad_Head res' = ad_Head res" "ad_Empty res' = ad_Empty res"
    "ad_ProtocolVersion res' = ad_ProtocolVersion res"
    using same assms(3) by (simp_all add: r1)
qed

lemma readTokens_ok:
  assumes "readTokens off lim remaining count seen res = Inr res'"
    and "result_ok lim res" and "int (length (ad_Capabilities res)) \<le> count"
  shows "result_ok lim res' \<and> ad_Capabilities res' \<noteq> [] \<and> ad_Refs res' = ad_Refs res \<and>
    ad_Head res' = ad_Head res \<and> ad_Empty res' = ad_Empty res \<and>
    ad_ProtocolVersion res' = ad_ProtocolVersion res"
  using assms
proof (induction off lim remaining count seen res rule: readTokens.induct)
  case (1 off lim remaining count seen res)
  obtain token rest again where k: "cut (CHR '' '') remaining = (token, rest, again)"
    by (cases "cut (CHR '' '') remaining") auto
  from "1.prems"(1) k obtain seen1 res1
    where c: "readCapability off lim token (count + 1) seen res = Inr (seen1, res1)"
      and r: "(if again then readTokens off lim rest (count + 1) seen1 res1 else Inr res1) = Inr res'"
    by (subst (asm) readTokens.simps) auto
  note C = readCapability_ok [OF c "1.prems"(2)]
  have "int (length (ad_Capabilities res)) < count + 1" using "1.prems"(3) by simp
  note C = C [OF this]
  show ?case
    using r C "1.IH" [OF k [symmetric] refl c refl] by (cases again) auto
qed

text \<open>Before the first record nothing was advertised; after it the list is empty or not, and says so.\<close>

definition blank :: "parseFacts \<Rightarrow> bool" where
  "blank s \<longleftrightarrow> ad_Refs (ps_result s) = [] \<and> ad_Capabilities (ps_result s) = [] \<and>
     ad_Symrefs (ps_result s) = [] \<and> \<not> ad_Empty (ps_result s)"

definition stated :: "parseFacts \<Rightarrow> bool" where
  "stated s \<longleftrightarrow> (ad_Empty (ps_result s) \<longleftrightarrow> ad_Refs (ps_result s) = []) \<and>
     ad_Capabilities (ps_result s) \<noteq> [] \<and> ad_ProtocolVersion (ps_result s) \<le> 1"

lemma readFirstRecord_ok:
  assumes "readFirstRecord off line s = Inr (sentinel, s')" and "facts_ok s" and "blank s"
    and "0 < ps_records s" and "ad_ProtocolVersion (ps_result s) \<le> 1"
  shows "facts_ok s' \<and> width_ok s' \<and> stated s' \<and> sentinel = ad_Empty (ps_result s') \<and>
    ps_records s' = ps_records s"
proof -
  obtain part list where k: "cut (CHR 0x00) line = (part, list, True)"
    using assms(1) by (cases "cut (CHR 0x00) line") (auto simp: readFirstRecord_def split: if_splits)
  from assms(1) k obtain res where
    t: "readTokens off (ps_limits s) list 0 False (ps_result s) = Inr res"
    by (auto simp: readFirstRecord_def readCapabilities_def Let_def split: if_splits)
  let ?s1 = "s\<lparr>ps_result := res, ps_oidWidth := oidWidth (ad_ObjectFormat res)\<rparr>"
  have ne: "list \<noteq> []"
    using assms(1) k by (auto simp: readFirstRecord_def readCapabilities_def Let_def split: if_splits)
  obtain oid name where sp: "splitRecord off part ?s1 = Inr (oid, name)"
    using assms(1) by (cases "splitRecord off part ?s1") (auto simp: readFirstRecord_def readCapabilities_def k t ne)
  have c: "(if name = capabilitiesSentinel then
            (if \<not> isZeroOID oid then fail off ErrInvalidRecord
             else Inr (True, ?s1\<lparr>ps_result := res\<lparr>ad_Empty := True\<rparr>\<rparr>))
          else if suffix peeledSuffix name then fail off ErrInvalidRecord
          else bindE (addRef off oid name ?s1) (\<lambda>s'. Inr (False, s'))) = Inr (sentinel, s')"
    using assms(1) sp
    by (simp add: readFirstRecord_def readCapabilities_def k t ne Let_def split del: if_split cong: if_cong)
  have T: "result_ok (ps_limits s) res" "ad_Capabilities res \<noteq> []" "ad_Refs res = ad_Refs (ps_result s)"
    "ad_Head res = ad_Head (ps_result s)" "ad_Empty res = ad_Empty (ps_result s)"
    "ad_ProtocolVersion res = ad_ProtocolVersion (ps_result s)"
    using readTokens_ok [OF t] assms(2,3) by (simp_all add: facts_ok_def blank_def)
  have empty: "ad_Refs res = []" using T(3) assms(3) by (simp add: blank_def)
  have nm: "ps_names s n = None" for n
    using assms(2,3) by (cases "ps_names s n") (auto simp: facts_ok_def names_index_def blank_def)
  have f1: "facts_ok ?s1" and w1: "width_ok ?s1"
    using assms(2-4) T nm empty
    by (simp_all add: facts_ok_def width_ok_def names_index_def head_ok_def)
  note S = splitRecord_Inr [OF sp]
  show ?thesis
  proof (cases "name = capabilitiesSentinel")
    case True
    with c have s': "sentinel" "s' = ?s1\<lparr>ps_result := res\<lparr>ad_Empty := True\<rparr>\<rparr>"
      by (auto split: if_splits)
    then show ?thesis
      using f1 w1 T empty assms(5) nm
      by (simp add: facts_ok_def width_ok_def stated_def result_ok_def caps_ok_def symrefs_ok_def
          head_ok_def)
  next
    case False
    with c have "\<not> sentinel" and a: "addRef off oid name ?s1 = Inr s'" by (auto split: if_splits)
    moreover have "facts_ok s' \<and> same_frame ?s1 s'"
      using addRef_ok [OF a f1 w1 S(1,2)] S(4) empty assms(4) by simp
    ultimately show ?thesis
      using w1 T assms(3,5) by (simp add: same_frame_def stated_def blank_def width_ok_def)
  qed
qed

definition list_state_ok :: "refListState \<Rightarrow> bool" where
  "list_state_ok l \<longleftrightarrow> facts_ok (rl_facts l) \<and> width_ok (rl_facts l) \<and>
     0 \<le> ps_records (rl_facts l) \<and> ad_ProtocolVersion (ps_result (rl_facts l)) \<le> 1 \<and>
     (if rl_first l then blank (rl_facts l) \<and> ps_records (rl_facts l) = 0
      else stated (rl_facts l) \<and> rl_sawSentinel l = ad_Empty (ps_result (rl_facts l)))"

definition list_result_ok :: "bool \<times> parseFacts \<Rightarrow> bool" where
  "list_result_ok g \<longleftrightarrow> facts_ok (snd g) \<and> (if fst g then blank (snd g) else stated (snd g))"

lemma countRecord_ok:
  "countRecord off s = Inr s' \<Longrightarrow> facts_ok s \<Longrightarrow> facts_ok s' \<and> s' = s\<lparr>ps_records := ps_records s + 1\<rparr>"
  by (auto simp: countRecord_def facts_ok_def split: if_splits)

lemma refRecord_cases:
  assumes "refRecord off line l = Inr (Again l')"
  obtains (first) s sentinel s' where "countRecord off (rl_facts l) = Inr s" "rl_first l"
      "readFirstRecord off line s = Inr (sentinel, s')"
      "l' = l\<lparr>rl_first := False, rl_sawSentinel := sentinel, rl_facts := s'\<rparr>"
  | (later) s s' where "countRecord off (rl_facts l) = Inr s" "\<not> rl_first l" "\<not> rl_sawSentinel l"
      "readRecord off line s = Inr s'" "l' = l\<lparr>rl_facts := s'\<rparr>"
proof -
  obtain s where cr: "countRecord off (rl_facts l) = Inr s"
    using assms(1) by (cases "countRecord off (rl_facts l)") (simp_all add: refRecord_def)
  have c: "(if line = ''shallow'' \<or> prefix ''shallow '' line then Inl (readShallow off line (rl_first l) s)
       else if rl_first l then
         bindE (readFirstRecord off line s) (\<lambda>(sentinel, s').
           Inr (Again (l\<lparr>rl_first := False, rl_sawSentinel := sentinel, rl_facts := s'\<rparr>)))
       else if rl_sawSentinel l then fail off ErrConflictingRefs
       else bindE (readRecord off line s) (\<lambda>s'. Inr (Again (l\<lparr>rl_facts := s'\<rparr>))))
      = (Inr (Again l') :: parse_fail + (refListState, bool \<times> parseFacts) progress)"
    using assms(1) by (simp only: refRecord_def cr bindE_simps)
  show thesis
  proof (cases "rl_first l")
    case True
    with c obtain sentinel s' where f: "readFirstRecord off line s = Inr (sentinel, s')"
      and l': "l' = l\<lparr>rl_first := False, rl_sawSentinel := sentinel, rl_facts := s'\<rparr>"
      by (auto split: if_splits)
    then show thesis using first cr True by blast
  next
    case False
    with c obtain s' where "readRecord off line s = Inr s'" "l' = l\<lparr>rl_facts := s'\<rparr>" "\<not> rl_sawSentinel l"
      by (auto split: if_splits)
    then show thesis using later cr False by blast
  qed
qed

lemma refRecord_ok:
  assumes "refRecord off line l = Inr (Again l')" and "list_state_ok l"
  shows "list_state_ok l'"
  using assms(1)
proof (cases rule: refRecord_cases)
  case (first s sentinel s')
  have "facts_ok (rl_facts l)" using assms(2) by (simp add: list_state_ok_def)
  note s = countRecord_ok [OF first(1) this]
  have "blank s" "0 < ps_records s" "ad_ProtocolVersion (ps_result s) \<le> 1"
    using first(2) assms(2) s by (simp_all add: list_state_ok_def blank_def)
  from readFirstRecord_ok [OF first(3) conjunct1 [OF s] this] s show ?thesis
    using first(2,4) assms(2) by (simp add: list_state_ok_def stated_def)
next
  case (later s s')
  have "facts_ok (rl_facts l)" using assms(2) by (simp add: list_state_ok_def)
  note s = countRecord_ok [OF later(1) this]
  have "width_ok s" "int (length (ad_Refs (ps_result s))) < ps_records s"
    using assms(2) s by (simp_all add: list_state_ok_def width_ok_def facts_ok_def)
  from readRecord_ok [OF later(4) conjunct1 [OF s] this] s show ?thesis
    using later(2,3,5) assms(2)
    by (auto simp: list_state_ok_def same_frame_def stated_def width_ok_def)
qed

lemma refListHandler_cases:
  assumes "refListHandler off p l = Inr x"
  obtains (flush) "\<not> rl_first l" "x = Done (False, rl_facts l)"
  | (version) n where "versionPacket off n l = Inr x"
  | (row) line where "refRecord off line l = Inr x"
proof (cases p)
  case (packetData payload)
  with assms have c: "(case parseVersionLine (trimLF payload) of
      Some n \<Rightarrow> versionPacket off n l | None \<Rightarrow> refRecord off (trimLF payload) l) = Inr x"
    by (simp add: refListHandler_def Let_def)
  then show thesis
    by (cases "parseVersionLine (trimLF payload)") (simp_all add: version row)
next
  case packetFlush
  with assms show thesis by (cases "rl_first l") (simp_all add: refListHandler_def flush)
qed (use assms in \<open>simp_all add: refListHandler_def\<close>)

lemma refRecord_not_done: "refRecord off line l \<noteq> Inr (Done g)"
proof (cases "countRecord off (rl_facts l)")
  case (Inr s)
  then show ?thesis
    by (cases "readFirstRecord off line s"; cases "readRecord off line s")
      (simp_all add: refRecord_def split: prod.split)
qed (simp add: refRecord_def)

lemma facts_ok_version:
  "facts_ok s \<Longrightarrow> facts_ok (s\<lparr>ps_result := (ps_result s)\<lparr>ad_ProtocolVersion := v\<rparr>\<rparr>)"
  by (simp add: facts_ok_def result_ok_def caps_ok_def symrefs_ok_def head_ok_def cong: option.case_cong)

lemma versionPacket_cases:
  assumes "versionPacket off n l = Inr x"
  obtains (v2) "rl_first l" "x = Done (True, rl_facts l)"
  | (v1) "rl_first l" "x = Again (l\<lparr>rl_sawVersion := True, rl_facts :=
      (rl_facts l)\<lparr>ps_result := (ps_result (rl_facts l))\<lparr>ad_ProtocolVersion := 1\<rparr>\<rparr>\<rparr>)"
  using assms by (simp add: versionPacket_def Let_def split: if_splits)

interpretation ref_list: packet_handler refListHandler list_state_ok list_result_ok
proof
  fix l off p l' assume ok: "list_state_ok l" and h: "refListHandler off p l = Inr (Again l')"
  from h show "list_state_ok l'"
  proof (cases rule: refListHandler_cases)
    case (version n)
    then show ?thesis
    proof (cases rule: versionPacket_cases)
      case v1
      then show ?thesis
        using ok facts_ok_version by (simp add: list_state_ok_def width_ok_def blank_def)
    qed simp
  next
    case (row line)
    then show ?thesis using refRecord_ok ok by blast
  qed simp
next
  fix l off p g assume ok: "list_state_ok l" and h: "refListHandler off p l = Inr (Done g)"
  from h show "list_result_ok g"
  proof (cases rule: refListHandler_cases)
    case flush
    then show ?thesis using ok by (simp add: list_state_ok_def list_result_ok_def)
  next
    case (version n)
    then show ?thesis
      by (cases rule: versionPacket_cases) (use ok in \<open>simp_all add: list_state_ok_def list_result_ok_def\<close>)
  qed (simp add: refRecord_not_done)
qed

subsection \<open>Symbolic references at the end of the response\<close>

definition symref_map :: "Symref list \<Rightarrow> bytes \<rightharpoonup> bytes" where
  "symref_map srs = map_of (map (\<lambda>x. (sym_Name x, sym_Target x)) srs)"

definition retarget :: "Symref list \<Rightarrow> Ref \<Rightarrow> Ref" where
  "retarget srs r = (case symref_map srs (ref_Name r) of
     None \<Rightarrow> r | Some t \<Rightarrow> r\<lparr>ref_SymrefTarget := t\<rparr>)"

definition retarget_head :: "Symref list \<Rightarrow> Head \<Rightarrow> Head" where
  "retarget_head srs h = (case symref_map srs ''HEAD'' of
     None \<Rightarrow> h | Some t \<Rightarrow> h\<lparr>head_SymrefTarget := t\<rparr>)"

text \<open>A symref between two advertised references states that they have the same object.\<close>

definition symref_agrees :: "Ref list \<Rightarrow> Symref \<Rightarrow> bool" where
  "symref_agrees refs x \<longleftrightarrow>
     (\<forall>r \<in> set refs. \<forall>t \<in> set refs. ref_Name r = sym_Name x \<and> ref_Name t = sym_Target x
        \<longrightarrow> ref_OID t = ref_OID r)"

lemma retarget_fields [simp]:
  "ref_Name (retarget srs r) = ref_Name r" "ref_OID (retarget srs r) = ref_OID r"
  "ref_PeeledOID (retarget srs r) = ref_PeeledOID r"
  by (auto simp: retarget_def split: option.splits)

lemma retarget_Nil [simp]: "retarget [] r = r" "retarget_head [] h = h"
  by (simp_all add: retarget_def retarget_head_def symref_map_def)

lemma retarget_Cons:
  assumes "sym_Name x \<notin> set (map sym_Name srs)"
  shows "retarget srs (retarget [x] r) = retarget (x # srs) r"
    "retarget_head srs (retarget_head [x] h) = retarget_head (x # srs) h"
proof -
  have "symref_map srs (sym_Name x) = None"
    using assms by (auto simp: symref_map_def map_of_eq_None_iff image_image)
  then show "retarget srs (retarget [x] r) = retarget (x # srs) r"
    "retarget_head srs (retarget_head [x] h) = retarget_head (x # srs) h"
    by (auto simp: retarget_def retarget_head_def symref_map_def split: option.splits)
qed

lemma symref_agrees_retarget [simp]: "symref_agrees (map (retarget srs) refs) x = symref_agrees refs x"
  by (auto simp: symref_agrees_def)

lemma names_index_set: "names_index names refs \<Longrightarrow> r \<in> set refs \<Longrightarrow>
    \<exists>i < length refs. refs ! i = r \<and> names (ref_Name r) = Some i"
  by (auto simp: names_index_def in_set_conv_nth)

lemma names_index_map:
  "names_index names refs \<Longrightarrow> (\<And>r. ref_Name (f r) = ref_Name r) \<Longrightarrow> names_index names (map f refs)"
  by (auto simp: names_index_def)

lemma update_as_retarget:
  assumes "names_index names refs" and "names (sym_Name x) = Some i"
  shows "refs[i := (refs ! i)\<lparr>ref_SymrefTarget := sym_Target x\<rparr>] = map (retarget [x]) refs"
proof (rule nth_equalityI)
  fix j assume "j < length (refs[i := (refs ! i)\<lparr>ref_SymrefTarget := sym_Target x\<rparr>])"
  then have j: "j < length refs" by simp
  have "ref_Name (refs ! j) = sym_Name x \<longleftrightarrow> j = i"
    using assms j by (metis names_index_def option.inject)
  then show "refs[i := (refs ! i)\<lparr>ref_SymrefTarget := sym_Target x\<rparr>] ! j = map (retarget [x]) refs ! j"
    using j by (simp add: nth_list_update retarget_def symref_map_def)
qed simp

lemma retarget_absent:
  assumes "names_index names refs" and "names (sym_Name x) = None"
  shows "map (retarget [x]) refs = refs" "symref_agrees refs x"
proof -
  have "ref_Name r \<noteq> sym_Name x" if "r \<in> set refs" for r
    using names_index_set [OF assms(1) that] assms(2) by auto
  then show "map (retarget [x]) refs = refs" "symref_agrees refs x"
    by (auto simp: retarget_def symref_map_def symref_agrees_def intro!: map_idI)
qed

lemma applySymref_Inr:
  assumes "applySymref off names x res = Inr res'" and "names_index names (ad_Refs res)"
  shows "res' = res\<lparr>ad_Refs := map (retarget [x]) (ad_Refs res), ad_Head := retarget_head [x] (ad_Head res)\<rparr>
    \<and> symref_agrees (ad_Refs res) x"
proof -
  have hd: "(if sym_Name x = ''HEAD'' then q\<lparr>ad_Head := (ad_Head q)\<lparr>head_SymrefTarget := sym_Target x\<rparr>\<rparr> else q)
      = q\<lparr>ad_Head := retarget_head [x] (ad_Head q)\<rparr>" for q :: Advertisement
    by (simp add: retarget_head_def symref_map_def)
  show ?thesis
  proof (cases "names (sym_Name x)")
    case None
    then show ?thesis
      using assms(1) retarget_absent [OF assms(2) None] by (simp add: applySymref_def hd)
  next
    case (Some i)
    let ?refs = "map (retarget [x]) (ad_Refs res)"
    have res': "res' = res\<lparr>ad_Refs := ?refs, ad_Head := retarget_head [x] (ad_Head res)\<rparr>"
      and eq: "names (sym_Target x) = Some j \<Longrightarrow> ref_OID (?refs ! j) = ref_OID (?refs ! i)" for j
      using assms(1) Some unfolding applySymref_def hd Let_def
      by (auto simp: update_as_retarget [OF assms(2) Some] split: option.splits if_splits)
    have i: "i < length (ad_Refs res)" using assms(2) Some by (auto simp: names_index_def)
    have "symref_agrees (ad_Refs res) x"
      unfolding symref_agrees_def
    proof (intro ballI impI)
      fix r t assume r: "r \<in> set (ad_Refs res)" and t: "t \<in> set (ad_Refs res)"
        and n: "ref_Name r = sym_Name x \<and> ref_Name t = sym_Target x"
      obtain j where j: "j < length (ad_Refs res)" "ad_Refs res ! j = t" "names (sym_Target x) = Some j"
        using names_index_set [OF assms(2) t] n by auto
      have "ad_Refs res ! i = r" using names_index_set [OF assms(2) r] n Some by auto
      then show "ref_OID t = ref_OID r" using eq [OF j(3)] j i by simp
    qed
    then show ?thesis using res' by simp
  qed
qed

lemma applySymrefs_Inr:
  assumes "applySymrefs off names srs res = Inr res'" and "names_index names (ad_Refs res)"
    and "distinct (map sym_Name srs)"
  shows "res' = res\<lparr>ad_Refs := map (retarget srs) (ad_Refs res), ad_Head := retarget_head srs (ad_Head res)\<rparr>
    \<and> (\<forall>x \<in> set srs. symref_agrees (ad_Refs res) x)"
  using assms
proof (induction srs arbitrary: res)
  case Nil
  then show ?case by (simp add: map_idI)
next
  case (Cons x srs)
  from Cons.prems(1) obtain res1 where a: "applySymref off names x res = Inr res1"
    and b: "applySymrefs off names srs res1 = Inr res'" by auto
  note A = applySymref_Inr [OF a Cons.prems(2)]
  have idx: "names_index names (ad_Refs res1)"
    using A names_index_map [OF Cons.prems(2)] by simp
  have fresh: "sym_Name x \<notin> set (map sym_Name srs)" using Cons.prems(3) by simp
  note r = retarget_Cons [OF fresh]
  show ?case using Cons.IH [OF b idx] Cons.prems(3) A r by (simp add: comp_def)
qed

end
