(* ===== verification/AdvertisementProps.thy ===== *)
theory AdvertisementProps
  imports AdvertisementStream AdvertisementFacts
begin

text \<open>
  What \<open>Parse\<close> promises its callers: every accepted advertisement is well formed, and its
  body was read exactly once and to the end.
\<close>

subsection \<open>What a parsed advertisement promises\<close>

definition head_agrees :: "Advertisement \<Rightarrow> bool" where
  "head_agrees ad \<longleftrightarrow>
     (head_Advertised (ad_Head ad) \<longleftrightarrow> ''HEAD'' \<in> ref_Name ` set (ad_Refs ad)) \<and>
     (\<forall>r \<in> set (ad_Refs ad). ref_Name r = ''HEAD'' \<longrightarrow>
        head_OID (ad_Head ad) = ref_OID r \<and> head_PeeledOID (ad_Head ad) = ref_PeeledOID r) \<and>
     head_SymrefTarget (ad_Head ad) = (case symref_map (ad_Symrefs ad) ''HEAD'' of None \<Rightarrow> [] | Some t \<Rightarrow> t)"

definition advertisement_ok :: "Limits \<Rightarrow> Advertisement \<Rightarrow> bool" where
  "advertisement_ok lim ad \<longleftrightarrow>
     ad_EffectiveLimits ad = lim \<and> ad_ObjectFormat ad \<in> {FormatSHA1, FormatSHA256} \<and>
     caps_ok lim ad \<and> symrefs_ok ad \<and>
     int (length (ad_Refs ad)) \<le> MaxRefRecords lim \<and> distinct (map ref_Name (ad_Refs ad)) \<and>
     (\<forall>r \<in> set (ad_Refs ad). ref_ok lim (oidWidth (ad_ObjectFormat ad)) r \<and>
        ref_SymrefTarget r = (case symref_map (ad_Symrefs ad) (ref_Name r) of None \<Rightarrow> [] | Some t \<Rightarrow> t)) \<and>
     (\<forall>x \<in> set (ad_Symrefs ad). symref_agrees (ad_Refs ad) x) \<and> head_agrees ad"

definition version_ok :: "Advertisement \<Rightarrow> bool" where
  "version_ok ad \<longleftrightarrow>
     (if ad_ProtocolVersion ad = 2 then ad_Refs ad = [] \<and> \<not> ad_Empty ad
      else ad_ProtocolVersion ad \<le> 1 \<and> (ad_Empty ad \<longleftrightarrow> ad_Refs ad = []))"

lemma requireEndOfResponse_ok:
  assumes "requireEndOfResponse r s = Inr res" and "facts_ok s"
  shows "advertisement_ok (ps_limits s) res" "ad_ProtocolVersion res = ad_ProtocolVersion (ps_result s)"
    "ad_Empty res = ad_Empty (ps_result s)"
    "map ref_Name (ad_Refs res) = map ref_Name (ad_Refs (ps_result s))"
proof -
  let ?p = "ps_result s"
  have idx: "names_index (ps_names s) (ad_Refs ?p)" and sy: "symrefs_ok ?p" and hd: "head_ok (ps_names s) ?p"
    and ro: "result_ok (ps_limits s) ?p"
    using assms(2) by (simp_all add: facts_ok_def result_ok_def)
  have "applySymrefs (rd_consumed r) (ps_names s) (ad_Symrefs ?p) ?p = Inr res"
    using assms(1) by (simp add: requireEndOfResponse_Inr)
  from applySymrefs_Inr [OF this idx] sy
  have res: "res = ?p\<lparr>ad_Refs := map (retarget (ad_Symrefs ?p)) (ad_Refs ?p),
      ad_Head := retarget_head (ad_Symrefs ?p) (ad_Head ?p)\<rparr>"
    and ag: "\<forall>x \<in> set (ad_Symrefs ?p). symref_agrees (ad_Refs ?p) x"
    by (simp_all add: symrefs_ok_def)
  show "ad_ProtocolVersion res = ad_ProtocolVersion ?p" "ad_Empty res = ad_Empty ?p"
    "map ref_Name (ad_Refs res) = map ref_Name (ad_Refs ?p)"
    by (simp_all add: res)
  have target: "ref_SymrefTarget (retarget srs q) = (case symref_map srs (ref_Name q) of None \<Rightarrow> [] | Some t \<Rightarrow> t)"
    if "q \<in> set (ad_Refs ?p)" for q srs
    using ro that by (auto simp: retarget_def result_ok_def split: option.splits)
  have names: "''HEAD'' \<in> ref_Name ` set (ad_Refs ?p) \<longleftrightarrow> ps_names s ''HEAD'' \<noteq> None"
  proof
    assume "ps_names s ''HEAD'' \<noteq> None"
    then obtain i where "ps_names s ''HEAD'' = Some i" by blast
    then have "i < length (ad_Refs ?p)" "ref_Name (ad_Refs ?p ! i) = ''HEAD''"
      using idx by (auto simp: names_index_def)
    then show "''HEAD'' \<in> ref_Name ` set (ad_Refs ?p)" by (metis imageI nth_mem)
  qed (use names_index_set [OF idx] in fastforce)
  have "head_agrees res"
    unfolding head_agrees_def
  proof (intro conjI ballI impI)
    show "head_Advertised (ad_Head res) \<longleftrightarrow> ''HEAD'' \<in> ref_Name ` set (ad_Refs res)"
      using hd names
      by (auto simp: res image_image head_ok_def retarget_head_def split: option.splits)
    show "head_SymrefTarget (ad_Head res) = (case symref_map (ad_Symrefs res) ''HEAD'' of None \<Rightarrow> [] | Some t \<Rightarrow> t)"
      using ro by (simp add: res retarget_head_def result_ok_def split: option.split)
  next
    fix x assume x: "x \<in> set (ad_Refs res)" and n: "ref_Name x = ''HEAD''"
    then obtain q where q: "q \<in> set (ad_Refs ?p)" "x = retarget (ad_Symrefs ?p) q" by (auto simp: res)
    from names_index_set [OF idx q(1)] n q(2) obtain i where "ad_Refs ?p ! i = q" "ps_names s ''HEAD'' = Some i"
      by auto
    then show "head_OID (ad_Head res) = ref_OID x" "head_PeeledOID (ad_Head res) = ref_PeeledOID x"
      using hd q(2) by (auto simp: res head_ok_def retarget_head_def split: option.splits)
  qed
  moreover have "\<forall>x \<in> set (ad_Refs res). ref_ok (ps_limits s) (oidWidth (ad_ObjectFormat ?p)) x \<and>
      ref_SymrefTarget x = (case symref_map (ad_Symrefs ?p) (ref_Name x) of None \<Rightarrow> [] | Some t \<Rightarrow> t)"
    using assms(2) target by (auto simp: res facts_ok_def ref_ok_def)
  moreover have "distinct (map ref_Name (ad_Refs res))"
    using names_index_distinct [OF idx] by (simp add: res comp_def)
  ultimately show "advertisement_ok (ps_limits s) res"
    using assms(2) ro ag
    by (auto simp: advertisement_ok_def facts_ok_def res result_ok_def caps_ok_def symrefs_ok_def)
qed

definition v2_state_ok :: "bytes set \<times> parseFacts \<Rightarrow> bool" where
  "v2_state_ok st \<longleftrightarrow> facts_ok (snd st) \<and> ad_Refs (ps_result (snd st)) = [] \<and>
     \<not> ad_Empty (ps_result (snd st)) \<and> ad_ProtocolVersion (ps_result (snd st)) = 2"

lemma v2Capability_ok:
  assumes "v2Capability off line st = Inr st'" and "v2_state_ok st"
  shows "v2_state_ok st' \<and> ps_limits (snd st') = ps_limits (snd st)"
proof -
  obtain seen s where st: "st = (seen, s)" by (cases st)
  obtain key val hasValue where k: "cut (CHR ''='') line = (key, val, hasValue)"
    by (cases "cut (CHR ''='') line") auto
  have b: "int (length (ad_Capabilities (ps_result s))) < MaxCapabilities (ps_limits s)"
    "int (length line) \<le> MaxCapabilityBytes (ps_limits s)"
    using assms(1) k by (auto simp: v2Capability_def st Let_def split: if_splits)
  let ?more = "\<lambda>q. (insert key seen, s\<lparr>ps_result := q\<lparr>ad_Capabilities := ad_Capabilities q @ [line]\<rparr>\<rparr>)"
  have r: "st' = ?more (ps_result s) \<or> (val \<in> {FormatSHA1, FormatSHA256} \<and>
      st' = ?more ((ps_result s)\<lparr>ad_ObjectFormat := val, ad_ObjectFormatAdvertised := True\<rparr>))"
    using assms(1) k by (auto simp: v2Capability_def st Let_def split: if_splits)
  have idx: "ps_names s ''HEAD'' = None"
    using assms(2) by (cases "ps_names s ''HEAD''") (auto simp: v2_state_ok_def st facts_ok_def names_index_def)
  from r show ?thesis
    using assms(2) b idx
    by (elim disjE) (auto simp: v2_state_ok_def st facts_ok_def result_ok_def caps_ok_def
        symrefs_ok_def head_ok_def)
qed

interpretation v2_capabilities: packet_handler v2CapabilitiesHandler
  "\<lambda>st. v2_state_ok st \<and> ps_limits (snd st) = lim" "\<lambda>st. v2_state_ok st \<and> ps_limits (snd st) = lim" for lim
proof
  fix st off p st' assume ok: "v2_state_ok st \<and> ps_limits (snd st) = lim"
    and h: "v2CapabilitiesHandler off p st = Inr (Again st')"
  from h obtain payload where "v2Capability off (trimLF payload) st = Inr st'"
    by (cases p; cases "v2Capability off (trimLF (case p of packetData x \<Rightarrow> x)) st")
      (auto simp: v2CapabilitiesHandler_def Let_def)
  from v2Capability_ok [OF this] ok show "v2_state_ok st' \<and> ps_limits (snd st') = lim" by simp
next
  fix st off p st' assume ok: "v2_state_ok st \<and> ps_limits (snd st) = lim"
    and h: "v2CapabilitiesHandler off p st = Inr (Done st')"
  from h have "st' = st"
    by (cases p; cases "v2Capability off (trimLF (case p of packetData x \<Rightarrow> x)) st")
      (auto simp: v2CapabilitiesHandler_def Let_def)
  with ok show "v2_state_ok st' \<and> ps_limits (snd st') = lim" by simp
qed

lemma readV2Capabilities_ok:
  assumes "readV2Capabilities r s = Inr (r', s')" and "facts_ok s" and "blank s"
  shows "v2_state_ok ({}, s') \<and> ps_limits s' = ps_limits s"
proof -
  from assms(1) obtain seen where
    "read_packets v2CapabilitiesHandler r
       ({}, s\<lparr>ps_result := (ps_result s)\<lparr>ad_ProtocolVersion := 2\<rparr>\<rparr>) = Inr (r', seen, s')"
    unfolding readV2Capabilities_Inr by blast
  from v2_capabilities.read_post [OF this] show ?thesis
    using assms(2,3) facts_ok_version by (simp add: v2_state_ok_def blank_def)
qed


lemma same_frame_limits: "addRef off oid name s = Inr s' \<Longrightarrow> ps_limits s' = ps_limits s"
  "addPeeled off oid name s = Inr s' \<Longrightarrow> ps_limits s' = ps_limits s"
  by (auto simp: addRef_def addPeeled_def Let_def split: if_splits)

lemma readRecord_limits: "readRecord off line s = Inr s' \<Longrightarrow> ps_limits s' = ps_limits s"
  by (auto simp: readRecord_def same_frame_limits split: if_splits option.splits)

lemma readFirstRecord_limits:
  "readFirstRecord off line s = Inr (sentinel, s') \<Longrightarrow> ps_limits s' = ps_limits s"
  by (auto simp: readFirstRecord_def readCapabilities_def Let_def dest!: same_frame_limits
      split: if_splits prod.splits)

lemma refRecord_limits:
  assumes "refRecord off line l = Inr (Again l')"
  shows "ps_limits (rl_facts l') = ps_limits (rl_facts l)"
  using assms
proof (cases rule: refRecord_cases)
  case (first s sentinel s')
  then show ?thesis by (auto simp: countRecord_def dest: readFirstRecord_limits split: if_splits)
next
  case (later s s')
  then show ?thesis by (auto simp: countRecord_def dest: readRecord_limits split: if_splits)
qed

lemma refListHandler_limits:
  assumes "read_packets refListHandler r l = Inr (r', v2, s')"
  shows "ps_limits s' = ps_limits (rl_facts l)"
proof -
  have frame: "ps_limits (rl_facts l') = ps_limits (rl_facts l)"
    if "refListHandler off p l = Inr (Again l')" for off p l l'
    using that
  proof (cases rule: refListHandler_cases)
    case (version n)
    then show ?thesis by (cases rule: versionPacket_cases) simp_all
  next
    case (row line)
    then show ?thesis by (rule refRecord_limits)
  qed simp
  have "ps_limits s' = ps_limits (rl_facts l)"
    if "refListHandler off p l = Inr (Done (v2, s'))" for off p l v2 s'
    using that
  proof (cases rule: refListHandler_cases)
    case (version n)
    then show ?thesis by (cases rule: versionPacket_cases) simp_all
  qed (simp_all add: refRecord_not_done)
  with frame have "ps_limits (snd (v2, s')) = ps_limits (rl_facts l)"
    using read_packets_rule [of "\<lambda>x. ps_limits (rl_facts x) = ps_limits (rl_facts l)" refListHandler
        "\<lambda>g. ps_limits (snd g) = ps_limits (rl_facts l)" r l r' "(v2, s')"] assms
    by fastforce
  then show ?thesis by simp
qed

lemma readRefList_ok:
  assumes "readRefList r s = Inr (r', s')" and "facts_ok s" and "blank s" and "ps_records s = 0"
    and "ad_ProtocolVersion (ps_result s) \<le> 1"
  shows "facts_ok s' \<and> ps_limits s' = ps_limits s \<and> (v2_state_ok ({}, s') \<or> stated s')"
proof -
  let ?l = "\<lparr>rl_first = True, rl_sawVersion = False, rl_sawSentinel = False,
         rl_facts = s\<lparr>ps_oidWidth := oidWidth (ad_ObjectFormat (ps_result s))\<rparr>\<rparr>"
  from assms(1) obtain r1 v2 s1 where a: "read_packets refListHandler r ?l = Inr (r1, v2, s1)"
    and b: "if v2 then readV2Capabilities r1 s1 = Inr (r', s') else r' = r1 \<and> s' = s1"
    unfolding readRefList_Inr by blast
  have "list_state_ok ?l"
    using assms(2-5) by (auto simp: list_state_ok_def facts_ok_def width_ok_def blank_def
        result_ok_def caps_ok_def symrefs_ok_def head_ok_def)
  from ref_list.read_post [OF a this] refListHandler_limits [OF a]
  have s1: "facts_ok s1" "if v2 then blank s1 else stated s1" "ps_limits s1 = ps_limits s"
    by (cases v2; simp add: list_result_ok_def)+
  show ?thesis
    using b s1 readV2Capabilities_ok [of r1 s1 r' s'] by (cases v2) (auto simp: v2_state_ok_def)
qed

lemma run_parse_ok:
  assumes "run_parse r s = Inr (r', res)" and "facts_ok s" and "blank s" and "ps_records s = 0"
    and "ad_ProtocolVersion (ps_result s) \<le> 1"
  shows "advertisement_ok (ps_limits s) res \<and> version_ok res"
proof -
  from assms(1) obtain r1 v2 s2
    where b: "(if v2 then readV2Capabilities r1 s else readRefList r1 s) = Inr (r', s2)"
    and e: "requireEndOfResponse r' s2 = Inr res"
    unfolding run_parse_Inr by blast
  have s2: "facts_ok s2 \<and> ps_limits s2 = ps_limits s \<and> (v2_state_ok ({}, s2) \<or> stated s2)"
  proof (cases v2)
    case True
    with b readV2Capabilities_ok [OF _ assms(2,3)] show ?thesis by (auto simp: v2_state_ok_def)
  next
    case False
    with b have "readRefList r1 s = Inr (r', s2)" by simp
    from readRefList_ok [OF this assms(2-5)] show ?thesis .
  qed
  note E = requireEndOfResponse_ok [OF e conjunct1 [OF s2]]
  have "ad_Refs res = [] \<longleftrightarrow> ad_Refs (ps_result s2) = []"
    using E(4) by (metis map_is_Nil_conv)
  then show ?thesis
    using E s2 by (auto simp: version_ok_def v2_state_ok_def stated_def)
qed

lemma startFacts_ok:
  assumes "Effective l = Inr lim"
  shows "facts_ok (startFacts opts lim service)" "blank (startFacts opts lim service)"
proof -
  have "0 \<le> MaxCapabilities lim" "0 \<le> MaxRefRecords lim"
    using assms by (auto simp: Effective_def or_default_def DefaultLimits_def split: if_splits)
  then show "facts_ok (startFacts opts lim service)" "blank (startFacts opts lim service)"
    by (simp_all add: facts_ok_def startFacts_def result_ok_def caps_ok_def symrefs_ok_def
        names_index_def head_ok_def emptyHead_def blank_def)
qed

subsection \<open>Parsing a sequence of packets\<close>

text \<open>
  \<open>Parse\<close> of a v0 body as a fold over its packets. Only the framing is left out, so an
  equation about a concrete body can be evaluated.
\<close>

definition parse_packets :: "Options \<Rightarrow> Limits \<Rightarrow> packet list \<Rightarrow> Advertisement option" where
  "parse_packets opts lim ps =
     (let s = startFacts opts lim DefaultService in
      case fold_packets (announcementHandler s) 0 ps False of
        Some (off1, qs, False) \<Rightarrow>
          (case fold_packets refListHandler off1 qs \<lparr>rl_first = True, rl_sawVersion = False,
              rl_sawSentinel = False, rl_facts = s\<lparr>ps_oidWidth := 40\<rparr>\<rparr> of
            Some (off2, [], False, s2) \<Rightarrow>
              (case applySymrefs off2 (ps_names s2) (ad_Symrefs (ps_result s2)) (ps_result s2) of
                Inr res \<Rightarrow> Some (res\<lparr>ad_TotalBytes := off2\<rparr>)
              | Inl e \<Rightarrow> None)
          | _ \<Rightarrow> None)
      | _ \<Rightarrow> None)"

lemma Parse_packets:
  assumes "parse_packets opts lim ps = Some ad"
    and "Effective (opt_Limits opts) = Inr lim" and "opt_Service opts = [] \<or> opt_Service opts = DefaultService"
    and "reads_as (startReader \<lparr>src_data = frames ps, src_end = EOF\<rparr> lim) ps"
  shows "Parse (Some \<lparr>src_data = frames ps, src_end = EOF\<rparr>) opts = Inr ad"
proof -
  let ?r = "startReader \<lparr>src_data = frames ps, src_end = EOF\<rparr> lim"
    and ?s = "startFacts opts lim DefaultService"
  obtain off1 qs off2 s2 res where
    f1: "fold_packets (announcementHandler ?s) 0 ps False = Some (off1, qs, False)"
    and f2: "fold_packets refListHandler off1 qs \<lparr>rl_first = True, rl_sawVersion = False,
        rl_sawSentinel = False, rl_facts = ?s\<lparr>ps_oidWidth := 40\<rparr>\<rparr> = Some (off2, [], False, s2)"
    and sy: "applySymrefs off2 (ps_names s2) (ad_Symrefs (ps_result s2)) (ps_result s2) = Inr res"
    and ad: "ad = res\<lparr>ad_TotalBytes := off2\<rparr>"
    using assms(1)
    by (auto simp: parse_packets_def Let_def split: option.splits prod.splits bool.splits list.splits sum.splits)
  have c: "rd_consumed ?r = 0" "src_end (rd_source ?r) = EOF" by (simp_all add: startReader_def)
  from read_packets_fold [of "announcementHandler ?s" ?r ps False] assms(4) f1 c
  obtain r1 c1 where r1: "read_packets (announcementHandler ?s) ?r False = Inr (r1, False)"
    "reads_as r1 qs" "rd_consumed r1 = off1" "advanced ?r c1 r1" by metis
  have w: "oidWidth (ad_ObjectFormat (ps_result ?s)) = 40"
    by (simp add: startFacts_def oidWidth_def FormatSHA1_def FormatSHA256_def)
  from read_packets_fold [OF f2 [folded r1(3)] r1(2)]
  obtain r2 c2 where r2: "read_packets refListHandler r1 \<lparr>rl_first = True, rl_sawVersion = False, rl_sawSentinel = False,
         rl_facts = ?s\<lparr>ps_oidWidth := 40\<rparr>\<rparr> = Inr (r2, False, s2)"
    "reads_as r2 []" "rd_consumed r2 = off2" "advanced r1 c2 r2" by metis
  have "readRefList r1 ?s = Inr (r2, s2)" using r2(1) by (simp add: readRefList_def w)
  moreover have "requireEndOfResponse r2 s2 = Inr res"
    using sy r1(4) r2(2-4) c by (simp add: requireEndOfResponse_Inr reads_as_def advanced_def)
  ultimately have "run_parse ?r ?s = Inr (r2, res)" using r1(1) by (simp add: run_parse_def)
  then show ?thesis using assms(2,3) r2(3) ad by (auto simp: Parse_def Let_def)
qed

definition sample_oid :: bytes where
  "sample_oid = replicate 39 (CHR ''a'') @ ''1''"

definition sample_packets :: "packet list" where
  "sample_packets =
     [packetData (''# service=git-upload-pack'' @ [CHR 0x0A]), packetFlush,
      packetData (sample_oid @ '' HEAD'' @ [CHR 0x00] @ ''ofs-delta symref=HEAD:refs/heads/main'' @ [CHR 0x0A]),
      packetData (sample_oid @ '' refs/heads/main'' @ [CHR 0x0A]), packetFlush]"

definition sample_source :: byte_source where
  "sample_source = \<lparr>src_data = frames sample_packets, src_end = EOF\<rparr>"

definition sample_limits :: Limits where
  "sample_limits = \<lparr>MaxPacketBytes = 0, MaxTotalBytes = 0, MaxRefRecords = 0, MaxNameBytes = 0,
     MaxCapabilities = 0, MaxCapabilityBytes = 0\<rparr>"

definition sample_options :: Options where
  "sample_options = \<lparr>opt_Limits = sample_limits, opt_Service = [], opt_ProtocolV2 = False\<rparr>"

definition sample_ref :: "bytes \<Rightarrow> Ref" where
  "sample_ref name = \<lparr>ref_Name = name, ref_OID = sample_oid, ref_PeeledOID = [],
     ref_SymrefTarget = (if name = ''HEAD'' then ''refs/heads/main'' else [])\<rparr>"

definition default_numbers :: Limits where
  "default_numbers = \<lparr>MaxPacketBytes = 65520, MaxTotalBytes = 16777216, MaxRefRecords = 50000,
     MaxNameBytes = 1024, MaxCapabilities = 256, MaxCapabilityBytes = 1024\<rparr>"

lemma default_numbers: "DefaultLimits = default_numbers"
  by (simp add: DefaultLimits_def default_numbers_def protocolMaxPacket_def)

definition sample_advertisement :: Advertisement where
  "sample_advertisement = \<lparr>ad_Service = ''git-upload-pack'', ad_ProtocolVersion = 0, ad_ObjectFormat = ''sha1'',
     ad_ObjectFormatAdvertised = False,
     ad_Capabilities = [''ofs-delta'', ''symref=HEAD:refs/heads/main''],
     ad_Refs = [sample_ref ''HEAD'', sample_ref ''refs/heads/main''],
     ad_Head = \<lparr>head_Advertised = True, head_OID = sample_oid, head_PeeledOID = [], head_SymrefTarget = ''refs/heads/main''\<rparr>,
     ad_Symrefs = [\<lparr>sym_Name = ''HEAD'', sym_Target = ''refs/heads/main''\<rparr>],
     ad_Empty = False, ad_EffectiveLimits = default_numbers, ad_TotalBytes = 187\<rparr>"

lemma sample_effective: "Effective sample_limits = Inr DefaultLimits"
  by (simp add: Effective_def sample_limits_def or_default_def DefaultLimits_def protocolMaxPacket_def)

lemma sample_reads_as: "reads_as (startReader sample_source DefaultLimits) sample_packets"
  by (simp add: reads_as_def readable_def startReader_def sample_source_def rd_data_def
      protocolMaxPacket_def DefaultLimits_def sample_packets_def sample_oid_def pkt_line_def)

lemma sample_fold:
  "parse_packets sample_options default_numbers sample_packets = Some sample_advertisement"
  by code_simp

lemma sample_parse: "Parse (Some sample_source) sample_options = Inr sample_advertisement"
  unfolding sample_source_def
  by (rule Parse_packets)
   (use sample_fold sample_effective sample_reads_as in
    \<open>simp_all add: default_numbers sample_options_def sample_source_def\<close>)

subsection \<open>The promises of \<open>Parse\<close>\<close>

lemma Parse_Inr:
  assumes "Parse (Some src) opts = Inr ad"
  obtains lim r res where "Effective (opt_Limits opts) = Inr lim"
    "run_parse (startReader src lim) (startFacts opts lim DefaultService) = Inr (r, res)"
    "ad = res\<lparr>ad_TotalBytes := rd_consumed r\<rparr>"
  using assms by (auto simp: Parse_def Let_def split: if_splits)

lemma total_bytes_irrelevant:
  "advertisement_ok lim (ad\<lparr>ad_TotalBytes := n\<rparr>) = advertisement_ok lim ad"
  "version_ok (ad\<lparr>ad_TotalBytes := n\<rparr>) = version_ok ad"
  by (simp_all add: advertisement_ok_def caps_ok_def symrefs_ok_def head_agrees_def version_ok_def
      cong: option.case_cong)

definition well_formed :: "Advertisement \<Rightarrow> bool" where
  "well_formed ad \<longleftrightarrow> advertisement_ok (ad_EffectiveLimits ad) ad \<and> version_ok ad"

text \<open>
  C1. Every advertisement \<open>Parse\<close> accepts is well formed: reference names are valid, distinct
  and within the limit, object IDs are lower-case hexadecimal of the advertised format's
  width and never zero, peeled values likewise, HEAD agrees with the reference of that name,
  every symref is copied to its reference, a symref between two advertised references states
  the same object, capabilities and references stay within the limits in force, and a v0
  list is marked empty exactly when it has no reference.
\<close>
theorem Parse_well_formed:
  assumes "Parse (Some src) opts = Inr ad"
  shows "well_formed ad \<and> Effective (opt_Limits opts) = Inr (ad_EffectiveLimits ad)"
proof -
  obtain lim r res where e: "Effective (opt_Limits opts) = Inr lim"
    and p: "run_parse (startReader src lim) (startFacts opts lim DefaultService) = Inr (r, res)"
    and ad: "ad = res\<lparr>ad_TotalBytes := rd_consumed r\<rparr>"
    using assms by (rule Parse_Inr)
  have "advertisement_ok lim res \<and> version_ok res"
    using run_parse_ok [OF p startFacts_ok [OF e]] by (simp add: startFacts_def)
  then have ok: "advertisement_ok lim ad" "version_ok ad"
    by (simp_all add: ad total_bytes_irrelevant)
  moreover from ok(1) have "ad_EffectiveLimits ad = lim" by (simp add: advertisement_ok_def)
  ultimately show ?thesis using e by (simp add: well_formed_def)
qed

theorem Parse_well_formed_witness: "well_formed sample_advertisement"
  using Parse_well_formed [OF sample_parse] by simp

text \<open>
  C2. \<open>Parse\<close> reads its body exactly once and to the end: a body is accepted only when it
  ends normally, the reported size is the size of the whole body, and that size is within
  the byte limit in force.
\<close>
theorem Parse_reads_whole_body:
  assumes "Parse (Some src) opts = Inr ad"
  shows "src_end src = EOF \<and> ad_TotalBytes ad = int (length (src_data src)) \<and>
    ad_TotalBytes ad \<le> MaxTotalBytes (ad_EffectiveLimits ad)"
proof -
  obtain lim r res where e: "Effective (opt_Limits opts) = Inr lim"
    and p: "run_parse (startReader src lim) (startFacts opts lim DefaultService) = Inr (r, res)"
    and ad: "ad = res\<lparr>ad_TotalBytes := rd_consumed r\<rparr>"
    using assms by (rule Parse_Inr)
  have "advertisement_ok lim res"
    using run_parse_ok [OF p startFacts_ok [OF e]] by (simp add: startFacts_def)
  then have "ad_EffectiveLimits res = lim" by (simp add: advertisement_ok_def)
  with run_parse_advanced [OF p] show ?thesis
    by (simp add: ad startReader_def advanced_def rd_data_def)
qed

theorem Parse_reads_whole_body_witness:
  "ad_TotalBytes sample_advertisement = int (length (src_data sample_source))"
  using Parse_reads_whole_body [OF sample_parse] by simp

text \<open>
  C3. No two accepted bodies are prefixes of each other. A body cut short anywhere before its
  end is refused as truncated, never read as a smaller advertisement, and any byte after an
  accepted body is refused as trailing content.
\<close>
theorem Parse_no_partial_body:
  assumes "Parse (Some \<lparr>src_data = c @ d, src_end = EOF\<rparr>) opts = Inr ad" and "d \<noteq> []" and "t \<noteq> []"
  shows "(\<exists>off. Parse (Some \<lparr>src_data = c, src_end = EOF\<rparr>) opts = fail off ErrTruncated) \<and>
    Parse (Some \<lparr>src_data = c @ d @ t, src_end = EOF\<rparr>) opts = fail (int (length (c @ d))) ErrTrailingContent"
proof -
  obtain lim r res where e: "Effective (opt_Limits opts) = Inr lim"
    and p: "run_parse (startReader \<lparr>src_data = c @ d, src_end = EOF\<rparr> lim) (startFacts opts lim DefaultService)
      = Inr (r, res)"
    using assms(1) by (rule Parse_Inr)
  have sv: "opt_Service opts = [] \<or> opt_Service opts = DefaultService"
    using assms(1) e by (auto simp: Parse_def Let_def split: if_splits)
  have tail: "startReader \<lparr>src_data = x @ y, src_end = EOF\<rparr> lim
      = with_tail y (startReader \<lparr>src_data = x, src_end = EOF\<rparr> lim)" for x y
    by (simp add: startReader_def with_tail_def)
  let ?R = "\<lambda>x. startReader \<lparr>src_data = x, src_end = EOF\<rparr> lim"
  have eof: "src_end (rd_source (?R c)) = EOF" by (simp add: startReader_def)
  have "\<exists>off. run_parse (?R c) (startFacts opts lim DefaultService) = fail off ErrTruncated"
    by (rule run_parse_cut [OF _ eof assms(2)]) (use p tail in simp)
  moreover have "rd_consumed r = int (length (c @ d))"
    using run_parse_advanced [OF p] by (simp add: advanced_def startReader_def rd_data_def)
  then have "run_parse (?R (c @ d @ t)) (startFacts opts lim DefaultService)
      = fail (int (length (c @ d))) ErrTrailingContent"
    using run_parse_trailing [OF p assms(3)] tail [of "c @ d" t] by simp
  ultimately show ?thesis using e sv by (auto simp: Parse_def Let_def)
qed

theorem Parse_no_partial_body_witness:
  "Parse (Some \<lparr>src_data = frames sample_packets @ ''0000'', src_end = EOF\<rparr>) sample_options
     = fail (int (length (frames sample_packets))) ErrTrailingContent"
  using Parse_no_partial_body [of "[]" "frames sample_packets" sample_options sample_advertisement "''0000''"]
    sample_parse by (simp add: sample_source_def sample_packets_def pkt_line_def)

text \<open>
  The text of an \<open>ERR\<close> packet reaches a message only after it was made safe: at most 203
  bytes, no control character, and the bytes kept are those of the remote text in order.
\<close>
theorem sanitizeRemoteText_safe:
  "length (sanitizeRemoteText text) \<le> 203 \<and> list_all (\<lambda>c. \<not> is_control c) (sanitizeRemoteText text) \<and>
   list_all2 (\<lambda>x y. y = (if is_control x then CHR ''?'' else x)) (take 200 text) (take 200 (sanitizeRemoteText text)) \<and>
   sanitizeRemoteText (sanitizeRemoteText (take 200 text)) = sanitizeRemoteText (take 200 text)"
proof -
  let ?f = "\<lambda>c. if byte c < 32 \<or> byte c = 127 then CHR ''?'' else c"
  have q: "\<not> is_control (CHR ''?'')" "\<not> is_control (CHR ''.'')" by (simp_all add: is_control_def byte_def)
  have f: "\<not> is_control (?f c)" "?f (?f c) = ?f c" for c
    using q(1) by (auto simp: is_control_def)
  have "list_all (\<lambda>c. \<not> is_control c) (sanitizeRemoteText text)"
    using q unfolding sanitizeRemoteText_def list_all_append list_all_iff
    by (auto simp: is_control_def)
  moreover have "take 200 (sanitizeRemoteText text) = map ?f (take 200 text)"
    by (auto simp: sanitizeRemoteText_def)
  moreover have "list_all2 (\<lambda>x y. y = (if is_control x then CHR ''?'' else x)) xs (map ?f xs)" for xs
    by (simp add: list_all2_conv_all_nth is_control_def)
  moreover have "sanitizeRemoteText (sanitizeRemoteText (take 200 text)) = sanitizeRemoteText (take 200 text)"
    using f(2) by (simp add: sanitizeRemoteText_def)
  ultimately show ?thesis by (simp add: sanitizeRemoteText_def)
qed

end
