(* ===== verification/LsRefs.thy ===== *)
theory LsRefs
  imports AdvertisementProps
begin

text \<open>
  The answer to a protocol v2 \<open>ls-refs\<close> command (\<open>internal/importgit/v2.go\<close>): which reference
  prefixes an import asks for, and \<open>ParseLsRefs\<close>, which validates every listed reference and
  keeps the requested ones. It shares the packet loop, the records and the end of the
  response with \<open>Parse\<close>.
\<close>

subsection \<open>The requested prefixes\<close>

definition base_prefixes :: "bytes list" where
  "base_prefixes = [''HEAD'', ''refs/heads/'', ''refs/tags/'']"

fun add_prefixes :: "bytes list \<Rightarrow> bytes list \<Rightarrow> parse_fail + bytes list" where
  "add_prefixes prefixes' [] = Inr prefixes'"
| "add_prefixes prefixes' (p # ps) =
     (case cut_suffix ''/'' p of
       None \<Rightarrow> Inl (OptionErr ErrInvalidOptions)
     | Some name \<Rightarrow>
         if name = ''HEAD'' \<or> validateRefName name \<noteq> None then Inl (OptionErr ErrInvalidOptions)
         else add_prefixes (prefixes' @ [p]) ps)"

definition LsRefsPrefixes :: "bytes list \<Rightarrow> parse_fail + bytes list" where
  "LsRefsPrefixes extra = add_prefixes base_prefixes extra"

definition hasRequestedPrefix :: "bytes \<Rightarrow> bytes list \<Rightarrow> bool" where
  "hasRequestedPrefix name prefixes' =
     list_ex (\<lambda>p. name = p \<or> (suffix ''/'' p \<and> prefix p name)) prefixes'"

subsection \<open>Records\<close>

text \<open>The attributes of a record: the symref target and the peeled value read so far.\<close>

fun readAttributes ::
    "int \<Rightarrow> nat \<Rightarrow> bytes list \<Rightarrow> bytes \<Rightarrow> bytes \<Rightarrow> parse_fail + bytes \<times> bytes" where
  "readAttributes off w [] target peeled = Inr (target, peeled)"
| "readAttributes off w (attribute # attributes) target peeled =
     (case cut (CHR '':'') attribute of (key, val, found) \<Rightarrow>
        if key = ''symref-target'' then
          (if target \<noteq> [] then fail off ErrConflictingRefs
           else if validateRefName val \<noteq> None then fail off ErrInvalidName
           else readAttributes off w attributes val peeled)
        else if key = ''peeled'' then
          (if peeled \<noteq> [] then fail off ErrConflictingRefs
           else if length val \<noteq> w \<or> \<not> isHexOID val then fail off ErrInvalidObjectID
           else if isZeroOID (canonicalOID val) then fail off ErrInvalidObjectID
           else readAttributes off w attributes target (canonicalOID val))
        else fail off ErrInvalidRecord)"

text \<open>A reference outside the requested prefixes is validated and remembered, not recorded.\<close>

definition skipRef :: "int \<Rightarrow> bytes \<Rightarrow> bytes \<Rightarrow> parseFacts \<Rightarrow> parse_fail + parseFacts" where
  "skipRef off oid name s =
     (if isZeroOID oid then fail off ErrInvalidObjectID
      else if validateRefName name \<noteq> None then fail off ErrInvalidName
      else if name \<in> ps_unrequested s then fail off ErrConflictingRefs
      else Inr (s\<lparr>ps_unrequested := insert name (ps_unrequested s)\<rparr>))"

definition describeRef :: "bytes \<Rightarrow> bytes \<Rightarrow> bytes \<Rightarrow> Advertisement \<Rightarrow> Advertisement" where
  "describeRef name target peeled res =
     (let res1 = (if target \<noteq> []
            then res\<lparr>ad_Symrefs := ad_Symrefs res @ [\<lparr>sym_Name = name, sym_Target = target\<rparr>]\<rparr> else res)
      in if peeled \<noteq> [] then setPeeled peeled name res1 else res1)"

definition readLsRefsRecord :: "int \<Rightarrow> bytes \<Rightarrow> parseFacts \<Rightarrow> parse_fail + parseFacts" where
  "readLsRefsRecord off line s =
     (case split_on (CHR '' '') line of
       first # second # attributes \<Rightarrow>
         (if first = ''unborn'' then fail off ErrInvalidRecord
          else bindE (splitRecord off (first @ '' '' @ second) s) (\<lambda>(oid, name).
            bindE (readAttributes off (ps_oidWidth s) attributes [] []) (\<lambda>(target, peeled).
              if \<not> hasRequestedPrefix name (ps_prefixes s) then skipRef off oid name s
              else bindE (addRef off oid name s) (\<lambda>s'.
                Inr (s'\<lparr>ps_result := describeRef name target peeled (ps_result s')\<rparr>)))))
     | _ \<Rightarrow> fail off ErrInvalidRecord)"

definition lsRefsHandler :: "(parseFacts, parseFacts) handler" where
  "lsRefsHandler off p s =
     (case p of
       packetFlush \<Rightarrow> Inr (Done s)
     | packetData payload \<Rightarrow>
         (let line = trimLF payload in
          bindE (checkErrorPacket off line) (\<lambda>_.
          bindE (countRecord off s) (\<lambda>s1.
          bindE (readLsRefsRecord off line s1) (\<lambda>s2. Inr (Again s2)))))
     | _ \<Rightarrow> fail off ErrMalformedPacket)"

definition readLsRefs :: "packetReader \<Rightarrow> parseFacts \<Rightarrow> parse_fail + packetReader \<times> parseFacts" where
  "readLsRefs r s = read_packets lsRefsHandler r s"

definition lsRefsFacts :: "Advertisement \<Rightarrow> Limits \<Rightarrow> bytes list \<Rightarrow> parseFacts" where
  "lsRefsFacts caps limits prefixes' = \<lparr>ps_limits = limits,
     ps_result = \<lparr>ad_Service = ad_Service caps, ad_ProtocolVersion = 2,
       ad_ObjectFormat = ad_ObjectFormat caps, ad_ObjectFormatAdvertised = ad_ObjectFormatAdvertised caps,
       ad_Capabilities = ad_Capabilities caps, ad_Refs = [], ad_Head = emptyHead, ad_Symrefs = [],
       ad_Empty = False, ad_EffectiveLimits = limits, ad_TotalBytes = 0\<rparr>,
     ps_names = Map.empty, ps_oidWidth = oidWidth (ad_ObjectFormat caps), ps_records = 0,
     ps_v2 = False, ps_prefixes = prefixes', ps_unrequested = {}\<rparr>"

definition ParseLsRefs ::
    "byte_source option \<Rightarrow> Advertisement option \<Rightarrow> bytes list \<Rightarrow> Options \<Rightarrow> parse_fail + Advertisement" where
  "ParseLsRefs source capabilities prefixes' opts =
     (case (source, capabilities) of
       (Some src, Some caps) \<Rightarrow>
         (if ad_ProtocolVersion caps \<noteq> 2 \<or> prefixes' = [] then Inl (OptionErr ErrInvalidOptions)
          else bindE (Effective (opt_Limits opts)) (\<lambda>limits.
            bindE (readLsRefs (startReader src limits) (lsRefsFacts caps limits prefixes')) (\<lambda>(r, s).
              let s1 = s\<lparr>ps_result := (ps_result s)\<lparr>ad_Empty := (ad_Refs (ps_result s) = [])\<rparr>\<rparr> in
              bindE (requireEndOfResponse r s1) (\<lambda>res.
                Inr (res\<lparr>ad_TotalBytes := rd_consumed r\<rparr>)))))
     | _ \<Rightarrow> Inl (OptionErr ErrInvalidOptions))"

subsection \<open>The invariant\<close>

text \<open>Every recorded reference was requested, and every symref belongs to a recorded reference.\<close>

definition listed_ok :: "parseFacts \<Rightarrow> bool" where
  "listed_ok s \<longleftrightarrow> facts_ok s \<and> width_ok s \<and> ad_ProtocolVersion (ps_result s) = 2 \<and>
     (\<forall>r \<in> set (ad_Refs (ps_result s)). hasRequestedPrefix (ref_Name r) (ps_prefixes s)) \<and>
     sym_Name ` set (ad_Symrefs (ps_result s)) \<subseteq> ref_Name ` set (ad_Refs (ps_result s))"

lemma readAttributes_Inr:
  assumes "readAttributes off w attrs target peeled = Inr (target', peeled')"
    and "target = [] \<or> validateRefName target = None" and "peeled = [] \<or> oid_ok w peeled"
  shows "(target' = [] \<or> validateRefName target' = None) \<and> (peeled' = [] \<or> oid_ok w peeled')"
  using assms
proof (induction off w attrs target peeled rule: readAttributes.induct)
  case (2 off w attribute attributes target peeled)
  obtain key val found where k: "cut (CHR '':'') attribute = (key, val, found)"
    by (cases "cut (CHR '':'') attribute") auto
  have "oid_ok w (canonicalOID val)" if "length val = w" "isHexOID val" "\<not> isZeroOID (canonicalOID val)"
    using that isHexOID_canonical by (simp add: oid_ok_def canonicalOID_def)
  then show ?case
    using 2 k by (simp split: if_splits)
qed auto


lemma addRef_Inr:
  assumes "addRef off oid name s = Inr s'"
  shows "ps_names s name = None" "validateRefName name = None"
    "ad_Refs (ps_result s') = ad_Refs (ps_result s) @
       [\<lparr>ref_Name = name, ref_OID = oid, ref_PeeledOID = [], ref_SymrefTarget = []\<rparr>]"
    "ps_limits s' = ps_limits s" "ps_prefixes s' = ps_prefixes s" "ps_unrequested s' = ps_unrequested s"
  using assms by (auto simp: addRef_def Let_def split: if_splits)

lemma names_index_name:
  assumes i: "names_index names refs"
  shows "names n = None \<longleftrightarrow> n \<notin> ref_Name ` set refs"
proof
  assume n: "names n = None"
  show "n \<notin> ref_Name ` set refs"
  proof
    assume "n \<in> ref_Name ` set refs"
    then obtain j where "j < length refs" "ref_Name (refs ! j) = n" by (auto simp: in_set_conv_nth)
    then have "names n = Some j" using i unfolding names_index_def by blast
    with n show False by simp
  qed
next
  assume n: "n \<notin> ref_Name ` set refs"
  show "names n = None"
  proof (cases "names n")
    case (Some j)
    then have "j < length refs" "ref_Name (refs ! j) = n" using i unfolding names_index_def by blast+
    with n show ?thesis by (metis imageI nth_mem)
  qed
qed

text \<open>A symref of a recorded reference joins the facts.\<close>

lemma add_symref_ok:
  assumes "facts_ok s" and "validateRefName name = None" and "validateRefName target = None"
    and "name \<notin> sym_Name ` set (ad_Symrefs (ps_result s))"
  shows "facts_ok (s\<lparr>ps_result := (ps_result s)\<lparr>ad_Symrefs := ad_Symrefs (ps_result s) @
    [\<lparr>sym_Name = name, sym_Target = target\<rparr>]\<rparr>\<rparr>)"
proof -
  let ?p = "(ps_result s)\<lparr>ad_Symrefs := ad_Symrefs (ps_result s) @ [\<lparr>sym_Name = name, sym_Target = target\<rparr>]\<rparr>"
  have "symrefs_ok ?p"
    using assms by (simp add: facts_ok_def result_ok_def symrefs_ok_def)
  then have "result_ok (ps_limits s) ?p"
    using assms(1) by (simp add: facts_ok_def result_ok_def caps_ok_def)
  moreover have "head_ok (ps_names s) ?p = head_ok (ps_names s) (ps_result s)"
    unfolding head_ok_def by (cases "ps_names s ''HEAD''") simp_all
  ultimately show ?thesis using assms(1) by (simp add: facts_ok_def)
qed

lemma set_peeled_ok:
  assumes "facts_ok s" and "width_ok s" and "ad_Refs (ps_result s) \<noteq> []"
    and "ref_Name (last (ad_Refs (ps_result s))) = name" and "ref_PeeledOID (last (ad_Refs (ps_result s))) = []"
    and "oid_ok (ps_oidWidth s) peeled"
  shows "facts_ok (s\<lparr>ps_result := setPeeled peeled name (ps_result s)\<rparr>)"
proof -
  have "addPeeled 0 peeled name s = Inr (s\<lparr>ps_result := setPeeled peeled name (ps_result s)\<rparr>)"
    using assms by (simp add: addPeeled_def oid_ok_def)
  from addPeeled_ok [OF this assms(1,2)] assms(6) show ?thesis by (simp add: oid_ok_def)
qed

text \<open>What reading references leaves alone.\<close>

definition listed_frame :: "parseFacts \<Rightarrow> parseFacts \<Rightarrow> bool" where
  "listed_frame s s' \<longleftrightarrow> ps_limits s' = ps_limits s \<and> ps_prefixes s' = ps_prefixes s \<and>
     ad_ObjectFormat (ps_result s') = ad_ObjectFormat (ps_result s) \<and>
     ad_Capabilities (ps_result s') = ad_Capabilities (ps_result s)"

lemma setPeeled_fields:
  "ad_Capabilities (setPeeled p n res) = ad_Capabilities res"
  "ad_Symrefs (setPeeled p n res) = ad_Symrefs res" "ad_ProtocolVersion (setPeeled p n res) = ad_ProtocolVersion res"
  "ad_ObjectFormat (setPeeled p n res) = ad_ObjectFormat res"
  "map ref_Name (ad_Refs (setPeeled p n res)) = map ref_Name (ad_Refs res)"
proof -
  have "map ref_Name (refs[i := (refs ! i)\<lparr>ref_PeeledOID := p\<rparr>]) = map ref_Name refs" for refs :: "Ref list" and i
    by (cases "i < length refs") (simp_all add: map_update list_update_same_conv list_update_beyond)
  then show "map ref_Name (ad_Refs (setPeeled p n res)) = map ref_Name (ad_Refs res)"
    by (simp add: setPeeled_def Let_def)
qed (simp_all add: setPeeled_def Let_def)

lemma describeRef_fields:
  "ad_Capabilities (describeRef n t p res) = ad_Capabilities res"
  "ad_ProtocolVersion (describeRef n t p res) = ad_ProtocolVersion res"
  "ad_ObjectFormat (describeRef n t p res) = ad_ObjectFormat res"
  "map ref_Name (ad_Refs (describeRef n t p res)) = map ref_Name (ad_Refs res)"
  "ad_Symrefs (describeRef n t p res) =
     ad_Symrefs res @ (if t = [] then [] else [\<lparr>sym_Name = n, sym_Target = t\<rparr>])"
  by (simp_all add: describeRef_def Let_def setPeeled_fields)

lemma describeRef_ok:
  assumes "facts_ok s" and "width_ok s" and "ad_Refs (ps_result s) \<noteq> []"
    and "ref_Name (last (ad_Refs (ps_result s))) = name" and "ref_PeeledOID (last (ad_Refs (ps_result s))) = []"
    and "peeled = [] \<or> oid_ok (ps_oidWidth s) peeled" and "target = [] \<or> validateRefName target = None"
    and "validateRefName name = None" and "name \<notin> sym_Name ` set (ad_Symrefs (ps_result s))"
  shows "facts_ok (s\<lparr>ps_result := describeRef name target peeled (ps_result s)\<rparr>)"
proof -
  define s1 where "s1 = (if target = [] then s else s\<lparr>ps_result := (ps_result s)\<lparr>ad_Symrefs := ad_Symrefs (ps_result s) @
    [\<lparr>sym_Name = name, sym_Target = target\<rparr>]\<rparr>\<rparr>)"
  have ok: "facts_ok s1"
    using add_symref_ok [OF assms(1,8) _ assms(9)] assms(1,7) by (auto simp: s1_def)
  have same: "width_ok s1" "ad_Refs (ps_result s1) = ad_Refs (ps_result s)" "ps_oidWidth s1 = ps_oidWidth s"
    using assms(2) by (simp_all add: s1_def width_ok_def)
  have "s\<lparr>ps_result := describeRef name target peeled (ps_result s)\<rparr> =
    (if peeled = [] then s1 else s1\<lparr>ps_result := setPeeled peeled name (ps_result s1)\<rparr>)"
    by (simp add: s1_def describeRef_def Let_def)
  then show ?thesis
    using ok set_peeled_ok [OF ok same(1)] assms(3-6) same by auto
qed

text \<open>A record either leaves the facts alone or adds one reference with what it says of it.\<close>

lemma readLsRefsRecord_cases:
  assumes "readLsRefsRecord off line s = Inr s'"
  obtains (skipped) oid name where "\<not> hasRequestedPrefix name (ps_prefixes s)" "skipRef off oid name s = Inr s'"
  | (kept) oid name target peeled s1 where "hasRequestedPrefix name (ps_prefixes s)"
      "length oid = ps_oidWidth s" "list_all is_hex_lower oid" "int (length name) \<le> MaxNameBytes (ps_limits s)"
      "target = [] \<or> validateRefName target = None" "peeled = [] \<or> oid_ok (ps_oidWidth s) peeled"
      "addRef off oid name s = Inr s1" "s' = s1\<lparr>ps_result := describeRef name target peeled (ps_result s1)\<rparr>"
proof -
  obtain first second attributes where f: "split_on (CHR '' '') line = first # second # attributes"
    using assms by (auto simp: readLsRefsRecord_def split: list.splits)
  have nu: "first \<noteq> ''unborn''" using assms f by (auto simp: readLsRefsRecord_def)
  obtain oid name where sp: "splitRecord off (first @ '' '' @ second) s = Inr (oid, name)"
    using assms f nu by (cases "splitRecord off (first @ '' '' @ second) s") (auto simp: readLsRefsRecord_def)
  obtain target peeled where at': "readAttributes off (ps_oidWidth s) attributes [] [] = Inr (target, peeled)"
    using assms f nu sp by (cases "readAttributes off (ps_oidWidth s) attributes [] []") (auto simp: readLsRefsRecord_def)
  have c: "(if \<not> hasRequestedPrefix name (ps_prefixes s) then skipRef off oid name s
      else bindE (addRef off oid name s) (\<lambda>s1.
        Inr (s1\<lparr>ps_result := describeRef name target peeled (ps_result s1)\<rparr>))) = Inr s'"
    using assms f nu sp at' by (simp add: readLsRefsRecord_def)
  note S = splitRecord_Inr [OF sp]
  show thesis
  proof (cases "hasRequestedPrefix name (ps_prefixes s)")
    case False
    then show thesis using c skipped by simp
  next
    case True
    then obtain s1 where s1: "addRef off oid name s = Inr s1"
      "s' = s1\<lparr>ps_result := describeRef name target peeled (ps_result s1)\<rparr>" using c by auto
    have "(target = [] \<or> validateRefName target = None) \<and> (peeled = [] \<or> oid_ok (ps_oidWidth s) peeled)"
      using readAttributes_Inr [OF at'] by simp
    then show thesis using kept [OF True S(1,2,4) _ _ s1] by blast
  qed
qed

lemma skipRef_frame:
  "skipRef off oid name s = Inr s' \<Longrightarrow> s' = s\<lparr>ps_unrequested := insert name (ps_unrequested s)\<rparr>"
  by (auto simp: skipRef_def split: if_splits)

lemma listed_ok_unrequested [simp]: "listed_ok (s\<lparr>ps_unrequested := u\<rparr>) = listed_ok s"
  by (simp add: listed_ok_def facts_ok_def width_ok_def)

lemma readLsRefsRecord_ok:
  assumes "readLsRefsRecord off line s = Inr s'" and "listed_ok s"
    and "int (length (ad_Refs (ps_result s))) < ps_records s"
  shows "listed_ok s' \<and> listed_frame s s'"
  using assms(1)
proof (cases rule: readLsRefsRecord_cases)
  case (skipped oid name)
  from skipRef_frame [OF skipped(2)] show ?thesis using assms(2) by (simp add: listed_frame_def)
next
  case (kept oid name target peeled s1)
  have s: "facts_ok s" "width_ok s" using assms(2) by (simp_all add: listed_ok_def)
  note A = addRef_Inr [OF kept(7)]
  have ok: "facts_ok s1" "same_frame s s1"
    using addRef_ok [OF kept(7) s kept(2,3,4) assms(3)] by auto
  then have same: "width_ok s1" "ps_oidWidth s1 = ps_oidWidth s" "ad_Symrefs (ps_result s1) = ad_Symrefs (ps_result s)"
    "ad_ProtocolVersion (ps_result s1) = ad_ProtocolVersion (ps_result s)"
    "ad_ObjectFormat (ps_result s1) = ad_ObjectFormat (ps_result s)" "ad_Capabilities (ps_result s1) = ad_Capabilities (ps_result s)"
    using s(2) by (simp_all add: same_frame_def width_ok_def)
  have "name \<notin> ref_Name ` set (ad_Refs (ps_result s))"
    using A(1) s(1) names_index_name by (auto simp: facts_ok_def)
  then have "name \<notin> sym_Name ` set (ad_Symrefs (ps_result s1))"
    using assms(2) same by (auto simp: listed_ok_def)
  then have "facts_ok s'"
    unfolding kept(8) using describeRef_ok [OF ok(1) same(1), of name peeled target] A kept same by simp
  moreover have names: "ref_Name ` set (ad_Refs (ps_result s')) = insert name (ref_Name ` set (ad_Refs (ps_result s)))"
    using arg_cong [OF describeRef_fields(4), of set name target peeled "ps_result s1"] A(3)
    by (simp add: kept(8))
  have "\<forall>r \<in> set (ad_Refs (ps_result s')). hasRequestedPrefix (ref_Name r) (ps_prefixes s)"
  proof
    fix r assume "r \<in> set (ad_Refs (ps_result s'))"
    then have "ref_Name r \<in> insert name (ref_Name ` set (ad_Refs (ps_result s)))" using names by blast
    then show "hasRequestedPrefix (ref_Name r) (ps_prefixes s)"
      using kept(1) assms(2) by (auto simp: listed_ok_def)
  qed
  moreover have "sym_Name ` set (ad_Symrefs (ps_result s')) \<subseteq> ref_Name ` set (ad_Refs (ps_result s'))"
    using assms(2) same names by (auto simp: kept(8) describeRef_fields listed_ok_def)
  ultimately show ?thesis
    using kept(8) A same assms(2) by (simp add: listed_ok_def listed_frame_def width_ok_def describeRef_fields)
qed

lemma lsRefsHandler_ok:
  assumes "lsRefsHandler off p s = Inr x" and "listed_ok s"
  shows "case x of Done s' \<Rightarrow> s' = s | Again s' \<Rightarrow> listed_ok s' \<and> listed_frame s s'"
proof (cases p)
  case (packetData payload)
  obtain s1 s2 where cr: "countRecord off s = Inr s1" and rd: "readLsRefsRecord off (trimLF payload) s1 = Inr s2"
    and x: "x = Again s2"
    using assms(1) by (auto simp: packetData lsRefsHandler_def Let_def)
  have c: "facts_ok s1" "s1 = s\<lparr>ps_records := ps_records s + 1\<rparr>"
    using countRecord_ok [OF cr] assms(2) by (auto simp: listed_ok_def)
  have "listed_ok s1" "int (length (ad_Refs (ps_result s1))) < ps_records s1"
    using c assms(2) by (auto simp: listed_ok_def width_ok_def facts_ok_def)
  from readLsRefsRecord_ok [OF rd this] c(2) x show ?thesis by (simp add: listed_frame_def)
qed (use assms in \<open>auto simp: lsRefsHandler_def\<close>)

lemma listed_frame_trans: "listed_frame s s' \<Longrightarrow> listed_frame s' s'' \<Longrightarrow> listed_frame s s''"
  by (simp add: listed_frame_def)

interpretation ls_refs: packet_handler lsRefsHandler
  "\<lambda>s. listed_ok s \<and> listed_frame s0 s" "\<lambda>s. listed_ok s \<and> listed_frame s0 s" for s0
proof
  fix s off p s' assume "listed_ok s \<and> listed_frame s0 s" and "lsRefsHandler off p s = Inr (Again s')"
  then show "listed_ok s' \<and> listed_frame s0 s'"
    using lsRefsHandler_ok listed_frame_trans by fastforce
next
  fix s off p s' assume "listed_ok s \<and> listed_frame s0 s" and "lsRefsHandler off p s = Inr (Done s')"
  then show "listed_ok s' \<and> listed_frame s0 s'"
    using lsRefsHandler_ok by fastforce
qed

subsection \<open>The promises of \<open>ParseLsRefs\<close>\<close>

lemma facts_ok_empty: "facts_ok (s\<lparr>ps_result := (ps_result s)\<lparr>ad_Empty := b\<rparr>\<rparr>) = facts_ok s"
proof -
  have "head_ok (ps_names s) ((ps_result s)\<lparr>ad_Empty := b\<rparr>) = head_ok (ps_names s) (ps_result s)"
    unfolding head_ok_def by (cases "ps_names s ''HEAD''") simp_all
  then show ?thesis by (simp add: facts_ok_def result_ok_def caps_ok_def symrefs_ok_def)
qed

definition ls_refs_ok :: "bytes list \<Rightarrow> Advertisement \<Rightarrow> Advertisement \<Rightarrow> bool" where
  "ls_refs_ok prefixes' caps ad \<longleftrightarrow>
     advertisement_ok (ad_EffectiveLimits ad) ad \<and> ad_ProtocolVersion ad = 2 \<and>
     ad_ObjectFormat ad = ad_ObjectFormat caps \<and> ad_Capabilities ad = ad_Capabilities caps \<and>
     (ad_Empty ad \<longleftrightarrow> ad_Refs ad = []) \<and>
     (\<forall>r \<in> set (ad_Refs ad). hasRequestedPrefix (ref_Name r) prefixes') \<and>
     sym_Name ` set (ad_Symrefs ad) \<subseteq> ref_Name ` set (ad_Refs ad)"

lemma lsRefsFacts_ok:
  assumes "advertisement_ok lim caps" and "Effective l = Inr lim"
  shows "listed_ok (lsRefsFacts caps lim prefixes')"
proof -
  have "0 \<le> MaxRefRecords lim"
    using assms(2) by (auto simp: Effective_def or_default_def DefaultLimits_def split: if_splits)
  then show ?thesis
    using assms(1) by (simp add: listed_ok_def lsRefsFacts_def facts_ok_def result_ok_def caps_ok_def
        symrefs_ok_def names_index_def head_ok_def emptyHead_def width_ok_def advertisement_ok_def)
qed


lemma requireEndOfResponse_frame:
  assumes "requireEndOfResponse r s = Inr res" and "facts_ok s"
  shows "ad_Symrefs res = ad_Symrefs (ps_result s)" "ad_ObjectFormat res = ad_ObjectFormat (ps_result s)"
    "ad_Capabilities res = ad_Capabilities (ps_result s)"
proof -
  have "names_index (ps_names s) (ad_Refs (ps_result s))" "symrefs_ok (ps_result s)"
    using assms(2) by (simp_all add: facts_ok_def result_ok_def)
  then have "res = (ps_result s)\<lparr>ad_Refs := map (retarget (ad_Symrefs (ps_result s))) (ad_Refs (ps_result s)),
      ad_Head := retarget_head (ad_Symrefs (ps_result s)) (ad_Head (ps_result s))\<rparr>"
    using applySymrefs_Inr [of "rd_consumed r" "ps_names s" "ad_Symrefs (ps_result s)" "ps_result s" res] assms(1)
    by (simp add: requireEndOfResponse_Inr symrefs_ok_def)
  then show "ad_Symrefs res = ad_Symrefs (ps_result s)" "ad_ObjectFormat res = ad_ObjectFormat (ps_result s)"
    "ad_Capabilities res = ad_Capabilities (ps_result s)" by simp_all
qed

lemma ParseLsRefs_Inr:
  assumes "ParseLsRefs (Some src) (Some caps) prefixes' opts = Inr ad"
  obtains lim r s res where "ad_ProtocolVersion caps = 2" "Effective (opt_Limits opts) = Inr lim"
    "readLsRefs (startReader src lim) (lsRefsFacts caps lim prefixes') = Inr (r, s)"
    "requireEndOfResponse r (s\<lparr>ps_result := (ps_result s)\<lparr>ad_Empty := (ad_Refs (ps_result s) = [])\<rparr>\<rparr>) = Inr res"
    "ad = res\<lparr>ad_TotalBytes := rd_consumed r\<rparr>"
  using assms by (auto simp: ParseLsRefs_def Let_def split: if_splits)

lemma parsed_ls_refs_ok:
  assumes "advertisement_ok lim caps" and "Effective (opt_Limits opts) = Inr lim"
    and "ParseLsRefs (Some src) (Some caps) prefixes' opts = Inr ad"
  shows "ls_refs_ok prefixes' caps ad \<and> ad_EffectiveLimits ad = lim"
proof -
  let ?s0 = "lsRefsFacts caps lim prefixes'"
  obtain r s res where rd: "readLsRefs (startReader src lim) ?s0 = Inr (r, s)"
    and e: "requireEndOfResponse r (s\<lparr>ps_result := (ps_result s)\<lparr>ad_Empty := (ad_Refs (ps_result s) = [])\<rparr>\<rparr>) = Inr res"
    and ad: "ad = res\<lparr>ad_TotalBytes := rd_consumed r\<rparr>"
    using assms(3) by (rule ParseLsRefs_Inr) (use assms(2) in auto)
  have s: "listed_ok s" "listed_frame ?s0 s"
    using ls_refs.read_post [OF rd [unfolded readLsRefs_def], of ?s0] lsRefsFacts_ok [OF assms(1,2)]
    by (simp_all add: listed_frame_def)
  then have f: "facts_ok (s\<lparr>ps_result := (ps_result s)\<lparr>ad_Empty := (ad_Refs (ps_result s) = [])\<rparr>\<rparr>)"
    by (simp add: facts_ok_empty listed_ok_def)
  note E = requireEndOfResponse_ok [OF e f] and F = requireEndOfResponse_frame [OF e f]
  have n: "ref_Name ` set (ad_Refs res) = ref_Name ` set (ad_Refs (ps_result s))"
    using arg_cong [OF E(4), of set] by simp
  have "ad_Refs res = [] \<longleftrightarrow> ad_Refs (ps_result s) = []"
    using n by (metis image_is_empty set_empty)
  moreover have "\<forall>x \<in> set (ad_Refs res). hasRequestedPrefix (ref_Name x) prefixes'"
  proof
    fix x assume "x \<in> set (ad_Refs res)"
    then obtain y where "y \<in> set (ad_Refs (ps_result s))" "ref_Name y = ref_Name x" using n by (metis imageE imageI)
    then show "hasRequestedPrefix (ref_Name x) prefixes'"
      using s by (auto simp: listed_ok_def listed_frame_def lsRefsFacts_def)
  qed
  moreover have "ps_limits s = lim" using s(2) by (simp add: listed_frame_def lsRefsFacts_def)
  ultimately show ?thesis
    using E F n s ad
    by (auto simp: ls_refs_ok_def listed_ok_def listed_frame_def lsRefsFacts_def total_bytes_irrelevant
        advertisement_ok_def [of lim res])
qed

text \<open>C12. \<open>ParseLsRefs\<close>, given the capabilities \<open>Parse\<close> accepted, returns a well-formed
  advertisement under the same limits: every reference was asked for, is valid and distinct,
  its object IDs have the width of the format the server advertised, symrefs belong to
  listed references, and the list is marked empty exactly when it has none.\<close>

theorem ParseLsRefs_well_formed:
  assumes "Parse (Some src) opts = Inr caps" and "ParseLsRefs (Some body) (Some caps) prefixes' opts = Inr ad"
  shows "ls_refs_ok prefixes' caps ad \<and> ad_EffectiveLimits ad = ad_EffectiveLimits caps"
proof -
  obtain lim r res where e: "Effective (opt_Limits opts) = Inr lim"
    and p: "run_parse (startReader src lim) (startFacts opts lim DefaultService) = Inr (r, res)"
    and ad: "caps = res\<lparr>ad_TotalBytes := rd_consumed r\<rparr>"
    using assms(1) by (rule Parse_Inr)
  have "advertisement_ok lim caps"
    using run_parse_ok [OF p startFacts_ok [OF e]] ad by (simp add: startFacts_def total_bytes_irrelevant)
  with parsed_ls_refs_ok [OF this e assms(2)] show ?thesis by (simp add: advertisement_ok_def)
qed

end
