(* ===== verification/LsRefsProps.thy ===== *)
theory LsRefsProps
  imports LsRefs
begin

text \<open>
  The functional correctness of \<open>ParseLsRefs\<close>: the wire form of a valid list, and that
  parsing it gives the requested entries back. A sample server answer shows that the
  hypotheses can hold.
\<close>

subsection \<open>What a server lists is what the importer reads\<close>

text \<open>An entry of a server's list: object, name, symref target and peeled value, the last two empty when absent.\<close>

record ls_entry =
  le_oid :: bytes
  le_name :: bytes
  le_target :: bytes
  le_peeled :: bytes

definition ls_line :: "ls_entry \<Rightarrow> bytes" where
  "ls_line e = le_oid e @ '' '' @ le_name e @
     (if le_target e = [] then [] else '' symref-target:'' @ le_target e) @
     (if le_peeled e = [] then [] else '' peeled:'' @ le_peeled e)"

definition ls_packets :: "ls_entry list \<Rightarrow> packet list" where
  "ls_packets es = map (\<lambda>e. packetData (ls_line e @ [CHR 0x0A])) es @ [packetFlush]"

definition entry_ok :: "Limits \<Rightarrow> nat \<Rightarrow> ls_entry \<Rightarrow> bool" where
  "entry_ok lim w e \<longleftrightarrow> oid_ok w (le_oid e) \<and> validateRefName (le_name e) = None \<and>
     int (length (le_name e)) \<le> MaxNameBytes lim \<and>
     (le_target e = [] \<or> validateRefName (le_target e) = None) \<and>
     (le_peeled e = [] \<or> oid_ok w (le_peeled e))"

lemma valid_name_chars:
  assumes "validateRefName n = None"
  shows "CHR '' '' \<notin> set n" "CHR '':'' \<notin> set n" "n \<noteq> []" "CHR 0x0A \<notin> set n"
proof -
  show "CHR '' '' \<notin> set n" "n \<noteq> []" "CHR 0x0A \<notin> set n"
    using validateRefName_field_safe [OF assms] by (simp_all add: field_safe_def)
  have "CHR '':'' \<in> set forbidden_chars" by (simp add: forbidden_chars_def)
  then show "CHR '':'' \<notin> set n"
    using assms by (cases "n = ''HEAD''") (auto simp: validateRefName_ok ref_format_ok_def)
qed

lemma oid_chars:
  assumes "oid_ok w x"
  shows "CHR '' '' \<notin> set x" "CHR '':'' \<notin> set x" "isHexOID x" "canonicalOID x = x" "CHR ''E'' \<notin> set x" "CHR ''u'' \<notin> set x"
    "CHR 0x0A \<notin> set x" "0 < w \<Longrightarrow> x \<noteq> []"
  using assms ascii_lower_id [of x]
  by (auto simp: oid_ok_def list_all_iff char_defs byte_def isHexOID_def canonicalOID_def)


definition ls_attributes :: "ls_entry \<Rightarrow> bytes list" where
  "ls_attributes e = (if le_target e = [] then [] else [''symref-target'' @ CHR '':'' # le_target e]) @
     (if le_peeled e = [] then [] else [''peeled'' @ CHR '':'' # le_peeled e])"

lemma split_ls_line:
  assumes "entry_ok lim w e"
  shows "split_on (CHR '' '') (ls_line e) = le_oid e # le_name e # ls_attributes e"
proof -
  have "CHR '' '' \<notin> set (le_oid e)" "CHR '' '' \<notin> set (le_name e)"
    "CHR '' '' \<notin> set (le_target e)" "CHR '' '' \<notin> set (le_peeled e)"
    using assms oid_chars(1) valid_name_chars(1) unfolding entry_ok_def by (metis empty_iff empty_set)+
  then show ?thesis
    unfolding ls_line_def ls_attributes_def
    by (auto simp: split_on_append split_on_no_sep)
qed

lemma read_ls_attributes:
  assumes "entry_ok lim w e"
  shows "readAttributes off w (ls_attributes e) [] [] = Inr (le_target e, le_peeled e)"
proof -
  have c: "cut (CHR '':'') (''symref-target'' @ CHR '':'' # x) = (''symref-target'', x, True)"
    "cut (CHR '':'') (''peeled'' @ CHR '':'' # x) = (''peeled'', x, True)" for x
    by (rule cut_found, simp)+
  have p: "length (le_peeled e) = w \<and> isHexOID (le_peeled e) \<and> canonicalOID (le_peeled e) = le_peeled e \<and>
      \<not> isZeroOID (le_peeled e)" if "le_peeled e \<noteq> []"
    using that assms oid_chars(3,4) by (auto simp: entry_ok_def oid_ok_def)
  have t: "validateRefName (le_target e) = None" if "le_target e \<noteq> []"
    using that assms by (simp add: entry_ok_def)
  have s1: "readAttributes off w ((''symref-target'' @ CHR '':'' # x) # as) [] pe = readAttributes off w as x pe"
    if "validateRefName x = None" for x as pe
    unfolding readAttributes.simps c prod.case using that by simp
  have s2: "readAttributes off w [''peeled'' @ CHR '':'' # x] tg [] = Inr (tg, x)"
    if "length x = w \<and> isHexOID x \<and> canonicalOID x = x \<and> \<not> isZeroOID x" for x tg
    unfolding readAttributes.simps c prod.case using that by simp
  show ?thesis
    unfolding ls_attributes_def
    using s1 [OF t] s2 [OF p] by (cases "le_target e = []"; cases "le_peeled e = []") simp_all
qed

lemma splitRecord_entry:
  assumes "entry_ok (ps_limits s) (ps_oidWidth s) e"
  shows "splitRecord off (le_oid e @ '' '' @ le_name e) s = Inr (le_oid e, le_name e)"
proof -
  have "CHR '' '' \<notin> set (le_oid e)" using assms oid_chars(1) unfolding entry_ok_def by blast
  then have "cut (CHR '' '') (le_oid e @ '' '' @ le_name e) = (le_oid e, le_name e, True)"
    using cut_found [of "CHR '' ''" "le_oid e" "le_name e"] by simp
  moreover have "isHexOID (le_oid e)" "canonicalOID (le_oid e) = le_oid e" "length (le_oid e) = ps_oidWidth s"
    "le_name e \<noteq> []" "int (length (le_name e)) \<le> MaxNameBytes (ps_limits s)"
    using assms oid_chars(3,4) valid_name_chars(3) unfolding entry_ok_def oid_ok_def by blast+
  ultimately show ?thesis by (simp add: splitRecord_def)
qed

lemma readLsRefsRecord_entry:
  assumes "entry_ok (ps_limits s) (ps_oidWidth s) e"
  shows "readLsRefsRecord off (ls_line e) s =
    (if \<not> hasRequestedPrefix (le_name e) (ps_prefixes s) then skipRef off (le_oid e) (le_name e) s
     else bindE (addRef off (le_oid e) (le_name e) s) (\<lambda>s'.
       Inr (s'\<lparr>ps_result := describeRef (le_name e) (le_target e) (le_peeled e) (ps_result s')\<rparr>)))"
proof -
  have "CHR ''u'' \<notin> set (le_oid e)" using assms oid_chars(6) unfolding entry_ok_def by blast
  then have "le_oid e \<noteq> ''unborn''" by auto
  then show ?thesis
    unfolding readLsRefsRecord_def split_ls_line [OF assms] list.case splitRecord_entry [OF assms]
      bindE_simps prod.case read_ls_attributes [OF assms]
    by simp
qed

text \<open>The packet of an entry is never an error packet.\<close>

lemma ls_packet_line:
  assumes "entry_ok lim w e" and "0 < w"
  shows "trimLF (ls_line e @ [CHR 0x0A]) = ls_line e" "checkErrorPacket off (ls_line e) = Inr ()"
proof -
  show "trimLF (ls_line e @ [CHR 0x0A]) = ls_line e" by (simp add: trimLF_def)
  have o: "CHR ''E'' \<notin> set (le_oid e)" "le_oid e \<noteq> []"
    using assms oid_chars(5,8) unfolding entry_ok_def by blast+
  then obtain c cs where "le_oid e = c # cs" "c \<noteq> CHR ''E''" by (cases "le_oid e") auto
  then have "\<not> prefix ''ERR '' (ls_line e)" by (simp add: ls_line_def)
  then show "checkErrorPacket off (ls_line e) = Inr ()"
    by (simp add: checkErrorPacket_def cut_prefix_None [THEN iffD2])
qed


text \<open>The facts after the entries: the requested ones were recorded in order.\<close>

definition raw_ref :: "ls_entry \<Rightarrow> Ref" where
  "raw_ref e = \<lparr>ref_Name = le_name e, ref_OID = le_oid e, ref_PeeledOID = le_peeled e, ref_SymrefTarget = []\<rparr>"

definition entry_symref :: "ls_entry \<Rightarrow> Symref" where
  "entry_symref e = \<lparr>sym_Name = le_name e, sym_Target = le_target e\<rparr>"

definition requested :: "bytes list \<Rightarrow> ls_entry list \<Rightarrow> ls_entry list" where
  "requested prefixes' es = filter (\<lambda>e. hasRequestedPrefix (le_name e) prefixes') es"

definition entry_symrefs :: "ls_entry list \<Rightarrow> Symref list" where
  "entry_symrefs es = map entry_symref (filter (\<lambda>e. le_target e \<noteq> []) es)"

definition recorded :: "ls_entry list \<Rightarrow> parseFacts \<Rightarrow> parseFacts \<Rightarrow> bool" where
  "recorded es s s' \<longleftrightarrow>
     ad_Refs (ps_result s') = ad_Refs (ps_result s) @ map raw_ref es \<and>
     ad_Symrefs (ps_result s') = ad_Symrefs (ps_result s) @ entry_symrefs es"

definition unseen :: "ls_entry list \<Rightarrow> parseFacts \<Rightarrow> bool" where
  "unseen es s \<longleftrightarrow> distinct (map le_name es) \<and>
     (\<forall>e \<in> set es. ps_names s (le_name e) = None \<and> le_name e \<notin> ps_unrequested s)"

lemma describe_recorded:
  "ad_Refs res = refs @ [r\<lparr>ref_PeeledOID := []\<rparr>] \<Longrightarrow>
   ad_Refs (describeRef n t p res) = refs @ [r\<lparr>ref_PeeledOID := p\<rparr>]"
  by (simp add: describeRef_def setPeeled_def Let_def)

lemma read_entry:
  assumes "entry_ok (ps_limits s) (ps_oidWidth s) e" and "unseen (e # es) s"
  shows "\<exists>s'. readLsRefsRecord off (ls_line e) s = Inr s' \<and> recorded (requested (ps_prefixes s) [e]) s s' \<and>
    unseen es s' \<and> ps_oidWidth s' = ps_oidWidth s \<and> ps_records s' = ps_records s \<and> ps_prefixes s' = ps_prefixes s \<and> ps_limits s' = ps_limits s"
proof -
  have fresh: "le_name x \<noteq> le_name e" if "x \<in> set es" for x
    using that assms(2) by (simp add: unseen_def) (metis imageI)
  show ?thesis
proof (cases "hasRequestedPrefix (le_name e) (ps_prefixes s)")
  case False
  have "skipRef off (le_oid e) (le_name e) s = Inr (s\<lparr>ps_unrequested := insert (le_name e) (ps_unrequested s)\<rparr>)"
    using assms by (simp add: skipRef_def entry_ok_def oid_ok_def unseen_def)
  then show ?thesis
    using False assms fresh by (auto simp: readLsRefsRecord_entry recorded_def requested_def entry_symrefs_def unseen_def)
next
  case True
  have ok: "\<not> isZeroOID (le_oid e)" "validateRefName (le_name e) = None" "ps_names s (le_name e) = None"
    using assms by (simp_all add: entry_ok_def oid_ok_def unseen_def)
  then obtain s1 where s1: "addRef off (le_oid e) (le_name e) s = Inr s1" "ps_oidWidth s1 = ps_oidWidth s"
    "ps_records s1 = ps_records s" "ad_Symrefs (ps_result s1) = ad_Symrefs (ps_result s)"
    "ps_names s1 = (ps_names s)(le_name e \<mapsto> length (ad_Refs (ps_result s)))"
    by (simp add: addRef_def Let_def)
  note A = addRef_Inr [OF s1(1)]
  have "ad_Refs (describeRef (le_name e) (le_target e) (le_peeled e) (ps_result s1)) = ad_Refs (ps_result s) @ [raw_ref e]"
    using describe_recorded [of "ps_result s1" "ad_Refs (ps_result s)" "raw_ref e"] A(3) by (simp add: raw_ref_def)
  then show ?thesis
    using True A s1 assms fresh
    by (auto simp: readLsRefsRecord_entry recorded_def requested_def entry_symrefs_def entry_symref_def
        unseen_def describeRef_fields)
qed
qed

lemma recorded_trans: "recorded es s s' \<Longrightarrow> recorded fs s' s'' \<Longrightarrow> recorded (es @ fs) s s''"
  by (simp add: recorded_def entry_symrefs_def)

lemma lsRefsHandler_entry:
  assumes "entry_ok (ps_limits s) (ps_oidWidth s) e" and "0 < ps_oidWidth s" and "unseen (e # es) s"
    and "ps_records s < MaxRefRecords (ps_limits s)"
  shows "\<exists>s'. lsRefsHandler off (packetData (ls_line e @ [CHR 0x0A])) s = Inr (Again s') \<and>
    recorded (requested (ps_prefixes s) [e]) s s' \<and> unseen es s' \<and> ps_oidWidth s' = ps_oidWidth s \<and>
    ps_records s' = ps_records s + 1 \<and> ps_prefixes s' = ps_prefixes s \<and> ps_limits s' = ps_limits s"
proof -
  let ?s1 = "s\<lparr>ps_records := ps_records s + 1\<rparr>"
  have "unseen (e # es) ?s1" "entry_ok (ps_limits ?s1) (ps_oidWidth ?s1) e"
    using assms(1,3) by (simp_all add: unseen_def)
  from read_entry [OF this(2,1), of off] obtain s'
    where s': "readLsRefsRecord off (ls_line e) ?s1 = Inr s'" "recorded (requested (ps_prefixes s) [e]) ?s1 s'"
      "unseen es s'" "ps_oidWidth s' = ps_oidWidth s" "ps_records s' = ps_records s + 1"
      "ps_prefixes s' = ps_prefixes s" "ps_limits s' = ps_limits s" by auto
  moreover have "countRecord off s = Inr ?s1" using assms(4) by (simp add: countRecord_def)
  moreover have "recorded (requested (ps_prefixes s) [e]) s s'" using s'(2) by (simp add: recorded_def)
  ultimately show ?thesis
    by (simp add: lsRefsHandler_def Let_def ls_packet_line [OF assms(1,2)])
qed

lemma fold_ls_entries:
  assumes "\<forall>e \<in> set es. entry_ok (ps_limits s) (ps_oidWidth s) e" and "0 < ps_oidWidth s" and "unseen es s"
    and "ps_records s + int (length es) \<le> MaxRefRecords (ps_limits s)"
  shows "\<exists>off' s'. fold_packets lsRefsHandler off (ls_packets es) s = Some (off', [], s') \<and>
    recorded (requested (ps_prefixes s) es) s s'"
  using assms
proof (induction es arbitrary: s off)
  case Nil
  then show ?case by (simp add: ls_packets_def lsRefsHandler_def recorded_def requested_def entry_symrefs_def)
next
  case (Cons e es)
  have "entry_ok (ps_limits s) (ps_oidWidth s) e" "ps_records s < MaxRefRecords (ps_limits s)"
    using Cons.prems by simp_all
  from lsRefsHandler_entry [OF this(1) Cons.prems(2,3) this(2), of off] obtain s'
    where h: "lsRefsHandler off (packetData (ls_line e @ [CHR 0x0A])) s = Inr (Again s')"
      and s': "recorded (requested (ps_prefixes s) [e]) s s'" "unseen es s'" "ps_oidWidth s' = ps_oidWidth s"
        "ps_records s' = ps_records s + 1" "ps_prefixes s' = ps_prefixes s" "ps_limits s' = ps_limits s" by blast
  from Cons.IH [of s' "off + int (length (frame (packetData (ls_line e @ [CHR 0x0A]))))"] Cons.prems s'
  obtain off' s'' where "fold_packets lsRefsHandler (off + int (length (frame (packetData (ls_line e @ [CHR 0x0A])))))
      (ls_packets es) s' = Some (off', [], s'')" "recorded (requested (ps_prefixes s) es) s' s''"
    by auto
  moreover have "requested (ps_prefixes s) (e # es) = requested (ps_prefixes s) [e] @ requested (ps_prefixes s) es"
    by (simp add: requested_def)
  ultimately show ?case
    using h recorded_trans [OF s'(1)] by (simp add: ls_packets_def del: frame.simps)
qed


subsection \<open>The whole answer\<close>

lemma applySymref_succeeds:
  assumes "names_index names (ad_Refs res)" and "symref_agrees (ad_Refs res) x"
  shows "\<exists>res'. applySymref off names x res = Inr res'"
proof (cases "names (sym_Name x)")
  case (Some i)
  have i: "i < length (ad_Refs res)" "ref_Name (ad_Refs res ! i) = sym_Name x"
    using assms(1) Some by (auto simp: names_index_def)
  let ?refs = "(ad_Refs res)[i := (ad_Refs res ! i)\<lparr>ref_SymrefTarget := sym_Target x\<rparr>]"
  have oid: "ref_OID (?refs ! k) = ref_OID (ad_Refs res ! k)" if "k < length (ad_Refs res)" for k
    using that i(1) by (simp add: nth_list_update)
  have "ref_OID (?refs ! j) = ref_OID (?refs ! i)" if j: "names (sym_Target x) = Some j" for j
  proof -
    have "j < length (ad_Refs res)" "ref_Name (ad_Refs res ! j) = sym_Target x"
      using assms(1) j by (auto simp: names_index_def)
    then show ?thesis using assms(2) i by (simp add: oid symref_agrees_def)
  qed
  then show ?thesis using Some by (auto simp: applySymref_def Let_def split: option.splits)
qed (simp add: applySymref_def)

lemma applySymrefs_succeeds:
  assumes "names_index names (ad_Refs res)" and "\<forall>x \<in> set srs. symref_agrees (ad_Refs res) x"
    and "distinct (map sym_Name srs)"
  shows "\<exists>res'. applySymrefs off names srs res = Inr res'"
  using assms
proof (induction srs arbitrary: res)
  case (Cons x srs)
  then obtain res1 where a: "applySymref off names x res = Inr res1"
    using applySymref_succeeds by fastforce
  have r: "ad_Refs res1 = map (retarget [x]) (ad_Refs res)"
    using applySymref_Inr [OF a Cons.prems(1)] by simp
  then have "names_index names (ad_Refs res1)" "\<forall>y \<in> set srs. symref_agrees (ad_Refs res1) y"
    using names_index_map [OF Cons.prems(1)] Cons.prems(2) by simp_all
  then show ?case using Cons.IH [of res1] Cons.prems(3) a by auto
qed simp

lemma map_of_filter_distinct:
  "distinct (map f es) \<Longrightarrow> e \<in> set es \<Longrightarrow>
   map_of (map (\<lambda>x. (f x, g x)) (filter P es)) (f e) = (if P e then Some (g e) else None)"
proof (induction es)
  case (Cons x es)
  have "f e \<noteq> f x" if "e \<in> set es"
    using that Cons.prems(1) by simp (metis imageI)
  moreover have "map_of (map (\<lambda>x. (f x, g x)) (filter P es)) (f x) = None"
    using Cons.prems(1) by (auto simp: map_of_eq_None_iff)
  ultimately show ?case using Cons by auto
qed simp

lemma symref_map_entries:
  assumes "distinct (map le_name es)" and "e \<in> set es"
  shows "symref_map (entry_symrefs es) (le_name e) = (if le_target e = [] then None else Some (le_target e))"
  using map_of_filter_distinct [OF assms, of le_target "\<lambda>e. le_target e \<noteq> []"]
  by (simp add: symref_map_def entry_symrefs_def entry_symref_def comp_def)

definition listed_ref :: "ls_entry \<Rightarrow> Ref" where
  "listed_ref e = \<lparr>ref_Name = le_name e, ref_OID = le_oid e, ref_PeeledOID = le_peeled e, ref_SymrefTarget = le_target e\<rparr>"

lemma retarget_raw_refs:
  assumes "distinct (map le_name es)"
  shows "map (retarget (entry_symrefs es)) (map raw_ref es) = map listed_ref es"
  using symref_map_entries [OF assms]
  by (auto simp: retarget_def raw_ref_def listed_ref_def split: option.splits)

text \<open>A list a server may send: valid entries, distinct names, within the limits, and symrefs that agree with their targets.\<close>

definition listing_ok :: "Limits \<Rightarrow> Advertisement \<Rightarrow> bytes list \<Rightarrow> ls_entry list \<Rightarrow> bool" where
  "listing_ok lim caps prefixes' es \<longleftrightarrow>
     (\<forall>e \<in> set es. entry_ok lim (oidWidth (ad_ObjectFormat caps)) e) \<and> distinct (map le_name es) \<and>
     int (length es) \<le> MaxRefRecords lim \<and>
     (\<forall>e \<in> set (requested prefixes' es). \<forall>t \<in> set (requested prefixes' es).
        le_target e = le_name t \<longrightarrow> le_oid e = le_oid t) \<and>
     reads_as (startReader \<lparr>src_data = frames (ls_packets es), src_end = EOF\<rparr> lim) (ls_packets es)"

lemma entry_symrefs_agree:
  assumes "listing_ok lim caps prefixes' es" and "x \<in> set (entry_symrefs (requested prefixes' es))"
  shows "symref_agrees (map raw_ref (requested prefixes' es)) x"
  unfolding symref_agrees_def
proof (intro ballI impI)
  fix r t assume r: "r \<in> set (map raw_ref (requested prefixes' es))" and t: "t \<in> set (map raw_ref (requested prefixes' es))"
    and n: "ref_Name r = sym_Name x \<and> ref_Name t = sym_Target x"
  obtain e where e: "e \<in> set (requested prefixes' es)" "x = entry_symref e"
    using assms(2) by (auto simp: entry_symrefs_def)
  obtain e1 e2 where e12: "e1 \<in> set (requested prefixes' es)" "r = raw_ref e1"
    "e2 \<in> set (requested prefixes' es)" "t = raw_ref e2" using r t by auto
  have "le_name e1 = le_name e" "le_target e = le_name e2"
    using n e e12 by (simp_all add: raw_ref_def entry_symref_def)
  moreover have "distinct (map le_name (requested prefixes' es))"
    using assms(1) distinct_map_filter by (auto simp: listing_ok_def requested_def)
  ultimately have "e1 = e" "le_oid e = le_oid e2"
    using e e12 assms(1) by (auto simp: distinct_map inj_on_def listing_ok_def)
  then show "ref_OID t = ref_OID r" using e12 by (simp add: raw_ref_def)
qed


lemma ParseLsRefs_lists:
  assumes "listing_ok lim caps prefixes' es" and "advertisement_ok lim caps" and "ad_ProtocolVersion caps = 2"
    and "prefixes' \<noteq> []" and "Effective (opt_Limits opts) = Inr lim"
  shows "\<exists>ad. ParseLsRefs (Some \<lparr>src_data = frames (ls_packets es), src_end = EOF\<rparr>) (Some caps) prefixes' opts = Inr ad
    \<and> ad_Refs ad = map listed_ref (requested prefixes' es)"
proof -
  let ?r = "startReader \<lparr>src_data = frames (ls_packets es), src_end = EOF\<rparr> lim"
    and ?s = "lsRefsFacts caps lim prefixes'" and ?es = "requested prefixes' es"
  have "0 < ps_oidWidth ?s" "unseen es ?s" "\<forall>e \<in> set es. entry_ok (ps_limits ?s) (ps_oidWidth ?s) e"
    "ps_records ?s + int (length es) \<le> MaxRefRecords (ps_limits ?s)"
    using assms(1) by (simp_all add: listing_ok_def lsRefsFacts_def unseen_def oidWidth_def)
  from fold_ls_entries [OF this(3,1,2,4), of "rd_consumed ?r"] obtain off s'
    where f: "fold_packets lsRefsHandler (rd_consumed ?r) (ls_packets es) ?s = Some (off, [], s')"
      and rec: "recorded ?es ?s s'" by (auto simp: lsRefsFacts_def)
  have "reads_as ?r (ls_packets es)" using assms(1) by (simp add: listing_ok_def)
  from read_packets_fold [OF f this] obtain r' c
    where rd: "readLsRefs ?r ?s = Inr (r', s')" "reads_as r' []" "advanced ?r c r'"
    by (auto simp: readLsRefs_def)
  have refs: "ad_Refs (ps_result s') = map raw_ref ?es" "ad_Symrefs (ps_result s') = entry_symrefs ?es"
    using rec by (simp_all add: recorded_def lsRefsFacts_def)
  have "listed_ok s'"
    using ls_refs.read_post [OF rd(1) [unfolded readLsRefs_def], of ?s] lsRefsFacts_ok [OF assms(2,5)]
    by (simp add: listed_frame_def)
  then have idx: "names_index (ps_names s') (map raw_ref ?es)" and d: "distinct (map sym_Name (entry_symrefs ?es))"
    using refs by (simp_all add: listed_ok_def facts_ok_def result_ok_def symrefs_ok_def)
  let ?p = "(ps_result s')\<lparr>ad_Empty := (ad_Refs (ps_result s') = [])\<rparr>"
  obtain res where res: "applySymrefs (rd_consumed r') (ps_names s') (entry_symrefs ?es) ?p = Inr res"
    using applySymrefs_succeeds [of "ps_names s'" ?p "entry_symrefs ?es"] idx d refs entry_symrefs_agree [OF assms(1)]
    by auto
  have "distinct (map le_name ?es)"
    using assms(1) distinct_map_filter by (auto simp: listing_ok_def requested_def)
  then have "ad_Refs res = map listed_ref ?es"
    using applySymrefs_Inr [OF res] idx d refs retarget_raw_refs [of ?es] by simp
  moreover have "requireEndOfResponse r' (s'\<lparr>ps_result := ?p\<rparr>) = Inr res"
    using res refs rd(2,3) by (simp add: requireEndOfResponse_Inr reads_as_def advanced_def startReader_def)
  ultimately show ?thesis
    using assms(3-5) rd(1) by (simp add: ParseLsRefs_def Let_def)
qed


text \<open>C13. What a server lists is what the importer reads: on the wire form of any valid list,
  \<open>ParseLsRefs\<close> succeeds and returns the requested entries, each with its object, its peeled
  value and its symref target, in the order of the list, nothing dropped and nothing added.\<close>

theorem ParseLsRefs_roundtrip:
  assumes "listing_ok lim caps prefixes' es" and "advertisement_ok lim caps" and "ad_ProtocolVersion caps = 2"
    and "prefixes' \<noteq> []" and "Effective (opt_Limits opts) = Inr lim"
  shows "\<exists>ad. ParseLsRefs (Some \<lparr>src_data = frames (ls_packets es), src_end = EOF\<rparr>) (Some caps) prefixes' opts = Inr ad
    \<and> ad_Refs ad = map listed_ref (requested prefixes' es)"
  using assms by (rule ParseLsRefs_lists)

subsection \<open>A sample answer\<close>

definition sample_v2_packets :: "packet list" where
  "sample_v2_packets = [packetData (''version 2'' @ [CHR 0x0A]), packetData (''ls-refs'' @ [CHR 0x0A]),
     packetData (''fetch=shallow'' @ [CHR 0x0A]), packetFlush]"

definition sample_v2_source :: byte_source where
  "sample_v2_source = \<lparr>src_data = frames sample_v2_packets, src_end = EOF\<rparr>"

definition sample_v2_options :: Options where
  "sample_v2_options = \<lparr>opt_Limits = sample_limits, opt_Service = [], opt_ProtocolV2 = True\<rparr>"

definition sample_caps :: Advertisement where
  "sample_caps = \<lparr>ad_Service = ''git-upload-pack'', ad_ProtocolVersion = 2, ad_ObjectFormat = ''sha1'',
     ad_ObjectFormatAdvertised = False, ad_Capabilities = [''ls-refs'', ''fetch=shallow''], ad_Refs = [],
     ad_Head = emptyHead, ad_Symrefs = [], ad_Empty = False, ad_EffectiveLimits = default_numbers,
     ad_TotalBytes = int (length (frames sample_v2_packets))\<rparr>"

lemma sample_v2_parse: "Parse (Some sample_v2_source) sample_v2_options = Inr sample_caps"
proof -
  let ?r = "startReader sample_v2_source DefaultLimits" and ?s = "startFacts sample_v2_options default_numbers DefaultService"
  have ra: "reads_as ?r sample_v2_packets"
    by (simp add: reads_as_def readable_def startReader_def sample_v2_source_def rd_data_def
      protocolMaxPacket_def DefaultLimits_def sample_v2_packets_def pkt_line_def)
  have c: "rd_consumed ?r = 0" "src_end (rd_source ?r) = EOF" by (simp_all add: startReader_def sample_v2_source_def)
  have f1: "fold_packets (announcementHandler ?s) 0 sample_v2_packets False = Some (14, drop 1 sample_v2_packets, True)"
    by code_simp
  from read_packets_fold [of "announcementHandler ?s" ?r sample_v2_packets False] f1 ra c obtain r1 c1
    where r1: "read_packets (announcementHandler ?s) ?r False = Inr (r1, True)" "reads_as r1 (drop 1 sample_v2_packets)"
      "rd_consumed r1 = 14" "advanced ?r c1 r1" by metis
  let ?s1 = "?s\<lparr>ps_result := (ps_result ?s)\<lparr>ad_ProtocolVersion := 2\<rparr>\<rparr>"
  have "map_option (\<lambda>(off, qs, seen, s). (off, qs, ''ls-refs'' \<in> seen, ''fetch'' \<in> seen, ps_result s))
      (fold_packets v2CapabilitiesHandler 14 (drop 1 sample_v2_packets) ({}, ?s1))
    = Some (int (length (frames sample_v2_packets)), [], True, True, sample_caps\<lparr>ad_TotalBytes := 0\<rparr>)"
    by code_simp
  then obtain seen s2 where f2: "fold_packets v2CapabilitiesHandler 14 (drop 1 sample_v2_packets) ({}, ?s1)
      = Some (int (length (frames sample_v2_packets)), [], seen, s2)"
    and s2: "''ls-refs'' \<in> seen" "''fetch'' \<in> seen" "ps_result s2 = sample_caps\<lparr>ad_TotalBytes := 0\<rparr>"
    by auto
  from read_packets_fold [OF f2 [folded r1(3)] r1(2)] obtain r2 c2
    where r2: "read_packets v2CapabilitiesHandler r1 ({}, ?s1) = Inr (r2, seen, s2)"
      "reads_as r2 []" "rd_consumed r2 = int (length (frames sample_v2_packets))" "advanced r1 c2 r2" by metis
  have "readV2Capabilities r1 ?s = Inr (r2, s2)" using r2(1) s2 by (simp add: readV2Capabilities_def)
  moreover have "requireEndOfResponse r2 s2 = Inr (sample_caps\<lparr>ad_TotalBytes := 0\<rparr>)"
    using r1(4) r2(2,4) c s2(3) by (simp add: requireEndOfResponse_Inr reads_as_def advanced_def sample_caps_def)
  ultimately have "run_parse ?r ?s = Inr (r2, sample_caps\<lparr>ad_TotalBytes := 0\<rparr>)"
    using r1(1) by (simp add: run_parse_def)
  then show ?thesis
    using r2(3) by (simp add: Parse_def sample_v2_options_def sample_effective default_numbers sample_caps_def DefaultService_def)
qed


text \<open>Three entries, one of them outside the requested prefixes.\<close>

definition sample_entries :: "ls_entry list" where
  "sample_entries =
     [\<lparr>le_oid = sample_oid, le_name = ''HEAD'', le_target = ''refs/heads/main'', le_peeled = []\<rparr>,
      \<lparr>le_oid = sample_oid, le_name = ''refs/heads/main'', le_target = [], le_peeled = []\<rparr>,
      \<lparr>le_oid = sample_oid, le_name = ''refs/pull/1'', le_target = [], le_peeled = []\<rparr>]"

lemma sample_entries_ok: "listing_ok DefaultLimits sample_caps base_prefixes sample_entries"
proof -
  have "\<forall>e \<in> set sample_entries. entry_ok default_numbers 40 e"
    unfolding Ball_set [symmetric] by code_simp
  moreover have "oidWidth (ad_ObjectFormat sample_caps) = 40" by code_simp
  moreover have "distinct (map le_name sample_entries)" "int (length sample_entries) \<le> MaxRefRecords default_numbers"
    by code_simp+
  moreover have "list_all (\<lambda>e. list_all (\<lambda>t. le_target e = le_name t \<longrightarrow> le_oid e = le_oid t)
      (requested base_prefixes sample_entries)) (requested base_prefixes sample_entries)" by code_simp
  moreover have "reads_as (startReader \<lparr>src_data = frames (ls_packets sample_entries), src_end = EOF\<rparr> default_numbers)
      (ls_packets sample_entries)"
    by (simp add: reads_as_def readable_def startReader_def rd_data_def ls_packets_def sample_entries_def
      ls_line_def sample_oid_def pkt_line_def default_numbers_def protocolMaxPacket_def)
  ultimately show ?thesis
    unfolding listing_ok_def default_numbers Ball_set [symmetric] by (simp add: Ball_set)
qed

lemma sample_caps_ok: "advertisement_ok DefaultLimits sample_caps"
  by (simp add: advertisement_ok_def default_numbers sample_caps_def FormatSHA1_def caps_ok_def
      symrefs_ok_def head_agrees_def emptyHead_def symref_map_def default_numbers_def)

lemma sample_requested: "map listed_ref (requested base_prefixes sample_entries) = ad_Refs sample_advertisement"
  by code_simp

theorem ParseLsRefs_roundtrip_witness:
  "\<exists>ad. ParseLsRefs (Some \<lparr>src_data = frames (ls_packets sample_entries), src_end = EOF\<rparr>)
      (Some sample_caps) base_prefixes sample_v2_options = Inr ad \<and> ad_Refs ad = ad_Refs sample_advertisement"
  using ParseLsRefs_roundtrip [OF sample_entries_ok sample_caps_ok, of sample_v2_options]
  by (simp add: sample_caps_def base_prefixes_def sample_v2_options_def sample_effective sample_requested [unfolded base_prefixes_def])


lemma sample_ls_refs:
  obtains ad where "ParseLsRefs (Some \<lparr>src_data = frames (ls_packets sample_entries), src_end = EOF\<rparr>)
      (Some sample_caps) base_prefixes sample_v2_options = Inr ad" "ad_Refs ad = ad_Refs sample_advertisement"
  using ParseLsRefs_lists [OF sample_entries_ok sample_caps_ok, of sample_v2_options] that
  by (auto simp: sample_caps_def base_prefixes_def sample_v2_options_def sample_effective
      sample_requested [unfolded base_prefixes_def])

theorem ParseLsRefs_well_formed_witness:
  "\<exists>ad. ls_refs_ok base_prefixes sample_caps ad \<and> ad_Refs ad = ad_Refs sample_advertisement"
proof -
  obtain ad where "ParseLsRefs (Some \<lparr>src_data = frames (ls_packets sample_entries), src_end = EOF\<rparr>)
      (Some sample_caps) base_prefixes sample_v2_options = Inr ad" "ad_Refs ad = ad_Refs sample_advertisement"
    by (rule sample_ls_refs)
  with ParseLsRefs_well_formed [OF sample_v2_parse this(1)] show ?thesis by blast
qed

end
