(* ===== verification/RepoLock.thy ===== *)
theory RepoLock
  imports Prelude "HOL-Library.Word"
begin

text \<open>
  The reader and writer lock of one repository (\<open>internal/gitexec/locks.go\<close>). The operations
  are the critical sections of the code, one function each, over the fields of
  \<open>RepositoryLock\<close>; a waiter's \<open>ready\<close> channel is the membership of its identity in
  \<open>lk_ready\<close>, and a fresh waiter takes the next unused identity. Callers run concurrently, so
  the protocol is a step relation whose steps are single critical sections.
\<close>

subsection \<open>The lock\<close>

record lockWaiter =
  w_id :: nat
  w_write :: bool

record RepositoryLock =
  lk_readers :: nat
  lk_writing :: bool
  lk_writersWaiting :: int
  lk_queue :: "lockWaiter list"
  lk_generation :: "64 word"
  lk_incarnation :: "64 word"
  lk_waiters :: int
  lk_ready :: "nat set"
  lk_next :: nat

definition newLock :: RepositoryLock where
  "newLock = \<lparr>lk_readers = 0, lk_writing = False, lk_writersWaiting = 0, lk_queue = [],
     lk_generation = 0, lk_incarnation = 0, lk_waiters = 0, lk_ready = {}, lk_next = 0\<rparr>"

definition writeLockFree :: "RepositoryLock \<Rightarrow> bool" where
  "writeLockFree l \<longleftrightarrow> \<not> lk_writing l \<and> lk_readers l = 0 \<and> lk_queue l = []"

definition readLockFree :: "RepositoryLock \<Rightarrow> bool" where
  "readLockFree l \<longleftrightarrow> \<not> lk_writing l \<and> lk_writersWaiting l = 0"

definition enqueueLocked :: "bool \<Rightarrow> RepositoryLock \<Rightarrow> RepositoryLock \<times> nat" where
  "enqueueLocked write l =
     (l\<lparr>lk_queue := lk_queue l @ [\<lparr>w_id = lk_next l, w_write = write\<rparr>],
        lk_writersWaiting := (if write then lk_writersWaiting l + 1 else lk_writersWaiting l),
        lk_waiters := lk_waiters l + 1, lk_next := lk_next l + 1\<rparr>, lk_next l)"

definition popLocked :: "RepositoryLock \<Rightarrow> RepositoryLock" where
  "popLocked l = l\<lparr>lk_queue := tl (lk_queue l)\<rparr>"

definition closeReady :: "lockWaiter \<Rightarrow> RepositoryLock \<Rightarrow> RepositoryLock" where
  "closeReady w l = l\<lparr>lk_ready := insert (w_id w) (lk_ready l)\<rparr>"

function dispatchLocked :: "RepositoryLock \<Rightarrow> RepositoryLock" where
  "dispatchLocked l =
     (case lk_queue l of
       [] \<Rightarrow> l
     | w # rest \<Rightarrow>
         if lk_writing l then l
         else if \<not> w_write w then
           (let l' = popLocked l
            in dispatchLocked (closeReady w (l'\<lparr>lk_readers := lk_readers l' + 1\<rparr>)))
         else if lk_readers l > 0 then l
         else
           (let l' = popLocked l
            in closeReady w (l'\<lparr>lk_writersWaiting := lk_writersWaiting l' - 1, lk_writing := True\<rparr>)))"
  by pat_completeness auto
termination
  by (relation "measure (\<lambda>l. length (lk_queue l))") (auto simp: popLocked_def closeReady_def)

declare dispatchLocked.simps [simp del]

definition dequeueLocked :: "nat \<Rightarrow> RepositoryLock \<Rightarrow> RepositoryLock" where
  "dequeueLocked w l =
     (case List.extract (\<lambda>q. w_id q = w) (lk_queue l) of
       None \<Rightarrow> l
     | Some (front, q, behind) \<Rightarrow>
         dispatchLocked (l\<lparr>lk_queue := front @ behind, lk_writersWaiting :=
           (if w_write q then lk_writersWaiting l - 1 else lk_writersWaiting l)\<rparr>))"

subsection \<open>The operations\<close>

text \<open>A request is served at once or joins the queue; the panics of the releases are \<open>None\<close>.\<close>

datatype turn = Taken | Queued nat

definition takeWrite :: "RepositoryLock \<Rightarrow> RepositoryLock \<times> turn" where
  "takeWrite l =
     (if writeLockFree l then (l\<lparr>lk_writing := True\<rparr>, Taken)
      else map_prod id Queued (enqueueLocked True l))"

definition takeRead :: "RepositoryLock \<Rightarrow> RepositoryLock \<times> turn" where
  "takeRead l =
     (if readLockFree l then (l\<lparr>lk_readers := lk_readers l + 1\<rparr>, Taken)
      else map_prod id Queued (enqueueLocked False l))"

definition TryLock :: "RepositoryLock \<Rightarrow> RepositoryLock \<times> bool" where
  "TryLock l = (if writeLockFree l then (l\<lparr>lk_writing := True\<rparr>, True) else (l, False))"

definition TryRLock :: "RepositoryLock \<Rightarrow> RepositoryLock \<times> bool" where
  "TryRLock l = (if readLockFree l then (l\<lparr>lk_readers := lk_readers l + 1\<rparr>, True) else (l, False))"

definition turnArrived :: "RepositoryLock \<Rightarrow> RepositoryLock" where
  "turnArrived l = l\<lparr>lk_waiters := lk_waiters l - 1\<rparr>"

definition waitEnded :: "nat \<Rightarrow> RepositoryLock \<Rightarrow> RepositoryLock \<times> bool" where
  "waitEnded w l =
     (if w \<in> lk_ready l then (turnArrived l, True)
      else (turnArrived (dequeueLocked w l), False))"

definition releaseWriteLock :: "RepositoryLock \<Rightarrow> RepositoryLock option" where
  "releaseWriteLock l =
     (if \<not> lk_writing l then None else Some (dispatchLocked (l\<lparr>lk_writing := False\<rparr>)))"

definition RUnlock :: "RepositoryLock \<Rightarrow> RepositoryLock option" where
  "RUnlock l =
     (if lk_readers l = 0 then None else Some (dispatchLocked (l\<lparr>lk_readers := lk_readers l - 1\<rparr>)))"

definition advanceGeneration :: "RepositoryLock \<Rightarrow> RepositoryLock" where
  "advanceGeneration l = l\<lparr>lk_generation := lk_generation l + 1\<rparr>"

definition AdvanceIncarnation :: "RepositoryLock \<Rightarrow> RepositoryLock" where
  "AdvanceIncarnation l = l\<lparr>lk_incarnation := lk_incarnation l + 1\<rparr>"

definition LockWaiting :: "RepositoryLock \<Rightarrow> bool" where
  "LockWaiting l \<longleftrightarrow> lk_waiters l > 0"

text \<open>
  \<open>passGate\<close> for a caller that holds the write lock: the gate, when one is set, may refuse,
  and the lock is then released.
\<close>

definition passGate ::
    "(bytes \<Rightarrow> 'e option) option \<Rightarrow> bytes \<Rightarrow> RepositoryLock \<Rightarrow> (RepositoryLock \<times> 'e option) option" where
  "passGate gate repository l =
     (case gate of
       None \<Rightarrow> Some (l, None)
     | Some g \<Rightarrow>
         (case g repository of
           None \<Rightarrow> Some (l, None)
         | Some e \<Rightarrow> map_option (\<lambda>l'. (l', Some e)) (releaseWriteLock l)))"

subsection \<open>The locks of all repositories\<close>

text \<open>
  \<open>Locks\<close> gives every repository one lock, made at its first use; \<open>reg_locks\<close> maps a repository
  to the identity of its lock and \<open>reg_state\<close> the identity to the lock.
\<close>

record 'e Locks =
  reg_locks :: "bytes \<rightharpoonup> nat"
  reg_state :: "RepositoryLock list"
  reg_gate :: "(bytes \<Rightarrow> 'e option) option"

definition NewLocks :: "'e Locks" where
  "NewLocks = \<lparr>reg_locks = Map.empty, reg_state = [], reg_gate = None\<rparr>"

definition SetWriteGate :: "(bytes \<Rightarrow> 'e option) option \<Rightarrow> 'e Locks \<Rightarrow> 'e Locks" where
  "SetWriteGate gate ls = ls\<lparr>reg_gate := gate\<rparr>"

definition For :: "bytes \<Rightarrow> 'e Locks \<Rightarrow> 'e Locks \<times> nat" where
  "For repository ls =
     (case reg_locks ls repository of
       Some k \<Rightarrow> (ls, k)
     | None \<Rightarrow>
         (ls\<lparr>reg_locks := (reg_locks ls)(repository \<mapsto> length (reg_state ls)),
            reg_state := reg_state ls @ [newLock]\<rparr>, length (reg_state ls)))"

definition registry_ok :: "'e Locks \<Rightarrow> bool" where
  "registry_ok ls \<longleftrightarrow> (\<forall>r r' k. reg_locks ls r = Some k \<longrightarrow> reg_locks ls r' = Some k \<longrightarrow> r = r') \<and>
     (\<forall>r k. reg_locks ls r = Some k \<longrightarrow> k < length (reg_state ls))"

lemma For_ok:
  assumes "registry_ok ls" and "For r ls = (ls', k)"
  shows "registry_ok ls'" "For r ls' = (ls', k)" "map_le (reg_locks ls) (reg_locks ls')"
    "k < length (reg_state ls')"
proof -
  have fresh: "length (reg_state ls) \<notin> ran (reg_locks ls)"
    using assms(1) by (auto simp: registry_ok_def ran_def)
  show "registry_ok ls'" "For r ls' = (ls', k)" "map_le (reg_locks ls) (reg_locks ls')"
    "k < length (reg_state ls')"
    using assms fresh
    by (auto simp: For_def registry_ok_def map_le_def ran_def less_Suc_eq nth_append
        split: option.splits if_splits)
qed

subsection \<open>What dispatch does\<close>

lemma dispatch_writing [simp]: "lk_writing l \<Longrightarrow> dispatchLocked l = l"
  by (subst dispatchLocked.simps) (simp split: list.split)

lemma dispatch_Nil [simp]: "lk_queue l = [] \<Longrightarrow> dispatchLocked l = l"
  by (subst dispatchLocked.simps) simp

text \<open>The readers at the front are granted together; then a writer, if nobody reads.\<close>

lemma dispatch_spec:
  assumes "\<not> lk_writing l"
  shows "dispatchLocked l =
    (let rs = takeWhile (\<lambda>w. \<not> w_write w) (lk_queue l);
         rest = dropWhile (\<lambda>w. \<not> w_write w) (lk_queue l);
         l1 = l\<lparr>lk_queue := rest, lk_readers := lk_readers l + length rs,
              lk_ready := lk_ready l \<union> w_id ` set rs\<rparr>
     in if rest = [] \<or> lk_readers l1 > 0 then l1
        else l1\<lparr>lk_queue := tl rest, lk_writersWaiting := lk_writersWaiting l - 1, lk_writing := True,
               lk_ready := insert (w_id (hd rest)) (lk_ready l1)\<rparr>)"
  using assms
proof (induction "lk_queue l" arbitrary: l)
  case Nil
  then show ?case by (simp add: Let_def)
next
  case (Cons w q)
  note q = Cons.hyps(2) [symmetric]
  show ?case
  proof (cases "w_write w")
    case True
    then show ?thesis
      using Cons.prems by (subst dispatchLocked.simps) (simp add: q Let_def popLocked_def closeReady_def)
  next
    case False
    let ?l = "l\<lparr>lk_queue := q, lk_readers := lk_readers l + 1, lk_ready := insert (w_id w) (lk_ready l)\<rparr>"
    have d: "dispatchLocked l = dispatchLocked ?l"
      using Cons.prems False by (subst dispatchLocked.simps) (simp add: q Let_def popLocked_def closeReady_def)
    show ?thesis
      unfolding d by (subst Cons.hyps(1)) (use Cons.prems False q in \<open>auto simp: Let_def\<close>)
  qed
qed

subsection \<open>The invariant of the lock\<close>

text \<open>
  \<open>half_ok\<close> holds inside a critical section before the lock is handed on, \<open>lock_ok\<close> outside:
  there, a waiter at the front of the queue always finds the lock held by someone who will
  hand it on, and a reader never waits at the front of a lock that is only read.
\<close>

definition half_ok :: "RepositoryLock \<Rightarrow> bool" where
  "half_ok l \<longleftrightarrow> distinct (map w_id (lk_queue l)) \<and>
     (\<forall>w \<in> set (lk_queue l). w_id w < lk_next l \<and> w_id w \<notin> lk_ready l) \<and>
     (\<forall>i \<in> lk_ready l. i < lk_next l) \<and> lk_writersWaiting l = int (length (filter w_write (lk_queue l))) \<and>
     (lk_writing l \<longrightarrow> lk_readers l = 0)"

definition no_lost_turn :: "RepositoryLock \<Rightarrow> bool" where
  "no_lost_turn l \<longleftrightarrow> (lk_queue l \<noteq> [] \<longrightarrow> lk_writing l \<or> (w_write (hd (lk_queue l)) \<and> lk_readers l > 0))"

definition lock_ok :: "RepositoryLock \<Rightarrow> bool" where
  "lock_ok l \<longleftrightarrow> half_ok l \<and> no_lost_turn l"

text \<open>The waiters \<open>g\<close> were granted: a prefix of the queue, all readers or one writer.\<close>

definition grants :: "lockWaiter list \<Rightarrow> RepositoryLock \<Rightarrow> RepositoryLock \<Rightarrow> bool" where
  "grants g l l' \<longleftrightarrow> lk_queue l = g @ lk_queue l' \<and> lk_ready l' = lk_ready l \<union> w_id ` set g \<and>
     lk_next l' = lk_next l \<and> lk_waiters l' = lk_waiters l \<and> lk_generation l' = lk_generation l \<and>
     lk_incarnation l' = lk_incarnation l \<and>
     ((\<forall>w \<in> set g. \<not> w_write w) \<and> lk_readers l' = lk_readers l + length g \<and>
        lk_writing l' = lk_writing l \<and> (g \<noteq> [] \<longrightarrow> \<not> lk_writing l)
      \<or> (\<exists>w. g = [w] \<and> w_write w \<and> \<not> lk_writing l \<and> lk_readers l = 0 \<and> lk_readers l' = 0 \<and> lk_writing l'))"

lemma dispatch_ok:
  assumes "half_ok l"
  shows "\<exists>g. grants g l (dispatchLocked l) \<and> lock_ok (dispatchLocked l)"
proof (cases "lk_writing l")
  case True
  then have "grants [] l (dispatchLocked l) \<and> lock_ok (dispatchLocked l)"
    using assms by (simp add: grants_def lock_ok_def no_lost_turn_def)
  then show ?thesis by blast
next
  case False
  define rs rest where "rs = takeWhile (\<lambda>w. \<not> w_write w) (lk_queue l)"
    and "rest = dropWhile (\<lambda>w. \<not> w_write w) (lk_queue l)"
  have q: "lk_queue l = rs @ rest" by (simp add: rs_def rest_def)
  have reads: "\<forall>w \<in> set rs. \<not> w_write w" by (auto simp: rs_def dest: set_takeWhileD)
  then have none: "filter w_write rs = []" by simp
  have head: "rest \<noteq> [] \<Longrightarrow> w_write (hd rest)"
    unfolding rest_def by (metis hd_dropWhile)
  let ?l1 = "l\<lparr>lk_queue := rest, lk_readers := lk_readers l + length rs, lk_ready := lk_ready l \<union> w_id ` set rs\<rparr>"
  have d: "dispatchLocked l = (if rest = [] \<or> lk_readers ?l1 > 0 then ?l1
        else ?l1\<lparr>lk_queue := tl rest, lk_writersWaiting := lk_writersWaiting l - 1, lk_writing := True,
               lk_ready := insert (w_id (hd rest)) (lk_ready ?l1)\<rparr>)"
    unfolding dispatch_spec [OF False] Let_def rs_def rest_def by simp
  show ?thesis
  proof (cases "rest = [] \<or> lk_readers ?l1 > 0")
    case True
    then have e: "dispatchLocked l = ?l1" using d by simp
    have "grants rs l ?l1" using reads q False by (simp add: grants_def)
    moreover have "lock_ok ?l1"
      using assms q none head True False by (auto simp: lock_ok_def half_ok_def no_lost_turn_def)
    ultimately show ?thesis unfolding e by blast
  next
    case c: False
    then obtain w tail where w: "rest = w # tail" "w_write w" using head by (cases rest) auto
    have rs: "rs = []" "lk_readers l = 0" using c by auto
    have e: "dispatchLocked l = l\<lparr>lk_queue := tail, lk_writersWaiting := lk_writersWaiting l - 1,
        lk_writing := True, lk_ready := insert (w_id w) (lk_ready l)\<rparr>"
      using d c w rs by simp
    have "grants [w] l (dispatchLocked l)" using q w rs False by (simp add: grants_def e)
    moreover have "lock_ok (dispatchLocked l)"
      using assms q w rs by (auto simp: lock_ok_def half_ok_def no_lost_turn_def e image_iff)
    ultimately show ?thesis by blast
  qed
qed

subsection \<open>Callers\<close>

text \<open>
  \<open>Plain\<close> is \<open>Lock\<close> and \<open>RLock\<close>, which never give up; \<open>WithContext\<close> is \<open>LockContextUngated\<close> and
  \<open>RLockContext\<close>; \<open>Gated\<close> is \<open>LockContext\<close>, which runs the write gate once it holds the lock.
\<close>

datatype request = Plain | WithContext | Gated

datatype phase =
    Idle
  | WaitingFor nat bool request
  | HoldRead
  | AtGate
  | HoldWrite
  | Unlocking

record lockSystem =
  sy_lock :: RepositoryLock
  sy_callers :: "nat \<Rightarrow> phase"

definition owner_phase :: "bool \<Rightarrow> request \<Rightarrow> phase" where
  "owner_phase write req = (if \<not> write then HoldRead else if req = Gated then AtGate else HoldWrite)"

definition turn_phase :: "bool \<Rightarrow> request \<Rightarrow> turn \<Rightarrow> phase" where
  "turn_phase write req t = (case t of Taken \<Rightarrow> owner_phase write req | Queued w \<Rightarrow> WaitingFor w write req)"

definition go :: "nat \<Rightarrow> phase \<Rightarrow> RepositoryLock \<Rightarrow> lockSystem \<Rightarrow> lockSystem" where
  "go c p l s = \<lparr>sy_lock = l, sy_callers = (sy_callers s)(c := p)\<rparr>"

inductive lock_step :: "lockSystem \<Rightarrow> lockSystem \<Rightarrow> bool" where
  step_write: "sy_callers s c = Idle \<Longrightarrow> takeWrite (sy_lock s) = (l, t) \<Longrightarrow>
    lock_step s (go c (turn_phase True req t) l s)"
| step_read: "sy_callers s c = Idle \<Longrightarrow> takeRead (sy_lock s) = (l, t) \<Longrightarrow> req \<noteq> Gated \<Longrightarrow>
    lock_step s (go c (turn_phase False req t) l s)"
| step_try_write: "sy_callers s c = Idle \<Longrightarrow> TryLock (sy_lock s) = (l, True) \<Longrightarrow>
    lock_step s (go c (owner_phase True req) l s)"
| step_try_read: "sy_callers s c = Idle \<Longrightarrow> TryRLock (sy_lock s) = (l, True) \<Longrightarrow>
    lock_step s (go c HoldRead l s)"
| step_turn: "sy_callers s c = WaitingFor w write req \<Longrightarrow> w \<in> lk_ready (sy_lock s) \<Longrightarrow>
    lock_step s (go c (owner_phase write req) (turnArrived (sy_lock s)) s)"
| step_wait_ended: "sy_callers s c = WaitingFor w write req \<Longrightarrow> req \<noteq> Plain \<Longrightarrow>
    waitEnded w (sy_lock s) = (l, got) \<Longrightarrow>
    lock_step s (go c (if got then owner_phase write req else Idle) l s)"
| step_gate: "sy_callers s c = AtGate \<Longrightarrow>
    passGate gate repository (sy_lock s) = Some (l, err :: bytes option) \<Longrightarrow>
    lock_step s (go c (if err = None then HoldWrite else Idle) l s)"
| step_generation: "sy_callers s c = HoldWrite \<Longrightarrow>
    lock_step s (go c Unlocking (advanceGeneration (sy_lock s)) s)"
| step_unlock: "sy_callers s c = Unlocking \<Longrightarrow> releaseWriteLock (sy_lock s) = Some l \<Longrightarrow>
    lock_step s (go c Idle l s)"
| step_unlock_same_refs: "sy_callers s c = HoldWrite \<Longrightarrow> releaseWriteLock (sy_lock s) = Some l \<Longrightarrow>
    lock_step s (go c Idle l s)"
| step_runlock: "sy_callers s c = HoldRead \<Longrightarrow> RUnlock (sy_lock s) = Some l \<Longrightarrow>
    lock_step s (go c Idle l s)"
| step_incarnation: "sy_callers s c = HoldWrite \<Longrightarrow>
    lock_step s (go c HoldWrite (AdvanceIncarnation (sy_lock s)) s)"

definition lock_init :: "lockSystem \<Rightarrow> bool" where
  "lock_init s \<longleftrightarrow> sy_lock s = newLock \<and> (\<forall>c. sy_callers s c = Idle)"

fun has_read :: "nat set \<Rightarrow> phase \<Rightarrow> bool" where
  "has_read ready HoldRead = True"
| "has_read ready (WaitingFor w write req) = (\<not> write \<and> w \<in> ready)"
| "has_read ready _ = False"

fun has_write :: "nat set \<Rightarrow> phase \<Rightarrow> bool" where
  "has_write ready (WaitingFor w write req) = (write \<and> w \<in> ready)"
| "has_write ready AtGate = True"
| "has_write ready HoldWrite = True"
| "has_write ready Unlocking = True"
| "has_write ready _ = False"

fun is_waiting :: "phase \<Rightarrow> bool" where
  "is_waiting (WaitingFor w write req) = True"
| "is_waiting _ = False"

text \<open>The fields of the lock count the callers, and the queue is the callers not yet granted.\<close>

definition waits_ok :: "RepositoryLock \<Rightarrow> (nat \<Rightarrow> phase) \<Rightarrow> bool" where
  "waits_ok l ps \<longleftrightarrow>
     (\<forall>c w write req. ps c = WaitingFor w write req \<longrightarrow>
        w < lk_next l \<and> (w \<in> lk_ready l \<or> \<lparr>w_id = w, w_write = write\<rparr> \<in> set (lk_queue l))) \<and>
     (\<forall>c d w write req write' req'. ps c = WaitingFor w write req \<longrightarrow> ps d = WaitingFor w write' req' \<longrightarrow> c = d) \<and>
     (\<forall>q \<in> set (lk_queue l). \<exists>c req. ps c = WaitingFor (w_id q) (w_write q) req)"

definition counts_ok :: "RepositoryLock \<Rightarrow> (nat \<Rightarrow> phase) \<Rightarrow> bool" where
  "counts_ok l ps \<longleftrightarrow> finite {c. ps c \<noteq> Idle} \<and>
     lk_readers l = holders (has_read (lk_ready l)) ps \<and>
     of_bool (lk_writing l) = holders (has_write (lk_ready l)) ps \<and>
     lk_waiters l = int (holders is_waiting ps)"

definition system_ok :: "lockSystem \<Rightarrow> bool" where
  "system_ok s \<longleftrightarrow> lock_ok (sy_lock s) \<and> waits_ok (sy_lock s) (sy_callers s) \<and>
     counts_ok (sy_lock s) (sy_callers s)"

lemma granted_card:
  assumes "set g \<subseteq> set (lk_queue l)" and "distinct g" and "waits_ok l ps" and "half_ok l"
  shows "card {c. \<exists>q \<in> set g. \<exists>req. ps c = WaitingFor (w_id q) (w_write q) req} = length g"
    (is "card ?G = _")
proof -
  define the_caller :: "lockWaiter \<Rightarrow> nat" where "the_caller q = (SOME c. \<exists>req. ps c = WaitingFor (w_id q) (w_write q) req)" for q
  have ex: "\<exists>c req. ps c = WaitingFor (w_id q) (w_write q) req" if "q \<in> set g" for q
    using that assms(1,3) unfolding waits_ok_def by blast
  have own: "\<exists>req. ps (the_caller q) = WaitingFor (w_id q) (w_write q) req" if "q \<in> set g" for q
    unfolding the_caller_def by (rule someI_ex) (rule ex [OF that])
  have uniq: "c = d" if "ps c = WaitingFor w b r" "ps d = WaitingFor w b' r'" for c d w b r b' r'
    using that assms(3) unfolding waits_ok_def by blast
  have "?G = the_caller ` set g"
    using own uniq by fastforce
  moreover have "inj_on the_caller (set g)"
  proof (rule inj_onI)
    fix p q assume pq: "p \<in> set g" "q \<in> set g" "the_caller p = the_caller q"
    then have "w_id p = w_id q" using own [OF pq(1)] own [OF pq(2)] by auto
    moreover have "inj_on w_id (set (lk_queue l))"
      using assms(4) by (simp add: half_ok_def distinct_map)
    ultimately show "p = q" using pq(1,2) assms(1) by (meson inj_onD subsetD)
  qed
  ultimately show ?thesis using assms(2) by (simp add: card_image distinct_card)
qed

lemma grant_links:
  assumes gr: "grants g l l'" and w: "waits_ok l ps" and c: "counts_ok l ps" and h: "half_ok l"
  shows "waits_ok l' ps \<and> counts_ok l' ps"
proof
  have q: "lk_queue l = g @ lk_queue l'" and r: "lk_ready l' = lk_ready l \<union> w_id ` set g"
    and same: "lk_next l' = lk_next l" "lk_waiters l' = lk_waiters l"
    using gr by (simp_all add: grants_def)
  have dist: "distinct g" using h q by (auto simp: half_ok_def distinct_map)
  show "waits_ok l' ps"
    unfolding waits_ok_def
  proof (intro conjI allI impI)
    fix c w b req assume "ps c = WaitingFor w b req"
    then have "w < lk_next l" "w \<in> lk_ready l \<or> \<lparr>w_id = w, w_write = b\<rparr> \<in> set (lk_queue l)"
      using w unfolding waits_ok_def by blast+
    then show "w < lk_next l'" "w \<in> lk_ready l' \<or> \<lparr>w_id = w, w_write = b\<rparr> \<in> set (lk_queue l')"
      unfolding q r same by force+
  next
    show "\<forall>q \<in> set (lk_queue l'). \<exists>c req. ps c = WaitingFor (w_id q) (w_write q) req"
      using w unfolding waits_ok_def q by auto
  next
    fix c d w b req b' req'
    assume "ps c = WaitingFor w b req" "ps d = WaitingFor w b' req'"
    then show "c = d" using w unfolding waits_ok_def by blast
  qed
  let ?G = "{c. \<exists>q \<in> set g. \<exists>req. ps c = WaitingFor (w_id q) (w_write q) req}"
  have G: "card ?G = length g" by (rule granted_card [OF _ dist w h]) (simp add: q)
  have fin: "finite {c. ps c \<noteq> Idle}" using c by (simp add: counts_ok_def)
  have finG: "finite ?G" by (rule finite_subset [OF _ fin]) auto
  have flag: "ps c = WaitingFor (w_id x) b req \<Longrightarrow> x \<in> set g \<Longrightarrow> b = w_write x" for c x b req
    using w unfolding waits_ok_def q by (metis Un_iff phase.inject(1) set_append)
  have fresh: "x \<in> set g \<Longrightarrow> w_id x \<notin> lk_ready l" for x
    using h by (auto simp: half_ok_def q)
  have P: "holders (P (lk_ready l')) ps = holders (P (lk_ready l)) ps + length g"
    if "\<And>c. P (lk_ready l') (ps c) \<longleftrightarrow> P (lk_ready l) (ps c) \<or> c \<in> ?G"
      "\<And>c. c \<in> ?G \<Longrightarrow> \<not> P (lk_ready l) (ps c)" "\<not> P (lk_ready l) Idle" for P
  proof -
    have "{c. P (lk_ready l') (ps c)} = {c. P (lk_ready l) (ps c)} \<union> ?G" using that(1) by auto
    moreover have "finite {c. P (lk_ready l) (ps c)}"
      by (rule finite_subset [OF _ fin]) (use that(3) in auto)
    moreover have "{c. P (lk_ready l) (ps c)} \<inter> ?G = {}" using that(2) by auto
    ultimately show ?thesis using finG G by (simp add: holders_def card_Un_disjoint)
  qed
  consider (readers) "\<forall>x \<in> set g. \<not> w_write x" "lk_readers l' = lk_readers l + length g"
      "lk_writing l' = lk_writing l"
    | (writer) x where "g = [x]" "w_write x" "\<not> lk_writing l" "lk_readers l = 0" "lk_readers l' = 0" "lk_writing l'"
    using gr by (auto simp: grants_def)
  then show "counts_ok l' ps"
  proof cases
    case readers
    have A: "has_read (lk_ready l') (ps c) \<longleftrightarrow> has_read (lk_ready l) (ps c) \<or> c \<in> ?G" for c
      using flag readers(1) by (cases "ps c") (auto simp: r)
    have B: "c \<in> ?G \<Longrightarrow> \<not> has_read (lk_ready l) (ps c)" for c using fresh by auto
    have "has_write (lk_ready l') (ps c) = has_write (lk_ready l) (ps c)" for c
      using flag readers(1) by (cases "ps c") (auto simp: r)
    then have "holders (has_write (lk_ready l')) ps = holders (has_write (lk_ready l)) ps"
      by (simp add: holders_def)
    with P [of has_read, OF A B] c readers(2,3) same show ?thesis by (simp add: counts_ok_def)
  next
    case writer
    have A: "has_write (lk_ready l') (ps c) \<longleftrightarrow> has_write (lk_ready l) (ps c) \<or> c \<in> ?G" for c
      using flag writer(1,2) by (cases "ps c") (auto simp: r)
    have B: "c \<in> ?G \<Longrightarrow> \<not> has_write (lk_ready l) (ps c)" for c using fresh by auto
    have "has_read (lk_ready l') (ps c) = has_read (lk_ready l) (ps c)" for c
      using flag writer(1,2) by (cases "ps c") (auto simp: r)
    then have "holders (has_read (lk_ready l')) ps = holders (has_read (lk_ready l)) ps"
      by (simp add: holders_def)
    with P [of has_write, OF A B] c writer same show ?thesis by (simp add: counts_ok_def)
  qed
qed

lemma dispatch_links:
  assumes "half_ok l" and "waits_ok l ps" and "counts_ok l ps"
  shows "lock_ok (dispatchLocked l) \<and> waits_ok (dispatchLocked l) ps \<and> counts_ok (dispatchLocked l) ps"
  using dispatch_ok [OF assms(1)] grant_links assms by blast

subsection \<open>Every step keeps the invariant\<close>

definition pair_ok :: "RepositoryLock \<Rightarrow> (nat \<Rightarrow> phase) \<Rightarrow> bool" where
  "pair_ok l ps \<longleftrightarrow> lock_ok l \<and> waits_ok l ps \<and> counts_ok l ps"

lemma counts_change:
  assumes "counts_ok l ps" and "lk_ready l' = lk_ready l"
    and "lk_readers l' + of_bool (has_read (lk_ready l) (ps c)) = lk_readers l + of_bool (has_read (lk_ready l) x)"
    and "of_bool (lk_writing l') + of_bool (has_write (lk_ready l) (ps c))
      = of_bool (lk_writing l) + (of_bool (has_write (lk_ready l) x) :: nat)"
    and "lk_waiters l' + of_bool (is_waiting (ps c)) = lk_waiters l + of_bool (is_waiting x)"
  shows "counts_ok l' (ps(c := x))"
proof -
  have fin: "finite {c. ps c \<noteq> Idle}" using assms(1) by (simp add: counts_ok_def)
  have "holders (has_read (lk_ready l)) (ps(c := x)) = lk_readers l'"
    using holders_update [OF fin, of "has_read (lk_ready l)" c x] assms(1,3) by (simp add: counts_ok_def)
  moreover have "holders (has_write (lk_ready l)) (ps(c := x)) = of_bool (lk_writing l')"
    using holders_update [OF fin, of "has_write (lk_ready l)" c x] assms(1,4) by (simp add: counts_ok_def)
  moreover have "int (holders is_waiting (ps(c := x))) = lk_waiters l'"
    using arg_cong [OF holders_update [OF fin, of is_waiting c x], of int] assms(1,5)
    by (simp add: counts_ok_def)
  ultimately show ?thesis using finite_update [OF fin] assms(2) by (simp add: counts_ok_def)
qed

lemma waits_change:
  assumes "waits_ok l ps" and "lk_queue l' = lk_queue l" "lk_ready l' = lk_ready l" "lk_next l' = lk_next l"
    and "\<not> is_waiting x" and "\<And>w b req. ps c = WaitingFor w b req \<Longrightarrow> w \<in> lk_ready l" and "half_ok l"
  shows "waits_ok l' (ps(c := x))"
  unfolding waits_ok_def assms(2-4)
proof (intro conjI allI impI ballI)
  fix q assume q: "q \<in> set (lk_queue l)"
  then obtain d req where d: "ps d = WaitingFor (w_id q) (w_write q) req"
    using assms(1) unfolding waits_ok_def by blast
  moreover have "d \<noteq> c" using assms(6,7) d q unfolding half_ok_def by blast
  ultimately show "\<exists>e req. (ps(c := x)) e = WaitingFor (w_id q) (w_write q) req"
    by (metis fun_upd_other)
next
  fix d w b req assume "(ps(c := x)) d = WaitingFor w b req"
  then have "ps d = WaitingFor w b req" using assms(5) by (auto split: if_splits)
  then show "w < lk_next l" "w \<in> lk_ready l \<or> \<lparr>w_id = w, w_write = b\<rparr> \<in> set (lk_queue l)"
    using assms(1) unfolding waits_ok_def by blast+
next
  fix d e w b req b' req'
  assume "(ps(c := x)) d = WaitingFor w b req" "(ps(c := x)) e = WaitingFor w b' req'"
  then have "ps d = WaitingFor w b req" "ps e = WaitingFor w b' req'"
    using assms(5) by (auto split: if_splits)
  then show "d = e" using assms(1) unfolding waits_ok_def by blast
qed

text \<open>A step that leaves the queue alone, apart from the handing on at its end.\<close>

lemma pair_change:
  assumes "pair_ok l ps" and "lk_queue l' = lk_queue l" "lk_ready l' = lk_ready l" "lk_next l' = lk_next l"
    and "\<not> is_waiting x" and "\<And>w b req. ps c = WaitingFor w b req \<Longrightarrow> w \<in> lk_ready l"
    and "lk_writersWaiting l' = lk_writersWaiting l" and "lk_writing l' \<longrightarrow> lk_readers l' = 0"
    and "lk_readers l' + of_bool (has_read (lk_ready l) (ps c)) = lk_readers l + of_bool (has_read (lk_ready l) x)"
    and "of_bool (lk_writing l') + of_bool (has_write (lk_ready l) (ps c))
      = of_bool (lk_writing l) + (of_bool (has_write (lk_ready l) x) :: nat)"
    and "lk_waiters l' + of_bool (is_waiting (ps c)) = lk_waiters l + of_bool (is_waiting x)"
  shows "half_ok l' \<and> waits_ok l' (ps(c := x)) \<and> counts_ok l' (ps(c := x))"
proof -
  have h: "half_ok l" "waits_ok l ps" "counts_ok l ps"
    using assms(1) by (simp_all add: pair_ok_def lock_ok_def)
  have "half_ok l'" using h(1) assms(2-4,7,8) by (simp add: half_ok_def)
  with waits_change [OF h(2) assms(2-6) h(1)] counts_change [OF h(3) assms(3,9-11)]
  show ?thesis by simp
qed

lemma enqueue_ok:
  assumes ok: "pair_ok l ps" and idle: "ps c = Idle" and en: "enqueueLocked write l = (l', w)"
    and busy: "lk_writing l \<or> (lk_queue l \<noteq> []) \<or> (write \<and> lk_readers l > 0)"
  shows "pair_ok l' (ps(c := WaitingFor w write req))"
proof -
  let ?q = "\<lparr>w_id = lk_next l, w_write = write\<rparr>"
  have l': "lk_queue l' = lk_queue l @ [?q]" "lk_next l' = lk_next l + 1" "w = lk_next l"
    "lk_ready l' = lk_ready l" "lk_readers l' = lk_readers l" "lk_writing l' = lk_writing l"
    "lk_waiters l' = lk_waiters l + 1"
    "lk_writersWaiting l' = lk_writersWaiting l + of_bool write"
    using en by (auto simp: enqueueLocked_def)
  have h: "half_ok l" "no_lost_turn l" and wo: "waits_ok l ps" and co: "counts_ok l ps"
    using ok by (simp_all add: pair_ok_def lock_ok_def)
  have below: "ps d = WaitingFor v b r \<Longrightarrow> v < lk_next l" for d v b r
    using wo unfolding waits_ok_def by blast
  have notready: "lk_next l \<notin> lk_ready l" using h(1) by (auto simp: half_ok_def)
  have "lock_ok l'"
    using h busy notready by (auto simp: lock_ok_def half_ok_def no_lost_turn_def l' hd_append)
  moreover have "waits_ok l' (ps(c := WaitingFor w write req))"
    unfolding waits_ok_def
  proof (intro conjI allI impI ballI)
    fix q assume "q \<in> set (lk_queue l')"
    then consider "q \<in> set (lk_queue l)" | "q = ?q" by (auto simp: l')
    then show "\<exists>d r. (ps(c := WaitingFor w write req)) d = WaitingFor (w_id q) (w_write q) r"
    proof cases
      case 1
      then obtain d r where "ps d = WaitingFor (w_id q) (w_write q) r"
        using wo unfolding waits_ok_def by blast
      with idle show ?thesis by (metis fun_upd_other phase.distinct(1))
    qed (auto simp: l')
  next
    fix d v b r assume a: "(ps(c := WaitingFor w write req)) d = WaitingFor v b r"
    show "v < lk_next l'"
      using a below [of d v b r] by (auto simp: l' split: if_splits)
    show "v \<in> lk_ready l' \<or> \<lparr>w_id = v, w_write = b\<rparr> \<in> set (lk_queue l')"
      using a wo unfolding waits_ok_def by (auto simp: l' split: if_splits)
  next
    fix d e v b r b' r'
    assume "(ps(c := WaitingFor w write req)) d = WaitingFor v b r"
      "(ps(c := WaitingFor w write req)) e = WaitingFor v b' r'"
    then show "d = e"
      using wo below [of d v b r] below [of e v b' r'] unfolding waits_ok_def
      by (auto simp: l' split: if_splits)
  qed
  moreover have "counts_ok l' (ps(c := WaitingFor w write req))"
    by (rule counts_change [OF co]) (use idle notready in \<open>simp_all add: l'\<close>)
  ultimately show ?thesis by (simp add: pair_ok_def)
qed

lemma dispatch_waiters:
  "dispatchLocked (l\<lparr>lk_waiters := n\<rparr>) = (dispatchLocked l)\<lparr>lk_waiters := n\<rparr>"
  by (cases "lk_writing l") (simp_all add: dispatch_spec Let_def)

lemma takeWrite_ok:
  assumes "pair_ok l ps" and "ps c = Idle" and "takeWrite l = (l', t)"
  shows "pair_ok l' (ps(c := turn_phase True req t))"
proof (cases "writeLockFree l")
  case True
  then have l': "l' = l\<lparr>lk_writing := True\<rparr>" "t = Taken" using assms(3) by (auto simp: takeWrite_def)
  have "lk_queue l = []" using True by (simp add: writeLockFree_def)
  moreover have "half_ok l' \<and> waits_ok l' (ps(c := owner_phase True req)) \<and> counts_ok l' (ps(c := owner_phase True req))"
    by (rule pair_change [OF assms(1)];
        use assms(2) True in \<open>simp add: l' owner_phase_def writeLockFree_def\<close>)
  ultimately show ?thesis
    by (simp add: pair_ok_def lock_ok_def no_lost_turn_def turn_phase_def l')
next
  case False
  then obtain w where "enqueueLocked True l = (l', w)" "t = Queued w"
    using assms(3) by (cases "enqueueLocked True l") (auto simp: takeWrite_def)
  with enqueue_ok [OF assms(1,2) this(1)] False show ?thesis
    by (auto simp: turn_phase_def writeLockFree_def)
qed

lemma takeRead_ok:
  assumes "pair_ok l ps" and "ps c = Idle" and "takeRead l = (l', t)"
  shows "pair_ok l' (ps(c := turn_phase False req t))"
proof (cases "readLockFree l")
  case True
  then have l': "l' = l\<lparr>lk_readers := lk_readers l + 1\<rparr>" "t = Taken" using assms(3) by (auto simp: takeRead_def)
  have "half_ok l' \<and> waits_ok l' (ps(c := HoldRead)) \<and> counts_ok l' (ps(c := HoldRead))"
    by (rule pair_change [OF assms(1)]; use assms(2) True in \<open>simp add: l' readLockFree_def\<close>)
  moreover have "no_lost_turn l'"
    using assms(1) by (auto simp: pair_ok_def lock_ok_def no_lost_turn_def l')
  ultimately show ?thesis by (simp add: pair_ok_def lock_ok_def turn_phase_def owner_phase_def l')
next
  case False
  then obtain w where en: "enqueueLocked False l = (l', w)" "t = Queued w"
    using assms(3) by (cases "enqueueLocked False l") (auto simp: takeRead_def)
  have "lk_writing l \<or> lk_queue l \<noteq> []"
    using False assms(1) by (auto simp: readLockFree_def pair_ok_def lock_ok_def half_ok_def)
  with enqueue_ok [OF assms(1,2) en(1)] show ?thesis by (auto simp: turn_phase_def en(2))
qed

lemma try_as_take:
  "TryLock l = (l', True) \<Longrightarrow> takeWrite l = (l', Taken)"
  "TryRLock l = (l', True) \<Longrightarrow> takeRead l = (l', Taken)"
  by (auto simp: TryLock_def TryRLock_def takeWrite_def takeRead_def split: if_splits)

lemma turn_ok:
  assumes "pair_ok l ps" and "ps c = WaitingFor w write req" and "w \<in> lk_ready l"
  shows "pair_ok (turnArrived l) (ps(c := owner_phase write req))"
proof -
  have "half_ok (turnArrived l) \<and> waits_ok (turnArrived l) (ps(c := owner_phase write req)) \<and> counts_ok (turnArrived l) (ps(c := owner_phase write req))"
    by (rule pair_change [OF assms(1)];
        use assms in \<open>auto simp: turnArrived_def owner_phase_def pair_ok_def lock_ok_def half_ok_def\<close>)
  then show ?thesis
    using assms(1) by (simp add: pair_ok_def lock_ok_def no_lost_turn_def turnArrived_def)
qed

lemma dequeue_ok:
  assumes ok: "pair_ok l ps" and c: "ps c = WaitingFor w write req" and nr: "w \<notin> lk_ready l"
  shows "pair_ok (turnArrived (dequeueLocked w l)) (ps(c := Idle))"
proof -
  have h: "half_ok l" and wo: "waits_ok l ps" and co: "counts_ok l ps"
    using ok by (simp_all add: pair_ok_def lock_ok_def)
  have mem: "\<lparr>w_id = w, w_write = write\<rparr> \<in> set (lk_queue l)"
    using wo c nr unfolding waits_ok_def by blast
  obtain front q behind where ex: "List.extract (\<lambda>q. w_id q = w) (lk_queue l) = Some (front, q, behind)"
    using mem extract_None_iff [of "\<lambda>q. w_id q = w" "lk_queue l"]
    by (cases "List.extract (\<lambda>q. w_id q = w) (lk_queue l)") auto
  then have Q: "lk_queue l = front @ q # behind" "w_id q = w"
    by (auto simp: extract_Some_iff)
  have "inj_on w_id (set (lk_queue l))" using h by (simp add: half_ok_def distinct_map)
  then have q: "q = \<lparr>w_id = w, w_write = write\<rparr>"
    using mem Q by (auto simp: inj_on_def)
  let ?l = "l\<lparr>lk_queue := front @ behind, lk_writersWaiting :=
           (if w_write q then lk_writersWaiting l - 1 else lk_writersWaiting l), lk_waiters := lk_waiters l - 1\<rparr>"
  have waiters: "lk_waiters (dispatchLocked k) = lk_waiters k" for k :: RepositoryLock
    by (cases "lk_writing k") (simp_all add: dispatch_spec Let_def)
  have e: "turnArrived (dequeueLocked w l) = dispatchLocked ?l"
    by (simp add: dequeueLocked_def ex turnArrived_def waiters
        flip: dispatch_waiters del: RepositoryLock.update_convs)
  have half: "half_ok ?l" using h by (auto simp: half_ok_def Q)
  have "waits_ok ?l (ps(c := Idle))"
    unfolding waits_ok_def
  proof (intro conjI allI impI ballI)
    fix x assume x: "x \<in> set (lk_queue ?l)"
    have "x \<in> set (lk_queue l)" using x by (auto simp: Q)
    then obtain d r where "ps d = WaitingFor (w_id x) (w_write x) r"
      using wo unfolding waits_ok_def by blast
    moreover have "w_id x \<noteq> w" using x h Q by (auto simp: half_ok_def image_iff)
    ultimately show "\<exists>d r. (ps(c := Idle)) d = WaitingFor (w_id x) (w_write x) r"
      using c by (metis fun_upd_other phase.inject(1))
  next
    fix d v b r assume a: "(ps(c := Idle)) d = WaitingFor v b r"
    then have d: "ps d = WaitingFor v b r" "d \<noteq> c" by (auto split: if_splits)
    then have "v < lk_next l" "v \<in> lk_ready l \<or> \<lparr>w_id = v, w_write = b\<rparr> \<in> set (lk_queue l)" "v \<noteq> w"
      using wo c unfolding waits_ok_def by blast+
    then show "v < lk_next ?l" "v \<in> lk_ready ?l \<or> \<lparr>w_id = v, w_write = b\<rparr> \<in> set (lk_queue ?l)"
      by (auto simp: Q q)
  next
    fix d e v b r b' r'
    assume "(ps(c := Idle)) d = WaitingFor v b r" "(ps(c := Idle)) e = WaitingFor v b' r'"
    then show "d = e" using wo unfolding waits_ok_def by (auto split: if_splits)
  qed
  moreover have "counts_ok ?l (ps(c := Idle))"
    by (rule counts_change [OF co]) (use c nr in simp_all)
  ultimately show ?thesis using dispatch_links [OF half] by (simp add: e pair_ok_def)
qed

lemma release_ok:
  assumes "pair_ok l ps" and "has_write (lk_ready l) (ps c)" and "\<not> is_waiting (ps c)"
  shows "\<exists>l'. releaseWriteLock l = Some l' \<and> pair_ok l' (ps(c := Idle))"
proof -
  have fin: "finite {d. ps d \<noteq> Idle}" and n: "of_bool (lk_writing l) = holders (has_write (lk_ready l)) ps"
    using assms(1) by (simp_all add: pair_ok_def counts_ok_def)
  have wr: "lk_writing l"
    using holders_update [OF fin, of "has_write (lk_ready l)" c Idle] assms(2) n
    by (cases "lk_writing l") simp_all
  let ?l = "l\<lparr>lk_writing := False\<rparr>"
  have nr: "\<not> has_read (lk_ready l) (ps c)" using assms(2,3) by (cases "ps c") auto
  have "half_ok ?l \<and> waits_ok ?l (ps(c := Idle)) \<and> counts_ok ?l (ps(c := Idle))"
    by (rule pair_change [OF assms(1)]; use assms(2,3) wr nr in \<open>auto\<close>)
  with dispatch_links [of ?l "ps(c := Idle)"] show ?thesis by (simp add: releaseWriteLock_def wr pair_ok_def)
qed

lemma RUnlock_ok:
  assumes "pair_ok l ps" and "ps c = HoldRead"
  shows "\<exists>l'. RUnlock l = Some l' \<and> pair_ok l' (ps(c := Idle))"
proof -
  have fin: "finite {d. ps d \<noteq> Idle}" and n: "lk_readers l = holders (has_read (lk_ready l)) ps"
    using assms(1) by (simp_all add: pair_ok_def counts_ok_def)
  have rd: "lk_readers l > 0"
    using holders_update [OF fin, of "has_read (lk_ready l)" c Idle] assms(2) n by simp
  let ?l = "l\<lparr>lk_readers := lk_readers l - 1\<rparr>"
  have "half_ok ?l \<and> waits_ok ?l (ps(c := Idle)) \<and> counts_ok ?l (ps(c := Idle))"
    by (rule pair_change [OF assms(1)];
        use assms rd in \<open>auto simp: pair_ok_def lock_ok_def half_ok_def\<close>)
  with dispatch_links [of ?l "ps(c := Idle)"] rd show ?thesis by (simp add: RUnlock_def pair_ok_def)
qed

lemma same_holder_ok:
  assumes "pair_ok l ps" and "ps c = p" and "p = AtGate \<or> p = HoldWrite"
    and "x = HoldWrite \<or> x = Unlocking"
  shows "pair_ok (l\<lparr>lk_generation := g, lk_incarnation := i\<rparr>) (ps(c := x))"
proof -
  let ?l = "l\<lparr>lk_generation := g, lk_incarnation := i\<rparr>"
  have "half_ok ?l \<and> waits_ok ?l (ps(c := x)) \<and> counts_ok ?l (ps(c := x))"
    by (rule pair_change [OF assms(1)];
        use assms in \<open>auto simp: pair_ok_def lock_ok_def half_ok_def\<close>)
  then show ?thesis using assms(1) by (simp add: pair_ok_def lock_ok_def no_lost_turn_def)
qed

lemma lock_step_ok:
  assumes "lock_step s t" and "system_ok s"
  shows "system_ok t"
proof -
  have go: "system_ok (go c p l s)" if "pair_ok l ((sy_callers s)(c := p))" for c p l
    using that by (simp add: system_ok_def pair_ok_def go_def)
  have ok: "pair_ok (sy_lock s) (sy_callers s)"
    using assms(2) by (simp add: system_ok_def pair_ok_def)
  show ?thesis
    using assms(1)
  proof cases
    case (step_write c l t req)
    then show ?thesis using takeWrite_ok [OF ok] go by blast
  next
    case (step_read c l t req)
    then show ?thesis using takeRead_ok [OF ok] go by blast
  next
    case (step_try_write c l req)
    from takeWrite_ok [OF ok step_try_write(2) try_as_take(1) [OF step_try_write(3)], of req] step_try_write(1)
    show ?thesis using go by (simp add: turn_phase_def)
  next
    case (step_try_read c l)
    from takeRead_ok [OF ok step_try_read(2) try_as_take(2) [OF step_try_read(3)], of Plain] step_try_read(1)
    show ?thesis using go by (simp add: turn_phase_def owner_phase_def)
  next
    case (step_turn c w wr req)
    then show ?thesis using turn_ok [OF ok] go by blast
  next
    case (step_wait_ended c w wr req l got)
    show ?thesis
    proof (cases "w \<in> lk_ready (sy_lock s)")
      case True
      with step_wait_ended turn_ok [OF ok step_wait_ended(2) True] show ?thesis
        by (auto simp: waitEnded_def intro: go)
    next
      case False
      with step_wait_ended dequeue_ok [OF ok step_wait_ended(2) False] show ?thesis
        by (auto simp: waitEnded_def intro: go)
    qed
  next
    case (step_gate c gate repository l err)
    show ?thesis
    proof (cases err)
      case None
      with step_gate(3) have "l = sy_lock s" by (auto simp: passGate_def split: option.splits)
      with same_holder_ok [OF ok refl, where c = c and x = HoldWrite and g = "lk_generation (sy_lock s)" and i = "lk_incarnation (sy_lock s)"]
        step_gate None show ?thesis
        by (auto intro!: go)
    next
      case (Some e)
      with step_gate(3) have "releaseWriteLock (sy_lock s) = Some l"
        by (auto simp: passGate_def split: option.splits)
      with release_ok [OF ok, of c] step_gate Some show ?thesis by (auto intro!: go)
    qed
  next
    case (step_generation c)
    with same_holder_ok [OF ok refl, where c = c and x = Unlocking and g = "lk_generation (sy_lock s) + 1" and i = "lk_incarnation (sy_lock s)"]
    show ?thesis by (auto simp: advanceGeneration_def intro!: go)
  next
    case (step_unlock c l)
    with release_ok [OF ok, of c] show ?thesis by (auto intro!: go)
  next
    case (step_unlock_same_refs c l)
    with release_ok [OF ok, of c] show ?thesis by (auto intro!: go)
  next
    case (step_runlock c l)
    with RUnlock_ok [OF ok, of c] show ?thesis by (auto intro!: go)
  next
    case (step_incarnation c)
    with same_holder_ok [OF ok refl, where c = c and x = HoldWrite and g = "lk_generation (sy_lock s)" and i = "lk_incarnation (sy_lock s) + 1"]
    show ?thesis by (auto simp: AdvanceIncarnation_def intro!: go)
  qed
qed

lemma lock_init_ok: "lock_init s \<Longrightarrow> system_ok s"
  by (simp add: lock_init_def system_ok_def lock_ok_def half_ok_def no_lost_turn_def newLock_def
      waits_ok_def counts_ok_def holders_def)

interpretation repository_lock: inductive_invariant lock_init lock_step system_ok
  by unfold_locales (auto intro: lock_init_ok lock_step_ok)

end
