(* ===== verification/RepoLockProps.thy ===== *)
theory RepoLockProps
  imports RepoLock
begin

text \<open>
  What the repository lock promises in every reachable state of its callers: mutual exclusion,
  no lost turn, arrival order and the generation that cached ref snapshots rest on.
\<close>

definition holds_write :: "lockSystem \<Rightarrow> nat \<Rightarrow> bool" where
  "holds_write s c \<longleftrightarrow> has_write (lk_ready (sy_lock s)) (sy_callers s c)"

definition holds_read :: "lockSystem \<Rightarrow> nat \<Rightarrow> bool" where
  "holds_read s c \<longleftrightarrow> has_read (lk_ready (sy_lock s)) (sy_callers s c)"

abbreviation reachable_lock :: "lockSystem \<Rightarrow> bool" where
  "reachable_lock \<equiv> reach lock_init lock_step"

lemma reachable_pair: "reachable_lock s \<Longrightarrow> pair_ok (sy_lock s) (sy_callers s)"
  using repository_lock.reach_inv by (simp add: system_ok_def pair_ok_def)

lemma holders_pos:
  assumes "finite {c. ps c \<noteq> Idle}" and "\<not> P Idle"
  shows "holders P ps = 0 \<longleftrightarrow> (\<forall>c. \<not> P (ps c))"
proof -
  have "finite {c. P (ps c)}" by (rule finite_subset [OF _ assms(1)]) (use assms(2) in auto)
  then show ?thesis by (simp add: holders_def)
qed

lemma reachable_counts:
  assumes "reachable_lock s"
  shows "lk_readers (sy_lock s) = 0 \<longleftrightarrow> (\<forall>c. \<not> holds_read s c)"
    "\<not> lk_writing (sy_lock s) \<longleftrightarrow> (\<forall>c. \<not> holds_write s c)"
    "lk_waiters (sy_lock s) = 0 \<longleftrightarrow> (\<forall>c. \<not> is_waiting (sy_callers s c))"
    "0 \<le> lk_waiters (sy_lock s)"
proof -
  have c: "counts_ok (sy_lock s) (sy_callers s)"
    using reachable_pair [OF assms] by (simp add: pair_ok_def)
  then have fin: "finite {c. sy_callers s c \<noteq> Idle}" by (simp add: counts_ok_def)
  show "lk_readers (sy_lock s) = 0 \<longleftrightarrow> (\<forall>c. \<not> holds_read s c)"
    using c holders_pos [OF fin, of "has_read (lk_ready (sy_lock s))"]
    by (simp add: counts_ok_def holds_read_def)
  show "\<not> lk_writing (sy_lock s) \<longleftrightarrow> (\<forall>c. \<not> holds_write s c)"
    using c holders_pos [OF fin, of "has_write (lk_ready (sy_lock s))"]
    by (simp add: counts_ok_def holds_write_def of_bool_def split: if_splits)
  show "lk_waiters (sy_lock s) = 0 \<longleftrightarrow> (\<forall>c. \<not> is_waiting (sy_callers s c))" "0 \<le> lk_waiters (sy_lock s)"
    using c holders_pos [OF fin, of is_waiting] by (simp_all add: counts_ok_def)
qed

subsection \<open>Mutual exclusion\<close>

definition exclusive :: "lockSystem \<Rightarrow> bool" where
  "exclusive s \<longleftrightarrow> (\<forall>c d. holds_write s c \<and> (holds_write s d \<or> holds_read s d) \<longrightarrow> d = c)"

definition sample_system :: lockSystem where
  "sample_system = go 0 HoldWrite (newLock\<lparr>lk_writing := True\<rparr>) \<lparr>sy_lock = newLock, sy_callers = \<lambda>_. Idle\<rparr>"

lemma sample_reachable: "reachable_lock sample_system"
proof (rule reach_step [OF reach_init])
  let ?s = "\<lparr>sy_lock = newLock, sy_callers = \<lambda>_. Idle\<rparr>"
  show "lock_init ?s" by (simp add: lock_init_def)
  have "takeWrite (sy_lock ?s) = (newLock\<lparr>lk_writing := True\<rparr>, Taken)"
    by (simp add: takeWrite_def writeLockFree_def newLock_def)
  from step_write [OF _ this, of 0 Plain] show "lock_step ?s sample_system"
    by (simp add: sample_system_def turn_phase_def owner_phase_def)
qed

lemma lock_exclusive:
  assumes "reachable_lock s"
  shows "exclusive s"
  unfolding exclusive_def
proof (intro allI impI)
  fix c d assume h: "holds_write s c \<and> (holds_write s d \<or> holds_read s d)"
  have c: "counts_ok (sy_lock s) (sy_callers s)" and k: "half_ok (sy_lock s)"
    using reachable_pair [OF assms] by (simp_all add: pair_ok_def lock_ok_def)
  have wr: "lk_writing (sy_lock s)" using h reachable_counts(2) [OF assms] by auto
  then have "\<not> holds_read s d"
    using k reachable_counts(1) [OF assms] by (simp add: half_ok_def)
  then have d: "holds_write s d" using h by simp
  have "card {x. holds_write s x} = 1"
    using c wr by (simp add: counts_ok_def holders_def holds_write_def)
  then obtain x where "{x. holds_write s x} = {x}" by (auto simp: card_1_singleton_iff)
  with h d have "c \<in> {x}" "d \<in> {x}" by blast+
  then show "d = c" by simp
qed

text \<open>
  C35. Mutual exclusion of the repository lock, with every interleaving of the critical
  sections, contexts that end at any moment and gates that refuse: while one caller holds the
  write lock, no other caller holds the lock in any way.
\<close>
theorem lock_mutual_exclusion: "reachable_lock s \<Longrightarrow> exclusive s"
  by (rule lock_exclusive)

theorem lock_mutual_exclusion_witness: "exclusive sample_system"
  by (rule lock_mutual_exclusion [OF sample_reachable])

subsection \<open>No lost turn\<close>

definition unserved :: "lockSystem \<Rightarrow> nat \<Rightarrow> bool" where
  "unserved s c \<longleftrightarrow> (case sy_callers s c of WaitingFor w wr req \<Rightarrow> w \<notin> lk_ready (sy_lock s) | _ \<Rightarrow> False)"

definition no_lost_wakeup :: "lockSystem \<Rightarrow> bool" where
  "no_lost_wakeup s \<longleftrightarrow>
     (\<forall>c. unserved s c \<longrightarrow> (\<exists>d. holds_write s d \<or> holds_read s d)) \<and>
     (LockWaiting (sy_lock s) \<longleftrightarrow> (\<exists>c. is_waiting (sy_callers s c))) \<and>
     (\<forall>c. sy_callers s c \<in> {AtGate, HoldWrite, Unlocking} \<longrightarrow> releaseWriteLock (sy_lock s) \<noteq> None) \<and>
     (\<forall>c. sy_callers s c = HoldRead \<longrightarrow> RUnlock (sy_lock s) \<noteq> None)"

text \<open>
  C36. No turn is lost: whenever a caller waits for the lock, some caller holds it, so a release
  is still to come that hands the lock on; \<open>Waiting\<close> reports exactly whether a caller waits;
  and no release by a holder ever reaches the \<open>panic\<close> of an unlocked lock.
\<close>
theorem lock_no_lost_wakeup:
  assumes "reachable_lock s"
  shows "no_lost_wakeup s"
proof -
  let ?l = "sy_lock s" and ?ps = "sy_callers s"
  have k: "lock_ok ?l" "waits_ok ?l ?ps" and ok: "pair_ok ?l ?ps"
    using reachable_pair [OF assms] by (simp_all add: pair_ok_def)
  note n = reachable_counts [OF assms]
  have "\<exists>d. holds_write s d \<or> holds_read s d" if u: "unserved s c" for c
  proof -
    obtain w wr req where "?ps c = WaitingFor w wr req" "w \<notin> lk_ready ?l"
      using u by (auto simp: unserved_def split: phase.splits)
    then have "lk_queue ?l \<noteq> []" using k(2) unfolding waits_ok_def by (metis empty_iff empty_set)
    then have "lk_writing ?l \<or> lk_readers ?l > 0"
      using k(1) by (auto simp: lock_ok_def no_lost_turn_def)
    then show ?thesis using n(1,2) by auto
  qed
  moreover have "LockWaiting ?l \<longleftrightarrow> (\<exists>c. is_waiting (?ps c))"
    using n(3,4) by (auto simp: LockWaiting_def)
  moreover have "releaseWriteLock ?l \<noteq> None" if "?ps c \<in> {AtGate, HoldWrite, Unlocking}" for c
    using release_ok [OF ok, of c] that by auto
  moreover have "RUnlock ?l \<noteq> None" if "?ps c = HoldRead" for c
    using RUnlock_ok [OF ok that] by auto
  ultimately show ?thesis unfolding no_lost_wakeup_def by blast
qed

theorem lock_no_lost_wakeup_witness: "no_lost_wakeup sample_system"
  by (rule lock_no_lost_wakeup [OF sample_reachable])

subsection \<open>Generations\<close>

lemma dispatch_generation [simp]: "lk_generation (dispatchLocked l) = lk_generation l"
  by (cases "lk_writing l") (simp_all add: dispatch_spec Let_def)

lemma op_generation:
  "takeWrite l = (l', t) \<Longrightarrow> lk_generation l' = lk_generation l"
  "takeRead l = (l', t) \<Longrightarrow> lk_generation l' = lk_generation l"
  "TryLock l = (l', b) \<Longrightarrow> lk_generation l' = lk_generation l"
  "TryRLock l = (l', b) \<Longrightarrow> lk_generation l' = lk_generation l"
  "waitEnded w l = (l', b) \<Longrightarrow> lk_generation l' = lk_generation l"
  "releaseWriteLock l = Some l' \<Longrightarrow> lk_generation l' = lk_generation l"
  "RUnlock l = Some l' \<Longrightarrow> lk_generation l' = lk_generation l"
  "passGate gate r l = Some (l', e) \<Longrightarrow> lk_generation l' = lk_generation l"
  by (auto simp: takeWrite_def takeRead_def TryLock_def TryRLock_def waitEnded_def releaseWriteLock_def
      RUnlock_def passGate_def enqueueLocked_def turnArrived_def dequeueLocked_def
      split: if_splits option.splits)

lemma lock_step_generation:
  assumes "lock_step s t"
  shows "lk_generation (sy_lock t) = lk_generation (sy_lock s) \<or>
    (\<exists>c. sy_callers s c = HoldWrite \<and> sy_callers t c = Unlocking \<and>
      lk_generation (sy_lock t) = lk_generation (sy_lock s) + 1)"
  using assms
  by cases (auto simp: go_def op_generation turnArrived_def advanceGeneration_def AdvanceIncarnation_def)

text \<open>
  The generation is what cached ref snapshots rest on: it changes only by one, only in a
  step of the caller that holds the write lock, and never while any caller holds the read lock.
\<close>
theorem lock_generation_stable:
  assumes "reachable_lock s" and "lock_step s t"
    and "holds_read s c \<or> lk_generation (sy_lock t) \<noteq> lk_generation (sy_lock s) + 1"
  shows "lk_generation (sy_lock t) = lk_generation (sy_lock s)"
proof (rule ccontr)
  assume "lk_generation (sy_lock t) \<noteq> lk_generation (sy_lock s)"
  then obtain d where d: "sy_callers s d = HoldWrite" "lk_generation (sy_lock t) = lk_generation (sy_lock s) + 1"
    using lock_step_generation [OF assms(2)] by auto
  then have "holds_write s d" by (simp add: holds_write_def)
  moreover have "holds_read s c" using assms(3) d(2) by simp
  ultimately have "c = d" using lock_exclusive [OF assms(1)] by (auto simp: exclusive_def)
  with d(1) \<open>holds_read s c\<close> show False by (simp add: holds_read_def)
qed

definition sample_next :: lockSystem where
  "sample_next = go 1 (WaitingFor 0 False Plain) (fst (takeRead (sy_lock sample_system))) sample_system"

lemma sample_step: "lock_step sample_system sample_next"
proof -
  have "takeRead (sy_lock sample_system) = (fst (takeRead (sy_lock sample_system)), Queued 0)"
    by (simp add: sample_system_def go_def takeRead_def readLockFree_def enqueueLocked_def newLock_def)
  from step_read [OF _ this, of 1 Plain] show ?thesis
    by (simp add: sample_next_def turn_phase_def sample_system_def go_def)
qed

theorem lock_generation_stable_witness:
  "lk_generation (sy_lock sample_next) = lk_generation (sy_lock sample_system)"
  by (rule lock_generation_stable [OF sample_reachable sample_step])
    (simp add: sample_next_def sample_system_def go_def takeRead_def readLockFree_def enqueueLocked_def newLock_def)

subsection \<open>Arrival order\<close>

definition before :: "'a list \<Rightarrow> 'a \<Rightarrow> 'a \<Rightarrow> bool" where
  "before xs y x \<longleftrightarrow> (\<exists>a b. xs = a @ b \<and> y \<in> set a \<and> x \<in> set b)"

lemma before_insert: "before (a @ b) y x \<Longrightarrow> before (a @ q # b) y x"
  unfolding before_def
proof (elim exE conjE)
  fix u v assume "a @ b = u @ v" and m: "y \<in> set u" "x \<in> set v"
  then consider t where "u = a @ t" "b = t @ v" | t where "a = u @ t" "v = t @ b"
    by (auto simp: append_eq_append_conv2)
  then show "\<exists>u v. a @ q # b = u @ v \<and> y \<in> set u \<and> x \<in> set v"
  proof cases
    case (1 t)
    then show ?thesis using m by (intro exI [of _ "a @ q # t"] exI [of _ v]) auto
  next
    case (2 t)
    then show ?thesis using m by (intro exI [of _ u] exI [of _ "t @ q # b"]) auto
  qed
qed

lemma before_front:
  assumes "before (front @ x # behind) y x" and "distinct (front @ x # behind)"
  shows "y \<in> set front"
proof -
  obtain u v where uv: "front @ x # behind = u @ v" "y \<in> set u" "x \<in> set v"
    using assms(1) by (auto simp: before_def)
  then consider t where "u = front @ t" "x # behind = t @ v" | t where "front = u @ t"
    by (auto simp: append_eq_append_conv2)
  then show ?thesis
  proof cases
    case (1 t)
    then have "t = []" using assms(2) uv by (cases t) auto
    then show ?thesis using 1 uv(2) by simp
  qed (use uv in auto)
qed

definition takes_turn :: "lockSystem \<Rightarrow> lockSystem \<Rightarrow> nat \<Rightarrow> bool" where
  "takes_turn s t c \<longleftrightarrow> \<not> (holds_write s c \<or> holds_read s c) \<and> (holds_write t c \<or> holds_read t c)"

definition waits_as :: "lockSystem \<Rightarrow> nat \<Rightarrow> lockWaiter \<Rightarrow> bool" where
  "waits_as s c y \<longleftrightarrow> (\<exists>req. sy_callers s c = WaitingFor (w_id y) (w_write y) req)"

text \<open>A handing on grants waiters in their order, also when one of them just left the queue.\<close>

lemma dispatch_turn:
  assumes l1: "half_ok l1" "lk_ready l1 = lk_ready (sy_lock s)"
    and q1: "lk_queue l1 = lk_queue (sy_lock s) \<or>
      (\<exists>a q b. lk_queue (sy_lock s) = a @ q # b \<and> lk_queue l1 = a @ b)"
    and wo: "waits_ok (sy_lock s) (sy_callers s)" and ho: "half_ok (sy_lock s)"
    and t: "t = go e Idle l s" "lk_queue l = lk_queue (dispatchLocked l1)" "lk_ready l = lk_ready (dispatchLocked l1)"
    and q: "lk_queue (sy_lock s) = front @ x # behind" and x: "x \<in> set (lk_queue (sy_lock t))"
    and turn: "takes_turn s t c"
  shows "\<exists>y \<in> set front. waits_as s c y"
proof -
  obtain g where g: "grants g l1 (dispatchLocked l1)" using dispatch_ok [OF l1(1)] by blast
  have p: "sy_callers t c = sy_callers s c"
    using turn t(1) by (auto simp: takes_turn_def holds_write_def holds_read_def go_def split: if_splits)
  obtain w b req where w: "sy_callers s c = WaitingFor w b req" "w \<notin> lk_ready (sy_lock s)"
      "w \<in> lk_ready (dispatchLocked l1)"
  proof -
    have "has_write (lk_ready (dispatchLocked l1)) (sy_callers s c) \<or> has_read (lk_ready (dispatchLocked l1)) (sy_callers s c)"
      using turn p t(3) unfolding takes_turn_def holds_write_def holds_read_def by (simp add: t(1) go_def)
    moreover have "\<not> has_write (lk_ready (sy_lock s)) (sy_callers s c)" "\<not> has_read (lk_ready (sy_lock s)) (sy_callers s c)"
      using turn unfolding takes_turn_def holds_write_def holds_read_def by simp_all
    ultimately show thesis by (cases "sy_callers s c") (auto intro: that)
  qed
  moreover have G: "lk_queue l1 = g @ lk_queue (dispatchLocked l1)"
      "lk_ready (dispatchLocked l1) = lk_ready l1 \<union> w_id ` set g"
    using g by (simp_all only: grants_def)
  ultimately obtain y where y: "y \<in> set g" "w_id y = w" using l1(2) by blast
  have "y \<in> set (lk_queue l1)" using G(1) y(1) by (metis Un_iff set_append)
  then have ys: "y \<in> set (lk_queue (sy_lock s))" using q1 by auto
  then obtain d r where d: "sy_callers s d = WaitingFor (w_id y) (w_write y) r"
    using wo unfolding waits_ok_def by blast
  then have "d = c" using wo w(1) y(2) unfolding waits_ok_def by blast
  with d have "waits_as s c y" by (auto simp: waits_as_def)
  moreover have "before (lk_queue l1) y x"
  proof -
    have "x \<in> set (lk_queue (dispatchLocked l1))" using x t(2) by (simp add: t(1) go_def)
    with G(1) y(1) show ?thesis unfolding before_def by blast
  qed
  then have "before (front @ x # behind) y x"
    using q1 before_insert unfolding q by (metis q)
  then have "y \<in> set front"
    by (rule before_front) (use ho in \<open>simp add: half_ok_def distinct_map flip: q\<close>)
  ultimately show ?thesis by blast
qed

lemma dequeue_split:
  assumes "pair_ok l ps" and "ps c = WaitingFor w wr req" and "w \<notin> lk_ready l"
  obtains l1 a p b where "lk_queue l = a @ p # b" "dequeueLocked w l = dispatchLocked l1"
    "lk_queue l1 = a @ b" "lk_ready l1 = lk_ready l" "half_ok l1"
proof -
  have h: "half_ok l" and mem: "\<lparr>w_id = w, w_write = wr\<rparr> \<in> set (lk_queue l)"
    using assms unfolding pair_ok_def lock_ok_def waits_ok_def by blast+
  obtain a p b where ex: "List.extract (\<lambda>q. w_id q = w) (lk_queue l) = Some (a, p, b)"
    using mem extract_None_iff [of "\<lambda>q. w_id q = w" "lk_queue l"]
    by (cases "List.extract (\<lambda>q. w_id q = w) (lk_queue l)") auto
  then have Q: "lk_queue l = a @ p # b" by (auto simp: extract_Some_iff)
  let ?l = "l\<lparr>lk_queue := a @ b, lk_writersWaiting :=
    (if w_write p then lk_writersWaiting l - 1 else lk_writersWaiting l)\<rparr>"
  have "dequeueLocked w l = dispatchLocked ?l" by (simp add: dequeueLocked_def ex)
  moreover have "half_ok ?l" using h by (auto simp: half_ok_def Q)
  ultimately show thesis by (intro that [OF Q, of ?l]) simp_all
qed

lemma direct_turn_needs_no_queue:
  assumes "lock_ok l"
  shows "takeWrite l = (l', Taken) \<Longrightarrow> lk_queue l = []" "takeRead l = (l', Taken) \<Longrightarrow> lk_queue l = []"
proof -
  show "takeWrite l = (l', Taken) \<Longrightarrow> lk_queue l = []"
    by (auto simp: takeWrite_def writeLockFree_def enqueueLocked_def split: if_splits)
  assume "takeRead l = (l', Taken)"
  then have f: "\<not> lk_writing l" "filter w_write (lk_queue l) = []"
    using assms by (auto simp: takeRead_def readLockFree_def enqueueLocked_def lock_ok_def half_ok_def split: if_splits)
  then show "lk_queue l = []"
    using assms by (cases "lk_queue l") (auto simp: lock_ok_def no_lost_turn_def split: if_splits)
qed

lemma own_turn_only:
  assumes "takes_turn s (go e p l s) c" and "lk_ready l = lk_ready (sy_lock s)"
  shows "c = e \<and> (has_write (lk_ready l) p \<or> has_read (lk_ready l) p)"
  using assms by (auto simp: takes_turn_def holds_write_def holds_read_def go_def split: if_splits)

text \<open>Steps that ask for the lock or take it at once give no turn past a queue.\<close>

lemma queued_no_turn:
  assumes "half_ok (sy_lock s)" and "takes_turn s t c"
    and "enqueueLocked wr (sy_lock s) = (l, w)" and "t = go e (WaitingFor w wr req) l s"
  shows False
proof -
  have "w = lk_next (sy_lock s)" "lk_ready l = lk_ready (sy_lock s)" using assms(3) by (auto simp: enqueueLocked_def)
  moreover have "lk_next (sy_lock s) \<notin> lk_ready (sy_lock s)" using assms(1) by (auto simp: half_ok_def)
  ultimately show False
    using own_turn_only [of s e "WaitingFor w wr req" l c] assms(2) unfolding assms(4) by simp
qed

lemma ask_no_turn:
  assumes ok: "lock_ok (sy_lock s)" and ne: "lk_queue (sy_lock s) \<noteq> []" and turn: "takes_turn s t c"
    and ask: "takeWrite (sy_lock s) = (l, t') \<and> wr \<or> takeRead (sy_lock s) = (l, t') \<and> \<not> wr"
    and t: "t = go e (turn_phase wr req t') l s"
  shows False
proof -
  have half: "half_ok (sy_lock s)" using ok by (simp add: lock_ok_def)
  have "\<exists>w. t' = Queued w \<and> enqueueLocked wr (sy_lock s) = (l, w)"
  proof (cases wr)
    case True
    then have "takeWrite (sy_lock s) = (l, t')" "\<not> writeLockFree (sy_lock s)" using ask ne by (simp_all add: writeLockFree_def)
    with True show ?thesis by (auto simp: takeWrite_def enqueueLocked_def)
  next
    case False
    then have "takeRead (sy_lock s) = (l, t')" using ask by simp
    moreover have "\<not> readLockFree (sy_lock s)"
      using direct_turn_needs_no_queue(2) [OF ok] ne by (auto simp: takeRead_def)
    ultimately show ?thesis using False by (auto simp: takeRead_def enqueueLocked_def)
  qed
  then obtain w where "t' = Queued w" "enqueueLocked wr (sy_lock s) = (l, w)" by blast
  then show False using queued_no_turn [OF half turn, of wr l w e req] t by (simp add: turn_phase_def)
qed

lemma try_no_turn:
  assumes "lock_ok (sy_lock s)" and "lk_queue (sy_lock s) \<noteq> []"
  shows "TryLock (sy_lock s) \<noteq> (l, True)" "TryRLock (sy_lock s) \<noteq> (l, True)"
  using direct_turn_needs_no_queue [OF assms(1)] assms(2) try_as_take by blast+

text \<open>Steps that hand the lock on.\<close>

lemma release_turn:
  assumes "pair_ok (sy_lock s) (sy_callers s)" and "releaseWriteLock (sy_lock s) = Some l" and "t = go e Idle l s"
    and "lk_queue (sy_lock s) = front @ x # behind" and "x \<in> set (lk_queue (sy_lock t))" and "takes_turn s t c"
  shows "\<exists>y \<in> set front. waits_as s c y"
proof -
  have ok: "half_ok (sy_lock s)" "waits_ok (sy_lock s) (sy_callers s)" using assms(1) by (simp_all add: pair_ok_def lock_ok_def)
  have "l = dispatchLocked ((sy_lock s)\<lparr>lk_writing := False\<rparr>)"
    using assms(2) by (auto simp: releaseWriteLock_def split: if_splits)
  moreover have "half_ok ((sy_lock s)\<lparr>lk_writing := False\<rparr>)" using ok(1) by (auto simp: half_ok_def)
  ultimately show ?thesis
    using dispatch_turn [OF _ _ _ ok(2,1) assms(3) _ _ assms(4-6)] by simp
qed

lemma runlock_turn:
  assumes "pair_ok (sy_lock s) (sy_callers s)" and "RUnlock (sy_lock s) = Some l" and "t = go e Idle l s"
    and "lk_queue (sy_lock s) = front @ x # behind" and "x \<in> set (lk_queue (sy_lock t))" and "takes_turn s t c"
  shows "\<exists>y \<in> set front. waits_as s c y"
proof -
  let ?l = "(sy_lock s)\<lparr>lk_readers := lk_readers (sy_lock s) - 1\<rparr>"
  have ok: "half_ok (sy_lock s)" "waits_ok (sy_lock s) (sy_callers s)" using assms(1) by (simp_all add: pair_ok_def lock_ok_def)
  have "l = dispatchLocked ?l" using assms(2) by (auto simp: RUnlock_def split: if_splits)
  moreover have "half_ok ?l" using ok(1) by (auto simp: half_ok_def)
  ultimately show ?thesis
    using dispatch_turn [OF _ _ _ ok(2,1) assms(3) _ _ assms(4-6)] by simp
qed

lemma ended_turn:
  assumes pair: "pair_ok (sy_lock s) (sy_callers s)" and e: "sy_callers s e = WaitingFor w wr req"
    and ended: "waitEnded w (sy_lock s) = (l, got)" and t: "t = go e (if got then owner_phase wr req else Idle) l s"
    and q: "lk_queue (sy_lock s) = front @ x # behind" and x: "x \<in> set (lk_queue (sy_lock t))" and turn: "takes_turn s t c"
  shows "\<exists>y \<in> set front. waits_as s c y"
proof (cases "w \<in> lk_ready (sy_lock s)")
  case True
  with e ended t own_turn_only [of s e "owner_phase wr req" "turnArrived (sy_lock s)" c] turn show ?thesis
    by (auto simp: waitEnded_def turnArrived_def takes_turn_def holds_write_def holds_read_def)
next
  case False
  have ok: "half_ok (sy_lock s)" "waits_ok (sy_lock s) (sy_callers s)" using pair by (simp_all add: pair_ok_def lock_ok_def)
  obtain l1 a p b where d: "lk_queue (sy_lock s) = a @ p # b" "dequeueLocked w (sy_lock s) = dispatchLocked l1"
      "lk_queue l1 = a @ b" "lk_ready l1 = lk_ready (sy_lock s)" "half_ok l1"
    by (rule dequeue_split [OF pair e False])
  then have l: "l = turnArrived (dispatchLocked l1)" "t = go e Idle l s"
    using ended t False by (auto simp: waitEnded_def)
  show ?thesis
    by (rule dispatch_turn [OF d(5,4) _ ok(2,1) l(2) _ _ q x turn])
      (use d l(1) in \<open>auto simp: turnArrived_def\<close>)
qed

text \<open>
  C37. Turns are handed out in arrival order: when a caller gets the lock in some step while the
  waiter \<open>x\<close> stays in the queue, that caller was itself waiting ahead of \<open>x\<close>. So nobody who
  arrives later overtakes a waiter, and a queued writer cannot starve behind new readers.
\<close>
theorem lock_no_overtaking:
  assumes r: "reachable_lock s" and st: "lock_step s t"
    and q: "lk_queue (sy_lock s) = front @ x # behind" and x: "x \<in> set (lk_queue (sy_lock t))"
    and turn: "takes_turn s t c"
  shows "\<exists>y \<in> set front. waits_as s c y"
proof -
  have pair: "pair_ok (sy_lock s) (sy_callers s)" and ok: "lock_ok (sy_lock s)"
    using reachable_pair [OF r] by (simp_all add: pair_ok_def)
  have ne: "lk_queue (sy_lock s) \<noteq> []" using q by simp
  note own = own_turn_only [of s _ _ _ c] and turn_defs = takes_turn_def holds_write_def holds_read_def
  note release = release_turn [OF pair _ _ q x turn]
  from st show ?thesis
  proof cases
    case (step_write e l t' req)
    then show ?thesis using ask_no_turn [OF ok ne turn, of l t' True e req] by simp
  next
    case (step_read e l t' req)
    then show ?thesis using ask_no_turn [OF ok ne turn, of l t' False e req] by simp
  next
    case (step_turn e w wr req)
    with own [of e "owner_phase wr req" "turnArrived (sy_lock s)"] turn show ?thesis by (auto simp: turnArrived_def turn_defs)
  next
    case (step_wait_ended e w wr req l got)
    then show ?thesis using ended_turn [OF pair _ _ _ q x turn] by blast
  next
    case (step_gate e gate repository l err)
    with own [of e HoldWrite "sy_lock s"] turn show ?thesis
      by (cases err) (auto simp: passGate_def turn_defs intro: release split: option.splits)
  next
    case (step_generation e)
    with own [of e Unlocking "advanceGeneration (sy_lock s)"] turn show ?thesis by (auto simp: advanceGeneration_def turn_defs)
  next
    case (step_runlock e l)
    then show ?thesis using runlock_turn [OF pair _ _ q x turn] by blast
  next
    case (step_incarnation e)
    with own [of e HoldWrite "AdvanceIncarnation (sy_lock s)"] turn show ?thesis by (auto simp: AdvanceIncarnation_def turn_defs)
  qed (use try_no_turn [OF ok ne] release in blast)+
qed

definition queue_system :: lockSystem where
  "queue_system =
     (let s1 = go 1 (WaitingFor 0 True Gated) (fst (takeWrite (sy_lock sample_system))) sample_system
      in go 2 (WaitingFor 1 True Gated) (fst (takeWrite (sy_lock s1))) s1)"

definition queue_released :: lockSystem where
  "queue_released = go 0 Idle (dispatchLocked ((sy_lock queue_system)\<lparr>lk_writing := False\<rparr>)) queue_system"

lemma queue_lock: "sy_lock queue_system = \<lparr>lk_readers = 0, lk_writing = True, lk_writersWaiting = 2,
    lk_queue = [\<lparr>w_id = 0, w_write = True\<rparr>, \<lparr>w_id = 1, w_write = True\<rparr>], lk_generation = 0,
    lk_incarnation = 0, lk_waiters = 2, lk_ready = {}, lk_next = 2\<rparr>"
  by (simp add: queue_system_def sample_system_def go_def takeWrite_def writeLockFree_def
      enqueueLocked_def newLock_def Let_def)

lemma queue_reachable: "reachable_lock queue_system"
proof -
  let ?s1 = "go 1 (WaitingFor 0 True Gated) (fst (takeWrite (sy_lock sample_system))) sample_system"
  have "takeWrite (sy_lock sample_system) = (fst (takeWrite (sy_lock sample_system)), Queued 0)"
    "takeWrite (sy_lock ?s1) = (fst (takeWrite (sy_lock ?s1)), Queued 1)"
    by (simp_all add: sample_system_def go_def takeWrite_def writeLockFree_def enqueueLocked_def newLock_def)
  note t = this
  have "lock_step sample_system ?s1"
    using step_write [OF _ t(1), of 1 Gated] by (simp add: turn_phase_def sample_system_def go_def)
  moreover have "lock_step ?s1 queue_system"
    using step_write [OF _ t(2), of 2 Gated]
    by (simp add: turn_phase_def sample_system_def go_def queue_system_def Let_def)
  ultimately show ?thesis using sample_reachable by (blast intro: reach_step)
qed

lemma queue_step: "lock_step queue_system queue_released"
proof -
  have "sy_callers queue_system 0 = HoldWrite"
    by (simp add: queue_system_def sample_system_def go_def Let_def)
  moreover have "releaseWriteLock (sy_lock queue_system)
      = Some (dispatchLocked ((sy_lock queue_system)\<lparr>lk_writing := False\<rparr>))"
    by (simp add: releaseWriteLock_def queue_lock)
  ultimately show ?thesis unfolding queue_released_def by (rule step_unlock_same_refs)
qed

lemma queue_released_lock: "lk_ready (sy_lock queue_released) = {0}"
    "lk_queue (sy_lock queue_released) = [\<lparr>w_id = 1, w_write = True\<rparr>]"
  by (simp_all add: queue_released_def go_def queue_lock dispatch_spec Let_def)

theorem lock_no_overtaking_witness:
  "\<exists>y \<in> set [\<lparr>w_id = 0, w_write = True\<rparr>]. waits_as queue_system 1 y"
proof (rule lock_no_overtaking [OF queue_reachable queue_step, where x = "\<lparr>w_id = 1, w_write = True\<rparr>" and behind = "[]"])
  have "sy_callers queue_system 1 = WaitingFor 0 True Gated"
    by (simp add: queue_system_def sample_system_def go_def Let_def)
  then show "takes_turn queue_system queue_released 1"
    by (simp add: takes_turn_def holds_write_def holds_read_def queue_lock queue_released_lock)
      (simp add: queue_released_def go_def)
qed (simp_all add: queue_lock queue_released_lock)

end
