(* ===== verification/Outcome.thy ===== *)
theory Outcome
  imports Prelude "HOL-Library.Multiset"
begin

text \<open>
  How results are combined (\<open>internal/actions/outcome.go\<close>): the conclusion of a step, the
  status of one attempt from its steps, the result a dependent job sees, and the conclusions
  of a run and of a revision. Statuses, roles and results are strings, as in the code, whose
  functions answer for every string.
\<close>

named_theorems status_defs \<open>the strings of statuses, roles and results\<close>

definition StatusPending :: bytes where [status_defs]: "StatusPending = ''pending''"
definition StatusWaiting :: bytes where [status_defs]: "StatusWaiting = ''waiting''"
definition StatusClaimed :: bytes where [status_defs]: "StatusClaimed = ''claimed''"
definition StatusStarted :: bytes where [status_defs]: "StatusStarted = ''started''"
definition StatusPassed :: bytes where [status_defs]: "StatusPassed = ''passed''"
definition StatusFailed :: bytes where [status_defs]: "StatusFailed = ''failed''"
definition StatusError :: bytes where [status_defs]: "StatusError = ''error''"
definition StatusIncomplete :: bytes where [status_defs]: "StatusIncomplete = ''incomplete''"
definition StatusUnavailable :: bytes where [status_defs]: "StatusUnavailable = ''unavailable''"
definition StatusCancelled :: bytes where [status_defs]: "StatusCancelled = ''cancelled''"
definition StatusInterrupted :: bytes where [status_defs]: "StatusInterrupted = ''interrupted''"
definition StatusAmbiguous :: bytes where [status_defs]: "StatusAmbiguous = ''ambiguous''"
definition StatusSkipped :: bytes where [status_defs]: "StatusSkipped = ''skipped''"
definition StatusNotRun :: bytes where [status_defs]: "StatusNotRun = ''not_run''"
definition StatusRefused :: bytes where [status_defs]: "StatusRefused = ''refused''"
definition StatusPartial :: bytes where [status_defs]: "StatusPartial = ''partial''"
definition StatusRunning :: bytes where [status_defs]: "StatusRunning = ''running''"
definition StatusQueued :: bytes where [status_defs]: "StatusQueued = ''queued''"

definition RoleRun :: bytes where [status_defs]: "RoleRun = ''run''"
definition RoleTolerated :: bytes where [status_defs]: "RoleTolerated = ''tolerated''"
definition RoleBuiltin :: bytes where [status_defs]: "RoleBuiltin = ''builtin''"

definition ResultSuccess :: bytes where [status_defs]: "ResultSuccess = ''success''"
definition ResultFailure :: bytes where [status_defs]: "ResultFailure = ''failure''"
definition ResultCancelled :: bytes where [status_defs]: "ResultCancelled = ''cancelled''"
definition ResultSkipped :: bytes where [status_defs]: "ResultSkipped = ''skipped''"

record StepEvidence =
  se_Status :: bytes
  se_Role :: bytes
  se_CleanupError :: bytes

record JobEvidence =
  je_JobKey :: bytes
  je_MatrixIndex :: int
  je_Tolerated :: bool
  je_Status :: bytes

record RunEvidence =
  re_Outcome :: bytes
  re_RefusedJobs :: "(bytes \<times> int) list"
  re_Jobs :: "JobEvidence list"

subsection \<open>Steps\<close>

definition known_role :: "bytes \<Rightarrow> bool" where
  "known_role r \<longleftrightarrow> r = RoleRun \<or> r = RoleTolerated \<or> r = RoleBuiltin"

definition StepConclusion :: "StepEvidence \<Rightarrow> bytes" where
  "StepConclusion r =
     (if se_CleanupError r \<noteq> [] then ResultFailure
      else if \<not> known_role (se_Role r) then ResultFailure
      else if se_Status r = StatusPassed then ResultSuccess
      else if se_Status r = StatusSkipped \<or> se_Status r = StatusNotRun then ResultSkipped
      else if se_Status r = StatusCancelled then ResultCancelled
      else if se_Status r \<in> {StatusFailed, StatusError, StatusIncomplete, StatusUnavailable}
        \<and> se_Role r = RoleTolerated then ResultSuccess
      else ResultFailure)"

definition rank :: "bytes \<Rightarrow> nat option" where
  "rank = [StatusError \<mapsto> 0, StatusCancelled \<mapsto> 1, StatusFailed \<mapsto> 2, StatusUnavailable \<mapsto> 3,
     StatusIncomplete \<mapsto> 4, StatusPassed \<mapsto> 5]"

definition rank_of :: "bytes \<Rightarrow> nat" where
  "rank_of s = (case rank s of None \<Rightarrow> 0 | Some n \<Rightarrow> n)"

text \<open>The loop of \<open>AggregateAttemptStatus\<close>; \<open>None\<close> is its early return of \<open>StatusError\<close>.\<close>

fun aggregate_loop :: "bytes \<Rightarrow> StepEvidence list \<Rightarrow> bytes option" where
  "aggregate_loop status [] = Some status"
| "aggregate_loop status (r # rs) =
     (if se_CleanupError r \<noteq> [] then None
      else if \<not> known_role (se_Role r) then None
      else if se_Status r = StatusSkipped \<or> se_Status r = StatusNotRun then aggregate_loop status rs
      else case rank (se_Status r) of
        None \<Rightarrow> None
      | Some value \<Rightarrow>
          if se_Role r = RoleBuiltin then aggregate_loop status rs
          else
            let (effective, value') =
              (if se_Role r = RoleTolerated \<and> se_Status r \<noteq> StatusCancelled
               then (StatusPassed, rank_of StatusPassed) else (se_Status r, value))
            in aggregate_loop (if status = StatusSkipped \<or> value' < rank_of status then effective else status) rs)"

definition AggregateAttemptStatus :: "StepEvidence list \<Rightarrow> bool \<Rightarrow> bytes" where
  "AggregateAttemptStatus results cancelled =
     (case aggregate_loop StatusSkipped results of
       None \<Rightarrow> StatusError
     | Some status \<Rightarrow> if cancelled \<and> status \<noteq> StatusError then StatusCancelled else status)"

subsection \<open>Jobs, runs and revisions\<close>

definition NeedsResult :: "bytes \<Rightarrow> bool \<Rightarrow> bytes" where
  "NeedsResult status tolerated =
     (if status = StatusPassed then ResultSuccess
      else if status = StatusFailed then (if tolerated then ResultSuccess else ResultFailure)
      else if status = StatusCancelled then ResultCancelled
      else if status = StatusSkipped then ResultSkipped
      else ResultFailure)"

definition FailFastFailure :: "bytes \<Rightarrow> bool \<Rightarrow> bool" where
  "FailFastFailure status tolerated \<longleftrightarrow>
     status \<in> {StatusFailed, StatusError, StatusIncomplete, StatusUnavailable}
     \<and> NeedsResult status tolerated = ResultFailure"

fun firstConclusion :: "bytes list \<Rightarrow> bytes list \<Rightarrow> bytes \<Rightarrow> bytes" where
  "firstConclusion conclusions [] fallback = fallback"
| "firstConclusion conclusions (candidate # order) fallback =
     (if candidate \<in> set conclusions then candidate else firstConclusion conclusions order fallback)"

definition job_conclusion :: "JobEvidence \<Rightarrow> bytes" where
  "job_conclusion j =
     (if je_Status j = StatusPending \<or> je_Status j = StatusWaiting then StatusQueued
      else if je_Status j = StatusClaimed \<or> je_Status j = StatusStarted then StatusRunning
      else if je_Status j = StatusFailed then (if je_Tolerated j then StatusPassed else StatusFailed)
      else if je_Status j \<in> {StatusPassed, StatusCancelled, StatusSkipped} then je_Status j
      else StatusIncomplete)"

definition run_order :: "bytes list" where
  "run_order = [StatusRunning, StatusQueued, StatusFailed, StatusIncomplete, StatusCancelled,
     StatusPartial, StatusPassed]"

definition RunConclusion :: "RunEvidence \<Rightarrow> bytes" where
  "RunConclusion run =
     (if re_Outcome run \<noteq> [] then
        (if re_Jobs run = [] \<and> (re_Outcome run = StatusRefused \<or> re_Outcome run = StatusNotRun)
         then re_Outcome run else StatusIncomplete)
      else if re_Jobs run = [] \<and> re_RefusedJobs run \<noteq> [] then StatusRefused
      else firstConclusion
        (map job_conclusion (re_Jobs run) @ (if re_RefusedJobs run \<noteq> [] then [StatusPartial] else []))
        run_order StatusSkipped)"

definition revision_order :: "bytes list" where
  "revision_order = [StatusFailed, StatusIncomplete, StatusCancelled, StatusRunning, StatusQueued,
     StatusNotRun, StatusPartial, StatusPassed]"

definition normal_conclusion :: "bytes \<Rightarrow> bytes" where
  "normal_conclusion c =
     (if c \<in> {StatusFailed, StatusIncomplete, StatusCancelled, StatusRunning, StatusQueued, StatusNotRun,
         StatusPartial, StatusPassed, StatusSkipped, StatusRefused}
      then c else StatusIncomplete)"

definition RevisionConclusion :: "bytes list \<Rightarrow> bytes" where
  "RevisionConclusion conclusions =
     (if conclusions = [] then []
      else firstConclusion (map normal_conclusion conclusions) revision_order StatusSkipped)"

subsection \<open>The attempt as a whole\<close>

text \<open>
  A step that makes the attempt an error whatever else happened, and what another step
  contributes: nothing, or a status in the order of severity.
\<close>

definition broken :: "StepEvidence \<Rightarrow> bool" where
  "broken r \<longleftrightarrow> se_CleanupError r \<noteq> [] \<or> \<not> known_role (se_Role r) \<or>
     (se_Status r \<notin> {StatusSkipped, StatusNotRun} \<and> rank (se_Status r) = None)"

definition contribution :: "StepEvidence \<Rightarrow> bytes option" where
  "contribution r =
     (if se_Status r \<in> {StatusSkipped, StatusNotRun} \<or> se_Role r = RoleBuiltin then None
      else if se_Role r = RoleTolerated \<and> se_Status r \<noteq> StatusCancelled then Some StatusPassed
      else Some (se_Status r))"

definition severity :: "bytes list" where
  "severity = [StatusError, StatusCancelled, StatusFailed, StatusUnavailable, StatusIncomplete, StatusPassed]"

definition contributions :: "StepEvidence list \<Rightarrow> bytes list" where
  "contributions rs = List.map_filter contribution rs"

definition worst :: "bytes list \<Rightarrow> bytes" where
  "worst cs = firstConclusion cs severity StatusSkipped"

definition attempt_spec :: "StepEvidence list \<Rightarrow> bool \<Rightarrow> bytes" where
  "attempt_spec rs cancelled =
     (if \<exists>r \<in> set rs. broken r then StatusError
      else if cancelled \<and> worst (contributions rs) \<noteq> StatusError then StatusCancelled
      else worst (contributions rs))"

lemma firstConclusion_set: "set xs = set ys \<Longrightarrow> firstConclusion xs ord fb = firstConclusion ys ord fb"
  by (induction ord) auto

lemma rank_simps [simp]:
  "rank StatusError = Some 0" "rank StatusCancelled = Some 1" "rank StatusFailed = Some 2"
  "rank StatusUnavailable = Some 3" "rank StatusIncomplete = Some 4" "rank StatusPassed = Some 5"
  "rank StatusSkipped = None" "rank StatusNotRun = None"
  by (simp_all add: rank_def status_defs)

lemma rank_iff: "(\<exists>n. rank s = Some n) \<longleftrightarrow> s \<in> set severity"
  by (auto simp: rank_def severity_def)

definition position :: "bytes list \<Rightarrow> bytes \<Rightarrow> nat" where
  "position ord x = length (takeWhile (\<lambda>y. y \<noteq> x) ord)"

lemma firstConclusion_absorb:
  "a \<in> set ord \<Longrightarrow> position ord a \<le> position ord b \<Longrightarrow>
   firstConclusion (a # b # cs) ord fb = firstConclusion (a # cs) ord fb"
  by (induction ord) (auto simp: position_def split: if_splits)

lemma firstConclusion_absent:
  "a \<notin> set ord \<Longrightarrow> firstConclusion (a # cs) ord fb = firstConclusion cs ord fb"
  by (induction ord) auto

lemma firstConclusion_swap: "firstConclusion (a # b # cs) ord fb = firstConclusion (b # a # cs) ord fb"
  by (rule firstConclusion_set) auto

lemma rank_position: "s \<in> set severity \<Longrightarrow> rank_of s = position severity s"
  by (auto simp: severity_def position_def rank_of_def rank_def status_defs)

lemma skipped_no_severity [simp]: "StatusSkipped \<notin> set severity" "StatusNotRun \<notin> set severity"
  by (simp_all add: severity_def status_defs)

lemma worst_Cons2:
  assumes "a \<in> insert StatusSkipped (set severity)" and "b \<in> set severity"
  shows "worst (a # b # cs) = worst ((if a = StatusSkipped \<or> rank_of b < rank_of a then b else a) # cs)"
proof (cases "a = StatusSkipped")
  case True
  then show ?thesis by (simp add: worst_def firstConclusion_absent)
next
  case False
  with assms(1) have a: "a \<in> set severity" by simp
  show ?thesis
  proof (cases "rank_of b < rank_of a")
    case True
    then have "worst (b # a # cs) = worst (b # cs)"
      unfolding worst_def using a assms(2) by (intro firstConclusion_absorb) (simp_all add: rank_position)
    then show ?thesis using True by (simp add: worst_def firstConclusion_swap [of a])
  next
    case c: False
    then have "worst (a # b # cs) = worst (a # cs)"
      unfolding worst_def using a assms(2) by (intro firstConclusion_absorb) (simp_all add: rank_position)
    then show ?thesis using c False by simp
  qed
qed

lemma passed_severity: "StatusPassed \<in> set severity" by (simp add: severity_def)

lemma aggregate_loop_worst:
  "status \<in> insert StatusSkipped (set severity) \<Longrightarrow>
   aggregate_loop status rs =
     (if \<exists>r \<in> set rs. broken r then None else Some (worst (status # contributions rs)))"
proof (induction rs arbitrary: status)
  case Nil
  have "worst [status] = status"
  proof (cases "status = StatusSkipped")
    case True
    then show ?thesis by (simp add: worst_def firstConclusion_absent) (simp add: severity_def)
  next
    case False
    with Nil have "status \<in> set severity" by simp
    moreover have "firstConclusion [s] ord fb = s" if "s \<in> set ord" for s ord fb
      using that by (induction ord) auto
    ultimately show ?thesis by (simp add: worst_def)
  qed
  then show ?case by (simp add: contributions_def)
next
  case (Cons r rs)
  show ?case
  proof (cases "broken r")
    case True
    then have "aggregate_loop status (r # rs) = None" by (simp add: broken_def)
    with True show ?thesis by simp
  next
    case nb: False
    show ?thesis
    proof (cases "contribution r")
      case None
      then have "se_Status r = StatusSkipped \<or> se_Status r = StatusNotRun \<or> se_Role r = RoleBuiltin"
        by (simp add: contribution_def split: if_splits)
      moreover have "contributions (r # rs) = contributions rs"
        by (simp add: contributions_def List.map_filter_def None)
      moreover have "se_CleanupError r = []" "known_role (se_Role r)"
        "se_Status r = StatusSkipped \<or> se_Status r = StatusNotRun \<or> rank (se_Status r) \<noteq> None"
        using nb by (auto simp: broken_def)
      ultimately show ?thesis using Cons.IH [OF Cons.prems] nb by auto
    next
      case (Some e)
      then have e: "contribution r = Some e" "\<not> broken r" using nb by simp_all
    then have ok: "se_CleanupError r = []" "known_role (se_Role r)" "se_Status r \<noteq> StatusSkipped"
      "se_Status r \<noteq> StatusNotRun" "se_Role r \<noteq> RoleBuiltin" "rank (se_Status r) \<noteq> None"
      by (auto simp: broken_def contribution_def split: if_splits)
    then obtain v where v: "rank (se_Status r) = Some v" by auto
    have es: "e \<in> set severity"
      using e(1) rank_iff [of "se_Status r"] v passed_severity
      by (auto simp: contribution_def split: if_splits)
    let ?s = "if status = StatusSkipped \<or> rank_of e < rank_of status then e else status"
    have "aggregate_loop status (r # rs) = aggregate_loop ?s rs"
      using e(1) ok v by (auto simp: contribution_def rank_of_def split: if_splits)
    moreover have "?s \<in> insert StatusSkipped (set severity)" using es Cons.prems by auto
    ultimately have "aggregate_loop status (r # rs) =
        (if \<exists>r \<in> set rs. broken r then None else Some (worst (?s # contributions rs)))"
      using Cons.IH by simp
    also have "worst (?s # contributions rs) = worst (status # e # contributions rs)"
      by (rule worst_Cons2 [OF Cons.prems es, symmetric])
    finally show ?thesis using e by (simp add: contributions_def List.map_filter_def)
    qed
  qed
qed

text \<open>
  The status of an attempt is the most severe contribution of its steps, in the order error,
  cancelled, failed, unavailable, incomplete, passed, and skipped when no step contributed; a
  cleanup failure, an unknown role or an unknown status makes it an error whatever else
  happened, and a cancelled attempt is cancelled unless it is an error. So the order of the
  steps never matters.
\<close>
theorem AggregateAttemptStatus_spec:
  "AggregateAttemptStatus results cancelled = attempt_spec results cancelled"
  using aggregate_loop_worst [of StatusSkipped results]
  by (simp add: AggregateAttemptStatus_def attempt_spec_def worst_def firstConclusion_absent)

subsection \<open>Runs and revisions\<close>

definition accepted_job :: "JobEvidence \<Rightarrow> bool" where
  "accepted_job j \<longleftrightarrow> je_Status j = StatusPassed \<or> (je_Status j = StatusFailed \<and> je_Tolerated j)"

lemma firstConclusion_last:
  "c \<notin> set ord \<Longrightarrow> c \<noteq> fb \<Longrightarrow>
   firstConclusion cs (ord @ [c]) fb = c \<longleftrightarrow> c \<in> set cs \<and> set ord \<inter> set cs = {}"
  by (induction ord) auto

lemma job_conclusion_values:
  "job_conclusion j \<in> {StatusQueued, StatusRunning, StatusPassed, StatusFailed, StatusCancelled,
     StatusSkipped, StatusIncomplete}"
  by (simp add: job_conclusion_def)

lemma job_conclusion_passed: "job_conclusion j = StatusPassed \<longleftrightarrow> accepted_job j"
  by (simp add: job_conclusion_def accepted_job_def status_defs)

lemma job_conclusion_skipped: "job_conclusion j = StatusSkipped \<longleftrightarrow> je_Status j = StatusSkipped"
  by (simp add: job_conclusion_def status_defs)

text \<open>
  A run is green only when it was admitted as a whole and every job is: no outcome of its
  own, no refused job, at least one job passed or failed tolerated, and every other job was
  skipped. All siblings count, and no order of the jobs changes the answer.
\<close>
theorem RunConclusion_passed_iff:
  "RunConclusion run = StatusPassed \<longleftrightarrow>
     re_Outcome run = [] \<and> re_RefusedJobs run = [] \<and> list_ex accepted_job (re_Jobs run) \<and>
     list_all (\<lambda>j. accepted_job j \<or> je_Status j = StatusSkipped) (re_Jobs run)"
proof -
  let ?bad = "[StatusRunning, StatusQueued, StatusFailed, StatusIncomplete, StatusCancelled, StatusPartial]"
  let ?cs = "map job_conclusion (re_Jobs run) @ (if re_RefusedJobs run \<noteq> [] then [StatusPartial] else [])"
  have ord: "run_order = ?bad @ [StatusPassed]" by (simp add: run_order_def)
  have p: "StatusPassed \<notin> set ?bad" "StatusPassed \<noteq> StatusSkipped" by (simp_all add: status_defs)
  have vals: "job_conclusion j \<in> set ?bad \<or> job_conclusion j = StatusPassed \<or> job_conclusion j = StatusSkipped"
    "job_conclusion j = StatusPassed \<or> job_conclusion j = StatusSkipped \<Longrightarrow> job_conclusion j \<notin> set ?bad" for j
    using job_conclusion_values [of j] by (elim insertE emptyE; simp add: status_defs)+
  have "firstConclusion ?cs run_order StatusSkipped = StatusPassed \<longleftrightarrow>
      StatusPassed \<in> set ?cs \<and> set ?bad \<inter> set ?cs = {}"
    unfolding ord by (rule firstConclusion_last [OF p])
  also have "\<dots> \<longleftrightarrow> re_RefusedJobs run = [] \<and> list_ex accepted_job (re_Jobs run) \<and>
      list_all (\<lambda>j. accepted_job j \<or> je_Status j = StatusSkipped) (re_Jobs run)"
  proof (cases "re_RefusedJobs run = []")
    case True
    have "set ?bad \<inter> job_conclusion ` set (re_Jobs run) = {} \<longleftrightarrow>
        (\<forall>j \<in> set (re_Jobs run). job_conclusion j = StatusPassed \<or> job_conclusion j = StatusSkipped)"
      using vals by blast
    moreover have "StatusPassed \<in> job_conclusion ` set (re_Jobs run) \<longleftrightarrow> (\<exists>j \<in> set (re_Jobs run). accepted_job j)"
      using job_conclusion_passed by (metis (no_types, lifting) image_iff)
    ultimately show ?thesis
      using True by (simp add: list_ex_iff list_all_iff job_conclusion_passed job_conclusion_skipped conj_commute)
  qed simp
  finally have *: "firstConclusion ?cs run_order StatusSkipped = StatusPassed \<longleftrightarrow>
      re_RefusedJobs run = [] \<and> list_ex accepted_job (re_Jobs run) \<and>
      list_all (\<lambda>j. accepted_job j \<or> je_Status j = StatusSkipped) (re_Jobs run)" .
  show ?thesis
    using * unfolding RunConclusion_def by (cases "re_Jobs run = []") (auto simp: status_defs)
qed

end
