(* ===== verification/ActionsGraph.thy ===== *)
theory ActionsGraph
  imports Outcome
begin

text \<open>
  The dependency graph of a workflow run (\<open>internal/state/actions_graph.go\<close>,
  \<open>internal/state/actions_transitions.go\<close>): the check every stored run passes, whose core is a
  depth-first search for a cycle, and the two searches over it that tell a waiting job what
  became of its ancestors. A Go map iterates in any order, so a map from job keys to their
  needs is an association list without repeated keys whose order stands for the iteration.
\<close>

definition MaximumActionsRunJobs :: nat where
  "MaximumActionsRunJobs = 16"

type_synonym graph = "(bytes \<times> bytes list) list"

text \<open>Indexing the Go map: a missing key has no needs.\<close>

definition needs_of :: "graph \<Rightarrow> bytes \<Rightarrow> bytes list" where
  "needs_of g key = (case map_of g key of None \<Rightarrow> [] | Some ns \<Rightarrow> ns)"

text \<open>What the graph needs of a \<open>CheckJob\<close> of the store, with the statuses as their texts.\<close>

record GraphJob =
  gj_JobKey :: bytes
  gj_MatrixIndex :: int
  gj_Status :: bytes
  gj_Tolerated :: bool

record RefusedJob =
  rj_JobKey :: bytes
  rj_MatrixIndex :: int

record ActionsRun =
  ar_Outcome :: bytes
  ar_Needs :: graph
  ar_FailFast :: "(bytes \<times> bool) list"
  ar_RefusedJobs :: "RefusedJob list"

subsection \<open>The cycle search\<close>

text \<open>
  \<open>visit\<close> of \<open>validateActionsGraph\<close>: \<open>None\<close> is the refusal, \<open>Some visited\<close> acceptance with the
  keys finished so far. The recursion ends because a key that is being visited refuses and
  every visited key is one of the finitely many known ones; the fuel is the number of known
  keys not yet being visited, and \<open>visit_fuel\<close> shows that it is enough.
\<close>

fun visit :: "nat \<Rightarrow> graph \<Rightarrow> bytes set \<Rightarrow> bytes set \<Rightarrow> bytes set \<Rightarrow> bytes \<Rightarrow> bytes set option"
  and visit_all :: "nat \<Rightarrow> graph \<Rightarrow> bytes set \<Rightarrow> bytes set \<Rightarrow> bytes set \<Rightarrow> bytes set \<Rightarrow> bytes list \<Rightarrow> bytes set option"
where
  "visit fuel g keys visiting visited key =
     (if key \<in> visiting \<or> key \<notin> keys then None
      else if key \<in> visited then Some visited
      else if length (needs_of g key) > MaximumActionsRunJobs then None
      else case fuel of
        0 \<Rightarrow> None
      | Suc n \<Rightarrow>
         (case visit_all n g keys (insert key visiting) visited {} (needs_of g key) of
           None \<Rightarrow> None
         | Some visited' \<Rightarrow> Some (insert key visited')))"
| "visit_all fuel g keys visiting visited seen [] = Some visited"
| "visit_all fuel g keys visiting visited seen (target # targets) =
     (if target \<in> seen then None
      else case visit fuel g keys visiting visited target of
        None \<Rightarrow> None
      | Some visited' \<Rightarrow> visit_all fuel g keys visiting visited' (insert target seen) targets)"

declare visit.simps [simp del] visit_all.simps [simp del]

fun visit_keys :: "nat \<Rightarrow> graph \<Rightarrow> bytes set \<Rightarrow> bytes set \<Rightarrow> bytes list \<Rightarrow> bool" where
  "visit_keys fuel g keys visited [] = True"
| "visit_keys fuel g keys visited (k # ks) =
     (case visit fuel g keys {} visited k of
       None \<Rightarrow> False
     | Some visited' \<Rightarrow> visit_keys fuel g keys visited' ks)"

subsection \<open>What the search decides\<close>

definition edges :: "graph \<Rightarrow> (bytes \<times> bytes) set" where
  "edges g = {(k, t). t \<in> set (needs_of g k)}"

definition node_ok :: "graph \<Rightarrow> bytes set \<Rightarrow> bytes \<Rightarrow> bool" where
  "node_ok g keys k \<longleftrightarrow> k \<in> keys \<and> distinct (needs_of g k) \<and> length (needs_of g k) \<le> MaximumActionsRunJobs"

definition finished :: "graph \<Rightarrow> bytes set \<Rightarrow> bytes set \<Rightarrow> bool" where
  "finished g keys v \<longleftrightarrow> (\<forall>k \<in> v. node_ok g keys k \<and> set (needs_of g k) \<subseteq> v \<and> (k, k) \<notin> (edges g)\<^sup>+)"

lemma finished_closed:
  assumes "finished g keys v" and "k \<in> v" and "(k, t) \<in> (edges g)\<^sup>*"
  shows "t \<in> v"
  using assms(3,2)
proof (induction rule: rtrancl_induct)
  case (step y z)
  then show ?case using assms(1) unfolding finished_def edges_def by blast
qed

lemma finished_insert:
  assumes v: "finished g keys v" and ok: "node_ok g keys k" and sub: "set (needs_of g k) \<subseteq> v"
  shows "finished g keys (insert k v)"
proof (cases "k \<in> v")
  case True
  then show ?thesis using v by (simp add: insert_absorb)
next
  case False
  have "(k, k) \<notin> (edges g)\<^sup>+"
  proof
    assume "(k, k) \<in> (edges g)\<^sup>+"
    then obtain t where t: "(k, t) \<in> edges g" "(t, k) \<in> (edges g)\<^sup>*" by (meson tranclD)
    then have "t \<in> v" using sub by (auto simp: edges_def)
    then have "k \<in> v" using finished_closed [OF v _ t(2)] by simp
    with False show False by simp
  qed
  then show ?thesis using v ok sub by (auto simp: finished_def)
qed

lemma visit_sound:
  "visit fuel g keys visiting visited key = Some v \<Longrightarrow> finished g keys visited \<Longrightarrow>
     finished g keys v \<and> visited \<subseteq> v \<and> key \<in> v"
  and visit_all_sound:
  "visit_all fuel g keys visiting visited seen targets = Some v \<Longrightarrow> finished g keys visited \<Longrightarrow>
     finished g keys v \<and> visited \<subseteq> v \<and> set targets \<subseteq> v \<and> distinct targets \<and> seen \<inter> set targets = {}"
proof (induction fuel g keys visiting visited key and fuel g keys visiting visited seen targets
    arbitrary: v and v rule: visit_visit_all.induct)
  case (1 fuel g keys visiting visited key)
  show ?case
  proof (cases "key \<in> visited")
    case True
    then show ?thesis using "1.prems" by (subst (asm) visit.simps) (auto split: if_splits)
  next
    case False
    with "1.prems"(1) obtain n v' where c: "key \<notin> visiting" "key \<in> keys" "fuel = Suc n"
        "length (needs_of g key) \<le> MaximumActionsRunJobs" "v = insert key v'"
      and a: "visit_all n g keys (insert key visiting) visited {} (needs_of g key) = Some v'"
      by (subst (asm) visit.simps) (auto split: if_splits nat.splits option.splits)
    have "finished g keys v' \<and> visited \<subseteq> v' \<and> set (needs_of g key) \<subseteq> v' \<and> distinct (needs_of g key)"
      using "1.IH" c False a "1.prems"(2) by auto
    then show ?thesis using finished_insert [of g keys v' key] c by (auto simp: node_ok_def)
  qed
next
  case (2 fuel g keys visiting visited seen)
  then show ?case by (simp add: visit_all.simps)
next
  case (3 fuel g keys visiting visited seen target targets)
  from "3.prems"(1) obtain v' where c: "target \<notin> seen"
    "visit fuel g keys visiting visited target = Some v'"
    "visit_all fuel g keys visiting v' (insert target seen) targets = Some v"
    by (auto simp: visit_all.simps split: if_splits option.splits)
  have "finished g keys v' \<and> visited \<subseteq> v' \<and> target \<in> v'" using "3.IH"(1) c "3.prems"(2) by simp
  moreover from this have "finished g keys v \<and> v' \<subseteq> v \<and> set targets \<subseteq> v \<and> distinct targets \<and>
      insert target seen \<inter> set targets = {}"
    using "3.IH"(2) [OF c(1,2,3)] by simp
  ultimately show ?case using c(1) by auto
qed

lemma visit_complete:
  "fuel \<ge> card (keys - visiting) \<Longrightarrow> finite keys \<Longrightarrow> acyclic (edges g) \<Longrightarrow>
     (\<forall>t. (key, t) \<in> (edges g)\<^sup>* \<longrightarrow> node_ok g keys t) \<Longrightarrow> (\<forall>u \<in> visiting. (u, key) \<in> (edges g)\<^sup>+) \<Longrightarrow>
     visit fuel g keys visiting visited key \<noteq> None"
  and visit_all_complete:
  "fuel \<ge> card (keys - visiting) \<Longrightarrow> finite keys \<Longrightarrow> acyclic (edges g) \<Longrightarrow>
     (\<forall>k \<in> set targets. \<forall>t. (k, t) \<in> (edges g)\<^sup>* \<longrightarrow> node_ok g keys t) \<Longrightarrow>
     (\<forall>k \<in> set targets. \<forall>u \<in> visiting. (u, k) \<in> (edges g)\<^sup>+) \<Longrightarrow> distinct targets \<Longrightarrow> seen \<inter> set targets = {} \<Longrightarrow>
     visit_all fuel g keys visiting visited seen targets \<noteq> None"
proof (induction fuel g keys visiting visited key and fuel g keys visiting visited seen targets
    rule: visit_visit_all.induct)
  case (1 fuel g keys visiting visited key)
  have nv: "key \<notin> visiting" using "1.prems"(3,5) by (auto simp: acyclic_def)
  have ok: "node_ok g keys key" using "1.prems"(4) by blast
  then have kk: "key \<in> keys" by (simp add: node_ok_def)
  have "card (keys - insert key visiting) < card (keys - visiting)"
    using nv kk "1.prems"(2) by (intro psubset_card_mono) auto
  then obtain n where n: "fuel = Suc n" "card (keys - insert key visiting) \<le> n"
    using "1.prems"(1) by (cases fuel) auto
  have e: "(key, t) \<in> edges g" if "t \<in> set (needs_of g key)" for t using that by (simp add: edges_def)
  have "visit_all n g keys (insert key visiting) visited {} (needs_of g key) \<noteq> None"
    if "key \<notin> visited"
  proof (rule "1.IH")
    show "\<forall>k \<in> set (needs_of g key). \<forall>t. (k, t) \<in> (edges g)\<^sup>* \<longrightarrow> node_ok g keys t"
      using "1.prems"(4) e by (meson converse_rtrancl_into_rtrancl)
    show "\<forall>k \<in> set (needs_of g key). \<forall>u \<in> insert key visiting. (u, k) \<in> (edges g)\<^sup>+"
      using "1.prems"(5) e by (auto intro: r_into_trancl trancl.trancl_into_trancl)
  qed (use that nv kk ok n "1.prems"(2,3) in \<open>auto simp: node_ok_def\<close>)
  then show ?case using nv kk ok n(1)
    by (cases "key \<in> visited") (auto simp: visit.simps node_ok_def split: option.splits)
next
  case (2 fuel g keys visiting visited seen)
  then show ?case by (simp add: visit_all.simps)
next
  case (3 fuel g keys visiting visited seen target targets)
  obtain v where v: "visit fuel g keys visiting visited target = Some v"
    using "3.IH"(1) "3.prems" by auto
  then have "visit_all fuel g keys visiting v (insert target seen) targets \<noteq> None"
    using "3.IH"(2) [OF _ v] "3.prems" by auto
  then show ?case using v "3.prems"(7) by (simp add: visit_all.simps)
qed

subsection \<open>The check of a stored run\<close>

datatype graph_error =
    DuplicateGraphJob | FailFastIncomplete | FailFastUnknownJob | InvalidRefusedJob
  | GraphExceedsBound | GraphIncomplete | GraphUnknownDuplicateOrCycle

fun add_jobs :: "(bytes \<times> int) list \<Rightarrow> (bytes \<times> int) set \<Rightarrow> (bytes \<times> int) set option" where
  "add_jobs [] ids = Some ids"
| "add_jobs (i # is) ids = (if i \<in> ids then None else add_jobs is (insert i ids))"

fun add_refused :: "RefusedJob list \<Rightarrow> (bytes \<times> int) set \<Rightarrow> graph_error + (bytes \<times> int) set" where
  "add_refused [] ids = Inr ids"
| "add_refused (r # rs) ids =
     (if \<not> validText (rj_JobKey r) 100 \<or> rj_MatrixIndex r < 0 \<or> rj_MatrixIndex r \<ge> int MaximumActionsRunJobs
      then Inl InvalidRefusedJob
      else if (rj_JobKey r, rj_MatrixIndex r) \<in> ids then Inl DuplicateGraphJob
      else add_refused rs (insert (rj_JobKey r, rj_MatrixIndex r) ids))"

definition job_keys :: "ActionsRun \<Rightarrow> GraphJob list \<Rightarrow> bytes set" where
  "job_keys run jobs = gj_JobKey ` set jobs \<union> rj_JobKey ` set (ar_RefusedJobs run)"

definition validateActionsGraph :: "ActionsRun \<Rightarrow> GraphJob list \<Rightarrow> graph_error + unit" where
  "validateActionsGraph run jobs =
     (case add_jobs (map (\<lambda>j. (gj_JobKey j, gj_MatrixIndex j)) jobs) {} of
       None \<Rightarrow> Inl DuplicateGraphJob
     | Some ids \<Rightarrow>
        bindE (requireE (length (ar_FailFast run) = card (gj_JobKey ` set jobs)) FailFastIncomplete) (\<lambda>_.
        bindE (requireE (\<forall>key \<in> fst ` set (ar_FailFast run). key \<in> gj_JobKey ` set jobs) FailFastUnknownJob) (\<lambda>_.
        bindE (add_refused (ar_RefusedJobs run) ids) (\<lambda>ids'.
        bindE (requireE (card ids' \<le> MaximumActionsRunJobs \<and> length (ar_Needs run) \<le> MaximumActionsRunJobs)
          GraphExceedsBound) (\<lambda>_.
        bindE (requireE (ar_Outcome run = [] \<longrightarrow> length (ar_Needs run) = card (job_keys run jobs))
          GraphIncomplete) (\<lambda>_.
        requireE (visit_keys (card (job_keys run jobs)) (ar_Needs run) (job_keys run jobs) {}
            (map fst (ar_Needs run))) GraphUnknownDuplicateOrCycle))))))"

lemma visit_keys_sound:
  "visit_keys fuel g keys visited ks \<Longrightarrow> finished g keys visited \<Longrightarrow>
   \<exists>v. finished g keys v \<and> visited \<subseteq> v \<and> set ks \<subseteq> v"
proof (induction ks arbitrary: visited)
  case (Cons k ks)
  then obtain v where v: "visit fuel g keys {} visited k = Some v" "visit_keys fuel g keys v ks"
    by (auto split: option.splits)
  from visit_sound [OF v(1) Cons.prems(2)] Cons.IH [OF v(2)] show ?case by auto
qed auto

lemma visit_keys_complete:
  assumes "finite keys" and "fuel \<ge> card keys" and "acyclic (edges g)"
    and "\<forall>k \<in> set ks. \<forall>t. (k, t) \<in> (edges g)\<^sup>* \<longrightarrow> node_ok g keys t"
  shows "visit_keys fuel g keys visited ks"
  using assms(4)
proof (induction ks arbitrary: visited)
  case (Cons k ks)
  then obtain v where "visit fuel g keys {} visited k = Some v"
    using visit_complete [of keys "{}" fuel g k visited] assms(1-3) by auto
  then show ?case using Cons by simp
qed simp

definition graph_sound :: "graph \<Rightarrow> bytes set \<Rightarrow> bool" where
  "graph_sound g keys \<longleftrightarrow> acyclic (edges g) \<and>
     (\<forall>k \<in> fst ` set g. node_ok g keys k \<and> set (needs_of g k) \<subseteq> keys)"

lemma needs_of_key: "needs_of g k \<noteq> [] \<Longrightarrow> k \<in> fst ` set g"
  by (auto simp: needs_of_def split: option.splits dest: map_of_SomeD intro: rev_image_eqI)

lemma visit_keys_iff:
  assumes "finite keys"
  shows "visit_keys (card keys) g keys {} (map fst g) \<longleftrightarrow> graph_sound g keys"
proof
  assume "visit_keys (card keys) g keys {} (map fst g)"
  from visit_keys_sound [OF this] obtain v where v: "finished g keys v" "fst ` set g \<subseteq> v"
    by (auto simp: finished_def)
  have "(k, k) \<notin> (edges g)\<^sup>+" for k
  proof
    assume c: "(k, k) \<in> (edges g)\<^sup>+"
    then obtain t where "(k, t) \<in> edges g" by (meson tranclD)
    then have "needs_of g k \<noteq> []" by (auto simp: edges_def)
    then have "k \<in> v" using needs_of_key v(2) by blast
    then show False using v(1) c by (simp add: finished_def)
  qed
  then have "acyclic (edges g)" by (simp add: acyclic_def)
  moreover have "node_ok g keys k \<and> set (needs_of g k) \<subseteq> keys" if "k \<in> fst ` set g" for k
  proof -
    have "k \<in> v" using v(2) that by blast
    then have "node_ok g keys k" "set (needs_of g k) \<subseteq> v" using v(1) unfolding finished_def by blast+
    then show ?thesis using v(1) unfolding finished_def node_ok_def by blast
  qed
  ultimately show "graph_sound g keys" by (simp add: graph_sound_def)
next
  assume s: "graph_sound g keys"
  have "node_ok g keys t" if k: "k \<in> fst ` set g" and t: "(k, t) \<in> (edges g)\<^sup>*" for k t
  proof (cases "t \<in> fst ` set g")
    case True
    then show ?thesis using s unfolding graph_sound_def by blast
  next
    case False
    then have none: "needs_of g t = []" using needs_of_key by blast
    have "t \<noteq> k" using False k by blast
    then obtain u where u: "(u, t) \<in> edges g" using t by (auto elim: rtranclE)
    then have "needs_of g u \<noteq> []" by (auto simp: edges_def)
    then have "u \<in> fst ` set g" by (rule needs_of_key)
    then have "t \<in> keys" using s u unfolding graph_sound_def edges_def by blast
    then show ?thesis using none by (simp add: node_ok_def)
  qed
  then show "visit_keys (card keys) g keys {} (map fst g)"
    using s by (intro visit_keys_complete [OF assms]) (auto simp: graph_sound_def)
qed

subsection \<open>What became of the ancestors\<close>

text \<open>
  \<open>ancestorFailed\<close> of \<open>actionsDependencies\<close>, with its table of resolved keys. It has no guard
  against a cycle: on a cyclic graph the code would not return, which is \<open>None\<close> here for every
  fuel. \<open>ambiguousAncestor\<close> has its own set of visited keys and always returns.
\<close>

fun ancestorFailed :: "nat \<Rightarrow> graph \<Rightarrow> (bytes \<Rightarrow> bool) \<Rightarrow> (bytes \<rightharpoonup> bool) \<Rightarrow> bytes \<Rightarrow> ((bytes \<rightharpoonup> bool) \<times> bool) option"
  and neededFailed :: "nat \<Rightarrow> graph \<Rightarrow> (bytes \<Rightarrow> bool) \<Rightarrow> (bytes \<rightharpoonup> bool) \<Rightarrow> bytes list \<Rightarrow> ((bytes \<rightharpoonup> bool) \<times> bool) option"
where
  "ancestorFailed fuel g bad memo key =
     (case memo key of
       Some b \<Rightarrow> Some (memo, b)
     | None \<Rightarrow>
        (case fuel of
          0 \<Rightarrow> None
        | Suc n \<Rightarrow>
           (case neededFailed n g bad memo (needs_of g key) of
             None \<Rightarrow> None
           | Some (memo', b) \<Rightarrow> Some (memo'(key \<mapsto> b), b))))"
| "neededFailed fuel g bad memo [] = Some (memo, False)"
| "neededFailed fuel g bad memo (t # ts) =
     (if bad t then Some (memo, True)
      else case ancestorFailed fuel g bad memo t of
        None \<Rightarrow> None
      | Some (memo', b) \<Rightarrow> if b then Some (memo', True) else neededFailed fuel g bad memo' ts)"

fun findAmbiguous :: "nat \<Rightarrow> graph \<Rightarrow> (bytes \<Rightarrow> bool) \<Rightarrow> bytes set \<Rightarrow> bytes \<Rightarrow> (bytes set \<times> bytes) option"
  and neededAmbiguous :: "nat \<Rightarrow> graph \<Rightarrow> (bytes \<Rightarrow> bool) \<Rightarrow> bytes set \<Rightarrow> bytes list \<Rightarrow> (bytes set \<times> bytes) option"
where
  "findAmbiguous fuel g amb visited key =
     (if key \<in> visited then Some (visited, [])
      else case fuel of
        0 \<Rightarrow> None
      | Suc n \<Rightarrow> neededAmbiguous n g amb (insert key visited) (needs_of g key))"
| "neededAmbiguous fuel g amb visited [] = Some (visited, [])"
| "neededAmbiguous fuel g amb visited (t # ts) =
     (if amb t then Some (visited, t)
      else case findAmbiguous fuel g amb visited t of
        None \<Rightarrow> None
      | Some (visited', a) \<Rightarrow>
          if a \<noteq> [] then Some (visited', a) else neededAmbiguous fuel g amb visited' ts)"

declare ancestorFailed.simps [simp del] neededFailed.simps [simp del]
  findAmbiguous.simps [simp del] neededAmbiguous.simps [simp del]

definition graph_nodes :: "graph \<Rightarrow> bytes set" where
  "graph_nodes g = fst ` set g \<union> (\<Union>k \<in> fst ` set g. set (needs_of g k))"

definition job_ambiguous :: "GraphJob list \<Rightarrow> bytes \<Rightarrow> bool" where
  "job_ambiguous jobs key \<longleftrightarrow> (\<exists>j \<in> set jobs. gj_Status j = StatusAmbiguous \<and> gj_JobKey j = key)"

definition ambiguousAncestor :: "ActionsRun \<Rightarrow> GraphJob list \<Rightarrow> bytes \<Rightarrow> bytes option" where
  "ambiguousAncestor run jobs key =
     map_option snd (findAmbiguous (Suc (card (graph_nodes (ar_Needs run)))) (ar_Needs run)
       (job_ambiguous jobs) {} key)"

record Dependency =
  dp_Status :: bytes
  dp_Tolerated :: bool
  dp_AncestorFailed :: bool
  dp_AncestorAmbiguous :: bool

definition job_outcomes :: "ActionsRun \<Rightarrow> GraphJob list \<Rightarrow> bytes \<Rightarrow> (bytes \<times> bool) list" where
  "job_outcomes run jobs key =
     map (\<lambda>j. (gj_Status j, gj_Tolerated j)) (filter (\<lambda>j. gj_JobKey j = key) jobs) @
     map (\<lambda>r. (StatusRefused, False)) (filter (\<lambda>r. rj_JobKey r = key) (ar_RefusedJobs run))"

definition outcome_failed :: "ActionsRun \<Rightarrow> GraphJob list \<Rightarrow> bytes \<Rightarrow> bool" where
  "outcome_failed run jobs key \<longleftrightarrow>
     (\<exists>(status, tolerated) \<in> set (job_outcomes run jobs key). NeedsResult status tolerated = ResultFailure)"

fun mark_keys :: "nat \<Rightarrow> graph \<Rightarrow> (bytes \<Rightarrow> bool) \<Rightarrow> (bytes \<rightharpoonup> bool) \<Rightarrow> bytes list \<Rightarrow> (bytes \<times> bool) list option" where
  "mark_keys fuel g bad memo [] = Some []"
| "mark_keys fuel g bad memo (k # ks) =
     (case ancestorFailed fuel g bad memo k of
       None \<Rightarrow> None
     | Some (memo', b) \<Rightarrow> map_option (Cons (k, b)) (mark_keys fuel g bad memo' ks))"

definition dependency_keys :: "ActionsRun \<Rightarrow> GraphJob list \<Rightarrow> bytes list" where
  "dependency_keys run jobs = remdups (map gj_JobKey jobs @ map rj_JobKey (ar_RefusedJobs run))"

definition actionsDependencies :: "ActionsRun \<Rightarrow> GraphJob list \<Rightarrow> (bytes \<times> Dependency list) list option" where
  "actionsDependencies run jobs =
     map_option (map (\<lambda>(key, failed). (key,
         map (\<lambda>(status, tolerated). \<lparr>dp_Status = status, dp_Tolerated = tolerated, dp_AncestorFailed = failed,
             dp_AncestorAmbiguous = (case ambiguousAncestor run jobs key of None \<Rightarrow> False | Some a \<Rightarrow> a \<noteq> [])\<rparr>)
           (job_outcomes run jobs key))))
       (mark_keys (Suc (card (graph_nodes (ar_Needs run)))) (ar_Needs run) (outcome_failed run jobs)
         Map.empty (dependency_keys run jobs))"

definition has_ancestor :: "graph \<Rightarrow> (bytes \<Rightarrow> bool) \<Rightarrow> bytes \<Rightarrow> bool" where
  "has_ancestor g P key \<longleftrightarrow> (\<exists>a. (key, a) \<in> (edges g)\<^sup>+ \<and> P a)"

lemma has_ancestor_step:
  "has_ancestor g P key \<longleftrightarrow> (\<exists>t \<in> set (needs_of g key). P t \<or> has_ancestor g P t)"
proof -
  have "(key, a) \<in> (edges g)\<^sup>+ \<longleftrightarrow> (\<exists>t. (key, t) \<in> edges g \<and> (t = a \<or> (t, a) \<in> (edges g)\<^sup>+))" for a
    by (metis r_into_trancl' trancl_into_trancl2 tranclD rtranclD)
  then show ?thesis by (auto simp: has_ancestor_def edges_def)
qed

definition memo_ok :: "graph \<Rightarrow> (bytes \<Rightarrow> bool) \<Rightarrow> (bytes \<rightharpoonup> bool) \<Rightarrow> bool" where
  "memo_ok g bad memo \<longleftrightarrow> (\<forall>k b. memo k = Some b \<longrightarrow> b = has_ancestor g bad k)"

lemma ancestorFailed_sound:
  "ancestorFailed fuel g bad memo key = Some (memo', b) \<Longrightarrow> memo_ok g bad memo \<Longrightarrow>
     memo_ok g bad memo' \<and> b = has_ancestor g bad key"
  and neededFailed_sound:
  "neededFailed fuel g bad memo ts = Some (memo', b) \<Longrightarrow> memo_ok g bad memo \<Longrightarrow>
     memo_ok g bad memo' \<and> b = (\<exists>t \<in> set ts. bad t \<or> has_ancestor g bad t)"
proof (induction fuel g bad memo key and fuel g bad memo ts arbitrary: memo' b and memo' b
    rule: ancestorFailed_neededFailed.induct)
  case (1 fuel g bad memo key)
  show ?case
  proof (cases "memo key")
    case None
    with "1.prems"(1) obtain n m where "fuel = Suc n"
      "neededFailed n g bad memo (needs_of g key) = Some (m, b)" "memo' = m(key \<mapsto> b)"
      by (subst (asm) ancestorFailed.simps) (auto split: nat.splits option.splits)
    with "1.IH" [OF None this(1,2) "1.prems"(2)] show ?thesis
      using has_ancestor_step [of g bad key] by (auto simp: memo_ok_def)
  next
    case (Some c)
    then show ?thesis using "1.prems" by (simp add: ancestorFailed.simps memo_ok_def)
  qed
next
  case (2 fuel g bad memo)
  then show ?case by (simp add: neededFailed.simps)
next
  case (3 fuel g bad memo t ts)
  show ?case
  proof (cases "bad t")
    case True
    then show ?thesis using "3.prems" by (simp add: neededFailed.simps)
  next
    case False
    with "3.prems"(1) obtain m c where a: "ancestorFailed fuel g bad memo t = Some (m, c)"
      and r: "(if c then Some (m, True) else neededFailed fuel g bad m ts) = Some (memo', b)"
      by (auto simp: neededFailed.simps split: option.splits prod.splits)
    have m: "memo_ok g bad m \<and> c = has_ancestor g bad t"
      using "3.IH"(1) [OF False a "3.prems"(2)] .
    show ?thesis
    proof (cases c)
      case True
      then show ?thesis using r m by auto
    next
      case c: False
      with r have "neededFailed fuel g bad m ts = Some (memo', b)" by simp
      from "3.IH"(2) [OF False a refl c this] m c False show ?thesis by auto
    qed
  qed
qed

definition ancestors :: "graph \<Rightarrow> bytes \<Rightarrow> bytes set" where
  "ancestors g key = {a. (key, a) \<in> (edges g)\<^sup>+}"

lemma finite_nodes: "finite (graph_nodes g)"
  by (simp add: graph_nodes_def)

lemma ancestors_nodes: "ancestors g key \<subseteq> graph_nodes g"
proof
  fix a assume "a \<in> ancestors g key"
  then obtain u where "(u, a) \<in> edges g" by (auto simp: ancestors_def elim: tranclE)
  then have "a \<in> set (needs_of g u)" "needs_of g u \<noteq> []" by (auto simp: edges_def)
  then show "a \<in> graph_nodes g" using needs_of_key [of g u] unfolding graph_nodes_def by blast
qed

lemma ancestors_card: "card (ancestors g key) \<le> card (graph_nodes g)"
  by (rule card_mono [OF finite_nodes ancestors_nodes])

lemma ancestors_decrease:
  assumes "acyclic (edges g)" and "t \<in> set (needs_of g key)"
  shows "card (ancestors g t) < card (ancestors g key)"
proof (rule psubset_card_mono)
  show "finite (ancestors g key)" by (rule finite_subset [OF ancestors_nodes finite_nodes])
  have e: "(key, t) \<in> edges g" using assms(2) by (simp add: edges_def)
  have "ancestors g t \<subseteq> ancestors g key" using e by (auto simp: ancestors_def intro: trancl_into_trancl2)
  moreover have "t \<in> ancestors g key" "t \<notin> ancestors g t"
    using e assms(1) by (auto simp: ancestors_def acyclic_def)
  ultimately show "ancestors g t \<subset> ancestors g key" by blast
qed

lemma ancestorFailed_total:
  "acyclic (edges g) \<Longrightarrow> card (ancestors g key) < fuel \<Longrightarrow> ancestorFailed fuel g bad memo key \<noteq> None"
  and neededFailed_total:
  "acyclic (edges g) \<Longrightarrow> \<forall>t \<in> set ts. card (ancestors g t) < fuel \<Longrightarrow> neededFailed fuel g bad memo ts \<noteq> None"
proof (induction fuel g bad memo key and fuel g bad memo ts rule: ancestorFailed_neededFailed.induct)
  case (1 fuel g bad memo key)
  show ?case
  proof (cases "memo key")
    case None
    obtain n where n: "fuel = Suc n" using "1.prems"(2) by (cases fuel) auto
    have "\<forall>t \<in> set (needs_of g key). card (ancestors g t) < n"
      using ancestors_decrease [OF "1.prems"(1)] "1.prems"(2) n by (metis less_Suc_eq_le order_less_le_trans)
    from "1.IH" [OF None n "1.prems"(1) this] show ?thesis
      using None n by (auto simp: ancestorFailed.simps)
  qed (simp add: ancestorFailed.simps)
next
  case (2 fuel g bad memo)
  then show ?case by (simp add: neededFailed.simps)
next
  case (3 fuel g bad memo t ts)
  show ?case
  proof (cases "bad t")
    case False
    obtain m c where a: "ancestorFailed fuel g bad memo t = Some (m, c)"
      using "3.IH"(1) [OF False "3.prems"(1)] "3.prems"(2) by auto
    then show ?thesis
      using "3.IH"(2) [OF False a refl _ "3.prems"(1)] "3.prems"(2) False
      by (cases c) (auto simp: neededFailed.simps)
  qed (simp add: neededFailed.simps)
qed

lemma mark_keys_ok:
  assumes "acyclic (edges g)" and "memo_ok g bad memo" and "fuel > card (graph_nodes g)"
  shows "mark_keys fuel g bad memo ks = Some (map (\<lambda>k. (k, has_ancestor g bad k)) ks)"
  using assms(2)
proof (induction ks arbitrary: memo)
  case (Cons k ks)
  have "card (ancestors g k) < fuel" using ancestors_card [of g k] assms(3) by simp
  from ancestorFailed_total [OF assms(1) this, of bad memo] obtain m b
    where a: "ancestorFailed fuel g bad memo k = Some (m, b)" by auto
  from ancestorFailed_sound [OF a Cons.prems] Cons.IH [of m] a show ?case by simp
qed simp

text \<open>The search for an ambiguous ancestor.\<close>

definition explored :: "graph \<Rightarrow> (bytes \<Rightarrow> bool) \<Rightarrow> bytes set \<Rightarrow> bytes set \<Rightarrow> bool" where
  "explored g amb v w \<longleftrightarrow> v \<subseteq> w \<and> (\<forall>k \<in> w - v. \<forall>t \<in> set (needs_of g k). \<not> amb t \<and> t \<in> w)"

lemma findAmbiguous_sound:
  "findAmbiguous fuel g amb v key = Some (w, a) \<Longrightarrow> \<not> amb [] \<Longrightarrow>
     (if a = [] then explored g amb v w \<and> key \<in> w else amb a \<and> (key, a) \<in> (edges g)\<^sup>+)"
  and neededAmbiguous_sound:
  "neededAmbiguous fuel g amb v ts = Some (w, a) \<Longrightarrow> \<not> amb [] \<Longrightarrow>
     (if a = [] then explored g amb v w \<and> (\<forall>t \<in> set ts. \<not> amb t \<and> t \<in> w)
      else amb a \<and> (\<exists>t \<in> set ts. (t, a) \<in> (edges g)\<^sup>*))"
proof (induction fuel g amb v key and fuel g amb v ts arbitrary: w a and w a
    rule: findAmbiguous_neededAmbiguous.induct)
  case (1 fuel g amb v key)
  show ?case
  proof (cases "key \<in> v")
    case True
    then show ?thesis using "1.prems" by (simp add: findAmbiguous.simps explored_def)
  next
    case False
    with "1.prems"(1) obtain n where n: "fuel = Suc n"
      "neededAmbiguous n g amb (insert key v) (needs_of g key) = Some (w, a)"
      by (auto simp: findAmbiguous.simps split: nat.splits)
    note IH = "1.IH" [OF False n "1.prems"(2)]
    show ?thesis
    proof (cases "a = []")
      case True
      then show ?thesis using IH by (auto simp: explored_def)
    next
      case a: False
      then obtain t where "(key, t) \<in> edges g" "(t, a) \<in> (edges g)\<^sup>*" "amb a"
        using IH by (auto simp: edges_def)
      then show ?thesis using a by (auto intro: rtrancl_into_trancl2)
    qed
  qed
next
  case (2 fuel g amb v)
  then show ?case by (simp add: neededAmbiguous.simps explored_def)
next
  case (3 fuel g amb v t ts)
  show ?case
  proof (cases "amb t")
    case True
    then show ?thesis using "3.prems" by (auto simp: neededAmbiguous.simps split: if_splits)
  next
    case False
    with "3.prems"(1) obtain u c where f: "findAmbiguous fuel g amb v t = Some (u, c)"
      and r: "(if c \<noteq> [] then Some (u, c) else neededAmbiguous fuel g amb u ts) = Some (w, a)"
      by (auto simp: neededAmbiguous.simps split: option.splits prod.splits)
    note F = "3.IH"(1) [OF False f "3.prems"(2)]
    show ?thesis
    proof (cases "c = []")
      case True
      with r have n: "neededAmbiguous fuel g amb u ts = Some (w, a)" by simp
      note R = "3.IH"(2) [OF False f refl _ n "3.prems"(2)]
      show ?thesis
      proof (cases "a = []")
        case a: True
        have fu: "explored g amb v u" "t \<in> u" using F True by simp_all
        have fw: "explored g amb u w" "\<forall>t \<in> set ts. \<not> amb t \<and> t \<in> w" using R True a by simp_all
        have "explored g amb v w" using fu(1) fw(1) unfolding explored_def by blast
        moreover have "t \<in> w" using fu(2) fw(1) unfolding explored_def by blast
        ultimately show ?thesis using a False fw(2) by simp
      next
        case a: False
        then show ?thesis using R True by auto
      qed
    next
      case c: False
      with r have "c = a" "u = w" by simp_all
      then show ?thesis using F c by (auto intro: trancl_into_rtrancl)
    qed
  qed
qed

lemma findAmbiguous_total:
  "finite N \<Longrightarrow> (\<And>k. k \<in> N \<Longrightarrow> set (needs_of g k) \<subseteq> N) \<Longrightarrow> card (N - v) \<le> fuel \<Longrightarrow> key \<in> N \<Longrightarrow>
     \<exists>w a. findAmbiguous fuel g amb v key = Some (w, a) \<and> v \<subseteq> w"
  and neededAmbiguous_total:
  "finite N \<Longrightarrow> (\<And>k. k \<in> N \<Longrightarrow> set (needs_of g k) \<subseteq> N) \<Longrightarrow> card (N - v) \<le> fuel \<Longrightarrow> set ts \<subseteq> N \<Longrightarrow>
     \<exists>w a. neededAmbiguous fuel g amb v ts = Some (w, a) \<and> v \<subseteq> w"
proof (induction fuel g amb v key and fuel g amb v ts rule: findAmbiguous_neededAmbiguous.induct)
  case (1 fuel g amb v key)
  show ?case
  proof (cases "key \<in> v")
    case False
    then have "card (N - insert key v) < card (N - v)"
      using "1.prems"(1,4) by (intro psubset_card_mono) auto
    then obtain n where n: "fuel = Suc n" "card (N - insert key v) \<le> n"
      using "1.prems"(3) by (cases fuel) auto
    have "set (needs_of g key) \<subseteq> N" using "1.prems"(2,4) by blast
    from "1.IH" [OF False n(1) "1.prems"(1,2) n(2) this] show ?thesis
      using False n(1) by (auto simp: findAmbiguous.simps)
  qed (simp add: findAmbiguous.simps)
next
  case (2 fuel g amb v)
  then show ?case by (simp add: neededAmbiguous.simps)
next
  case (3 fuel g amb v t ts)
  show ?case
  proof (cases "amb t")
    case False
    have "t \<in> N" "set ts \<subseteq> N" using "3.prems"(4) by auto
    from "3.IH"(1) [OF False "3.prems"(1,2,3) this(1)] obtain u c
      where f: "findAmbiguous fuel g amb v t = Some (u, c)" "v \<subseteq> u" by blast
    have "card (N - u) \<le> fuel"
      using card_mono [of "N - v" "N - u"] f(2) "3.prems"(1,3) by (meson Diff_mono finite_Diff order.trans order_refl)
    from "3.IH"(2) [OF False f(1) refl _ "3.prems"(1,2) this \<open>set ts \<subseteq> N\<close>] show ?thesis
      using False f by (cases "c = []") (auto simp: neededAmbiguous.simps)
  qed (auto simp: neededAmbiguous.simps)
qed

subsection \<open>The two contracts\<close>

definition identities :: "ActionsRun \<Rightarrow> GraphJob list \<Rightarrow> (bytes \<times> int) list" where
  "identities run jobs = map (\<lambda>j. (gj_JobKey j, gj_MatrixIndex j)) jobs @
     map (\<lambda>r. (rj_JobKey r, rj_MatrixIndex r)) (ar_RefusedJobs run)"

definition refused_ok :: "RefusedJob \<Rightarrow> bool" where
  "refused_ok r \<longleftrightarrow> validText (rj_JobKey r) 100 \<and> 0 \<le> rj_MatrixIndex r \<and>
     rj_MatrixIndex r < int MaximumActionsRunJobs"

definition run_graph_ok :: "ActionsRun \<Rightarrow> GraphJob list \<Rightarrow> bool" where
  "run_graph_ok run jobs \<longleftrightarrow>
     distinct (identities run jobs) \<and> length (identities run jobs) \<le> MaximumActionsRunJobs \<and>
     length (ar_FailFast run) = card (gj_JobKey ` set jobs) \<and>
     fst ` set (ar_FailFast run) \<subseteq> gj_JobKey ` set jobs \<and>
     (\<forall>r \<in> set (ar_RefusedJobs run). refused_ok r) \<and>
     length (ar_Needs run) \<le> MaximumActionsRunJobs \<and>
     (ar_Outcome run = [] \<longrightarrow> length (ar_Needs run) = card (job_keys run jobs)) \<and>
     graph_sound (ar_Needs run) (job_keys run jobs)"

lemma add_jobs_iff:
  "add_jobs xs ids = Some ids' \<longleftrightarrow> distinct xs \<and> set xs \<inter> ids = {} \<and> ids' = ids \<union> set xs"
  by (induction xs arbitrary: ids) auto

lemma add_refused_iff:
  "add_refused rs ids = Inr ids' \<longleftrightarrow> (\<forall>r \<in> set rs. refused_ok r) \<and>
     distinct (map (\<lambda>r. (rj_JobKey r, rj_MatrixIndex r)) rs) \<and>
     (\<lambda>r. (rj_JobKey r, rj_MatrixIndex r)) ` set rs \<inter> ids = {} \<and>
     ids' = ids \<union> (\<lambda>r. (rj_JobKey r, rj_MatrixIndex r)) ` set rs"
  by (induction rs arbitrary: ids) (auto simp: refused_ok_def)

lemma validateActionsGraph_ok: "validateActionsGraph run jobs = Inr () \<longleftrightarrow> run_graph_ok run jobs"
proof (cases "distinct (identities run jobs) \<and> (\<forall>r \<in> set (ar_RefusedJobs run). refused_ok r)")
  case True
  let ?ids = "(\<lambda>j. (gj_JobKey j, gj_MatrixIndex j)) ` set jobs"
  have a: "add_jobs (map (\<lambda>j. (gj_JobKey j, gj_MatrixIndex j)) jobs) {} = Some ?ids"
    using True by (simp add: add_jobs_iff identities_def)
  have r: "add_refused (ar_RefusedJobs run) ?ids = Inr (set (identities run jobs))"
    using True by (auto simp: add_refused_iff identities_def)
  have fin: "finite (job_keys run jobs)" by (simp add: job_keys_def)
  have c: "card (set (identities run jobs)) = length (identities run jobs)"
    using True by (simp add: distinct_card)
  show ?thesis
    unfolding validateActionsGraph_def a option.case run_graph_ok_def
    by (simp add: r c visit_keys_iff [OF fin] True subset_iff) (auto simp: image_iff)
next
  case False
  have "validateActionsGraph run jobs \<noteq> Inr ()"
  proof
    assume ok: "validateActionsGraph run jobs = Inr ()"
    then obtain ids where ids: "add_jobs (map (\<lambda>j. (gj_JobKey j, gj_MatrixIndex j)) jobs) {} = Some ids"
      by (cases "add_jobs (map (\<lambda>j. (gj_JobKey j, gj_MatrixIndex j)) jobs) {}")
        (simp_all add: validateActionsGraph_def)
    with ok obtain ids' where "add_refused (ar_RefusedJobs run) ids = Inr ids'"
      by (auto simp: validateActionsGraph_def)
    with ids False show False by (auto simp: add_jobs_iff add_refused_iff identities_def)
  qed
  then show ?thesis using False by (auto simp: run_graph_ok_def)
qed

text \<open>
  C38. The check of a stored run accepts exactly the well-formed runs: distinct job identities
  within the bound, fail-fast flags for the supported jobs only, valid refused jobs, needs for
  every job of an admitted run, and a graph whose jobs are known, whose edges are not
  repeated, and which has no cycle. The depth-first search, which stops at keys it already
  finished, refuses exactly the cyclic graphs.
\<close>
theorem validateActionsGraph_iff: "validateActionsGraph run jobs = Inr () \<longleftrightarrow> run_graph_ok run jobs"
  by (rule validateActionsGraph_ok)

definition dependency_spec :: "ActionsRun \<Rightarrow> GraphJob list \<Rightarrow> (bytes \<times> Dependency list) list" where
  "dependency_spec run jobs =
     map (\<lambda>key. (key, map (\<lambda>(status, tolerated). \<lparr>dp_Status = status, dp_Tolerated = tolerated,
         dp_AncestorFailed = has_ancestor (ar_Needs run) (outcome_failed run jobs) key,
         dp_AncestorAmbiguous = has_ancestor (ar_Needs run) (job_ambiguous jobs) key\<rparr>)
       (job_outcomes run jobs key))) (dependency_keys run jobs)"

lemma ambiguousAncestor_ok:
  assumes "\<not> job_ambiguous jobs []"
  shows "\<exists>a. ambiguousAncestor run jobs key = Some a \<and>
    (a \<noteq> [] \<longleftrightarrow> has_ancestor (ar_Needs run) (job_ambiguous jobs) key)"
proof -
  let ?g = "ar_Needs run" and ?amb = "job_ambiguous jobs"
  let ?N = "insert key (graph_nodes ?g)"
  have sub: "set (needs_of ?g k) \<subseteq> ?N" for k
    using needs_of_key [of ?g k] by (cases "needs_of ?g k = []") (auto simp: graph_nodes_def)
  have "card (?N - {}) \<le> Suc (card (graph_nodes ?g))"
    using finite_nodes [of ?g] by (simp add: card_insert_if)
  from findAmbiguous_total [OF _ sub this, of key ?amb] obtain w a
    where f: "findAmbiguous (Suc (card (graph_nodes ?g))) ?g ?amb {} key = Some (w, a)"
    using finite_nodes [of ?g] by auto
  note S = findAmbiguous_sound [OF f assms]
  have "a \<noteq> [] \<longleftrightarrow> has_ancestor ?g ?amb key"
  proof (cases "a = []")
    case True
    with S have e: "explored ?g ?amb {} w" "key \<in> w" by simp_all
    have "x \<in> w \<and> \<not> ?amb x" if "(key, x) \<in> (edges ?g)\<^sup>+" for x
      using that
    proof (induction rule: trancl_induct)
      case (base y)
      then show ?case using e unfolding explored_def edges_def by blast
    next
      case (step y z)
      then show ?case using e unfolding explored_def edges_def by blast
    qed
    then show ?thesis using True by (auto simp: has_ancestor_def)
  next
    case False
    then show ?thesis using S by (auto simp: has_ancestor_def)
  qed
  then show ?thesis using f by (simp add: ambiguousAncestor_def)
qed

text \<open>
  C39. On every run the check accepts, \<open>actionsDependencies\<close> returns, and it tells each job the
  truth: an ancestor failed exactly when some job it needs, directly or through others, has a
  result of failure, and an ancestor is ambiguous exactly when the execution of one is
  uncertain. The recursion has no guard of its own; the check before it is what ends it.
\<close>
theorem actionsDependencies_spec:
  assumes "validateActionsGraph run jobs = Inr ()" and "\<not> job_ambiguous jobs []"
  shows "actionsDependencies run jobs = Some (dependency_spec run jobs)"
proof -
  have "acyclic (edges (ar_Needs run))"
    using assms(1) by (simp add: validateActionsGraph_ok run_graph_ok_def graph_sound_def)
  from mark_keys_ok [OF this, of "outcome_failed run jobs" Map.empty] 
  have m: "mark_keys (Suc (card (graph_nodes (ar_Needs run)))) (ar_Needs run) (outcome_failed run jobs)
      Map.empty (dependency_keys run jobs) =
    Some (map (\<lambda>k. (k, has_ancestor (ar_Needs run) (outcome_failed run jobs) k)) (dependency_keys run jobs))"
    by (simp add: memo_ok_def)
  have "(case ambiguousAncestor run jobs key of None \<Rightarrow> False | Some a \<Rightarrow> a \<noteq> [])
      = has_ancestor (ar_Needs run) (job_ambiguous jobs) key" for key
    using ambiguousAncestor_ok [OF assms(2), of run key] by auto
  then show ?thesis by (simp add: actionsDependencies_def m dependency_spec_def comp_def)
qed

definition sample_jobs :: "GraphJob list" where
  "sample_jobs = [\<lparr>gj_JobKey = ''build'', gj_MatrixIndex = 0, gj_Status = StatusFailed, gj_Tolerated = False\<rparr>,
     \<lparr>gj_JobKey = ''test'', gj_MatrixIndex = 0, gj_Status = StatusWaiting, gj_Tolerated = False\<rparr>]"

definition sample_run :: ActionsRun where
  "sample_run = \<lparr>ar_Outcome = [], ar_Needs = [(''build'', []), (''test'', [''build''])],
     ar_FailFast = [(''build'', True), (''test'', True)], ar_RefusedJobs = []\<rparr>"

theorem actionsDependencies_spec_witness:
  "actionsDependencies sample_run sample_jobs = Some (dependency_spec sample_run sample_jobs)"
proof (rule actionsDependencies_spec)
  show "validateActionsGraph sample_run sample_jobs = Inr ()" by code_simp
  show "\<not> job_ambiguous sample_jobs []" by code_simp
qed

end
