(* ===== verification/Cron.thy ===== *)
theory Cron
  imports Prelude
begin

text \<open>
  The schedule of a workflow (\<open>internal/actions/cron.go\<close>): the five-field expression, and the
  search for the next or the latest matching minute. A \<open>time.Time\<close> in UTC is the number of
  nanoseconds since 1970, a day its number since then; the proleptic Gregorian calendar of
  the \<open>time\<close> package is written out.
\<close>

subsection \<open>Time\<close>

definition minute_ns :: int where "minute_ns = 60000000000"

definition day_ns :: int where "day_ns = 1440 * minute_ns"

text \<open>Year, month and day of a day number, with years that begin in March inside.\<close>

definition civil_from_days :: "int \<Rightarrow> int \<times> int \<times> int" where
  "civil_from_days d =
     (let z = d + 719468; era = z div 146097; doe = z mod 146097;
          yoe = (doe - doe div 1460 + doe div 36524 - doe div 146096) div 365;
          doy = doe - (365 * yoe + yoe div 4 - yoe div 100);
          mp = (5 * doy + 2) div 153;
          dom = doy - (153 * mp + 2) div 5 + 1;
          m = (if mp < 10 then mp + 3 else mp - 9)
      in (yoe + era * 400 + (if m \<le> 2 then 1 else 0), m, dom))"

definition days_from_civil :: "int \<Rightarrow> int \<Rightarrow> int \<Rightarrow> int" where
  "days_from_civil y m d =
     (let y' = (if m \<le> 2 then y - 1 else y); era = y' div 400; yoe = y' mod 400;
          doy = (153 * (if m > 2 then m - 3 else m + 9) + 2) div 5 + d - 1
      in era * 146097 + (yoe * 365 + yoe div 4 - yoe div 100 + doy) - 719468)"

definition month_of :: "int \<Rightarrow> nat" where
  "month_of d = nat (fst (snd (civil_from_days d)))"

definition dom_of :: "int \<Rightarrow> nat" where
  "dom_of d = nat (snd (snd (civil_from_days d)))"

definition weekday_of :: "int \<Rightarrow> nat" where
  "weekday_of d = nat ((d + 4) mod 7)"

text \<open>\<open>AddDate(years, 0, 0)\<close>; the 29th of February of a year without one is the 1st of March.\<close>

definition add_years :: "int \<Rightarrow> int \<Rightarrow> int" where
  "add_years t years =
     (case civil_from_days (t div day_ns) of
       (y, m, d) \<Rightarrow> (days_from_civil (y + years) m 1 + d - 1) * day_ns + t mod day_ns)"

lemma civil_samples:
  "map civil_from_days [0, -1, 11016, 11017, 47540, 47541] =
     [(1970, 1, 1), (1969, 12, 31), (2000, 2, 29), (2000, 3, 1), (2100, 2, 28), (2100, 3, 1)]"
  "map (\<lambda>(y, m, d). days_from_civil y m d) [(1970, 1, 1), (1969, 12, 31), (2000, 2, 29), (2000, 3, 1),
      (2100, 2, 28), (2100, 3, 1)] = [0, -1, 11016, 11017, 47540, 47541]"
  by code_simp+

subsection \<open>The schedule\<close>

record Cron =
  cr_fields :: "bool list list"
  cr_dayStar :: bool
  cr_weekStar :: bool
  cr_text :: bytes

datatype cron_error = CronSyntax | CronNever

text \<open>\<open>strings.EqualFold\<close> against an ASCII name: besides letter case, the long s and the Kelvin sign fold.\<close>

fun equal_fold :: "bytes \<Rightarrow> bytes \<Rightarrow> bool" where
  "equal_fold s [] = (s = [])"
| "equal_fold s (n # ns) =
     ((s \<noteq> [] \<and> lower_char (hd s) = lower_char n \<and> equal_fold (tl s) ns) \<or>
      (lower_char n = CHR ''s'' \<and> prefix [CHR 0xC5, CHR 0xBF] s \<and> equal_fold (drop 2 s) ns) \<or>
      (lower_char n = CHR ''k'' \<and> prefix [CHR 0xE2, CHR 0x84, CHR 0xAA] s \<and> equal_fold (drop 3 s) ns))"

definition month_names :: "bytes list" where
  "month_names = [''JAN'', ''FEB'', ''MAR'', ''APR'', ''MAY'', ''JUN'', ''JUL'', ''AUG'', ''SEP'', ''OCT'', ''NOV'', ''DEC'']"

definition weekday_names :: "bytes list" where
  "weekday_names = [''SUN'', ''MON'', ''TUE'', ''WED'', ''THU'', ''FRI'', ''SAT'']"

definition named_number :: "nat \<Rightarrow> bytes \<Rightarrow> nat option" where
  "named_number field s =
     (if field = 3 then map_option (\<lambda>(i, _). i + 1) (List.find (\<lambda>(i, n). equal_fold s n) (zip [0..<12] month_names))
      else if field = 4 then map_option fst (List.find (\<lambda>(i, n). equal_fold s n) (zip [0..<7] weekday_names))
      else None)"

definition cron_number :: "nat \<Rightarrow> nat \<Rightarrow> nat \<Rightarrow> bytes \<Rightarrow> nat option" where
  "cron_number low high field s =
     (case named_number field s of
       Some n \<Rightarrow> Some n
     | None \<Rightarrow>
        (case unsigned_decimal s of
          None \<Rightarrow> None
        | Some n \<Rightarrow> if n < low \<or> n > high then None else Some n))"

text \<open>One item of a comma list: its first value, last value and step.\<close>

definition cron_item :: "nat \<Rightarrow> nat \<Rightarrow> nat \<Rightarrow> bytes \<Rightarrow> (nat \<times> nat \<times> nat) option" where
  "cron_item low high field item =
     (let (rangeText, stepText, stepped) = cut (CHR ''/'') item in
      case (if stepped
            then (case Atoi stepText of
                None \<Rightarrow> None
              | Some n \<Rightarrow> if n < 1 \<or> n > int (high - low + 1) then None else Some (nat n))
            else Some 1) of
        None \<Rightarrow> None
      | Some step \<Rightarrow>
          if rangeText = ''*'' then Some (low, high, step)
          else
            let (first, last', ranged) = cut (CHR ''-'') rangeText in
            case cron_number low high field first of
              None \<Rightarrow> None
            | Some start \<Rightarrow>
                (case (if ranged then cron_number low high field last'
                       else if stepped then Some high else Some start) of
                  None \<Rightarrow> None
                | Some end' \<Rightarrow> if start > end' then None else Some (start, end', step)))"

function mark_steps :: "nat \<Rightarrow> nat \<Rightarrow> nat \<Rightarrow> bool list \<Rightarrow> bool list" where
  "mark_steps n end' step vs =
     (if n > end' \<or> step = 0 then vs else mark_steps (n + step) end' step (vs[n := True]))"
  by pat_completeness auto
termination by (relation "measure (\<lambda>(n, end', step, vs). Suc end' - n)") auto

declare mark_steps.simps [simp del]

fun mark_items :: "nat \<Rightarrow> nat \<Rightarrow> nat \<Rightarrow> bytes list \<Rightarrow> bool list \<Rightarrow> bool list option" where
  "mark_items low high field [] vs = Some vs"
| "mark_items low high field (item # items) vs =
     (case cron_item low high field item of
       None \<Rightarrow> None
     | Some (start, end', step) \<Rightarrow> mark_items low high field items (mark_steps start end' step vs))"

definition cronField :: "bytes \<Rightarrow> nat \<Rightarrow> nat \<Rightarrow> nat \<Rightarrow> bool list option" where
  "cronField text low high field =
     mark_items low high field (split_on (CHR '','') text) (replicate (high + 1) False)"

subsection \<open>The search\<close>

definition matchesDay :: "Cron \<Rightarrow> int \<Rightarrow> bool" where
  "matchesDay cron day =
     (if \<not> cr_fields cron ! 3 ! month_of day then False
      else
        let dom = cr_fields cron ! 2 ! dom_of day; dow = cr_fields cron ! 4 ! weekday_of day in
        if \<not> cr_dayStar cron \<and> \<not> cr_weekStar cron then dom \<or> dow else dom \<and> dow)"

text \<open>The minutes of a day in the order the two inner loops visit them.\<close>

definition day_slots :: "Cron \<Rightarrow> bool \<Rightarrow> int list" where
  "day_slots cron backwards =
     [int (h * 60 + m). h \<leftarrow> (if backwards then rev [0..<24] else [0..<24]), cr_fields cron ! 1 ! h,
        m \<leftarrow> (if backwards then rev [0..<60] else [0..<60]), cr_fields cron ! 0 ! m]"

definition candidate_ok :: "bool \<Rightarrow> int \<Rightarrow> int \<Rightarrow> int \<Rightarrow> bool" where
  "candidate_ok backwards at limit candidate =
     (if backwards then candidate \<le> at \<and> candidate \<ge> limit else candidate > at \<and> candidate \<le> limit)"

function search_days :: "Cron \<Rightarrow> bool \<Rightarrow> int \<Rightarrow> int \<Rightarrow> int \<Rightarrow> int option" where
  "search_days cron backwards at limit day =
     (if (\<not> backwards \<and> day * day_ns \<le> limit) \<or> (backwards \<and> day * day_ns + day_ns \<ge> limit) then
        (case (if matchesDay cron day
               then List.find (candidate_ok backwards at limit)
                      (map (\<lambda>m. day * day_ns + m * minute_ns) (day_slots cron backwards))
               else None) of
          Some t \<Rightarrow> Some t
        | None \<Rightarrow> search_days cron backwards at limit (if backwards then day - 1 else day + 1))
      else None)"
  by pat_completeness auto
termination
  by (relation "measure (\<lambda>(cron, backwards, at, limit, day).
        nat (if backwards then (day + 2) * day_ns - limit else limit + 1 - day * day_ns))")
    (auto simp: day_ns_def minute_ns_def nat_less_iff)

declare search_days.simps [simp del]

definition cron_search :: "Cron \<Rightarrow> int \<Rightarrow> bool \<Rightarrow> cron_error + int" where
  "cron_search cron at backwards =
     (case search_days cron backwards at (add_years at (if backwards then - 8 else 5)) (at div day_ns) of
       None \<Rightarrow> Inl CronNever
     | Some t \<Rightarrow> Inr t)"

definition Next :: "Cron \<Rightarrow> int \<Rightarrow> cron_error + int" where
  "Next cron after = cron_search cron after False"

definition Latest :: "Cron \<Rightarrow> int \<Rightarrow> cron_error + int" where
  "Latest cron at = cron_search cron at True"

fun parse_fields :: "(nat \<times> nat) list \<Rightarrow> nat \<Rightarrow> bytes list \<Rightarrow> bool list list option" where
  "parse_fields ((low, high) # bounds) i (part # parts) =
     (case cronField part low high i of
       None \<Rightarrow> None
     | Some vs \<Rightarrow> map_option (Cons vs) (parse_fields bounds (i + 1) parts))"
| "parse_fields _ _ _ = Some []"

definition cron_bounds :: "(nat \<times> nat) list" where
  "cron_bounds = [(0, 59), (0, 23), (1, 31), (1, 12), (0, 7)]"

definition ParseCron :: "bytes \<Rightarrow> cron_error + Cron" where
  "ParseCron text =
     (let parts = Fields text in
      if length parts \<noteq> 5 \<or> length text > 512 then Inl CronSyntax
      else case parse_fields cron_bounds 0 parts of
        None \<Rightarrow> Inl CronSyntax
      | Some fs \<Rightarrow>
          let week = fs ! 4;
              week' = (if week ! 7 then week[0 := True] else week);
              cron = \<lparr>cr_fields = fs[4 := week'], cr_dayStar = prefix ''*'' (parts ! 2),
                cr_weekStar = prefix ''*'' (parts ! 4), cr_text = text\<rparr>
          in bindE (Next cron (days_from_civil 2000 1 1 * day_ns)) (\<lambda>_. Inr cron))"

subsection \<open>What the search finds\<close>

text \<open>A time matches when it is a whole minute whose day, hour and minute are marked.\<close>

definition slot_of :: "int \<Rightarrow> int" where
  "slot_of t = (t mod day_ns) div minute_ns"

definition slot_marked :: "Cron \<Rightarrow> int \<Rightarrow> bool" where
  "slot_marked cron m \<longleftrightarrow> cr_fields cron ! 1 ! nat (m div 60) \<and> cr_fields cron ! 0 ! nat (m mod 60)"

definition matches :: "Cron \<Rightarrow> int \<Rightarrow> bool" where
  "matches cron t \<longleftrightarrow> t mod minute_ns = 0 \<and> matchesDay cron (t div day_ns) \<and> slot_marked cron (slot_of t)"

lemma minute_pos [simp]: "0 < minute_ns" by (simp add: minute_ns_def)

lemma day_pos [simp]: "0 < day_ns" by (simp add: day_ns_def)

lemma slot_range: "0 \<le> slot_of t" "slot_of t < 1440"
proof -
  have "0 \<le> t mod day_ns" "t mod day_ns < 1440 * minute_ns"
    by (simp_all add: day_ns_def minute_ns_def)
  then show "0 \<le> slot_of t" "slot_of t < 1440"
    by (simp_all add: slot_of_def minute_ns_def pos_imp_zdiv_nonneg_iff)
qed

lemma time_split:
  assumes "0 \<le> m" and "m < 1440"
  shows "(d * day_ns + m * minute_ns) div day_ns = d" "slot_of (d * day_ns + m * minute_ns) = m"
    "(d * day_ns + m * minute_ns) mod minute_ns = 0"
  using assms by (simp_all add: slot_of_def day_ns_def minute_ns_def)

lemma time_join:
  assumes "t mod minute_ns = 0"
  shows "(t div day_ns) * day_ns + slot_of t * minute_ns = t"
proof -
  have "minute_ns dvd t mod day_ns"
    using assms by (simp add: day_ns_def dvd_mod mod_0_imp_dvd)
  then have "slot_of t * minute_ns = t mod day_ns" by (simp add: slot_of_def)
  then show ?thesis by simp
qed

lemma product_snoc: "List.product (xs @ [x]) ys = List.product xs ys @ map (Pair x) ys"
  by (induction xs) auto

lemma product_rev: "List.product (rev xs) (rev ys) = rev (List.product xs ys)"
  by (induction xs) (simp_all add: product_snoc rev_map)

lemma product_minutes: "map (\<lambda>(h, m). h * 60 + m) (List.product [0..<k] [0..<60]) = [0..<k * 60]"
proof (induction k)
  case (Suc k)
  have "map (\<lambda>m. k * 60 + m) [0..<60] = [k * 60..<k * 60 + 60]"
    using map_add_upt [of "k * 60" 60] by (simp add: add.commute)
  then show ?case
    using Suc upt_add_eq_append [of 0 "k * 60" 60] by (simp add: product_snoc comp_def add.commute)
qed simp

definition all_slots :: "Cron \<Rightarrow> (nat \<times> nat) list \<Rightarrow> int list" where
  "all_slots cron ps = map (\<lambda>(h, m). int (h * 60 + m))
     (filter (\<lambda>(h, m). cr_fields cron ! 1 ! h \<and> cr_fields cron ! 0 ! m) ps)"

lemma concat_if: "concat (map (\<lambda>m. if P m then [g m] else []) xs) = map g (filter P xs)"
  by (induction xs) auto

lemma day_slots_product:
  "day_slots cron False = all_slots cron (List.product [0..<24] [0..<60])"
  "day_slots cron True = all_slots cron (rev (List.product [0..<24] [0..<60]))"
proof -
  have *: "concat (map (\<lambda>h. if cr_fields cron ! 1 ! h
      then concat (map (\<lambda>m. if cr_fields cron ! 0 ! m then [int (h * 60 + m)] else []) ms) else []) hs)
    = all_slots cron (List.product hs ms)" for hs ms
    by (induction hs) (auto simp: all_slots_def concat_if filter_map comp_def)
  show "day_slots cron False = all_slots cron (List.product [0..<24] [0..<60])"
    unfolding day_slots_def by (simp only: if_False *)
  show "day_slots cron True = all_slots cron (rev (List.product [0..<24] [0..<60]))"
    unfolding day_slots_def by (simp only: if_True * product_rev)
qed

lemma day_slots_rev: "day_slots cron True = rev (day_slots cron False)"
  by (simp only: day_slots_product all_slots_def rev_filter rev_map)

lemma day_slots_sorted: "sorted (day_slots cron False)"
proof -
  have "sorted (map int (map (\<lambda>(h, m). h * 60 + m) (List.product [0..<24] [0..<60])))"
    by (simp only: product_minutes sorted_map) (simp add: sorted_wrt_upt)
  then have "sorted (map (\<lambda>(h, m). int (h * 60 + m)) (List.product [0..<24] [0..<60]))"
    by (simp only: map_map comp_def case_prod_beta')
  then show ?thesis
    unfolding day_slots_product all_slots_def by (rule sorted_filter)
qed

lemma day_slots_set: "set (day_slots cron b) = {m. 0 \<le> m \<and> m < 1440 \<and> slot_marked cron m}"
proof -
  have "set (day_slots cron False) = {m. 0 \<le> m \<and> m < 1440 \<and> slot_marked cron m}"
  proof (intro set_eqI iffI)
    fix x assume "x \<in> set (day_slots cron False)"
    then obtain h m where x: "x = int (h * 60 + m)" "h < 24" "m < 60"
      "cr_fields cron ! 1 ! h" "cr_fields cron ! 0 ! m"
      unfolding day_slots_product all_slots_def by auto
    then have "nat (x div 60) = h" "nat (x mod 60) = m" by auto
    then show "x \<in> {m. 0 \<le> m \<and> m < 1440 \<and> slot_marked cron m}"
      using x by (simp add: slot_marked_def)
  next
    fix x assume "x \<in> {m. 0 \<le> m \<and> m < 1440 \<and> slot_marked cron m}"
    then have x: "0 \<le> x" "x < 1440" "cr_fields cron ! 1 ! nat (x div 60)" "cr_fields cron ! 0 ! nat (x mod 60)"
      by (simp_all add: slot_marked_def)
    have "x = int (nat (x div 60) * 60 + nat (x mod 60))"
      using x(1,2) by (simp add: pos_imp_zdiv_nonneg_iff)
    moreover have "nat (x div 60) < 24" "nat (x mod 60) < 60" using x(1,2) by auto
    ultimately show "x \<in> set (day_slots cron False)"
      using x(3,4) unfolding day_slots_product all_slots_def by force
  qed
  then show ?thesis by (cases b) (simp_all add: day_slots_rev)
qed


text \<open>The candidates of one day are its matching minutes, ascending or descending.\<close>

definition day_candidates :: "Cron \<Rightarrow> bool \<Rightarrow> int \<Rightarrow> int list" where
  "day_candidates cron b day = map (\<lambda>m. day * day_ns + m * minute_ns) (day_slots cron b)"

lemma day_candidates_set:
  assumes "matchesDay cron day"
  shows "set (day_candidates cron b day) = {t. matches cron t \<and> t div day_ns = day}"
proof (intro set_eqI iffI)
  fix t assume "t \<in> set (day_candidates cron b day)"
  then obtain m where m: "0 \<le> m" "m < 1440" "slot_marked cron m" "t = day * day_ns + m * minute_ns"
    by (auto simp: day_candidates_def day_slots_set)
  then show "t \<in> {t. matches cron t \<and> t div day_ns = day}"
    using time_split [of m day] assms by (simp add: matches_def)
next
  fix t assume t: "t \<in> {t. matches cron t \<and> t div day_ns = day}"
  then have "t = day * day_ns + slot_of t * minute_ns" "slot_marked cron (slot_of t)"
    using time_join [of t] by (auto simp: matches_def)
  then show "t \<in> set (day_candidates cron b day)"
    using slot_range [of t] by (auto simp: day_candidates_def day_slots_set)
qed

lemma day_candidates_rev: "day_candidates cron True day = rev (day_candidates cron False day)"
  by (simp add: day_candidates_def day_slots_rev rev_map)

lemma day_candidates_sorted: "sorted (day_candidates cron False day)"
  unfolding day_candidates_def
  by (rule sorted_map_mono [OF day_slots_sorted]) (simp add: mono_on_def minute_ns_def)

lemma find_sorted:
  assumes "sorted xs" and "List.find P xs = Some t" and "u \<in> set xs" and "P u"
  shows "t \<le> u"
  using assms by (induction xs) (auto split: if_splits)

lemma find_sorted_rev:
  assumes "sorted (rev xs)" and "List.find P xs = Some t" and "u \<in> set xs" and "P u"
  shows "u \<le> t"
  using assms by (induction xs) (auto simp: sorted_append split: if_splits)


text \<open>Forwards and backwards the search returns the nearest matching time, or there is none.\<close>

definition nearest :: "Cron \<Rightarrow> bool \<Rightarrow> int \<Rightarrow> int \<Rightarrow> int option \<Rightarrow> bool" where
  "nearest cron b at limit r \<longleftrightarrow>
     (case r of
       None \<Rightarrow> \<forall>t. candidate_ok b at limit t \<longrightarrow> \<not> matches cron t
     | Some t \<Rightarrow> candidate_ok b at limit t \<and> matches cron t \<and>
         (\<forall>u. candidate_ok b at limit u \<longrightarrow> matches cron u \<longrightarrow> (if b then u \<le> t else t \<le> u)))"

definition day_hit :: "Cron \<Rightarrow> bool \<Rightarrow> int \<Rightarrow> int \<Rightarrow> int \<Rightarrow> int option" where
  "day_hit cron b at limit day =
     (if matchesDay cron day then List.find (candidate_ok b at limit) (day_candidates cron b day) else None)"

lemma day_hit_None:
  "day_hit cron b at limit day = None \<Longrightarrow> matches cron t \<Longrightarrow> t div day_ns = day \<Longrightarrow> \<not> candidate_ok b at limit t"
  using day_candidates_set [of cron day b]
  by (cases "matchesDay cron day") (auto simp: day_hit_def find_None_iff matches_def)

lemma day_hit_Some:
  assumes "day_hit cron b at limit day = Some t"
  shows "candidate_ok b at limit t" "matches cron t" "t div day_ns = day"
proof -
  have d: "matchesDay cron day" using assms by (auto simp: day_hit_def split: if_splits)
  then have "t \<in> set (day_candidates cron b day) \<and> candidate_ok b at limit t"
    using assms by (auto simp: day_hit_def find_Some_iff)
  then show "candidate_ok b at limit t" "matches cron t" "t div day_ns = day"
    by (auto simp: day_candidates_set [OF d])
qed

lemma day_hit_nearest:
  assumes "day_hit cron b at limit day = Some t" and "matches cron u" and "u div day_ns = day"
    and "candidate_ok b at limit u"
  shows "if b then u \<le> t else t \<le> u"
proof -
  have d: "matchesDay cron day" using assms(1) by (auto simp: day_hit_def split: if_splits)
  have "u \<in> set (day_candidates cron b day)" using assms by (simp add: day_candidates_set [OF d])
  moreover have "List.find (candidate_ok b at limit) (day_candidates cron b day) = Some t"
    using assms(1) d by (simp add: day_hit_def)
  ultimately show ?thesis
    using find_sorted [OF day_candidates_sorted] find_sorted_rev [of "day_candidates cron True day"]
      day_candidates_sorted assms(4) by (cases b) (auto simp: day_candidates_rev)
qed

lemma search_days_unfold:
  "search_days cron b at limit day =
     (if (\<not> b \<and> day * day_ns \<le> limit) \<or> (b \<and> day * day_ns + day_ns \<ge> limit) then
        (case day_hit cron b at limit day of
          Some t \<Rightarrow> Some t
        | None \<Rightarrow> search_days cron b at limit (if b then day - 1 else day + 1))
      else None)"
  by (subst search_days.simps) (simp add: day_hit_def day_candidates_def cong: if_cong)

text \<open>The days already visited hold no candidate.\<close>

definition passed :: "Cron \<Rightarrow> bool \<Rightarrow> int \<Rightarrow> int \<Rightarrow> int \<Rightarrow> bool" where
  "passed cron b at limit day \<longleftrightarrow>
     (\<forall>u. candidate_ok b at limit u \<longrightarrow> matches cron u \<longrightarrow>
        (if b then u div day_ns \<le> day else day \<le> u div day_ns))"

lemma day_bounds: "(t div day_ns) * day_ns \<le> t" "t < (t div day_ns) * day_ns + day_ns"
proof -
  have "t = (t div day_ns) * day_ns + t mod day_ns" by simp
  moreover have "0 \<le> t mod day_ns" "t mod day_ns < day_ns" by simp_all
  ultimately show "(t div day_ns) * day_ns \<le> t" "t < (t div day_ns) * day_ns + day_ns" by linarith+
qed

lemma search_days_nearest:
  "passed cron b at limit day \<Longrightarrow> nearest cron b at limit (search_days cron b at limit day)"
proof (induction cron b at limit day rule: search_days.induct)
  case (1 cron b at limit day)
  show ?case
  proof (cases "(\<not> b \<and> day * day_ns \<le> limit) \<or> (b \<and> day * day_ns + day_ns \<ge> limit)")
    case False
    have "\<not> candidate_ok b at limit u" if "matches cron u" for u
    proof
      assume "candidate_ok b at limit u"
      then have "if b then u div day_ns \<le> day else day \<le> u div day_ns"
        using "1.prems" that by (auto simp: passed_def)
      then have "if b then (u div day_ns) * day_ns \<le> day * day_ns else day * day_ns \<le> (u div day_ns) * day_ns"
        by (auto split: if_splits)
      then show False
        using False day_bounds [of u] \<open>candidate_ok b at limit u\<close>
        by (auto simp: candidate_ok_def split: if_splits)
    qed
    then show ?thesis using False by (subst search_days_unfold) (auto simp: nearest_def)
  next
    case True
    show ?thesis
    proof (cases "day_hit cron b at limit day")
      case None
      have "passed cron b at limit (if b then day - 1 else day + 1)"
        unfolding passed_def
      proof (intro allI impI)
        fix u assume u: "candidate_ok b at limit u" "matches cron u"
        then have "u div day_ns \<noteq> day" using day_hit_None [OF None] by blast
        moreover have "if b then u div day_ns \<le> day else day \<le> u div day_ns"
          using u "1.prems" unfolding passed_def by blast
        ultimately show "if b then u div day_ns \<le> (if b then day - 1 else day + 1)
            else (if b then day - 1 else day + 1) \<le> u div day_ns"
          by (auto split: if_splits)
      qed
      moreover have "(if matchesDay cron day then List.find (candidate_ok b at limit)
          (map (\<lambda>m. day * day_ns + m * minute_ns) (day_slots cron b)) else None) = None"
        using None by (simp only: day_hit_def day_candidates_def)
      ultimately have "nearest cron b at limit (search_days cron b at limit (if b then day - 1 else day + 1))"
        using "1.IH" True by blast
      then show ?thesis using True None by (subst search_days_unfold) simp
    next
      case (Some t)
      have "if b then u \<le> t else t \<le> u" if u: "candidate_ok b at limit u" "matches cron u" for u
      proof (cases "u div day_ns = day")
        case True
        then show ?thesis using day_hit_nearest [OF Some] u by blast
      next
        case False
        then have "if b then u div day_ns + 1 \<le> day else day + 1 \<le> u div day_ns"
          using u "1.prems" by (cases b) (auto simp: passed_def)
        then have "if b then (u div day_ns + 1) * day_ns \<le> day * day_ns
            else (day + 1) * day_ns \<le> (u div day_ns) * day_ns"
          by (auto simp del: distrib_right intro: mult_right_mono split: if_splits)
        then show ?thesis
          using day_bounds [of u] day_bounds [of t] day_hit_Some(3) [OF Some]
          by (auto simp: distrib_right split: if_splits)
      qed
      then have "nearest cron b at limit (Some t)"
        using day_hit_Some [OF Some] by (simp add: nearest_def)
      then show ?thesis using True Some by (subst search_days_unfold) simp
    qed
  qed
qed

text \<open>\<open>Next\<close> and \<open>Latest\<close>, with the windows of five and of eight years.\<close>

definition search_result :: "Cron \<Rightarrow> bool \<Rightarrow> int \<Rightarrow> int \<Rightarrow> cron_error + int \<Rightarrow> bool" where
  "search_result cron b at limit r \<longleftrightarrow>
     (case r of
       Inl e \<Rightarrow> e = CronNever \<and> nearest cron b at limit None
     | Inr t \<Rightarrow> nearest cron b at limit (Some t))"

lemma passed_start: "passed cron b at limit (at div day_ns)"
  by (auto simp: passed_def candidate_ok_def intro: zdiv_mono1)

lemma cron_search_nearest:
  "search_result cron b at (add_years at (if b then - 8 else 5)) (cron_search cron at b)"
  using search_days_nearest [OF passed_start, of cron b at "add_years at (if b then - 8 else 5)"]
  by (auto simp: cron_search_def search_result_def split: option.splits)

text \<open>C40. \<open>Next\<close> returns the first whole minute after the given time, within five years, whose
  minute, hour, month and day the expression marks, and reports that the expression never
  matches exactly when the window holds no such minute.\<close>

theorem Next_first: "search_result cron False after (add_years after 5) (Next cron after)"
  using cron_search_nearest [of cron False after] by (simp add: Next_def)

text \<open>\<open>Latest\<close> returns the last matching minute at or before the given time, within eight
  years, and reports that the expression never matches exactly when there is none.\<close>

theorem Latest_last: "search_result cron True at (add_years at (- 8)) (Latest cron at)"
  using cron_search_nearest [of cron True at] by (simp add: Latest_def)

subsection \<open>Schedules that fire too often\<close>

text \<open>The scan of the slots of a day; \<open>None\<close> is the early return of two close slots.\<close>

fun scan_slots :: "int list \<Rightarrow> int \<Rightarrow> int \<Rightarrow> (int \<times> int) option" where
  "scan_slots [] first prev = Some (first, prev)"
| "scan_slots (slot # slots) first prev =
     (if prev \<ge> 0 \<and> slot - prev < 5 then None
      else scan_slots slots (if first < 0 then slot else first) slot)"

text \<open>The loop over the days, the last one included.\<close>

function adjacent_days :: "Cron \<Rightarrow> int \<Rightarrow> int \<Rightarrow> bool" where
  "adjacent_days cron day end' =
     (if day > end' then False
      else (matchesDay cron day \<and> matchesDay cron (day + 1)) \<or> adjacent_days cron (day + 1) end')"
  by pat_completeness auto
termination by (relation "measure (\<lambda>(cron, day, end'). nat (end' + 1 - day))") auto

declare adjacent_days.simps [simp del]

definition Often :: "Cron \<Rightarrow> int \<Rightarrow> bool" where
  "Often cron now =
     (case scan_slots (day_slots cron False) (- 1) (- 1) of
       None \<Rightarrow> True
     | Some (first, prev) \<Rightarrow>
         if first < 0 \<or> 1440 - prev + first \<ge> 5 then False
         else
           let day = now div day_ns
           in adjacent_days cron day (add_years (day * day_ns) 5 div day_ns))"


lemma day_slots_distinct: "distinct (day_slots cron False)"
proof -
  have "distinct (map int (map (\<lambda>(h, m). h * 60 + m) (List.product [0..<24] [0..<60])))"
    by (simp only: product_minutes distinct_map distinct_upt) simp
  then have "distinct (map (\<lambda>(h, m). int (h * 60 + m)) (List.product [0..<24] [0..<60]))"
    by (simp only: map_map comp_def case_prod_beta')
  then show ?thesis
    unfolding day_slots_product all_slots_def by (rule distinct_map_filter)
qed

definition two_close :: "int set \<Rightarrow> bool" where
  "two_close S \<longleftrightarrow> (\<exists>s \<in> S. \<exists>t \<in> S. s < t \<and> t - s < 5)"

lemma two_close_insert:
  assumes "sorted_wrt (<) (p # x # xs)"
  shows "two_close (set (p # x # xs)) \<longleftrightarrow> x - p < 5 \<or> two_close (set (x # xs))"
proof
  assume "two_close (set (p # x # xs))"
  then obtain s t where st: "s \<in> set (p # x # xs)" "t \<in> set (p # x # xs)" "s < t" "t - s < 5"
    by (auto simp: two_close_def)
  show "x - p < 5 \<or> two_close (set (x # xs))"
  proof (cases "s = p")
    case True
    then have "x \<le> t" using st assms by auto
    then show ?thesis using st True by simp
  next
    case False
    then have "s \<in> set (x # xs)" "t \<in> set (x # xs)" using st assms by auto
    then show ?thesis using st by (auto simp: two_close_def)
  qed
next
  assume "x - p < 5 \<or> two_close (set (x # xs))"
  then show "two_close (set (p # x # xs))"
    using assms by (auto simp: two_close_def)
qed

lemma scan_slots_from:
  assumes "sorted_wrt (<) (p # xs)" and "0 \<le> p" and "0 \<le> f"
  shows "scan_slots xs f p = (if two_close (set (p # xs)) then None else Some (f, last (p # xs)))"
  using assms
proof (induction xs arbitrary: p)
  case Nil
  then show ?case by (simp add: two_close_def)
next
  case (Cons x xs)
  have "scan_slots xs f x = (if two_close (set (x # xs)) then None else Some (f, last (x # xs)))"
    using Cons by simp
  then show ?case
    using two_close_insert [OF Cons.prems(1)] Cons.prems(2,3) by (simp del: list.set)
qed

lemma scan_slots_all:
  assumes "sorted_wrt (<) xs" and "\<forall>x \<in> set xs. 0 \<le> x"
  shows "scan_slots xs (- 1) (- 1) =
    (if two_close (set xs) then None else if xs = [] then Some (- 1, - 1) else Some (hd xs, last xs))"
  using assms scan_slots_from [of "hd xs" "tl xs" "hd xs"]
  by (cases xs) (simp_all add: two_close_def)

lemma day_slots_strict: "sorted_wrt (<) (day_slots cron False)"
  using day_slots_sorted day_slots_distinct strict_sorted_iff by blast

lemma adjacent_days_iff:
  "adjacent_days cron day end' \<longleftrightarrow> (\<exists>d. day \<le> d \<and> d \<le> end' \<and> matchesDay cron d \<and> matchesDay cron (d + 1))"
proof (induction cron day end' rule: adjacent_days.induct)
  case (1 cron day end')
  show ?case
  proof (cases "day > end'")
    case True
    then show ?thesis by (subst adjacent_days.simps) auto
  next
    case False
    have "adjacent_days cron day end' \<longleftrightarrow> matchesDay cron day \<and> matchesDay cron (day + 1) \<or>
        (\<exists>d. day + 1 \<le> d \<and> d \<le> end' \<and> matchesDay cron d \<and> matchesDay cron (d + 1))"
      using False "1.IH" [OF False] by (subst adjacent_days.simps) simp
    also have "\<dots> \<longleftrightarrow> (\<exists>d. day \<le> d \<and> d \<le> end' \<and> matchesDay cron d \<and> matchesDay cron (d + 1))"
      using False by (metis add1_zle_eq linorder_not_less order_le_less)
    finally show ?thesis .
  qed
qed

text \<open>Two matching times less than five minutes apart, on two days in a row of which the first is in the window.\<close>

definition close_over_midnight :: "Cron \<Rightarrow> int \<Rightarrow> int \<Rightarrow> bool" where
  "close_over_midnight cron day end' \<longleftrightarrow>
     (\<exists>s t. matches cron s \<and> matches cron t \<and> day \<le> s div day_ns \<and> s div day_ns \<le> end' \<and>
        t div day_ns = s div day_ns + 1 \<and> t - s < 5 * minute_ns)"

lemma sorted_hd_last: "sorted (xs :: int list) \<Longrightarrow> x \<in> set xs \<Longrightarrow> hd xs \<le> x \<and> x \<le> last xs"
  by (induction xs) auto

lemma matches_slot: "matches cron t \<Longrightarrow> slot_of t \<in> set (day_slots cron False)"
  using slot_range [of t] by (simp add: matches_def day_slots_set)

lemma slot_matches:
  "m \<in> set (day_slots cron False) \<Longrightarrow> matchesDay cron d \<Longrightarrow> matches cron (d * day_ns + m * minute_ns)"
  using time_split [of m d] by (simp add: day_slots_set matches_def)

lemma close_over_midnight_iff:
  assumes ne: "day_slots cron False \<noteq> []"
  shows "close_over_midnight cron day end' \<longleftrightarrow>
    1440 - last (day_slots cron False) + hd (day_slots cron False) < 5 \<and> adjacent_days cron day end'"
    (is "_ \<longleftrightarrow> 1440 - ?l + ?h < 5 \<and> _")
proof
  assume "close_over_midnight cron day end'"
  then obtain s t where st: "matches cron s" "matches cron t" "day \<le> s div day_ns" "s div day_ns \<le> end'"
    "t div day_ns = s div day_ns + 1" "t - s < 5 * minute_ns"
    by (auto simp: close_over_midnight_def)
  have "(t div day_ns) * day_ns + slot_of t * minute_ns = t" "(s div day_ns) * day_ns + slot_of s * minute_ns = s"
    using st(1,2) time_join by (simp_all add: matches_def)
  then have "day_ns + (slot_of t - slot_of s) * minute_ns < 5 * minute_ns"
    using st(5,6) by (simp add: algebra_simps)
  then have "1440 + slot_of t - slot_of s < 5" by (simp add: day_ns_def minute_ns_def)
  moreover have "?h \<le> slot_of t" "slot_of s \<le> ?l"
    using sorted_hd_last [OF day_slots_sorted] matches_slot [OF st(2)] matches_slot [OF st(1)] by blast+
  moreover have "adjacent_days cron day end'"
    using st adjacent_days_iff by (force simp: matches_def)
  ultimately show "1440 - ?l + ?h < 5 \<and> adjacent_days cron day end'" by simp
next
  assume a: "1440 - ?l + ?h < 5 \<and> adjacent_days cron day end'"
  then obtain d where d: "day \<le> d" "d \<le> end'" "matchesDay cron d" "matchesDay cron (d + 1)"
    using adjacent_days_iff by blast
  have in': "?l \<in> set (day_slots cron False)" "?h \<in> set (day_slots cron False)" using ne by simp_all
  let ?s = "d * day_ns + ?l * minute_ns" and ?t = "(d + 1) * day_ns + ?h * minute_ns"
  have "?t - ?s = (1440 - ?l + ?h) * minute_ns" by (simp add: algebra_simps day_ns_def)
  then have "?t - ?s < 5 * minute_ns" using a by (simp add: minute_ns_def)
  moreover have "?s div day_ns = d" "?t div day_ns = d + 1"
    using in' time_split(1) [of ?l d] time_split(1) [of ?h "d + 1"] by (simp_all only: day_slots_set mem_Collect_eq)
  moreover have "matches cron ?s" "matches cron ?t"
    using slot_matches [OF in'(1) d(3)] slot_matches [OF in'(2) d(4)] by simp_all
  ultimately show "close_over_midnight cron day end'"
    unfolding close_over_midnight_def using d(1,2) by metis
qed

text \<open>\<open>Often\<close> holds exactly when two marked minutes of a day are less than five minutes apart,
  or when, in the five years from today, two matching times on neighbouring days are.\<close>

theorem Often_iff:
  "Often cron now \<longleftrightarrow>
     two_close {m. 0 \<le> m \<and> m < 1440 \<and> slot_marked cron m} \<or>
     close_over_midnight cron (now div day_ns) (add_years (now div day_ns * day_ns) 5 div day_ns)"
proof -
  let ?xs = "day_slots cron False"
  let ?d = "now div day_ns" and ?e = "add_years (now div day_ns * day_ns) 5 div day_ns"
  have pos: "\<forall>x \<in> set ?xs. 0 \<le> x" by (simp add: day_slots_set)
  have scan: "scan_slots ?xs (- 1) (- 1) =
      (if two_close (set ?xs) then None else if ?xs = [] then Some (- 1, - 1) else Some (hd ?xs, last ?xs))"
    by (rule scan_slots_all [OF day_slots_strict pos])
  have "Often cron now \<longleftrightarrow> two_close (set ?xs) \<or> close_over_midnight cron ?d ?e"
  proof (cases "?xs = []")
    case True
    then have "\<not> close_over_midnight cron ?d ?e"
      using matches_slot by (fastforce simp: close_over_midnight_def)
    then show ?thesis using True scan by (simp add: Often_def two_close_def)
  next
    case False
    then have "0 \<le> hd ?xs" using pos by simp
    then show ?thesis
      using False scan close_over_midnight_iff [OF False, of ?d ?e] by (auto simp: Often_def Let_def)
  qed
  then show ?thesis by (simp add: day_slots_set)
qed

end
