(* ===== verification/UploadRequest.thy ===== *)
theory UploadRequest
  imports LsRefs
begin

text \<open>
  The requests of an import and the framing of its answers
  (\<open>internal/importfetch/protocol.go\<close>): the upload-pack request of protocol v0 and v1, the v2
  commands, the byte budgets around the response bodies, the packets expected before the
  pack and the side-band reader of a v2 answer. Operation names and other texts of a
  \<open>fetchError\<close> are left out.
\<close>

subsection \<open>Failures\<close>

datatype fetch_kind = ErrUploadPackProtocol | ErrRequestTooLarge | ErrResponseTooLarge

datatype fetch_fail =
    FetchError fetch_kind "io_error option"
  | ReadErr io_error

definition safeReadCause :: "io_error \<Rightarrow> io_error option" where
  "safeReadCause e = (if e = EOF \<or> e = UnexpectedEOF then None else Some e)"

definition uploadProtocolReadError :: "io_error \<Rightarrow> fetch_fail" where
  "uploadProtocolReadError e =
     (if e = TotalBodyExceeded \<or> e = PackExceeded then FetchError ErrResponseTooLarge None
      else FetchError ErrUploadPackProtocol (safeReadCause e))"

text \<open>\<open>errors.Is\<close> on the errors of the advertisement parser: \<open>ErrTooManyRefs\<close> wraps \<open>ErrLimitExceeded\<close>.\<close>

datatype sentinel =
    SInvalidLimits | SInvalidOptions | STooManyRefs | SLimitExceeded | SMalformedPacket | STruncated
  | STrailingContent | SMalformedService | SUnsupportedVersion | SInvalidRecord | SInvalidObjectID
  | SInvalidName | SConflictingRefs | SInvalidCapability | SObjectFormat | SRemoteError | SIncompleteHistory

fun kind_is :: "err_kind \<Rightarrow> sentinel \<Rightarrow> bool" where
  "kind_is ErrInvalidLimits c = (c = SInvalidLimits)"
| "kind_is ErrInvalidOptions c = (c = SInvalidOptions)"
| "kind_is ErrTooManyRefs c = (c = STooManyRefs \<or> c = SLimitExceeded)"
| "kind_is ErrLimitExceeded c = (c = SLimitExceeded)"
| "kind_is ErrMalformedPacket c = (c = SMalformedPacket)"
| "kind_is ErrTruncated c = (c = STruncated)"
| "kind_is ErrTrailingContent c = (c = STrailingContent)"
| "kind_is ErrMalformedService c = (c = SMalformedService)"
| "kind_is ErrUnsupportedVersion c = (c = SUnsupportedVersion)"
| "kind_is ErrInvalidRecord c = (c = SInvalidRecord)"
| "kind_is ErrInvalidObjectID c = (c = SInvalidObjectID)"
| "kind_is ErrInvalidName c = (c = SInvalidName)"
| "kind_is ErrConflictingRefs c = (c = SConflictingRefs)"
| "kind_is ErrInvalidCapability c = (c = SInvalidCapability)"
| "kind_is ErrObjectFormat c = (c = SObjectFormat)"
| "kind_is (ErrRemoteError t) c = (c = SRemoteError)"
| "kind_is ErrIncompleteHistory c = (c = SIncompleteHistory)"

fun errorIs :: "parse_fail \<Rightarrow> sentinel \<Rightarrow> bool" where
  "errorIs (IOErr e) c = False"
| "errorIs (ParseErr off k) c = kind_is k c"
| "errorIs (OptionErr k) c = kind_is k c"

definition known_causes :: "sentinel list" where
  "known_causes = [SInvalidLimits, SInvalidOptions, STooManyRefs, SLimitExceeded, SMalformedPacket,
     STruncated, STrailingContent, SMalformedService, SUnsupportedVersion, SInvalidRecord, SInvalidObjectID,
     SInvalidName, SConflictingRefs, SInvalidCapability, SObjectFormat, SRemoteError, SIncompleteHistory]"

definition advertisementCause :: "parse_fail \<Rightarrow> sentinel option" where
  "advertisementCause e = List.find (errorIs e) known_causes"

subsection \<open>Encoding a request\<close>

definition appendBounded :: "bytes \<Rightarrow> bytes \<Rightarrow> int \<Rightarrow> fetch_fail + bytes" where
  "appendBounded destination val maximum =
     (if int (length destination) + int (length val) > maximum then Inl (FetchError ErrRequestTooLarge None)
      else Inr (destination @ val))"

definition appendPacket :: "bytes \<Rightarrow> bytes \<Rightarrow> int \<Rightarrow> fetch_fail + bytes" where
  "appendPacket destination payload maximum =
     (let len = length payload + 4 in
      if len > 65520 then Inl (FetchError ErrRequestTooLarge None)
      else appendBounded destination (hex4 len @ payload) maximum)"

fun appendPackets :: "bytes \<Rightarrow> bytes list \<Rightarrow> int \<Rightarrow> fetch_fail + bytes" where
  "appendPackets destination [] maximum = Inr destination"
| "appendPackets destination (p # ps) maximum =
     bindE (appendPacket destination p maximum) (\<lambda>d. appendPackets d ps maximum)"

definition LF :: bytes where "LF = [CHR 0x0A]"

text \<open>The loop over the references: \<open>seen\<close> and \<open>wants\<close>.\<close>

fun wants_of_refs :: "Ref list \<Rightarrow> bytes set \<Rightarrow> bytes list \<Rightarrow> bytes set \<times> bytes list" where
  "wants_of_refs [] seen wants = (seen, wants)"
| "wants_of_refs (r # rs) seen wants =
     (if ref_OID r \<in> seen then wants_of_refs rs seen wants
      else wants_of_refs rs (insert (ref_OID r) seen) (wants @ [ref_OID r]))"

definition selectWants :: "Advertisement \<Rightarrow> fetch_fail + bytes list" where
  "selectWants ad =
     (case wants_of_refs (ad_Refs ad) {} [] of (seen, wants) \<Rightarrow>
        let wants' = (if head_Advertised (ad_Head ad) \<and> head_OID (ad_Head ad) \<notin> seen
            then wants @ [head_OID (ad_Head ad)] else wants)
        in if wants' = [] then Inl (FetchError ErrUploadPackProtocol None) else Inr wants')"

definition requestCapability :: "Advertisement \<Rightarrow> bytes option" where
  "requestCapability ad =
     (if ad_ObjectFormatAdvertised ad then Some (''object-format='' @ ad_ObjectFormat ad)
      else if ad_ObjectFormat ad \<noteq> FormatSHA1 then None
      else if ''ofs-delta'' \<in> set (ad_Capabilities ad) then Some ''ofs-delta'' else None)"

fun want_lines :: "bytes \<Rightarrow> bytes list \<Rightarrow> bytes list" where
  "want_lines capability [] = []"
| "want_lines capability (oid # oids) =
     (''want '' @ oid @ '' '' @ capability @ LF) # map (\<lambda>o'. ''want '' @ o' @ LF) oids"

definition buildUploadRequest :: "Advertisement \<Rightarrow> int \<Rightarrow> fetch_fail + bytes" where
  "buildUploadRequest ad maximum =
     (case requestCapability ad of
       None \<Rightarrow> Inl (FetchError ErrUploadPackProtocol None)
     | Some capability \<Rightarrow>
         bindE (selectWants ad) (\<lambda>wants.
         bindE (appendPackets [] (want_lines capability wants) maximum) (\<lambda>request.
         bindE (appendBounded request ''0000'' maximum) (\<lambda>request.
           appendPacket request (''done'' @ LF) maximum))))"

definition command_lines :: "bytes \<Rightarrow> Advertisement \<Rightarrow> bytes list" where
  "command_lines command caps = (''command='' @ command) #
     (if ad_ObjectFormatAdvertised caps then [''object-format='' @ ad_ObjectFormat caps] else [])"

definition buildCommand :: "bytes \<Rightarrow> Advertisement \<Rightarrow> bytes list \<Rightarrow> int \<Rightarrow> fetch_fail + bytes" where
  "buildCommand command caps arguments maximum =
     bindE (appendPackets [] (map (\<lambda>l. l @ LF) (command_lines command caps)) maximum) (\<lambda>request.
     bindE (appendBounded request ''0001'' maximum) (\<lambda>request.
     bindE (appendPackets request (map (\<lambda>l. l @ LF) arguments) maximum) (\<lambda>request.
       appendBounded request ''0000'' maximum)))"

definition buildLsRefsCommand :: "Advertisement \<Rightarrow> bytes list \<Rightarrow> int \<Rightarrow> fetch_fail + bytes" where
  "buildLsRefsCommand caps prefixes' maximum =
     buildCommand ''ls-refs'' caps ([''symrefs'', ''peel''] @ map (\<lambda>p. ''ref-prefix '' @ p) prefixes') maximum"

definition buildFetchCommand :: "Advertisement \<Rightarrow> int \<Rightarrow> fetch_fail + bytes" where
  "buildFetchCommand ad maximum =
     bindE (selectWants ad) (\<lambda>wants.
       buildCommand ''fetch'' ad
         ([''ofs-delta'', ''no-progress''] @ map (\<lambda>oid. ''want '' @ oid) wants @ [''done'']) maximum)"

subsection \<open>What the requests are\<close>

lemma appendBounded_Inr: "appendBounded d v m = Inr r \<longleftrightarrow> r = d @ v \<and> int (length r) \<le> m"
  by (auto simp: appendBounded_def)

lemma appendPacket_Inr:
  "appendPacket d p m = Inr r \<longleftrightarrow> r = d @ pkt_line p \<and> length p + 4 \<le> 65520 \<and> int (length r) \<le> m"
  by (auto simp: appendPacket_def Let_def appendBounded_Inr pkt_line_def)

lemma appendPackets_Inr:
  "appendPackets d ps m = Inr r \<longleftrightarrow>
     r = d @ frames (map packetData ps) \<and> (\<forall>p \<in> set ps. length p + 4 \<le> 65520) \<and> (ps = [] \<or> int (length r) \<le> m)"
proof (induction ps arbitrary: d)
  case (Cons p ps)
  show ?case
    unfolding appendPackets.simps bindE_eq_Inr appendPacket_Inr Cons.IH by auto
qed auto

text \<open>The packets of the requests.\<close>

definition upload_packets :: "bytes \<Rightarrow> bytes list \<Rightarrow> packet list" where
  "upload_packets capability wants =
     map packetData (want_lines capability wants) @ [packetFlush, packetData (''done'' @ LF)]"

definition command_packets :: "bytes \<Rightarrow> Advertisement \<Rightarrow> bytes list \<Rightarrow> packet list" where
  "command_packets command caps arguments =
     map packetData (map (\<lambda>l. l @ LF) (command_lines command caps)) @ [packetDelimiter] @
     map packetData (map (\<lambda>l. l @ LF) arguments) @ [packetFlush]"

lemma frames_append [simp]: "frames (ps @ qs) = frames ps @ frames qs"
  by (simp add: frames_def)

lemma buildUploadRequest_Inr:
  assumes "0 \<le> maximum"
  shows "buildUploadRequest ad maximum = Inr request \<longleftrightarrow>
    (\<exists>capability wants. requestCapability ad = Some capability \<and> selectWants ad = Inr wants \<and>
       request = frames (upload_packets capability wants) \<and> int (length request) \<le> maximum \<and>
       (\<forall>l \<in> set (want_lines capability wants). length l + 4 \<le> 65520))"
proof -
  have "bindE (appendPackets [] ls maximum) (\<lambda>r. bindE (appendBounded r ''0000'' maximum) (\<lambda>r.
      appendPacket r (''done'' @ LF) maximum)) = Inr request \<longleftrightarrow>
    request = frames (map packetData ls @ [packetFlush, packetData (''done'' @ LF)]) \<and>
    int (length request) \<le> maximum \<and> (\<forall>l \<in> set ls. length l + 4 \<le> 65520)" for ls
    using assms by (auto simp: appendPackets_Inr appendBounded_Inr appendPacket_Inr LF_def)
  then show ?thesis
    unfolding buildUploadRequest_def upload_packets_def
    by (cases "requestCapability ad"; cases "selectWants ad") simp_all
qed

lemma buildCommand_Inr:
  assumes "0 \<le> maximum"
  shows "buildCommand command caps arguments maximum = Inr request \<longleftrightarrow>
    request = frames (command_packets command caps arguments) \<and> int (length request) \<le> maximum \<and>
    (\<forall>l \<in> set (command_lines command caps @ arguments). length (l @ LF) + 4 \<le> 65520)"
proof -
  have "bindE (appendPackets [] ls maximum) (\<lambda>r. bindE (appendBounded r ''0001'' maximum) (\<lambda>r.
      bindE (appendPackets r as maximum) (\<lambda>r. appendBounded r ''0000'' maximum))) = Inr request \<longleftrightarrow>
    request = frames (map packetData ls @ [packetDelimiter] @ map packetData as @ [packetFlush]) \<and>
    int (length request) \<le> maximum \<and> (\<forall>l \<in> set ls \<union> set as. length l + 4 \<le> 65520)" for ls as
    unfolding bindE_eq_Inr appendPackets_Inr appendBounded_Inr using assms by auto
  then show ?thesis
    unfolding buildCommand_def command_packets_def by (simp add: ball_Un)
qed

subsection \<open>What an import asks for\<close>

definition advertised_objects :: "Advertisement \<Rightarrow> bytes set" where
  "advertised_objects ad = ref_OID ` set (ad_Refs ad) \<union>
     (if head_Advertised (ad_Head ad) then {head_OID (ad_Head ad)} else {})"

lemma wants_of_refs_spec:
  "wants_of_refs rs seen wants = (seen', wants') \<Longrightarrow> set wants = seen \<Longrightarrow> distinct wants \<Longrightarrow>
   set wants' = seen' \<and> distinct wants' \<and> seen' = seen \<union> ref_OID ` set rs"
proof (induction rs arbitrary: seen wants)
  case (Cons r rs)
  show ?case
  proof (cases "ref_OID r \<in> seen")
    case True
    then show ?thesis using Cons.IH [of seen wants] Cons.prems by auto
  next
    case False
    then show ?thesis
      using Cons.IH [of "insert (ref_OID r) seen" "wants @ [ref_OID r]"] Cons.prems by auto
  qed
qed simp

lemma selectWants_cases:
  "(selectWants ad = Inl (FetchError ErrUploadPackProtocol None) \<and> advertised_objects ad = {}) \<or>
   (\<exists>wants. selectWants ad = Inr wants \<and> distinct wants \<and> set wants = advertised_objects ad \<and> wants \<noteq> [])"
proof -
  obtain seen wants where w: "wants_of_refs (ad_Refs ad) {} [] = (seen, wants)"
    by (cases "wants_of_refs (ad_Refs ad) {} []")
  from wants_of_refs_spec [OF this] have W: "set wants = seen" "distinct wants" "seen = ref_OID ` set (ad_Refs ad)"
    by simp_all
  let ?wants = "if head_Advertised (ad_Head ad) \<and> head_OID (ad_Head ad) \<notin> seen
            then wants @ [head_OID (ad_Head ad)] else wants"
  have "distinct ?wants" "set ?wants = advertised_objects ad"
    using W by (auto simp: advertised_objects_def)
  moreover have "selectWants ad = (if ?wants = [] then Inl (FetchError ErrUploadPackProtocol None) else Inr ?wants)"
    by (simp add: selectWants_def w Let_def)
  ultimately show ?thesis by (cases "?wants = []") simp_all
qed

lemma selectWants_Inr:
  "selectWants ad = Inr wants \<Longrightarrow> distinct wants \<and> set wants = advertised_objects ad \<and> wants \<noteq> []"
  using selectWants_cases [of ad] by auto

text \<open>Every object of a well-formed advertisement is a lower-case object ID.\<close>

lemma advertised_objects_oid:
  assumes "advertisement_ok lim ad" and "x \<in> advertised_objects ad"
  shows "oid_ok (oidWidth (ad_ObjectFormat ad)) x"
proof -
  have "x \<in> ref_OID ` set (ad_Refs ad)"
  proof (cases "head_Advertised (ad_Head ad) \<and> x = head_OID (ad_Head ad)")
    case True
    then have "''HEAD'' \<in> ref_Name ` set (ad_Refs ad)"
      using assms(1) by (simp add: advertisement_ok_def head_agrees_def)
    then obtain r where "r \<in> set (ad_Refs ad)" "ref_Name r = ''HEAD''" by auto
    then show ?thesis using True assms(1) by (auto simp: advertisement_ok_def head_agrees_def)
  next
    case False
    then show ?thesis using assms(2) by (auto simp: advertised_objects_def split: if_splits)
  qed
  then show ?thesis using assms(1) by (auto simp: advertisement_ok_def ref_ok_def)
qed

text \<open>
  The error an import reports for a bad advertisement keeps its kind: every parser
  failure has exactly the sentinel it was raised with, although \<open>ErrTooManyRefs\<close> also counts
  as \<open>ErrLimitExceeded\<close>, and an error of the connection has none.
\<close>

fun own_sentinel :: "err_kind \<Rightarrow> sentinel" where
  "own_sentinel ErrInvalidLimits = SInvalidLimits"
| "own_sentinel ErrInvalidOptions = SInvalidOptions"
| "own_sentinel ErrTooManyRefs = STooManyRefs"
| "own_sentinel ErrLimitExceeded = SLimitExceeded"
| "own_sentinel ErrMalformedPacket = SMalformedPacket"
| "own_sentinel ErrTruncated = STruncated"
| "own_sentinel ErrTrailingContent = STrailingContent"
| "own_sentinel ErrMalformedService = SMalformedService"
| "own_sentinel ErrUnsupportedVersion = SUnsupportedVersion"
| "own_sentinel ErrInvalidRecord = SInvalidRecord"
| "own_sentinel ErrInvalidObjectID = SInvalidObjectID"
| "own_sentinel ErrInvalidName = SInvalidName"
| "own_sentinel ErrConflictingRefs = SConflictingRefs"
| "own_sentinel ErrInvalidCapability = SInvalidCapability"
| "own_sentinel ErrObjectFormat = SObjectFormat"
| "own_sentinel (ErrRemoteError t) = SRemoteError"
| "own_sentinel ErrIncompleteHistory = SIncompleteHistory"

lemma advertisementCause_own:
  "advertisementCause (ParseErr off k) = Some (own_sentinel k)"
  "advertisementCause (OptionErr k) = Some (own_sentinel k)" "advertisementCause (IOErr e) = None"
  by (cases k; simp add: advertisementCause_def known_causes_def)+

end
