(* ===== verification/PackStream.thy ===== *)
theory PackStream
  imports UploadRequest
begin

text \<open>
  The readers between a response body and the consumer of the pack
  (\<open>internal/importfetch/protocol.go\<close>): the two byte budgets, which wrap any \<open>io.Reader\<close>, the
  packets expected before the pack, and the side-band reader of a protocol v2 answer.
\<close>

subsection \<open>Readers that give what they have\<close>

text \<open>
  An \<open>io.Reader\<close> may return fewer bytes than asked for, and may return the error that ends the
  stream together with the last bytes or after them. A raw source is the list of pieces it
  will hand out, the error after them, and whether that error comes with the last piece.
\<close>

record raw_source =
  rs_pieces :: "bytes list"
  rs_end :: io_error
  rs_eager :: bool

definition src_Read :: "nat \<Rightarrow> raw_source \<Rightarrow> raw_source \<times> bytes \<times> io_error option" where
  "src_Read n s =
     (case rs_pieces s of
       [] \<Rightarrow> (s, [], Some (rs_end s))
     | p # ps \<Rightarrow>
         (let rest = (if drop n p = [] then ps else drop n p # ps) in
          (s\<lparr>rs_pieces := rest\<rparr>, take n p, if rest = [] \<and> rs_eager s then Some (rs_end s) else None)))"

definition stream :: "raw_source \<Rightarrow> bytes" where
  "stream s = concat (rs_pieces s)"

lemma src_Read_stream:
  "src_Read n s = (s', got, err) \<Longrightarrow> stream s = got @ stream s' \<and> length got \<le> n \<and>
     (err \<noteq> None \<longrightarrow> stream s' = [] \<and> err = Some (rs_end s)) \<and> rs_end s' = rs_end s"
  by (auto simp: src_Read_def stream_def Let_def split: list.splits if_splits)

subsection \<open>The byte budgets\<close>

record bodyBudget =
  bb_remaining :: int
  bb_consumed :: int
  bb_exceeded :: bool

definition budgetRead :: "nat \<Rightarrow> raw_source \<times> bodyBudget \<Rightarrow> (raw_source \<times> bodyBudget) \<times> bytes \<times> io_error option" where
  "budgetRead n st =
     (case st of (src, b) \<Rightarrow>
       if n = 0 then (st, [], None)
       else if bb_remaining b = 0 then
         (case src_Read 1 src of (src', got, err) \<Rightarrow>
            if got \<noteq> [] then
              ((src', b\<lparr>bb_consumed := bb_consumed b + 1, bb_exceeded := True\<rparr>), [], Some TotalBodyExceeded)
            else ((src', b), [], err))
       else
         (case src_Read (if int n > bb_remaining b then nat (bb_remaining b) else n) src of (src', got, err) \<Rightarrow>
            ((src', b\<lparr>bb_remaining := bb_remaining b - int (length got), bb_consumed := bb_consumed b + int (length got)\<rparr>),
             got, err)))"

record packReader =
  pr_source :: raw_source
  pr_remaining :: int
  pr_consumed :: int
  pr_exceeded :: bool
  pr_terminalErr :: "io_error option"

definition packRead :: "nat \<Rightarrow> packReader \<Rightarrow> packReader \<times> bytes \<times> io_error option" where
  "packRead n r =
     (if n = 0 then (r, [], None)
      else if pr_remaining r = 0 then
        (case src_Read 1 (pr_source r) of (src', got, err) \<Rightarrow>
           if got \<noteq> [] then
             (r\<lparr>pr_source := src', pr_consumed := pr_consumed r + 1, pr_exceeded := True,
                pr_terminalErr := Some PackExceeded\<rparr>, [], Some PackExceeded)
           else
             (r\<lparr>pr_source := src', pr_terminalErr := (if err \<noteq> None then err else pr_terminalErr r)\<rparr>, [], err))
      else
        (case src_Read (if int n > pr_remaining r then nat (pr_remaining r) else n) (pr_source r) of (src', got, err) \<Rightarrow>
           (r\<lparr>pr_source := src', pr_remaining := pr_remaining r - int (length got),
              pr_consumed := pr_consumed r + int (length got),
              pr_terminalErr := (if err \<noteq> None then err else pr_terminalErr r)\<rparr>, got, err)))"

record observedReader =
  ob_source :: raw_source
  ob_eof :: bool

definition observedRead :: "nat \<Rightarrow> observedReader \<Rightarrow> observedReader \<times> bytes \<times> io_error option" where
  "observedRead n r =
     (case src_Read n (ob_source r) of (src', got, err) \<Rightarrow>
        (r\<lparr>ob_source := src', ob_eof := (ob_eof r \<or> err = Some EOF)\<rparr>, got, err))"

text \<open>A caller that reads with buffers of the given sizes and stops at the first error.\<close>

fun drain :: "(nat \<Rightarrow> 's \<Rightarrow> 's \<times> bytes \<times> io_error option) \<Rightarrow> nat list \<Rightarrow> 's \<Rightarrow> 's \<times> bytes \<times> io_error option" where
  "drain read [] s = (s, [], None)"
| "drain read (n # ns) s =
     (case read n s of
       (s', got, Some e) \<Rightarrow> (s', got, Some e)
     | (s', got, None) \<Rightarrow> (case drain read ns s' of (s'', more', err) \<Rightarrow> (s'', got @ more', err)))"

text \<open>
  The contract of a bounded reader: it hands out the stream in order and never more than the
  room it has left; it reports its own limit exactly when the room is used up and the stream
  goes on, and any other error only at the end of the stream.
\<close>

locale bounded_reader =
  fixes read :: "nat \<Rightarrow> 's \<Rightarrow> 's \<times> bytes \<times> io_error option"
    and ok :: "'s \<Rightarrow> bool" and left :: "'s \<Rightarrow> bytes" and room :: "'s \<Rightarrow> nat" and limit :: io_error
  assumes read_ok: "ok s \<Longrightarrow> read n s = (s', got, err) \<Longrightarrow> err \<noteq> Some limit \<Longrightarrow>
      ok s' \<and> left s = got @ left s' \<and> length got + room s' = room s \<and> (err \<noteq> None \<longrightarrow> left s' = [])"
    and read_limit: "ok s \<Longrightarrow> read n s = (s', got, Some limit) \<Longrightarrow> got = [] \<and> room s = 0 \<and> left s \<noteq> []"
begin

lemma drain_bounded:
  assumes "drain read ns s = (s', got, err)" and "ok s"
  shows "prefix got (left s) \<and> length got \<le> room s \<and>
    (err = Some limit \<longrightarrow> got = take (room s) (left s) \<and> room s < length (left s)) \<and>
    (\<forall>e. err = Some e \<longrightarrow> e \<noteq> limit \<longrightarrow> got = left s)"
  using assms
proof (induction ns arbitrary: s got)
  case (Cons n ns)
  obtain s1 g1 e1 where r: "read n s = (s1, g1, e1)" by (cases "read n s")
  show ?case
  proof (cases e1)
    case (Some e)
    then have d: "got = g1" "err = Some e" using Cons.prems(1) r by auto
    show ?thesis
    proof (cases "e = limit")
      case True
      then show ?thesis using read_limit [OF Cons.prems(2), of n s1 g1] r Some d by simp
    next
      case False
      then show ?thesis using read_ok [OF Cons.prems(2) r] Some d by auto
    qed
  next
    case None
    then obtain g2 where g2: "drain read ns s1 = (s', g2, err)" "got = g1 @ g2"
      using Cons.prems(1) r by (auto split: prod.splits)
    have R: "ok s1" "left s = g1 @ left s1" "length g1 + room s1 = room s"
      using read_ok [OF Cons.prems(2) r] None by auto
    have "room s - length g1 = room s1" using R(3) by simp
    with Cons.IH [OF g2(1) R(1)] show ?thesis
      using R(2,3) g2(2) by (auto simp: take_append)
  qed
qed simp

end

definition body_ok :: "raw_source \<times> bodyBudget \<Rightarrow> bool" where
  "body_ok st \<longleftrightarrow> 0 \<le> bb_remaining (snd st) \<and> rs_end (fst st) \<noteq> TotalBodyExceeded"

interpretation body_reader: bounded_reader budgetRead body_ok "\<lambda>st. stream (fst st)"
  "\<lambda>st. nat (bb_remaining (snd st))" TotalBodyExceeded
proof
  fix st n st' got err
  assume ok: "body_ok st" and r: "budgetRead n st = (st', got, err)" and ne: "err \<noteq> Some TotalBodyExceeded"
  obtain src b where st: "st = (src, b)" by (cases st)
  consider "n = 0" | "n \<noteq> 0" "bb_remaining b = 0" | "n \<noteq> 0" "bb_remaining b \<noteq> 0" by blast
  then show "body_ok st' \<and> stream (fst st) = got @ stream (fst st') \<and>
      length got + nat (bb_remaining (snd st')) = nat (bb_remaining (snd st)) \<and> (err \<noteq> None \<longrightarrow> stream (fst st') = [])"
  proof cases
    case 1
    then show ?thesis using ok r by (auto simp: budgetRead_def st)
  next
    case 2
    obtain src' g e where s: "src_Read 1 src = (src', g, e)" by (cases "src_Read 1 src")
    then show ?thesis
      using ok r ne 2 src_Read_stream [OF s] by (auto simp: budgetRead_def st body_ok_def split: if_splits)
  next
    case 3
    let ?n = "if int n > bb_remaining b then nat (bb_remaining b) else n"
    obtain src' g e where s: "src_Read ?n src = (src', g, e)" by (cases "src_Read ?n src")
    moreover have "int ?n \<le> bb_remaining b" using ok by (auto simp: body_ok_def st)
    ultimately show ?thesis
      using ok r ne 3 src_Read_stream [OF s] by (auto simp: budgetRead_def st body_ok_def)
  qed
next
  fix st n st' got
  assume ok: "body_ok st" and r: "budgetRead n st = (st', got, Some TotalBodyExceeded)"
  obtain src b where st: "st = (src, b)" by (cases st)
  let ?n = "if int n > bb_remaining b then nat (bb_remaining b) else n"
  obtain src1 g1 e1 where s1: "src_Read 1 src = (src1, g1, e1)" by (cases "src_Read 1 src")
  obtain src2 g2 e2 where s2: "src_Read ?n src = (src2, g2, e2)" by (cases "src_Read ?n src")
  show "got = [] \<and> nat (bb_remaining (snd st)) = 0 \<and> stream (fst st) \<noteq> []"
    using ok r src_Read_stream [OF s1] src_Read_stream [OF s2] s1 s2
    by (auto simp: budgetRead_def st body_ok_def split: if_splits)
qed


definition pack_ok :: "packReader \<Rightarrow> bool" where
  "pack_ok r \<longleftrightarrow> 0 \<le> pr_remaining r \<and> rs_end (pr_source r) \<noteq> PackExceeded"

interpretation pack_reader: bounded_reader packRead pack_ok "\<lambda>r. stream (pr_source r)"
  "\<lambda>r. nat (pr_remaining r)" PackExceeded
proof
  fix r n r' got err
  assume ok: "pack_ok r" and rd: "packRead n r = (r', got, err)" and ne: "err \<noteq> Some PackExceeded"
  consider "n = 0" | "n \<noteq> 0" "pr_remaining r = 0" | "n \<noteq> 0" "pr_remaining r \<noteq> 0" by blast
  then show "pack_ok r' \<and> stream (pr_source r) = got @ stream (pr_source r') \<and>
      length got + nat (pr_remaining r') = nat (pr_remaining r) \<and> (err \<noteq> None \<longrightarrow> stream (pr_source r') = [])"
  proof cases
    case 1
    then show ?thesis using ok rd by (auto simp: packRead_def)
  next
    case 2
    obtain src' g e where s: "src_Read 1 (pr_source r) = (src', g, e)" by (cases "src_Read 1 (pr_source r)")
    then show ?thesis
      using ok rd ne 2 src_Read_stream [OF s] by (auto simp: packRead_def pack_ok_def split: if_splits)
  next
    case 3
    let ?n = "if int n > pr_remaining r then nat (pr_remaining r) else n"
    obtain src' g e where s: "src_Read ?n (pr_source r) = (src', g, e)" by (cases "src_Read ?n (pr_source r)")
    moreover have "int ?n \<le> pr_remaining r" using ok by (auto simp: pack_ok_def)
    ultimately show ?thesis
      using ok rd ne 3 src_Read_stream [OF s] by (auto simp: packRead_def pack_ok_def)
  qed
next
  fix r n r' got
  assume ok: "pack_ok r" and rd: "packRead n r = (r', got, Some PackExceeded)"
  let ?n = "if int n > pr_remaining r then nat (pr_remaining r) else n"
  obtain src1 g1 e1 where s1: "src_Read 1 (pr_source r) = (src1, g1, e1)" by (cases "src_Read 1 (pr_source r)")
  obtain src2 g2 e2 where s2: "src_Read ?n (pr_source r) = (src2, g2, e2)" by (cases "src_Read ?n (pr_source r)")
  show "got = [] \<and> nat (pr_remaining r) = 0 \<and> stream (pr_source r) \<noteq> []"
    using ok rd src_Read_stream [OF s1] src_Read_stream [OF s2] s1 s2
    by (auto simp: packRead_def pack_ok_def split: if_splits)
qed

subsection \<open>Packets expected before the pack\<close>

definition strictHexLength :: "bytes \<Rightarrow> nat option" where
  "strictHexLength header = hex_length 0 header"

definition readExpectedPacket :: "byte_source \<Rightarrow> bytes \<Rightarrow> byte_source \<times> (fetch_fail + unit)" where
  "readExpectedPacket source expected =
     (case ReadFull 4 source of (s1, header, err1) \<Rightarrow>
        (case err1 of Some e \<Rightarrow> (s1, Inl (uploadProtocolReadError e))
        | None \<Rightarrow>
          (case strictHexLength header of
            None \<Rightarrow> (s1, Inl (FetchError ErrUploadPackProtocol None))
          | Some len \<Rightarrow>
              if len \<noteq> length expected + 4 \<and> len \<noteq> length expected + 5
              then (s1, Inl (FetchError ErrUploadPackProtocol None))
              else
                (case ReadFull (len - 4) s1 of (s2, payload, err2) \<Rightarrow>
                   (case err2 of Some e \<Rightarrow> (s2, Inl (uploadProtocolReadError e))
                   | None \<Rightarrow>
                       if payload \<noteq> expected \<and> payload \<noteq> expected @ [CHR 0x0A]
                       then (s2, Inl (FetchError ErrUploadPackProtocol None)) else (s2, Inr ()))))))"

definition readNAK :: "byte_source \<Rightarrow> byte_source \<times> (fetch_fail + unit)" where
  "readNAK source = readExpectedPacket source ''NAK''"

definition readPackfileSection :: "byte_source \<Rightarrow> byte_source \<times> (fetch_fail + unit)" where
  "readPackfileSection source = readExpectedPacket source ''packfile''"

subsection \<open>The side band\<close>

definition maxSidebandPacket :: nat where "maxSidebandPacket = 65520"
definition sidebandHeader :: int where "sidebandHeader = 5"
definition sidebandPackChunk :: int where "sidebandPackChunk = 8192"

definition sidebandOverhead :: "int \<Rightarrow> int" where
  "sidebandOverhead maxPack =
     (let packets = maxPack div sidebandPackChunk + 1
      in int (length (''000dpackfile'' @ [CHR 0x0A])) + packets * sidebandHeader + 4)"

record sidebandReader =
  sb_source :: byte_source
  sb_pending :: bytes
  sb_done :: bool
  sb_failure :: "fetch_fail option"

definition sb_fail :: "sidebandReader \<Rightarrow> sidebandReader \<times> fetch_fail option" where
  "sb_fail r = (let e = FetchError ErrUploadPackProtocol None in (r\<lparr>sb_failure := Some e\<rparr>, Some e))"

definition sb_readError :: "io_error \<Rightarrow> sidebandReader \<Rightarrow> sidebandReader \<times> fetch_fail option" where
  "sb_readError e r = (if e = EOF \<or> e = UnexpectedEOF then sb_fail r else (r, Some (ReadErr e)))"

text \<open>What a band asks for; the packet is never empty.\<close>

definition sb_band :: "bytes \<Rightarrow> sidebandReader \<Rightarrow> sidebandReader \<times> fetch_fail option" where
  "sb_band packet r =
     (let band = byte (hd packet) in
      if band = 1 then (r\<lparr>sb_pending := tl packet\<rparr>, None)
      else if band = 2 then (r, None)
      else sb_fail r)"

definition sb_next :: "sidebandReader \<Rightarrow> sidebandReader \<times> fetch_fail option" where
  "sb_next r =
     (case ReadFull 4 (sb_source r) of (s1, header, err1) \<Rightarrow>
        (let r1 = r\<lparr>sb_source := s1\<rparr> in
         case err1 of Some e \<Rightarrow> sb_readError e r1
         | None \<Rightarrow>
           (case strictHexLength header of
             None \<Rightarrow> sb_fail r1
           | Some len \<Rightarrow>
               if (0 < len \<and> len \<le> 4) \<or> len > maxSidebandPacket then sb_fail r1
               else if len = 0 then
                 (case ReadFull 1 s1 of (s2, got, err2) \<Rightarrow>
                    (let r2 = r1\<lparr>sb_source := s2\<rparr> in
                     if got \<noteq> [] then sb_fail r2
                     else if err2 = Some EOF then (r2\<lparr>sb_done := True\<rparr>, None)
                     else (r2, map_option ReadErr err2)))
               else
                 (case ReadFull (len - 4) s1 of (s2, packet, err2) \<Rightarrow>
                    (let r2 = r1\<lparr>sb_source := s2\<rparr> in
                     case err2 of Some e \<Rightarrow> sb_readError e r2 | None \<Rightarrow> sb_band packet r2)))))"

text \<open>\<open>Read\<close>: the loop runs until a packet leaves pack data. \<open>Inl None\<close> is \<open>io.EOF\<close>.\<close>

definition sb_take :: "nat \<Rightarrow> sidebandReader \<Rightarrow> sidebandReader \<times> (fetch_fail option + bytes)" where
  "sb_take n r = (r\<lparr>sb_pending := drop n (sb_pending r)\<rparr>, Inr (take n (sb_pending r)))"

lemma ReadFull_shorter:
  "ReadFull n s = (s', got, None) \<Longrightarrow> 0 < n \<Longrightarrow> length (src_data s') < length (src_data s)"
  by (auto simp: ReadFull_def split: if_splits)

lemma sb_next_progress:
  assumes "sb_next r = (r', None)" and "\<not> sb_done r'"
  shows "length (src_data (sb_source r')) < length (src_data (sb_source r))"
proof -
  obtain s1 header err1 where h: "ReadFull 4 (sb_source r) = (s1, header, err1)"
    by (cases "ReadFull 4 (sb_source r)")
  have e1: "err1 = None" using assms(1) h by (auto simp: sb_next_def sb_readError_def sb_fail_def Let_def split: option.splits if_splits)
  have l1: "length (src_data s1) < length (src_data (sb_source r))"
    using ReadFull_shorter h e1 by simp
  have mono: "length (src_data s2) \<le> length (src_data s1)" if "ReadFull k s1 = (s2, x, y)" for k s2 x y
    using that by (auto simp: ReadFull_def split: if_splits)
  obtain len where len: "strictHexLength header = Some len"
    using assms(1) h e1 by (auto simp: sb_next_def sb_fail_def Let_def split: option.splits)
  have "\<not> ((0 < len \<and> len \<le> 4) \<or> len > maxSidebandPacket)" "len \<noteq> 0"
    using assms h e1 len
    by (auto simp: sb_next_def sb_fail_def Let_def ReadFull_def split: if_splits)
  then obtain s2 packet where p: "ReadFull (len - 4) s1 = (s2, packet, None)"
    "sb_band packet (r\<lparr>sb_source := s2\<rparr>) = (r', None)"
    using assms(1) h e1 len
    by (cases "ReadFull (len - 4) s1") (auto simp: sb_next_def sb_readError_def sb_fail_def Let_def split: option.splits if_splits)
  then have "sb_source r' = s2" by (auto simp: sb_band_def sb_fail_def Let_def split: if_splits)
  then show ?thesis using l1 mono [OF p(1)] by simp
qed

function sb_Read :: "nat \<Rightarrow> sidebandReader \<Rightarrow> sidebandReader \<times> (fetch_fail option + bytes)" where
  "sb_Read n r =
     (if sb_pending r \<noteq> [] then sb_take n r
      else if sb_failure r \<noteq> None then (r, Inl (sb_failure r))
      else if sb_done r then (r, Inl None)
      else
        (case sb_next r of
          (r', Some e) \<Rightarrow> (r', Inl (Some e))
        | (r', None) \<Rightarrow> sb_Read n r'))"
  by pat_completeness auto
termination
proof (relation "measure (\<lambda>(n, r). length (src_data (sb_source r)) + (if sb_done r then 0 else 1))", goal_cases)
  case (2 n r r' b)
  then have n: "sb_next r = (r', None)" "\<not> sb_done r" by auto
  show ?case
  proof (cases "sb_done r'")
    case True
    have "length (src_data (sb_source r')) \<le> length (src_data (sb_source r))"
      using n(1) by (auto simp: sb_next_def sb_readError_def sb_fail_def sb_band_def Let_def ReadFull_def
          split: option.splits if_splits)
    then show ?thesis using True n(2) by simp
  next
    case False
    then show ?thesis using sb_next_progress [OF n(1)] n(2) by simp
  qed
qed simp

declare sb_Read.simps [simp del]


subsection \<open>What the side band delivers\<close>

text \<open>A packet of the section: pack data on band 1, progress text on band 2.\<close>

definition side_ok :: "bytes \<Rightarrow> bool" where
  "side_ok p \<longleftrightarrow> p \<noteq> [] \<and> byte (hd p) \<in> {1, 2} \<and> length p + 4 \<le> maxSidebandPacket"

definition pack_data :: "bytes list \<Rightarrow> bytes" where
  "pack_data ps = concat (map tl (filter (\<lambda>p. byte (hd p) = 1) ps))"

definition section_bytes :: "bytes list \<Rightarrow> bytes" where
  "section_bytes ps = concat (map pkt_line ps)"

lemma pack_data_snoc: "pack_data (ps @ [p]) = pack_data ps @ (if byte (hd p) = 1 then tl p else [])"
  by (simp add: pack_data_def)

lemma strictHexLength_header:
  assumes "ReadFull 4 s = (s', header, None)" and "strictHexLength header = Some len"
  shows "src_data s = hex4 len @ src_data s' \<and> len < 65536 \<and> src_end s' = src_end s"
proof -
  have "length header = 4" "src_data s = header @ src_data s'" "src_end s' = src_end s"
    using assms(1) by (auto simp: ReadFull_def split: if_splits)
  then show ?thesis
    using parseHexLength_inv [of header len] assms(2) by (simp add: strictHexLength_def parseHexLength_def)
qed

lemma ReadFull_None: "ReadFull n s = (s', got, None) \<Longrightarrow>
    src_data s = got @ src_data s' \<and> length got = n \<and> src_end s' = src_end s"
  by (auto simp: ReadFull_def split: if_splits)

lemma sb_next_None:
  assumes "sb_next r = (r', None)"
  obtains (packet) p where "side_ok p" "src_data (sb_source r) = pkt_line p @ src_data (sb_source r')"
      "sb_pending r' = (if byte (hd p) = 1 then tl p else sb_pending r)"
      "src_end (sb_source r') = src_end (sb_source r)" "sb_done r' = sb_done r" "sb_failure r' = sb_failure r"
  | (flush) "src_data (sb_source r) = hex4 0" "src_data (sb_source r') = []" "src_end (sb_source r) = EOF"
      "sb_pending r' = sb_pending r" "sb_done r'" "sb_failure r' = sb_failure r"
proof -
  obtain s1 header err1 where h: "ReadFull 4 (sb_source r) = (s1, header, err1)"
    by (cases "ReadFull 4 (sb_source r)")
  have e1: "err1 = None"
    using assms h by (auto simp: sb_next_def sb_readError_def sb_fail_def Let_def split: option.splits if_splits)
  obtain len where len: "strictHexLength header = Some len"
    using assms h e1 by (auto simp: sb_next_def sb_fail_def Let_def split: option.splits)
  note H = strictHexLength_header [OF h [unfolded e1] len]
  have range: "\<not> ((0 < len \<and> len \<le> 4) \<or> len > maxSidebandPacket)"
    using assms h e1 len by (auto simp: sb_next_def sb_fail_def Let_def split: if_splits)
  show thesis
  proof (cases "len = 0")
    case True
    have "(case ReadFull 1 s1 of (s2, got, err2) \<Rightarrow>
        (let r2 = r\<lparr>sb_source := s2\<rparr> in
         if got \<noteq> [] then sb_fail r2
         else if err2 = Some EOF then (r2\<lparr>sb_done := True\<rparr>, None)
         else (r2, map_option ReadErr err2))) = (r', None)"
      using assms h e1 len True range by (simp add: sb_next_def Let_def)
    then have "src_data s1 = []" "src_end s1 = EOF" "r' = r\<lparr>sb_source := s1\<lparr>src_data := []\<rparr>, sb_done := True\<rparr>"
      by (auto simp: ReadFull_def Let_def sb_fail_def split: if_splits)
    then show thesis using flush H True by auto
  next
    case False
    then obtain s2 q where p: "ReadFull (len - 4) s1 = (s2, q, None)" "sb_band q (r\<lparr>sb_source := s2\<rparr>) = (r', None)"
      using assms h e1 len range
      by (cases "ReadFull (len - 4) s1") (auto simp: sb_next_def sb_readError_def sb_fail_def Let_def split: option.splits if_splits)
    note Q = ReadFull_None [OF p(1)]
    have "4 < len" "len \<le> maxSidebandPacket" using range False by auto
    then have "q \<noteq> []" "length q + 4 = len" using Q by auto
    moreover have "src_data (sb_source r) = pkt_line q @ src_data s2"
      using H Q calculation(2) by (simp add: pkt_line_def)
    moreover have "byte (hd q) = 1 \<and> r' = r\<lparr>sb_source := s2, sb_pending := tl q\<rparr> \<or>
        byte (hd q) = 2 \<and> r' = r\<lparr>sb_source := s2\<rparr>"
      using p(2) by (auto simp: sb_band_def sb_fail_def Let_def split: if_splits)
    ultimately show thesis
      using packet [of q] Q H \<open>len \<le> maxSidebandPacket\<close> by (auto simp: side_ok_def)
  qed
qed

text \<open>
  A run of reads. The bytes given so far and the pending ones are the pack data of the
  packets read, and the source is at the packet after them.
\<close>

fun sb_drain :: "nat list \<Rightarrow> sidebandReader \<Rightarrow> sidebandReader \<times> bytes \<times> fetch_fail option option" where
  "sb_drain [] r = (r, [], None)"
| "sb_drain (n # ns) r =
     (case sb_Read n r of
       (r', Inl e) \<Rightarrow> (r', [], Some e)
     | (r', Inr got) \<Rightarrow> (case sb_drain ns r' of (r'', out, e) \<Rightarrow> (r'', got @ out, e)))"

definition sb_progress :: "byte_source \<Rightarrow> bytes \<Rightarrow> sidebandReader \<Rightarrow> bool" where
  "sb_progress src out r \<longleftrightarrow> (\<exists>ps. list_all side_ok ps \<and> out @ sb_pending r = pack_data ps \<and>
     src_data src = section_bytes ps @ (if sb_done r then hex4 0 else src_data (sb_source r)) \<and>
     (if sb_done r then src_end src = EOF else src_end (sb_source r) = src_end src))"

lemma sb_next_progress_inv:
  assumes "sb_next r = (r', None)" and "sb_progress src out r" and "sb_pending r = []" and "\<not> sb_done r"
  shows "sb_progress src out r'"
proof -
  obtain ps where ps: "list_all side_ok ps" "out = pack_data ps"
    "src_data src = section_bytes ps @ src_data (sb_source r)" "src_end (sb_source r) = src_end src"
    using assms by (auto simp: sb_progress_def)
  from assms(1) show ?thesis
  proof (cases rule: sb_next_None)
    case (packet p)
    then show ?thesis
      unfolding sb_progress_def using ps assms(3,4)
      by (intro exI [of _ "ps @ [p]"]) (auto simp: pack_data_snoc section_bytes_def)
  next
    case flush
    then show ?thesis
      unfolding sb_progress_def using ps assms(3,4) by (intro exI [of _ ps]) (auto simp: sb_next_def)
  qed
qed


lemma sb_Read_inv:
  assumes "sb_progress src out r"
  shows "case sb_Read n r of
      (r', Inr got) \<Rightarrow> sb_progress src (out @ got) r'
    | (r', Inl None) \<Rightarrow> sb_progress src out r' \<and> sb_done r' \<and> sb_pending r' = []
    | (r', Inl (Some e)) \<Rightarrow> True"
  using assms
proof (induction n r rule: sb_Read.induct)
  case (1 n r)
  show ?case
  proof (cases "sb_pending r \<noteq> []")
    case True
    then show ?thesis
      using "1.prems" by (subst sb_Read.simps) (auto simp: sb_take_def sb_progress_def)
  next
    case pending: False
    show ?thesis
    proof (cases "sb_failure r \<noteq> None \<or> sb_done r")
      case True
      then show ?thesis
        using pending "1.prems" by (subst sb_Read.simps) (auto split: option.split)
    next
      case False
      obtain r1 e where r1: "sb_next r = (r1, e)" by (cases "sb_next r")
      show ?thesis
      proof (cases e)
        case None
        have "sb_progress src out r1"
          using sb_next_progress_inv [of r r1] r1 None "1.prems" pending False by simp
        with "1.IH" r1 None pending False
        have "case sb_Read n r1 of
            (r', Inr got) \<Rightarrow> sb_progress src (out @ got) r'
          | (r', Inl None) \<Rightarrow> sb_progress src out r' \<and> sb_done r' \<and> sb_pending r' = []
          | (r', Inl (Some e)) \<Rightarrow> True" by simp
        moreover have "sb_Read n r = sb_Read n r1"
          using r1 None pending False by (subst sb_Read.simps) simp
        ultimately show ?thesis by simp
      next
        case (Some x)
        then show ?thesis using r1 pending False by (subst sb_Read.simps) simp
      qed
    qed
  qed
qed

lemma sb_drain_inv:
  "sb_drain ns r = (r', out', e) \<Longrightarrow> sb_progress src out r \<Longrightarrow>
   (e = None \<longrightarrow> sb_progress src (out @ out') r') \<and>
   (e = Some None \<longrightarrow> sb_progress src (out @ out') r' \<and> sb_done r' \<and> sb_pending r' = [])"
proof (induction ns arbitrary: r out out')
  case (Cons n ns)
  obtain r1 x where r1: "sb_Read n r = (r1, x)" by (cases "sb_Read n r")
  note I = sb_Read_inv [OF Cons.prems(2), of n, unfolded r1]
  show ?case
  proof (cases x)
    case (Inl y)
    then show ?thesis using Cons.prems(1) r1 I by (cases y) auto
  next
    case (Inr got)
    then obtain out2 where d: "sb_drain ns r1 = (r', out2, e)" "out' = got @ out2"
      using Cons.prems(1) r1 by (auto split: prod.splits)
    from Cons.IH [OF d(1), of "out @ got"] show ?thesis using I Inr d(2) by simp
  qed
qed simp

definition fresh_sideband :: "byte_source \<Rightarrow> sidebandReader" where
  "fresh_sideband src = \<lparr>sb_source = src, sb_pending = [], sb_done = False, sb_failure = None\<rparr>"

lemma fresh_progress: "sb_progress src [] (fresh_sideband src)"
  unfolding sb_progress_def
  by (rule exI [of _ "[]"]) (simp add: fresh_sideband_def pack_data_def section_bytes_def)

text \<open>Reading a whole section.\<close>

definition sb_complete :: "bytes list \<Rightarrow> sidebandReader \<Rightarrow> bool" where
  "sb_complete qs r \<longleftrightarrow> list_all side_ok qs \<and> src_data (sb_source r) = section_bytes qs @ hex4 0 \<and>
     src_end (sb_source r) = EOF \<and> sb_failure r = None \<and> \<not> sb_done r"

lemma ReadFull_append: "length a = n \<Longrightarrow> src_data s = a @ b \<Longrightarrow> ReadFull n s = (s\<lparr>src_data := b\<rparr>, a, None)"
  by (simp add: ReadFull_def)

lemma sb_next_flush:
  assumes "sb_complete [] r"
  shows "sb_next r = (r\<lparr>sb_source := (sb_source r)\<lparr>src_data := []\<rparr>, sb_done := True\<rparr>, None)"
proof -
  have "ReadFull 4 (sb_source r) = ((sb_source r)\<lparr>src_data := []\<rparr>, hex4 0, None)"
    using assms by (intro ReadFull_append) (simp_all add: sb_complete_def section_bytes_def)
  moreover have "strictHexLength (hex4 0) = Some 0"
    using parseHexLength_hex4 [of 0] by (simp add: strictHexLength_def parseHexLength_def)
  moreover have "ReadFull 1 ((sb_source r)\<lparr>src_data := []\<rparr>) = ((sb_source r)\<lparr>src_data := []\<rparr>, [], Some EOF)"
    using assms by (simp add: ReadFull_def sb_complete_def)
  ultimately show ?thesis by (simp add: sb_next_def Let_def)
qed

lemma sb_next_packet:
  assumes "sb_complete (q # qs) r"
  shows "\<exists>r'. sb_next r = (r', None) \<and> sb_complete qs r' \<and>
    sb_pending r' = (if byte (hd q) = 1 then tl q else sb_pending r)"
proof -
  have q: "q \<noteq> []" "byte (hd q) = 1 \<or> byte (hd q) = 2" "length q + 4 \<le> 65520"
    using assms by (auto simp: sb_complete_def side_ok_def maxSidebandPacket_def)
  let ?s1 = "(sb_source r)\<lparr>src_data := q @ section_bytes qs @ hex4 0\<rparr>"
    and ?s2 = "(sb_source r)\<lparr>src_data := section_bytes qs @ hex4 0\<rparr>"
  have "src_data (sb_source r) = hex4 (length q + 4) @ q @ section_bytes qs @ hex4 0"
    using assms by (simp add: sb_complete_def section_bytes_def pkt_line_def)
  then have "ReadFull 4 (sb_source r) = (?s1, hex4 (length q + 4), None)"
    by (intro ReadFull_append) simp_all
  moreover have "strictHexLength (hex4 (length q + 4)) = Some (length q + 4)"
    using parseHexLength_hex4 [of "length q + 4"] q(3) by (simp add: strictHexLength_def parseHexLength_def)
  moreover have "ReadFull (length q) ?s1 = (?s2, q, None)"
    using ReadFull_append [of q "length q" ?s1] by simp
  moreover have "\<not> (0 < length q + 4 \<and> length q + 4 \<le> 4 \<or> length q + 4 > maxSidebandPacket)" "length q + 4 \<noteq> 0"
    using q by (auto simp: maxSidebandPacket_def)
  ultimately have "sb_next r = sb_band q (r\<lparr>sb_source := ?s2\<rparr>)"
    by (simp add: sb_next_def Let_def)
  then show ?thesis
    using q assms by (auto simp: sb_band_def sb_complete_def Let_def)
qed

lemma sb_Read_complete:
  assumes "sb_complete qs r"
  shows "(\<exists>r'. sb_Read n r = (r', Inl None) \<and> sb_pending r @ pack_data qs = []) \<or>
    (\<exists>r' got qs'. sb_Read n r = (r', Inr got) \<and> sb_complete qs' r' \<and> (0 < n \<longrightarrow> got \<noteq> []) \<and>
       got @ sb_pending r' @ pack_data qs' = sb_pending r @ pack_data qs)"
  using assms
proof (induction qs arbitrary: r)
  case Nil
  show ?case
  proof (cases "sb_pending r = []")
    case True
    have "sb_Read n r = sb_Read n (r\<lparr>sb_source := (sb_source r)\<lparr>src_data := []\<rparr>, sb_done := True\<rparr>)"
      using True Nil sb_next_flush [OF Nil] by (subst sb_Read.simps) (simp add: sb_complete_def)
    then show ?thesis
      using True Nil by (simp add: sb_Read.simps [of n "r\<lparr>sb_source := (sb_source r)\<lparr>src_data := []\<rparr>, sb_done := True\<rparr>"]
          sb_complete_def pack_data_def)
  next
    case False
    then show ?thesis using Nil
      by (subst (2) sb_Read.simps) (auto simp: sb_take_def sb_complete_def intro!: exI [of _ "[]"])
  qed
next
  case (Cons q qs)
  show ?case
  proof (cases "sb_pending r = []")
    case True
    obtain r1 where r1: "sb_next r = (r1, None)" "sb_complete qs r1"
      "sb_pending r1 = (if byte (hd q) = 1 then tl q else sb_pending r)" using sb_next_packet [OF Cons.prems] by blast
    have "sb_Read n r = sb_Read n r1"
      using True Cons.prems r1(1) by (subst sb_Read.simps) (simp add: sb_complete_def)
    moreover have "sb_pending r1 @ pack_data qs = sb_pending r @ pack_data (q # qs)"
      using r1(3) True by (simp add: pack_data_def)
    ultimately show ?thesis using Cons.IH [OF r1(2)] by simp
  next
    case False
    then show ?thesis using Cons.prems
      by (subst (2) sb_Read.simps) (auto simp: sb_take_def sb_complete_def intro!: exI [of _ "q # qs"])
  qed
qed


lemma sb_drain_complete:
  assumes "sb_drain ns r = (r', out, e)" and "sb_complete qs r"
  shows "prefix out (sb_pending r @ pack_data qs) \<and> e \<in> {None, Some None} \<and>
    (e = Some None \<longrightarrow> out = sb_pending r @ pack_data qs) \<and>
    (0 \<notin> set ns \<longrightarrow> e = None \<longrightarrow> length ns \<le> length out)"
  using assms
proof (induction ns arbitrary: r out qs)
  case (Cons n ns)
  from sb_Read_complete [OF Cons.prems(2), of n] show ?case
  proof (elim disjE exE conjE)
    fix r1 assume "sb_Read n r = (r1, Inl None)" "sb_pending r @ pack_data qs = []"
    then show ?thesis using Cons.prems(1) by auto
  next
    fix r1 got qs' assume r1: "sb_Read n r = (r1, Inr got)" "sb_complete qs' r1" "0 < n \<longrightarrow> got \<noteq> []"
      and g: "got @ sb_pending r1 @ pack_data qs' = sb_pending r @ pack_data qs"
    obtain out2 where d: "sb_drain ns r1 = (r', out2, e)" "out = got @ out2"
      using Cons.prems(1) r1(1) by (auto split: prod.splits)
    have "length ns \<le> length out2 \<longrightarrow> 0 < n \<longrightarrow> length (n # ns) \<le> length out"
      using r1(3) d(2) by (cases got) auto
    then show ?thesis
      using Cons.IH [OF d(1) r1(2)] d(2) by (auto simp flip: g)
  qed
qed simp

definition section_source :: "bytes list \<Rightarrow> byte_source" where
  "section_source ps = \<lparr>src_data = section_bytes ps @ ''0000'', src_end = EOF\<rparr>"

lemma hex4_0: "hex4 0 = ''0000''"
  by (simp add: hex4_examples)

text \<open>C26. Only a complete section ends normally: when a consumer reads with buffers of any sizes
  until \<open>io.EOF\<close>, the whole response was well-formed packets of the bands 1 and 2, a flush
  packet and nothing after it, and the consumer got exactly the payloads of band 1 in order.\<close>

theorem sideband_exact:
  assumes "sb_drain ns (fresh_sideband src) = (r', out, Some None)"
  shows "\<exists>ps. list_all side_ok ps \<and> src = section_source ps \<and> out = pack_data ps"
proof -
  have "sb_progress src out r'" "sb_done r'" "sb_pending r' = []"
    using sb_drain_inv [OF assms fresh_progress] by simp_all
  then obtain ps where "list_all side_ok ps" "out = pack_data ps" "src_data src = section_bytes ps @ ''0000''" "src_end src = EOF"
    by (auto simp: sb_progress_def hex4_0)
  then show ?thesis
    unfolding section_source_def by (intro exI [of _ ps]) simp
qed

lemma drain_section:
  assumes "list_all side_ok ps" and "0 \<notin> set ns" and "length (pack_data ps) < length ns"
  shows "\<exists>r'. sb_drain ns (fresh_sideband (section_source ps)) = (r', pack_data ps, Some None)"
proof -
  have c: "sb_complete ps (fresh_sideband (section_source ps))"
    using assms(1) by (simp add: sb_complete_def fresh_sideband_def section_source_def hex4_0)
  obtain r' out e where d: "sb_drain ns (fresh_sideband (section_source ps)) = (r', out, e)"
    by (cases "sb_drain ns (fresh_sideband (section_source ps))")
  note D = sb_drain_complete [OF d c]
  have "e \<noteq> None"
    using D assms(2,3) prefix_length_le [of out "pack_data ps"] by (auto simp: fresh_sideband_def)
  then show ?thesis using D d by (auto simp: fresh_sideband_def)
qed

text \<open>C27. A complete section is always delivered: no read of it fails, what was given so far is
  the beginning of its pack data, and a consumer whose buffers are not empty reaches \<open>io.EOF\<close>
  with all of it after at most one read more than there are pack bytes.\<close>

theorem sideband_delivers:
  assumes "list_all side_ok ps" and "0 \<notin> set ns" and "length (pack_data ps) < length ns"
  shows "\<exists>r'. sb_drain ns (fresh_sideband (section_source ps)) = (r', pack_data ps, Some None)"
  using assms by (rule drain_section)

definition sample_section :: "bytes list" where
  "sample_section = [[CHR 0x02] @ ''Counting'', [CHR 0x01] @ ''PAC'', [CHR 0x01] @ ''K'']"

theorem sideband_delivers_witness:
  "\<exists>r'. sb_drain (replicate 5 2) (fresh_sideband (section_source sample_section)) = (r', ''PACK'', Some None)"
  using sideband_delivers [of sample_section "replicate 5 2"]
  by (simp add: sample_section_def side_ok_def byte_def maxSidebandPacket_def pack_data_def)

theorem sideband_exact_witness:
  "\<exists>ps. list_all side_ok ps \<and> section_source sample_section = section_source ps \<and> ''PACK'' = pack_data ps"
proof -
  obtain r' where "sb_drain (replicate 5 2) (fresh_sideband (section_source sample_section)) = (r', ''PACK'', Some None)"
    using drain_section [of sample_section "replicate 5 2"]
    by (auto simp: sample_section_def side_ok_def byte_def maxSidebandPacket_def pack_data_def)
  then show ?thesis by (rule sideband_exact)
qed

text \<open>The framing allowed around the pack is enough: a section whose band-1 packets carry at
  least \<open>sidebandPackChunk\<close> bytes, the last one perhaps less, and no progress text, fits with
  its header and its flush packet into \<open>maxPack + sidebandOverhead maxPack\<close> bytes for every
  pack of at most \<open>maxPack\<close> bytes.\<close>

theorem sidebandOverhead_enough:
  assumes "list_all (\<lambda>p. byte (hd p) = 1 \<and> p \<noteq> []) ps" and "list_all (\<lambda>p. sidebandPackChunk \<le> int (length (tl p))) (butlast ps)"
    and "int (length (pack_data ps)) \<le> maxPack"
  shows "int (length (''000dpackfile'' @ [CHR 0x0A] @ section_bytes ps @ ''0000'')) \<le> maxPack + sidebandOverhead maxPack"
proof -
  have size: "int (length (section_bytes ps)) = int (length (pack_data ps)) + 5 * int (length ps)"
    if "list_all (\<lambda>p. byte (hd p) = 1 \<and> p \<noteq> []) ps" for ps
    using that by (induction ps) (auto simp: section_bytes_def pack_data_def pkt_line_def Suc_leI)
  have "sidebandPackChunk * int (length qs) \<le> int (length (pack_data qs))"
    if "list_all (\<lambda>p. byte (hd p) = 1 \<and> p \<noteq> []) qs" "list_all (\<lambda>p. sidebandPackChunk \<le> int (length (tl p))) qs" for qs
    using that by (induction qs) (auto simp: pack_data_def algebra_simps)
  moreover have "list_all (\<lambda>p. byte (hd p) = 1 \<and> p \<noteq> []) (butlast ps)"
    using assms(1) by (auto simp: list_all_iff dest: in_set_butlastD)
  moreover have "length (pack_data (butlast ps)) \<le> length (pack_data ps)"
    by (cases ps rule: rev_cases) (simp_all add: pack_data_def)
  ultimately have "sidebandPackChunk * int (length ps - 1) \<le> maxPack"
    using assms(2,3) by fastforce
  then have "int (length ps) \<le> maxPack div sidebandPackChunk + 1"
    by (simp add: sidebandPackChunk_def)
  then show ?thesis
    using size [OF assms(1)] assms(3) by (simp add: sidebandOverhead_def sidebandHeader_def)
qed

theorem sidebandOverhead_enough_witness:
  "int (length (''000dpackfile'' @ [CHR 0x0A] @ section_bytes [[CHR 0x01] @ ''PACK''] @ ''0000'')) \<le> 4 + sidebandOverhead 4"
  by (rule sidebandOverhead_enough) (simp_all add: byte_def pack_data_def)


subsection \<open>What the budgets let through\<close>

text \<open>What a limited run of reads may give of a stream: never more than the limit, in order, all of
  it when the stream ends, and the limit's own error only when the stream is longer.\<close>

definition within_limit :: "bytes \<Rightarrow> int \<Rightarrow> io_error \<Rightarrow> bytes \<Rightarrow> io_error option \<Rightarrow> bool" where
  "within_limit body limit e got err \<longleftrightarrow> prefix got body \<and> int (length got) \<le> limit \<and>
     (err = Some e \<longrightarrow> got = take (nat limit) body \<and> limit < int (length body)) \<and>
     (\<forall>x. err = Some x \<longrightarrow> x \<noteq> e \<longrightarrow> got = body)"

definition new_budget :: "int \<Rightarrow> bodyBudget" where
  "new_budget limit = \<lparr>bb_remaining = limit, bb_consumed = 0, bb_exceeded = False\<rparr>"

definition new_pack :: "raw_source \<Rightarrow> int \<Rightarrow> packReader" where
  "new_pack src limit = \<lparr>pr_source = src, pr_remaining = limit, pr_consumed = 0, pr_exceeded = False, pr_terminalErr = None\<rparr>"

text \<open>The byte budgets hold for every way the connection cuts its data into pieces and every
  sequence of buffer sizes: the body reader and the pack reader hand out the stream in order,
  never more than their limit, all of it when the stream ends, and report their own error
  exactly when more than the limit was sent, after handing out the limit.\<close>

theorem budgets_hold:
  assumes "0 \<le> limit" and "rs_end src \<notin> {TotalBodyExceeded, PackExceeded}"
    and "drain budgetRead ns (src, new_budget limit) = (st, got, err)"
    and "drain packRead ns (new_pack src limit) = (r, got', err')"
  shows "within_limit (stream src) limit TotalBodyExceeded got err \<and> within_limit (stream src) limit PackExceeded got' err'"
proof -
  have "body_ok (src, new_budget limit)" "pack_ok (new_pack src limit)"
    using assms(1,2) by (simp_all add: body_ok_def pack_ok_def new_budget_def new_pack_def)
  from body_reader.drain_bounded [OF assms(3) this(1)] pack_reader.drain_bounded [OF assms(4) this(2)]
  show ?thesis using assms(1) by (auto simp: within_limit_def new_budget_def new_pack_def nat_le_iff)
qed

definition sample_raw :: raw_source where
  "sample_raw = \<lparr>rs_pieces = [''PA'', [], ''CKS''], rs_end = EOF, rs_eager = False\<rparr>"

theorem budgets_hold_witness:
  "within_limit ''PACKS'' 4 TotalBodyExceeded ''PACK'' (Some TotalBodyExceeded) \<and>
   within_limit ''PACKS'' 4 PackExceeded ''PACK'' (Some PackExceeded)"
proof -
  have "\<exists>st. drain budgetRead [3, 1, 9, 9] (sample_raw, new_budget 4) = (st, ''PACK'', Some TotalBodyExceeded)"
    "\<exists>r. drain packRead [3, 1, 9, 9] (new_pack sample_raw 4) = (r, ''PACK'', Some PackExceeded)"
    by (simp_all add: budgetRead_def packRead_def src_Read_def sample_raw_def new_budget_def new_pack_def)
  then show ?thesis
    using budgets_hold [of 4 sample_raw "[3, 1, 9, 9]"] by (auto simp: sample_raw_def stream_def)
qed

end
