(* ===== verification/FetchGate.thy ===== *)
theory FetchGate
  imports UploadRequest
begin

text \<open>
  The check of fetch requests (\<open>internal/githttp/fetch_wants.go\<close>): the gate that holds a request
  back until its want lines are known, and the check of the wants against what the address
  advertises. The answers of Git are a parameter; their documented meaning is stated where
  it is used.
\<close>

subsection \<open>Failures and numbers\<close>

datatype gate_fail =
    errFetchRequest
  | errFetchTooLarge
  | errFetchCheck
  | errNotOurRef bytes
  | GateIO io_error

definition maximumFetchRequest :: int where "maximumFetchRequest = 10 * 2 ^ 20"

text \<open>\<open>strconv.ParseUint(s, 16, 16)\<close> on the four bytes of a header: both letter cases.\<close>

definition hex_any_value :: "char \<Rightarrow> nat option" where
  "hex_any_value c = hex_value (lower_char c)"

fun parse_uint16 :: "nat \<Rightarrow> bytes \<Rightarrow> nat option" where
  "parse_uint16 value [] = Some value"
| "parse_uint16 value (d # ds) =
     (case hex_any_value d of None \<Rightarrow> None | Some v \<Rightarrow> parse_uint16 (16 * value + v) ds)"

definition ParseUint16 :: "bytes \<Rightarrow> nat option" where
  "ParseUint16 digits = (if digits = [] then None else parse_uint16 0 digits)"

definition usesProtocolV2 :: "bytes \<Rightarrow> bool" where
  "usesProtocolV2 header = list_ex (\<lambda>field. field = ''version=2'') (split_on (CHR '':'') header)"

definition validObjectID :: "bytes \<Rightarrow> bool" where
  "validObjectID oid \<longleftrightarrow>
     (if length oid \<noteq> 40 \<and> length oid \<noteq> 64 then False
      else list_all (\<lambda>c. is_digit c \<or> (97 \<le> byte c \<and> byte c \<le> 102) \<or> (65 \<le> byte c \<and> byte c \<le> 70)) oid)"

subsection \<open>The gate\<close>

text \<open>One line of the request: the command, a want, or a line that says nothing here.\<close>

definition request_line :: "bytes \<Rightarrow> nat \<Rightarrow> bytes \<Rightarrow> bytes list \<Rightarrow> gate_fail + bytes \<times> bytes list" where
  "request_line line packets command wants =
     (case cut_prefix ''command='' line of
       Some c \<Rightarrow> if command \<noteq> [] \<or> packets > 0 then Inl errFetchRequest else Inr (c, wants)
     | None \<Rightarrow>
        if prefix ''want-ref '' line then Inl errFetchRequest
        else case cut_prefix ''want '' line of
          None \<Rightarrow> Inr (command, wants)
        | Some rest \<Rightarrow>
            let (oid1, _, _) = cut (CHR '' '') rest; (oid, _, _) = cut (CHR 0x00) oid1 in
            if \<not> validObjectID oid then Inl errFetchRequest
            else Inr (command, wants @ [ascii_lower oid]))"

definition copy_fail :: "io_error \<Rightarrow> gate_fail" where
  "copy_fail e = (if e = EOF then errFetchRequest else GateIO e)"

text \<open>The packets up to the flush: the source, the bytes held and the outcome.\<close>

function request_head ::
    "byte_source \<Rightarrow> bytes \<Rightarrow> bytes list \<Rightarrow> bytes \<Rightarrow> nat \<Rightarrow> byte_source \<times> bytes \<times> (gate_fail + bytes list \<times> bytes)" where
  "request_head src held wants command packets =
     (case CopyN 4 src of (s1, got1, err1) \<Rightarrow>
        (let held1 = held @ got1 in
         case err1 of Some e \<Rightarrow> (s1, held1, Inl (copy_fail e))
         | None \<Rightarrow>
           (case ParseUint16 got1 of
             None \<Rightarrow> (s1, held1, Inl errFetchRequest)
           | Some len \<Rightarrow>
               if len = 2 \<or> len = 3 then (s1, held1, Inl errFetchRequest)
               else if len = 0 then (s1, held1, Inr (wants, command))
               else if len = 1 then request_head s1 held1 wants command (packets + 1)
               else if int (length held1) + int len > maximumFetchRequest then (s1, held1, Inl errFetchTooLarge)
               else
                 (case CopyN (len - 4) s1 of (s2, got2, err2) \<Rightarrow>
                    (let held2 = held1 @ got2 in
                     case err2 of Some e \<Rightarrow> (s2, held2, Inl (copy_fail e))
                     | None \<Rightarrow>
                       (case request_line (trim_suffix [CHR 0x0A] got2) packets command wants of
                         Inl e \<Rightarrow> (s2, held2, Inl e)
                       | Inr (command', wants') \<Rightarrow> request_head s2 held2 wants' command' (packets + 1)))))))"
  by pat_completeness auto
termination
proof (relation "measure (\<lambda>(src, held, wants, command, packets). length (src_data src))", goal_cases)
  case 2
  then show ?case by (auto simp: CopyN_def split: if_splits)
next
  case 3
  then show ?case by (auto simp: CopyN_def split: if_splits)
qed simp

declare request_head.simps [simp del]

record fetchWantsGate =
  fg_source :: byte_source
  fg_v2 :: bool
  fg_head :: bytes
  fg_ready :: bytes
  fg_done :: bool
  fg_passed :: bool

text \<open>The check is \<open>None\<close> for Go's \<open>nil\<close> error.\<close>

definition readWants :: "(bytes list \<Rightarrow> gate_fail option) \<Rightarrow> fetchWantsGate \<Rightarrow> fetchWantsGate \<times> gate_fail option" where
  "readWants check gate =
     (case request_head (fg_source gate) (fg_head gate) [] [] 0 of (src, held, outcome) \<Rightarrow>
        (let gate1 = gate\<lparr>fg_source := src, fg_head := held\<rparr> in
         case outcome of
           Inl e \<Rightarrow> (gate1, Some e)
         | Inr (wants, command) \<Rightarrow>
             if fg_v2 gate \<and> command \<noteq> ''fetch'' \<and> command \<noteq> ''ls-refs'' then (gate1, Some errFetchRequest)
             else case check wants of
               Some e \<Rightarrow> (gate1, Some e)
             | None \<Rightarrow> (gate1\<lparr>fg_passed := True, fg_ready := held, fg_done := True\<rparr>, None)))"

definition source_Read :: "nat \<Rightarrow> byte_source \<Rightarrow> byte_source \<times> bytes \<times> io_error option" where
  "source_Read n s =
     (if src_data s = [] then (s, [], Some (src_end s))
      else (s\<lparr>src_data := drop n (src_data s)\<rparr>, take n (src_data s), None))"

definition gate_rest :: "nat \<Rightarrow> fetchWantsGate \<Rightarrow> fetchWantsGate \<times> bytes \<times> gate_fail option" where
  "gate_rest n gate =
     (if fg_ready gate \<noteq> [] then (gate\<lparr>fg_ready := drop n (fg_ready gate)\<rparr>, take n (fg_ready gate), None)
      else case source_Read n (fg_source gate) of (src, got, err) \<Rightarrow>
        (gate\<lparr>fg_source := src\<rparr>, got, map_option GateIO err))"

definition gate_Read ::
    "(bytes list \<Rightarrow> gate_fail option) \<Rightarrow> nat \<Rightarrow> fetchWantsGate \<Rightarrow> fetchWantsGate \<times> bytes \<times> gate_fail option" where
  "gate_Read check n gate =
     (if fg_done gate then gate_rest n gate
      else case readWants check gate of
        (gate', Some e) \<Rightarrow> (gate', [], Some e)
      | (gate', None) \<Rightarrow> gate_rest n gate')"

subsection \<open>What a request says\<close>

text \<open>The packets before the flush as they stood on the wire, each with its header.\<close>

datatype request_item = Delimiter bytes | Line bytes bytes

fun item_bytes :: "request_item \<Rightarrow> bytes" where
  "item_bytes (Delimiter h) = h"
| "item_bytes (Line h payload) = h @ payload"

fun item_ok :: "request_item \<Rightarrow> bool" where
  "item_ok (Delimiter h) \<longleftrightarrow> length h = 4 \<and> ParseUint16 h = Some 1"
| "item_ok (Line h payload) \<longleftrightarrow> length h = 4 \<and> ParseUint16 h = Some (length payload + 4)"

fun item_line :: "request_item \<Rightarrow> bytes option" where
  "item_line (Delimiter h) = None"
| "item_line (Line h payload) = Some (trim_suffix [CHR 0x0A] payload)"

definition want_of_line :: "bytes \<Rightarrow> bytes list" where
  "want_of_line line = (case cut_prefix ''want '' line of None \<Rightarrow> []
     | Some rest \<Rightarrow> [ascii_lower (fst (cut (CHR 0x00) (fst (cut (CHR '' '') rest))))])"

definition item_wants :: "request_item \<Rightarrow> bytes list" where
  "item_wants it = (case item_line it of None \<Rightarrow> [] | Some line \<Rightarrow> want_of_line line)"

definition item_refused :: "request_item \<Rightarrow> bool" where
  "item_refused it \<longleftrightarrow> (case item_line it of None \<Rightarrow> False | Some line \<Rightarrow>
     prefix ''want-ref '' line \<or> \<not> list_all validObjectID (want_of_line line))"

text \<open>A request as the gate accepts it: items, a flush and the rest, which the gate leaves alone.\<close>

text \<open>The first item says what the command is.\<close>

definition command_of :: "request_item list \<Rightarrow> bytes \<Rightarrow> bool" where
  "command_of items command \<longleftrightarrow> command = [] \<or>
     (\<exists>it rest. items = it # rest \<and> item_line it = Some (''command='' @ command))"

definition reads_request :: "bool \<Rightarrow> bytes \<Rightarrow> bytes list \<Rightarrow> bool" where
  "reads_request v2 body wants \<longleftrightarrow> (\<exists>items flush rest. body = concat (map item_bytes items) @ flush @ rest \<and>
     list_all item_ok items \<and> list_all (\<lambda>it. \<not> item_refused it) items \<and>
     length flush = 4 \<and> ParseUint16 flush = Some 0 \<and> wants = concat (map item_wants items) \<and>
     (v2 \<longrightarrow> command_of items ''fetch'' \<or> command_of items ''ls-refs''))"


lemma CopyN_None: "CopyN n s = (s', got, None) \<Longrightarrow>
    src_data s = got @ src_data s' \<and> length got = n \<and> src_end s' = src_end s"
  by (auto simp: CopyN_def split: if_splits)

lemma lower_hex: "is_digit c \<or> (97 \<le> byte c \<and> byte c \<le> 102) \<or> (65 \<le> byte c \<and> byte c \<le> 70) \<Longrightarrow>
    is_hex_lower (lower_char c)"
  by (rule lower_char_hex) (auto simp: char_defs)

lemma validObjectID_lower [simp]: "validObjectID (ascii_lower oid) = validObjectID oid"
proof -
  let ?ok = "\<lambda>c. is_digit c \<or> (97 \<le> byte c \<and> byte c \<le> 102) \<or> (65 \<le> byte c \<and> byte c \<le> 70)"
  have "?ok (lower_char c) = ?ok c" for c
    by (auto simp: byte_lower_char is_upper_def is_digit_def)
  then have "list_all ?ok (map lower_char oid) = list_all ?ok oid" by (simp add: list_all_iff)
  then show ?thesis unfolding validObjectID_def ascii_lower_def by simp
qed

lemma request_line_Inr:
  assumes "request_line line packets command wants = Inr (command', wants')"
  shows "wants' = wants @ want_of_line line \<and> \<not> prefix ''want-ref '' line \<and> list_all validObjectID (want_of_line line) \<and>
    (command' = command \<or> (command = [] \<and> packets = 0 \<and> line = ''command='' @ command'))"
proof (cases "cut_prefix ''command='' line")
  case (Some c)
  then have line: "line = ''command='' @ c" by (simp add: cut_prefix_Some)
  then have "cut_prefix ''want '' line = None" "\<not> prefix ''want-ref '' line" by (simp_all add: cut_prefix_None)
  then show ?thesis
    using assms Some line by (auto simp: request_line_def want_of_line_def split: if_splits)
next
  case None
  show ?thesis
  proof (cases "cut_prefix ''want '' line")
    case None2: None
    then show ?thesis
      using assms None by (auto simp: request_line_def want_of_line_def split: if_splits)
  next
    case (Some rest)
    obtain oid1 a b where c1: "cut (CHR '' '') rest = (oid1, a, b)" by (cases "cut (CHR '' '') rest")
    obtain oid c d where c2: "cut (CHR 0x00) oid1 = (oid, c, d)" by (cases "cut (CHR 0x00) oid1")
    show ?thesis
      using assms None Some c1 c2
      by (auto simp: request_line_def want_of_line_def split: if_splits)
  qed
qed

lemma request_head_step:
  assumes "request_head src held wants command packets = (s', held', Inr (wants', command'))"
  obtains (flush) got where "src_data src = got @ src_data s'" "held' = held @ got" "length got = 4"
      "ParseUint16 got = Some 0" "wants' = wants" "command' = command" "src_end s' = src_end src"
  | (item) it s1 wants1 command1 where "item_ok it" "\<not> item_refused it" "src_data src = item_bytes it @ src_data s1"
      "src_end s1 = src_end src" "wants1 = wants @ item_wants it"
      "command1 = command \<or> (command = [] \<and> packets = 0 \<and> item_line it = Some (''command='' @ command1))"
      "request_head s1 (held @ item_bytes it) wants1 command1 (packets + 1) = (s', held', Inr (wants', command'))"
      "length (src_data s1) < length (src_data src)"
proof -
  obtain s1 got1 err1 where c: "CopyN 4 src = (s1, got1, err1)" by (cases "CopyN 4 src")
  have e1: "err1 = None" using assms c by (subst (asm) request_head.simps) (auto simp: Let_def split: option.splits)
  note C = CopyN_None [OF c [unfolded e1]]
  obtain len where len: "ParseUint16 got1 = Some len"
    using assms c e1 by (subst (asm) request_head.simps) (auto simp: Let_def split: option.splits)
  have n23: "len \<noteq> 2 \<and> len \<noteq> 3" using assms c e1 len by (subst (asm) request_head.simps) (auto simp: Let_def split: if_splits)
  consider "len = 0" | "len = 1" | "3 < len" using n23 by linarith
  then show thesis
  proof cases
    case 1
    then show thesis
      using assms c e1 len C flush [of got1] by (subst (asm) request_head.simps) (auto simp: Let_def)
  next
    case 2
    have "request_head s1 (held @ got1) wants command (packets + 1) = (s', held', Inr (wants', command'))"
      using assms c e1 len 2 by (subst (asm) request_head.simps) (auto simp: Let_def)
    then show thesis
      using item [of "Delimiter got1" s1 wants command] C len 2 by (simp add: item_refused_def item_wants_def)
  next
    case 3
    have fits: "\<not> int (length (held @ got1)) + int len > maximumFetchRequest"
      using assms c e1 len 3 by (subst (asm) request_head.simps) (auto simp: Let_def simp del: length_append split: if_splits)
    obtain s2 got2 err2 where c2: "CopyN (len - 4) s1 = (s2, got2, err2)" by (cases "CopyN (len - 4) s1")
    have e2: "err2 = None"
      using assms c e1 len 3 fits c2 by (subst (asm) request_head.simps) (auto simp: Let_def simp del: length_append split: option.splits)
    note C2 = CopyN_None [OF c2 [unfolded e2]]
    obtain command1 wants1 where l: "request_line (trim_suffix [CHR 0x0A] got2) packets command wants = Inr (command1, wants1)"
      and r: "request_head s2 (held @ got1 @ got2) wants1 command1 (packets + 1) = (s', held', Inr (wants', command'))"
      using assms c e1 len 3 fits c2 e2
      by (subst (asm) request_head.simps) (auto simp: Let_def simp del: length_append split: sum.splits prod.splits)
    note L = request_line_Inr [OF l]
    show thesis
      using item [of "Line got1 got2" s2 wants1 command1] C C2 L r len 3
      by (auto simp: item_refused_def item_wants_def)
  qed
qed

lemma request_head_Inr:
  "request_head src held wants command packets = (s', held', Inr (wants', command')) \<Longrightarrow>
   \<exists>items flush. held' = held @ concat (map item_bytes items) @ flush \<and>
     src_data src = concat (map item_bytes items) @ flush @ src_data s' \<and> src_end s' = src_end src \<and>
     list_all item_ok items \<and> list_all (\<lambda>it. \<not> item_refused it) items \<and> length flush = 4 \<and> ParseUint16 flush = Some 0 \<and>
     wants' = wants @ concat (map item_wants items) \<and>
     (command' = command \<or> (command = [] \<and> packets = 0 \<and> command_of items command'))"
proof (induction "length (src_data src)" arbitrary: src held wants command packets rule: less_induct)
  case less
  from less.prems show ?case
  proof (cases rule: request_head_step)
    case (flush got)
    then show ?thesis by (intro exI [of _ "[]"] exI [of _ got]) simp
  next
    case (item it s1 wants1 command1)
    from less.hyps [OF item(8,7)] obtain items fl where
      I: "held' = (held @ item_bytes it) @ concat (map item_bytes items) @ fl"
      "src_data s1 = concat (map item_bytes items) @ fl @ src_data s'" "src_end s' = src_end s1"
      "list_all item_ok items" "list_all (\<lambda>it. \<not> item_refused it) items" "length fl = 4" "ParseUint16 fl = Some 0"
      "wants' = wants1 @ concat (map item_wants items)"
      "command' = command1 \<or> (command1 = [] \<and> packets + 1 = 0 \<and> command_of items command')" by blast
    have "command' = command \<or> (command = [] \<and> packets = 0 \<and> command_of (it # items) command')"
      using I(9) item(6) by (auto simp: command_of_def)
    then show ?thesis
      using I item by (intro exI [of _ "it # items"] exI [of _ fl]) simp
  qed
qed

subsection \<open>What reaches Git\<close>

fun gate_drain :: "(bytes list \<Rightarrow> gate_fail option) \<Rightarrow> nat list \<Rightarrow> fetchWantsGate \<Rightarrow>
    fetchWantsGate \<times> bytes \<times> gate_fail option" where
  "gate_drain check [] gate = (gate, [], None)"
| "gate_drain check (n # ns) gate =
     (case gate_Read check n gate of
       (gate', got, Some e) \<Rightarrow> (gate', got, Some e)
     | (gate', got, None) \<Rightarrow> (case gate_drain check ns gate' of (g, out, err) \<Rightarrow> (g, got @ out, err)))"

definition new_gate :: "bool \<Rightarrow> byte_source \<Rightarrow> fetchWantsGate" where
  "new_gate v2 src = \<lparr>fg_source = src, fg_v2 = v2, fg_head = [], fg_ready = [], fg_done = False, fg_passed = False\<rparr>"

definition opened :: "(bytes list \<Rightarrow> gate_fail option) \<Rightarrow> bool \<Rightarrow> byte_source \<Rightarrow> bytes \<Rightarrow> fetchWantsGate \<Rightarrow> bool" where
  "opened check v2 src out gate \<longleftrightarrow> fg_done gate \<and> out @ fg_ready gate @ src_data (fg_source gate) = src_data src \<and>
     src_end (fg_source gate) = src_end src \<and>
     (\<exists>wants. reads_request v2 (src_data src) wants \<and> check wants = None)"

lemma readWants_opens:
  assumes "readWants check (new_gate v2 src) = (gate, None)"
  shows "opened check v2 src [] gate"
proof -
  obtain s' held res where h: "request_head src [] [] [] 0 = (s', held, res)"
    by (cases "request_head src [] [] [] 0")
  obtain wants command where res: "res = Inr (wants, command)"
    using assms h by (cases res) (auto simp: readWants_def new_gate_def Let_def)
  have v: "v2 \<longrightarrow> command = ''fetch'' \<or> command = ''ls-refs''" and ck: "check wants = None"
    using assms h res by (auto simp: readWants_def new_gate_def Let_def split: if_splits option.splits)
  have g: "fg_done gate" "fg_ready gate = held" "fg_source gate = s'"
    using assms h res by (auto simp: readWants_def new_gate_def Let_def split: if_splits option.splits)
  obtain items fl where I: "held = concat (map item_bytes items) @ fl"
      "src_data src = concat (map item_bytes items) @ fl @ src_data s'" "src_end s' = src_end src"
      "list_all item_ok items" "list_all (\<lambda>it. \<not> item_refused it) items" "length fl = 4" "ParseUint16 fl = Some 0"
      "wants = concat (map item_wants items)" "command = [] \<or> command_of items command"
    using request_head_Inr [OF h [unfolded res]] by auto
  have "reads_request v2 (src_data src) wants"
    unfolding reads_request_def
    by (rule exI [of _ items], rule exI [of _ fl], rule exI [of _ "src_data s'"]) (use I v in auto)
  then show ?thesis using g I ck by (auto simp: opened_def)
qed

lemma take_drop_append: "take n xs @ drop n xs @ ys = xs @ ys"
  by (metis append.assoc append_take_drop_id)

lemma gate_rest_opened:
  assumes "gate_rest n gate = (gate', got, err)" and "opened check v2 src out gate"
  shows "opened check v2 src (out @ got) gate'"
  using assms by (auto simp: gate_rest_def opened_def source_Read_def take_drop_append split: if_splits)

lemma gate_drain_opened:
  "gate_drain check ns gate = (gate', out', err) \<Longrightarrow> opened check v2 src out gate \<Longrightarrow>
   opened check v2 src (out @ out') gate'"
proof (induction ns arbitrary: gate out out')
  case (Cons n ns)
  obtain g1 got e1 where r: "gate_rest n gate = (g1, got, e1)" by (cases "gate_rest n gate")
  have g: "gate_Read check n gate = (g1, got, e1)"
    using r Cons.prems(2) by (simp add: gate_Read_def opened_def)
  note O = gate_rest_opened [OF r Cons.prems(2)]
  show ?case
  proof (cases e1)
    case None
    then obtain out2 where d: "gate_drain check ns g1 = (gate', out2, err)" "out' = got @ out2"
      using Cons.prems(1) g by (auto split: prod.splits)
    from Cons.IH [OF d(1) O] show ?thesis using d(2) by simp
  next
    case (Some e)
    then show ?thesis using Cons.prems(1) g O by simp
  qed
qed simp

lemma gate_mediates:
  assumes "gate_drain check ns (new_gate v2 src) = (gate, out, err)" and "out \<noteq> []"
  shows "prefix out (src_data src) \<and> (\<exists>wants. reads_request v2 (src_data src) wants \<and> check wants = None)"
proof -
  obtain n ms where ns: "ns = n # ms" using assms by (cases ns) auto
  obtain g1 e1 where w: "readWants check (new_gate v2 src) = (g1, e1)" by (cases "readWants check (new_gate v2 src)")
  have "e1 = None"
    using assms ns w by (cases e1) (auto simp: gate_Read_def new_gate_def)
  with w have O: "opened check v2 src [] g1" by (simp add: readWants_opens)
  have "gate_Read check n (new_gate v2 src) = gate_Read check n g1"
    using w \<open>e1 = None\<close> O by (simp add: gate_Read_def opened_def new_gate_def)
  then have "gate_drain check ns g1 = (gate, out, err)" using assms(1) ns by simp
  from gate_drain_opened [OF this O] show ?thesis
    by (auto simp: opened_def prefix_def) (metis append.assoc)
qed


text \<open>C21. Git sees no byte of a fetch request before its wants were checked: for every sequence of
  reads up to the first error, either nothing was handed out, or the request begins with
  well-formed packets up to a flush, none of them a \<open>want-ref\<close> or a malformed want, the
  command is one of version 2 where that is spoken, the check has accepted exactly the object
  IDs of all its want lines, and what was handed out is the request unchanged.\<close>

theorem fetch_gate_mediates:
  assumes "gate_drain check ns (new_gate v2 src) = (gate, out, err)" and "out \<noteq> []"
  shows "prefix out (src_data src) \<and> (\<exists>wants. reads_request v2 (src_data src) wants \<and> check wants = None)"
  using assms by (rule gate_mediates)

subsection \<open>The check of the wants\<close>

datatype git_answer = GitOut bytes | GitExit nat | GitFailed

type_synonym git = "bytes list \<Rightarrow> bytes \<Rightarrow> git_answer"

record fetchScope =
  sc_patterns :: "bytes list"
  sc_hidden :: bytes
  sc_reaching :: "bytes list"
  sc_headTips :: bool

definition mainScope :: fetchScope where
  "mainScope = \<lparr>sc_patterns = [], sc_hidden = ''refs/owngit/'',
     sc_reaching = [''--exclude=refs/owngit/*'', ''--all''], sc_headTips = False\<rparr>"

definition branchesAndTags :: fetchScope where
  "branchesAndTags = \<lparr>sc_patterns = [''refs/heads/'', ''refs/tags/''], sc_hidden = [],
     sc_reaching = [''--branches'', ''--tags''], sc_headTips = True\<rparr>"

definition in_dir :: "bytes list \<Rightarrow> bytes list" where
  "in_dir args = [''--git-dir'', ''.''] @ args"

text \<open>The lines of an answer that are an object and a name.\<close>

definition ref_lines :: "bytes \<Rightarrow> (bytes \<times> bytes) list" where
  "ref_lines out = concat (map (\<lambda>line. case cut (CHR '' '') line of (oid, name, ok) \<Rightarrow> if ok then [(oid, name)] else [])
     (split_on (CHR 0x0A) out))"

definition show_ref_args :: "fetchScope \<Rightarrow> bytes list" where
  "show_ref_args scope = in_dir ([''show-ref'', ''--head''] @
     (if sc_headTips scope then [''--heads'', ''--tags'', ''--dereference''] else []))"

text \<open>The loop of \<open>scopeHead\<close>: the head read last and the tips.\<close>

fun head_and_tips :: "bool \<Rightarrow> (bytes \<times> bytes) list \<Rightarrow> bytes \<Rightarrow> bytes set \<Rightarrow> bytes \<times> bytes set" where
  "head_and_tips headTips [] head tips = (head, tips)"
| "head_and_tips headTips ((oid, name) # ls) head tips =
     (if name = ''HEAD'' then head_and_tips headTips ls oid tips
      else if headTips then head_and_tips headTips ls head (insert oid tips)
      else head_and_tips headTips ls head tips)"

definition scopeHead :: "git \<Rightarrow> fetchScope \<Rightarrow> gate_fail + bytes \<times> bool" where
  "scopeHead git scope =
     (case git (show_ref_args scope) [] of
       GitExit code \<Rightarrow> if code = 1 then Inr ([], False) else Inl errFetchCheck
     | GitFailed \<Rightarrow> Inl errFetchCheck
     | GitOut out \<Rightarrow>
         (case head_and_tips (sc_headTips scope) (ref_lines out) [] {} of (head, tips) \<Rightarrow>
            if head = [] then Inr ([], False)
            else if \<not> sc_headTips scope then Inr (head, True)
            else Inr (head, head \<in> tips)))"

definition for_each_ref_args :: "fetchScope \<Rightarrow> bytes list" where
  "for_each_ref_args scope = in_dir ([''for-each-ref'', ''--format=%(objectname) %(refname)''] @ sc_patterns scope)"

definition cat_file_args :: "bytes list" where
  "cat_file_args = in_dir [''cat-file'', ''--batch-check=%(objecttype)'']"

definition rev_list_args :: "fetchScope \<Rightarrow> bytes list" where
  "rev_list_args scope = in_dir ([''rev-list'', ''--max-count=1'', ''--stdin'', ''--not''] @ sc_reaching scope)"

definition git_run :: "git \<Rightarrow> bytes list \<Rightarrow> bytes \<Rightarrow> gate_fail + bytes" where
  "git_run git args stdin = (case git args stdin of GitOut out \<Rightarrow> Inr out | _ \<Rightarrow> Inl errFetchCheck)"

definition lines_of :: "bytes list \<Rightarrow> bytes" where
  "lines_of xs = concat (map (\<lambda>x. x @ LF) xs)"

fun other_wants :: "bytes set \<Rightarrow> bytes list \<Rightarrow> bytes set \<Rightarrow> bytes list" where
  "other_wants tips [] seen = []"
| "other_wants tips (oid # oids) seen =
     (if oid \<notin> tips \<and> oid \<notin> seen then [oid] else []) @ other_wants tips oids (insert oid seen)"

text \<open>\<open>strings.Join\<close> with a newline between and one after is one line each; the list is never empty here.\<close>

definition check_others :: "git \<Rightarrow> fetchScope \<Rightarrow> bytes list \<Rightarrow> gate_fail + unit" where
  "check_others git scope others =
     bindE (git_run git cat_file_args (lines_of others)) (\<lambda>kinds.
       let types = split_on (CHR 0x0A) (trim_suffix LF kinds) in
       if length types \<noteq> length others then Inl errFetchCheck
       else case List.find (\<lambda>(oid, ty). ty \<noteq> ''commit'') (zip others types) of
         Some (oid, ty) \<Rightarrow> Inl (errNotOurRef oid)
       | None \<Rightarrow>
          bindE (git_run git (rev_list_args scope) (lines_of others)) (\<lambda>unreached.
            let found = TrimSpace unreached in
            if found = [] then Inr ()
            else Inl (errNotOurRef (if found \<in> set others then found else hd others))))"

definition checkWants :: "git \<Rightarrow> fetchScope \<Rightarrow> bytes list \<Rightarrow> gate_fail + unit" where
  "checkWants git scope wants =
     (if wants = [] then Inr ()
      else bindE (git_run git (for_each_ref_args scope) []) (\<lambda>refs.
        let tips = set (map fst (filter (\<lambda>(oid, name). sc_hidden scope = [] \<or> \<not> prefix (sc_hidden scope) name) (ref_lines refs))) in
        bindE (scopeHead git scope) (\<lambda>(head, headAdvertised).
          let tips' = (if headAdvertised then insert head tips else tips);
              others = other_wants tips' wants {} in
          if others = [] then Inr () else check_others git scope others)))"

definition answerNotOurRef :: "bytes \<Rightarrow> bytes" where
  "answerNotOurRef oid = (let message = ''ERR upload-pack: not our ref '' @ oid in hex4 (length message + 4) @ message)"

end
