(* ===== verification/FetchServe.thy ===== *)
theory FetchServe
  imports FetchGate
begin

text \<open>
  What a fetch address serves: with Git's answers as documented, \<open>checkWants\<close> accepts exactly
  the requests whose every want the address advertises or reaches, and together with the gate
  nothing else reaches Git. A Git command may also fail; then the check reports that it cannot tell.
\<close>

subsection \<open>Lines\<close>

lemma lines_of_simps [simp]: "lines_of [] = []" "lines_of (x # xs) = x @ LF @ lines_of xs"
  by (simp_all add: lines_of_def)

lemma split_lines_of:
  assumes "\<forall>x \<in> set xs. CHR 0x0A \<notin> set x"
  shows "split_on (CHR 0x0A) (lines_of xs) = xs @ [[]]"
  using assms by (induction xs) (auto simp: split_on_append LF_def)

lemma trim_lines_of:
  assumes "xs \<noteq> []" and "\<forall>x \<in> set xs. CHR 0x0A \<notin> set x"
  shows "split_on (CHR 0x0A) (trim_suffix LF (lines_of xs)) = xs"
  using assms
proof (induction xs rule: rev_nonempty_induct)
  case (single x)
  have "trim_suffix LF (x @ LF) = x" by (simp add: trim_suffix_def cut_suffix_def suffix_def)
  then show ?case using single by (simp add: split_on_no_sep)
next
  case (snoc x xs)
  have "lines_of (xs @ [x]) = (lines_of xs @ x) @ LF" by (simp add: lines_of_def)
  then have "trim_suffix LF (lines_of (xs @ [x])) = lines_of xs @ x"
    by (simp add: trim_suffix_def cut_suffix_def suffix_def)
  moreover have "split_on (CHR 0x0A) (lines_of ys @ x) = ys @ [x]" if "\<forall>y \<in> set ys. CHR 0x0A \<notin> set y" for ys
    using that snoc.prems by (induction ys) (auto simp: split_on_append split_on_no_sep LF_def)
  ultimately show ?case using snoc.prems by simp
qed

text \<open>An object ID with its newline is trimmed to the object ID.\<close>

lemma strip_front_id: "\<not> (\<exists>w \<in> set ws. w \<noteq> [] \<and> prefix w s) \<Longrightarrow> strip_front ws s = s"
proof -
  assume "\<not> (\<exists>w \<in> set ws. w \<noteq> [] \<and> prefix w s)"
  then have "List.find (\<lambda>w. w \<noteq> [] \<and> prefix w s) ws = None" by (auto simp: find_None_iff)
  then show ?thesis by (subst strip_front.simps) (simp only: option.case)
qed

lemma hex_not_space:
  assumes "is_hex_lower c" and "w \<in> set space_runes"
  shows "hd w \<noteq> c" "last w \<noteq> c"
proof -
  have "list_all (\<lambda>w. \<not> is_hex_lower (hd w) \<and> \<not> is_hex_lower (last w)) space_runes" by code_simp
  then show "hd w \<noteq> c" "last w \<noteq> c" using assms by (auto simp: list_all_iff)
qed

lemma TrimSpace_oid:
  assumes "list_all is_hex_lower x" and "x \<noteq> []"
  shows "TrimSpace (x @ LF) = x"
proof -
  have front: "strip_front space_runes (x @ LF) = x @ LF"
  proof (rule strip_front_id, rule notI, elim bexE conjE)
    fix w assume w: "w \<in> set space_runes" "w \<noteq> []" "prefix w (x @ LF)"
    obtain t where "x @ LF = w @ t" using w(3) by (auto simp: prefix_def)
    then have "hd w = hd x" using w(2) assms(2) by (metis hd_append2)
    moreover have "is_hex_lower (hd x)" using assms by (cases x) auto
    ultimately show False using hex_not_space(1) w(1) by blast
  qed
  have rear: "strip_front (map rev space_runes) (rev x) = rev x"
  proof (rule strip_front_id, rule notI, elim bexE conjE)
    fix w assume w: "w \<in> set (map rev space_runes)" "w \<noteq> []" "prefix w (rev x)"
    then obtain v where v: "v \<in> set space_runes" "w = rev v" by auto
    obtain t where "rev x = w @ t" using w(3) by (auto simp: prefix_def)
    then have "hd w = hd (rev x)" using w(2) by simp
    then have "last v = last x" using v(2) assms(2) w(2) by (simp add: hd_rev)
    moreover have "is_hex_lower (last x)" using assms by (simp add: list_all_iff)
    ultimately show False using hex_not_space(2) v(1) by blast
  qed
  have "List.find (\<lambda>w. w \<noteq> [] \<and> prefix w (CHR 0x0A # rev x)) (map rev space_runes) = Some [CHR 0x0A]"
    by (simp add: space_runes_def)
  then have "strip_front (map rev space_runes) (rev (x @ LF)) = rev x"
    using rear by (subst strip_front.simps) (simp add: LF_def)
  then show ?thesis using front by (simp add: TrimSpace_def)
qed

lemma TrimSpace_empty: "TrimSpace [] = []"
proof -
  have "strip_front ws [] = []" for ws by (rule strip_front_id) auto
  then show ?thesis by (simp add: TrimSpace_def)
qed


subsection \<open>Git as documented\<close>

text \<open>
  A sound repository as Git answers for it: its references in order, what HEAD resolves to, the object that
  an annotated tag peels to, the type of each object, the object that a name given to Git stands for (a full
  object ID stands for its object), and the parents of each commit.
\<close>

record repo =
  rp_refs :: "(bytes \<times> bytes) list"
  rp_head :: "bytes option"
  rp_peel :: "bytes \<Rightarrow> bytes option"
  rp_type :: "bytes \<Rightarrow> bytes option"
  rp_resolve :: "bytes \<Rightarrow> bytes option"
  rp_parents :: "bytes \<Rightarrow> bytes list"

definition in_patterns :: "bytes list \<Rightarrow> bytes \<Rightarrow> bool" where
  "in_patterns patterns name \<longleftrightarrow> patterns = [] \<or> (\<exists>p \<in> set patterns. prefix p name)"

definition ref_line :: "bytes \<times> bytes \<Rightarrow> bytes" where
  "ref_line r = fst r @ '' '' @ snd r"

text \<open>With \<open>--dereference\<close> the line of an annotated tag is followed by the line of what it peels to.\<close>

definition with_peeled :: "repo \<Rightarrow> bytes \<times> bytes \<Rightarrow> (bytes \<times> bytes) list" where
  "with_peeled R r = r # (case rp_peel R (fst r) of None \<Rightarrow> [] | Some p \<Rightarrow> [(p, snd r @ ''^{}'')])"

definition shown_refs :: "fetchScope \<Rightarrow> repo \<Rightarrow> (bytes \<times> bytes) list" where
  "shown_refs scope R = (if sc_headTips scope
     then concat (map (with_peeled R) (filter (\<lambda>r. in_patterns [''refs/heads/'', ''refs/tags/''] (snd r)) (rp_refs R)))
     else rp_refs R)"

definition shown_lines :: "fetchScope \<Rightarrow> repo \<Rightarrow> (bytes \<times> bytes) list" where
  "shown_lines scope R = (case rp_head R of None \<Rightarrow> [] | Some h \<Rightarrow> [(h, ''HEAD'')]) @ shown_refs scope R"

text \<open>The object ID that a want may be: lower case, of one of the two lengths.\<close>

definition full_id :: "bytes \<Rightarrow> bool" where
  "full_id x \<longleftrightarrow> (length x = 40 \<or> length x = 64) \<and> list_all is_hex_lower x"

definition repo_ok :: "repo \<Rightarrow> bool" where
  "repo_ok R \<longleftrightarrow>
     (\<forall>(oid, name) \<in> set (rp_refs R). full_id oid \<and> CHR 0x0A \<notin> set name \<and> name \<noteq> ''HEAD'') \<and>
     (\<forall>h. rp_head R = Some h \<longrightarrow> full_id h \<and> rp_type R h = Some ''commit'') \<and>
     (\<forall>oid p. rp_peel R oid = Some p \<longrightarrow> full_id p \<and> rp_type R oid = Some ''tag'') \<and>
     (\<forall>oid t. rp_type R oid = Some t \<longrightarrow> full_id oid \<and> rp_resolve R oid = Some oid \<and> t \<in> {''commit'', ''tree'', ''blob'', ''tag''}) \<and>
     (\<forall>name oid. rp_resolve R name = Some oid \<longrightarrow> rp_type R oid \<noteq> None)"

text \<open>The type of what a name stands for, and the line of \<open>cat-file\<close> for it.\<close>

definition name_type :: "repo \<Rightarrow> bytes \<Rightarrow> bytes option" where
  "name_type R x = Option.bind (rp_resolve R x) (rp_type R)"

definition type_answer :: "repo \<Rightarrow> bytes \<Rightarrow> bytes \<Rightarrow> bool" where
  "type_answer R x l \<longleftrightarrow> (case name_type R x of Some t \<Rightarrow> l = t | None \<Rightarrow> l = x @ '' missing'' \<or> l = x @ '' ambiguous'')"

text \<open>
  What the arguments of \<open>rev-list\<close> select: \<open>--all\<close> means every reference and HEAD, here without kept
  history; \<open>--branches --tags\<close> the references of these two folders. A commit is reached from what a selected
  reference names, or peels to, along parents.
\<close>

definition selected :: "fetchScope \<Rightarrow> repo \<Rightarrow> bytes \<Rightarrow> bool" where
  "selected scope R oid \<longleftrightarrow>
     (\<exists>name. (oid, name) \<in> set (rp_refs R) \<and> in_patterns (sc_patterns scope) name \<and>
        (sc_hidden scope = [] \<or> \<not> prefix (sc_hidden scope) name)) \<or>
     \<not> sc_headTips scope \<and> rp_head R = Some oid"

definition parent :: "repo \<Rightarrow> (bytes \<times> bytes) set" where
  "parent R = {(c, p). p \<in> set (rp_parents R c)}"

definition reached :: "fetchScope \<Rightarrow> repo \<Rightarrow> bytes \<Rightarrow> bool" where
  "reached scope R c \<longleftrightarrow>
     (\<exists>oid. selected scope R oid \<and> ((case rp_peel R oid of None \<Rightarrow> oid | Some p \<Rightarrow> p), c) \<in> (parent R)\<^sup>*)"

definition name_reached :: "fetchScope \<Rightarrow> repo \<Rightarrow> bytes \<Rightarrow> bool" where
  "name_reached scope R x \<longleftrightarrow> (case rp_resolve R x of None \<Rightarrow> False | Some c \<Rightarrow> reached scope R c)"

text \<open>
  What each command prints when it succeeds. \<open>show-ref\<close> exits with 1 only when it has nothing to show.
  \<open>rev-list\<close>, given commits, prints nothing when the references reach all of them, and else a commit that
  they do not reach. Nothing is said of its answer to a name of another object or of none.
\<close>

definition git_answers :: "git \<Rightarrow> fetchScope \<Rightarrow> repo \<Rightarrow> bool" where
  "git_answers git scope R \<longleftrightarrow> repo_ok R \<and> (scope = mainScope \<or> scope = branchesAndTags) \<and>
     (\<forall>out. git (for_each_ref_args scope) [] = GitOut out \<longrightarrow>
        out = lines_of (map ref_line (filter (\<lambda>(oid, name). in_patterns (sc_patterns scope) name) (rp_refs R)))) \<and>
     (\<forall>out. git (show_ref_args scope) [] = GitOut out \<longrightarrow> out = lines_of (map ref_line (shown_lines scope R))) \<and>
     (git (show_ref_args scope) [] = GitExit 1 \<longrightarrow> shown_lines scope R = []) \<and>
     (\<forall>xs out. xs \<noteq> [] \<longrightarrow> list_all full_id xs \<longrightarrow> git cat_file_args (lines_of xs) = GitOut out \<longrightarrow>
        (\<exists>ls. out = lines_of ls \<and> list_all2 (type_answer R) xs ls)) \<and>
     (\<forall>xs out. xs \<noteq> [] \<longrightarrow> list_all (\<lambda>x. full_id x \<and> name_type R x = Some ''commit'') xs \<longrightarrow>
        git (rev_list_args scope) (lines_of xs) = GitOut out \<longrightarrow>
        (if list_all (name_reached scope R) xs then out = []
         else \<exists>c. full_id c \<and> \<not> reached scope R c \<and> out = c @ LF))"

text \<open>The commands run: they are not killed, and their output stays within its limit.\<close>

definition git_runs :: "git \<Rightarrow> fetchScope \<Rightarrow> repo \<Rightarrow> bool" where
  "git_runs git scope R \<longleftrightarrow> (\<exists>out. git (for_each_ref_args scope) [] = GitOut out) \<and>
     (git (show_ref_args scope) [] = GitExit 1 \<or> (\<exists>out. git (show_ref_args scope) [] = GitOut out)) \<and>
     (\<forall>xs. xs \<noteq> [] \<longrightarrow> list_all full_id xs \<longrightarrow> (\<exists>out. git cat_file_args (lines_of xs) = GitOut out)) \<and>
     (\<forall>xs. xs \<noteq> [] \<longrightarrow> list_all (\<lambda>x. full_id x \<and> name_type R x = Some ''commit'') xs \<longrightarrow>
        (\<exists>out. git (rev_list_args scope) (lines_of xs) = GitOut out))"

text \<open>What the address serves.\<close>

definition advertised_tip :: "fetchScope \<Rightarrow> repo \<Rightarrow> bytes \<Rightarrow> bool" where
  "advertised_tip scope R oid \<longleftrightarrow>
     (\<exists>name. (oid, name) \<in> set (rp_refs R) \<and> in_patterns (sc_patterns scope) name \<and>
        (sc_hidden scope = [] \<or> \<not> prefix (sc_hidden scope) name))"

definition served_head :: "fetchScope \<Rightarrow> repo \<Rightarrow> bytes \<Rightarrow> bool" where
  "served_head scope R oid \<longleftrightarrow> rp_head R = Some oid \<and>
     (sc_headTips scope \<longrightarrow> (\<exists>name. (oid, name) \<in> set (shown_refs scope R)))"

definition served :: "fetchScope \<Rightarrow> repo \<Rightarrow> bytes \<Rightarrow> bool" where
  "served scope R oid \<longleftrightarrow> advertised_tip scope R oid \<or> served_head scope R oid \<or>
     (name_type R oid = Some ''commit'' \<and> name_reached scope R oid)"

lemma hex_line_safe:
  assumes "list_all is_hex_lower x"
  shows "CHR '' '' \<notin> set x" "CHR 0x0A \<notin> set x"
  using assms by (auto simp: list_all_iff char_defs byte_def)

lemma full_id_safe: "full_id x \<Longrightarrow> x \<noteq> []" "full_id x \<Longrightarrow> CHR '' '' \<notin> set x" "full_id x \<Longrightarrow> CHR 0x0A \<notin> set x"
  using hex_line_safe by (auto simp: full_id_def)

definition line_safe :: "bytes \<times> bytes \<Rightarrow> bool" where
  "line_safe r \<longleftrightarrow> CHR '' '' \<notin> set (fst r) \<and> CHR 0x0A \<notin> set (fst r) \<and> CHR 0x0A \<notin> set (snd r)"

lemma peeled_name: "name @ ''^{}'' \<noteq> ''HEAD''"
  by (cases name rule: rev_cases) (auto simp: append_eq_Cons_conv)

lemma repo_line_safe:
  assumes "repo_ok R"
  shows "r \<in> set (rp_refs R) \<Longrightarrow> line_safe r \<and> snd r \<noteq> ''HEAD''"
    "r \<in> set (shown_refs scope R) \<Longrightarrow> line_safe r \<and> snd r \<noteq> ''HEAD''"
    "r \<in> set (shown_lines scope R) \<Longrightarrow> line_safe r"
proof -
  show ref: "line_safe r \<and> snd r \<noteq> ''HEAD''" if "r \<in> set (rp_refs R)" for r
  proof -
    obtain oid name where r: "r = (oid, name)" by (cases r)
    then have "full_id oid" "CHR 0x0A \<notin> set name" "name \<noteq> ''HEAD''" using that assms unfolding repo_ok_def by blast+
    then show ?thesis using full_id_safe r by (simp add: line_safe_def)
  qed
  have peeled: "line_safe x \<and> snd x \<noteq> ''HEAD''" if rx: "r \<in> set (rp_refs R)" "x \<in> set (with_peeled R r)" for r x
  proof (cases "x = r")
    case True
    then show ?thesis using ref rx(1) by blast
  next
    case False
    then obtain p where p: "rp_peel R (fst r) = Some p" "x = (p, snd r @ ''^{}'')"
      using rx(2) by (cases "rp_peel R (fst r)") (simp_all add: with_peeled_def)
    have "full_id p" using assms p(1) by (auto simp: repo_ok_def)
    then show ?thesis using full_id_safe ref [OF rx(1)] p(2) peeled_name by (simp add: line_safe_def)
  qed
  show shown: "line_safe r \<and> snd r \<noteq> ''HEAD''" if "r \<in> set (shown_refs scope R)" for r
  proof -
    have "r \<in> set (rp_refs R) \<or> (\<exists>x \<in> set (rp_refs R). r \<in> set (with_peeled R x))"
      using that unfolding shown_refs_def by (simp split: if_splits) blast
    then show ?thesis using ref peeled by blast
  qed
  show "line_safe r" if rl: "r \<in> set (shown_lines scope R)"
  proof (cases "r \<in> set (shown_refs scope R)")
    case False
    then obtain h where "rp_head R = Some h" "r = (h, ''HEAD'')" using rl by (cases "rp_head R") (simp_all add: shown_lines_def)
    then show ?thesis using assms full_id_safe by (simp add: line_safe_def repo_ok_def)
  qed (use shown in blast)
qed

lemma ref_lines_of:
  assumes "\<forall>r \<in> set rs. line_safe r"
  shows "ref_lines (lines_of (map ref_line rs)) = rs"
proof -
  have "\<forall>x \<in> set (map ref_line rs). CHR 0x0A \<notin> set x"
    using assms by (auto simp: ref_line_def line_safe_def)
  note split_lines_of [OF this]
  moreover have "concat (map (\<lambda>line. case cut (CHR '' '') line of (oid, name, ok) \<Rightarrow> if ok then [(oid, name)] else [])
      (map ref_line rs)) = rs"
    using assms by (induction rs) (auto simp: ref_line_def line_safe_def cut_found [of "CHR '' ''", simplified])
  moreover have "cut (CHR '' '') [] = ([], [], False)" by (rule cut_not_found) simp
  ultimately show ?thesis by (simp add: ref_lines_def)
qed

lemma head_and_tips_spec:
  assumes "\<forall>(oid, name) \<in> set ls. name \<noteq> ''HEAD''"
  shows "head_and_tips ht ls head tips = (head, tips \<union> (if ht then fst ` set ls else {}))"
  using assms by (induction ht ls head tips rule: head_and_tips.induct) auto

text \<open>What \<open>scopeHead\<close> says when it does not fail: the served HEAD, if there is one.\<close>

definition head_said :: "fetchScope \<Rightarrow> repo \<Rightarrow> bytes \<times> bool \<Rightarrow> bool" where
  "head_said scope R x \<longleftrightarrow> (case x of (h, adv) \<Rightarrow>
     (adv \<longrightarrow> served_head scope R h) \<and> (\<forall>oid. served_head scope R oid \<longrightarrow> adv \<and> h = oid))"

lemma scopeHead_spec:
  assumes "git_answers git scope R"
  shows "case scopeHead git scope of Inl e \<Rightarrow> e = errFetchCheck \<and> \<not> git_runs git scope R | Inr x \<Rightarrow> head_said scope R x"
proof -
  have ok: "repo_ok R" using assms by (simp add: git_answers_def)
  let ?rs = "shown_refs scope R"
  have names: "\<forall>(oid, name) \<in> set ?rs. name \<noteq> ''HEAD''"
    using repo_line_safe(2) [OF ok] by fastforce
  have exit: "shown_lines scope R = []" if "git (show_ref_args scope) [] = GitExit 1"
    using assms that by (simp add: git_answers_def)
  have out: "o' = lines_of (map ref_line (shown_lines scope R))" if "git (show_ref_args scope) [] = GitOut o'" for o'
    using assms that by (simp add: git_answers_def)
  show ?thesis
  proof (cases "git (show_ref_args scope) []")
    case (GitExit code)
    show ?thesis
    proof (cases "code = 1")
      case True
      then have "rp_head R = None" using exit GitExit by (simp add: shown_lines_def split: option.splits)
      then show ?thesis using GitExit True by (simp add: scopeHead_def head_said_def served_head_def)
    qed (simp add: scopeHead_def GitExit git_runs_def)
  next
    case (GitOut o')
    have rl: "ref_lines o' = shown_lines scope R"
      unfolding out [OF GitOut] by (rule ref_lines_of) (use repo_line_safe(3) [OF ok] in blast)
    show ?thesis
    proof (cases "rp_head R")
      case None
      then show ?thesis
        using GitOut rl head_and_tips_spec [OF names] by (simp add: scopeHead_def shown_lines_def head_said_def served_head_def)
    next
      case (Some h)
      then have "h \<noteq> []" using ok full_id_safe by (simp add: repo_ok_def)
      moreover have "h \<in> fst ` set ?rs \<longleftrightarrow> (\<exists>name. (h, name) \<in> set ?rs)" by force
      ultimately show ?thesis
        using GitOut rl Some head_and_tips_spec [OF names]
        by (auto simp: scopeHead_def shown_lines_def head_said_def served_head_def)
    qed
  qed (simp add: scopeHead_def git_runs_def)
qed

lemma other_wants_spec: "set (other_wants tips wants seen) = {w \<in> set wants. w \<notin> tips \<and> w \<notin> seen}"
  by (induction wants arbitrary: seen) auto

lemma name_type_values: "repo_ok R \<Longrightarrow> name_type R x = Some t \<Longrightarrow> t \<in> {''commit'', ''tree'', ''blob'', ''tag''}"
  by (auto simp: name_type_def repo_ok_def bind_eq_Some_conv)

lemma type_answer_safe:
  assumes "repo_ok R" and "full_id x" and "type_answer R x l"
  shows "CHR 0x0A \<notin> set l" "l = ''commit'' \<longleftrightarrow> name_type R x = Some ''commit''"
proof -
  show "CHR 0x0A \<notin> set l"
    using name_type_values [OF assms(1), of x] full_id_safe(3) [OF assms(2)] assms(3)
    by (cases "name_type R x") (auto simp: type_answer_def)
  have "CHR '' '' \<in> set (x @ '' missing'')" "CHR '' '' \<in> set (x @ '' ambiguous'')" "CHR '' '' \<notin> set ''commit''" by simp_all
  then have "x @ '' missing'' \<noteq> ''commit''" "x @ '' ambiguous'' \<noteq> ''commit''" by metis+
  then show "l = ''commit'' \<longleftrightarrow> name_type R x = Some ''commit''"
    using assms(3) by (cases "name_type R x") (auto simp: type_answer_def)
qed

lemma find_zip_None:
  "length ys = length xs \<Longrightarrow> List.find (\<lambda>(x, y). P y) (zip xs ys) = None \<longleftrightarrow> (\<forall>y \<in> set ys. \<not> P y)"
  by (induction xs ys rule: list_induct2') auto

lemma find_zip_Some: "List.find P (zip xs ys) = Some (x, y) \<Longrightarrow> x \<in> set xs"
  unfolding find_Some_iff by (metis nth_mem set_zip_leftD)

text \<open>What may be answered to a list of wants, \<open>good\<close> when all of them are served.\<close>

definition answer_ok :: "bool \<Rightarrow> bool \<Rightarrow> bytes list \<Rightarrow> gate_fail + unit \<Rightarrow> bool" where
  "answer_ok runs good wants r \<longleftrightarrow>
     (case r of Inr _ \<Rightarrow> good | Inl e \<Rightarrow> e = errFetchCheck \<and> \<not> runs \<or> \<not> good \<and> (\<exists>x \<in> set wants. e = errNotOurRef x))"

lemma check_others_spec:
  assumes "git_answers git scope R" and "others \<noteq> []" and "list_all full_id others"
  shows "answer_ok (git_runs git scope R)
    (\<forall>w \<in> set others. name_type R w = Some ''commit'' \<and> name_reached scope R w) others (check_others git scope others)"
    (is "answer_ok ?runs ?good others ?r")
proof -
  have ok: "repo_ok R" using assms(1) by (simp add: git_answers_def)
  have id': "full_id w" if "w \<in> set others" for w using that assms(3) by (simp add: list_all_iff)
  have failed: "answer_ok ?runs ?good others (Inl errFetchCheck)" if "\<not> ?runs" using that by (simp add: answer_ok_def)
  show ?thesis
  proof (cases "git cat_file_args (lines_of others)")
    case (GitOut out)
    obtain ls where ls: "out = lines_of ls" "list_all2 (type_answer R) others ls"
      using assms GitOut unfolding git_answers_def by blast
    have len: "length ls = length others" using ls(2) by (simp add: list_all2_lengthD)
    have each: "type_answer R (others ! i) (ls ! i)" "others ! i \<in> set others" if "i < length others" for i
      using ls(2) that by (simp_all add: list_all2_nthD)
    have "CHR 0x0A \<notin> set l" if "l \<in> set ls" for l
    proof -
      obtain i where "i < length others" "l = ls ! i" using \<open>l \<in> set ls\<close> len by (auto simp: in_set_conv_nth)
      then show ?thesis using type_answer_safe(1) [OF ok id' each(1)] each(2) by blast
    qed
    then have lines: "split_on (CHR 0x0A) (trim_suffix LF out) = ls"
      unfolding ls(1) using assms(2) len by (intro trim_lines_of) auto
    have commit: "ls ! i = ''commit'' \<longleftrightarrow> name_type R (others ! i) = Some ''commit''" if "i < length others" for i
      using type_answer_safe(2) [OF ok id' [OF each(2)] each(1)] that by blast
    have types: "(\<forall>l \<in> set ls. \<not> l \<noteq> ''commit'') \<longleftrightarrow> (\<forall>w \<in> set others. name_type R w = Some ''commit'')"
      unfolding all_set_conv_all_nth len using commit by simp
    show ?thesis
    proof (cases "List.find (\<lambda>(oid, ty). ty \<noteq> ''commit'') (zip others ls)")
      case (Some p)
      obtain x ty where p: "p = (x, ty)" by (cases p)
      have "?r = Inl (errNotOurRef x)" using Some p GitOut lines len by (simp add: check_others_def git_run_def)
      moreover have "x \<in> set others" using find_zip_Some Some p by fast
      moreover have "\<not> ?good" using find_zip_None [OF len, of "\<lambda>t. t \<noteq> ''commit''"] Some types by auto
      ultimately show ?thesis by (auto simp: answer_ok_def)
    next
      case None
      then have c: "\<forall>w \<in> set others. name_type R w = Some ''commit''"
        using find_zip_None [OF len, of "\<lambda>t. t \<noteq> ''commit''"] types by simp
      then have commits: "list_all (\<lambda>x. full_id x \<and> name_type R x = Some ''commit'') others" using id' by (simp add: list_all_iff)
      have r: "?r = bindE (git_run git (rev_list_args scope) (lines_of others)) (\<lambda>unreached.
              let found = TrimSpace unreached in
              if found = [] then Inr ()
              else Inl (errNotOurRef (if found \<in> set others then found else hd others)))"
        using None GitOut lines len by (simp add: check_others_def git_run_def)
      show ?thesis
      proof (cases "git (rev_list_args scope) (lines_of others)")
        case (GitOut unreached)
        have u: "if list_all (name_reached scope R) others then unreached = []
            else \<exists>c. full_id c \<and> \<not> reached scope R c \<and> unreached = c @ LF"
          using assms(1,2) commits GitOut unfolding git_answers_def by blast
        show ?thesis
        proof (cases "list_all (name_reached scope R) others")
          case True
          then show ?thesis using u r c GitOut by (simp add: git_run_def TrimSpace_empty answer_ok_def list_all_iff)
        next
          case False
          then obtain x where x: "full_id x" "unreached = x @ LF" using u by auto
          then have "TrimSpace unreached = x" "x \<noteq> []" using TrimSpace_oid full_id_safe(1) by (simp_all add: full_id_def)
          then have "?r = Inl (errNotOurRef (if x \<in> set others then x else hd others))"
            using r GitOut by (simp add: git_run_def)
          moreover have "(if x \<in> set others then x else hd others) \<in> set others" using assms(2) by simp
          moreover have "\<not> ?good" using False by (auto simp: list_all_iff)
          ultimately show ?thesis by (auto simp: answer_ok_def)
        qed
      next
        case (GitExit code)
        then have "\<not> ?runs" using commits assms(2) by (auto simp: git_runs_def)
        then show ?thesis using r GitExit failed by (simp add: git_run_def)
      next
        case GitFailed
        then have "\<not> ?runs" using commits assms(2) by (auto simp: git_runs_def)
        then show ?thesis using r GitFailed failed by (simp add: git_run_def)
      qed
    qed
  next
    case (GitExit code)
    then have "\<not> ?runs" using assms(2,3) by (auto simp: git_runs_def)
    then show ?thesis using GitExit failed by (simp add: check_others_def git_run_def)
  next
    case GitFailed
    then have "\<not> ?runs" using assms(2,3) by (auto simp: git_runs_def)
    then show ?thesis using GitFailed failed by (simp add: check_others_def git_run_def)
  qed
qed

lemma checkWants_spec:
  assumes "git_answers git scope R" and "list_all full_id wants"
  shows "answer_ok (git_runs git scope R) (\<forall>w \<in> set wants. served scope R w) wants (checkWants git scope wants)"
    (is "answer_ok ?runs ?good wants ?r")
proof (cases "wants = []")
  case True
  then show ?thesis by (simp add: checkWants_def answer_ok_def)
next
  case False
  let ?in = "filter (\<lambda>(oid, name). in_patterns (sc_patterns scope) name) (rp_refs R)"
  have ok: "repo_ok R" using assms(1) by (simp add: git_answers_def)
  have failed: "answer_ok ?runs ?good wants (Inl errFetchCheck)" if "\<not> ?runs" using that by (simp add: answer_ok_def)
  show ?thesis
  proof (cases "git (for_each_ref_args scope) []")
    case (GitOut out)
    then have out: "out = lines_of (map ref_line ?in)" using assms(1) by (simp add: git_answers_def)
    have rl: "ref_lines out = ?in"
      unfolding out by (rule ref_lines_of) (use repo_line_safe(1) [OF ok] in auto)
    define tips where "tips = set (map fst (filter (\<lambda>(oid, name). sc_hidden scope = [] \<or> \<not> prefix (sc_hidden scope) name) ?in))"
    have tip: "w \<in> tips \<longleftrightarrow> advertised_tip scope R w" for w
      by (auto simp: tips_def advertised_tip_def) force+
    show ?thesis
    proof (cases "scopeHead git scope")
      case (Inl e)
      then have "e = errFetchCheck" "\<not> ?runs" using scopeHead_spec [OF assms(1)] by simp_all
      then show ?thesis using Inl GitOut False failed by (simp add: checkWants_def git_run_def)
    next
      case (Inr x)
      obtain h adv where x: "x = (h, adv)" by (cases x)
      have h: "adv \<longrightarrow> served_head scope R h" "\<And>oid. served_head scope R oid \<Longrightarrow> adv \<and> h = oid"
        using scopeHead_spec [OF assms(1)] Inr x by (simp_all add: head_said_def)
      define tips' where "tips' = (if adv then insert h tips else tips)"
      have "w \<in> tips' \<longleftrightarrow> advertised_tip scope R w \<or> served_head scope R w" for w
        using h tip by (auto simp: tips'_def)
      moreover define others where "others = other_wants tips' wants {}"
      ultimately have oth: "set others = {w \<in> set wants. \<not> (advertised_tip scope R w \<or> served_head scope R w)}"
        by (simp add: other_wants_spec)
      have cw: "?r = (if others = [] then Inr () else check_others git scope others)"
        using False GitOut rl Inr x by (simp add: checkWants_def git_run_def tips_def tips'_def others_def Let_def)
      have sv: "?good \<longleftrightarrow> (\<forall>w \<in> set others. name_type R w = Some ''commit'' \<and> name_reached scope R w)"
        using oth by (auto simp: served_def)
      show ?thesis
      proof (cases "others = []")
        case True
        then show ?thesis using cw sv by (simp add: answer_ok_def)
      next
        case ne: False
        have "list_all full_id others" using oth assms(2) by (auto simp: list_all_iff)
        from check_others_spec [OF assms(1) ne this] show ?thesis
          unfolding sv using cw ne oth by (auto simp: answer_ok_def split: sum.splits)
      qed
    qed
  next
    case (GitExit code)
    then have "\<not> ?runs" by (simp add: git_runs_def)
    then show ?thesis using GitExit False failed by (simp add: checkWants_def git_run_def)
  next
    case GitFailed
    then have "\<not> ?runs" by (simp add: git_runs_def)
    then show ?thesis using GitFailed False failed by (simp add: checkWants_def git_run_def)
  qed
qed

subsection \<open>What a fetch address serves\<close>

text \<open>C22. With what Git answers as documented, \<open>checkWants\<close> accepts a request only when every want is the
  tip of a reference the address advertises, its advertised HEAD, or a commit the advertised references reach;
  it answers \<open>not our ref\<close>, for one of the wants, only when some want is none of these; and it fails with
  \<open>errFetchCheck\<close> only when a Git command did not run, so that with commands that run it accepts exactly the
  requests that the address serves.\<close>

theorem checkWants_exact:
  assumes "git_answers git scope R" and "list_all full_id wants"
  shows "case checkWants git scope wants of
      Inr _ \<Rightarrow> \<forall>w \<in> set wants. served scope R w
    | Inl (errNotOurRef x) \<Rightarrow> x \<in> set wants \<and> (\<exists>w \<in> set wants. \<not> served scope R w)
    | Inl e \<Rightarrow> e = errFetchCheck \<and> \<not> git_runs git scope R"
  using checkWants_spec [OF assms] by (auto simp: answer_ok_def split: sum.splits gate_fail.splits)

definition want_check :: "git \<Rightarrow> fetchScope \<Rightarrow> bytes list \<Rightarrow> gate_fail option" where
  "want_check git scope wants = (case checkWants git scope wants of Inl e \<Rightarrow> Some e | Inr _ \<Rightarrow> None)"

lemma validObjectID_full:
  assumes "validObjectID x" shows "full_id (ascii_lower x)"
proof -
  have "list_all (\<lambda>c. is_digit c \<or> (97 \<le> byte c \<and> byte c \<le> 102) \<or> (65 \<le> byte c \<and> byte c \<le> 70)) x"
    using assms by (auto simp: validObjectID_def split: if_splits)
  then have "list_all is_hex_lower (ascii_lower x)" unfolding ascii_lower_def list_all_iff using lower_hex by auto
  then show ?thesis using assms by (auto simp: full_id_def validObjectID_def ascii_lower_def split: if_splits)
qed

lemma reads_request_full:
  assumes "reads_request v2 body wants" shows "list_all full_id wants"
proof -
  obtain items where i: "list_all (\<lambda>it. \<not> item_refused it) items" "wants = concat (map item_wants items)"
    using assms by (auto simp: reads_request_def)
  have "list_all full_id (item_wants it)" if "\<not> item_refused it" for it
  proof (cases "item_line it")
    case (Some line)
    show ?thesis
    proof (cases "cut_prefix ''want '' line")
      case (Some rest)
      then show ?thesis
        using that \<open>item_line it = Some line\<close> validObjectID_full
        by (simp add: item_refused_def item_wants_def want_of_line_def)
    qed (use Some in \<open>simp add: item_wants_def want_of_line_def\<close>)
  qed (simp add: item_wants_def)
  then show ?thesis using i by (auto simp: list_all_iff)
qed

text \<open>C14. Nothing but what the address serves is asked of Git: if a fetch request, read through
  the gate with the check of an address, gives Git any byte, then every object its want lines
  name is one the address advertises or reaches, and Git gets the request unchanged.\<close>

theorem fetch_serves_only_reachable:
  assumes "git_answers git scope R" and "gate_drain (want_check git scope) ns (new_gate v2 src) = (gate, out, err)"
    and "out \<noteq> []"
  shows "prefix out (src_data src) \<and>
    (\<exists>wants. reads_request v2 (src_data src) wants \<and> (\<forall>w \<in> set wants. served scope R w))"
proof -
  obtain wants where p: "prefix out (src_data src)" and r: "reads_request v2 (src_data src) wants"
    and c: "want_check git scope wants = None"
    using gate_mediates [OF assms(2,3)] by blast
  have "checkWants git scope wants = Inr ()"
    using c by (auto simp: want_check_def split: sum.splits)
  then have "\<forall>w \<in> set wants. served scope R w"
    using checkWants_spec [OF assms(1) reads_request_full [OF r]] by (simp add: answer_ok_def)
  then show ?thesis using p r by blast
qed

subsection \<open>A Git for every sound repository\<close>

text \<open>The answers for any repository, as the commands give them; a name that is no commit makes \<open>rev-list\<close> die.\<close>

definition type_text :: "repo \<Rightarrow> bytes \<Rightarrow> bytes" where
  "type_text R x = (case name_type R x of Some t \<Rightarrow> t | None \<Rightarrow> x @ '' missing'')"

definition model_git :: "fetchScope \<Rightarrow> repo \<Rightarrow> git" where
  "model_git scope R args stdin =
     (let xs = split_on (CHR 0x0A) (trim_suffix LF stdin) in
      if args = for_each_ref_args scope
      then GitOut (lines_of (map ref_line (filter (\<lambda>(oid, name). in_patterns (sc_patterns scope) name) (rp_refs R))))
      else if args = show_ref_args scope
      then (if shown_lines scope R = [] then GitExit 1 else GitOut (lines_of (map ref_line (shown_lines scope R))))
      else if args = cat_file_args then GitOut (lines_of (map (type_text R) xs))
      else if list_ex (\<lambda>x. name_type R x \<noteq> Some ''commit'') xs then GitExit 128
      else case List.find (\<lambda>x. \<not> name_reached scope R x) xs of
        None \<Rightarrow> GitOut []
      | Some x \<Rightarrow> GitOut (the (rp_resolve R x) @ LF))"

lemma args_differ:
  "show_ref_args scope \<noteq> for_each_ref_args scope" "cat_file_args \<noteq> for_each_ref_args scope"
  "cat_file_args \<noteq> show_ref_args scope" "rev_list_args scope \<noteq> for_each_ref_args scope"
  "rev_list_args scope \<noteq> show_ref_args scope" "rev_list_args scope \<noteq> cat_file_args"
  by (simp_all add: show_ref_args_def for_each_ref_args_def cat_file_args_def rev_list_args_def in_dir_def)

lemma model_git_rev_list:
  assumes "repo_ok R" and "xs \<noteq> []" and "list_all (\<lambda>x. full_id x \<and> name_type R x = Some ''commit'') xs"
  shows "if list_all (name_reached scope R) xs then model_git scope R (rev_list_args scope) (lines_of xs) = GitOut []
    else \<exists>c. full_id c \<and> \<not> reached scope R c \<and> model_git scope R (rev_list_args scope) (lines_of xs) = GitOut (c @ LF)"
proof -
  have "split_on (CHR 0x0A) (trim_suffix LF (lines_of xs)) = xs"
    using assms full_id_safe(3) by (intro trim_lines_of) (auto simp: list_all_iff)
  moreover have "\<not> list_ex (\<lambda>x. name_type R x \<noteq> Some ''commit'') xs" using assms(3) by (auto simp: list_all_iff list_ex_iff)
  ultimately have m: "model_git scope R (rev_list_args scope) (lines_of xs) =
      (case List.find (\<lambda>x. \<not> name_reached scope R x) xs of None \<Rightarrow> GitOut [] | Some x \<Rightarrow> GitOut (the (rp_resolve R x) @ LF))"
    by (simp add: model_git_def args_differ)
  show ?thesis
  proof (cases "List.find (\<lambda>x. \<not> name_reached scope R x) xs")
    case None
    then have "list_all (name_reached scope R) xs" by (simp add: find_None_iff list_all_iff)
    then show ?thesis using m None by simp
  next
    case (Some x)
    then have x: "x \<in> set xs" "\<not> name_reached scope R x" by (auto simp: find_Some_iff)
    then obtain c where c: "rp_resolve R x = Some c" "rp_type R c = Some ''commit''"
      using assms(3) by (auto simp: list_all_iff name_type_def bind_eq_Some_conv)
    then have "full_id c" "\<not> reached scope R c" using assms(1) x(2) by (auto simp: repo_ok_def name_reached_def)
    moreover have "\<not> list_all (name_reached scope R) xs" using x by (auto simp: list_all_iff)
    ultimately show ?thesis using m Some c(1) by auto
  qed
qed

lemma model_git_answers:
  assumes "repo_ok R" and "scope = mainScope \<or> scope = branchesAndTags"
  shows "git_answers (model_git scope R) scope R" "git_runs (model_git scope R) scope R"
proof -
  have cf: "model_git scope R cat_file_args (lines_of xs) = GitOut (lines_of (map (type_text R) xs))"
    if "xs \<noteq> []" "list_all full_id xs" for xs
  proof -
    have "split_on (CHR 0x0A) (trim_suffix LF (lines_of xs)) = xs"
      using that full_id_safe(3) by (intro trim_lines_of) (auto simp: list_all_iff)
    then show ?thesis by (simp add: model_git_def args_differ)
  qed
  have answer: "list_all2 (type_answer R) xs (map (type_text R) xs)" for xs
    by (induction xs) (auto simp: type_answer_def type_text_def split: option.splits)
  note rl = model_git_rev_list [OF assms(1)]
  show "git_answers (model_git scope R) scope R"
    unfolding git_answers_def
  proof (intro conjI allI impI)
    fix xs out assume xs: "xs \<noteq> []" "list_all full_id xs" "model_git scope R cat_file_args (lines_of xs) = GitOut out"
    then show "\<exists>ls. out = lines_of ls \<and> list_all2 (type_answer R) xs ls" using cf answer by auto
  next
    fix xs out assume "xs \<noteq> []" "list_all (\<lambda>x. full_id x \<and> name_type R x = Some ''commit'') xs"
      "model_git scope R (rev_list_args scope) (lines_of xs) = GitOut out"
    then show "if list_all (name_reached scope R) xs then out = [] else \<exists>c. full_id c \<and> \<not> reached scope R c \<and> out = c @ LF"
      using rl [of xs scope] by (auto split: if_splits)
  qed (use assms in \<open>auto simp: model_git_def args_differ split: if_splits\<close>)
  show "git_runs (model_git scope R) scope R"
    unfolding git_runs_def
  proof (intro conjI allI impI)
    fix xs assume "xs \<noteq> []" "list_all (\<lambda>x. full_id x \<and> name_type R x = Some ''commit'') xs"
    then show "\<exists>out. model_git scope R (rev_list_args scope) (lines_of xs) = GitOut out"
      using rl [of xs scope] by (auto split: if_splits)
  qed (use cf in \<open>auto simp: model_git_def args_differ\<close>)
qed

subsection \<open>A sample address\<close>

text \<open>
  A branch at a commit with one parent, kept history on top of the branch, and an annotated tag of the parent.
\<close>

definition old_oid :: bytes where "old_oid = replicate 40 (CHR ''c'')"
definition kept_oid :: bytes where "kept_oid = replicate 40 (CHR ''b'')"
definition tag_oid :: bytes where "tag_oid = replicate 40 (CHR ''d'')"
definition no_oid :: bytes where "no_oid = replicate 40 (CHR ''e'')"

definition sample_type :: "bytes \<Rightarrow> bytes option" where
  "sample_type = [sample_oid \<mapsto> ''commit'', old_oid \<mapsto> ''commit'', kept_oid \<mapsto> ''commit'', tag_oid \<mapsto> ''tag'']"

definition sample_repo :: "bytes \<Rightarrow> repo" where
  "sample_repo head = \<lparr>
     rp_refs = [(sample_oid, ''refs/heads/main''), (kept_oid, ''refs/owngit/kept/1''), (tag_oid, ''refs/tags/v1'')],
     rp_head = Some head, rp_peel = [tag_oid \<mapsto> old_oid], rp_type = sample_type,
     rp_resolve = (\<lambda>x. if sample_type x = None then None else Some x),
     rp_parents = (\<lambda>c. if c = sample_oid then [old_oid] else if c = kept_oid then [sample_oid] else [])\<rparr>"

lemma sample_oids:
  "distinct [sample_oid, old_oid, kept_oid, tag_oid, no_oid]"
  "full_id sample_oid" "full_id old_oid" "full_id kept_oid" "full_id tag_oid" "full_id no_oid"
  by code_simp+

lemma sample_repo_ok: "head \<in> {sample_oid, kept_oid} \<Longrightarrow> repo_ok (sample_repo head)"
  using sample_oids by (auto simp: repo_ok_def sample_repo_def sample_type_def split: if_splits)

text \<open>A share link shows neither kept history nor a HEAD that only kept history reaches.\<close>

lemma sample_share_reached:
  assumes "reached branchesAndTags (sample_repo head) c" shows "c \<in> {sample_oid, old_oid}"
proof -
  obtain oid where oid: "selected branchesAndTags (sample_repo head) oid"
    "((case rp_peel (sample_repo head) oid of None \<Rightarrow> oid | Some p \<Rightarrow> p), c) \<in> (parent (sample_repo head))\<^sup>*"
    using assms by (auto simp: reached_def)
  have "oid \<in> {sample_oid, tag_oid}"
    using oid(1) by (auto simp: selected_def sample_repo_def branchesAndTags_def in_patterns_def)
  then have start: "(case rp_peel (sample_repo head) oid of None \<Rightarrow> oid | Some p \<Rightarrow> p) \<in> {sample_oid, old_oid}"
    using sample_oids(1) by (auto simp: sample_repo_def)
  have step: "y \<in> {sample_oid, old_oid}" if "x \<in> {sample_oid, old_oid}" "(x, y) \<in> parent (sample_repo head)" for x y
    using that sample_oids(1) by (auto simp: parent_def sample_repo_def)
  show ?thesis using oid(2) start by (induction rule: rtrancl_induct) (use step in blast)+
qed

lemma sample_share_served:
  "served branchesAndTags (sample_repo kept_oid) sample_oid" "served branchesAndTags (sample_repo kept_oid) tag_oid"
  "served branchesAndTags (sample_repo kept_oid) old_oid"
  "\<not> served branchesAndTags (sample_repo kept_oid) kept_oid" "\<not> served branchesAndTags (sample_repo kept_oid) no_oid"
proof -
  let ?R = "sample_repo kept_oid"
  have refs: "(sample_oid, ''refs/heads/main'') \<in> set (rp_refs ?R)" "(tag_oid, ''refs/tags/v1'') \<in> set (rp_refs ?R)"
    by (simp_all add: sample_repo_def)
  have pats: "in_patterns (sc_patterns branchesAndTags) ''refs/heads/main''" "in_patterns (sc_patterns branchesAndTags) ''refs/tags/v1''"
    "sc_hidden branchesAndTags = []"
    by (simp_all add: branchesAndTags_def in_patterns_def)
  show "served branchesAndTags ?R sample_oid" "served branchesAndTags ?R tag_oid"
    unfolding served_def advertised_tip_def using refs pats by blast+
  have "selected branchesAndTags ?R sample_oid" unfolding selected_def using refs pats by blast
  moreover have "rp_peel ?R sample_oid = None" "(sample_oid, old_oid) \<in> parent ?R" using sample_oids(1) by (simp_all add: sample_repo_def parent_def)
  ultimately have "reached branchesAndTags ?R old_oid" unfolding reached_def by (intro exI [of _ sample_oid]) auto
  then show "served branchesAndTags ?R old_oid"
    using sample_oids(1) by (simp add: served_def name_reached_def name_type_def sample_repo_def sample_type_def)
  have tip: "\<not> advertised_tip branchesAndTags ?R kept_oid" "\<not> advertised_tip branchesAndTags ?R no_oid"
    using sample_oids(1) by (auto simp: advertised_tip_def sample_repo_def branchesAndTags_def in_patterns_def)
  have "shown_refs branchesAndTags ?R =
      [(sample_oid, ''refs/heads/main''), (tag_oid, ''refs/tags/v1''), (old_oid, ''refs/tags/v1^{}'')]"
    using sample_oids(1) by (simp add: shown_refs_def with_peeled_def sample_repo_def branchesAndTags_def in_patterns_def)
  moreover have "rp_head ?R = Some kept_oid" by (simp add: sample_repo_def)
  moreover have "kept_oid \<noteq> sample_oid" "kept_oid \<noteq> tag_oid" "kept_oid \<noteq> old_oid" using sample_oids(1) by auto
  moreover have "sc_headTips branchesAndTags" by (simp add: branchesAndTags_def)
  ultimately have head: "\<not> served_head branchesAndTags ?R x" for x
    by (auto simp: served_head_def)
  have "\<not> reached branchesAndTags ?R kept_oid" using sample_share_reached sample_oids(1) by fastforce
  then show "\<not> served branchesAndTags ?R kept_oid"
    using tip head by (auto simp: served_def name_reached_def sample_repo_def split: if_splits)
  show "\<not> served branchesAndTags ?R no_oid"
    using tip head sample_oids(1) by (auto simp: served_def name_type_def sample_repo_def sample_type_def)
qed

theorem checkWants_exact_witness:
  "let git = model_git branchesAndTags (sample_repo kept_oid) in
   checkWants git branchesAndTags [sample_oid, tag_oid, old_oid] = Inr () \<and>
   checkWants git branchesAndTags [kept_oid] = Inl (errNotOurRef kept_oid) \<and>
   checkWants git branchesAndTags [no_oid] = Inl (errNotOurRef no_oid)"
proof -
  let ?R = "sample_repo kept_oid" and ?git = "model_git branchesAndTags (sample_repo kept_oid)"
  have git: "git_answers ?git branchesAndTags ?R" "git_runs ?git branchesAndTags ?R"
    using model_git_answers [OF sample_repo_ok] by simp_all
  have ids: "list_all full_id [sample_oid, tag_oid, old_oid]" "list_all full_id [kept_oid]" "list_all full_id [no_oid]"
    using sample_oids by simp_all
  note exact = checkWants_exact [OF git(1) ids(1)] checkWants_exact [OF git(1) ids(2)] checkWants_exact [OF git(1) ids(3)]
  show ?thesis
    using exact git(2) sample_share_served unfolding Let_def by (auto split: sum.splits gate_fail.splits)
qed

end
