(* ===== verification/FetchInterop.thy ===== *)
theory FetchInterop
  imports FetchServe
begin

text \<open>
  An import of one server by another: the gate reads the requests that \<open>UploadRequest\<close> builds,
  in both protocol versions, and sees exactly the advertised objects.
\<close>

subsection \<open>The requests of an import\<close>

text \<open>The lines of a sequence of packets as the gate reads them.\<close>

fun line_fold :: "packet list \<Rightarrow> bytes list \<Rightarrow> bytes \<Rightarrow> nat \<Rightarrow> (bytes list \<times> bytes) option" where
  "line_fold [] wants command k = Some (wants, command)"
| "line_fold (packetDelimiter # ps) wants command k = line_fold ps wants command (k + 1)"
| "line_fold (packetData p # ps) wants command k =
     (case request_line (trim_suffix [CHR 0x0A] p) k command wants of
       Inl e \<Rightarrow> None | Inr (command', wants') \<Rightarrow> line_fold ps wants' command' (k + 1))"
| "line_fold (_ # ps) wants command k = None"

lemma parse_uint16_lower: "list_all is_hex_lower ds \<Longrightarrow> parse_uint16 v ds = hex_length v ds"
  by (induction ds arbitrary: v) (auto simp: hex_any_value_def lower_char_id split: option.split)

lemma ParseUint16_hex4: "n < 65536 \<Longrightarrow> ParseUint16 (hex4 n) = Some n"
proof -
  assume "n < 65536"
  moreover have "hex4 n \<noteq> []" by (simp add: hex4_def)
  ultimately show ?thesis
    using parse_uint16_lower [OF hex4_digits, of 0 n] parseHexLength_hex4 [of n]
    by (simp add: ParseUint16_def parseHexLength_def)
qed

lemma CopyN_append: "length a = n \<Longrightarrow> CopyN n \<lparr>src_data = a @ b, src_end = e\<rparr> = (\<lparr>src_data = b, src_end = e\<rparr>, a, None)"
  by (simp add: CopyN_def)

lemma request_head_packet:
  assumes "length p + 4 \<le> 65520" and "int (length held) + int (length p) + 8 \<le> maximumFetchRequest"
    and "request_line (trim_suffix [CHR 0x0A] p) k command wants = Inr (command', wants')"
  shows "request_head \<lparr>src_data = pkt_line p @ rest, src_end = e\<rparr> held wants command k =
    request_head \<lparr>src_data = rest, src_end = e\<rparr> (held @ pkt_line p) wants' command' (k + 1)"
proof -
  have c1: "CopyN 4 \<lparr>src_data = pkt_line p @ rest, src_end = e\<rparr> =
      (\<lparr>src_data = p @ rest, src_end = e\<rparr>, hex4 (length p + 4), None)"
    using CopyN_append [of "hex4 (length p + 4)" 4 "p @ rest"] by (simp add: pkt_line_def)
  have c2: "CopyN (length p) \<lparr>src_data = p @ rest, src_end = e\<rparr> = (\<lparr>src_data = rest, src_end = e\<rparr>, p, None)"
    by (rule CopyN_append) simp
  have u: "ParseUint16 (hex4 (length p + 4)) = Some (length p + 4)"
    using assms(1) by (intro ParseUint16_hex4) simp
  have fits: "\<not> int (length (held @ hex4 (length p + 4))) + int (length p + 4) > maximumFetchRequest"
    using assms(2) by simp
  have "length p + 4 \<noteq> 2" "length p + 4 \<noteq> 3" "length p + 4 \<noteq> 0" "length p + 4 \<noteq> 1" by simp_all
  then show ?thesis
    using c1 c2 u fits assms(3)
    by (subst request_head.simps) (simp add: Let_def pkt_line_def del: length_append of_nat_add)
qed

lemma request_head_delimiter:
  "request_head \<lparr>src_data = hex4 1 @ rest, src_end = e\<rparr> held wants command k =
   request_head \<lparr>src_data = rest, src_end = e\<rparr> (held @ hex4 1) wants command (k + 1)"
  using CopyN_append [of "hex4 1" 4 rest e] ParseUint16_hex4 [of 1]
  by (subst request_head.simps) (simp add: Let_def)

lemma request_head_flush:
  "request_head \<lparr>src_data = hex4 0 @ rest, src_end = e\<rparr> held wants command k =
   (\<lparr>src_data = rest, src_end = e\<rparr>, held @ hex4 0, Inr (wants, command))"
  using CopyN_append [of "hex4 0" 4 rest e] ParseUint16_hex4 [of 0]
  by (subst request_head.simps) (simp add: Let_def)

lemma request_head_frames:
  assumes "line_fold ps wants command k = Some (wants', command')"
    and "\<forall>p. packetData p \<in> set ps \<longrightarrow> length p + 4 \<le> 65520"
    and "int (length held) + int (length (frames ps)) + 4 \<le> maximumFetchRequest"
  shows "request_head \<lparr>src_data = frames ps @ hex4 0 @ rest, src_end = e\<rparr> held wants command k =
    (\<lparr>src_data = rest, src_end = e\<rparr>, held @ frames ps @ hex4 0, Inr (wants', command'))"
  using assms
proof (induction ps arbitrary: wants command k held)
  case Nil
  then show ?case by (simp add: request_head_flush)
next
  case (Cons q ps)
  show ?case
  proof (cases q)
    case (packetData p)
    obtain command1 wants1 where l: "request_line (trim_suffix [CHR 0x0A] p) k command wants = Inr (command1, wants1)"
      and f: "line_fold ps wants1 command1 (k + 1) = Some (wants', command')"
      using Cons.prems(1) packetData by (auto split: sum.splits)
    have "length p + 4 \<le> 65520" "int (length held) + int (length p) + 8 \<le> maximumFetchRequest"
      using Cons.prems(2,3) packetData by (auto simp: pkt_line_def)
    note step = request_head_packet [OF this l, of "frames ps @ hex4 0 @ rest" e]
    have "int (length (held @ pkt_line p)) + int (length (frames ps)) + 4 \<le> maximumFetchRequest"
      using Cons.prems(3) packetData by simp
    from Cons.IH [OF f _ this] step Cons.prems(2) show ?thesis by (simp add: packetData)
  next
    case packetDelimiter
    have "hex4 1 = ''0001''" by (simp add: hex4_examples)
    then show ?thesis
      using Cons.IH [of wants command "k + 1" "held @ hex4 1"] Cons.prems packetDelimiter
        request_head_delimiter [of "frames ps @ hex4 0 @ rest" e held wants command k] by simp
  qed (use Cons.prems in simp_all)
qed


text \<open>A want line of an import says exactly its object.\<close>

lemma trim_LF: "trim_suffix [CHR 0x0A] (x @ LF) = x"
  by (simp add: trim_suffix_def cut_suffix_def suffix_def LF_def)

lemma oid_ok_valid:
  assumes "oid_ok (oidWidth f) x"
  shows "validObjectID x" "ascii_lower x = x" "CHR '' '' \<notin> set x" "CHR 0x00 \<notin> set x"
proof -
  have h: "list_all is_hex_lower x" "length x = 40 \<or> length x = 64"
    using assms by (auto simp: oid_ok_def oidWidth_def split: if_splits)
  then show "validObjectID x" by (auto simp: validObjectID_def list_all_iff char_defs)
  show "ascii_lower x = x" using h(1) by (rule ascii_lower_id)
  show "CHR '' '' \<notin> set x" "CHR 0x00 \<notin> set x" using h(1) by (auto simp: list_all_iff char_defs byte_def)
qed

lemma want_line:
  assumes "oid_ok (oidWidth f) x"
  shows "request_line (''want '' @ x) k c ws = Inr (c, ws @ [x])"
    "request_line (''want '' @ x @ '' '' @ y) k c ws = Inr (c, ws @ [x])"
proof -
  note X = oid_ok_valid [OF assms]
  have n: "cut_prefix ''command='' (''want '' @ z) = None" "\<not> prefix ''want-ref '' (''want '' @ z)"
    "cut_prefix ''want '' (''want '' @ z) = Some z" for z
    by (simp_all add: cut_prefix_None cut_prefix_Some)
  have c: "cut (CHR '' '') x = (x, [], False)" "cut (CHR '' '') (x @ '' '' @ y) = (x, y, True)" "cut (CHR 0x00) x = (x, [], False)"
    using X(3,4) cut_found [of "CHR '' ''" x y] by (simp_all add: cut_not_found)
  show "request_line (''want '' @ x) k c ws = Inr (c, ws @ [x])"
    unfolding request_line_def n(1,3) option.case using n(2) c X by simp
  show "request_line (''want '' @ x @ '' '' @ y) k c ws = Inr (c, ws @ [x])"
    unfolding request_line_def n(1,3) option.case using n(2) c X by simp
qed

lemma line_fold_wants:
  assumes "\<forall>x \<in> set xs. oid_ok (oidWidth f) x"
  shows "line_fold (map packetData (map (\<lambda>x. ''want '' @ x @ LF) xs)) ws c k = Some (ws @ xs, c)"
  using assms
proof (induction xs arbitrary: ws k)
  case (Cons x xs)
  then show ?case
    using want_line(1) [of f x] trim_LF [of "''want '' @ x"] by simp
qed simp

lemma line_fold_upload:
  assumes "\<forall>x \<in> set xs. oid_ok (oidWidth f) x"
  shows "line_fold (map packetData (want_lines capability xs)) [] [] 0 = Some (xs, [])"
proof (cases xs)
  case (Cons x ys)
  then show ?thesis
    using assms want_line(2) [where f = f and x = x and y = capability] trim_LF [of "''want '' @ x @ '' '' @ capability"]
      line_fold_wants [of ys f "[x]" "[]" 1] by simp
qed simp

text \<open>The other lines of a fetch command say nothing to the gate.\<close>

lemma command_line: "request_line (''command='' @ c) 0 [] ws = Inr (c, ws)"
proof -
  have "cut_prefix ''command='' (''command='' @ c) = Some c" by (simp add: cut_prefix_Some)
  then show ?thesis by (simp only: request_line_def option.case) simp
qed

lemma silent_line:
  assumes "\<not> prefix ''command='' l" and "\<not> prefix ''want'' l"
  shows "request_line l k c ws = Inr (c, ws)"
proof -
  have "\<not> prefix ''want-ref '' l" "\<not> prefix ''want '' l"
    using assms(2) by (auto simp: prefix_def)
  then show ?thesis using assms(1) by (simp add: request_line_def cut_prefix_None [THEN iffD2])
qed

lemma line_fold_append:
  "line_fold ps ws c k = Some (ws', c') \<Longrightarrow> line_fold (ps @ qs) ws c k = line_fold qs ws' c' (k + length ps)"
  by (induction ps ws c k rule: line_fold.induct) (auto split: sum.splits)

lemma line_fold_fetch:
  assumes "\<forall>x \<in> set xs. oid_ok (oidWidth f) x"
  shows "line_fold (map packetData (map (\<lambda>l. l @ LF) (command_lines ''fetch'' ad)) @ [packetDelimiter] @
      map packetData (map (\<lambda>l. l @ LF) ([''ofs-delta'', ''no-progress''] @ map (\<lambda>o'. ''want '' @ o') xs @ [''done'']))) [] [] 0
    = Some (xs, ''fetch'')"
proof -
  have head: "line_fold (map packetData (map (\<lambda>l. l @ LF) (command_lines ''fetch'' ad)) @ [packetDelimiter]) [] [] 0 = Some ([], ''fetch'')"
    using command_line [of "''fetch''" "[]"] silent_line [of "''object-format='' @ ad_ObjectFormat ad"]
    by (simp add: command_lines_def trim_LF [of "''command=fetch''", simplified]
        trim_LF [of "''object-format='' @ ad_ObjectFormat ad", simplified])
  have opts: "line_fold (map packetData (map (\<lambda>l. l @ LF) [''ofs-delta'', ''no-progress''])) [] c k = Some ([], c)" for c k
    using silent_line [of "''ofs-delta''"] silent_line [of "''no-progress''"]
    by (simp add: trim_LF [of "''ofs-delta''", simplified] trim_LF [of "''no-progress''", simplified])
  have last': "line_fold [packetData (''done'' @ LF)] ws c k = Some (ws, c)" for ws c k
    using silent_line [of "''done''"] by (simp add: trim_LF [of "''done''", simplified])
  have w: "line_fold (map packetData (map (\<lambda>l. l @ LF) (map (\<lambda>o'. ''want '' @ o') xs))) [] c k = Some (xs, c)" for c k
    using line_fold_wants [OF assms, of "[]"] by (simp add: comp_def)
  show ?thesis
    using line_fold_append [OF head] line_fold_append [OF opts] line_fold_append [OF w] last' by (simp del: line_fold.simps)
qed

lemma readWants_head:
  assumes "request_head src [] [] [] 0 = (s', held, Inr (wants, command))"
    and "v2 \<longrightarrow> command = ''fetch'' \<or> command = ''ls-refs''" and "check wants = None"
  shows "readWants check (new_gate v2 src) = (\<lparr>fg_source = s', fg_v2 = v2, fg_head = held, fg_ready = held,
    fg_done = True, fg_passed = True\<rparr>, None)"
  using assms by (auto simp: readWants_def new_gate_def Let_def)

definition body :: "bytes \<Rightarrow> byte_source" where
  "body data = \<lparr>src_data = data, src_end = EOF\<rparr>"

text \<open>The gate lets the whole of a request through.\<close>

definition admits :: "(bytes list \<Rightarrow> gate_fail option) \<Rightarrow> bool \<Rightarrow> bytes \<Rightarrow> bool" where
  "admits check v2 request \<longleftrightarrow> (\<exists>gate. readWants check (new_gate v2 (body request)) = (gate, None) \<and>
     fg_ready gate @ src_data (fg_source gate) = request)"

lemma packet_lines:
  "packetData p \<in> set (map packetData (map f as) @ [packetDelimiter] @ map packetData (map f bs)) \<Longrightarrow>
   \<exists>l \<in> set (as @ bs). p = f l"
  by auto

lemma gate_admits:
  assumes "advertisement_ok lim ad" and "0 \<le> maximum" and "maximum \<le> maximumFetchRequest"
    and "selectWants ad = Inr wants" and "check wants = None"
  shows "buildUploadRequest ad maximum = Inr request \<Longrightarrow> admits check False request"
    "buildFetchCommand ad maximum = Inr request \<Longrightarrow> admits check True request"
proof -
  have oids: "\<forall>x \<in> set wants. oid_ok (oidWidth (ad_ObjectFormat ad)) x"
    using advertised_objects_oid [OF assms(1)] selectWants_Inr [OF assms(4)] by simp
  have h0: "hex4 0 = ''0000''" by (simp add: hex4_examples)
  show "admits check False request" if b: "buildUploadRequest ad maximum = Inr request"
  proof -
    obtain capability where q: "request = frames (upload_packets capability wants)" "int (length request) \<le> maximum"
      "\<forall>l \<in> set (want_lines capability wants). length l + 4 \<le> 65520"
      using b assms(4) by (auto simp: buildUploadRequest_Inr [OF assms(2)])
    let ?ps = "map packetData (want_lines capability wants)" and ?rest = "frame (packetData (''done'' @ LF))"
    have r: "request = frames ?ps @ hex4 0 @ ?rest" using q(1) by (simp add: upload_packets_def h0)
    have "request_head (body request) [] [] [] 0 = (body ?rest, frames ?ps @ hex4 0, Inr (wants, []))"
      using request_head_frames [OF line_fold_upload [OF oids, of capability], of "[]" ?rest EOF] q(2,3) assms(3)
      unfolding body_def r by auto
    from readWants_head [OF this, of False check] assms(5) show ?thesis
      unfolding admits_def by (auto simp: r body_def)
  qed
  show "admits check True request" if b: "buildFetchCommand ad maximum = Inr request"
  proof -
    let ?args = "[''ofs-delta'', ''no-progress''] @ map (\<lambda>oid. ''want '' @ oid) wants @ [''done'']"
    have "buildCommand ''fetch'' ad ?args maximum = Inr request"
      using b assms(4) by (simp add: buildFetchCommand_def)
    then have q: "request = frames (command_packets ''fetch'' ad ?args)" "int (length request) \<le> maximum"
      "\<forall>l \<in> set (command_lines ''fetch'' ad @ ?args). length (l @ LF) + 4 \<le> 65520"
      unfolding buildCommand_Inr [OF assms(2)] by blast+
    let ?ps = "map packetData (map (\<lambda>l. l @ LF) (command_lines ''fetch'' ad)) @ [packetDelimiter] @
      map packetData (map (\<lambda>l. l @ LF) ?args)"
    have r: "request = frames ?ps @ hex4 0 @ []" using q(1) by (simp add: command_packets_def h0)
    have "\<forall>p. packetData p \<in> set ?ps \<longrightarrow> length p + 4 \<le> 65520"
      using q(3) packet_lines [where f = "\<lambda>l. l @ LF"] by blast
    moreover have "length request = length (frames ?ps) + (4 + 0)"
      using arg_cong [OF r, of length] by (simp only: length_append length_hex4 list.size(3))
    then have "int (length (frames ?ps)) + 4 \<le> maximumFetchRequest" using q(2) assms(3) by linarith
    ultimately have "request_head (body request) [] [] [] 0 = (body [], frames ?ps @ hex4 0, Inr (wants, ''fetch''))"
      using request_head_frames [OF line_fold_fetch [OF oids, of ad], of "[]" "[]" EOF]
      unfolding body_def r by (simp only: append_Nil append_Nil2 list.size(3) of_nat_0 add_0)
    from readWants_head [OF this, of True check] assms(5) show ?thesis
      unfolding admits_def by (auto simp: r body_def)
  qed
qed

text \<open>C25. An import from another server of this program is never refused for the form of its
  request: for every advertisement \<open>Parse\<close> may accept, the gate reads the request of either
  protocol version built from it, up to the size it holds, asks its check about exactly the
  advertised objects, and, when the check accepts them, passes the request on unchanged.\<close>

theorem gate_admits_import:
  assumes "advertisement_ok lim ad" and "0 \<le> maximum" and "maximum \<le> maximumFetchRequest"
    and "buildUploadRequest ad maximum = Inr request0" and "buildFetchCommand ad maximum = Inr request2"
  shows "\<exists>wants. set wants = advertised_objects ad \<and> distinct wants \<and>
    (\<forall>check. check wants = None \<longrightarrow> admits check False request0 \<and> admits check True request2)"
proof -
  obtain wants where w: "selectWants ad = Inr wants"
    using assms(5) by (auto simp: buildFetchCommand_def)
  show ?thesis
    using selectWants_Inr [OF w] gate_admits(1) [OF assms(1-3) w _ assms(4)] gate_admits(2) [OF assms(1-3) w _ assms(5)]
    by blast
qed

lemma sample_advertisement_ok: "advertisement_ok DefaultLimits sample_advertisement"
proof -
  obtain lim r res where e: "Effective sample_limits = Inr lim"
    and p: "run_parse (startReader sample_source lim) (startFacts sample_options lim DefaultService) = Inr (r, res)"
    and ad: "sample_advertisement = res\<lparr>ad_TotalBytes := rd_consumed r\<rparr>"
    using Parse_Inr [OF sample_parse] by (auto simp: sample_options_def)
  show ?thesis
    unfolding ad total_bytes_irrelevant
    using run_parse_ok [OF p startFacts_ok [OF e]] e by (simp add: startFacts_def sample_effective)
qed

lemma sample_requests:
  "buildUploadRequest sample_advertisement 1000 = Inr (frames (upload_packets ''ofs-delta'' [sample_oid]))"
  "\<exists>request. buildFetchCommand sample_advertisement 1000 = Inr request"
proof -
  have w: "selectWants sample_advertisement = Inr [sample_oid]" by code_simp
  have c: "requestCapability sample_advertisement = Some ''ofs-delta''" by code_simp
  have l: "length sample_oid = 40" by code_simp
  show "buildUploadRequest sample_advertisement 1000 = Inr (frames (upload_packets ''ofs-delta'' [sample_oid]))"
    by (simp add: buildUploadRequest_Inr c w upload_packets_def pkt_line_def LF_def l)
  have "buildCommand ''fetch'' sample_advertisement [''ofs-delta'', ''no-progress'', ''want '' @ sample_oid, ''done''] 1000 =
      Inr (frames (command_packets ''fetch'' sample_advertisement [''ofs-delta'', ''no-progress'', ''want '' @ sample_oid, ''done'']))"
    by (simp add: buildCommand_Inr command_packets_def command_lines_def sample_advertisement_def pkt_line_def LF_def l)
  then show "\<exists>request. buildFetchCommand sample_advertisement 1000 = Inr request"
    by (simp add: buildFetchCommand_def w)
qed

theorem gate_admits_import_witness:
  "admits (\<lambda>wants. if wants = [sample_oid] then None else Some errFetchRequest) False
     (frames (upload_packets ''ofs-delta'' [sample_oid]))"
proof -
  have "advertised_objects sample_advertisement = {sample_oid}"
    by (simp add: advertised_objects_def sample_advertisement_def sample_ref_def)
  moreover have "wants = [x]" if "set wants = {x}" "distinct wants" for wants and x :: bytes
    using that by (cases wants; cases "tl wants") auto
  moreover obtain request where "buildFetchCommand sample_advertisement 1000 = Inr request"
    using sample_requests(2) by blast
  ultimately show ?thesis
    using gate_admits_import [OF sample_advertisement_ok _ _ sample_requests(1)]
    by (fastforce simp: maximumFetchRequest_def)
qed

subsection \<open>The gate in front of a sample address\<close>

definition sample_request :: bytes where
  "sample_request = frames (upload_packets ''ofs-delta'' [sample_oid])"

lemma sample_gate_drain:
  assumes "check [sample_oid] = None"
  shows "\<exists>gate out. gate_drain check [4] (new_gate False (body sample_request)) = (gate, out, None) \<and> out \<noteq> []"
proof -
  let ?ps = "map packetData (want_lines ''ofs-delta'' [sample_oid])" and ?rest = "frame (packetData (''done'' @ LF))"
  have l: "length sample_oid = 40" and ok: "\<forall>x \<in> set [sample_oid]. oid_ok (oidWidth FormatSHA1) x" by code_simp+
  have h0: "hex4 0 = ''0000''" by (simp add: hex4_examples)
  have r: "sample_request = frames ?ps @ hex4 0 @ ?rest" by (simp add: sample_request_def upload_packets_def h0)
  have "request_head (body sample_request) [] [] [] 0 = (body ?rest, frames ?ps @ hex4 0, Inr ([sample_oid], []))"
    using request_head_frames [OF line_fold_upload [OF ok, of "''ofs-delta''"], of "[]" ?rest EOF]
    unfolding body_def r by (simp add: l pkt_line_def LF_def maximumFetchRequest_def)
  note opened = readWants_head [OF this, of False check]
  have "take 4 (frames ?ps @ hex4 0) \<noteq> []" by (simp add: h0)
  then show ?thesis
    using opened assms h0 by (simp add: gate_Read_def new_gate_def gate_rest_def)
qed

theorem fetch_gate_mediates_witness:
  "\<exists>wants. reads_request False sample_request wants"
proof -
  obtain gate out where d: "gate_drain (\<lambda>wants. None) [4] (new_gate False (body sample_request)) = (gate, out, None)" "out \<noteq> []"
    using sample_gate_drain [of "\<lambda>wants. None"] by auto
  show ?thesis using fetch_gate_mediates [OF d] by (auto simp: body_def)
qed

theorem fetch_serves_only_reachable_witness:
  "\<exists>wants. reads_request False sample_request wants \<and> list_all (served mainScope (sample_repo sample_oid)) wants"
proof -
  let ?R = "sample_repo sample_oid" and ?git = "model_git mainScope (sample_repo sample_oid)"
  have git: "git_answers ?git mainScope ?R" "git_runs ?git mainScope ?R"
    using model_git_answers [OF sample_repo_ok] by simp_all
  have id': "list_all full_id [sample_oid]" using sample_oids by simp
  have "(sample_oid, ''refs/heads/main'') \<in> set (rp_refs ?R)" by (simp add: sample_repo_def)
  moreover have "in_patterns (sc_patterns mainScope) ''refs/heads/main''" "\<not> prefix (sc_hidden mainScope) ''refs/heads/main''"
    by (simp_all add: mainScope_def in_patterns_def)
  ultimately have "served mainScope ?R sample_oid" unfolding served_def advertised_tip_def by blast
  then have "want_check ?git mainScope [sample_oid] = None"
    using checkWants_spec [OF git(1) id'] git(2) by (simp add: answer_ok_def want_check_def split: sum.splits)
  then obtain gate out where
      d: "gate_drain (want_check ?git mainScope) [4] (new_gate False (body sample_request)) = (gate, out, None)" "out \<noteq> []"
    using sample_gate_drain by blast
  show ?thesis using fetch_serves_only_reachable [OF git(1) d] by (auto simp: body_def list_all_iff)
qed

end
