(* ===== verification/PushGate.thy ===== *)
theory PushGate
  imports FetchGate
begin

text \<open>
  The name check of a push: the gate that holds back the flush packet of the command list
  (\<open>internal/githttp/push_commands.go\<close>), the comparison of reference names
  (\<open>internal/repository/refname_key.go\<close>) and the list of refused references the update hook
  reads. The Unicode tables and normal forms \<open>RefNameKey\<close> uses and the answers of Git are
  parameters.
\<close>

subsection \<open>Names that a file system can take for one another\<close>

text \<open>A name as code points, with the operations of the Unicode libraries.\<close>

record unicode_ops =
  uo_runes :: "bytes \<Rightarrow> nat list"
  uo_NFD :: "nat list \<Rightarrow> nat list"
  uo_fold :: "nat list \<Rightarrow> nat list"
  uo_is_format :: "nat \<Rightarrow> bool"
  uo_upper :: "nat \<Rightarrow> nat"
  uo_lower :: "nat \<Rightarrow> nat"

definition key_rune :: "unicode_ops \<Rightarrow> nat \<Rightarrow> nat list" where
  "key_rune U c =
     (if uo_is_format U c then []
      else let d = uo_lower U (uo_upper U c)
           in [if 0x2D00 \<le> d \<and> d \<le> 0x2D25 then d - (0x2D00 - 0x10D0) else d])"

definition RefNameKey :: "unicode_ops \<Rightarrow> bytes \<Rightarrow> nat list" where
  "RefNameKey U name = uo_NFD U (concat (map (key_rune U) (uo_fold U (uo_NFD U (uo_runes U name)))))"

definition refNameLevels :: "bytes \<Rightarrow> bytes list" where
  "refNameLevels name = map (\<lambda>i. take i name) (filter (\<lambda>i. name ! i = CHR ''/'' \<and> i > 0) [0..<length name]) @ [name]"

definition add_spelling :: "(bytes \<Rightarrow> 'k) \<Rightarrow> bytes \<Rightarrow> ('k \<Rightarrow> bytes set) \<Rightarrow> 'k \<Rightarrow> bytes set" where
  "add_spelling key level spellings = spellings(key level := insert level (spellings (key level)))"

text \<open>The map of the spellings of each key; a missing entry is the empty set.\<close>

definition spellings_of :: "(bytes \<Rightarrow> 'k) \<Rightarrow> bytes list \<Rightarrow> 'k \<Rightarrow> bytes set" where
  "spellings_of key names = fold (\<lambda>name. fold (add_spelling key) (refNameLevels name)) names (\<lambda>_. {})"

definition RefNameConflicts :: "(bytes \<Rightarrow> 'k) \<Rightarrow> bytes list \<Rightarrow> bytes list \<Rightarrow> bytes set" where
  "RefNameConflicts key existing writes =
     (let spellings = spellings_of key (existing @ writes)
      in set (filter (\<lambda>name. list_ex (\<lambda>level. card (spellings (key level)) > 1) (refNameLevels name)) writes))"

lemma spellings_of_spec:
  "spellings_of key names k = {l. key l = k \<and> (\<exists>n \<in> set names. l \<in> set (refNameLevels n))}"
proof -
  have inner: "fold (add_spelling key) ls sp k = sp k \<union> {l \<in> set ls. key l = k}" for ls sp
    by (induction ls arbitrary: sp) (auto simp: add_spelling_def)
  have "fold (\<lambda>name. fold (add_spelling key) (refNameLevels name)) ns sp k =
      sp k \<union> {l. key l = k \<and> (\<exists>n \<in> set ns. l \<in> set (refNameLevels n))}" for ns sp
    by (induction ns arbitrary: sp) (auto simp: inner)
  then show ?thesis by (simp add: spellings_of_def)
qed

lemma RefNameConflicts_iff:
  "name \<in> RefNameConflicts key existing writes \<longleftrightarrow> name \<in> set writes \<and>
     (\<exists>l \<in> set (refNameLevels name). \<exists>other \<in> set (existing @ writes). \<exists>l' \<in> set (refNameLevels other).
        key l' = key l \<and> l' \<noteq> l)"
proof -
  let ?sp = "spellings_of key (existing @ writes)"
  have fin: "finite (?sp k)" for k
    by (rule finite_subset [of _ "\<Union>n \<in> set (existing @ writes). set (refNameLevels n)"]) (auto simp: spellings_of_spec)
  have "1 < card (?sp (key l)) \<longleftrightarrow> (\<exists>other \<in> set (existing @ writes). \<exists>l' \<in> set (refNameLevels other). key l' = key l \<and> l' \<noteq> l)"
    if "name \<in> set writes" "l \<in> set (refNameLevels name)" for l
  proof -
    have l: "l \<in> ?sp (key l)" using that by (auto simp: spellings_of_spec)
    have "1 < card (?sp (key l)) \<longleftrightarrow> ?sp (key l) \<noteq> {l}"
      using l fin [of "key l"] card_1_singleton_iff [of "?sp (key l)"] card_gt_0_iff [of "?sp (key l)"]
      by (metis One_nat_def card_1_singletonE less_one linorder_neqE_nat order_less_irrefl singletonD empty_iff is_singletonI is_singleton_altdef)
    also have "\<dots> \<longleftrightarrow> (\<exists>l' \<in> ?sp (key l). l' \<noteq> l)" using l by auto
    also have "\<dots> \<longleftrightarrow> (\<exists>other \<in> set (existing @ writes). \<exists>l' \<in> set (refNameLevels other). key l' = key l \<and> l' \<noteq> l)"
      unfolding spellings_of_spec by blast
    finally show ?thesis .
  qed
  then show ?thesis
    unfolding RefNameConflicts_def Let_def by (auto simp: list_ex_iff)
qed

subsection \<open>The gate\<close>

definition maximumPushCommands :: int where "maximumPushCommands = 16 * 2 ^ 20"

datatype push_fail =
    errPushRequest
  | PushIO io_error
  | PushCheck

record pushCommand =
  pc_name :: bytes
  pc_deletes :: bool

text \<open>
  The gate with the file the update hook reads: \<open>Some\<close> content, or \<open>None\<close> once it was removed.
  The check returns the content it writes, or \<open>None\<close> for an error, which is never one of the gate's own.
\<close>

record nameConflictGate =
  ng_source :: byte_source
  ng_commands :: bytes
  ng_updates :: "pushCommand list"
  ng_ready :: bytes
  ng_done :: bool
  ng_file :: "bytes option"

type_synonym push_check = "pushCommand list \<Rightarrow> bytes option"

text \<open>\<open>strings.SplitN(line, " ", 3)\<close>, when it has three parts.\<close>

definition splitN3 :: "bytes \<Rightarrow> (bytes \<times> bytes \<times> bytes) option" where
  "splitN3 line =
     (case cut (CHR '' '') line of (a, rest, found1) \<Rightarrow>
        if \<not> found1 then None
        else case cut (CHR '' '') rest of (b, c, found2) \<Rightarrow> if found2 then Some (a, b, c) else None)"

definition push_line :: "bytes \<Rightarrow> pushCommand list \<Rightarrow> push_fail + pushCommand list" where
  "push_line payload updates =
     (case cut (CHR 0x00) (trim_suffix [CHR 0x0A] payload) of (line, _, _) \<Rightarrow>
        if prefix ''shallow '' line then Inr updates
        else case splitN3 line of
          None \<Rightarrow> Inl errPushRequest
        | Some (old, new, name) \<Rightarrow>
            if name = [] then Inl errPushRequest
            else Inr (updates @ [\<lparr>pc_name = name, pc_deletes = list_all (\<lambda>c. c = CHR ''0'') new\<rparr>]))"

definition ng_readPacket :: "push_check \<Rightarrow> nameConflictGate \<Rightarrow> nameConflictGate \<times> push_fail option" where
  "ng_readPacket check gate =
     (case CopyN 4 (ng_source gate) of (s1, got1, err1) \<Rightarrow>
        (let gate1 = gate\<lparr>ng_source := s1, ng_commands := ng_commands gate @ got1\<rparr> in
         case err1 of Some e \<Rightarrow> (gate1, Some (PushIO e))
         | None \<Rightarrow>
           (case ParseUint16 got1 of
             None \<Rightarrow> (gate1, Some errPushRequest)
           | Some len \<Rightarrow>
               if len = 0 then
                 (case check (ng_updates gate1) of
                   None \<Rightarrow> (gate1, Some PushCheck)
                 | Some content \<Rightarrow> (gate1\<lparr>ng_file := Some content, ng_ready := got1, ng_done := True\<rparr>, None))
               else if len < 5 \<or> int (length (ng_commands gate1)) + int len > maximumPushCommands
               then (gate1, Some errPushRequest)
               else
                 (case CopyN (len - 4) s1 of (s2, got2, err2) \<Rightarrow>
                    (let gate2 = gate1\<lparr>ng_source := s2, ng_commands := ng_commands gate1 @ got2\<rparr> in
                     case err2 of Some e \<Rightarrow> (gate2, Some (PushIO e))
                     | None \<Rightarrow>
                       (case push_line got2 (ng_updates gate2) of
                         Inl e \<Rightarrow> (gate2, Some e)
                       | Inr updates \<Rightarrow> (gate2\<lparr>ng_updates := updates, ng_ready := got1 @ got2\<rparr>, None)))))))"

definition ng_rest :: "nat \<Rightarrow> nameConflictGate \<Rightarrow> nameConflictGate \<times> bytes \<times> push_fail option" where
  "ng_rest n gate =
     (if ng_ready gate \<noteq> [] then (gate\<lparr>ng_ready := drop n (ng_ready gate)\<rparr>, take n (ng_ready gate), None)
      else case source_Read n (ng_source gate) of (src, got, err) \<Rightarrow>
        (gate\<lparr>ng_source := src\<rparr>, got, map_option PushIO err))"

text \<open>
  One turn of the loop always ends it: a packet makes bytes ready, and every error ends the
  command list or the read. Bytes of a packet that was not complete are passed on as they are.
\<close>

definition ng_Read :: "push_check \<Rightarrow> nat \<Rightarrow> nameConflictGate \<Rightarrow> nameConflictGate \<times> bytes \<times> push_fail option" where
  "ng_Read check n gate =
     (if ng_done gate \<or> ng_ready gate \<noteq> [] then ng_rest n gate
      else
        let start = length (ng_commands gate) in
        case ng_readPacket check gate of
          (gate', None) \<Rightarrow> ng_rest n gate'
        | (gate', Some e) \<Rightarrow>
            if e = errPushRequest then
              ng_rest n (gate'\<lparr>ng_file := None, ng_ready := drop start (ng_commands gate'), ng_done := True\<rparr>)
            else if e = PushIO EOF then
              ng_rest n (gate'\<lparr>ng_ready := drop start (ng_commands gate'), ng_done := True\<rparr>)
            else (gate', [], Some e))"

fun ng_drain :: "push_check \<Rightarrow> nat list \<Rightarrow> nameConflictGate \<Rightarrow> nameConflictGate \<times> bytes \<times> push_fail option" where
  "ng_drain check [] gate = (gate, [], None)"
| "ng_drain check (n # ns) gate =
     (case ng_Read check n gate of
       (gate', got, Some e) \<Rightarrow> (gate', got, Some e)
     | (gate', got, None) \<Rightarrow> (case ng_drain check ns gate' of (g, out, err) \<Rightarrow> (g, got @ out, err)))"

definition new_push_gate :: "byte_source \<Rightarrow> nameConflictGate" where
  "new_push_gate src = \<lparr>ng_source = src, ng_commands = [], ng_updates = [], ng_ready = [], ng_done = False, ng_file = Some []\<rparr>"

subsection \<open>What the command list says\<close>

definition push_item :: "bytes \<times> bytes \<Rightarrow> bool" where
  "push_item p \<longleftrightarrow> length (fst p) = 4 \<and> ParseUint16 (fst p) = Some (length (snd p) + 4) \<and> snd p \<noteq> []"

definition push_bytes :: "(bytes \<times> bytes) list \<Rightarrow> bytes" where
  "push_bytes ps = concat (map (\<lambda>p. fst p @ snd p) ps)"

fun push_updates :: "(bytes \<times> bytes) list \<Rightarrow> pushCommand list \<Rightarrow> push_fail + pushCommand list" where
  "push_updates [] updates = Inr updates"
| "push_updates (p # ps) updates = bindE (push_line (snd p) updates) (push_updates ps)"

lemma push_updates_snoc: "push_updates (ps @ [p]) updates = bindE (push_updates ps updates) (push_line (snd p))"
  by (induction ps arbitrary: updates) (auto simp: bindE_def split: sum.split)

text \<open>
  The state of the gate: inside the command list it has passed on whole packets, read into
  \<open>updates\<close>; after its end the hook's file is gone, the request ended early, or the file is
  what the check wrote for all updates before the flush.
\<close>

definition list_cut :: "byte_source \<Rightarrow> bool" where
  "list_cut src \<longleftrightarrow> src_end src = EOF \<and> (\<exists>ps t. list_all push_item ps \<and> src_data src = push_bytes ps @ t \<and>
     (length t < 4 \<or> (\<exists>len. ParseUint16 (take 4 t) = Some len \<and> length t < len)))"

definition list_checked :: "push_check \<Rightarrow> byte_source \<Rightarrow> bytes \<Rightarrow> bool" where
  "list_checked check src content \<longleftrightarrow> (\<exists>ps updates flush rest. list_all push_item ps \<and> push_updates ps [] = Inr updates \<and>
     length flush = 4 \<and> ParseUint16 flush = Some 0 \<and> src_data src = push_bytes ps @ flush @ rest \<and>
     check updates = Some content)"

definition listed_state :: "push_check \<Rightarrow> byte_source \<Rightarrow> nameConflictGate \<Rightarrow> bool" where
  "listed_state check src gate \<longleftrightarrow>
     (if \<not> ng_done gate then
        (\<exists>ps. list_all push_item ps \<and> ng_commands gate = push_bytes ps \<and> push_updates ps [] = Inr (ng_updates gate) \<and>
           src_data src = push_bytes ps @ src_data (ng_source gate))
      else ng_file gate = None \<or> list_cut src \<or> (\<exists>content. ng_file gate = Some content \<and> list_checked check src content))"

definition push_state :: "push_check \<Rightarrow> byte_source \<Rightarrow> bytes \<Rightarrow> nameConflictGate \<Rightarrow> bool" where
  "push_state check src out gate \<longleftrightarrow> listed_state check src gate \<and>
     out @ ng_ready gate @ src_data (ng_source gate) = src_data src \<and> src_end (ng_source gate) = src_end src \<and>
     (\<not> ng_done gate \<longrightarrow> ng_commands gate = out @ ng_ready gate)"


lemma push_bytes_snoc: "push_bytes (ps @ [p]) = push_bytes ps @ fst p @ snd p"
  by (simp add: push_bytes_def)

lemma CopyN_Some: "CopyN n s = (s', got, Some e) \<Longrightarrow>
    got = src_data s \<and> src_data s' = [] \<and> src_end s' = src_end s \<and> length got < n \<and> e = src_end s"
  by (auto simp: CopyN_def split: if_splits)

text \<open>One packet.\<close>

lemma readPacket_None:
  assumes "ng_readPacket check gate = (gate', None)" and "push_state check src out gate"
    and "\<not> ng_done gate" and "ng_ready gate = []"
  shows "push_state check src out gate'"
proof -
  obtain ps where ps: "list_all push_item ps" "ng_commands gate = push_bytes ps" "push_updates ps [] = Inr (ng_updates gate)"
    "src_data src = push_bytes ps @ src_data (ng_source gate)" and e: "src_end (ng_source gate) = src_end src"
    and out: "out = push_bytes ps"
    using assms(2-4) by (auto simp: push_state_def listed_state_def)
  obtain s1 got1 err1 where c1: "CopyN 4 (ng_source gate) = (s1, got1, err1)" by (cases "CopyN 4 (ng_source gate)")
  have n1: "err1 = None" using assms(1) c1 by (auto simp: ng_readPacket_def Let_def split: option.splits)
  note C1 = CopyN_None [OF c1 [unfolded n1]]
  obtain len where len: "ParseUint16 got1 = Some len"
    using assms(1) c1 n1 by (auto simp: ng_readPacket_def Let_def split: option.splits)
  show ?thesis
  proof (cases "len = 0")
    case True
    then obtain content where "check (ng_updates gate) = Some content"
      and g: "gate' = gate\<lparr>ng_source := s1, ng_commands := ng_commands gate @ got1, ng_file := Some content, ng_ready := got1, ng_done := True\<rparr>"
      using assms(1) c1 n1 len by (auto simp: ng_readPacket_def Let_def split: option.splits)
    moreover from this have "list_checked check src content"
      unfolding list_checked_def
      by (rule_tac exI [of _ ps], rule_tac exI [of _ "ng_updates gate"], rule_tac exI [of _ got1], rule_tac exI [of _ "src_data s1"])
        (use ps C1 len True in simp)
    ultimately have "listed_state check src gate'" by (simp add: listed_state_def)
    then show ?thesis using g C1 e ps out by (auto simp: push_state_def)
  next
    case False
    have ok: "\<not> (len < 5 \<or> int (length (ng_commands gate @ got1)) + int len > maximumPushCommands)"
      using assms(1) c1 n1 len False by (auto simp: ng_readPacket_def Let_def simp del: length_append split: if_splits)
    obtain s2 got2 err2 where c2: "CopyN (len - 4) s1 = (s2, got2, err2)" by (cases "CopyN (len - 4) s1")
    have n2: "err2 = None" using assms(1) c1 n1 len False ok c2
      by (auto simp: ng_readPacket_def Let_def simp del: length_append split: option.splits)
    note C2 = CopyN_None [OF c2 [unfolded n2]]
    obtain updates where l: "push_line got2 (ng_updates gate) = Inr updates"
      and g: "gate' = gate\<lparr>ng_source := s2, ng_commands := (ng_commands gate @ got1) @ got2, ng_updates := updates, ng_ready := got1 @ got2\<rparr>"
      using assms(1) c1 n1 len False ok c2 n2
      by (auto simp: ng_readPacket_def Let_def simp del: length_append split: sum.splits)
    have "push_item (got1, got2)" using ok C1 C2 len by (auto simp: push_item_def)
    then have "listed_state check src gate'"
      using ps C1 C2 l g assms(3) unfolding listed_state_def
      by (auto intro!: exI [of _ "ps @ [(got1, got2)]"] simp: push_bytes_snoc push_updates_snoc)
    then show ?thesis using g C1 C2 e ps out assms(3) by (auto simp: push_state_def)
  qed
qed

lemma readPacket_Some:
  assumes "ng_readPacket check gate = (gate', Some e)"
  shows "\<exists>got. ng_commands gate' = ng_commands gate @ got \<and> src_data (ng_source gate) = got @ src_data (ng_source gate') \<and>
    src_end (ng_source gate') = src_end (ng_source gate) \<and> ng_file gate' = ng_file gate \<and> ng_ready gate' = ng_ready gate \<and> ng_done gate' = ng_done gate \<and>
    (e = PushIO EOF \<longrightarrow> src_end (ng_source gate) = EOF \<and>
       (length (src_data (ng_source gate)) < 4 \<or>
        (\<exists>len. ParseUint16 (take 4 (src_data (ng_source gate))) = Some len \<and> length (src_data (ng_source gate)) < len)))"
proof -
  obtain s1 got1 err1 where c1: "CopyN 4 (ng_source gate) = (s1, got1, err1)" by (cases "CopyN 4 (ng_source gate)")
  show ?thesis
  proof (cases err1)
    case (Some x)
    then show ?thesis
      using assms c1 CopyN_Some [OF c1 [unfolded Some]] by (auto simp: ng_readPacket_def Let_def intro!: exI [of _ got1])
  next
    case None
    note C1 = CopyN_None [OF c1 [unfolded None]]
    show ?thesis
    proof (cases "gate' = gate\<lparr>ng_source := s1, ng_commands := ng_commands gate @ got1\<rparr> \<and> e \<noteq> PushIO EOF")
      case True
      then show ?thesis using C1 by (intro exI [of _ got1]) simp
    next
      case late: False
      obtain len where len: "ParseUint16 got1 = Some len" "len \<noteq> 0"
        "\<not> (len < 5 \<or> int (length (ng_commands gate @ got1)) + int len > maximumPushCommands)"
        using assms c1 None late
        by (auto simp: ng_readPacket_def Let_def simp del: length_append split: option.splits if_splits)
      obtain s2 got2 err2 where c2: "CopyN (len - 4) s1 = (s2, got2, err2)" by (cases "CopyN (len - 4) s1")
      have g: "gate' = gate\<lparr>ng_source := s2, ng_commands := (ng_commands gate @ got1) @ got2\<rparr>"
        and x: "err2 = Some x \<Longrightarrow> e = PushIO x" "err2 = None \<Longrightarrow> push_line got2 (ng_updates gate) = Inl e" for x
        using assms c1 None len c2
        by (auto simp: ng_readPacket_def Let_def simp del: length_append split: option.splits sum.splits)
      have pl: "push_line p us \<noteq> Inl (PushIO EOF)" for p us
        by (auto simp: push_line_def split: prod.split option.split)
      show ?thesis
      proof (cases err2)
        case (Some y)
        note C2 = CopyN_Some [OF c2 [unfolded Some]]
        have "length (src_data (ng_source gate)) = 4 + length got2" using C1 C2 by simp
        moreover have "length got2 < len - 4" using C2 by blast
        ultimately have "length (src_data (ng_source gate)) < len" using len(3) by linarith
        moreover have "take 4 (src_data (ng_source gate)) = got1" using C1 by simp
        ultimately show ?thesis
          using C1 C2 g x(1) [OF Some] len(1) by (intro exI [of _ "got1 @ got2"]) auto
      next
        case None2: None
        note C2 = CopyN_None [OF c2 [unfolded None2]]
        show ?thesis
          using C1 C2 g x(2) [OF None2] pl by (intro exI [of _ "got1 @ got2"]) auto
      qed
    qed
  qed
qed


lemma ng_rest_state:
  assumes "ng_rest n gate = (gate', got, err)" and "push_state check src out gate" and "ng_done gate \<or> ng_ready gate \<noteq> []"
  shows "push_state check src (out @ got) gate' \<and> ng_file gate' = ng_file gate"
proof (cases "ng_ready gate = []")
  case True
  then show ?thesis
    using assms by (auto simp: ng_rest_def source_Read_def push_state_def listed_state_def split: if_splits)
next
  case False
  then have g: "gate' = gate\<lparr>ng_ready := drop n (ng_ready gate)\<rparr>" "got = take n (ng_ready gate)"
    using assms(1) by (simp_all add: ng_rest_def)
  have "listed_state check src gate' = listed_state check src gate" by (simp add: g listed_state_def)
  then show ?thesis
    using assms(2) by (simp add: g push_state_def take_drop_append)
qed

lemma ng_Read_state:
  assumes "ng_Read check n gate = (gate', got, err)" and st: "push_state check src out gate"
  shows "push_state check src (out @ got) gate' \<or> (err \<noteq> None \<and> got = [] \<and> ng_file gate' = ng_file gate)"
proof (cases "ng_done gate \<or> ng_ready gate \<noteq> []")
  case True
  then show ?thesis using assms ng_rest_state by (simp add: ng_Read_def)
next
  case False
  obtain g1 e1 where r: "ng_readPacket check gate = (g1, e1)" by (cases "ng_readPacket check gate")
  show ?thesis
  proof (cases e1)
    case None
    have s1: "push_state check src out g1" using readPacket_None [OF r [unfolded None] st] False by simp
    have "ng_rest n g1 = (gate', got, err)" using assms(1) False r None by (simp add: ng_Read_def Let_def)
    moreover have "ng_done g1 \<or> ng_ready g1 \<noteq> []"
      using r None by (auto simp: ng_readPacket_def Let_def CopyN_def split: option.splits if_splits sum.splits)
    ultimately show ?thesis using ng_rest_state s1 by blast
  next
    case (Some e)
    obtain p where p: "ng_commands g1 = ng_commands gate @ p" "src_data (ng_source gate) = p @ src_data (ng_source g1)"
      "src_end (ng_source g1) = src_end (ng_source gate)" "ng_file g1 = ng_file gate" "ng_ready g1 = ng_ready gate" "ng_done g1 = ng_done gate"
      "e = PushIO EOF \<longrightarrow> src_end (ng_source gate) = EOF \<and>
       (length (src_data (ng_source gate)) < 4 \<or>
        (\<exists>len. ParseUint16 (take 4 (src_data (ng_source gate))) = Some len \<and> length (src_data (ng_source gate)) < len))"
      using readPacket_Some [OF r [unfolded Some]] by blast
    obtain ps where ps: "list_all push_item ps" "src_data src = push_bytes ps @ src_data (ng_source gate)"
      using st False by (auto simp: push_state_def listed_state_def)
    consider (bad) "e = errPushRequest" | (eof) "e = PushIO EOF" | (other) "e \<noteq> errPushRequest" "e \<noteq> PushIO EOF" by blast
    then show ?thesis
    proof cases
      case bad
      let ?g = "g1\<lparr>ng_file := None, ng_ready := drop (length (ng_commands gate)) (ng_commands g1), ng_done := True\<rparr>"
      have "push_state check src out ?g" using st False p by (auto simp: push_state_def listed_state_def)
      moreover have "ng_rest n ?g = (gate', got, err)" using assms(1) False r Some bad by (simp add: ng_Read_def Let_def)
      ultimately show ?thesis using ng_rest_state [of n ?g] by simp
    next
      case eof
      let ?g = "g1\<lparr>ng_ready := drop (length (ng_commands gate)) (ng_commands g1), ng_done := True\<rparr>"
      have "list_cut src"
        unfolding list_cut_def using p(7) eof ps st by (auto simp: push_state_def)
      then have "push_state check src out ?g" using st False p by (auto simp: push_state_def listed_state_def)
      moreover have "ng_rest n ?g = (gate', got, err)" using assms(1) False r Some eof by (simp add: ng_Read_def Let_def)
      ultimately show ?thesis using ng_rest_state [of n ?g] by simp
    next
      case other
      then have "gate' = g1" "got = []" "err = Some e"
        using assms(1) False r Some by (auto simp: ng_Read_def Let_def)
      then show ?thesis using p(4) by blast
    qed
  qed
qed

text \<open>What Git has received so far, with the file its hook will read.\<close>

definition push_guarded :: "push_check \<Rightarrow> byte_source \<Rightarrow> bytes \<Rightarrow> bytes option \<Rightarrow> bool" where
  "push_guarded check src out file \<longleftrightarrow>
     (\<exists>ps. list_all push_item ps \<and> prefix out (push_bytes ps) \<and> prefix (push_bytes ps) (src_data src)) \<or>
     file = None \<or> list_cut src \<or> (\<exists>content. file = Some content \<and> list_checked check src content)"

lemma push_state_guarded:
  assumes "push_state check src out gate"
  shows "prefix out (src_data src) \<and> push_guarded check src out (ng_file gate)"
proof
  show "prefix out (src_data src)" using assms unfolding push_state_def by (metis prefixI)
  show "push_guarded check src out (ng_file gate)"
  proof (cases "ng_done gate")
    case True
    then show ?thesis using assms by (auto simp: push_state_def listed_state_def push_guarded_def)
  next
    case False
    then obtain ps where "list_all push_item ps" "ng_commands gate = push_bytes ps" "prefix (push_bytes ps) (src_data src)"
      "ng_commands gate = out @ ng_ready gate"
      using assms by (auto simp: push_state_def listed_state_def)
    then show ?thesis unfolding push_guarded_def by (metis prefixI)
  qed
qed

lemma ng_drain_guarded:
  "ng_drain check ns gate = (gate', out', err) \<Longrightarrow> push_state check src out gate \<Longrightarrow>
   prefix (out @ out') (src_data src) \<and> push_guarded check src (out @ out') (ng_file gate')"
proof (induction ns arbitrary: gate out out')
  case Nil
  then show ?case using push_state_guarded by simp
next
  case (Cons n ns)
  obtain g1 got e1 where r: "ng_Read check n gate = (g1, got, e1)" by (cases "ng_Read check n gate")
  note S = ng_Read_state [OF r Cons.prems(2)]
  show ?case
  proof (cases e1)
    case None
    then obtain out2 where d: "ng_drain check ns g1 = (gate', out2, err)" "out' = got @ out2"
      using Cons.prems(1) r by (auto split: prod.splits)
    have "push_state check src (out @ got) g1" using S None by simp
    from Cons.IH [OF d(1) this] show ?thesis using d(2) by simp
  next
    case (Some e)
    then have d: "gate' = g1" "out' = got" using Cons.prems(1) r by auto
    from S show ?thesis
    proof
      assume "push_state check src (out @ got) g1"
      then show ?thesis using push_state_guarded d by blast
    next
      assume "e1 \<noteq> None \<and> got = [] \<and> ng_file g1 = ng_file gate"
      then show ?thesis using push_state_guarded [OF Cons.prems(2)] d by simp
    qed
  qed
qed


lemma new_push_gate_state: "push_state check src [] (new_push_gate src)"
  unfolding push_state_def listed_state_def by (auto simp: new_push_gate_def push_bytes_def intro!: exI [of _ "[]"])

text \<open>C24. A push reaches Git unchanged, and never ahead of its name check: after any sequence of
  reads what Git got is the beginning of the request, and either it is still inside the
  command list, of which Git has whole packets and no flush yet, or the hook's file was
  removed, so that the hook refuses every reference, or the request ended before its flush,
  or the file is what the check wrote for exactly all the updates before the flush.\<close>

theorem push_gate_guards:
  assumes "ng_drain check ns (new_push_gate src) = (gate, out, err)"
  shows "prefix out (src_data src) \<and> push_guarded check src out (ng_file gate)"
  using ng_drain_guarded [OF assms new_push_gate_state] by simp

definition sample_push_line :: bytes where
  "sample_push_line = replicate 40 (CHR ''0'') @ '' '' @ replicate 40 (CHR ''a'') @ '' refs/heads/topic'' @
     [CHR 0x00] @ '' report-status''"

definition sample_push :: byte_source where
  "sample_push = \<lparr>src_data = pkt_line sample_push_line @ ''0000PACK'', src_end = EOF\<rparr>"

text \<open>A check that lists every update.\<close>

definition list_all_names :: push_check where
  "list_all_names updates = Some (concat (map (\<lambda>u. pc_name u @ [CHR 0x0A]) updates))"

lemma sample_push_run:
  "ng_drain list_all_names [200, 200, 200] (new_push_gate sample_push) =
     (\<lparr>ng_source = \<lparr>src_data = [], src_end = EOF\<rparr>, ng_commands = pkt_line sample_push_line @ ''0000'',
        ng_updates = [\<lparr>pc_name = ''refs/heads/topic'', pc_deletes = False\<rparr>], ng_ready = [], ng_done = True,
        ng_file = Some (''refs/heads/topic'' @ [CHR 0x0A])\<rparr>,
      pkt_line sample_push_line @ ''0000PACK'', None)"
  by code_simp

theorem push_gate_guards_witness:
  "push_guarded list_all_names sample_push (pkt_line sample_push_line @ ''0000PACK'') (Some (''refs/heads/topic'' @ [CHR 0x0A]))"
  using push_gate_guards [OF sample_push_run] by simp

end
