(* ===== verification/PushNames.thy ===== *)
theory PushNames
  imports PushGate FetchServe
begin

text \<open>
  Which references of a push the update hook refuses (\<open>writeNameConflicts\<close> of
  \<open>internal/githttp/push_commands.go\<close>), and what is safe about the ones it lets through: no
  written name can be another name's file or folder, and the default branch keeps its spelling.
\<close>

subsection \<open>The list of refused references\<close>

definition refname_args :: "bytes list" where
  "refname_args = in_dir [''for-each-ref'', ''--format=%(refname)'']"

definition symbolic_args :: "bytes list" where
  "symbolic_args = in_dir [''symbolic-ref'', ''--quiet'', ''HEAD'']"

definition pack_args :: "bytes list" where
  "pack_args = in_dir [''pack-refs'', ''--all'']"

text \<open>Whether a conflicting update is the deletion that removes one of two look-alikes.\<close>

definition look_alike_deletion ::
    "(bytes \<Rightarrow> 'k) \<Rightarrow> bytes list \<Rightarrow> bytes \<Rightarrow> pushCommand \<Rightarrow> bool" where
  "look_alike_deletion key present defaultBranch update \<longleftrightarrow>
     pc_deletes update \<and> pc_name update \<in> set present \<and> pc_name update \<noteq> defaultBranch \<and>
     (defaultBranch \<in> set present \<or> key (pc_name update) \<noteq> key defaultBranch)"

fun refuse_updates ::
    "(bytes \<Rightarrow> 'k) \<Rightarrow> bytes set \<Rightarrow> bytes list \<Rightarrow> bytes \<Rightarrow> pushCommand list \<Rightarrow> bytes \<times> bool \<Rightarrow> bytes \<times> bool" where
  "refuse_updates key conflicts present defaultBranch [] (refused, pack) = (refused, pack)"
| "refuse_updates key conflicts present defaultBranch (u # us) (refused, pack) =
     refuse_updates key conflicts present defaultBranch us
       (if pc_name u \<notin> conflicts then (refused, pack)
        else if look_alike_deletion key present defaultBranch u then (refused, True)
        else (refused @ pc_name u @ LF, pack))"

text \<open>
  The content of the hook's file and whether Git packed the references before; \<open>None\<close> is an
  error, after which the file is not written. Without updates nothing is written and the file
  stays empty.
\<close>

definition writeNameConflicts :: "(bytes \<Rightarrow> 'k) \<Rightarrow> git \<Rightarrow> pushCommand list \<Rightarrow> (bytes \<times> bool) option" where
  "writeNameConflicts key git updates =
     (if updates = [] then Some ([], False)
      else case git refname_args [] of
        GitOut out \<Rightarrow>
          (let present = split_on (CHR 0x0A) (trim_suffix LF out);
               (defaultBranch, existing) = (case git symbolic_args [] of
                  GitOut head \<Rightarrow> (TrimSpace head, present @ [TrimSpace head])
                | _ \<Rightarrow> ([], present));
               conflicts = RefNameConflicts key existing (map pc_name updates);
               (refused, pack) = refuse_updates key conflicts present defaultBranch updates ([], False)
           in if pack then (case git pack_args [] of GitOut _ \<Rightarrow> Some (refused, pack) | _ \<Rightarrow> None)
              else Some (refused, pack))
      | _ \<Rightarrow> None)"

subsection \<open>What is refused\<close>

definition refused_update :: "(bytes \<Rightarrow> 'k) \<Rightarrow> bytes set \<Rightarrow> bytes list \<Rightarrow> bytes \<Rightarrow> pushCommand \<Rightarrow> bool" where
  "refused_update key conflicts present defaultBranch u \<longleftrightarrow>
     pc_name u \<in> conflicts \<and> \<not> look_alike_deletion key present defaultBranch u"

lemma refuse_updates_spec:
  "refuse_updates key conflicts present defaultBranch us (refused, pack) =
     (refused @ lines_of (map pc_name (filter (refused_update key conflicts present defaultBranch) us)),
      pack \<or> (\<exists>u \<in> set us. pc_name u \<in> conflicts \<and> look_alike_deletion key present defaultBranch u))"
  by (induction us arbitrary: refused pack) (auto simp: refused_update_def)

text \<open>
  Git as documented, with the names of the references and the branch that HEAD names. A detached HEAD has no
  branch; the code reads the name without the spaces around it. In an empty repository the list is empty and the
  code reads it as one empty name.
\<close>

definition push_git :: "git \<Rightarrow> bytes list \<Rightarrow> bytes option \<Rightarrow> bool" where
  "push_git git refs head \<longleftrightarrow> (\<forall>r \<in> set refs. CHR 0x0A \<notin> set r) \<and>
     git refname_args [] = GitOut (lines_of refs) \<and>
     (case head of
        None \<Rightarrow> (\<forall>out. git symbolic_args [] \<noteq> GitOut out)
      | Some h \<Rightarrow> \<exists>out. git symbolic_args [] = GitOut out \<and> TrimSpace out = h)"

definition listed :: "bytes list \<Rightarrow> bytes list" where
  "listed refs = (if refs = [] then [[]] else refs)"

definition names_in_use :: "bytes list \<Rightarrow> bytes option \<Rightarrow> pushCommand list \<Rightarrow> bytes set" where
  "names_in_use refs head updates = set refs \<union> set_option head \<union> pc_name ` set updates"

text \<open>Two names that some file system may store as one file, or one inside the other's folder.\<close>

definition look_alike :: "(bytes \<Rightarrow> 'k) \<Rightarrow> bytes \<Rightarrow> bytes \<Rightarrow> bool" where
  "look_alike key a b \<longleftrightarrow>
     (\<exists>l \<in> set (refNameLevels a). \<exists>l' \<in> set (refNameLevels b). key l = key l' \<and> l \<noteq> l')"

definition head_name :: "bytes option \<Rightarrow> bytes" where
  "head_name head = (case head of None \<Rightarrow> [] | Some h \<Rightarrow> h)"

lemma listed_lines:
  assumes "push_git git refs head" shows "split_on (CHR 0x0A) (trim_suffix LF (lines_of refs)) = listed refs"
proof (cases "refs = []")
  case True
  then show ?thesis by (simp add: listed_def trim_suffix_def cut_suffix_def LF_def)
next
  case False
  then show ?thesis using assms trim_lines_of [of refs] by (simp add: listed_def push_git_def)
qed

lemma writeNameConflicts_spec:
  assumes "push_git git refs head" and "updates \<noteq> []" and "writeNameConflicts key git updates = Some (content, pack)"
  shows "\<exists>conflicts. content = lines_of (map pc_name (filter (refused_update key conflicts (listed refs) (head_name head)) updates)) \<and>
    (\<forall>name. name \<in> conflicts \<longleftrightarrow>
       name \<in> pc_name ` set updates \<and> (\<exists>r \<in> names_in_use (listed refs) head updates. look_alike key name r))"
proof -
  let ?existing = "listed refs @ (case head of None \<Rightarrow> [] | Some h \<Rightarrow> [h])"
  let ?conflicts = "RefNameConflicts key ?existing (map pc_name updates)"
  have "(case git symbolic_args [] of GitOut out \<Rightarrow> (TrimSpace out, listed refs @ [TrimSpace out]) | _ \<Rightarrow> ([], listed refs)) =
      (head_name head, ?existing)"
    using assms(1) by (cases head; cases "git symbolic_args []") (auto simp: push_git_def head_name_def)
  then have "writeNameConflicts key git updates =
      (let (refused, pack) = refuse_updates key ?conflicts (listed refs) (head_name head) updates ([], False)
       in if pack then (case git pack_args [] of GitOut _ \<Rightarrow> Some (refused, pack) | _ \<Rightarrow> None) else Some (refused, pack))"
    using assms(1,2) by (simp add: writeNameConflicts_def push_git_def listed_lines [OF assms(1)] Let_def)
  then have "content = lines_of (map pc_name (filter (refused_update key ?conflicts (listed refs) (head_name head)) updates))"
    using assms(3) by (auto simp: refuse_updates_spec Let_def split: if_splits git_answer.splits)
  moreover have "set (?existing @ map pc_name updates) = names_in_use (listed refs) head updates"
    by (auto simp: names_in_use_def split: option.splits)
  then have "name \<in> ?conflicts \<longleftrightarrow> name \<in> pc_name ` set updates \<and> (\<exists>r \<in> names_in_use (listed refs) head updates. look_alike key name r)"
    for name
    unfolding RefNameConflicts_iff look_alike_def by (simp only: set_map) metis
  ultimately show ?thesis by blast
qed

text \<open>The names the hook refuses: the lines of the file.\<close>

definition hook_refuses :: "bytes \<Rightarrow> bytes \<Rightarrow> bool" where
  "hook_refuses content name \<longleftrightarrow> name \<in> set (split_on (CHR 0x0A) content)"

lemma hook_refuses_lines:
  assumes "name \<in> set xs" and "CHR 0x0A \<notin> set name"
  shows "hook_refuses (lines_of xs) name"
proof -
  have two: "split_on c (v @ c # t) = split_on c v @ split_on c t" for c :: char and v t
    by (induction v) (auto split: list.splits)
  show ?thesis
    using assms by (induction xs) (auto simp: hook_refuses_def LF_def two split_on_no_sep)
qed

text \<open>An update that the gate read has a name.\<close>

lemma push_updates_named:
  assumes "push_updates ps us = Inr vs" and "\<forall>u \<in> set us. pc_name u \<noteq> []"
  shows "\<forall>v \<in> set vs. pc_name v \<noteq> []"
  using assms
proof (induction ps arbitrary: us)
  case (Cons p ps)
  obtain us' where us': "push_line (snd p) us = Inr us'" "push_updates ps us' = Inr vs"
    using Cons.prems(1) by (auto simp: bindE_def split: sum.splits)
  have "\<forall>u \<in> set us'. pc_name u \<noteq> []"
    using us'(1) Cons.prems(2) by (auto simp: push_line_def split: prod.splits option.splits if_splits)
  then show ?case using Cons.IH us'(2) by blast
qed simp

lemma self_level: "name \<in> set (refNameLevels name)"
  by (simp add: refNameLevels_def)

text \<open>C23. Every update the gate reads and the hook lets through is safe on file systems that fold names, in a
  repository with references or without: its name and its folders look like no other name or folder of the
  repository, of the branch HEAD names and of the push itself, or it only deletes a reference that exists under
  exactly that name, which is not the default branch; and while the default branch does not exist under
  its own name, no spelling of it is deleted. (The file has a name on a line, so that the name must have no line
  end, which Git takes in no reference name.)\<close>

theorem push_names_safe:
  assumes "push_git git refs head" and "push_updates ps [] = Inr updates"
    and "writeNameConflicts key git updates = Some (content, pack)"
    and "u \<in> set updates" and "CHR 0x0A \<notin> set (pc_name u)" and "\<not> hook_refuses content (pc_name u)"
  shows "(\<forall>r \<in> names_in_use refs head updates. \<not> look_alike key (pc_name u) r) \<or>
    (pc_deletes u \<and> pc_name u \<in> set refs \<and> pc_name u \<noteq> head_name head \<and>
     (key (pc_name u) = key (head_name head) \<longrightarrow> head_name head \<in> set refs))"
proof -
  have "updates \<noteq> []" using assms(4) by auto
  from writeNameConflicts_spec [OF assms(1) this assms(3)] obtain conflicts
    where c: "content = lines_of (map pc_name (filter (refused_update key conflicts (listed refs) (head_name head)) updates))"
      and m: "\<And>name. name \<in> conflicts \<longleftrightarrow>
        name \<in> pc_name ` set updates \<and> (\<exists>r \<in> names_in_use (listed refs) head updates. look_alike key name r)"
    by blast
  have "pc_name u \<notin> set (map pc_name (filter (refused_update key conflicts (listed refs) (head_name head)) updates))"
    using hook_refuses_lines assms(5,6) unfolding c by blast
  then have kept: "\<not> refused_update key conflicts (listed refs) (head_name head) u" using assms(4) by auto
  have named: "pc_name u \<noteq> []" using push_updates_named [OF assms(2)] assms(4) by simp
  have sub: "names_in_use refs head updates \<subseteq> names_in_use (listed refs) head updates"
    by (auto simp: names_in_use_def listed_def)
  show ?thesis
  proof (cases "pc_name u \<in> conflicts")
    case True
    then have "look_alike_deletion key (listed refs) (head_name head) u" using kept by (simp add: refused_update_def)
    moreover from this have "refs \<noteq> []" using named by (auto simp: look_alike_deletion_def listed_def)
    ultimately show ?thesis by (auto simp: look_alike_deletion_def listed_def)
  next
    case False
    then show ?thesis using m assms(4) sub by blast
  qed
qed

text \<open>A push of two branches, with HEAD on the branch \<open>main\<close>, which exists or not.\<close>

definition sample_push_git :: "bytes list \<Rightarrow> git" where
  "sample_push_git refs args stdin =
     (if args = refname_args then GitOut (lines_of refs)
      else if args = symbolic_args then GitOut (''refs/heads/main'' @ LF) else GitOut [])"

lemma sample_push_git_ok: "(\<forall>r \<in> set refs. CHR 0x0A \<notin> set r) \<Longrightarrow> push_git (sample_push_git refs) refs (Some ''refs/heads/main'')"
proof -
  have "TrimSpace (''refs/heads/main'' @ LF) = ''refs/heads/main''" by code_simp
  moreover have "symbolic_args \<noteq> refname_args" by (simp add: symbolic_args_def refname_args_def in_dir_def)
  moreover assume "\<forall>r \<in> set refs. CHR 0x0A \<notin> set r"
  ultimately show ?thesis by (simp add: push_git_def sample_push_git_def)
qed

definition sample_updates :: "pushCommand list" where
  "sample_updates = [\<lparr>pc_name = ''refs/heads/topic'', pc_deletes = False\<rparr>, \<lparr>pc_name = ''refs/heads/Main'', pc_deletes = False\<rparr>]"

definition sample_push_packets :: "(bytes \<times> bytes) list" where
  "sample_push_packets = map (\<lambda>name. ([], replicate 40 (CHR ''0'') @ '' '' @ replicate 40 (CHR ''a'') @ '' '' @ name))
     [''refs/heads/topic'', ''refs/heads/Main'']"

text \<open>A key that folds one letter.\<close>

definition fold_M :: "bytes \<Rightarrow> bytes" where
  "fold_M = map (\<lambda>c. if c = CHR ''M'' then CHR ''m'' else c)"

theorem push_names_safe_witness:
  "\<not> look_alike fold_M ''refs/heads/topic'' ''refs/heads/main'' \<and>
   writeNameConflicts fold_M (sample_push_git []) sample_updates = Some (''refs/heads/Main'' @ LF, False) \<and>
   writeNameConflicts fold_M (sample_push_git [''refs/heads/main'']) sample_updates = Some (''refs/heads/Main'' @ LF, False)"
proof -
  have w: "writeNameConflicts fold_M (sample_push_git []) sample_updates = Some (''refs/heads/Main'' @ LF, False)"
    "writeNameConflicts fold_M (sample_push_git [''refs/heads/main'']) sample_updates = Some (''refs/heads/Main'' @ LF, False)"
    by code_simp+
  have read: "push_updates sample_push_packets [] = Inr sample_updates" by code_simp
  let ?u = "\<lparr>pc_name = ''refs/heads/topic'', pc_deletes = False\<rparr>"
  have git: "push_git (sample_push_git []) [] (Some ''refs/heads/main'')" by (rule sample_push_git_ok) simp
  have "\<not> hook_refuses (''refs/heads/Main'' @ LF) (pc_name ?u)" "CHR 0x0A \<notin> set (pc_name ?u)" by code_simp+
  moreover have "?u \<in> set sample_updates" by (simp add: sample_updates_def)
  ultimately have "(\<forall>r \<in> names_in_use [] (Some ''refs/heads/main'') sample_updates.
      \<not> look_alike fold_M (pc_name ?u) r) \<or> pc_deletes ?u"
    using push_names_safe [OF git read w(1), of ?u] by blast
  moreover have "''refs/heads/main'' \<in> names_in_use [] (Some ''refs/heads/main'') sample_updates"
    by (simp add: names_in_use_def)
  ultimately show ?thesis using w by simp
qed

end
