(* ===== verification/Admission.thy ===== *)
theory Admission
  imports Prelude
begin

text \<open>
  The slots of Git transfers: \<open>hostmem/gate.go\<close>, the gate every Git process that uses memory
  passes, and \<open>githttp/admission.go\<close>, the limits of concurrent transfers in front of it. Each
  critical section of the code is one function on the state; a channel that is closed and
  replaced is the number of its replacements, so a goroutine that holds the number \<open>k\<close> is woken
  once the current number is above \<open>k\<close>. The callers are a step function over these sections.
\<close>

subsection \<open>The memory gate\<close>

record Gate =
  g_limit :: int
  g_used :: int
  g_waiting :: int
  g_changed :: nat

definition NewGate :: "int \<Rightarrow> Gate" where
  "NewGate limit = \<lparr>g_limit = max limit 1, g_used = 0, g_waiting = 0, g_changed = 0\<rparr>"

definition wake :: "Gate \<Rightarrow> Gate" where
  "wake g = g\<lparr>g_changed := g_changed g + 1\<rparr>"

text \<open>\<open>None\<close> is a slot; otherwise the channel to wait for.\<close>

definition TryAcquire :: "Gate \<Rightarrow> Gate \<times> nat option" where
  "TryAcquire g =
     (if g_used g < g_limit g \<and> g_waiting g = 0 then (g\<lparr>g_used := g_used g + 1\<rparr>, None)
      else (g, Some (g_changed g)))"

definition TryAcquireBackground :: "Gate \<Rightarrow> Gate \<times> bool" where
  "TryAcquireBackground g =
     (if g_used g \<ge> g_limit g then (g, False) else (g\<lparr>g_used := g_used g + 1\<rparr>, True))"

text \<open>\<open>Acquire\<close> in its critical sections: the entry, one turn of the loop with what follows it,
  and the branch of an ended context.\<close>

definition acquire_enter :: "Gate \<Rightarrow> Gate" where
  "acquire_enter g = g\<lparr>g_waiting := g_waiting g + 1\<rparr>"

definition acquire_turn :: "Gate \<Rightarrow> Gate \<times> nat option" where
  "acquire_turn g =
     (if g_used g \<ge> g_limit g then (g, Some (g_changed g))
      else let g1 = g\<lparr>g_waiting := g_waiting g - 1, g_used := g_used g + 1\<rparr> in
        (if g_used g1 < g_limit g1 then wake g1 else g1, None))"

definition acquire_ended :: "Gate \<Rightarrow> Gate" where
  "acquire_ended g = wake (g\<lparr>g_waiting := g_waiting g - 1\<rparr>)"

definition gate_release :: "Gate \<Rightarrow> Gate" where
  "gate_release g = wake (g\<lparr>g_used := g_used g - 1\<rparr>)"

definition GateWaiting :: "Gate \<Rightarrow> int" where
  "GateWaiting g = g_waiting g"

subsection \<open>The transfer slots\<close>

text \<open>The limits that decide about a slot; \<open>tl_Memory\<close> says whether the pointer to the shared
  gate is set.\<close>

record transferLimits =
  tl_PerRepository :: int
  tl_ExtraSlots :: int
  tl_PackSlots :: int
  tl_Memory :: bool

record admission =
  a_perRepository :: int
  a_extra :: int
  a_packSlots :: int
  a_packing :: int
  a_active :: int
  a_byRepository :: "bytes \<rightharpoonup> int"
  a_changed :: nat

definition newAdmission :: admission where
  "newAdmission = \<lparr>a_perRepository = 0, a_extra = 0, a_packSlots = 0, a_packing = 0, a_active = 0,
     a_byRepository = Map.empty, a_changed = 0\<rparr>"

text \<open>Reading a Go map gives zero for a missing key.\<close>

definition running_in :: "admission \<Rightarrow> bytes \<Rightarrow> int" where
  "running_in a r = (case a_byRepository a r of None \<Rightarrow> 0 | Some n \<Rightarrow> n)"

definition admits_transfer :: "admission \<Rightarrow> bytes \<Rightarrow> bool \<Rightarrow> bool" where
  "admits_transfer a r packs =
     (let running = running_in a r in
      if running \<ge> a_perRepository a \<or> (packs \<and> a_packSlots a > 0 \<and> a_packing a \<ge> a_packSlots a) then False
      else a_active a < a_perRepository a \<or> (running = 0 \<and> a_active a < a_perRepository a + a_extra a))"

definition admitsMemory :: "bool \<Rightarrow> Gate \<Rightarrow> Gate \<times> bool \<times> nat option" where
  "admitsMemory memory g =
     (if \<not> memory then (g, True, None)
      else case TryAcquire g of (g', changed) \<Rightarrow> (g', changed = None, changed))"

definition wakeLocked :: "admission \<Rightarrow> admission" where
  "wakeLocked a = a\<lparr>a_changed := a_changed a + 1\<rparr>"

definition take_limits :: "transferLimits \<Rightarrow> admission \<Rightarrow> admission" where
  "take_limits L a =
     (if a_perRepository a \<noteq> tl_PerRepository L \<or> a_extra a \<noteq> tl_ExtraSlots L \<or> a_packSlots a \<noteq> tl_PackSlots L
      then wakeLocked (a\<lparr>a_perRepository := tl_PerRepository L, a_extra := tl_ExtraSlots L,
        a_packSlots := tl_PackSlots L\<rparr>)
      else a)"

definition take_slot :: "bytes \<Rightarrow> bool \<Rightarrow> admission \<Rightarrow> admission" where
  "take_slot r packs a =
     (let a1 = a\<lparr>a_active := a_active a + 1,
        a_byRepository := (a_byRepository a)(r \<mapsto> running_in a r + 1)\<rparr> in
      if packs then a1\<lparr>a_packing := a_packing a1 + 1\<rparr> else a1)"

text \<open>One turn of the loop of \<open>acquireFor\<close>: whether the request starts, and otherwise the two
  channels its \<open>select\<close> waits for; the memory gate's is nil when the slots refused already.\<close>

definition acquire_for_turn ::
    "bytes \<Rightarrow> bool \<Rightarrow> transferLimits \<Rightarrow> admission \<times> Gate \<Rightarrow> (admission \<times> Gate) \<times> (nat \<times> nat option) option" where
  "acquire_for_turn r packs L ag =
     (case ag of (a, g) \<Rightarrow>
      (case (if \<not> admits_transfer a r packs then (g, False, None) else admitsMemory (tl_Memory L) g) of
        (g', gated, memoryChanged) \<Rightarrow>
          if gated then ((take_slot r packs a, g'), None)
          else ((a, g'), Some (a_changed a, memoryChanged))))"

definition release_slot :: "bytes \<Rightarrow> bool \<Rightarrow> admission \<Rightarrow> admission" where
  "release_slot r packs a =
     (let a1 = a\<lparr>a_active := a_active a - 1\<rparr>;
        a2 = (if packs then a1\<lparr>a_packing := a_packing a1 - 1\<rparr> else a1);
        left = running_in a2 r - 1;
        a3 = a2\<lparr>a_byRepository := (if left = 0 then (a_byRepository a2)(r := None)
          else (a_byRepository a2)(r \<mapsto> left))\<rparr> in
      wakeLocked a3)"

subsection \<open>The callers\<close>

text \<open>Where a caller stands: a transfer between two turns of its loop, in its \<open>select\<close> with the
  channels it took, running, or between the two releases of its release function; a background
  job likewise. \<open>errBusy\<close> is the end of the queue wait.\<close>

datatype transfer_phase =
    Outside
  | Asking bytes bool transferLimits
  | Asleep bytes bool transferLimits nat "nat option"
  | Running bytes bool bool
  | GivingBack bool
  | JobAsking
  | JobAsleep nat
  | JobRunning

datatype slot_refusal = errBusy | ctxErr

datatype slot_event =
    Ask bytes bool transferLimits | Turn | Woken | Refuse slot_refusal | ReleaseSlot | GiveBack
  | JobEnter | JobTry | JobTurn | JobWoken | JobEnded | JobRelease

record slotSystem =
  ss_admission :: admission
  ss_gate :: Gate
  ss_callers :: "nat \<Rightarrow> transfer_phase"

text \<open>What an event of a caller does; \<open>None\<close> when it cannot happen. A timer or a context may end
  whenever the caller sleeps.\<close>

fun transfer_turn :: "admission \<Rightarrow> Gate \<Rightarrow> transfer_phase \<Rightarrow> (admission \<times> Gate \<times> transfer_phase) option" where
  "transfer_turn a g (Asking r packs L) =
     (case acquire_for_turn r packs L (a, g) of
       ((a', g'), None) \<Rightarrow> Some (a', g', Running r packs (tl_Memory L))
     | ((a', g'), Some (changed, memoryChanged)) \<Rightarrow> Some (a', g', Asleep r packs L changed memoryChanged))"
| "transfer_turn a g _ = None"

fun transfer_woken :: "admission \<Rightarrow> Gate \<Rightarrow> transfer_phase \<Rightarrow> (admission \<times> Gate \<times> transfer_phase) option" where
  "transfer_woken a g (Asleep r packs L changed memoryChanged) =
     (if changed < a_changed a \<or> (case memoryChanged of None \<Rightarrow> False | Some k \<Rightarrow> k < g_changed g)
      then Some (a, g, Asking r packs L) else None)"
| "transfer_woken a g _ = None"

fun job_turn :: "admission \<Rightarrow> Gate \<Rightarrow> transfer_phase \<Rightarrow> (admission \<times> Gate \<times> transfer_phase) option" where
  "job_turn a g JobAsking =
     (case acquire_turn g of (g', None) \<Rightarrow> Some (a, g', JobRunning) | (g', Some k) \<Rightarrow> Some (a, g', JobAsleep k))"
| "job_turn a g _ = None"

definition caller_step ::
    "admission \<Rightarrow> Gate \<Rightarrow> transfer_phase \<Rightarrow> slot_event \<Rightarrow> (admission \<times> Gate \<times> transfer_phase) option" where
  "caller_step a g p e = (case e of
     Ask r packs L \<Rightarrow> if p = Outside then Some (take_limits L a, g, Asking r packs L) else None
   | Turn \<Rightarrow> transfer_turn a g p
   | Woken \<Rightarrow> transfer_woken a g p
   | Refuse why \<Rightarrow> (case p of Asleep _ _ _ _ _ \<Rightarrow> Some (a, g, Outside) | _ \<Rightarrow> None)
   | ReleaseSlot \<Rightarrow> (case p of Running r packs memory \<Rightarrow> Some (release_slot r packs a, g, GivingBack memory) | _ \<Rightarrow> None)
   | GiveBack \<Rightarrow> (case p of GivingBack memory \<Rightarrow> Some (a, if memory then gate_release g else g, Outside) | _ \<Rightarrow> None)
   | JobEnter \<Rightarrow> if p = Outside then Some (a, acquire_enter g, JobAsking) else None
   | JobTry \<Rightarrow> if p = Outside
       then (case TryAcquireBackground g of (g', ok) \<Rightarrow> Some (a, g', if ok then JobRunning else Outside)) else None
   | JobTurn \<Rightarrow> job_turn a g p
   | JobWoken \<Rightarrow> (case p of JobAsleep k \<Rightarrow> if k < g_changed g then Some (a, g, JobAsking) else None | _ \<Rightarrow> None)
   | JobEnded \<Rightarrow> (case p of JobAsleep k \<Rightarrow> Some (a, acquire_ended g, Outside) | _ \<Rightarrow> None)
   | JobRelease \<Rightarrow> if p = JobRunning then Some (a, gate_release g, Outside) else None)"

text \<open>A step of the system, with the limits the requests of a run bring.\<close>

inductive slot_step :: "(transferLimits \<Rightarrow> bool) \<Rightarrow> slotSystem \<Rightarrow> slotSystem \<Rightarrow> bool"
  for brought :: "transferLimits \<Rightarrow> bool" where
  slot_stepI: "caller_step (ss_admission s) (ss_gate s) (ss_callers s c) e = Some (a, g, p) \<Longrightarrow>
    (\<And>r packs L. e = Ask r packs L \<Longrightarrow> brought L) \<Longrightarrow>
    slot_step brought s \<lparr>ss_admission = a, ss_gate = g, ss_callers = (ss_callers s)(c := p)\<rparr>"

definition slot_init :: "int \<Rightarrow> slotSystem \<Rightarrow> bool" where
  "slot_init limit s \<longleftrightarrow> ss_admission s = newAdmission \<and> ss_gate s = NewGate limit \<and> ss_callers s = (\<lambda>c. Outside)"


subsection \<open>The contracts of the gate and of the slots\<close>

inductive gate_op :: "Gate \<Rightarrow> Gate \<Rightarrow> bool" where
  "gate_op g g"
| "gate_op g (fst (TryAcquire g))"
| "gate_op g (fst (TryAcquireBackground g))"
| "gate_op g (acquire_enter g)"
| "gate_op g (fst (acquire_turn g))"
| "gate_op g (acquire_ended g)"
| "gate_op g (gate_release g)"

inductive admission_op :: "admission \<Rightarrow> admission \<Rightarrow> bool" where
  "admission_op a a"
| "admission_op a (take_limits L a)"
| "admission_op a (take_slot r packs a)"
| "admission_op a (release_slot r packs a)"

definition free_for_transfer :: "unit \<Rightarrow> Gate \<Rightarrow> bool" where
  "free_for_transfer u g \<longleftrightarrow> g_used g < g_limit g \<and> g_waiting g = 0"

definition free_for_job :: "unit \<Rightarrow> Gate \<Rightarrow> bool" where
  "free_for_job u g \<longleftrightarrow> g_used g < g_limit g"

definition admits_request :: "bytes \<times> bool \<Rightarrow> admission \<Rightarrow> bool" where
  "admits_request request a = admits_transfer a (fst request) (snd request)"

lemmas gate_defs = TryAcquire_def TryAcquireBackground_def acquire_enter_def acquire_turn_def acquire_ended_def
  gate_release_def wake_def

lemma running_in_take [simp]: "running_in (take_slot r packs a) r' = running_in a r' + of_bool (r' = r)"
  by (simp add: take_slot_def running_in_def Let_def)

lemma running_in_release [simp]: "running_in (release_slot r packs a) r' = running_in a r' - of_bool (r' = r)"
  by (auto simp: release_slot_def running_in_def wakeLocked_def Let_def split: option.split)

lemma running_in_limits [simp]: "running_in (take_limits L a) r = running_in a r"
  by (simp add: take_limits_def wakeLocked_def running_in_def)

lemma slot_fields [simp]:
  "a_active (take_slot r packs a) = a_active a + 1" "a_packing (take_slot r packs a) = a_packing a + of_bool packs"
  "a_changed (take_slot r packs a) = a_changed a" "a_perRepository (take_slot r packs a) = a_perRepository a"
  "a_extra (take_slot r packs a) = a_extra a" "a_packSlots (take_slot r packs a) = a_packSlots a"
  "a_active (release_slot r packs a) = a_active a - 1" "a_packing (release_slot r packs a) = a_packing a - of_bool packs"
  "a_changed (release_slot r packs a) = a_changed a + 1" "a_perRepository (release_slot r packs a) = a_perRepository a"
  "a_extra (release_slot r packs a) = a_extra a" "a_packSlots (release_slot r packs a) = a_packSlots a"
  "a_active (take_limits L a) = a_active a" "a_packing (take_limits L a) = a_packing a"
  "a_perRepository (take_limits L a) = tl_PerRepository L" "a_extra (take_limits L a) = tl_ExtraSlots L"
  "a_packSlots (take_limits L a) = tl_PackSlots L"
  by (simp_all add: take_slot_def release_slot_def take_limits_def wakeLocked_def Let_def)

interpretation memory_transfers: wakeup "\<lambda>g. 0 \<le> g_waiting g" gate_op g_changed free_for_transfer
  by unfold_locales (auto simp: gate_op.simps free_for_transfer_def gate_defs Let_def split: if_splits)

interpretation memory_jobs: wakeup "\<lambda>g. True" gate_op g_changed free_for_job
  by unfold_locales (auto simp: gate_op.simps free_for_job_def gate_defs Let_def split: if_splits)

lemma admits_before_take:
  assumes "\<forall>r. 0 \<le> running_in a r" and "0 \<le> a_packing a" and "admits_transfer (take_slot r packs a) r' packs'"
  shows "admits_transfer a r' packs'"
  using assms(3) spec [OF assms(1), of r'] assms(2)
  by (cases "r' = r"; cases packs) (auto simp: admits_transfer_def Let_def split: if_splits)

lemma take_limits_same: "a_changed (take_limits L a) = a_changed a \<Longrightarrow> take_limits L a = a"
  by (auto simp: take_limits_def wakeLocked_def split: if_splits)

interpretation transfer_slots: wakeup "\<lambda>a. (\<forall>r. 0 \<le> running_in a r) \<and> 0 \<le> a_packing a" admission_op a_changed admits_request
proof
  show "a_changed s \<le> a_changed t" if "admission_op s t" for s t
    using that by (auto simp: admission_op.simps take_limits_def wakeLocked_def)
  show "admits_request k s" if "(\<forall>r. 0 \<le> running_in s r) \<and> 0 \<le> a_packing s" "admission_op s t"
    "a_changed t = a_changed s" "admits_request k t" for s t k
    using that(2) that(1,3,4)
    by cases (auto simp: admits_request_def dest: take_limits_same admits_before_take)
qed

subsection \<open>The counters count the callers\<close>

fun in_slot :: "transfer_phase \<Rightarrow> bool" where
  "in_slot (Running r packs memory) = True" | "in_slot _ = False"

fun in_repository :: "bytes \<Rightarrow> transfer_phase \<Rightarrow> bool" where
  "in_repository r (Running r' packs memory) = (r' = r)" | "in_repository r _ = False"

fun in_packing :: "transfer_phase \<Rightarrow> bool" where
  "in_packing (Running r packs memory) = packs" | "in_packing _ = False"

fun in_memory :: "transfer_phase \<Rightarrow> bool" where
  "in_memory (Running r packs memory) = memory"
| "in_memory (GivingBack memory) = memory"
| "in_memory JobRunning = True"
| "in_memory _ = False"

fun job_waits :: "transfer_phase \<Rightarrow> bool" where
  "job_waits JobAsking = True" | "job_waits (JobAsleep k) = True" | "job_waits _ = False"

definition counted :: "admission \<Rightarrow> Gate \<Rightarrow> (nat \<Rightarrow> transfer_phase) \<Rightarrow> bool" where
  "counted a g ps \<longleftrightarrow> finite {c. ps c \<noteq> Outside} \<and>
     a_active a = int (holders in_slot ps) \<and> a_packing a = int (holders in_packing ps) \<and>
     (\<forall>r. running_in a r = int (holders (in_repository r) ps)) \<and>
     g_used g = int (holders in_memory ps) \<and> g_waiting g = int (holders job_waits ps)"

lemma counted_nonneg:
  assumes "counted a g ps"
  shows "(\<forall>r. 0 \<le> running_in a r) \<and> 0 \<le> a_packing a" "0 \<le> a_active a" "0 \<le> g_used g" "0 \<le> g_waiting g"
  using assms by (auto simp: counted_def)

lemma counted_change:
  assumes "counted a g ps"
    and "a_active a' = a_active a - of_bool (in_slot (ps c)) + of_bool (in_slot p)"
    and "a_packing a' = a_packing a - of_bool (in_packing (ps c)) + of_bool (in_packing p)"
    and "\<And>r. running_in a' r = running_in a r - of_bool (in_repository r (ps c)) + of_bool (in_repository r p)"
    and "g_used g' = g_used g - of_bool (in_memory (ps c)) + of_bool (in_memory p)"
    and "g_waiting g' = g_waiting g - of_bool (job_waits (ps c)) + of_bool (job_waits p)"
  shows "counted a' g' (ps(c := p))"
proof -
  have fin: "finite {c. ps c \<noteq> Outside}" using assms(1) by (simp add: counted_def)
  note change = holders_change [where z = Outside and ps = ps, OF fin]
  have fin': "finite {d. (ps(c := p)) d \<noteq> Outside}" using fin by (rule finite_update)
  show ?thesis
    unfolding counted_def
    using assms fin' change [of in_slot] change [of in_packing] change [of in_memory] change [of job_waits]
      change [of "in_repository _"]
    by (simp add: counted_def)
qed

lemma in_repository_simp: "in_repository r' (Running r packs memory) \<longleftrightarrow> r' = r"
  by auto

text \<open>What a step of a caller does to the counters, and by which operations.\<close>

lemma admitsMemory_cases:
  assumes "admitsMemory memory g = (g', gated, changed)"
  shows "gate_op g g'" "g_waiting g' = g_waiting g" "g_limit g' = g_limit g"
    "g_used g' = g_used g + of_bool (gated \<and> memory)"
    "\<not> gated \<Longrightarrow> memory \<and> g' = g \<and> changed = Some (g_changed g) \<and> \<not> free_for_transfer () g"
    "gated \<Longrightarrow> memory \<Longrightarrow> free_for_transfer () g"
  using assms gate_op.intros(1,2) [of g]
  by (auto simp: admitsMemory_def TryAcquire_def free_for_transfer_def split: if_splits)

lemma transfer_turn_cases:
  assumes "transfer_turn a g p = Some (a', g', p')"
  obtains (refused) r packs L where "p = Asking r packs L" "a' = a" "g' = g"
      "p' = Asleep r packs L (a_changed a) None" "\<not> admits_transfer a r packs"
  | (full) r packs L where "p = Asking r packs L" "a' = a" "g' = g" "tl_Memory L"
      "p' = Asleep r packs L (a_changed a) (Some (g_changed g))" "\<not> free_for_transfer () g"
  | (granted) r packs L where "p = Asking r packs L" "a' = take_slot r packs a" "gate_op g g'"
      "p' = Running r packs (tl_Memory L)" "admits_transfer a r packs" "tl_Memory L \<Longrightarrow> free_for_transfer () g"
      "g_used g' = g_used g + of_bool (tl_Memory L)" "g_waiting g' = g_waiting g" "g_limit g' = g_limit g"
proof (cases p)
  case (Asking r packs L)
  show ?thesis
  proof (cases "admits_transfer a r packs")
    case True
    obtain g1 gated changed where m: "admitsMemory (tl_Memory L) g = (g1, gated, changed)"
      by (cases "admitsMemory (tl_Memory L) g")
    show ?thesis
      using assms m True admitsMemory_cases [OF m] Asking full granted
      by (cases gated) (auto simp: acquire_for_turn_def)
  qed (use assms Asking refused in \<open>auto simp: acquire_for_turn_def\<close>)
qed (use assms in auto)

lemma transfer_woken_cases:
  assumes "transfer_woken a g p = Some (a', g', p')"
  obtains r packs L k m where "p = Asleep r packs L k m" "a' = a" "g' = g" "p' = Asking r packs L"
  using assms by (cases p) (auto split: if_splits option.splits)

lemma job_turn_cases:
  assumes "job_turn a g p = Some (a', g', p')"
  obtains (full) "p = JobAsking" "a' = a" "g' = g" "p' = JobAsleep (g_changed g)" "\<not> free_for_job () g"
  | (granted) "p = JobAsking" "a' = a" "gate_op g g'" "p' = JobRunning" "free_for_job () g"
      "g_used g' = g_used g + 1" "g_waiting g' = g_waiting g - 1" "g_limit g' = g_limit g"
proof (cases p)
  case JobAsking
  show ?thesis
  proof (cases "free_for_job () g")
    case True
    then have "gate_op g g'" "p' = JobRunning" "a' = a" "g_used g' = g_used g + 1" "g_waiting g' = g_waiting g - 1" "g_limit g' = g_limit g"
      using assms JobAsking gate_op.intros(5) [of g]
      by (simp_all add: acquire_turn_def free_for_job_def wake_def Let_def split: if_splits)
         (auto simp: Let_def wake_def)
    with JobAsking True granted show ?thesis by blast
  qed (use assms JobAsking full in \<open>auto simp: acquire_turn_def free_for_job_def\<close>)
qed (use assms in simp_all)

text \<open>The remaining events, one branch each.\<close>

inductive simple_step :: "admission \<Rightarrow> Gate \<Rightarrow> transfer_phase \<Rightarrow> admission \<Rightarrow> Gate \<Rightarrow> transfer_phase \<Rightarrow> bool"
  for a :: admission and g :: Gate where
  "simple_step a g Outside (take_limits L a) g (Asking r packs L)"
| "simple_step a g (Asleep r packs L k m) a g Outside"
| "simple_step a g (Running r packs memory) (release_slot r packs a) g (GivingBack memory)"
| "simple_step a g (GivingBack True) a (gate_release g) Outside"
| "simple_step a g (GivingBack False) a g Outside"
| "simple_step a g Outside a (acquire_enter g) JobAsking"
| "TryAcquireBackground g = (g', True) \<Longrightarrow> simple_step a g Outside a g' JobRunning"
| "TryAcquireBackground g = (g', False) \<Longrightarrow> simple_step a g Outside a g' Outside"
| "simple_step a g (JobAsleep k) a g JobAsking"
| "simple_step a g (JobAsleep k) a (acquire_ended g) Outside"
| "simple_step a g JobRunning a (gate_release g) Outside"

lemma caller_step_cases:
  assumes "caller_step a g p e = Some (a', g', p')"
  obtains (turn) "e = Turn" "transfer_turn a g p = Some (a', g', p')"
  | (woken) "e = Woken" "transfer_woken a g p = Some (a', g', p')"
  | (job) "e = JobTurn" "job_turn a g p = Some (a', g', p')"
  | (simple) "simple_step a g p a' g' p'"
  using assms
  by (cases e) (auto simp: caller_step_def split: if_splits transfer_phase.splits prod.splits
      intro: simple_step.intros)

lemma gate_fields [simp]:
  "g_used (acquire_enter g) = g_used g" "g_waiting (acquire_enter g) = g_waiting g + 1" "g_limit (acquire_enter g) = g_limit g"
  "g_used (acquire_ended g) = g_used g" "g_waiting (acquire_ended g) = g_waiting g - 1" "g_limit (acquire_ended g) = g_limit g"
  "g_used (gate_release g) = g_used g - 1" "g_waiting (gate_release g) = g_waiting g" "g_limit (gate_release g) = g_limit g"
  by (simp_all add: acquire_enter_def acquire_ended_def gate_release_def wake_def)

definition accounts :: "admission \<Rightarrow> Gate \<Rightarrow> transfer_phase \<Rightarrow> admission \<Rightarrow> Gate \<Rightarrow> transfer_phase \<Rightarrow> bool" where
  "accounts a g q a' g' p \<longleftrightarrow>
     a_active a' = a_active a - of_bool (in_slot q) + of_bool (in_slot p) \<and>
     a_packing a' = a_packing a - of_bool (in_packing q) + of_bool (in_packing p) \<and>
     (\<forall>r. running_in a' r = running_in a r - of_bool (in_repository r q) + of_bool (in_repository r p)) \<and>
     g_used g' = g_used g - of_bool (in_memory q) + of_bool (in_memory p) \<and>
     g_waiting g' = g_waiting g - of_bool (job_waits q) + of_bool (job_waits p) \<and>
     g_limit g' = g_limit g \<and> (g_used g \<le> g_limit g \<longrightarrow> g_used g' \<le> g_limit g') \<and>
     admission_op a a' \<and> gate_op g g'"

lemma simple_step_accounts: "simple_step a g q a' g' p \<Longrightarrow> accounts a g q a' g' p"
  unfolding accounts_def
  by (cases rule: simple_step.cases, assumption)
     (use admission_op.intros [of a] gate_op.intros [of g] in \<open>auto simp: TryAcquireBackground_def split: if_splits\<close>)

lemma caller_step_accounts:
  assumes "caller_step a g q e = Some (a', g', p)" shows "accounts a g q a' g' p"
  using assms
proof (cases rule: caller_step_cases)
  case turn
  from turn(2) show ?thesis
    by (cases rule: transfer_turn_cases)
       (auto simp: accounts_def free_for_transfer_def intro: admission_op.intros gate_op.intros)
next
  case woken
  from woken(2) show ?thesis
    by (cases rule: transfer_woken_cases) (auto simp: accounts_def intro: admission_op.intros gate_op.intros)
next
  case job
  from job(2) show ?thesis
    by (cases rule: job_turn_cases)
       (auto simp: accounts_def free_for_job_def intro: admission_op.intros gate_op.intros)
qed (rule simple_step_accounts)

lemma counted_step:
  assumes "counted a g ps" and "accounts a g (ps c) a' g' p"
  shows "counted a' g' (ps(c := p))"
  using assms(2) by (intro counted_change [OF assms(1)]) (simp_all add: accounts_def)

subsection \<open>Nobody sleeps through his moment\<close>

fun phase_ok :: "admission \<Rightarrow> Gate \<Rightarrow> transfer_phase \<Rightarrow> bool" where
  "phase_ok a g (Asleep r packs L k m) \<longleftrightarrow> k \<le> a_changed a \<and>
     (case m of None \<Rightarrow> sleeps a_changed (admits_request (r, packs)) k a
      | Some j \<Rightarrow> tl_Memory L \<and> sleeps g_changed (free_for_transfer ()) j g)"
| "phase_ok a g (JobAsleep k) \<longleftrightarrow> sleeps g_changed (free_for_job ()) k g"
| "phase_ok a g p = True"

lemma phase_ok_step:
  assumes "counted a g ps" and "admission_op a a'" and "gate_op g g'" and "phase_ok a g p"
  shows "phase_ok a' g' p"
proof (cases p)
  case (Asleep r packs L k m)
  note slots = transfer_slots.sleeps_on [OF counted_nonneg(1) [OF assms(1)] assms(2), of "(r, packs)" k]
  note memory = memory_transfers.sleeps_on [OF counted_nonneg(4) [OF assms(1)] assms(3)]
  show ?thesis
    using assms(4) slots memory transfer_slots.op_epoch [OF assms(2)] Asleep by (auto split: option.splits)
next
  case (JobAsleep k)
  then show ?thesis using assms(4) memory_jobs.sleeps_on [OF _ assms(3), of "()" k] by simp
qed simp_all

lemma phase_ok_new:
  assumes "caller_step a g q e = Some (a', g', p)" shows "phase_ok a' g' p"
  using assms
proof (cases rule: caller_step_cases)
  case turn
  from turn(2) show ?thesis
    by (cases rule: transfer_turn_cases)
       (auto intro: transfer_slots.falls_asleep memory_transfers.falls_asleep simp: admits_request_def)
next
  case woken
  from woken(2) show ?thesis by (cases rule: transfer_woken_cases) simp
next
  case job
  from job(2) show ?thesis
    by (cases rule: job_turn_cases) (auto intro: memory_jobs.falls_asleep)
next
  case simple
  then show ?thesis by cases auto
qed

end
