(* ===== verification/AdmissionProps.thy ===== *)
theory AdmissionProps
  imports Admission
begin

text \<open>
  What the transfer slots and the memory gate guarantee for every interleaving of requests and
  background jobs: exact counters, the limits, room for an idle repository, and no sleeper that
  could go on.
\<close>

subsection \<open>Invariants\<close>

text \<open>The map has an entry exactly for the repositories with a running transfer.\<close>

definition tidy :: "admission \<Rightarrow> bool" where
  "tidy a \<longleftrightarrow> finite (dom (a_byRepository a)) \<and> (\<forall>r n. a_byRepository a r = Some n \<longrightarrow> 0 < n)"

lemma tidy_running: "tidy a \<Longrightarrow> r \<in> dom (a_byRepository a) \<longleftrightarrow> running_in a r \<noteq> 0"
  by (force simp: tidy_def running_in_def dom_def split: option.splits)

lemma byRepository_ops:
  "a_byRepository (take_limits L a) = a_byRepository a"
  "a_byRepository (take_slot r packs a) = (a_byRepository a)(r \<mapsto> running_in a r + 1)"
  "a_byRepository (release_slot r packs a) = (if running_in a r = 1 then (a_byRepository a)(r := None)
     else (a_byRepository a)(r \<mapsto> running_in a r - 1))"
  by (auto simp: take_limits_def take_slot_def release_slot_def wakeLocked_def running_in_def Let_def)

lemma tidy_op:
  assumes "tidy a" and "admission_op a a'" and "\<forall>r. 0 \<le> running_in a' r"
  shows "tidy a'"
  using assms(2)
proof cases
  case (4 r packs)
  then have "0 \<le> running_in a r - 1" using assms(3) by (metis (full_types) of_bool_eq(2) running_in_release)
  then show ?thesis using assms(1) 4 by (auto simp: tidy_def byRepository_ops)
next
  case (3 r packs)
  have "0 \<le> running_in a r" using assms(1) by (auto simp: tidy_def running_in_def less_imp_le split: option.split)
  then show ?thesis using assms(1) 3 by (auto simp: tidy_def byRepository_ops)
qed (use assms(1) in \<open>auto simp: tidy_def byRepository_ops\<close>)

definition slots_ok :: "int \<Rightarrow> slotSystem \<Rightarrow> bool" where
  "slots_ok limit s \<longleftrightarrow> counted (ss_admission s) (ss_gate s) (ss_callers s) \<and> tidy (ss_admission s) \<and>
     g_limit (ss_gate s) = max limit 1 \<and> g_used (ss_gate s) \<le> max limit 1 \<and>
     (\<forall>c. phase_ok (ss_admission s) (ss_gate s) (ss_callers s c))"

lemma slot_init_ok: "slot_init limit s \<Longrightarrow> slots_ok limit s"
  by (simp add: slot_init_def slots_ok_def counted_def holders_def tidy_def newAdmission_def NewGate_def running_in_def)

lemma slot_step_ok:
  assumes "slots_ok limit s" and "slot_step brought s t"
  shows "slots_ok limit t"
  using assms(2)
proof cases
  case (slot_stepI c e a g p)
  let ?ps = "ss_callers s"
  have acc: "accounts (ss_admission s) (ss_gate s) (?ps c) a g p"
    using slot_stepI(2) by (rule caller_step_accounts)
  have cnt: "counted (ss_admission s) (ss_gate s) ?ps" using assms(1) by (simp add: slots_ok_def)
  have cnt': "counted a g (?ps(c := p))" using cnt acc by (rule counted_step)
  have ops: "admission_op (ss_admission s) a" "gate_op (ss_gate s) g" using acc by (simp_all add: accounts_def)
  have "tidy a" using assms(1) tidy_op [OF _ ops(1)] counted_nonneg(1) [OF cnt'] by (simp add: slots_ok_def)
  moreover have "phase_ok a g (?ps d)" for d
    using assms(1) phase_ok_step [OF cnt ops] by (simp add: slots_ok_def)
  ultimately show ?thesis
    using slot_stepI(1) assms(1) acc cnt' phase_ok_new [OF slot_stepI(2)]
    by (simp add: slots_ok_def accounts_def)
qed

interpretation slots: inductive_invariant "slot_init limit" "slot_step brought" "slots_ok limit"
  by unfold_locales (auto intro: slot_init_ok slot_step_ok)

text \<open>The counters of the transfer slots and of the memory gate always count their holders:
  the running transfers, those of each repository, those that build a pack and the waiting
  background jobs; the map keeps no repository without a transfer, and the processes that use
  memory never exceed the gate's limit.\<close>

theorem slots_counted:
  assumes "reach (slot_init limit) (slot_step brought) s"
  shows "a_active (ss_admission s) = int (card {c. in_slot (ss_callers s c)}) \<and>
    a_packing (ss_admission s) = int (card {c. in_packing (ss_callers s c)}) \<and>
    (\<forall>r. running_in (ss_admission s) r = int (card {c. in_repository r (ss_callers s c)})) \<and>
    dom (a_byRepository (ss_admission s)) = {r. \<exists>c. in_repository r (ss_callers s c)} \<and>
    GateWaiting (ss_gate s) = int (card {c. job_waits (ss_callers s c)}) \<and>
    int (card {c. in_memory (ss_callers s c)}) \<le> max limit 1"
proof -
  have ok: "slots_ok limit s" using assms by (rule slots.reach_inv)
  then have cnt: "counted (ss_admission s) (ss_gate s) (ss_callers s)" by (simp add: slots_ok_def)
  then have fin: "finite {c. ss_callers s c \<noteq> Outside}" by (simp add: counted_def)
  have "r \<in> dom (a_byRepository (ss_admission s)) \<longleftrightarrow> (\<exists>c. in_repository r (ss_callers s c))" for r
    using tidy_running [of "ss_admission s" r] holders_pos_iff [OF fin, of "in_repository r"] ok cnt
    by (simp add: slots_ok_def counted_def)
  then have "dom (a_byRepository (ss_admission s)) = {r. \<exists>c. in_repository r (ss_callers s c)}" by blast
  then show ?thesis using ok cnt by (simp add: slots_ok_def counted_def holders_def GateWaiting_def)
qed

subsection \<open>The limits\<close>

definition within :: "int \<Rightarrow> int \<Rightarrow> int \<Rightarrow> admission \<Rightarrow> bool" where
  "within P T K a \<longleftrightarrow> a_perRepository a \<le> P \<and> a_perRepository a + a_extra a \<le> T \<and>
     (a_perRepository a \<le> 0 \<or> (0 < a_packSlots a \<and> a_packSlots a \<le> K)) \<and>
     (\<forall>r. running_in a r \<le> P) \<and> a_active a \<le> T \<and> a_packing a \<le> K"

definition limits_within :: "int \<Rightarrow> int \<Rightarrow> int \<Rightarrow> transferLimits \<Rightarrow> bool" where
  "limits_within P T K L \<longleftrightarrow> tl_PerRepository L \<le> P \<and> tl_PerRepository L + tl_ExtraSlots L \<le> T \<and>
     0 < tl_PackSlots L \<and> tl_PackSlots L \<le> K"

text \<open>What a step does to the slots, with the condition under which a slot is taken and the
  limits a request brings.\<close>

inductive slot_change :: "(transferLimits \<Rightarrow> bool) \<Rightarrow> admission \<Rightarrow> admission \<Rightarrow> bool"
  for brought :: "transferLimits \<Rightarrow> bool" and a :: admission where
  same: "slot_change brought a a"
| limits: "brought L \<Longrightarrow> slot_change brought a (take_limits L a)"
| taken: "admits_transfer a r packs \<Longrightarrow> slot_change brought a (take_slot r packs a)"
| released: "slot_change brought a (release_slot r packs a)"

lemma caller_step_change:
  assumes "caller_step a g q e = Some (a', g', p)" and "\<And>r packs L. e = Ask r packs L \<Longrightarrow> brought L"
  shows "slot_change brought a a'"
proof (cases "\<exists>r packs L. e = Ask r packs L")
  case True
  then show ?thesis using assms by (auto simp: caller_step_def split: if_splits intro: limits)
next
  case False
  show ?thesis
    using assms(1)
  proof (cases rule: caller_step_cases)
    case turn
    from turn(2) show ?thesis by (cases rule: transfer_turn_cases) (auto intro: slot_change.intros)
  next
    case woken
    from woken(2) show ?thesis by (cases rule: transfer_woken_cases) (auto intro: slot_change.intros)
  next
    case job
    from job(2) show ?thesis by (cases rule: job_turn_cases) (auto intro: slot_change.intros)
  next
    case simple
    then show ?thesis using False assms(1)
      by cases (auto simp: caller_step_def split: slot_event.splits if_splits prod.splits intro: slot_change.intros)
  qed
qed

lemma slot_step_change: "slot_step brought s t \<Longrightarrow> slot_change brought (ss_admission s) (ss_admission t)"
  by (cases rule: slot_step.cases, assumption) (auto intro: caller_step_change)

text \<open>A property of the slots that every such change keeps holds in every reachable state.\<close>

lemma slots_invariant:
  assumes "reach (slot_init limit) (slot_step brought) s" and "Q newAdmission"
    and step: "\<And>a a'. slot_change brought a a' \<Longrightarrow> tidy a \<Longrightarrow> (\<forall>r. 0 \<le> running_in a r) \<Longrightarrow>
      (\<forall>r. 0 \<le> running_in a' r) \<Longrightarrow> Q a \<Longrightarrow> Q a'"
  shows "Q (ss_admission s)"
  using assms(1)
proof (induction rule: reach.induct)
  case (reach_init s)
  then show ?case using assms(2) by (simp add: slot_init_def)
next
  case (reach_step s t)
  have "slots_ok limit s" using reach_step(1) by (rule slots.reach_inv)
  moreover from this have "slots_ok limit t" using slots.inv_step reach_step(2) by blast
  ultimately show ?case
    using step [OF slot_step_change [OF reach_step(2)]] reach_step(3)
    by (auto simp: slots_ok_def counted_def)
qed

lemma within_change:
  assumes "slot_change (limits_within P T K) a a'" and "\<forall>r. 0 \<le> running_in a r" and "P \<le> T"
    and "within P T K a"
  shows "within P T K a'"
  using assms(1)
proof cases
  case (taken r packs)
  have "running_in a r < a_perRepository a" "a_active a < a_perRepository a \<or> a_active a < a_perRepository a + a_extra a"
    "packs \<longrightarrow> a_packSlots a \<le> 0 \<or> a_packing a < a_packSlots a"
    using taken(2) by (auto simp: admits_transfer_def Let_def split: if_splits)
  moreover have "0 \<le> running_in a r" using assms(2) by blast
  ultimately show ?thesis using assms(3,4) taken(1) by (cases packs) (auto simp: within_def)
next
  case (released r packs)
  have "running_in a r \<le> P" using assms(4) by (simp add: within_def)
  then have "running_in a r - 1 \<le> P" by simp
  then show ?thesis using released assms(4) by (auto simp: within_def)
qed (use assms(4) in \<open>auto simp: within_def limits_within_def\<close>)

text \<open>C29. The limits hold as a bound over changing limits: when no request brings more than \<open>P\<close>
  transfers of a repository, \<open>T\<close> transfers in all or \<open>K\<close> that build a pack, never more run at
  once, however requests come, end, give up and overtake each other.\<close>

theorem slots_bounded:
  assumes "reach (slot_init limit) (slot_step (limits_within P T K)) s" and "0 \<le> P" and "P \<le> T" and "0 \<le> K"
  shows "int (card {c. in_repository r (ss_callers s c)}) \<le> P \<and> int (card {c. in_slot (ss_callers s c)}) \<le> T \<and>
    int (card {c. in_packing (ss_callers s c)}) \<le> K"
proof -
  have "within P T K (ss_admission s)"
    using assms(1) by (rule slots_invariant)
      (use assms(2-4) in \<open>simp_all add: within_change, simp add: within_def newAdmission_def running_in_def\<close>)
  moreover have "slots_ok limit s" using assms(1) by (rule slots.reach_inv)
  ultimately show ?thesis by (auto simp: within_def slots_ok_def counted_def holders_def)
qed

subsection \<open>Room for an idle repository\<close>

text \<open>With the same limits throughout, a transfer beyond the first \<open>P\<close> is the only one its
  repository had when it started.\<close>

definition spread :: "int \<Rightarrow> int \<Rightarrow> admission \<Rightarrow> bool" where
  "spread P E a \<longleftrightarrow> (a = newAdmission \<or> (a_perRepository a = P \<and> a_extra a = E)) \<and>
     (a_active a \<le> 0 \<or> a_active a < P + int (card (dom (a_byRepository a))))"

definition same_limits :: "int \<Rightarrow> int \<Rightarrow> transferLimits \<Rightarrow> bool" where
  "same_limits P E L \<longleftrightarrow> tl_PerRepository L = P \<and> tl_ExtraSlots L = E"

lemma spread_take:
  assumes "admits_transfer a r packs" and "tidy a" and "0 \<le> running_in a r" and "1 \<le> P" and "spread P E a"
  shows "spread P E (take_slot r packs a)"
proof -
  have fin: "finite (dom (a_byRepository a))" using assms(2) by (simp add: tidy_def)
  have adm: "running_in a r < a_perRepository a" "a_active a < a_perRepository a \<or> running_in a r = 0"
    using assms(1) by (auto simp: admits_transfer_def Let_def split: if_splits)
  have lim: "a_perRepository a = P" "a_extra a = E"
    using assms(3,5) adm(1) by (auto simp: spread_def newAdmission_def)
  have "a_active a + 1 < P + int (card (insert r (dom (a_byRepository a))))"
  proof (cases "a_active a < P")
    case True
    have "0 < card (insert r (dom (a_byRepository a)))" using fin by (simp add: card_gt_0_iff)
    then show ?thesis using True by linarith
  next
    case False
    then have "r \<notin> dom (a_byRepository a)" using adm(2) lim(1) tidy_running [OF assms(2), of r] by simp
    then show ?thesis using fin assms(4,5) False by (auto simp: spread_def)
  qed
  then show ?thesis using lim by (simp add: spread_def byRepository_ops)
qed

lemma spread_release:
  assumes "tidy a" and "0 \<le> running_in a r - 1" and "spread P E a" and "1 \<le> P"
  shows "spread P E (release_slot r packs a)"
proof -
  have fin: "finite (dom (a_byRepository a))" using assms(1) by (simp add: tidy_def)
  have r: "r \<in> dom (a_byRepository a)" using tidy_running [OF assms(1), of r] assms(2) by simp
  then have "a \<noteq> newAdmission" by (auto simp: newAdmission_def)
  then have lim: "a_perRepository a = P" "a_extra a = E" using assms(3) by (auto simp: spread_def)
  have "card (dom (a_byRepository a)) \<le> card (dom (a_byRepository (release_slot r packs a))) + 1"
    using r fin by (auto simp: byRepository_ops insert_absorb card_Diff_singleton)
  then show ?thesis using assms(3) lim by (auto simp: spread_def)
qed

lemma spread_change:
  assumes "slot_change (same_limits P E) a a'" and "tidy a" and "\<forall>r. 0 \<le> running_in a r" and "\<forall>r. 0 \<le> running_in a' r"
    and "1 \<le> P" and "spread P E a"
  shows "spread P E a'"
  using assms(1)
proof cases
  case (limits L)
  then show ?thesis using assms(6) by (auto simp: spread_def same_limits_def byRepository_ops)
next
  case (taken r packs)
  then show ?thesis using spread_take assms(2,3,5,6) by blast
next
  case (released r packs)
  then have "0 \<le> running_in a r - 1" using assms(4) by (metis (full_types) of_bool_eq(2) running_in_release)
  then show ?thesis using spread_release assms(2,5,6) released by blast
qed (use assms(6) in simp)

text \<open>A request that has brought its limits finds them in force.\<close>

fun queued :: "transfer_phase \<Rightarrow> bool" where
  "queued (Asking r packs L) = True" | "queued (Asleep r packs L k m) = True" | "queued _ = False"

lemma queued_before:
  assumes "caller_step a g q e = Some (a', g', p)" and "queued p"
  shows "queued q \<or> (\<exists>r packs L. e = Ask r packs L \<and> a' = take_limits L a)"
  using assms(1)
proof (cases rule: caller_step_cases)
  case turn
  from turn(2) show ?thesis by (cases rule: transfer_turn_cases) (use assms(2) in auto)
next
  case woken
  from woken(2) show ?thesis by (cases rule: transfer_woken_cases) (use assms(2) in auto)
next
  case job
  from job(2) show ?thesis by (cases rule: job_turn_cases) (use assms(2) in auto)
next
  case simple
  then show ?thesis using assms
    by cases (auto simp: caller_step_def split: slot_event.splits if_splits prod.splits)
qed

definition limits_in_force :: "transferLimits \<Rightarrow> admission \<Rightarrow> bool" where
  "limits_in_force L a \<longleftrightarrow> a_perRepository a = tl_PerRepository L \<and> a_extra a = tl_ExtraSlots L \<and>
     a_packSlots a = tl_PackSlots L"

lemma queued_limits:
  assumes "reach (slot_init limit) (slot_step brought) s" and "queued (ss_callers s c)"
  shows "\<exists>L. brought L \<and> limits_in_force L (ss_admission s)"
  using assms
proof (induction arbitrary: c rule: reach.induct)
  case (reach_step s t)
  have keep: "\<exists>L. brought L \<and> limits_in_force L (ss_admission t)"
    if "\<exists>L. brought L \<and> limits_in_force L (ss_admission s)"
    using slot_step_change [OF reach_step(2)] that by (cases rule: slot_change.cases) (auto simp: limits_in_force_def)
  from reach_step(2) show ?case
  proof cases
    case (slot_stepI d e a g p)
    show ?thesis
    proof (cases "\<exists>d. queued (ss_callers s d)")
      case True
      then show ?thesis using reach_step.IH keep by blast
    next
      case False
      have "c = d" using reach_step.prems False slot_stepI(1) by (auto split: if_splits)
      then obtain r packs L where "e = Ask r packs L" "a = take_limits L (ss_admission s)"
        using queued_before [OF slot_stepI(2)] reach_step.prems False slot_stepI(1) by auto
      then show ?thesis using slot_stepI(1,3) by (auto simp: limits_in_force_def)
    qed
  qed
qed (auto simp: slot_init_def)

lemma spread_reached:
  assumes "reach (slot_init limit) (slot_step (same_limits P E)) s" and "1 \<le> P"
  shows "spread P E (ss_admission s)"
  using assms(1)
  by (rule slots_invariant) (use assms(2) in \<open>simp_all add: spread_change, simp add: spread_def newAdmission_def\<close>)

text \<open>One busy repository never blocks the others: with the same limits throughout, a push or a
  reference advertisement of a repository without a transfer starts on its next turn while
  at most as many repositories are busy as there are extra slots, unless the memory gate
  itself is full or serves a background job first.\<close>

theorem slots_isolation:
  assumes "reach (slot_init limit) (slot_step (same_limits P E)) s" and "1 \<le> P"
    and "ss_callers s c = Asking r False L" and "\<not> (\<exists>d. in_repository r (ss_callers s d))"
    and "int (card {r'. \<exists>d. in_repository r' (ss_callers s d)}) \<le> E"
    and "tl_Memory L \<longrightarrow> free_for_transfer () (ss_gate s)"
  shows "\<exists>a g. caller_step (ss_admission s) (ss_gate s) (ss_callers s c) Turn = Some (a, g, Running r False (tl_Memory L))"
proof -
  let ?a = "ss_admission s"
  have ok: "slots_ok limit s" using assms(1) by (rule slots.reach_inv)
  then have fin: "finite {c. ss_callers s c \<noteq> Outside}" and tidy: "tidy ?a" by (simp_all add: slots_ok_def counted_def)
  have run: "running_in ?a r' = int (holders (in_repository r') (ss_callers s))" for r'
    using ok by (simp add: slots_ok_def counted_def)
  have "r' \<in> dom (a_byRepository ?a) \<longleftrightarrow> (\<exists>d. in_repository r' (ss_callers s d))" for r'
    using tidy_running [OF tidy, of r'] holders_pos_iff [OF fin, of "in_repository r'"] run [of r'] by simp
  then have dom: "dom (a_byRepository ?a) = {r'. \<exists>d. in_repository r' (ss_callers s d)}" by blast
  have zero: "running_in ?a r = 0" using tidy_running [OF tidy, of r] assms(4) dom by blast
  have lim: "a_perRepository ?a = P" "a_extra ?a = E" using queued_limits [OF assms(1), of c] assms(3) by (auto simp: same_limits_def limits_in_force_def)
  have "0 \<le> E" using assms(5) by linarith
  then have "a_active ?a < P + E"
    using spread_reached [OF assms(1,2)] assms(2,5) by (auto simp: spread_def dom)
  then have "admits_transfer ?a r False" using zero lim assms(2) by (auto simp: admits_transfer_def)
  then show ?thesis using assms(3,6)
    by (auto simp: caller_step_def acquire_for_turn_def admitsMemory_def TryAcquire_def free_for_transfer_def)
qed

subsection \<open>Sleepers\<close>

definition can_go_on :: "slotSystem \<Rightarrow> nat \<Rightarrow> bool" where
  "can_go_on s c \<longleftrightarrow> (\<exists>e \<in> {Turn, Woken, JobTurn, JobWoken}.
     caller_step (ss_admission s) (ss_gate s) (ss_callers s c) e \<noteq> None)"

lemma turns_happen:
  "caller_step a g (Asking r packs L) Turn \<noteq> None" "caller_step a g JobAsking JobTurn \<noteq> None"
  by (auto simp: caller_step_def split: prod.splits option.splits)

lemma asleep_refused:
  assumes "phase_ok a g (Asleep r packs L k m)" and "caller_step a g (Asleep r packs L k m) Woken = None"
  shows "\<not> admits_transfer a r packs \<or> (tl_Memory L \<and> \<not> free_for_transfer () g)"
  using assms by (auto simp: caller_step_def sleeps_def admits_request_def split: option.splits if_splits)

lemma job_asleep_full:
  assumes "phase_ok a g (JobAsleep k)" and "caller_step a g (JobAsleep k) JobWoken = None"
  shows "\<not> free_for_job () g"
  using assms by (auto simp: caller_step_def sleeps_def split: if_splits)

text \<open>A refusal has a holder behind it.\<close>

lemma refused_by_holder:
  assumes "counted a g ps" and "1 \<le> a_perRepository a" and "\<not> admits_transfer a r packs"
  shows "\<exists>d. in_slot (ps d)"
proof (rule ccontr)
  assume none: "\<not> (\<exists>d. in_slot (ps d))"
  have imp: "in_repository r p \<Longrightarrow> in_slot p" "in_packing p \<Longrightarrow> in_slot p" for p by (cases p; simp)+
  have "\<not> (\<exists>d. in_repository r (ps d))" "\<not> (\<exists>d. in_packing (ps d))" using none imp by blast+
  then have "running_in a r = 0" "a_packing a = 0" "a_active a = 0"
    using assms(1) none by (simp_all add: counted_def holders_def)
  then show False using assms(2,3) by (auto simp: admits_transfer_def split: if_splits)
qed

lemma full_by_holder:
  assumes "counted a g ps" and "1 \<le> g_limit g" and "\<not> free_for_job () g"
  shows "\<exists>d. in_memory (ps d)"
  using assms by (auto simp: counted_def free_for_job_def holders_def intro: ccontr)

lemma closed_by_holder:
  assumes "counted a g ps" and "1 \<le> g_limit g" and "\<not> free_for_transfer () g"
  shows "(\<exists>d. in_memory (ps d)) \<or> (\<exists>d. job_waits (ps d))"
proof (rule ccontr)
  assume "\<not> ?thesis"
  then have "g_used g = 0" "g_waiting g = 0" using assms(1) by (simp_all add: counted_def holders_def)
  then show False using assms(2,3) by (simp add: free_for_transfer_def)
qed

text \<open>C28. No wake-up is lost. A caller that cannot go on is refused by the state as it stands: a
  sleeping transfer by the slots or by the memory gate, a sleeping background job by a full gate.
  Behind each refusal stands a holder whose release wakes every sleeper, or, for a transfer, a
  background job that is served first.\<close>

theorem slots_no_lost_wakeup:
  assumes "reach (slot_init limit) (slot_step brought) s" and "\<forall>L. brought L \<longrightarrow> 1 \<le> tl_PerRepository L"
    and "\<not> can_go_on s c"
  shows "case ss_callers s c of
      Asking r packs L \<Rightarrow> False
    | JobAsking \<Rightarrow> False
    | Asleep r packs L k m \<Rightarrow>
        (\<not> admits_transfer (ss_admission s) r packs \<and> (\<exists>d. in_slot (ss_callers s d))) \<or>
        (tl_Memory L \<and> \<not> free_for_transfer () (ss_gate s) \<and> (\<exists>d. in_memory (ss_callers s d) \<or> job_waits (ss_callers s d)))
    | JobAsleep k \<Rightarrow> \<not> free_for_job () (ss_gate s) \<and> (\<exists>d. in_memory (ss_callers s d))
    | _ \<Rightarrow> True"
proof -
  have "slots_ok limit s" using assms(1) by (rule slots.reach_inv)
  then have cnt: "counted (ss_admission s) (ss_gate s) (ss_callers s)" and lim: "1 \<le> g_limit (ss_gate s)"
    and ok: "phase_ok (ss_admission s) (ss_gate s) (ss_callers s c)" by (simp_all add: slots_ok_def)
  have per: "1 \<le> a_perRepository (ss_admission s)" if "queued (ss_callers s c)"
    using queued_limits [OF assms(1) that] assms(2) by (auto simp: limits_in_force_def)
  have stuck: "caller_step (ss_admission s) (ss_gate s) (ss_callers s c) e = None"
    if "e \<in> {Turn, Woken, JobTurn, JobWoken}" for e
    using assms(3) that unfolding can_go_on_def by blast
  show ?thesis
  proof (cases "ss_callers s c")
    case (Asleep r packs L k m)
    then show ?thesis
      using asleep_refused [OF ok [unfolded Asleep]] stuck [of Woken] refused_by_holder [OF cnt] per
        closed_by_holder [OF cnt lim] by simp blast
  next
    case (JobAsleep k)
    then show ?thesis
      using job_asleep_full [OF ok [unfolded JobAsleep]] stuck [of JobWoken] full_by_holder [OF cnt lim] by simp
  qed (use stuck [of Turn] stuck [of JobTurn] turns_happen in auto)
qed

text \<open>A background job is served before any transfer: while one waits for the gate, no
  transfer begins to use memory.\<close>

theorem slots_jobs_first:
  assumes "reach (slot_init limit) (slot_step brought) s" and "job_waits (ss_callers s d)"
    and "slot_step brought s t" and "ss_callers t c = Running r packs True"
  shows "ss_callers s c = Running r packs True"
  using assms(3)
proof cases
  case (slot_stepI c' e a g p)
  have "slots_ok limit s" using assms(1) by (rule slots.reach_inv)
  then have cnt: "counted (ss_admission s) (ss_gate s) (ss_callers s)" by (simp add: slots_ok_def)
  then have "0 < holders job_waits (ss_callers s)"
    using holders_pos_iff [where z = Outside and P = job_waits] assms(2) by (auto simp: counted_def)
  then have closed: "\<not> free_for_transfer () (ss_gate s)" using cnt by (simp add: counted_def free_for_transfer_def)
  show ?thesis
  proof (cases "c = c'")
    case False
    then show ?thesis using slot_stepI(1) assms(4) by simp
  next
    case True
    then have p: "p = Running r packs True" using slot_stepI(1) assms(4) by simp
    from slot_stepI(2) show ?thesis
    proof (cases rule: caller_step_cases)
      case turn
      from turn(2) show ?thesis by (cases rule: transfer_turn_cases) (use p closed in auto)
    next
      case woken
      from woken(2) show ?thesis by (cases rule: transfer_woken_cases) (use p in auto)
    next
      case job
      from job(2) show ?thesis by (cases rule: job_turn_cases) (use p in auto)
    next
      case simple
      then show ?thesis by cases (use p in auto)
    qed
  qed
qed

subsection \<open>Sample runs\<close>

fun slot_run :: "(nat \<times> slot_event) list \<Rightarrow> slotSystem \<Rightarrow> slotSystem option" where
  "slot_run [] s = Some s"
| "slot_run ((c, e) # es) s =
     (case caller_step (ss_admission s) (ss_gate s) (ss_callers s c) e of
       None \<Rightarrow> None
     | Some (a, g, p) \<Rightarrow> slot_run es \<lparr>ss_admission = a, ss_gate = g, ss_callers = (ss_callers s)(c := p)\<rparr>)"

lemma slot_run_reach:
  "reach (slot_init limit) (slot_step brought) s \<Longrightarrow> slot_run es s = Some t \<Longrightarrow>
   (\<And>c r packs L. (c, Ask r packs L) \<in> set es \<Longrightarrow> brought L) \<Longrightarrow> reach (slot_init limit) (slot_step brought) t"
proof (induction es s rule: slot_run.induct)
  case (2 c e es s)
  then obtain a g p where st: "caller_step (ss_admission s) (ss_gate s) (ss_callers s c) e = Some (a, g, p)"
    and run: "slot_run es \<lparr>ss_admission = a, ss_gate = g, ss_callers = (ss_callers s)(c := p)\<rparr> = Some t"
    by (auto split: option.splits)
  have "slot_step brought s \<lparr>ss_admission = a, ss_gate = g, ss_callers = (ss_callers s)(c := p)\<rparr>"
    using st by (rule slot_step.slot_stepI) (use 2(4) in auto)
  from 2(1) [OF st refl refl reach_step [OF 2(2) this] run] show ?case
    using 2(4) by (meson list.set_intros(2))
qed simp

definition slot_start :: "int \<Rightarrow> slotSystem" where
  "slot_start limit = \<lparr>ss_admission = newAdmission, ss_gate = NewGate limit, ss_callers = (\<lambda>c. Outside)\<rparr>"

lemma slot_start_reach: "reach (slot_init limit) (slot_step brought) (slot_start limit)"
  by (rule reach_init) (simp add: slot_init_def slot_start_def)

definition sample_limits_of :: "bool \<Rightarrow> transferLimits" where
  "sample_limits_of memory = \<lparr>tl_PerRepository = 1, tl_ExtraSlots = 1, tl_PackSlots = 1, tl_Memory = memory\<rparr>"

text \<open>Two transfers fill the memory gate, a job and a transfer sleep, and another repository asks.\<close>

definition sample_events :: "bool \<Rightarrow> (nat \<times> slot_event) list" where
  "sample_events memory = [(0, Ask ''a'' True (sample_limits_of memory)), (0, Turn), (1, JobEnter), (1, JobTurn),
     (2, Ask ''b'' False (sample_limits_of memory))]"

definition sample_slots :: "bool \<Rightarrow> slotSystem" where
  "sample_slots memory = \<lparr>ss_admission = \<lparr>a_perRepository = 1, a_extra = 1, a_packSlots = 1, a_packing = 1, a_active = 1,
     a_byRepository = [''a'' \<mapsto> 1], a_changed = 1\<rparr>,
     ss_gate = \<lparr>g_limit = 1, g_used = 1, g_waiting = of_bool memory, g_changed = 0\<rparr>,
     ss_callers = (\<lambda>c. Outside)(0 := Running ''a'' True memory, 1 := if memory then JobAsleep 0 else JobRunning,
       2 := Asking ''b'' False (sample_limits_of memory))\<rparr>"

lemmas sample_run_defs = caller_step_def acquire_for_turn_def admitsMemory_def TryAcquire_def admits_transfer_def
  running_in_def take_limits_def take_slot_def wakeLocked_def acquire_enter_def acquire_turn_def newAdmission_def NewGate_def

lemma sample_slots_reach:
  assumes "brought (sample_limits_of memory)"
  shows "reach (slot_init 1) (slot_step brought) (sample_slots memory)"
proof -
  have "slot_run (sample_events memory) (slot_start 1) = Some (sample_slots memory)"
    by (cases memory)
       (simp_all add: sample_events_def slot_start_def sample_slots_def sample_limits_of_def sample_run_defs fun_upd_twist fun_upd_upd)
  from slot_run_reach [OF slot_start_reach this] show ?thesis using assms by (auto simp: sample_events_def)
qed

lemma sample_caller: "in_repository r (ss_callers (sample_slots memory) c) \<longleftrightarrow> r = ''a'' \<and> c = 0"
  by (auto simp: sample_slots_def)

lemma sample_limits_within: "limits_within 1 2 1 (sample_limits_of memory)"
  by (simp add: limits_within_def sample_limits_of_def)

theorem slots_counted_witness:
  "GateWaiting (ss_gate (sample_slots True)) = 1 \<and> card {c. job_waits (ss_callers (sample_slots True) c)} = 1"
proof -
  have "reach (slot_init 1) (slot_step (\<lambda>L. True)) (sample_slots True)" by (rule sample_slots_reach) simp
  from slots_counted [OF this] show ?thesis by (simp add: GateWaiting_def) (simp add: sample_slots_def)
qed

theorem slots_bounded_witness:
  "card {c. in_packing (ss_callers (sample_slots True) c)} \<le> 1 \<and> in_packing (ss_callers (sample_slots True) 0)"
proof -
  have "reach (slot_init 1) (slot_step (limits_within 1 2 1)) (sample_slots True)"
    by (rule sample_slots_reach) (rule sample_limits_within)
  from slots_bounded [OF this] show ?thesis by (simp add: sample_slots_def)
qed

theorem slots_isolation_witness:
  "\<exists>a g. caller_step (ss_admission (sample_slots False)) (ss_gate (sample_slots False))
     (ss_callers (sample_slots False) 2) Turn = Some (a, g, Running ''b'' False False)"
proof -
  have "reach (slot_init 1) (slot_step (same_limits 1 1)) (sample_slots False)"
    by (rule sample_slots_reach) (simp add: same_limits_def sample_limits_of_def)
  from slots_isolation [OF this, of 2 "''b''" "sample_limits_of False"] show ?thesis
    by (simp only: sample_caller) (simp add: sample_slots_def sample_limits_of_def)
qed

theorem slots_no_lost_wakeup_witness:
  "\<not> can_go_on (sample_slots True) 1 \<and> (\<exists>d. in_memory (ss_callers (sample_slots True) d))"
proof -
  have "\<forall>L. (L = sample_limits_of True) \<longrightarrow> 1 \<le> tl_PerRepository L" by (simp add: sample_limits_of_def)
  moreover have r: "reach (slot_init 1) (slot_step (\<lambda>L. L = sample_limits_of True)) (sample_slots True)"
    by (rule sample_slots_reach) simp
  moreover have n: "\<not> can_go_on (sample_slots True) 1"
    by (simp add: can_go_on_def caller_step_def sample_slots_def)
  ultimately show ?thesis
    using slots_no_lost_wakeup [OF r _ n] by (simp add: sample_slots_def)
qed

theorem slots_jobs_first_witness:
  "\<exists>t. slot_step (\<lambda>L. True) (sample_slots True) t \<and> ss_callers t 2 \<noteq> Running ''b'' False True"
proof -
  have r: "reach (slot_init 1) (slot_step (\<lambda>L. True)) (sample_slots True)" by (rule sample_slots_reach) simp
  have j: "job_waits (ss_callers (sample_slots True) 1)" by (simp add: sample_slots_def)
  have p: "ss_callers (sample_slots True) 2 = Asking ''b'' False (sample_limits_of True)" by (simp add: sample_slots_def)
  obtain a g p where "caller_step (ss_admission (sample_slots True)) (ss_gate (sample_slots True)) (ss_callers (sample_slots True) 2) Turn = Some (a, g, p)"
    using turns_happen(1) [of "ss_admission (sample_slots True)" "ss_gate (sample_slots True)" "''b''" False "sample_limits_of True"]
    unfolding p by auto
  then have s: "slot_step (\<lambda>L. True) (sample_slots True) \<lparr>ss_admission = a, ss_gate = g, ss_callers = (ss_callers (sample_slots True))(2 := p)\<rparr>"
    by (rule slot_step.slot_stepI) simp
  have "ss_callers (sample_slots True) 2 \<noteq> Running ''b'' False True" by (simp add: sample_slots_def)
  then show ?thesis using slots_jobs_first [OF r j s, of 2 "''b''" False] s by blast
qed

end
