(* ===== verification/Utf8.thy ===== *)
theory Utf8
  imports Prelude
begin

text \<open>
  The functions of Go's package \<open>unicode/utf8\<close> that the modelled code calls on strings which need
  not be valid, and \<open>strings.ToValidUTF8\<close>. A decoded rune is its width and whether the
  bytes are one: an invalid byte has width one.
\<close>

definition rune_size :: "char \<Rightarrow> nat" where
  "rune_size a = (if in_range 194 223 a then 2 else if in_range 224 239 a then 3 else if in_range 240 244 a then 4 else 1)"

definition second_ok :: "char \<Rightarrow> char \<Rightarrow> bool" where
  "second_ok a = in_range (if byte a = 224 then 160 else if byte a = 240 then 144 else 128)
     (if byte a = 237 then 159 else if byte a = 244 then 143 else 191)"

text \<open>\<open>DecodeRuneInString\<close>, without the code point.\<close>

fun DecodeRune :: "bytes \<Rightarrow> nat \<times> bool" where
  "DecodeRune [] = (0, False)"
| "DecodeRune (a # t) =
     (if byte a < 128 then (1, True)
      else if rune_size a = 1 \<or> length t + 1 < rune_size a then (1, False)
      else if \<not> second_ok a (t ! 0) \<or> (3 \<le> rune_size a \<and> \<not> utf8_tail (t ! 1)) \<or>
        (4 \<le> rune_size a \<and> \<not> utf8_tail (t ! 2)) then (1, False)
      else (rune_size a, True))"

text \<open>\<open>FullRuneInString\<close>: no further byte changes what the string begins with.\<close>

fun FullRune :: "bytes \<Rightarrow> bool" where
  "FullRune [] = False"
| "FullRune (a # t) \<longleftrightarrow> rune_size a \<le> length t + 1 \<or> (t \<noteq> [] \<and> \<not> second_ok a (t ! 0)) \<or>
     (1 < length t \<and> \<not> utf8_tail (t ! 1))"

definition RuneStart :: "char \<Rightarrow> bool" where
  "RuneStart c \<longleftrightarrow> \<not> utf8_tail c"

definition RuneErrorText :: bytes where
  "RuneErrorText = [CHR 0xEF, CHR 0xBF, CHR 0xBD]"

lemma rune_size_range: "1 \<le> rune_size a" "rune_size a \<le> 4"
  by (simp_all add: rune_size_def)

lemma decode_width:
  assumes "s \<noteq> []"
  shows "1 \<le> fst (DecodeRune s)" "fst (DecodeRune s) \<le> length s" "fst (DecodeRune s) \<le> 4"
  using assms rune_size_range by (cases s; auto)+

lemma decode_invalid: "DecodeRune s = (w, False) \<Longrightarrow> s \<noteq> [] \<Longrightarrow> w = 1"
  by (cases s) (auto split: if_splits)

text \<open>\<open>to_valid\<close> is the loop of \<open>ToValidUTF8\<close> with its flag for a run of invalid bytes.\<close>

function to_valid :: "bool \<Rightarrow> bytes \<Rightarrow> bytes" where
  "to_valid invalid s =
     (if s = [] then []
      else case DecodeRune s of
        (w, True) \<Rightarrow> take w s @ to_valid False (drop w s)
      | (w, False) \<Rightarrow> (if invalid then [] else RuneErrorText) @ to_valid True (drop 1 s))"
  by pat_completeness auto
termination
proof (relation "measure (\<lambda>(invalid, s). length s)", goal_cases)
  case (2 invalid s w)
  then have "1 \<le> w" using decode_width(1) [of s] by (metis fst_conv)
  then show ?case using 2 by (simp add: diff_less)
qed simp_all

declare to_valid.simps [simp del]

definition ToValidUTF8 :: "bytes \<Rightarrow> bytes" where
  "ToValidUTF8 s = to_valid False s"

lemma to_valid_Nil [simp]: "to_valid invalid [] = []"
  by (simp add: to_valid.simps)

subsection \<open>Decoding and validity\<close>

text \<open>More bytes after a full rune change nothing.\<close>

lemma decode_stable:
  assumes "FullRune s" shows "DecodeRune (s @ u) = DecodeRune s"
proof (cases s)
  case (Cons a t)
  let ?n = "rune_size a"
  consider "?n = 1" | "1 < ?n" "?n \<le> length t + 1" | "length t + 1 < ?n" using rune_size_range(1) [of a] by linarith
  then show ?thesis
  proof cases
    case 2
    then have "(t @ u) ! 0 = t ! 0" "3 \<le> ?n \<longrightarrow> (t @ u) ! 1 = t ! 1" "4 \<le> ?n \<longrightarrow> (t @ u) ! 2 = t ! 2"
      by (auto simp: nth_append)
    then show ?thesis using 2 by (cases "3 \<le> ?n"; cases "4 \<le> ?n") (simp_all add: Cons not_less)
  next
    case 3
    then consider "t \<noteq> []" "\<not> second_ok a (t ! 0)" | "1 < length t" "\<not> utf8_tail (t ! 1)"
      using assms by (auto simp: Cons)
    then show ?thesis
    proof cases
      case 1
      then show ?thesis using 3 by (simp add: Cons nth_append)
    next
      case 2
      then have "(t @ u) ! 1 = t ! 1" "3 \<le> ?n" using 3 by (simp_all add: nth_append)
      then show ?thesis using 2 3 by (simp add: Cons)
    qed
  qed (simp add: Cons)
qed (use assms in simp)

lemma decode_short: "\<not> FullRune s \<Longrightarrow> length s < 4"
  using rune_size_range(2) [of "hd s"] by (cases s) auto

text \<open>Induction over a string rune by rune.\<close>

lemma rune_induct [case_names Nil rune invalid]:
  assumes "P []" and "\<And>s w. s \<noteq> [] \<Longrightarrow> DecodeRune s = (w, True) \<Longrightarrow> P (drop w s) \<Longrightarrow> P s"
    and "\<And>s. s \<noteq> [] \<Longrightarrow> DecodeRune s = (1, False) \<Longrightarrow> P (drop 1 s) \<Longrightarrow> P s"
  shows "P s"
proof (induction s rule: length_induct)
  case (1 s)
  show ?case
  proof (cases "s = []")
    case False
    obtain w ok where d: "DecodeRune s = (w, ok)" by (cases "DecodeRune s")
    have "length (drop w s) < length s" using False decode_width(1) [OF False] d by simp
    then have "P (drop w s)" using 1 by blast
    then show ?thesis using assms(2,3) False d decode_invalid [of s w] by (cases ok) auto
  qed (simp add: assms(1))
qed

lemma decode_valid:
  assumes "DecodeRune s = (w, True)"
  shows "valid_utf8 (take w s)" "valid_utf8 (drop w s) = valid_utf8 s"
proof -
  obtain a t where s: "s = a # t" using assms by (cases s) auto
  have "valid_utf8 (take w s) \<and> valid_utf8 (drop w s) = valid_utf8 s"
  proof (cases "byte a < 128")
    case False
    consider "rune_size a = 2" "in_range 194 223 a" | "rune_size a = 3" "in_range 224 239 a" | "rune_size a = 4" "in_range 240 244 a"
      using assms False unfolding s by (auto simp: rune_size_def split: if_splits)
    then show ?thesis
    proof cases
      case 1
      then show ?thesis using assms False unfolding s
        by (cases t) (auto simp: second_ok_def in_range_def utf8_tail_def split: if_splits)
    next
      case 2
      then show ?thesis using assms False unfolding s
        by (cases t; cases "tl t") (auto simp: second_ok_def in_range_def utf8_tail_def split: if_splits)
    next
      case 3
      then show ?thesis using assms False unfolding s
        by (cases t; cases "tl t"; cases "tl (tl t)") (auto simp: second_ok_def in_range_def utf8_tail_def numeral_3_eq_3 numeral_2_eq_2 split: if_splits)
    qed
  qed (use assms s in auto)
  then show "valid_utf8 (take w s)" "valid_utf8 (drop w s) = valid_utf8 s" by simp_all
qed

lemma rune_size_cases:
  assumes "\<not> byte a < 128"
  obtains "rune_size a = 1" "\<not> in_range 194 223 a" "\<not> in_range 224 239 a" "\<not> in_range 240 244 a"
  | "rune_size a = 2" "in_range 194 223 a"
  | "rune_size a = 3" "in_range 224 239 a" "\<not> in_range 194 223 a"
  | "rune_size a = 4" "in_range 240 244 a" "\<not> in_range 194 223 a" "\<not> in_range 224 239 a"
proof (cases "in_range 194 223 a \<or> in_range 224 239 a \<or> in_range 240 244 a")
  case True
  then show ?thesis using that(2-4) by (auto simp: rune_size_def in_range_def)
qed (use that(1) in \<open>simp add: rune_size_def\<close>)

lemma decode_not_valid: "DecodeRune s = (1, False) \<Longrightarrow> \<not> valid_utf8 s"
proof (cases s)
  case (Cons a t)
  assume d: "DecodeRune s = (1, False)"
  then have big: "\<not> byte a < 128" by (auto simp: Cons)
  then show ?thesis
  proof (cases rule: rune_size_cases)
    case 1
    then show ?thesis using big by (simp add: Cons)
  next
    case 2
    then show ?thesis using big d
      by (cases t) (auto simp: Cons second_ok_def in_range_def utf8_tail_def split: if_splits)
  next
    case 3
    show ?thesis
    proof (cases "2 \<le> length t")
      case True
      then obtain b c u where "t = b # c # u" by (cases t; cases "tl t") auto
      then show ?thesis using 3 big d by (auto simp: Cons second_ok_def in_range_def split: if_splits)
    next
      case False
      then show ?thesis using 3 big by (cases t; cases "tl t") (auto simp: Cons)
    qed
  next
    case 4
    show ?thesis
    proof (cases "3 \<le> length t")
      case True
      then obtain b c e u where "t = b # c # e # u" by (cases t; cases "tl t"; cases "tl (tl t)") auto
      then show ?thesis using 4 big d by (auto simp: Cons second_ok_def in_range_def numeral_2_eq_2 split: if_splits)
    next
      case False
      then show ?thesis using 4 big by (cases t; cases "tl t"; cases "tl (tl t)") (auto simp: Cons)
    qed
  qed
qed simp

lemma valid_utf8_iff_decode: "s \<noteq> [] \<Longrightarrow> valid_utf8 s \<longleftrightarrow> snd (DecodeRune s) \<and> valid_utf8 (drop (fst (DecodeRune s)) s)"
proof -
  assume ne: "s \<noteq> []"
  obtain w ok where d: "DecodeRune s = (w, ok)" by (cases "DecodeRune s")
  show ?thesis using decode_valid(2) [of s w] decode_not_valid [of s] decode_invalid [OF _ ne, of w] d by (cases ok) auto
qed

lemma rune_size_ascii: "byte a < 128 \<Longrightarrow> rune_size a = 1"
  by (simp add: rune_size_def in_range_def)

lemma decode_ok_append: "DecodeRune s = (w, True) \<Longrightarrow> DecodeRune (s @ t) = (w, True)"
proof -
  assume d: "DecodeRune s = (w, True)"
  then have "FullRune s" by (cases s) (auto simp: rune_size_ascii split: if_splits)
  then show ?thesis using d decode_stable by simp
qed

lemma valid_utf8_append: "valid_utf8 s \<Longrightarrow> valid_utf8 (s @ t) = valid_utf8 t"
proof (induction s rule: rune_induct)
  case (rune s w)
  then have "w \<le> length s" "valid_utf8 (drop w s)" using decode_width(2) [of s] decode_valid(2) [of s w] by auto
  then show ?case
    using rune.IH decode_valid(2) [OF decode_ok_append [OF rune.hyps(2), of t]] by simp
next
  case (invalid s)
  then show ?case using decode_not_valid [of s] by simp
qed simp

lemma RuneErrorText_valid: "valid_utf8 RuneErrorText"
  by (simp add: RuneErrorText_def in_range_def utf8_tail_def byte_def)

lemma decode_tails:
  assumes "DecodeRune s = (w, True)" and "0 < j" and "j < w"
  shows "utf8_tail (s ! j)"
proof (cases s)
  case (Cons a t)
  have second: "utf8_tail b" if "second_ok a b" for b
    using that by (auto simp: second_ok_def utf8_tail_def in_range_def split: if_splits)
  have big: "\<not> byte a < 128" and w: "w = rune_size a" using assms by (auto simp: Cons split: if_splits)
  have "j = 1 \<or> j = 2 \<or> j = 3" using assms(2,3) w rune_size_range(2) [of a] by linarith
  then show ?thesis using assms big w second by (auto simp: Cons nth_Cons' split: if_splits)
qed (use assms in simp)

lemma decode_start: "DecodeRune s = (w, True) \<Longrightarrow> RuneStart (s ! 0)"
  by (cases s) (auto simp: RuneStart_def utf8_tail_def in_range_def rune_size_def split: if_splits)

text \<open>A valid string may be cut in front of every byte that begins a rune.\<close>

lemma valid_drop:
  assumes "valid_utf8 s" and "i < length s \<longrightarrow> RuneStart (s ! i)"
  shows "valid_utf8 (drop i s)"
  using assms
proof (induction s arbitrary: i rule: rune_induct)
  case (rune s w)
  show ?case
  proof (cases "i = 0 \<or> length s \<le> i")
    case False
    have le: "w \<le> length s" using decode_width(2) [OF rune.hyps(1)] rune.hyps(2) by simp
    have "w \<le> i"
      by (rule leI, rule notI) (use False rune.prems(2) decode_tails [OF rune.hyps(2), of i] in \<open>simp add: RuneStart_def\<close>)
    then have "drop i s = drop (i - w) (drop w s)" by simp
    moreover have "i - w < length (drop w s) \<longrightarrow> RuneStart (drop w s ! (i - w))"
      using \<open>w \<le> i\<close> rune.prems(2) le by auto
    ultimately show ?thesis using rune.IH rune.prems(1) decode_valid(2) [OF rune.hyps(2)] by metis
  qed (use rune.prems in auto)
next
  case (invalid s)
  then show ?case using decode_not_valid [of s] by simp
qed simp

lemma valid_take_drop: "valid_utf8 s \<Longrightarrow> valid_utf8 (drop i s) \<Longrightarrow> valid_utf8 (take i s)"
proof (induction s arbitrary: i rule: rune_induct)
  case (rune s w)
  have le: "w \<le> length s" "1 \<le> w" using decode_width(1,2) [OF rune.hyps(1)] rune.hyps(2) by simp_all
  show ?case
  proof (cases "w \<le> i")
    case True
    then have t: "take i s = take w s @ take (i - w) (drop w s)" "drop i s = drop (i - w) (drop w s)"
      using take_add [of w "i - w" s] by simp_all
    have "valid_utf8 (take (i - w) (drop w s))"
      using rune.IH [of "i - w"] rune.prems t(2) decode_valid(2) [OF rune.hyps(2)] by simp
    then show ?thesis unfolding t(1) valid_utf8_append [OF decode_valid(1) [OF rune.hyps(2)]] .
  next
    case False
    show ?thesis
    proof (cases "i = 0")
      case False
      then have tail: "utf8_tail (s ! i)" using \<open>\<not> w \<le> i\<close> decode_tails [OF rune.hyps(2), of i] by simp
      have ne: "drop i s \<noteq> []" using \<open>\<not> w \<le> i\<close> le(1) by simp
      then have "snd (DecodeRune (drop i s))" using rune.prems(2) valid_utf8_iff_decode by blast
      then have "RuneStart (drop i s ! 0)" using decode_start [of "drop i s"] by (metis prod.collapse)
      then show ?thesis using tail ne by (simp add: RuneStart_def)
    qed simp
  qed
next
  case (invalid s)
  then show ?case using decode_not_valid [of s] by simp
qed simp

subsection \<open>Replacing invalid bytes\<close>

lemma to_valid_rune: "s \<noteq> [] \<Longrightarrow> DecodeRune s = (w, True) \<Longrightarrow> to_valid invalid s = take w s @ to_valid False (drop w s)"
  by (subst to_valid.simps) simp

lemma to_valid_bad: "s \<noteq> [] \<Longrightarrow> DecodeRune s = (w, False) \<Longrightarrow>
    to_valid invalid s = (if invalid then [] else RuneErrorText) @ to_valid True (drop 1 s)"
  by (subst to_valid.simps) simp

lemma to_valid_valid: "valid_utf8 (to_valid invalid s)"
proof (induction s arbitrary: invalid rule: rune_induct)
  case (rune s w)
  then show ?case using valid_utf8_append [OF decode_valid(1) [of s w]] by (simp add: to_valid_rune)
next
  case (invalid s)
  then show ?case using valid_utf8_append [OF RuneErrorText_valid] by (simp add: to_valid_bad)
qed simp

lemma to_valid_id: "valid_utf8 s \<Longrightarrow> to_valid invalid s = s"
proof (induction s arbitrary: invalid rule: rune_induct)
  case (rune s w)
  then show ?case using decode_valid(2) [of s w] by (simp add: to_valid_rune)
next
  case (invalid s)
  then show ?case using decode_not_valid [of s] by simp
qed simp

lemma ToValidUTF8_valid [simp]: "valid_utf8 (ToValidUTF8 s)"
  by (simp add: ToValidUTF8_def to_valid_valid)

lemma ToValidUTF8_id: "valid_utf8 s \<Longrightarrow> ToValidUTF8 s = s"
  by (simp add: ToValidUTF8_def to_valid_id)

subsection \<open>Cutting between runes\<close>

lemma decode_take: "DecodeRune s = (w, True) \<Longrightarrow> w \<le> n \<Longrightarrow> DecodeRune (take n s) = (w, True)"
proof (cases s)
  case (Cons a t)
  assume d: "DecodeRune s = (w, True)" and n: "w \<le> n"
  have w: "1 \<le> w" using decode_width(1) [of s] d by (simp add: Cons)
  show ?thesis
  proof (cases "byte a < 128")
    case False
    then have z: "w = rune_size a" "rune_size a \<le> length t + 1" using d by (auto simp: Cons split: if_splits)
    then have "rune_size a \<noteq> 1" using False d by (auto simp: Cons)
    then have "take (n - 1) t ! 0 = t ! 0" "3 \<le> rune_size a \<longrightarrow> take (n - 1) t ! 1 = t ! 1"
      "4 \<le> rune_size a \<longrightarrow> take (n - 1) t ! 2 = t ! 2" "rune_size a \<le> length (take (n - 1) t) + 1"
      using z n w by auto
    then show ?thesis using False d w n z
      by (cases "3 \<le> rune_size a"; cases "4 \<le> rune_size a")
         (auto simp: Cons take_Cons' not_less simp del: One_nat_def length_take nth_take split: if_splits)
  qed (use d n w in \<open>auto simp: Cons take_Cons'\<close>)
qed simp

lemma decode_take_bad: "DecodeRune s = (1, False) \<Longrightarrow> 1 \<le> n \<Longrightarrow> DecodeRune (take n s) = (1, False)"
proof -
  assume d: "DecodeRune s = (1, False)" and n: "1 \<le> n"
  then have ne: "take n s \<noteq> []" by auto
  obtain w ok where x: "DecodeRune (take n s) = (w, ok)" by (cases "DecodeRune (take n s)")
  show ?thesis
  proof (cases ok)
    case True
    then have "DecodeRune (take n s @ drop n s) = (w, True)" using x decode_ok_append [of "take n s" w "drop n s"] by simp
    then show ?thesis using d by simp
  qed (use x decode_invalid [OF _ ne] in auto)
qed

text \<open>One rune or invalid byte in front, as \<open>to_valid\<close> writes it.\<close>

definition rune_text :: "bool \<Rightarrow> bytes \<Rightarrow> bytes" where
  "rune_text invalid s =
     (case DecodeRune s of (w, ok) \<Rightarrow> if ok then take w s else if invalid then [] else RuneErrorText)"

lemma to_valid_step:
  assumes "s \<noteq> []" and "DecodeRune s = (w, ok)"
  shows "to_valid invalid s = rune_text invalid s @ to_valid (\<not> ok) (drop w s)"
    "to_valid invalid (take (w + n) s) = rune_text invalid s @ to_valid (\<not> ok) (take n (drop w s))"
proof -
  have w: "1 \<le> w" "w \<le> length s" "\<not> ok \<longrightarrow> w = 1" using decode_width(1,2) [OF assms(1)] decode_invalid [of s w] assms by auto
  have ne: "take (w + n) s \<noteq> []" and parts: "take w (take (w + n) s) = take w s" "drop w (take (w + n) s) = take n (drop w s)"
    using w(1) assms(1) by (simp_all add: drop_take)
  show "to_valid invalid s = rune_text invalid s @ to_valid (\<not> ok) (drop w s)"
    using assms w(3) by (cases ok) (simp_all add: to_valid_rune to_valid_bad rune_text_def)
  show "to_valid invalid (take (w + n) s) = rune_text invalid s @ to_valid (\<not> ok) (take n (drop w s))"
  proof (cases ok)
    case True
    then have "DecodeRune (take (w + n) s) = (w, True)" using decode_take [of s w "w + n"] assms(2) by simp
    from to_valid_rune [OF ne this, of invalid] show ?thesis using True assms(2) by (simp add: parts rune_text_def)
  next
    case False
    then have "DecodeRune (take (w + n) s) = (1, False)" using decode_take_bad [of s "w + n"] assms(2) w by simp
    from to_valid_bad [OF ne this, of invalid] show ?thesis using False assms(2) w(3) parts(2) by (simp add: rune_text_def)
  qed
qed

lemma rune_text_length: "s \<noteq> [] \<Longrightarrow> length (rune_text invalid s) \<le> 4"
  using decode_width(3) [of s] by (auto simp: rune_text_def RuneErrorText_def split: prod.split)

end
