(* ===== verification/Masking.thy ===== *)
theory Masking
  imports Utf8
begin

text \<open>
  Masking of secret values in the output of a workflow step: the masks and the literal redactor
  of \<open>actions/masking.go\<close>. A mask is a string; the masks keep the order in which they were
  remembered.
\<close>

subsection \<open>The masks\<close>

definition maxAddedMasks :: nat where
  "maxAddedMasks = 256"

definition maxMaskBytes :: nat where
  "maxMaskBytes = 8 * 1024"

datatype mask_fail = errMaskLimit

record masker =
  mk_values :: "bytes list"
  mk_added :: nat
  mk_stopped :: bool

definition remember :: "bytes \<Rightarrow> masker \<Rightarrow> masker" where
  "remember v msk =
     (if v = [] then msk
      else if v \<in> set (mk_values msk) then msk
      else msk\<lparr>mk_values := mk_values msk @ [v]\<rparr>)"

text \<open>\<open>strings.FieldsFunc\<close> for the line ends.\<close>

definition line_end :: "char \<Rightarrow> bool" where
  "line_end c \<longleftrightarrow> c = CHR 0x0D \<or> c = CHR 0x0A"

fun line_fields :: "bytes \<Rightarrow> bytes \<Rightarrow> bytes list" where
  "line_fields field [] = (if field = [] then [] else [field])"
| "line_fields field (c # s) =
     (if line_end c then (if field = [] then [] else [field]) @ line_fields [] s else line_fields (field @ [c]) s)"

text \<open>The values come in the order in which Go walks the map.\<close>

definition remember_secret :: "masker \<Rightarrow> bytes \<Rightarrow> masker" where
  "remember_secret msk v =
     (let mask1 = remember v msk in
      if list_ex line_end v
        then foldl (\<lambda>m line. if length line \<ge> 8 then remember line m else m) mask1 (line_fields [] v)
        else mask1)"

definition newMasker :: "bytes list \<Rightarrow> masker" where
  "newMasker secrets = foldl remember_secret \<lparr>mk_values = [], mk_added = 0, mk_stopped = False\<rparr> secrets"

definition add_mask :: "bytes \<Rightarrow> masker \<Rightarrow> masker \<times> mask_fail option" where
  "add_mask v msk =
     (if length v > maxMaskBytes \<or> \<not> valid_utf8 v \<or> CHR 0x00 \<in> set v then (msk\<lparr>mk_stopped := True\<rparr>, Some errMaskLimit)
      else if v \<in> set (mk_values msk) then (msk, None)
      else if v \<noteq> [] then
        (if mk_added msk \<ge> maxAddedMasks then (msk\<lparr>mk_stopped := True\<rparr>, Some errMaskLimit)
         else ((remember v msk)\<lparr>mk_added := mk_added msk + 1\<rparr>, None))
      else (msk, None))"

subsection \<open>The literal redactor\<close>

record literalRedactor =
  lr_pending :: bytes
  lr_covered :: nat
  lr_invalid :: bool

definition newRedactor :: literalRedactor where
  "newRedactor = \<lparr>lr_pending = [], lr_covered = 0, lr_invalid = False\<rparr>"

text \<open>The two results of the loop over the masks at one position.\<close>

definition mask_size :: "bytes list \<Rightarrow> bytes \<Rightarrow> nat" where
  "mask_size masks rest = fold (\<lambda>m n. if prefix m rest then max n (length m) else n) masks 0"

definition mask_partial :: "bytes list \<Rightarrow> bytes \<Rightarrow> bool" where
  "mask_partial masks rest \<longleftrightarrow> list_ex (\<lambda>m. \<not> prefix m rest \<and> length rest < length m \<and> prefix rest m) masks"

definition redacted_text :: bytes where
  "redacted_text = ''[redacted]''"

text \<open>The loop of \<open>write\<close> over the pending bytes: what stays pending, the bytes still covered, the
  flag for invalid bytes, and the output.\<close>

function redact_loop :: "bytes list \<Rightarrow> bool \<Rightarrow> bytes \<Rightarrow> nat \<Rightarrow> bool \<Rightarrow> bytes \<times> nat \<times> bool \<times> bytes" where
  "redact_loop masks final rest covered invalid =
     (if rest = [] then ([], covered, invalid, [])
      else let n = mask_size masks rest in
        if \<not> final \<and> (mask_partial masks rest \<or> \<not> FullRune rest) then (rest, covered, invalid, [])
        else let mark = (if n > 0 \<and> covered = 0 then redacted_text else []);
            covered1 = (if n > 0 then max covered n else covered) in
          if covered1 > 0
            then (case redact_loop masks final (drop 1 rest) (covered1 - 1) invalid of (r, c, i, out) \<Rightarrow> (r, c, i, mark @ out))
            else (case DecodeRune rest of (width, ok) \<Rightarrow>
              (case redact_loop masks final (drop width rest) covered1 (\<not> ok) of (r, c, i, out) \<Rightarrow>
                (r, c, i, (if ok then take width rest else if invalid then [] else RuneErrorText) @ out))))"
  by pat_completeness auto
termination
proof (relation "measure (\<lambda>(masks, final, rest, covered, invalid). length rest)", goal_cases)
  case (3 masks final rest covered invalid n mark covered1 width ok)
  then have "1 \<le> width" using decode_width(1) [of rest] by (metis fst_conv)
  then show ?case using 3 by (simp add: diff_less)
qed simp_all

declare redact_loop.simps [simp del]

definition lr_write :: "bytes list \<Rightarrow> bytes \<Rightarrow> bool \<Rightarrow> literalRedactor \<Rightarrow> literalRedactor \<times> bytes" where
  "lr_write masks v final r =
     (case redact_loop masks final (lr_pending r @ v) (lr_covered r) (lr_invalid r) of (rest, covered, invalid, out) \<Rightarrow>
       (\<lparr>lr_pending = rest, lr_covered = covered, lr_invalid = invalid\<rparr>, out))"

definition mask_text :: "masker \<Rightarrow> bytes \<Rightarrow> bytes" where
  "mask_text msk v =
     (if v = [] then [] else if mk_stopped msk then ''[output withheld]''
      else snd (lr_write (mk_values msk) v True newRedactor))"

subsection \<open>One position\<close>

lemma mask_size_fold: "fold (\<lambda>m n. if prefix m rest then max n (length m) else n) masks n =
    Max (insert n (length ` {m \<in> set masks. prefix m rest}))"
proof (induction masks arbitrary: n)
  case (Cons m masks)
  have fin: "finite (length ` {m \<in> set masks. prefix m rest})" by simp
  show ?case
  proof (cases "prefix m rest")
    case True
    then have "{x \<in> set (m # masks). prefix x rest} = insert m {x \<in> set masks. prefix x rest}" by auto
    then show ?thesis using Cons True fin by (cases "{x \<in> set masks. prefix x rest} = {}") (auto simp: max.assoc max.commute max.left_commute)
  next
    case False
    then have "{x \<in> set (m # masks). prefix x rest} = {x \<in> set masks. prefix x rest}" by auto
    then show ?thesis using Cons False by simp
  qed
qed simp

lemma mask_size_less: "i < mask_size masks rest \<longleftrightarrow> (\<exists>m \<in> set masks. prefix m rest \<and> i < length m)"
  unfolding mask_size_def mask_size_fold by (subst Max_gr_iff) auto

lemma mask_size_append:
  assumes "\<not> mask_partial masks s"
  shows "mask_size masks (s @ t) = mask_size masks s"
proof -
  have "prefix m (s @ t) \<longleftrightarrow> prefix m s" if "m \<in> set masks" for m
    using assms that by (auto simp: mask_partial_def list_ex_iff prefix_append)
  then have "i < mask_size masks (s @ t) \<longleftrightarrow> i < mask_size masks s" for i
    unfolding mask_size_less by blast
  then show ?thesis by (meson linorder_neq_iff)
qed

lemma mask_partial_append:
  assumes "mask_partial masks (s @ t)" shows "mask_partial masks s"
proof -
  obtain m where m: "m \<in> set masks" "length (s @ t) < length m" "prefix (s @ t) m"
    using assms by (auto simp: mask_partial_def list_ex_iff)
  then have "length s < length m" "prefix s m" by (auto dest: append_prefixD)
  moreover from this have "\<not> prefix m s" using prefix_length_le by fastforce
  ultimately show ?thesis using m(1) by (auto simp: mask_partial_def list_ex_iff)
qed

lemma FullRune_append: "FullRune s \<Longrightarrow> FullRune (s @ t)"
  by (cases s) (auto simp: nth_append)

subsection \<open>Text in pieces\<close>

text \<open>One turn of the loop, with the position it goes on from.\<close>

lemma redact_loop_step:
  assumes "rest \<noteq> []" and "final \<or> \<not> (mask_partial masks rest \<or> \<not> FullRune rest)"
    and "covered1 = (if mask_size masks rest > 0 then max covered (mask_size masks rest) else covered)"
  shows "redact_loop masks final rest covered invalid =
    (if covered1 > 0
     then (case redact_loop masks final (drop 1 rest) (covered1 - 1) invalid of (r, c, i, out) \<Rightarrow>
       (r, c, i, (if mask_size masks rest > 0 \<and> covered = 0 then redacted_text else []) @ out))
     else (case redact_loop masks final (drop (fst (DecodeRune rest)) rest) 0 (\<not> snd (DecodeRune rest)) of (r, c, i, out) \<Rightarrow>
       (r, c, i, rune_text invalid rest @ out)))"
  unfolding assms(3)
  by (subst redact_loop.simps) (use assms(1,2) in \<open>auto simp: Let_def rune_text_def split: prod.split\<close>)

lemma redact_loop_stops:
  assumes "rest = [] \<or> \<not> final \<and> (mask_partial masks rest \<or> \<not> FullRune rest)"
  shows "redact_loop masks final rest covered invalid = (rest, covered, invalid, [])"
  using assms by (subst redact_loop.simps) (auto simp: Let_def)

lemma redact_loop_pending:
  "redact_loop masks False rest covered invalid = (r, c, i, out) \<Longrightarrow> r = [] \<or> mask_partial masks r \<or> \<not> FullRune r"
proof (induction rest arbitrary: covered invalid r c i out rule: length_induct)
  case (1 rest)
  show ?case
  proof (cases "rest = [] \<or> (mask_partial masks rest \<or> \<not> FullRune rest)")
    case True
    then show ?thesis using 1(2) redact_loop_stops [of rest False masks covered invalid] by auto
  next
    case False
    then have w: "length (drop 1 rest) < length rest" "length (drop (fst (DecodeRune rest)) rest) < length rest"
      using decode_width(1) [of rest] by auto
    show ?thesis
      using 1(2) False 1(1) [rule_format, OF w(1)] 1(1) [rule_format, OF w(2)]
      by (subst (asm) redact_loop_step [OF _ _ refl]) (auto split: if_splits prod.splits)
  qed
qed

text \<open>More text only continues what was done: the output so far, then the loop from where it stopped.\<close>

lemma redact_loop_append:
  "redact_loop masks False s covered invalid = (r, c, i, out) \<Longrightarrow>
   redact_loop masks final (s @ t) covered invalid =
     (case redact_loop masks final (r @ t) c i of (r', c', i', out') \<Rightarrow> (r', c', i', out @ out'))"
proof (induction s arbitrary: covered invalid r c i out rule: length_induct)
  case (1 s)
  show ?case
  proof (cases "s = [] \<or> (mask_partial masks s \<or> \<not> FullRune s)")
    case True
    then show ?thesis using 1(2) redact_loop_stops [of s False masks covered invalid] by (auto split: prod.split)
  next
    case False
    define covered1 where "covered1 = (if mask_size masks s > 0 then max covered (mask_size masks s) else covered)"
    have go: "s \<noteq> []" "\<not> (mask_partial masks s \<or> \<not> FullRune s)" "s @ t \<noteq> []"
      "\<not> (mask_partial masks (s @ t) \<or> \<not> FullRune (s @ t))"
      using False mask_partial_append FullRune_append by auto
    have size: "mask_size masks (s @ t) = mask_size masks s" using go(2) by (simp add: mask_size_append)
    have dec: "DecodeRune (s @ t) = DecodeRune s" using go(2) decode_stable by blast
    have w: "fst (DecodeRune s) \<le> length s" using decode_width(2) [OF go(1)] .
    have text': "rune_text invalid (s @ t) = rune_text invalid s" using w by (cases "DecodeRune s") (simp add: rune_text_def dec)
    have shorter: "length (drop 1 s) < length s" "length (drop (fst (DecodeRune s)) s) < length s"
      using go(1) decode_width(1) [OF go(1)] by auto
    have drops: "drop 1 (s @ t) = drop 1 s @ t" "drop (fst (DecodeRune s)) (s @ t) = drop (fst (DecodeRune s)) s @ t"
      using w go(1) by (simp_all add: Suc_le_eq del: DecodeRune.simps)
    note st = redact_loop_step [OF go(1) disjI2 [OF go(2)] covered1_def, of False invalid]
    note st' = redact_loop_step [OF go(3) disjI2 [OF go(4)] covered1_def [folded size], of final invalid, unfolded size dec text' drops]
    show ?thesis
    proof (cases "covered1 > 0")
      case True
      obtain o1 where o1: "redact_loop masks False (drop 1 s) (covered1 - 1) invalid = (r, c, i, o1)"
        "out = (if mask_size masks s > 0 \<and> covered = 0 then redacted_text else []) @ o1"
        using 1(2) st True by (auto split: prod.splits)
      show ?thesis
        unfolding st' 1(1) [rule_format, OF shorter(1) o1(1)] using True o1(2) by (auto split: prod.split)
    next
      case False
      obtain o1 where o1: "redact_loop masks False (drop (fst (DecodeRune s)) s) 0 (\<not> snd (DecodeRune s)) = (r, c, i, o1)"
        "out = rune_text invalid s @ o1"
        using 1(2) st False by (auto split: prod.splits)
      show ?thesis
        unfolding st' 1(1) [rule_format, OF shorter(2) o1(1)] using False o1(2) by (auto split: prod.split)
    qed
  qed
qed

text \<open>Writing two pieces is writing them joined.\<close>

lemma lr_write_append:
  assumes "lr_write masks a False r = (r1, out1)" and "lr_write masks b final r1 = (r2, out2)"
  shows "lr_write masks (a @ b) final r = (r2, out1 @ out2)"
proof -
  obtain x c i where l: "redact_loop masks False (lr_pending r @ a) (lr_covered r) (lr_invalid r) = (x, c, i, out1)"
    and r1: "r1 = \<lparr>lr_pending = x, lr_covered = c, lr_invalid = i\<rparr>"
    using assms(1) by (auto simp: lr_write_def split: prod.splits)
  show ?thesis
    using redact_loop_append [OF l, of final b] assms(2) by (auto simp: lr_write_def r1 split: prod.splits)
qed

lemma lr_write_empty: "lr_write masks a False r = (r1, out) \<Longrightarrow> lr_write masks [] False r1 = (r1, [])"
  using redact_loop_pending [of masks "lr_pending r @ a" "lr_covered r" "lr_invalid r"]
  by (auto simp: lr_write_def redact_loop_stops split: prod.splits)

subsection \<open>What is hidden\<close>

text \<open>A byte is secret when an occurrence of a mask covers it; one that begins an occurrence outside
  every earlier one gets the marker.\<close>

definition occurs_at :: "bytes list \<Rightarrow> bytes \<Rightarrow> nat \<Rightarrow> nat \<Rightarrow> bool" where
  "occurs_at masks s j i \<longleftrightarrow> (\<exists>m \<in> set masks. prefix m (drop j s) \<and> j \<le> i \<and> i < j + length m)"

definition secret_at :: "bytes list \<Rightarrow> bytes \<Rightarrow> nat \<Rightarrow> bool" where
  "secret_at masks s i \<longleftrightarrow> (\<exists>j. occurs_at masks s j i)"

definition first_at :: "bytes list \<Rightarrow> bytes \<Rightarrow> nat \<Rightarrow> bool" where
  "first_at masks s i \<longleftrightarrow> occurs_at masks s i i \<and> (\<forall>j < i. \<not> occurs_at masks s j i)"

text \<open>The text in pieces: a rune that is shown, an invalid byte, a secret byte with or without the marker.\<close>

datatype piece = Shown bytes | Broken char | Secret bool char

fun piece_bytes :: "piece \<Rightarrow> bytes" where
  "piece_bytes (Shown b) = b" | "piece_bytes (Broken c) = [c]" | "piece_bytes (Secret fresh c) = [c]"

fun piece_secret :: "piece \<Rightarrow> bool list" where
  "piece_secret (Shown b) = replicate (length b) False"
| "piece_secret (Broken c) = [False]"
| "piece_secret (Secret fresh c) = [True]"

fun piece_fresh :: "piece \<Rightarrow> bool list" where
  "piece_fresh (Shown b) = replicate (length b) False"
| "piece_fresh (Broken c) = [False]"
| "piece_fresh (Secret fresh c) = [fresh]"

fun render :: "bool \<Rightarrow> piece list \<Rightarrow> bytes" where
  "render invalid [] = []"
| "render invalid (Shown b # ps) = b @ render False ps"
| "render invalid (Broken c # ps) = (if invalid then [] else RuneErrorText) @ render True ps"
| "render invalid (Secret fresh c # ps) = (if fresh then redacted_text else []) @ render invalid ps"

definition piece_ok :: "piece \<Rightarrow> bool" where
  "piece_ok p \<longleftrightarrow> (case p of Shown b \<Rightarrow> valid_utf8 b \<and> DecodeRune b = (length b, True) | _ \<Rightarrow> True)"

definition masks_ok :: "bytes list \<Rightarrow> bool" where
  "masks_ok masks \<longleftrightarrow> (\<forall>m \<in> set masks. m \<noteq> [] \<and> RuneStart (m ! 0))"

lemma occurs_at_tl: "occurs_at masks (drop n s) j i \<longleftrightarrow> occurs_at masks s (n + j) (n + i)"
  by (auto simp: occurs_at_def add.commute)

lemma occurs_at_0: "occurs_at masks s 0 i \<longleftrightarrow> i < mask_size masks s"
  by (auto simp: occurs_at_def mask_size_less)

lemma secret_at_Suc: "secret_at masks s (Suc i) \<longleftrightarrow> Suc i < mask_size masks s \<or> secret_at masks (drop 1 s) i"
proof -
  have "secret_at masks s (Suc i) \<longleftrightarrow> occurs_at masks s 0 (Suc i) \<or> (\<exists>j. occurs_at masks s (Suc j) (Suc i))"
    by (metis not0_implies_Suc secret_at_def)
  then show ?thesis using occurs_at_tl [of masks 1 s] occurs_at_0 by (simp add: secret_at_def)
qed

lemma secret_at_0: "secret_at masks s 0 \<longleftrightarrow> 0 < mask_size masks s"
  using occurs_at_0 [of masks s 0] by (auto simp: secret_at_def) (auto simp: occurs_at_def)

text \<open>No occurrence begins inside a rune that begins outside every occurrence.\<close>

lemma occurs_not_inside:
  assumes "masks_ok masks" and "DecodeRune s = (w, True)" and "0 < j" and "j < w"
  shows "\<not> occurs_at masks s j i"
proof
  assume "occurs_at masks s j i"
  then obtain m where m: "m \<in> set masks" "prefix m (drop j s)" by (auto simp: occurs_at_def)
  have ne: "m \<noteq> []" "RuneStart (m ! 0)" using assms(1) m(1) by (auto simp: masks_ok_def)
  then have "s ! j = m ! 0" using m(2) by (cases m; cases "drop j s") (auto simp: hd_drop_conv_nth nth_via_drop)
  then show False using ne(2) decode_tails [OF assms(2-4)] by (simp add: RuneStart_def)
qed

definition explained :: "bytes list \<Rightarrow> bytes \<Rightarrow> nat \<Rightarrow> bool \<Rightarrow> bytes \<Rightarrow> piece list \<Rightarrow> bool" where
  "explained masks s covered invalid out ps \<longleftrightarrow>
     concat (map piece_bytes ps) = s \<and> out = render invalid ps \<and> list_all piece_ok ps \<and>
     (\<forall>i < length s. concat (map piece_secret ps) ! i \<longleftrightarrow> i < covered \<or> secret_at masks s i) \<and>
     (\<forall>i < length s. concat (map piece_fresh ps) ! i \<longleftrightarrow> \<not> i < covered \<and> first_at masks s i)"

lemma first_at_Suc: "first_at masks s (Suc i) \<longleftrightarrow> \<not> Suc i < mask_size masks s \<and> first_at masks (drop 1 s) i"
proof -
  have "(\<forall>j < Suc i. \<not> occurs_at masks s j (Suc i)) \<longleftrightarrow>
      \<not> occurs_at masks s 0 (Suc i) \<and> (\<forall>j < i. \<not> occurs_at masks s (Suc j) (Suc i))"
    by (metis Suc_less_eq less_Suc_eq_0_disj)
  then show ?thesis using occurs_at_tl [of masks 1 s] by (auto simp: first_at_def occurs_at_0)
qed

lemma first_at_0: "first_at masks s 0 \<longleftrightarrow> 0 < mask_size masks s"
  by (simp add: first_at_def occurs_at_0)

lemma no_secret_before:
  assumes "\<And>j i. j < w \<Longrightarrow> \<not> occurs_at masks s j i"
  shows "secret_at masks s i \<longleftrightarrow> w \<le> i \<and> secret_at masks (drop w s) (i - w)"
    "first_at masks s i \<longleftrightarrow> w \<le> i \<and> first_at masks (drop w s) (i - w)"
proof -
  have shift: "occurs_at masks s j i \<longleftrightarrow> w \<le> j \<and> occurs_at masks (drop w s) (j - w) (i - w)" if "j \<le> i" for j
  proof (cases "w \<le> j")
    case True
    then show ?thesis using occurs_at_tl [of masks w s "j - w" "i - w"] that by simp
  qed (use assms in auto)
  have low: "j \<le> i" if "occurs_at masks x j i" for x j i using that by (auto simp: occurs_at_def)
  show "secret_at masks s i \<longleftrightarrow> w \<le> i \<and> secret_at masks (drop w s) (i - w)"
  proof
    assume "secret_at masks s i"
    then obtain j where j: "occurs_at masks s j i" by (auto simp: secret_at_def)
    then have "w \<le> j" "occurs_at masks (drop w s) (j - w) (i - w)" "j \<le> i" using shift [of j] low [of s j i] by auto
    then show "w \<le> i \<and> secret_at masks (drop w s) (i - w)" by (auto simp: secret_at_def)
  next
    assume "w \<le> i \<and> secret_at masks (drop w s) (i - w)"
    then obtain j where j: "w \<le> i" "occurs_at masks (drop w s) j (i - w)" by (auto simp: secret_at_def)
    then have "w + j \<le> i" using low [of "drop w s" j "i - w"] by simp
    then have "occurs_at masks s (w + j) i" using shift [of "w + j"] j by simp
    then show "secret_at masks s i" by (auto simp: secret_at_def)
  qed
  show "first_at masks s i \<longleftrightarrow> w \<le> i \<and> first_at masks (drop w s) (i - w)"
  proof (cases "w \<le> i")
    case True
    have "(\<forall>j < i. \<not> occurs_at masks s j i) \<longleftrightarrow> (\<forall>j < i - w. \<not> occurs_at masks (drop w s) j (i - w))"
    proof (intro iffI allI impI)
      fix j assume a: "\<forall>j < i. \<not> occurs_at masks s j i" and j: "j < i - w"
      then have "\<not> occurs_at masks s (w + j) i" "w + j \<le> i" by simp_all
      then show "\<not> occurs_at masks (drop w s) j (i - w)" using shift [of "w + j"] by simp
    next
      fix j assume a: "\<forall>j < i - w. \<not> occurs_at masks (drop w s) j (i - w)" and j: "j < i"
      have "j - w < i - w" if "w \<le> j" using j that by simp
      then show "\<not> occurs_at masks s j i" using shift [of j] a j by auto
    qed
    then show ?thesis using shift [of i] True by (simp add: first_at_def)
  next
    case False
    then show ?thesis using shift [of i] by (simp add: first_at_def)
  qed
qed

lemma explained_secret:
  assumes "explained masks (drop 1 s) (covered1 - 1) invalid out ps" and "s \<noteq> []" and "covered1 > 0"
    and "covered1 = (if mask_size masks s > 0 then max covered (mask_size masks s) else covered)"
  shows "explained masks s covered invalid ((if mask_size masks s > 0 \<and> covered = 0 then redacted_text else []) @ out)
    (Secret (mask_size masks s > 0 \<and> covered = 0) (hd s) # ps)"
proof -
  let ?fresh = "mask_size masks s > 0 \<and> covered = 0"
  have "hd s # drop 1 s = s" using assms(2) by (cases s) auto
  moreover have "(True # concat (map piece_secret ps)) ! i \<longleftrightarrow> i < covered \<or> secret_at masks s i" if "i < length s" for i
    using assms that secret_at_0 [of masks s] secret_at_Suc [of masks s] by (cases i) (auto simp: explained_def)
  moreover have "(?fresh # concat (map piece_fresh ps)) ! i \<longleftrightarrow> \<not> i < covered \<and> first_at masks s i" if "i < length s" for i
    using assms that first_at_0 [of masks s] first_at_Suc [of masks s] by (cases i) (auto simp: explained_def)
  ultimately show ?thesis using assms(1) by (simp add: explained_def piece_ok_def)
qed

lemma explained_shown:
  assumes "explained masks (drop w s) 0 (\<not> ok) out ps" and "s \<noteq> []" and "DecodeRune s = (w, ok)"
    and "masks_ok masks" and "mask_size masks s = 0"
  shows "explained masks s 0 invalid (rune_text invalid s @ out) ((if ok then Shown (take w s) else Broken (hd s)) # ps)"
proof -
  have w: "1 \<le> w" "w \<le> length s" "\<not> ok \<longrightarrow> w = 1"
    using decode_width(1,2) [OF assms(2)] decode_invalid [of s w] assms(2,3) by auto
  have none: "\<not> occurs_at masks s j i" if "j < w" for j i
  proof (cases "j = 0")
    case False
    then show ?thesis using occurs_not_inside [OF assms(4), of s w j i] assms(3) w(3) that by (cases ok) auto
  qed (simp add: occurs_at_0 assms(5))
  let ?p = "if ok then Shown (take w s) else Broken (hd s)"
  have flags: "piece_secret ?p = replicate w False" "piece_fresh ?p = replicate w False" using w by (auto simp: min_absorb2)
  have hd: "\<not> ok \<Longrightarrow> hd s # drop 1 s = s" using assms(2) by (cases s) auto
  have ok: "piece_ok ?p"
  proof (cases ok)
    case True
    have "DecodeRune (take w s) = (w, True)" using decode_take [of s w w] assms(3) True by simp
    then show ?thesis using True w(2) decode_valid(1) [of s w] assms(3) by (simp add: piece_ok_def min_absorb2)
  qed (simp add: piece_ok_def)
  show ?thesis
    unfolding explained_def list.map concat.simps flags
  proof (intro conjI allI impI)
    show "piece_bytes ?p @ concat (map piece_bytes ps) = s"
      using assms(1) hd w(3) by (auto simp: explained_def)
    show "rune_text invalid s @ out = render invalid (?p # ps)"
      using assms(1,3) by (auto simp: explained_def rune_text_def)
    show "list_all piece_ok (?p # ps)" using ok assms(1) by (simp add: explained_def)
    fix i assume "i < length s"
    then show "(replicate w False @ concat (map piece_secret ps)) ! i \<longleftrightarrow> i < 0 \<or> secret_at masks s i"
      "(replicate w False @ concat (map piece_fresh ps)) ! i \<longleftrightarrow> \<not> i < 0 \<and> first_at masks s i"
      using assms(1) no_secret_before [OF none, where i = i] by (auto simp: nth_append explained_def)
  qed
qed

lemma redact_loop_explained:
  assumes "masks_ok masks" and "redact_loop masks True s covered invalid = (r, c, i, out)"
  shows "r = [] \<and> (\<exists>ps. explained masks s covered invalid out ps)"
  using assms(2)
proof (induction s arbitrary: covered invalid r c i out rule: length_induct)
  case (1 s)
  show ?case
  proof (cases "s = []")
    case True
    then have "explained masks s covered invalid out []" using 1(2) by (simp add: redact_loop_stops explained_def)
    then show ?thesis using True 1(2) redact_loop_stops [of s True masks covered invalid] by auto
  next
    case False
    define covered1 where "covered1 = (if mask_size masks s > 0 then max covered (mask_size masks s) else covered)"
    have shorter: "length (drop 1 s) < length s" "length (drop (fst (DecodeRune s)) s) < length s"
      using False decode_width(1) [OF False] by auto
    note st = redact_loop_step [OF False disjI1 covered1_def, of True invalid, OF TrueI]
    show ?thesis
    proof (cases "covered1 > 0")
      case True
      obtain o1 where o1: "redact_loop masks True (drop 1 s) (covered1 - 1) invalid = (r, c, i, o1)"
        "out = (if mask_size masks s > 0 \<and> covered = 0 then redacted_text else []) @ o1"
        using 1(2) st True by (auto split: prod.splits)
      obtain ps where "r = []" "explained masks (drop 1 s) (covered1 - 1) invalid o1 ps"
        using 1(1) [rule_format, OF shorter(1) o1(1)] by blast
      then show ?thesis using explained_secret [OF _ False True covered1_def] o1(2) by blast
    next
      case zero: False
      obtain o1 where o1: "redact_loop masks True (drop (fst (DecodeRune s)) s) 0 (\<not> snd (DecodeRune s)) = (r, c, i, o1)"
        "out = rune_text invalid s @ o1"
        using 1(2) st zero by (auto split: prod.splits)
      obtain ps where "r = []" "explained masks (drop (fst (DecodeRune s)) s) 0 (\<not> snd (DecodeRune s)) o1 ps"
        using 1(1) [rule_format, OF shorter(2) o1(1)] by blast
      moreover have "covered = 0" "mask_size masks s = 0" using zero by (auto simp: covered1_def split: if_splits)
      ultimately show ?thesis using explained_shown [OF _ False _ assms(1), of "fst (DecodeRune s)" "snd (DecodeRune s)" o1 _ invalid] o1(2) by auto
    qed
  qed
qed

lemma render_valid: "list_all piece_ok ps \<Longrightarrow> valid_utf8 (render invalid ps)"
proof (induction invalid ps rule: render.induct)
  case (4 invalid fresh c ps)
  have "valid_utf8 redacted_text" by (simp add: redacted_text_def byte_def)
  then show ?case using 4 by (simp add: valid_utf8_append)
qed (auto simp: piece_ok_def valid_utf8_append RuneErrorText_valid)

text \<open>C30. A text is redacted exactly: the output is the text rune by rune, except that every byte an
  occurrence of a mask covers, overlapping ones included, is left out, the marker stands where an
  occurrence begins outside every earlier one, and invalid bytes become U+FFFD, one for a run; the
  output is valid UTF-8.\<close>

theorem redaction_exact:
  assumes "masks_ok masks" and "lr_write masks v True newRedactor = (r, out)"
  shows "lr_pending r = [] \<and> valid_utf8 out \<and> (\<exists>ps. concat (map piece_bytes ps) = v \<and> out = render False ps \<and> list_all piece_ok ps \<and>
    (\<forall>i < length v. (concat (map piece_secret ps) ! i \<longleftrightarrow> secret_at masks v i) \<and>
      (concat (map piece_fresh ps) ! i \<longleftrightarrow> first_at masks v i)))"
proof -
  obtain x c i where l: "redact_loop masks True v 0 False = (x, c, i, out)" "lr_pending r = x"
    using assms(2) by (auto simp: lr_write_def newRedactor_def split: prod.splits)
  obtain ps where "x = []" "explained masks v 0 False out ps" using redact_loop_explained [OF assms(1) l(1)] by blast
  then show ?thesis using l(2) render_valid [of ps False] by (auto simp: explained_def)
qed

subsection \<open>The masks of a step\<close>

lemma valid_around_ascii:
  assumes "valid_utf8 (a @ c # b)" and "byte c < 128"
  shows "valid_utf8 a" "valid_utf8 b"
proof -
  have "valid_utf8 (drop (length a) (a @ c # b))"
    by (rule valid_drop [OF assms(1)]) (use assms(2) in \<open>simp add: RuneStart_def utf8_tail_def in_range_def\<close>)
  then have c: "valid_utf8 (c # b)" by simp
  then show "valid_utf8 b" using assms(2) by simp
  show "valid_utf8 a" using valid_take_drop [OF assms(1), of "length a"] c by simp
qed

lemma line_fields_valid:
  "valid_utf8 (field @ s) \<Longrightarrow> \<forall>x \<in> set (line_fields field s). x \<noteq> [] \<and> valid_utf8 x"
proof (induction field s rule: line_fields.induct)
  case (2 field c s)
  show ?case
  proof (cases "line_end c")
    case True
    then have "byte c < 128" by (auto simp: line_end_def byte_def)
    from valid_around_ascii [OF "2.prems" this] show ?thesis using True "2.IH"(1) by simp
  qed (use 2 in simp)
qed simp

definition masker_ok :: "masker \<Rightarrow> bool" where
  "masker_ok m \<longleftrightarrow> distinct (mk_values m) \<and> mk_added m \<le> maxAddedMasks \<and>
     (\<forall>v \<in> set (mk_values m). v \<noteq> [] \<and> valid_utf8 v)"

lemma valid_start: "valid_utf8 v \<Longrightarrow> v \<noteq> [] \<Longrightarrow> RuneStart (v ! 0)"
  using valid_utf8_iff_decode [of v] decode_start [of v "fst (DecodeRune v)"] by (metis prod.collapse)

lemma masker_ok_masks: "masker_ok m \<Longrightarrow> masks_ok (mk_values m)"
  using valid_start by (auto simp: masker_ok_def masks_ok_def)

lemma remember_set: "set (mk_values (remember v m)) = set (mk_values m) \<union> (if v = [] then {} else {v})"
  by (auto simp: remember_def)

lemma remember_ok: "masker_ok m \<Longrightarrow> valid_utf8 v \<Longrightarrow> masker_ok (remember v m)"
  by (auto simp: masker_ok_def remember_def)

lemma remember_lines:
  "masker_ok m \<Longrightarrow> \<forall>x \<in> set xs. valid_utf8 x \<Longrightarrow>
   masker_ok (foldl (\<lambda>m line. if length line \<ge> 8 then remember line m else m) m xs) \<and>
   set (mk_values (foldl (\<lambda>m line. if length line \<ge> 8 then remember line m else m) m xs)) =
     set (mk_values m) \<union> {x \<in> set xs. length x \<ge> 8}"
proof (induction xs arbitrary: m)
  case (Cons x xs)
  let ?m = "if length x \<ge> 8 then remember x m else m"
  have "masker_ok ?m" using Cons.prems remember_ok by simp
  moreover have "set (mk_values ?m) = set (mk_values m) \<union> (if length x \<ge> 8 then {x} else {})" by (auto simp: remember_set)
  ultimately show ?case using Cons.IH [of ?m] Cons.prems(2) by auto
qed simp

text \<open>The values a secret is masked by.\<close>

definition secret_masks :: "bytes \<Rightarrow> bytes set" where
  "secret_masks v = (if v = [] then {} else {v}) \<union>
     (if list_ex line_end v then {x \<in> set (line_fields [] v). length x \<ge> 8} else {})"

lemma remember_secret_ok:
  assumes "masker_ok m" and "valid_utf8 v"
  shows "masker_ok (remember_secret m v)" "set (mk_values (remember_secret m v)) = set (mk_values m) \<union> secret_masks v"
proof -
  have fields: "\<forall>x \<in> set (line_fields [] v). valid_utf8 x" using line_fields_valid [of "[]" v] assms(2) by simp
  note lines = remember_lines [OF remember_ok [OF assms] fields]
  show "masker_ok (remember_secret m v)" using lines remember_ok [OF assms] by (simp add: remember_secret_def Let_def)
  show "set (mk_values (remember_secret m v)) = set (mk_values m) \<union> secret_masks v"
    using lines by (auto simp: remember_secret_def Let_def secret_masks_def remember_set)
qed

lemma newMasker_ok:
  "\<forall>v \<in> set secrets. valid_utf8 v \<Longrightarrow> masker_ok (newMasker secrets) \<and> set (mk_values (newMasker secrets)) = \<Union> (secret_masks ` set secrets)"
proof (induction secrets rule: rev_induct)
  case (snoc v secrets)
  then show ?case using remember_secret_ok [of "newMasker secrets" v] by (simp add: newMasker_def Un_commute)
qed (simp add: newMasker_def masker_ok_def)

lemma add_mask_ok: "masker_ok m \<Longrightarrow> masker_ok (fst (add_mask v m))"
  using remember_ok [of m v] by (auto simp: add_mask_def masker_ok_def)

text \<open>With valid secrets the masks of a step are distinct, nonempty and valid, every secret and
  every line of eight bytes or more of a secret with lines is one of them, and adding a mask either
  makes it one or stops all output.\<close>

theorem masks_kept:
  assumes "\<forall>v \<in> set secrets. valid_utf8 v"
    and "m = foldl (\<lambda>m v. fst (add_mask v m)) (newMasker secrets) added"
  shows "masker_ok m \<and> (\<forall>v \<in> set secrets. secret_masks v \<subseteq> set (mk_values m)) \<and>
    (mk_stopped m \<or> (\<forall>v \<in> set added. v \<noteq> [] \<longrightarrow> v \<in> set (mk_values m)))"
proof -
  have new: "masker_ok (newMasker secrets)" "\<forall>v \<in> set secrets. secret_masks v \<subseteq> set (mk_values (newMasker secrets))"
    using newMasker_ok [OF assms(1)] by auto
  have step: "set (mk_values x) \<subseteq> set (mk_values (fst (add_mask v x)))" "mk_stopped x \<Longrightarrow> mk_stopped (fst (add_mask v x))"
    "mk_stopped (fst (add_mask v x)) \<or> (v \<noteq> [] \<longrightarrow> v \<in> set (mk_values (fst (add_mask v x))))" for v x
    by (auto simp: add_mask_def remember_def)
  show ?thesis
    unfolding assms(2)
  proof (induction added rule: rev_induct)
    case (snoc v added)
    let ?x = "foldl (\<lambda>m v. fst (add_mask v m)) (newMasker secrets) added"
    show ?case using snoc step(1) [of ?x v] step(2) [of ?x v] step(3) [of v ?x] add_mask_ok [of ?x v] by auto
  qed (use new in simp)
qed

theorem redaction_exact_witness:
  "\<exists>ps. concat (map piece_bytes ps) = ''abcde abc'' \<and> render False ps = ''[redacted] [redacted]'' \<and>
    concat (map piece_secret ps) ! 4 \<and> \<not> concat (map piece_secret ps) ! 5"
proof -
  have m: "masks_ok [''abc'', ''bcde'']" by code_simp
  have w: "lr_write [''abc'', ''bcde''] ''abcde abc'' True newRedactor = (newRedactor, ''[redacted] [redacted]'')" by code_simp
  have s: "secret_at [''abc'', ''bcde''] ''abcde abc'' 4" "\<not> secret_at [''abc'', ''bcde''] ''abcde abc'' 5"
  proof -
    have "occurs_at [''abc'', ''bcde''] ''abcde abc'' 1 4" by (simp add: occurs_at_def)
    then show "secret_at [''abc'', ''bcde''] ''abcde abc'' 4" by (auto simp: secret_at_def)
    have "\<not> occurs_at [''abc'', ''bcde''] ''abcde abc'' j 5" if "j = 0 \<or> j = 1 \<or> j = 2 \<or> j = 3 \<or> j = 4 \<or> j = 5" for j
      using that by (auto simp: occurs_at_def)
    moreover have "\<not> occurs_at [''abc'', ''bcde''] ''abcde abc'' j 5" if "5 < j" for j using that by (simp add: occurs_at_def)
    moreover have "j = 0 \<or> j = 1 \<or> j = 2 \<or> j = 3 \<or> j = 4 \<or> j = 5 \<or> 5 < j" for j :: nat by linarith
    ultimately show "\<not> secret_at [''abc'', ''bcde''] ''abcde abc'' 5" unfolding secret_at_def by blast
  qed
  show ?thesis using redaction_exact [OF m w] s by force
qed

theorem masks_kept_witness:
  "masker_ok (fst (add_mask ''hidden'' (newMasker [''token'']))) \<and>
   ''token'' \<in> set (mk_values (fst (add_mask ''hidden'' (newMasker [''token'']))))"
proof -
  have "valid_utf8 ''token''" by code_simp
  then show ?thesis using masks_kept [of "[''token'']" _ "[''hidden'']", OF _ refl] by (simp add: secret_masks_def)
qed

end
