(* ===== verification/CheckOutput.thy ===== *)
theory CheckOutput
  imports Utf8
begin

text \<open>
  Bounded log text: \<open>checkoutput/output.go\<close>. \<open>ClipText\<close> keeps the beginning of a text, \<open>ClipLog\<close>
  its beginning and its end around one marker line that counts the bytes left out, and
  \<open>LogBuffer\<close> does the same for text that arrives in parts. Offsets and sizes are Go \<open>int\<close>s:
  natural numbers where the code keeps them non-negative, integers otherwise.
\<close>

subsection \<open>Clipping a short text\<close>

text \<open>How many bytes of the text the loop of \<open>ClipText\<close> keeps.\<close>

function clip_end :: "int \<Rightarrow> int \<Rightarrow> bool \<Rightarrow> bytes \<Rightarrow> nat" where
  "clip_end limit used invalid s =
     (if s = [] then 0
      else case DecodeRune s of (width, ok) \<Rightarrow>
        let n = (if ok then int width else if invalid then 0 else int (length RuneErrorText)) in
        if used + n > limit then 0 else width + clip_end limit (used + n) (\<not> ok) (drop width s))"
  by pat_completeness auto
termination
proof (relation "measure (\<lambda>(limit, used, invalid, s). length s)", goal_cases)
  case (2 limit used invalid s width ok n)
  then have "1 \<le> width" using decode_width(1) [of s] by (metis fst_conv)
  then show ?case using 2 by (simp add: diff_less)
qed simp

declare clip_end.simps [simp del]

definition ClipText :: "bytes \<Rightarrow> int \<Rightarrow> bytes \<times> bool" where
  "ClipText value' limit =
     (let e = clip_end limit 0 False value' in (ToValidUTF8 (take e value'), e < length value'))"

subsection \<open>Clipping a log\<close>

record Gap =
  gp_Start :: int
  gp_End :: int
  gp_Omitted :: int

definition zero_gap :: Gap where
  "zero_gap = \<lparr>gp_Start = 0, gp_End = 0, gp_Omitted = 0\<rparr>"

definition omission_marker :: "int \<Rightarrow> bytes" where
  "omission_marker omitted = CHR 0x0A # ''[... '' @ show_int omitted @ '' bytes omitted ...]'' @ [CHR 0x0A]"

definition gap_growth :: "Gap \<Rightarrow> int" where
  "gap_growth g = gp_Omitted g - (gp_End g - gp_Start g)"

text \<open>The loop that takes back a head that ends inside a rune looks at the last four bytes.\<close>

fun whole_head :: "bytes \<Rightarrow> nat \<Rightarrow> nat list \<Rightarrow> nat" where
  "whole_head head keep [] = keep"
| "whole_head head keep (i # is) =
     (if keep < i then keep
      else if RuneStart (head ! (keep - i))
        then (if \<not> FullRune (drop (keep - i) (take keep head)) then keep - i else keep)
      else whole_head head keep is)"

text \<open>The number of bytes of the tail that are kept once it begins with a rune.\<close>

fun whole_tail :: "bytes \<Rightarrow> nat \<Rightarrow> nat" where
  "whole_tail tail 0 = 0"
| "whole_tail tail (Suc k) = (if RuneStart (tail ! (length tail - Suc k)) then Suc k else whole_tail tail k)"

text \<open>An earlier marker is removed whole or kept whole.\<close>

fun avoid_gaps :: "Gap list \<Rightarrow> int \<times> int \<Rightarrow> int \<times> int" where
  "avoid_gaps [] ht = ht"
| "avoid_gaps (g # gs) (h, t) =
     avoid_gaps gs
       (if gp_Start g < h \<and> h < gp_End g then gp_Start g else h,
        if gp_Start g < t \<and> t < gp_End g then gp_End g else t)"

definition gap_visible :: "int \<Rightarrow> int \<Rightarrow> Gap \<Rightarrow> bool" where
  "gap_visible h t g \<longleftrightarrow> gp_End g \<le> h \<or> gp_Start g \<ge> t"

definition clip_log :: "bytes \<Rightarrow> bytes \<Rightarrow> int \<Rightarrow> int \<Rightarrow> Gap list \<Rightarrow> bytes \<times> Gap" where
  "clip_log head tail wholeLen limit gaps =
     (let whole = wholeLen + sum_list (map gap_growth gaps);
        budget = limit - int (length (omission_marker whole)) in
      if budget < 4 then (fst (ClipText head limit), zero_gap)
      else
        let keepHead = whole_head head (min (nat (budget div 4)) (length head)) [1, 2, 3, 4];
          tailStart = wholeLen - int (whole_tail tail (min (nat (budget - budget div 4)) (length tail))) in
        case avoid_gaps gaps (int keepHead, tailStart) of (h, t) \<Rightarrow>
          let visible = filter (gap_visible h t) gaps;
            omitted = whole - (h + wholeLen - t - sum_list (map (\<lambda>g. gp_End g - gp_Start g) visible)) -
              sum_list (map gp_Omitted visible);
            text' = omission_marker omitted in
          (take (nat h) head @ text' @ drop (length tail - nat (wholeLen - t)) tail,
           \<lparr>gp_Start = h, gp_End = h + int (length text'), gp_Omitted = omitted\<rparr>))"

definition gapsOf :: "Gap \<Rightarrow> Gap list" where
  "gapsOf gap = (if gp_Omitted gap = 0 then [] else [gap])"

definition ClipLog :: "bytes \<Rightarrow> int \<Rightarrow> Gap \<Rightarrow> bytes \<times> bool" where
  "ClipLog value' limit gap =
     (let v = (if gp_Omitted gap = 0 then ToValidUTF8 value' else value') in
      if int (length v) \<le> max limit 0 then (v, gp_Omitted gap > 0)
      else (fst (clip_log v v (int (length v)) limit (gapsOf gap)), True))"

subsection \<open>Text in parts\<close>

record LogBuffer =
  lb_Limit :: nat
  lb_total :: nat
  lb_head :: bytes
  lb_tail :: bytes
  lb_gaps :: "Gap list"

definition newLogBuffer :: "nat \<Rightarrow> LogBuffer" where
  "newLogBuffer limit = \<lparr>lb_Limit = limit, lb_total = 0, lb_head = [], lb_tail = [], lb_gaps = []\<rparr>"

definition shift_gap :: "nat \<Rightarrow> Gap \<Rightarrow> Gap" where
  "shift_gap n g = \<lparr>gp_Start = int n + gp_Start g, gp_End = int n + gp_End g, gp_Omitted = gp_Omitted g\<rparr>"

definition AddClipped :: "bytes \<Rightarrow> Gap \<Rightarrow> LogBuffer \<Rightarrow> LogBuffer" where
  "AddClipped part' gap b =
     (let gaps = (if gp_Omitted gap > 0 then lb_gaps b @ [shift_gap (lb_total b) gap] else lb_gaps b);
        part = (if gp_Omitted gap > 0 then part' else ToValidUTF8 part');
        kept = min (lb_Limit b div 4 - length (lb_head b)) (length part);
        rest = drop kept part;
        keep = lb_Limit b - lb_Limit b div 4;
        tail = lb_tail b @ drop (length rest - keep) rest in
      b\<lparr>lb_gaps := gaps, lb_total := lb_total b + length part, lb_head := lb_head b @ take kept part,
        lb_tail := (if length tail > 2 * keep then drop (length tail - keep) tail else tail)\<rparr>)"

definition AddPart :: "bytes \<Rightarrow> LogBuffer \<Rightarrow> LogBuffer" where
  "AddPart part b = AddClipped part zero_gap b"

definition ResultWithGap :: "LogBuffer \<Rightarrow> bytes \<times> Gap \<times> bool" where
  "ResultWithGap b =
     (if lb_total b \<le> lb_Limit b then (lb_head b @ lb_tail b, zero_gap, lb_gaps b \<noteq> [])
      else case clip_log (lb_head b) (lb_tail b) (int (lb_total b)) (int (lb_Limit b)) (lb_gaps b) of
        (text', gap) \<Rightarrow> (text', gap, True))"

definition LogResult :: "LogBuffer \<Rightarrow> bytes \<times> bool" where
  "LogResult b = (case ResultWithGap b of (text', gap, clipped) \<Rightarrow> (text', clipped))"

text \<open>\<open>SummaryText\<close> joins lines and drops NUL bytes before it clips. \<open>strings.Map\<close> goes through the
  runes and writes each invalid byte as U+FFFD.\<close>

function summary_map :: "bytes \<Rightarrow> bytes" where
  "summary_map s =
     (if s = [] then []
      else case DecodeRune s of (width, ok) \<Rightarrow>
        (if \<not> ok then RuneErrorText
         else if take 1 s = [CHR 0x0D] \<or> take 1 s = [CHR 0x0A] then '' ''
         else if take 1 s = [CHR 0x00] then []
         else take width s) @ summary_map (drop width s))"
  by pat_completeness auto
termination
proof (relation "measure length", goal_cases)
  case (2 s width ok)
  then have "1 \<le> width" using decode_width(1) [of s] by (metis fst_conv)
  then show ?case using 2 by (simp add: diff_less)
qed simp

declare summary_map.simps [simp del]

definition SummaryText :: "bytes \<Rightarrow> int \<Rightarrow> bytes" where
  "SummaryText value' limit = TrimSpace (fst (ClipText (TrimSpace (summary_map value')) limit))"


subsection \<open>What \<open>ClipText\<close> keeps\<close>

lemma clip_end_step:
  assumes "s \<noteq> []" and "DecodeRune s = (w, ok)"
  shows "clip_end limit used invalid s =
    (if used + int (length (rune_text invalid s)) > limit then 0
     else w + clip_end limit (used + int (length (rune_text invalid s))) (\<not> ok) (drop w s))"
  using decode_width(2) [OF assms(1)] assms
  by (subst clip_end.simps) (auto simp: rune_text_def Let_def)

lemma clip_end_spec:
  assumes "used \<le> limit"
  shows "clip_end limit used invalid s \<le> length s \<and>
    used + int (length (to_valid invalid (take (clip_end limit used invalid s) s))) \<le> limit \<and>
    (\<exists>i. to_valid invalid s = to_valid invalid (take (clip_end limit used invalid s) s) @ to_valid i (drop (clip_end limit used invalid s) s) \<and>
      (clip_end limit used invalid s < length s \<longrightarrow>
        used + int (length (to_valid invalid (take (clip_end limit used invalid s) s))) +
        int (length (rune_text i (drop (clip_end limit used invalid s) s))) > limit))"
  using assms
proof (induction s arbitrary: used invalid rule: length_induct)
  case (1 s)
  show ?case
  proof (cases "s = []")
    case False
    obtain w ok where d: "DecodeRune s = (w, ok)" by (cases "DecodeRune s")
    have w: "w \<le> length s" "length (drop w s) < length s"
      using decode_width(1,2) [OF False] False d by simp_all
    let ?n = "used + int (length (rune_text invalid s))" and ?r = "drop w s"
    show ?thesis
    proof (cases "?n > limit")
      case True
      then show ?thesis using 1(2) by (auto simp: clip_end_step [OF False d])
    next
      case fits: False
      let ?e = "clip_end limit ?n (\<not> ok) ?r"
      have e: "clip_end limit used invalid s = w + ?e" using fits by (simp add: clip_end_step [OF False d])
      have "?n \<le> limit" using fits by simp
      from 1(1) [rule_format, OF w(2) this, of "\<not> ok"]
      obtain i where IH: "?e \<le> length ?r" "?n + int (length (to_valid (\<not> ok) (take ?e ?r))) \<le> limit"
        "to_valid (\<not> ok) ?r = to_valid (\<not> ok) (take ?e ?r) @ to_valid i (drop ?e ?r)"
        "?e < length ?r \<longrightarrow> ?n + int (length (to_valid (\<not> ok) (take ?e ?r))) + int (length (rune_text i (drop ?e ?r))) > limit"
        by blast
      have dr: "drop (w + ?e) s = drop ?e ?r" by (simp add: add.commute)
      show ?thesis
        unfolding e to_valid_step(2) [OF False d] dr
        using IH w(1) to_valid_step(1) [OF False d, of invalid] by (intro conjI exI [of _ i]) auto
    qed
  qed (use "1.prems" in \<open>simp add: clip_end.simps\<close>)
qed

lemma ClipText_kept:
  assumes "ClipText v limit = (kept, clipped)" and "0 \<le> limit"
  shows "valid_utf8 kept \<and> prefix kept (ToValidUTF8 v) \<and> int (length kept) \<le> limit \<and>
    (clipped \<longleftrightarrow> int (length (ToValidUTF8 v)) > limit) \<and>
    (if clipped then int (length kept) > limit - 4 else kept = ToValidUTF8 v)"
proof -
  let ?e = "clip_end limit 0 False v"
  have k: "kept = to_valid False (take ?e v)" "clipped \<longleftrightarrow> ?e < length v"
    using assms(1) by (auto simp: ClipText_def ToValidUTF8_def Let_def)
  obtain i where i: "?e \<le> length v" "int (length kept) \<le> limit" "to_valid False v = kept @ to_valid i (drop ?e v)"
    "?e < length v \<longrightarrow> int (length kept) + int (length (rune_text i (drop ?e v))) > limit"
    using clip_end_spec [OF assms(2), of False v] by (auto simp: k(1))
  have pre: "prefix kept (ToValidUTF8 v)" "valid_utf8 kept"
    by (unfold ToValidUTF8_def i(3), rule prefixI, rule refl) (unfold k(1), rule to_valid_valid)
  show ?thesis
  proof (cases clipped)
    case True
    then have ne: "drop ?e v \<noteq> []" using k(2) by simp
    obtain w ok where "DecodeRune (drop ?e v) = (w, ok)" by (cases "DecodeRune (drop ?e v)")
    from to_valid_step(1) [OF ne this, of i] have "length (rune_text i (drop ?e v)) \<le> length (to_valid i (drop ?e v))" by simp
    moreover have "int (length kept) + int (length (rune_text i (drop ?e v))) > limit" using i(4) True k(2) by blast
    moreover have "length (ToValidUTF8 v) = length kept + length (to_valid i (drop ?e v))"
      by (simp only: ToValidUTF8_def i(3) length_append)
    ultimately show ?thesis
      using True i(2) pre rune_text_length [OF ne, of i] by simp
  next
    case False
    then have "drop ?e v = []" using k(2) by simp
    then have "ToValidUTF8 v = kept" using i(3) by (simp add: ToValidUTF8_def)
    then show ?thesis using False i(2) pre by simp
  qed
qed

text \<open>\<open>ClipText\<close> keeps a valid beginning of the sanitized text within the limit, all of it
  exactly when it fits, and otherwise as much as whole characters allow.\<close>

theorem ClipText_spec:
  assumes "ClipText v limit = (kept, clipped)" and "0 \<le> limit"
  shows "valid_utf8 kept \<and> prefix kept (ToValidUTF8 v) \<and> int (length kept) \<le> limit \<and>
    (clipped \<longleftrightarrow> int (length (ToValidUTF8 v)) > limit) \<and>
    (if clipped then int (length kept) > limit - 4 else kept = ToValidUTF8 v)"
  using assms by (rule ClipText_kept)

subsection \<open>Markers and earlier gaps\<close>

lemma nat_digits_mono: "m \<le> n \<Longrightarrow> length (nat_digits m) \<le> length (nat_digits n)"
proof (induction n arbitrary: m rule: nat_digits.induct)
  case (1 n)
  show ?case
  proof (cases "n < 10 \<or> m < 10")
    case True
    then show ?thesis using "1.prems" by (subst (1 2) nat_digits.simps) auto
  next
    case False
    then have "length (nat_digits (m div 10)) \<le> length (nat_digits (n div 10))" using 1 by (simp add: div_le_mono)
    then show ?thesis using False by (subst (1 2) nat_digits.simps) simp
  qed
qed

lemma marker_mono: "0 \<le> a \<Longrightarrow> a \<le> b \<Longrightarrow> length (omission_marker a) \<le> length (omission_marker b)"
  using nat_digits_mono [of "nat a" "nat b"] by (simp add: omission_marker_def show_int_def)

lemma nat_digits_ascii: "list_all (\<lambda>c. byte c < 128) (nat_digits n)"
proof (induction n rule: nat_digits.induct)
  case (1 n)
  have "byte (char_of (48 + d)) < 128" if "d < 10" for d :: nat using that by (simp add: byte_def)
  then show ?case using 1 by (subst nat_digits.simps) auto
qed

lemma marker_valid: "valid_utf8 (omission_marker n @ s) = valid_utf8 s"
proof (rule valid_utf8_ascii_append)
  show "list_all (\<lambda>c. byte c < 128) (omission_marker n)"
    using nat_digits_ascii by (simp add: omission_marker_def show_int_def byte_def)
qed

text \<open>The earlier markers in a text: in order, apart from each other, and between runes.\<close>

definition gaps_ok :: "bytes \<Rightarrow> Gap list \<Rightarrow> bool" where
  "gaps_ok s gs \<longleftrightarrow> sorted_wrt (\<lambda>a b. gp_End a \<le> gp_Start b) gs \<and>
     (\<forall>g \<in> set gs. 0 \<le> gp_Start g \<and> gp_Start g < gp_End g \<and> gp_End g \<le> int (length s) \<and> 0 < gp_Omitted g \<and>
       valid_utf8 (drop (nat (gp_Start g)) s) \<and> valid_utf8 (drop (nat (gp_End g)) s))"

lemma avoid_gaps_spec:
  assumes "avoid_gaps gs (h, t) = (h', t')" and "sorted_wrt (\<lambda>a b. gp_End a \<le> gp_Start b) gs"
    and "\<forall>g \<in> set gs. gp_Start g \<le> gp_End g"
  shows "h' \<le> h \<and> t \<le> t' \<and> (h' = h \<or> (\<exists>g \<in> set gs. h' = gp_Start g)) \<and> (t' = t \<or> (\<exists>g \<in> set gs. t' = gp_End g)) \<and>
    (\<forall>g \<in> set gs. (h' \<le> gp_Start g \<or> gp_End g \<le> h') \<and> (t' \<le> gp_Start g \<or> gp_End g \<le> t'))"
  using assms
proof (induction gs arbitrary: h t)
  case (Cons g gs)
  define h1 t1 where "h1 = (if gp_Start g < h \<and> h < gp_End g then gp_Start g else h)"
    and "t1 = (if gp_Start g < t \<and> t < gp_End g then gp_End g else t)"
  have IH: "h' \<le> h1 \<and> t1 \<le> t' \<and> (h' = h1 \<or> (\<exists>g \<in> set gs. h' = gp_Start g)) \<and> (t' = t1 \<or> (\<exists>g \<in> set gs. t' = gp_End g)) \<and>
    (\<forall>g \<in> set gs. (h' \<le> gp_Start g \<or> gp_End g \<le> h') \<and> (t' \<le> gp_Start g \<or> gp_End g \<le> t'))"
    using Cons by (simp add: h1_def t1_def)
  have later: "\<forall>g' \<in> set gs. gp_End g \<le> gp_Start g' \<and> gp_End g \<le> gp_End g'" using Cons.prems(2,3) by force
  have "h1 \<le> h" "h1 = h \<or> h1 = gp_Start g" "h1 \<le> gp_Start g \<or> gp_End g \<le> h1" by (auto simp: h1_def)
  moreover have "t \<le> t1" "t1 = t \<or> t1 = gp_End g" "t1 \<le> gp_Start g \<or> gp_End g \<le> t1" by (auto simp: t1_def)
  ultimately show ?case using IH later by (auto intro: order_trans)
qed simp

lemma gaps_fit:
  assumes "sorted_wrt (\<lambda>a b. gp_End a \<le> gp_Start b) gs" and "\<forall>g \<in> set gs. gp_Start g \<le> gp_End g"
    and "\<forall>g \<in> set gs. lo \<le> gp_Start g \<and> gp_End g \<le> hi" and "lo \<le> hi"
  shows "sum_list (map (\<lambda>g. gp_End g - gp_Start g) gs) \<le> hi - lo"
  using assms
proof (induction gs arbitrary: lo)
  case (Cons g gs)
  have "sum_list (map (\<lambda>g. gp_End g - gp_Start g) gs) \<le> hi - gp_End g"
    by (rule Cons.IH) (use Cons.prems in auto)
  then show ?case using Cons.prems(3) by simp
qed simp

lemma sum_list_split:
  fixes f :: "'a \<Rightarrow> int"
  shows "sum_list (map f xs) = sum_list (map f (filter P xs)) + sum_list (map f (filter (\<lambda>x. \<not> P x) xs))"
  by (induction xs) auto

lemma sum_list_filter_le:
  fixes f :: "'a \<Rightarrow> int"
  assumes "\<forall>x \<in> set xs. 0 \<le> f x" and "\<forall>x \<in> set xs. P x \<longrightarrow> Q x \<or> R x"
  shows "sum_list (map f (filter P xs)) \<le> sum_list (map f (filter Q xs)) + sum_list (map f (filter R xs))"
  using assms by (induction xs) auto

text \<open>What is left out and what stays, counted in bytes of the original output.\<close>

lemma omitted_bounds:
  assumes "gaps_ok s gs" and "avoid_gaps gs (h0, t0) = (h, t)" and "0 \<le> h0" and "h0 < t0" and "t0 \<le> int (length s)"
  defines "hidden \<equiv> filter (\<lambda>g. \<not> gap_visible h t g) gs"
  shows "0 \<le> h" "h < t" "t \<le> int (length s)"
    "0 < t - h + sum_list (map gap_growth hidden)"
    "t - h + sum_list (map gap_growth hidden) \<le> int (length s) + sum_list (map gap_growth gs)"
proof -
  have sorted: "sorted_wrt (\<lambda>a b. gp_End a \<le> gp_Start b) gs"
    and g: "\<forall>g \<in> set gs. 0 \<le> gp_Start g \<and> gp_Start g \<le> gp_End g \<and> gp_End g \<le> int (length s) \<and> 0 < gp_Omitted g"
    using assms(1) by (auto simp: gaps_ok_def less_imp_le)
  note A = avoid_gaps_spec [OF assms(2) sorted]
  show ht: "0 \<le> h" "h < t" "t \<le> int (length s)" using A g assms(3-5) by fastforce+
  have hid: "\<forall>x \<in> set hidden. h \<le> gp_Start x \<and> gp_End x \<le> t" using A g by (force simp: hidden_def gap_visible_def)
  have lens: "sum_list (map (\<lambda>g. gp_End g - gp_Start g) hidden) \<le> t - h"
    by (rule gaps_fit) (use sorted g hid ht(2) in \<open>auto simp: hidden_def sorted_wrt_filter\<close>)
  have growth: "sum_list (map gap_growth xs) = sum_list (map gp_Omitted xs) - sum_list (map (\<lambda>g. gp_End g - gp_Start g) xs)" for xs
    by (induction xs) (auto simp: gap_growth_def)
  have pos: "0 \<le> sum_list (map gp_Omitted xs)" "xs \<noteq> [] \<Longrightarrow> 0 < sum_list (map gp_Omitted xs)" if "set xs \<subseteq> set gs" for xs
    using that g by (induction xs) (force intro!: add_nonneg_nonneg add_pos_nonneg)+
  have sub: "set hidden \<subseteq> set gs" by (auto simp: hidden_def)
  show "0 < t - h + sum_list (map gap_growth hidden)"
    using growth [of hidden] pos [OF sub] lens ht(2) by (cases "hidden = []") auto
  have "sum_list (map (\<lambda>g. gp_End g - gp_Start g) (filter (gap_visible h t) gs)) \<le>
      sum_list (map (\<lambda>g. gp_End g - gp_Start g) (filter (\<lambda>g. gp_End g \<le> h) gs)) +
      sum_list (map (\<lambda>g. gp_End g - gp_Start g) (filter (\<lambda>g. t \<le> gp_Start g) gs))"
    by (rule sum_list_filter_le) (use g in \<open>auto simp: gap_visible_def\<close>)
  moreover have "sum_list (map (\<lambda>g. gp_End g - gp_Start g) (filter (\<lambda>g. gp_End g \<le> h) gs)) \<le> h - 0"
    by (rule gaps_fit) (use sorted g ht(1) in \<open>auto simp: sorted_wrt_filter\<close>)
  moreover have "sum_list (map (\<lambda>g. gp_End g - gp_Start g) (filter (\<lambda>g. t \<le> gp_Start g) gs)) \<le> int (length s) - t"
    by (rule gaps_fit) (use sorted g ht(3) in \<open>auto simp: sorted_wrt_filter\<close>)
  moreover have "0 \<le> sum_list (map gp_Omitted (filter (gap_visible h t) gs))" by (rule pos(1)) auto
  ultimately show "t - h + sum_list (map gap_growth hidden) \<le> int (length s) + sum_list (map gap_growth gs)"
    using sum_list_split [of gap_growth gs "gap_visible h t"] growth [of "filter (gap_visible h t) gs"]
    by (simp add: hidden_def)
qed

subsection \<open>The cuts fall between runes\<close>

text \<open>The rune that a cut inside or at the end of a valid text falls in.\<close>

lemma rune_at_cut:
  assumes "valid_utf8 s" and "0 < k" and "k \<le> length s"
  shows "\<exists>b w. b < k \<and> k \<le> b + w \<and> DecodeRune (drop b s) = (w, True)"
  using assms
proof (induction s arbitrary: k rule: rune_induct)
  case (rune s w)
  show ?case
  proof (cases "k \<le> w")
    case True
    then show ?thesis using rune.hyps(2) rune.prems(2) by (metis add_0 drop_0)
  next
    case False
    moreover have "valid_utf8 (drop w s)" using rune.prems(1) decode_valid(2) [OF rune.hyps(2)] by simp
    ultimately obtain b w' where "b < k - w" "k - w \<le> b + w'" "DecodeRune (drop b (drop w s)) = (w', True)"
      using rune.IH [of "k - w"] rune.prems(3) by force
    then show ?thesis using False by (intro exI [of _ "b + w"] exI [of _ w']) auto
  qed
next
  case (invalid s)
  then show ?case using decode_not_valid [of s] by simp
qed simp

lemma whole_head_skip:
  assumes "\<forall>i \<in> set is. i < i0 \<longrightarrow> \<not> RuneStart (s ! (k - i))" and "RuneStart (s ! (k - i0))" and "i0 \<in> set is" and "i0 \<le> k"
    and "sorted is"
  shows "whole_head s k is = (if \<not> FullRune (drop (k - i0) (take k s)) then k - i0 else k)"
  using assms by (induction "is") auto

lemma whole_head_valid:
  assumes "valid_utf8 s" and "k \<le> length s"
  shows "whole_head s k [1, 2, 3, 4] \<le> k" "valid_utf8 (drop (whole_head s k [1, 2, 3, 4]) s)"
proof -
  have "whole_head s k [1, 2, 3, 4] \<le> k \<and> valid_utf8 (drop (whole_head s k [1, 2, 3, 4]) s)"
  proof (cases "k = 0")
    case False
    then obtain b w where bw: "b < k" "k \<le> b + w" "DecodeRune (drop b s) = (w, True)"
      using rune_at_cut [OF assms(1)] assms(2) by blast
    have ne: "drop b s \<noteq> []" using bw(1) assms(2) by simp
    have w4: "w \<le> 4" "w \<le> length (drop b s)" using decode_width(2,3) [OF ne] bw(3) by simp_all
    have nth: "drop b s ! j = s ! (b + j)" for j using bw(1) assms(2) by (simp add: less_imp_le)
    have start: "RuneStart (s ! b)" using decode_start [OF bw(3)] nth [of 0] by simp
    have tails: "\<not> RuneStart (s ! (k - i))" if "1 \<le> i" "i < k - b" for i
      using decode_tails [OF bw(3), of "k - i - b"] nth [of "k - i - b"] that bw(1,2) by (simp add: RuneStart_def)
    have vb: "valid_utf8 (drop b s)" by (rule valid_drop [OF assms(1)]) (use start in simp)
    have "whole_head s k [1, 2, 3, 4] = (if \<not> FullRune (drop (k - (k - b)) (take k s)) then k - (k - b) else k)"
    proof (rule whole_head_skip)
      show "k - b \<in> set [1, 2, 3, 4]" using bw(1,2) w4(1) by simp linarith
    qed (use start bw(1) tails in auto)
    then have eq: "whole_head s k [1, 2, 3, 4] = (if \<not> FullRune (take (k - b) (drop b s)) then b else k)"
      using bw(1) by (simp add: drop_take)
    show ?thesis
    proof (cases "FullRune (take (k - b) (drop b s))")
      case True
      from decode_stable [OF this, of "drop (k - b) (drop b s)"] have "DecodeRune (take (k - b) (drop b s)) = (w, True)"
        using bw(3) by (simp only: append_take_drop_id)
      then have "w \<le> k - b" using decode_width(2) [of "take (k - b) (drop b s)"] ne bw(1) by fastforce
      then have "k = b + w" using bw(1,2) by simp
      then have "valid_utf8 (drop k s)" using decode_valid(2) [OF bw(3)] vb by (simp add: add.commute)
      then show ?thesis using True eq by simp
    qed (use eq bw(1) vb in simp)
  qed (simp add: assms(1))
  then show "whole_head s k [1, 2, 3, 4] \<le> k" "valid_utf8 (drop (whole_head s k [1, 2, 3, 4]) s)" by simp_all
qed

lemma whole_tail_valid:
  assumes "valid_utf8 s" and "k \<le> length s"
  shows "whole_tail s k \<le> k" "valid_utf8 (drop (length s - whole_tail s k) s)"
proof -
  have "whole_tail s k \<le> k \<and> valid_utf8 (drop (length s - whole_tail s k) s)"
    using assms(2)
  proof (induction k)
    case (Suc k)
    show ?case
    proof (cases "RuneStart (s ! (length s - Suc k))")
      case True
      then show ?thesis using valid_drop [OF assms(1), of "length s - Suc k"] by simp
    qed (use Suc in auto)
  qed simp
  then show "whole_tail s k \<le> k" "valid_utf8 (drop (length s - whole_tail s k) s)" by simp_all
qed

subsection \<open>The clipped log\<close>

text \<open>How the result is made of the text: its beginning up to \<open>h\<close>, the marker, its end from \<open>t\<close>.\<close>

definition clipped_as :: "bytes \<Rightarrow> Gap list \<Rightarrow> int \<Rightarrow> nat \<Rightarrow> nat \<Rightarrow> int \<Rightarrow> bytes \<Rightarrow> bool" where
  "clipped_as s gs limit h t omitted r \<longleftrightarrow>
     h < t \<and> t \<le> length s \<and> r = take h s @ omission_marker omitted @ drop t s \<and> 0 < omitted \<and>
     (\<forall>g \<in> set gs. gp_End g \<le> int h \<or> gp_Start g \<ge> int t \<or> (int h \<le> gp_Start g \<and> gp_End g \<le> int t)) \<and>
     omitted = int t - int h + sum_list (map gap_growth (filter (\<lambda>g. int h \<le> gp_Start g \<and> gp_End g \<le> int t) gs))"

lemma clip_log_spec:
  assumes "valid_utf8 s" and "gaps_ok s gs" and "limit < int (length s)"
    and "budget = limit - int (length (omission_marker (int (length s) + sum_list (map gap_growth gs))))" and "4 \<le> budget"
    and "clip_log s s (int (length s)) limit gs = (r, gap)"
  shows "int (length r) \<le> limit \<and> valid_utf8 r \<and>
    (\<exists>h t. clipped_as s gs limit h t (gp_Omitted gap) r \<and> gp_Start gap = int h \<and>
       gp_End gap = int h + int (length (omission_marker (gp_Omitted gap))))"
proof -
  let ?n = "int (length s)"
  define k0 m0 where "k0 = min (nat (budget div 4)) (length s)" and "m0 = min (nat (budget - budget div 4)) (length s)"
  define h0 where "h0 = whole_head s k0 [1, 2, 3, 4]"
  define m where "m = whole_tail s m0"
  obtain h t where av: "avoid_gaps gs (int h0, ?n - int m) = (h, t)" by (cases "avoid_gaps gs (int h0, ?n - int m)")
  have km: "k0 \<le> length s" "m0 \<le> length s" by (simp_all add: k0_def m0_def)
  note k = whole_head_valid [OF assms(1) km(1), folded h0_def]
  note mm = whole_tail_valid [OF assms(1) km(2), folded m_def]
  have bl: "budget \<le> limit" using assms(4) by linarith
  have size: "int h0 \<le> budget div 4" "int m \<le> budget - budget div 4"
    using k(1) mm(1) assms(5) by (auto simp: k0_def m0_def)
  have lt: "int h0 < ?n - int m" using size bl assms(3) by linarith
  define hidden where "hidden = filter (\<lambda>g. \<not> gap_visible h t g) gs"
  note B = omitted_bounds [OF assms(2) av _ lt, folded hidden_def]
  have B': "0 \<le> h" "h < t" "t \<le> ?n" "0 < t - h + sum_list (map gap_growth hidden)"
    "t - h + sum_list (map gap_growth hidden) \<le> ?n + sum_list (map gap_growth gs)"
    using B by simp_all
  have sorted: "sorted_wrt (\<lambda>a b. gp_End a \<le> gp_Start b) gs" "\<forall>g \<in> set gs. gp_Start g \<le> gp_End g"
    and pos: "\<And>g. g \<in> set gs \<Longrightarrow> gp_Start g < gp_End g"
    using assms(2) by (auto simp: gaps_ok_def less_imp_le)
  note A = avoid_gaps_spec [OF av sorted]
  define omitted where "omitted = t - h + sum_list (map gap_growth hidden)"
  have vis: "gap_visible h t g \<longleftrightarrow> \<not> (h \<le> gp_Start g \<and> gp_End g \<le> t)" if g: "g \<in> set gs" for g
  proof -
    have "h \<le> gp_Start g \<or> gp_End g \<le> h" "t \<le> gp_Start g \<or> gp_End g \<le> t" using A g by blast+
    then show ?thesis using B'(2) pos [OF g] unfolding gap_visible_def by linarith
  qed
  have hid: "hidden = filter (\<lambda>g. h \<le> gp_Start g \<and> gp_End g \<le> t) gs"
    unfolding hidden_def by (rule filter_cong) (use vis in blast)+
  have om: "?n + sum_list (map gap_growth gs) -
      (h + ?n - t - sum_list (map (\<lambda>g. gp_End g - gp_Start g) (filter (gap_visible h t) gs))) -
      sum_list (map gp_Omitted (filter (gap_visible h t) gs)) = omitted"
  proof -
    have "sum_list (map gap_growth xs) = sum_list (map gp_Omitted xs) - sum_list (map (\<lambda>g. gp_End g - gp_Start g) xs)" for xs
      by (induction xs) (auto simp: gap_growth_def)
    then show ?thesis
      using sum_list_split [of gap_growth gs "gap_visible h t"] by (simp add: omitted_def hidden_def)
  qed
  have "clip_log s s ?n limit gs = (take (nat h) s @ omission_marker omitted @ drop (length s - nat (?n - t)) s,
      \<lparr>gp_Start = h, gp_End = h + int (length (omission_marker omitted)), gp_Omitted = omitted\<rparr>)"
    unfolding clip_log_def Let_def assms(4) [symmetric] k0_def [symmetric] m0_def [symmetric] h0_def [symmetric]
      m_def [symmetric] av prod.case om
    using assms(5) by simp
  then have rg: "r = take (nat h) s @ omission_marker omitted @ drop (length s - nat (?n - t)) s"
    "gap = \<lparr>gp_Start = h, gp_End = h + int (length (omission_marker omitted)), gp_Omitted = omitted\<rparr>"
    using assms(6) by simp_all
  have tn: "length s - nat (?n - t) = nat t" using B'(2,3) B'(1) by linarith
  have vh: "valid_utf8 (drop (nat h) s)"
    using A k(2) assms(2) by (auto simp: gaps_ok_def)
  have vt: "valid_utf8 (drop (nat t) s)"
  proof (cases "t = ?n - int m")
    case True
    then have "nat t = length s - m" by linarith
    then show ?thesis using mm(2) by simp
  qed (use A assms(2) in \<open>auto simp: gaps_ok_def\<close>)
  have r: "r = take (nat h) s @ omission_marker omitted @ drop (nat t) s" using rg(1) tn by simp
  have "valid_utf8 r"
    unfolding r using valid_utf8_append [OF valid_take_drop [OF assms(1) vh]] marker_valid vt by simp
  moreover have "int (length r) \<le> limit"
  proof -
    have "int (length (omission_marker omitted)) \<le> limit - budget"
      using marker_mono [of omitted "?n + sum_list (map gap_growth gs)"] B'(4,5) assms(4) by (simp add: omitted_def)
    moreover have "h \<le> budget div 4" "?n - t \<le> budget - budget div 4" using A size by linarith+
    ultimately show ?thesis using B' r by (simp add: nat_diff_distrib of_nat_diff)
  qed
  moreover have "clipped_as s gs limit (nat h) (nat t) omitted r"
    unfolding clipped_as_def
  proof (intro conjI ballI)
    fix g assume g: "g \<in> set gs"
    show "gp_End g \<le> int (nat h) \<or> int (nat t) \<le> gp_Start g \<or> int (nat h) \<le> gp_Start g \<and> gp_End g \<le> int (nat t)"
      using vis [OF g] B'(1,2) by (auto simp: gap_visible_def)
  qed (use B' r hid in \<open>simp_all add: omitted_def\<close>)
  ultimately show ?thesis using rg(2) B'(1) by (intro conjI exI [of _ "nat h"] exI [of _ "nat t"]) simp_all
qed

end
