(* ===== verification/MaskStream.thy ===== *)
theory MaskStream
  imports Masking CheckOutput
begin

text \<open>
  The output stream of a workflow step, \<open>commandMaskingWriter\<close> of \<open>actions/masking.go\<close>: it takes
  \<open>add-mask\<close> commands out of the text, redacts the rest with the masks known so far and keeps
  it in a bounded log buffer. Text arrives in arbitrary pieces.
\<close>

subsection \<open>The writer\<close>

definition maskCommand :: bytes where
  "maskCommand = ''::add-mask::''"

definition maximumStepOutput :: nat where
  "maximumStepOutput = 256 * 1024"

definition mask_limit_message :: bytes where
  "mask_limit_message = ''workflow.mask_limit: masking limit exceeded; remaining output withheld''"

text \<open>\<open>bytes.Index\<close> and \<open>bytes.IndexByte\<close>.\<close>

fun index_of :: "bytes \<Rightarrow> bytes \<Rightarrow> nat option" where
  "index_of p [] = (if p = [] then Some 0 else None)"
| "index_of p (c # s) = (if prefix p (c # s) then Some 0 else map_option Suc (index_of p s))"

fun index_byte :: "char \<Rightarrow> bytes \<Rightarrow> nat option" where
  "index_byte b [] = None"
| "index_byte b (c # s) = (if c = b then Some 0 else map_option Suc (index_byte b s))"

text \<open>The replacer of the escapes in a command: one pass, a replaced text is not looked at again.\<close>

fun unescape :: "bytes \<Rightarrow> bytes" where
  "unescape (a # b # c # s) =
     (if [a, b, c] = ''%0D'' then CHR 0x0D # unescape s
      else if [a, b, c] = ''%0A'' then CHR 0x0A # unescape s
      else if [a, b, c] = ''%25'' then CHR ''%'' # unescape s
      else a # unescape (b # c # s))"
| "unescape s = s"

text \<open>The sink \<open>'k\<close> stands for the kept log, \<open>emit\<close> for the redactor's field of that name.\<close>

record 'k maskWriter =
  mw_mask :: masker
  mw_pending :: bytes
  mw_kept :: 'k
  mw_literal :: literalRedactor
  mw_err :: "mask_fail option"

definition literal_write :: "(bytes \<Rightarrow> 'k \<Rightarrow> 'k) \<Rightarrow> bytes \<Rightarrow> bool \<Rightarrow> 'k maskWriter \<Rightarrow> 'k maskWriter" where
  "literal_write emit v final st =
     (case lr_write (mk_values (mw_mask st)) v final (mw_literal st) of (r, out) \<Rightarrow>
       st\<lparr>mw_literal := r, mw_kept := emit out (mw_kept st)\<rparr>)"

definition add_command :: "bytes \<Rightarrow> 'k maskWriter \<Rightarrow> 'k maskWriter" where
  "add_command encoded st =
     (case add_mask (unescape (trim_suffix [CHR 0x0D] encoded)) (mw_mask st) of (m, e) \<Rightarrow>
       st\<lparr>mw_mask := m, mw_err := e\<rparr>)"

definition stop_command :: "'k maskWriter \<Rightarrow> 'k maskWriter" where
  "stop_command st = st\<lparr>mw_mask := (mw_mask st)\<lparr>mk_stopped := True\<rparr>, mw_err := Some errMaskLimit\<rparr>"

text \<open>Where a command begins in front of the first line end.\<close>

definition command_at :: "bytes \<Rightarrow> nat option" where
  "command_at p =
     (case index_of maskCommand p of
       None \<Rightarrow> None
     | Some k \<Rightarrow> (case index_byte (CHR 0x0A) p of None \<Rightarrow> Some k | Some n \<Rightarrow> if k < n then Some k else None))"

definition with_pending :: "bytes \<Rightarrow> 'k maskWriter \<Rightarrow> 'k maskWriter" where
  "with_pending p st = st\<lparr>mw_pending := p\<rparr>"

text \<open>The loop of \<open>consumeMaskCommands\<close>.\<close>

function consume :: "(bytes \<Rightarrow> 'k \<Rightarrow> 'k) \<Rightarrow> bool \<Rightarrow> 'k maskWriter \<Rightarrow> 'k maskWriter" where
  "consume emit final st =
     (let p = mw_pending st in
      if p = [] \<or> mw_err st \<noteq> None then st
      else case command_at p of
        Some k \<Rightarrow>
          (let q = drop k p; st1 = with_pending q (literal_write emit (take k p) False st) in
           case index_byte (CHR 0x0A) q of
             None \<Rightarrow>
               if \<not> final
               then (if length q > length maskCommand + 3 * maxMaskBytes + 1 then stop_command st1 else st1)
               else with_pending [] (add_command (drop (length maskCommand) q) st1)
           | Some e \<Rightarrow> consume emit final (with_pending (drop (e + 1) q) (add_command (drop (length maskCommand) (take e q)) st1)))
      | None \<Rightarrow>
          (case index_byte (CHR 0x0A) p of
            Some n \<Rightarrow> consume emit final (with_pending (drop (n + 1) p) (literal_write emit (take (n + 1) p) False st))
          | None \<Rightarrow>
              (let keep = (if final then 0 else min (length p) (length maskCommand - 1)) in
               with_pending (drop (length p - keep) p) (literal_write emit (take (length p - keep) p) False st))))"
  by pat_completeness auto
termination
  by (relation "measure (\<lambda>(emit, final, st). length (mw_pending st))") (auto simp: with_pending_def)

declare consume.simps [simp del]

definition mask_Write :: "(bytes \<Rightarrow> 'k \<Rightarrow> 'k) \<Rightarrow> bytes \<Rightarrow> 'k maskWriter \<Rightarrow> 'k maskWriter" where
  "mask_Write emit v st =
     (if mw_err st = None then consume emit False (st\<lparr>mw_pending := mw_pending st @ v\<rparr>) else st)"

definition finish_text :: "(bytes \<Rightarrow> 'k \<Rightarrow> 'k) \<Rightarrow> 'k maskWriter \<Rightarrow> 'k maskWriter" where
  "finish_text emit st =
     (let st1 = consume emit True st in
      if mw_err st1 = None then literal_write emit [] True st1
      else st1\<lparr>mw_kept := emit (CHR 0x0A # mask_limit_message @ [CHR 0x0A]) (mw_kept st1)\<rparr>)"

definition newMaskWriter :: "masker \<Rightarrow> 'k \<Rightarrow> 'k maskWriter" where
  "newMaskWriter m kept = \<lparr>mw_mask = m, mw_pending = [], mw_kept = kept, mw_literal = newRedactor, mw_err = None\<rparr>"

definition mask_finish :: "LogBuffer maskWriter \<Rightarrow> bytes \<times> Gap \<times> mask_fail option" where
  "mask_finish st =
     (let st1 = finish_text AddPart st in
      case ResultWithGap (mw_kept st1) of (text', gap, clipped) \<Rightarrow> (text', gap, mw_err st1))"


subsection \<open>Searching\<close>

lemma prefix_drop_Suc: "prefix p (drop (Suc k) (c # s)) \<longleftrightarrow> prefix p (drop k s)"
  by simp

lemma index_of_Some:
  "p \<noteq> [] \<Longrightarrow> index_of p s = Some k \<longleftrightarrow> prefix p (drop k s) \<and> (\<forall>j < k. \<not> prefix p (drop j s))"
proof (induction s arbitrary: k)
  case (Cons c s)
  show ?case
  proof (cases "prefix p (c # s)")
    case True
    then show ?thesis by (cases k) auto
  next
    case False
    then show ?thesis using Cons by (cases k) (auto simp: less_Suc_eq_0_disj)
  qed
qed auto

lemma index_of_None: "p \<noteq> [] \<Longrightarrow> index_of p s = None \<longleftrightarrow> (\<forall>k. \<not> prefix p (drop k s))"
proof (induction s)
  case (Cons c s)
  have "(\<forall>k. \<not> prefix p (drop k (c # s))) \<longleftrightarrow> \<not> prefix p (c # s) \<and> (\<forall>k. \<not> prefix p (drop k s))"
    by (metis drop0 drop_Suc_Cons not0_implies_Suc)
  then show ?case using Cons by auto
qed simp

lemma index_byte_Some: "index_byte b s = Some n \<longleftrightarrow> n < length s \<and> s ! n = b \<and> b \<notin> set (take n s)"
proof (induction s arbitrary: n)
  case (Cons c s)
  then show ?case by (cases n) auto
qed simp

lemma index_byte_None: "index_byte b s = None \<longleftrightarrow> b \<notin> set s"
  by (induction s) auto

lemma index_byte_append:
  "index_byte b (s @ t) = (case index_byte b s of Some n \<Rightarrow> Some n | None \<Rightarrow> map_option ((+) (length s)) (index_byte b t))"
proof (induction s)
  case Nil
  then show ?case by (cases "index_byte b t") simp_all
next
  case (Cons c s)
  then show ?case by (cases "index_byte b t"; cases "index_byte b s") simp_all
qed

lemma nth_in_take: "n < k \<Longrightarrow> n < length p \<Longrightarrow> p ! n \<in> set (take k p)"
  by (metis length_take min_less_iff_conj nth_mem nth_take)

lemma set_take_mono: "j \<le> k \<Longrightarrow> x \<in> set (take j p) \<Longrightarrow> x \<in> set (take k p)"
  by (meson set_take_subset_set_take subsetD)

text \<open>A command at a position; it holds no line end.\<close>

abbreviation LFc :: char where
  "LFc \<equiv> CHR 0x0A"

definition is_command :: "bytes \<Rightarrow> nat \<Rightarrow> bool" where
  "is_command p k \<longleftrightarrow> prefix maskCommand (drop k p)"

lemma maskCommand_facts: "maskCommand \<noteq> []" "length maskCommand = 12" "LFc \<notin> set maskCommand"
  by (simp_all add: maskCommand_def)

lemma is_command_length: "is_command p k \<Longrightarrow> k + 12 \<le> length p"
  using prefix_length_le [of maskCommand "drop k p"] by (simp add: is_command_def maskCommand_facts)

lemma is_command_nth: "is_command p k \<Longrightarrow> n < length p \<Longrightarrow> k \<le> n \<Longrightarrow> n < k + 12 \<Longrightarrow> p ! n \<noteq> LFc"
proof -
  assume c: "is_command p k" and n: "n < length p" "k \<le> n" "n < k + 12"
  obtain z where z: "drop k p = maskCommand @ z" using c by (auto simp: is_command_def prefix_def)
  have "p ! n = drop k p ! (n - k)" using n by simp
  also have "n - k < length maskCommand" using n by (simp add: maskCommand_facts)
  then have "drop k p ! (n - k) = maskCommand ! (n - k)" by (simp add: z nth_append)
  finally have "p ! n = maskCommand ! (n - k)" .
  moreover have "maskCommand ! (n - k) \<in> set maskCommand" using n by (intro nth_mem) (simp add: maskCommand_facts)
  ultimately show ?thesis using maskCommand_facts(3) by metis
qed

lemma is_command_append: "is_command p k \<Longrightarrow> is_command (p @ b) k"
  by (simp add: is_command_def)

lemma is_command_append_iff: "k + 12 \<le> length p \<Longrightarrow> is_command (p @ b) k \<longleftrightarrow> is_command p k"
proof -
  assume k: "k + 12 \<le> length p"
  then have "length maskCommand \<le> length (drop k p)" by (simp add: maskCommand_facts)
  then show ?thesis
    using k prefix_length_prefix [of maskCommand "drop k p @ b" "drop k p"] by (auto simp: is_command_def)
qed

lemma is_command_shift: "is_command (q @ y) (length q + k) \<longleftrightarrow> is_command y k"
  by (simp add: is_command_def)

lemma command_at_Some:
  "command_at p = Some k \<longleftrightarrow> is_command p k \<and> (\<forall>j < k. \<not> is_command p j) \<and> LFc \<notin> set (take k p)"
proof -
  have "index_of maskCommand p = Some k \<longleftrightarrow> is_command p k \<and> (\<forall>j < k. \<not> is_command p j)" for k
    unfolding is_command_def by (rule index_of_Some) (rule maskCommand_facts(1))
  note idx = this
  have lf: "(case index_byte LFc p of None \<Rightarrow> True | Some n \<Rightarrow> k < n) \<longleftrightarrow> LFc \<notin> set (take k p)" if c: "is_command p k" for k
  proof (cases "index_byte LFc p")
    case None
    then have "LFc \<notin> set p" by (simp add: index_byte_None)
    then have "LFc \<notin> set (take k p)" using in_set_takeD [of LFc k p] by blast
    then show ?thesis using None by simp
  next
    case (Some n)
    then have n: "n < length p" "p ! n = LFc" "LFc \<notin> set (take n p)" by (simp_all add: index_byte_Some)
    have "n \<noteq> k" using is_command_nth [OF c n(1)] n(2) by auto
    moreover have "LFc \<notin> set (take k p)" if "k < n" using n(3) that set_take_mono [of k n LFc p] by auto
    moreover have "LFc \<in> set (take k p)" if "n < k"
      using nth_in_take [OF that n(1)] n(2) by simp
    ultimately show ?thesis using Some by (cases n k rule: linorder_cases) auto
  qed
  show ?thesis
  proof (cases "index_of maskCommand p")
    case None
    then have "\<not> is_command p k" unfolding is_command_def using index_of_None [OF maskCommand_facts(1)] by blast
    then show ?thesis using None by (simp add: command_at_def)
  next
    case (Some m)
    then have m: "is_command p m" "\<forall>j < m. \<not> is_command p j" using idx by blast+
    have "command_at p = Some k \<longleftrightarrow> m = k \<and> LFc \<notin> set (take m p)"
      using Some lf [OF m(1)] by (auto simp: command_at_def split: option.splits)
    also have "\<dots> \<longleftrightarrow> is_command p k \<and> (\<forall>j < k. \<not> is_command p j) \<and> LFc \<notin> set (take k p)"
      using m by (metis linorder_neqE_nat)
    finally show ?thesis .
  qed
qed

lemma command_at_None: "command_at p = None \<longleftrightarrow> (\<forall>k. is_command p k \<longrightarrow> LFc \<in> set (take k p))"
proof
  assume none: "command_at p = None"
  show "\<forall>k. is_command p k \<longrightarrow> LFc \<in> set (take k p)"
  proof (intro allI impI)
    fix k assume k: "is_command p k"
    define m where "m = (LEAST j. is_command p j)"
    have m: "is_command p m" "\<forall>j < m. \<not> is_command p j" "m \<le> k"
      unfolding m_def using LeastI [of "is_command p", OF k] not_less_Least [of _ "is_command p"] Least_le [of "is_command p", OF k] by blast+
    then have "LFc \<in> set (take m p)" using none command_at_Some [of p m] by fastforce
    then show "LFc \<in> set (take k p)" by (rule set_take_mono [OF m(3)])
  qed
next
  assume "\<forall>k. is_command p k \<longrightarrow> LFc \<in> set (take k p)"
  then show "command_at p = None" using command_at_Some [of p] by (metis option.exhaust)
qed

lemma command_at_append: "command_at p = Some k \<Longrightarrow> command_at (p @ b) = Some k"
proof -
  assume "command_at p = Some k"
  then have c: "is_command p k" "\<forall>j < k. \<not> is_command p j" "LFc \<notin> set (take k p)" by (simp_all add: command_at_Some)
  have "\<not> is_command (p @ b) j" if "j < k" for j
    using that c(2) is_command_append_iff [of j p b] is_command_length [OF c(1)] by simp
  then show ?thesis using c is_command_append is_command_length [OF c(1)] by (simp add: command_at_Some)
qed

lemma command_at_after_line:
  assumes "command_at p = None" and "index_byte LFc p = Some n" shows "command_at (p @ b) = None"
  unfolding command_at_None
proof (intro allI impI)
  fix k assume k: "is_command (p @ b) k"
  have n: "n < length p" "p ! n = LFc" "LFc \<notin> set (take n p)" using assms(2) by (simp_all add: index_byte_Some)
  have "n < k"
  proof (rule ccontr)
    assume "\<not> n < k"
    then have "k + 12 \<le> n" using is_command_nth [OF k, of n] n(1,2) by (intro leI notI) (simp add: nth_append)
    then have "is_command p k" using is_command_append_iff [of k p b] k n(1) by simp
    then have "LFc \<in> set (take k p)" using assms(1) by (simp add: command_at_None)
    then show False using n(3) \<open>k + 12 \<le> n\<close> set_take_mono [of k n LFc p] by simp
  qed
  then show "LFc \<in> set (take k (p @ b))"
    using nth_in_take [of n k "p @ b"] n(1,2) by (simp add: nth_append)
qed

lemma command_at_shift:
  assumes "LFc \<notin> set q" and "\<forall>j < length q. \<not> is_command (q @ y) j"
  shows "command_at (q @ y) = map_option ((+) (length q)) (command_at y)"
proof (cases "command_at y")
  case None
  have "LFc \<in> set (take k (q @ y))" if k: "is_command (q @ y) k" for k
  proof -
    obtain m where m: "k = length q + m" using assms(2) k by (metis le_add_diff_inverse not_less)
    then have "is_command y m" using k by (simp add: is_command_shift)
    then have "LFc \<in> set (take m y)" using None command_at_None by blast
    then show ?thesis using m by simp
  qed
  then have "command_at (q @ y) = None" using command_at_None by blast
  then show ?thesis using None by simp
next
  case (Some m)
  then have m: "is_command y m" "\<forall>j < m. \<not> is_command y j" "LFc \<notin> set (take m y)" by (simp_all add: command_at_Some)
  have "\<not> is_command (q @ y) j" if "j < length q + m" for j
    using that assms(2) m(2) is_command_shift [of q y "j - length q"] by (cases "j < length q") auto
  then have "command_at (q @ y) = Some (length q + m)"
    using m assms(1) by (simp add: command_at_Some is_command_shift)
  then show ?thesis using Some by simp
qed

subsection \<open>The loop in steps\<close>

text \<open>What follows a command that begins the pending text \<open>q\<close>.\<close>

definition after_command :: "(bytes \<Rightarrow> 'k \<Rightarrow> 'k) \<Rightarrow> bool \<Rightarrow> bytes \<Rightarrow> 'k maskWriter \<Rightarrow> 'k maskWriter" where
  "after_command emit final q st =
     (let st1 = with_pending q st in
      case index_byte LFc q of
        None \<Rightarrow>
          if \<not> final
          then (if length q > length maskCommand + 3 * maxMaskBytes + 1 then stop_command st1 else st1)
          else with_pending [] (add_command (drop (length maskCommand) q) st1)
      | Some e \<Rightarrow> consume emit final (with_pending (drop (e + 1) q) (add_command (drop (length maskCommand) (take e q)) st1)))"

lemma writer_fields [simp]:
  "mw_pending (with_pending p st) = p" "mw_err (with_pending p st) = mw_err st" "mw_mask (with_pending p st) = mw_mask st"
  "mw_literal (with_pending p st) = mw_literal st" "mw_kept (with_pending p st) = mw_kept st"
  "with_pending p (with_pending q st) = with_pending p st"
  by (simp_all add: with_pending_def)

lemma literal_write_fields [simp]:
  "mw_pending (literal_write emit v final st) = mw_pending st" "mw_err (literal_write emit v final st) = mw_err st"
  "mw_mask (literal_write emit v final st) = mw_mask st"
  "literal_write emit v final (with_pending p st) = with_pending p (literal_write emit v final st)"
  by (simp_all add: literal_write_def with_pending_def split: prod.split)

lemma command_fields [simp]:
  "mw_pending (add_command enc st) = mw_pending st" "mw_pending (stop_command st) = mw_pending st"
  "mw_err (stop_command st) = Some errMaskLimit"
  "add_command enc (with_pending p st) = with_pending p (add_command enc st)"
  "stop_command (with_pending p st) = with_pending p (stop_command st)"
  by (simp_all add: add_command_def stop_command_def with_pending_def split: prod.split)

lemma with_pending_self [simp]: "with_pending (mw_pending st) st = st"
  by (simp add: with_pending_def)

lemma consume_stop: "mw_pending st = [] \<or> mw_err st \<noteq> None \<Longrightarrow> consume emit final st = st"
  by (subst consume.simps) (auto simp: Let_def)

lemma consume_command:
  assumes "mw_err st = None" and "command_at p = Some k"
  shows "consume emit final (with_pending p st) = after_command emit final (drop k p) (literal_write emit (take k p) False st)"
proof -
  have "p \<noteq> []" using assms(2) by (auto simp: command_at_Some dest: is_command_length)
  then show ?thesis
    using assms by (subst consume.simps) (simp add: Let_def after_command_def)
qed

lemma consume_line:
  assumes "mw_err st = None" and "command_at p = None" and "index_byte LFc p = Some n"
  shows "consume emit final (with_pending p st) =
    consume emit final (with_pending (drop (n + 1) p) (literal_write emit (take (n + 1) p) False st))"
proof -
  have "p \<noteq> []" using assms(3) by auto
  then show ?thesis using assms by (subst consume.simps) (simp add: Let_def)
qed

definition held_back :: "bool \<Rightarrow> bytes \<Rightarrow> nat" where
  "held_back final p = (if final then 0 else min (length p) (length maskCommand - 1))"

lemma consume_rest:
  assumes "mw_err st = None" and "command_at p = None" and "index_byte LFc p = None" and "p \<noteq> []"
  shows "consume emit final (with_pending p st) =
    with_pending (drop (length p - held_back final p) p) (literal_write emit (take (length p - held_back final p) p) False st)"
  using assms by (subst consume.simps) (simp add: Let_def held_back_def)

subsection \<open>Pieces of the stream\<close>

text \<open>The kept text as such, in place of the log buffer.\<close>

definition collect :: "bytes \<Rightarrow> bytes \<Rightarrow> bytes" where
  "collect x k = k @ x"

definition same_writer :: "'k maskWriter \<Rightarrow> 'k maskWriter \<Rightarrow> bool" where
  "same_writer a b \<longleftrightarrow> mw_mask a = mw_mask b \<and> mw_kept a = mw_kept b \<and> mw_literal a = mw_literal b \<and>
     mw_err a = mw_err b \<and> (mw_err a = None \<longrightarrow> mw_pending a = mw_pending b)"

lemma same_refl [simp]: "same_writer a a"
  by (simp add: same_writer_def)

lemma same_trans: "same_writer a b \<Longrightarrow> same_writer b c \<Longrightarrow> same_writer a c"
  by (simp add: same_writer_def)

lemma same_eq: "same_writer a b \<Longrightarrow> mw_err b = None \<Longrightarrow> a = b"
  by (simp add: same_writer_def)

lemma same_stopped: "mw_err st \<noteq> None \<Longrightarrow> same_writer (with_pending p st) (with_pending q st)"
  by (auto simp: same_writer_def)

lemma literal_write_join:
  "literal_write collect b final (literal_write collect a False st) = literal_write collect (a @ b) final st"
proof -
  obtain r1 o1 where 1: "lr_write (mk_values (mw_mask st)) a False (mw_literal st) = (r1, o1)" by fastforce
  obtain r2 o2 where 2: "lr_write (mk_values (mw_mask st)) b final r1 = (r2, o2)" by fastforce
  show ?thesis using lr_write_append [OF 1 2] 1 2 by (simp add: literal_write_def collect_def)
qed

text \<open>Text without a command or a line end may be written before what follows it.\<close>

lemma consume_shift:
  assumes "mw_err st = None" and "y \<noteq> []" and "LFc \<notin> set q" and "\<forall>j < length q. \<not> is_command (q @ y) j"
    and "q = [] \<or> length maskCommand - 1 \<le> length y \<or> final"
  shows "consume collect final (with_pending (q @ y) st) = consume collect final (with_pending y (literal_write collect q False st))"
proof -
  let ?st = "literal_write collect q False st"
  have err: "mw_err ?st = None" using assms(1) by simp
  have lf: "index_byte LFc (q @ y) = map_option ((+) (length q)) (index_byte LFc y)"
    using assms(3) index_byte_None [of LFc q] by (simp add: index_byte_append)
  note cmd = command_at_shift [OF assms(3,4)]
  show ?thesis
  proof (cases "command_at y")
    case (Some k)
    then have "command_at (q @ y) = Some (length q + k)" using cmd by simp
    from consume_command [OF assms(1) this] consume_command [OF err Some] show ?thesis by (simp add: literal_write_join)
  next
    case none: None
    then have none': "command_at (q @ y) = None" using cmd by simp
    show ?thesis
    proof (cases "index_byte LFc y")
      case (Some n)
      then have "index_byte LFc (q @ y) = Some (length q + n)" using lf by simp
      from consume_line [OF assms(1) none' this] consume_line [OF err none Some] show ?thesis by (simp add: literal_write_join)
    next
      case None
      then have "index_byte LFc (q @ y) = None" using lf by simp
      note rest = consume_rest [OF assms(1) none' this] consume_rest [OF err none None assms(2)]
      have "held_back final (q @ y) = held_back final y" "held_back final y \<le> length y" using assms(5) by (auto simp: held_back_def)
      then show ?thesis using rest assms(2) by (simp add: literal_write_join)
    qed
  qed
qed

lemma unescape_length: "length s \<le> 3 * length (unescape s)"
  by (induction s rule: unescape.induct) auto

text \<open>A command that is too long without a line end is refused with one as well.\<close>

lemma long_command_refused:
  assumes "length enc > 3 * maxMaskBytes + 1"
  shows "add_command enc st = stop_command st"
proof -
  let ?v = "unescape (trim_suffix [CHR 0x0D] enc)"
  have "length enc \<le> length (trim_suffix [CHR 0x0D] enc) + 1"
    by (auto simp: trim_suffix_def cut_suffix_def suffix_def split: option.split)
  then have "3 * maxMaskBytes < 3 * length ?v" using assms unescape_length [of "trim_suffix [CHR 0x0D] enc"] by linarith
  then show ?thesis by (simp add: add_command_def stop_command_def add_mask_def)
qed

lemma after_long_command:
  assumes "length q > length maskCommand + 3 * maxMaskBytes + 1" and "index_byte LFc q = None"
  shows "same_writer (with_pending p (stop_command st)) (after_command collect final (q @ b) st)"
proof (cases "index_byte LFc (q @ b)")
  case None
  have "length (drop (length maskCommand) (q @ b)) > 3 * maxMaskBytes + 1" using assms(1) by simp
  note refused = long_command_refused [OF this, of "with_pending (q @ b) st"]
  then show ?thesis using assms(1) None by (simp add: after_command_def Let_def same_stopped del: drop_append)
next
  case (Some e)
  have "length q \<le> e" using Some assms(2) by (auto simp: index_byte_append split: option.splits)
  moreover have "e < length (q @ b)" using Some by (simp add: index_byte_Some del: length_append)
  ultimately have "length (drop (length maskCommand) (take e (q @ b))) > 3 * maxMaskBytes + 1" using assms(1) by simp
  note refused = long_command_refused [OF this, of "with_pending (q @ b) st"]
  have "after_command collect final (q @ b) st = with_pending (drop (e + 1) (q @ b)) (stop_command st)"
    unfolding after_command_def Let_def Some option.case refused by (subst consume_stop) (simp_all del: drop_append)
  then show ?thesis by (simp add: same_stopped del: drop_append)
qed

lemma after_command_append:
  assumes "mw_err st = None" and "is_command q 0" and "literal_write collect [] False st = st"
    and IH: "\<And>st'. length (mw_pending st') < length q \<Longrightarrow> mw_err st' = None \<Longrightarrow>
      same_writer (consume collect final (with_pending (mw_pending (consume collect False st') @ b) (consume collect False st')))
        (consume collect final (with_pending (mw_pending st' @ b) st'))"
  defines "C \<equiv> after_command collect False q st"
  shows "same_writer (consume collect final (with_pending (mw_pending C @ b) C)) (after_command collect final (q @ b) st)"
proof (cases "index_byte LFc q")
  case (Some e)
  define st' where "st' = with_pending (drop (e + 1) q) (add_command (drop (length maskCommand) (take e q)) st)"
  have e: "e < length q" using Some by (simp add: index_byte_Some)
  have C: "C = consume collect False st'" by (simp add: C_def after_command_def Some st'_def Let_def)
  have "index_byte LFc (q @ b) = Some e" by (simp add: index_byte_append Some)
  then have A: "after_command collect final (q @ b) st = consume collect final (with_pending (mw_pending st' @ b) st')"
    using e by (simp add: after_command_def st'_def Let_def)
  show ?thesis
  proof (cases "mw_err st' = None")
    case True
    then show ?thesis unfolding A C by (intro IH) (use e in \<open>simp_all add: st'_def\<close>)
  next
    case False
    then show ?thesis unfolding A C by (simp add: consume_stop same_stopped)
  qed
next
  case None
  show ?thesis
  proof (cases "length q > length maskCommand + 3 * maxMaskBytes + 1")
    case True
    then have "C = stop_command (with_pending q st)" by (simp add: C_def after_command_def None Let_def)
    then show ?thesis using after_long_command [OF True None] by (simp add: consume_stop)
  next
    case False
    then have C: "C = with_pending q st" by (simp add: C_def after_command_def None Let_def)
    have "command_at (q @ b) = Some 0" using is_command_append [OF assms(2), of b] by (simp add: command_at_Some)
    from consume_command [OF assms(1) this, of collect final] show ?thesis unfolding C using assms(3) by simp
  qed
qed

text \<open>More text continues the loop where it stopped.\<close>

lemma consume_append:
  assumes "mw_err st = None"
  shows "same_writer
    (consume collect final (with_pending (mw_pending (consume collect False st) @ b) (consume collect False st)))
    (consume collect final (with_pending (mw_pending st @ b) st))"
  using assms
proof (induction st rule: measure_induct_rule [of "\<lambda>st. length (mw_pending st)"])
  case (less st)
  define p where "p = mw_pending st"
  have st: "with_pending p st = st" by (simp add: p_def)
  note IH = less.IH [folded p_def] and err = less.prems
  show ?case
  proof (cases "p = []")
    case True
    then show ?thesis by (simp add: consume_stop p_def)
  next
    case ne: False
    show ?thesis
    proof (cases "command_at p")
      case (Some k)
      let ?st = "literal_write collect (take k p) False st"
      have k: "k + 12 \<le> length p" "is_command p k" using Some is_command_length by (auto simp: command_at_Some)
      have cmd: "is_command (drop k p) 0" using k(2) by (simp add: is_command_def)
      have stuck: "literal_write collect [] False ?st = ?st" by (simp add: literal_write_join)
      have C: "consume collect False st = after_command collect False (drop k p) ?st"
        using consume_command [OF err Some, of collect False] st by simp
      have A: "consume collect final (with_pending (p @ b) st) = after_command collect final (drop k p @ b) ?st"
        using consume_command [OF err command_at_append [OF Some, of b], of collect final] k(1) by simp
      show ?thesis
        unfolding p_def [symmetric] A C
        by (rule after_command_append) (use err cmd stuck IH in \<open>auto simp: p_def\<close>)
    next
      case none: None
      show ?thesis
      proof (cases "index_byte LFc p")
        case (Some n)
        let ?st = "with_pending (drop (n + 1) p) (literal_write collect (take (n + 1) p) False st)"
        have n: "n < length p" using Some by (simp add: index_byte_Some)
        have C: "consume collect False st = consume collect False ?st"
          using consume_line [OF err none Some, of collect False] st by simp
        have "index_byte LFc (p @ b) = Some n" using Some by (simp add: index_byte_append)
        from consume_line [OF err command_at_after_line [OF none Some] this, of collect final]
        have A: "consume collect final (with_pending (p @ b) st) = consume collect final (with_pending (mw_pending ?st @ b) ?st)"
          using n by simp
        show ?thesis unfolding p_def [symmetric] A C by (rule IH) (use n err in simp_all)
      next
        case None
        define r where "r = drop (length p - held_back False p) p"
        define q where "q = take (length p - held_back False p) p"
        have qr: "p = q @ r" by (simp add: q_def r_def)
        have C: "consume collect False st = with_pending r (literal_write collect q False st)"
          using consume_rest [OF err none None ne, of collect False] st by (simp add: r_def q_def)
        have lens: "length q = length p - held_back False p" "length r = held_back False p" by (auto simp: q_def r_def held_back_def)
        have "LFc \<notin> set q" using None index_byte_None [of LFc p] qr by simp
        moreover have "\<not> is_command (q @ r @ b) j" if "j < length q" for j
        proof
          assume c: "is_command (q @ r @ b) j"
          have "j + 12 \<le> length p" using that lens(1) by (auto simp: held_back_def maskCommand_facts)
          then have "is_command p j" using is_command_append_iff [of j p b] c qr by simp
          then have "LFc \<in> set (take j p)" using none by (simp add: command_at_None)
          then show False using None index_byte_None [of LFc p] in_set_takeD by metis
        qed
        moreover have "r \<noteq> []" using lens(2) ne by (cases p) (auto simp: held_back_def maskCommand_facts)
        then have "r @ b \<noteq> []" by simp
        moreover have "q = [] \<or> length maskCommand - 1 \<le> length (r @ b) \<or> final"
          using lens by (cases "length p \<le> length maskCommand - 1") (auto simp: held_back_def)
        ultimately have "consume collect final (with_pending (q @ r @ b) st) =
            consume collect final (with_pending (r @ b) (literal_write collect q False st))"
          using consume_shift [OF err, of "r @ b" q final] by blast
        then show ?thesis unfolding p_def [symmetric] C by (simp add: qr)
      qed
    qed
  qed
qed

lemma mask_Write_ok: "mw_err st = None \<Longrightarrow> mask_Write emit v st = consume emit False (with_pending (mw_pending st @ v) st)"
  by (simp add: mask_Write_def with_pending_def)

lemma mask_Write_stopped: "mw_err st \<noteq> None \<Longrightarrow> mask_Write emit v st = st"
  by (auto simp: mask_Write_def)

lemma mask_Write_append:
  "same_writer (mask_Write collect v (mask_Write collect w st)) (mask_Write collect (w @ v) st)"
proof (cases "mw_err st = None")
  case True
  define s where "s = with_pending (mw_pending st @ w) st"
  define C where "C = consume collect False s"
  have s: "mw_err s = None" "mw_pending s @ v = mw_pending st @ w @ v" "with_pending p s = with_pending p st" for p
    using True by (simp_all add: s_def)
  have C': "mask_Write collect w st = C" using mask_Write_ok [OF True] by (simp add: C_def s_def)
  have "same_writer (mask_Write collect v C) (consume collect False (with_pending (mw_pending C @ v) C))"
  proof (cases "mw_err C = None")
    case False
    then show ?thesis using mask_Write_stopped [OF False, of collect v] by (auto simp: consume_stop same_writer_def)
  qed (simp add: mask_Write_ok)
  from same_trans [OF this consume_append [OF s(1), of False v, folded C_def]]
  show ?thesis unfolding C' mask_Write_ok [OF True, of collect "w @ v"] s(2,3) .
next
  case False
  then show ?thesis using mask_Write_stopped [OF False, of collect] by simp
qed

lemma same_Write: "same_writer a b \<Longrightarrow> same_writer (mask_Write collect v a) (mask_Write collect v b)"
proof (cases "mw_err b = None")
  case True
  assume "same_writer a b"
  then have "a = b" using True by (rule same_eq)
  then show ?thesis by simp
next
  case False
  assume s: "same_writer a b"
  then have "mw_err a \<noteq> None" using False by (simp add: same_writer_def)
  then show ?thesis using s False by (simp add: mask_Write_stopped)
qed

lemma same_consume: "same_writer a b \<Longrightarrow> same_writer (consume collect final a) (consume collect final b)"
proof (cases "mw_err b = None")
  case False
  moreover assume "same_writer a b"
  moreover have "mw_err a \<noteq> None" using calculation by (simp add: same_writer_def)
  ultimately show ?thesis by (simp add: consume_stop)
qed (auto dest: same_eq)

definition outcome :: "'k maskWriter \<Rightarrow> 'k \<times> mask_fail option" where
  "outcome st = (mw_kept st, mw_err st)"

lemma same_outcome: "same_writer (consume collect True a) (consume collect True b) \<Longrightarrow> outcome (finish_text collect a) = outcome (finish_text collect b)"
proof (cases "mw_err (consume collect True b) = None")
  case True
  assume "same_writer (consume collect True a) (consume collect True b)"
  then have "consume collect True a = consume collect True b" using True by (rule same_eq)
  then show ?thesis by (simp add: finish_text_def)
next
  case False
  assume "same_writer (consume collect True a) (consume collect True b)"
  then show ?thesis using False by (auto simp: finish_text_def Let_def outcome_def same_writer_def)
qed

lemma writes_join:
  "same_writer (foldl (\<lambda>st v. mask_Write collect v st) (newMaskWriter m k) vs) (mask_Write collect (concat vs) (newMaskWriter m k))"
proof (induction vs rule: rev_induct)
  case Nil
  have "mask_Write collect [] (newMaskWriter m k) = newMaskWriter m k" by (simp add: mask_Write_def newMaskWriter_def consume_stop)
  then show ?case by simp
next
  case (snoc v vs)
  then show ?case using same_trans [OF same_Write [OF snoc, of v] mask_Write_append] by simp
qed

end
