(* ===== verification/LogParts.thy ===== *)
theory LogParts
  imports CheckOutput
begin

text \<open>
  The log buffer is the clipped whole: however the text arrives in parts, \<open>LogBuffer\<close> gives the
  result of \<open>ClipLog\<close> on all of it, within the limit, as valid text with an exact count.
\<close>

subsection \<open>The buffer holds enough of the whole text\<close>

text \<open>The last bytes of a text.\<close>

definition lastn :: "nat \<Rightarrow> 'a list \<Rightarrow> 'a list" where
  "lastn n xs = drop (length xs - n) xs"

lemma lastn_length [simp]: "length (lastn n xs) = min n (length xs)"
  by (simp add: lastn_def)

lemma lastn_all: "length xs \<le> n \<Longrightarrow> lastn n xs = xs"
  by (simp add: lastn_def)

lemma lastn_lastn: "lastn m (lastn n xs) = lastn (min m n) xs"
proof (cases "n \<le> length xs")
  case True
  then have "length xs - (length xs - n) - m + (length xs - n) = length xs - min m n" by linarith
  then show ?thesis by (simp add: lastn_def)
next
  case False
  then show ?thesis by (cases "m \<le> length xs") (auto simp: lastn_def min_def)
qed

lemma lastn_append: "lastn n (xs @ ys) = lastn (n - length ys) xs @ lastn n ys"
  by (cases "length ys \<le> n") (auto simp: lastn_def)

lemma lastn_mono: "lastn n xs = lastn n ys \<Longrightarrow> m \<le> n \<Longrightarrow> lastn m xs = lastn m ys"
  by (metis lastn_lastn min.absorb1)

lemma nth_lastn: "j < n \<Longrightarrow> n \<le> length xs \<Longrightarrow> xs ! (length xs - Suc j) = lastn n xs ! (n - Suc j)"
  by (simp add: lastn_def)

definition buffer_holds :: "LogBuffer \<Rightarrow> bytes \<Rightarrow> Gap list \<Rightarrow> bool" where
  "buffer_holds b T G \<longleftrightarrow> lb_total b = length T \<and> lb_gaps b = G \<and> lb_head b = take (lb_Limit b div 4) T \<and>
     (let keep = lb_Limit b - lb_Limit b div 4; R = drop (lb_Limit b div 4) T in
      lastn keep (lb_tail b) = lastn keep R \<and> (length R \<le> keep \<longrightarrow> lb_tail b = R))"

definition part_text :: "bytes \<times> Gap \<Rightarrow> bytes" where
  "part_text p = (if gp_Omitted (snd p) > 0 then fst p else ToValidUTF8 (fst p))"

text \<open>The text and the markers of a list of parts.\<close>

definition join_part :: "bytes \<times> Gap list \<Rightarrow> bytes \<times> Gap \<Rightarrow> bytes \<times> Gap list" where
  "join_part TG p = (fst TG @ part_text p,
     if gp_Omitted (snd p) > 0 then snd TG @ [shift_gap (length (fst TG)) (snd p)] else snd TG)"

definition join_parts :: "(bytes \<times> Gap) list \<Rightarrow> bytes \<times> Gap list" where
  "join_parts ps = foldl join_part ([], []) ps"

definition add_parts :: "nat \<Rightarrow> (bytes \<times> Gap) list \<Rightarrow> LogBuffer" where
  "add_parts limit ps = foldl (\<lambda>b p. AddClipped (fst p) (snd p) b) (newLogBuffer limit) ps"

lemma tail_grows:
  assumes "lastn keep tail = lastn keep R" and "length R \<le> keep \<longrightarrow> tail = R"
    and "tail' = tail @ drop (length rest - keep) rest"
    and "tail'' = (if length tail' > 2 * keep then drop (length tail' - keep) tail' else tail')"
  shows "lastn keep tail'' = lastn keep (R @ rest) \<and> (length (R @ rest) \<le> keep \<longrightarrow> tail'' = R @ rest)"
proof -
  have "lastn keep tail' = lastn (keep - length rest) tail @ lastn keep rest"
    unfolding assms(3) lastn_def [of keep rest, symmetric] lastn_append lastn_lastn by (simp add: min_def)
  also have "\<dots> = lastn keep (R @ rest)"
    using lastn_mono [OF assms(1), of "keep - length rest"] by (simp add: lastn_append)
  finally have t: "lastn keep tail' = lastn keep (R @ rest)" .
  have "lastn keep tail'' = lastn keep tail'"
    unfolding assms(4) using lastn_lastn [of keep keep tail'] by (simp add: lastn_def)
  moreover have "tail'' = R @ rest" if "length (R @ rest) \<le> keep"
  proof -
    have "tail' = R @ rest" using that assms(2) by (simp add: assms(3))
    then show ?thesis using that by (simp add: assms(4))
  qed
  ultimately show ?thesis using t by simp
qed

lemma AddClipped_holds:
  assumes "buffer_holds b (fst TG) (snd TG)"
  shows "buffer_holds (AddClipped (fst p) (snd p) b) (fst (join_part TG p)) (snd (join_part TG p))"
proof -
  let ?q = "lb_Limit b div 4" and ?keep = "lb_Limit b - lb_Limit b div 4" and ?part = "part_text p" and ?T = "fst TG"
  define kept where "kept = min (?q - length (lb_head b)) (length ?part)"
  have head: "lb_head b = take ?q ?T" using assms by (simp add: buffer_holds_def)
  then have k: "take ?q (?T @ ?part) = lb_head b @ take kept ?part" "drop ?q (?T @ ?part) = drop ?q ?T @ drop kept ?part"
    by (auto simp: kept_def min_def)
  have "lastn ?keep (lb_tail b) = lastn ?keep (drop ?q ?T)" "length (drop ?q ?T) \<le> ?keep \<longrightarrow> lb_tail b = drop ?q ?T"
    using assms by (simp_all add: buffer_holds_def Let_def)
  note tail = tail_grows [OF this refl refl, of "drop kept ?part"]
  have tot: "lb_total b = length ?T" and gaps: "lb_gaps b = snd TG" using assms by (simp_all add: buffer_holds_def)
  have add: "AddClipped (fst p) (snd p) b = b\<lparr>lb_gaps := snd (join_part TG p), lb_total := lb_total b + length ?part,
      lb_head := lb_head b @ take kept ?part,
      lb_tail := (let t = lb_tail b @ drop (length (drop kept ?part) - ?keep) (drop kept ?part) in
        if length t > 2 * ?keep then drop (length t - ?keep) t else t)\<rparr>"
    unfolding AddClipped_def join_part_def kept_def part_text_def Let_def snd_conv tot [symmetric] gaps [symmetric] by (rule refl)
  show ?thesis
    unfolding add buffer_holds_def Let_def
    using tail k tot by (simp add: join_part_def)
qed

lemma AddClipped_Limit: "lb_Limit (AddClipped part' gap b) = lb_Limit b"
  unfolding AddClipped_def Let_def by simp

lemma add_parts_holds: "buffer_holds (add_parts limit ps) (fst (join_parts ps)) (snd (join_parts ps)) \<and> lb_Limit (add_parts limit ps) = limit"
proof (induction ps rule: rev_induct)
  case Nil
  then show ?case by (simp add: add_parts_def join_parts_def buffer_holds_def newLogBuffer_def)
next
  case (snoc p ps)
  then show ?case
    using AddClipped_holds [of "add_parts limit ps" "join_parts ps" p]
      AddClipped_Limit [of "fst p" "snd p" "add_parts limit ps"]
    by (simp only: add_parts_def join_parts_def foldl_append foldl.simps)
qed

subsection \<open>Clipping the parts is clipping the whole\<close>

lemma whole_head_cong:
  "take k xs = take k ys \<Longrightarrow> \<forall>i \<in> set is. 1 \<le> i \<Longrightarrow> whole_head xs k is = whole_head ys k is"
proof (induction "is")
  case (Cons i "is")
  show ?case
  proof (cases "k < i")
    case False
    then have "xs ! (k - i) = ys ! (k - i)"
      using Cons.prems nth_take [of "k - i" k xs] nth_take [of "k - i" k ys] by simp
    then show ?thesis using Cons by simp
  qed simp
qed simp

lemma whole_tail_cong:
  assumes "lastn n xs = lastn n ys" and "k \<le> n" and "n \<le> length xs" and "n \<le> length ys"
  shows "whole_tail xs k = whole_tail ys k"
  using assms(2)
proof (induction k)
  case (Suc k)
  have "xs ! (length xs - Suc k) = ys ! (length ys - Suc k)"
    using nth_lastn [of k n xs] nth_lastn [of k n ys] assms Suc.prems by simp
  then show ?case using Suc by simp
qed simp

lemma whole_tail_le: "whole_tail xs k \<le> k"
  by (induction k) auto

lemma whole_head_le: "whole_head xs k is \<le> k"
  by (induction "is") auto

lemma avoid_gaps_le: "avoid_gaps gs (h, t) = (h', t') \<Longrightarrow> h' \<le> h \<and> t \<le> t'"
proof (induction gs arbitrary: h t)
  case (Cons g gs)
  show ?case
    using Cons.IH [OF Cons.prems [unfolded avoid_gaps.simps]] by (auto split: if_splits)
qed simp

lemma clip_log_parts:
  assumes "buffer_holds b T G" and "lb_Limit b < length T"
    and "4 \<le> int (lb_Limit b) - int (length (omission_marker (int (length T) + sum_list (map gap_growth G))))"
  shows "clip_log (lb_head b) (lb_tail b) (int (length T)) (int (lb_Limit b)) G = clip_log T T (int (length T)) (int (lb_Limit b)) G"
proof -
  define L where "L = lb_Limit b"
  define budget where "budget = int L - int (length (omission_marker (int (length T) + sum_list (map gap_growth G))))"
  have b: "4 \<le> budget" "budget \<le> int L" using assms(3) by (simp_all add: budget_def L_def)
  let ?keep = "L - L div 4"
  have head: "lb_head b = take (L div 4) T" and last: "lastn ?keep (lb_tail b) = lastn ?keep (drop (L div 4) T)"
    using assms(1) by (simp_all add: buffer_holds_def Let_def L_def)
  have LT: "L < length T" using assms(2) by (simp add: L_def)
  then have "length (drop (L div 4) T) \<ge> ?keep" by simp
  then have tl: "?keep \<le> length (lb_tail b)" using arg_cong [OF last, of length] by (simp add: min_def split: if_splits)
  have "lastn ?keep (drop (L div 4) T) = lastn ?keep T" using LT by (simp add: lastn_def)
  with last have lastT: "lastn ?keep (lb_tail b) = lastn ?keep T" by simp
  have kh: "nat (budget div 4) \<le> L div 4" using b by linarith
  have kt: "nat (budget - budget div 4) \<le> ?keep" using b by linarith
  have mins: "min (nat (budget div 4)) (length (lb_head b)) = nat (budget div 4)" "min (nat (budget div 4)) (length T) = nat (budget div 4)"
    "min (nat (budget - budget div 4)) (length (lb_tail b)) = nat (budget - budget div 4)"
    "min (nat (budget - budget div 4)) (length T) = nat (budget - budget div 4)"
  proof -
    have "L div 4 \<le> length T" "L - L div 4 \<le> length T" using LT by linarith+
    then show "min (nat (budget div 4)) (length (lb_head b)) = nat (budget div 4)" "min (nat (budget div 4)) (length T) = nat (budget div 4)"
      "min (nat (budget - budget div 4)) (length (lb_tail b)) = nat (budget - budget div 4)"
      "min (nat (budget - budget div 4)) (length T) = nat (budget - budget div 4)"
      unfolding head length_take using kh kt tl by (simp_all add: min_absorb1 min_absorb2)
  qed
  have wh: "whole_head (lb_head b) (nat (budget div 4)) [1, 2, 3, 4] = whole_head T (nat (budget div 4)) [1, 2, 3, 4]"
    by (rule whole_head_cong) (use head kh in \<open>simp_all add: min_absorb1\<close>)
  have wt: "whole_tail (lb_tail b) (nat (budget - budget div 4)) = whole_tail T (nat (budget - budget div 4))"
    by (rule whole_tail_cong [OF lastT kt tl]) (use LT in simp)
  obtain h t where av: "avoid_gaps G (int (whole_head T (nat (budget div 4)) [1, 2, 3, 4]),
      int (length T) - int (whole_tail T (nat (budget - budget div 4)))) = (h, t)" by fastforce
  have "nat h \<le> L div 4" using avoid_gaps_le [OF av] whole_head_le [of T "nat (budget div 4)" "[1, 2, 3, 4]"] kh by linarith
  then have th: "take (nat h) (lb_head b) = take (nat h) T" by (simp add: head min_absorb1)
  have "nat (int (length T) - t) \<le> ?keep"
    using avoid_gaps_le [OF av] whole_tail_le [of T "nat (budget - budget div 4)"] kt by linarith
  then have td: "drop (length (lb_tail b) - nat (int (length T) - t)) (lb_tail b) = drop (length T - nat (int (length T) - t)) T"
    using lastn_mono [OF lastT] by (simp add: lastn_def)
  show ?thesis
    unfolding clip_log_def Let_def L_def [symmetric] budget_def [symmetric] mins wh wt av prod.case th td
    using b(1) by simp
qed

definition clip_stream :: "nat \<Rightarrow> bytes \<times> Gap list \<Rightarrow> bytes \<times> Gap \<times> bool" where
  "clip_stream limit TG =
     (if length (fst TG) \<le> limit then (fst TG, zero_gap, snd TG \<noteq> [])
      else case clip_log (fst TG) (fst TG) (int (length (fst TG))) (int limit) (snd TG) of (r, g) \<Rightarrow> (r, g, True))"

text \<open>Whether the marker leaves room for text.\<close>

definition marker_fits :: "nat \<Rightarrow> bytes \<times> Gap list \<Rightarrow> bool" where
  "marker_fits limit TG \<longleftrightarrow>
     4 \<le> int limit - int (length (omission_marker (int (length (fst TG)) + sum_list (map gap_growth (snd TG)))))"

lemma add_parts_result:
  assumes "length (fst (join_parts ps)) \<le> limit \<or> marker_fits limit (join_parts ps)"
  shows "ResultWithGap (add_parts limit ps) = clip_stream limit (join_parts ps)"
proof -
  let ?b = "add_parts limit ps" and ?T = "fst (join_parts ps)"
  have h: "buffer_holds ?b ?T (snd (join_parts ps))" and l: "lb_Limit ?b = limit" using add_parts_holds by blast+
  then have tot: "lb_total ?b = length ?T" and gaps: "lb_gaps ?b = snd (join_parts ps)" by (simp_all add: buffer_holds_def)
  show ?thesis
  proof (cases "length ?T \<le> limit")
    case True
    then have "length (drop (limit div 4) ?T) \<le> limit - limit div 4" by simp
    then have "lb_head ?b @ lb_tail ?b = ?T" using h l by (simp add: buffer_holds_def Let_def)
    then show ?thesis using True by (simp add: ResultWithGap_def clip_stream_def tot gaps l)
  next
    case False
    with assms have "marker_fits limit (join_parts ps)" by simp
    then have "clip_log (lb_head ?b) (lb_tail ?b) (int (length ?T)) (int limit) (snd (join_parts ps)) =
        clip_log ?T ?T (int (length ?T)) (int limit) (snd (join_parts ps))"
      using clip_log_parts [OF h] False l by (simp add: marker_fits_def)
    then show ?thesis using False by (simp add: ResultWithGap_def clip_stream_def tot gaps l)
  qed
qed

lemma join_plain: "join_parts (map (\<lambda>v. (v, zero_gap)) vs) = (concat (map ToValidUTF8 vs), [])"
proof (induction vs rule: rev_induct)
  case (snoc v vs)
  then show ?case by (simp add: join_parts_def join_part_def part_text_def zero_gap_def)
qed (simp add: join_parts_def)

lemma valid_concat: "\<forall>x \<in> set xs. valid_utf8 x \<Longrightarrow> valid_utf8 (concat xs)"
  by (induction xs) (auto simp: valid_utf8_append)

text \<open>Without room for the marker only the kept quarter of the beginning is left.\<close>

lemma add_parts_no_room:
  assumes "\<not> length (fst (join_parts ps)) \<le> limit" and "\<not> marker_fits limit (join_parts ps)"
  shows "ResultWithGap (add_parts limit ps) = (fst (ClipText (take (limit div 4) (fst (join_parts ps))) (int limit)), zero_gap, True)"
proof -
  let ?T = "fst (join_parts ps)" and ?G = "snd (join_parts ps)" and ?b = "add_parts limit ps"
  have h: "buffer_holds ?b ?T ?G" and l: "lb_Limit ?b = limit" using add_parts_holds by blast+
  then have head: "lb_head ?b = take (limit div 4) ?T" by (simp add: buffer_holds_def)
  have "clip_log (lb_head ?b) (lb_tail ?b) (int (length ?T)) (int limit) ?G = (fst (ClipText (lb_head ?b) (int limit)), zero_gap)"
    using assms(2) by (simp add: clip_log_def marker_fits_def Let_def not_le)
  then show ?thesis using assms(1) h l unfolding head by (simp add: ResultWithGap_def buffer_holds_def)
qed

text \<open>C33. The log buffer against \<open>ClipLog\<close>, for every list of parts and every limit. \<open>Add\<close> replaces the
  invalid bytes of each part on its own; let T be the parts joined after that. Then the buffer, which keeps
  only a quarter of the limit of its beginning and about twice the limit of its end, gives what \<open>ClipLog\<close> gives
  on T; only when T is over the limit and the limit has no room for the marker, it gives the beginning of T
  that it kept.\<close>

theorem LogBuffer_refines_ClipLog:
  "let T = concat (map ToValidUTF8 vs) in
   LogResult (foldl (\<lambda>b v. AddPart v b) (newLogBuffer limit) vs) =
     (if length T \<le> limit \<or> marker_fits limit (T, []) then ClipLog T (int limit) zero_gap
      else (fst (ClipText (take (limit div 4) T) (int limit)), True))"
proof -
  let ?T = "concat (map ToValidUTF8 vs)" and ?ps = "map (\<lambda>v. (v, zero_gap)) vs"
  have parts: "foldl (\<lambda>b v. AddPart v b) (newLogBuffer limit) vs = add_parts limit ?ps"
    by (simp add: add_parts_def AddPart_def foldl_map)
  show ?thesis
  proof (cases "length ?T \<le> limit \<or> marker_fits limit (?T, [])")
    case True
    have "valid_utf8 ?T" by (rule valid_concat) auto
    moreover have "ResultWithGap (add_parts limit ?ps) = clip_stream limit (?T, [])"
      using add_parts_result [of ?ps limit] True by (simp add: join_plain)
    ultimately show ?thesis
      using True unfolding parts Let_def
      by (simp add: LogResult_def clip_stream_def ClipLog_def ToValidUTF8_id gapsOf_def zero_gap_def Let_def split: prod.split)
  next
    case False
    then show ?thesis
      unfolding parts using add_parts_no_room [of ?ps limit] by (simp add: join_plain LogResult_def)
  qed
qed

text \<open>A part with a marker of an earlier clip.\<close>

definition part_ok :: "bytes \<times> Gap \<Rightarrow> bool" where
  "part_ok p \<longleftrightarrow> gp_Omitted (snd p) > 0 \<longrightarrow> valid_utf8 (fst p) \<and> gaps_ok (fst p) [snd p]"

lemma gaps_ok_join:
  assumes "gaps_ok s gs" and "valid_utf8 s" and "valid_utf8 t" and "gs' = [] \<or> (\<exists>g. gs' = [shift_gap (length s) g] \<and> gaps_ok t [g])"
  shows "gaps_ok (s @ t) (gs @ gs')"
proof -
  have old: "valid_utf8 (drop n (s @ t))" if "valid_utf8 (drop n s)" "n \<le> length s" for n
    using that assms(3) valid_utf8_append [of "drop n s" t] by simp
  have new: "drop (nat (int (length s) + i)) (s @ t) = drop (nat i) t" if "0 \<le> i" for i
    using that by (simp add: nat_add_distrib)
  show ?thesis
    using assms(4)
  proof
    assume "gs' = []"
    then show ?thesis using assms(1) old by (force simp: gaps_ok_def)
  next
    assume "\<exists>g. gs' = [shift_gap (length s) g] \<and> gaps_ok t [g]"
    then obtain g where g: "gs' = [shift_gap (length s) g]" "gaps_ok t [g]" by blast
    show ?thesis
      using assms(1) g old new
      by (force simp: gaps_ok_def shift_gap_def sorted_wrt_append)
  qed
qed

lemma join_parts_ok:
  assumes "\<forall>p \<in> set ps. part_ok p"
  shows "valid_utf8 (fst (join_parts ps)) \<and> gaps_ok (fst (join_parts ps)) (snd (join_parts ps))"
  using assms
proof (induction ps rule: rev_induct)
  case (snoc p ps)
  let ?J = "join_parts ps"
  have IH: "valid_utf8 (fst ?J)" "gaps_ok (fst ?J) (snd ?J)" and p: "part_ok p" using snoc by auto
  have v: "valid_utf8 (part_text p)" using p by (auto simp: part_text_def part_ok_def)
  have "gaps_ok (fst ?J @ part_text p) (snd ?J @ (if gp_Omitted (snd p) > 0 then [shift_gap (length (fst ?J)) (snd p)] else []))"
    by (rule gaps_ok_join [OF IH(2,1) v]) (use p in \<open>auto simp: part_ok_def part_text_def\<close>)
  then show ?case using IH(1) v by (auto simp: join_parts_def join_part_def valid_utf8_append)
qed (simp add: join_parts_def gaps_ok_def)

text \<open>C34. The result of a log buffer is valid text within the limit, also when parts bring markers of
  earlier clips; when the text is longer than the limit and the marker has room, it is the
  beginning and the end of the text around one marker, no earlier marker is cut through, and
  the marker counts exactly the bytes of the original output left out, those of removed earlier
  markers included.\<close>

theorem LogBuffer_fits:
  assumes "\<forall>p \<in> set ps. part_ok p" and "ResultWithGap (add_parts limit ps) = (r, gap, clipped)"
  shows "length r \<le> limit \<and> valid_utf8 r \<and>
    (if length (fst (join_parts ps)) \<le> limit then r = fst (join_parts ps)
     else marker_fits limit (join_parts ps) \<longrightarrow>
       (\<exists>h t. clipped_as (fst (join_parts ps)) (snd (join_parts ps)) (int limit) h t (gp_Omitted gap) r))"
proof -
  let ?T = "fst (join_parts ps)" and ?G = "snd (join_parts ps)" and ?b = "add_parts limit ps"
  have ok: "valid_utf8 ?T" "gaps_ok ?T ?G" using join_parts_ok [OF assms(1)] by simp_all
  show ?thesis
  proof (cases "length ?T \<le> limit \<or> marker_fits limit (join_parts ps)")
    case True
    have cs: "clip_stream limit (join_parts ps) = (r, gap, clipped)" using add_parts_result [OF True] assms(2) by simp
    show ?thesis
    proof (cases "length ?T \<le> limit")
      case True
      then show ?thesis using cs ok by (simp add: clip_stream_def)
    next
      case False
      then have "clip_log ?T ?T (int (length ?T)) (int limit) ?G = (r, gap)" using cs by (simp add: clip_stream_def split: prod.splits)
      from clip_log_spec [OF ok _ refl _ this] show ?thesis
        using False True by (auto simp: marker_fits_def)
    qed
  next
    case False
    then have "r = fst (ClipText (take (limit div 4) ?T) (int limit))"
      using add_parts_no_room [of ps limit] assms(2) by simp
    then show ?thesis
      using ClipText_kept [of "take (limit div 4) ?T" "int limit"] False by (cases "ClipText (take (limit div 4) ?T) (int limit)") auto
  qed
qed

subsection \<open>Samples\<close>

definition sample_log :: "bytes list" where
  "sample_log = [replicate 60 (CHR ''a''), replicate 60 (CHR ''b'')]"

lemma sample_log_text: "concat (map ToValidUTF8 sample_log) = replicate 60 (CHR ''a'') @ replicate 60 (CHR ''b'')"
proof -
  have "valid_utf8 (replicate 60 c)" if "byte c < 128" for c by (rule valid_utf8_ascii) (use that in \<open>simp add: list_all_iff\<close>)
  then show ?thesis by (simp add: sample_log_def ToValidUTF8_id byte_def)
qed

lemma sample_marker: "length (omission_marker 120) \<le> 40"
  by (simp add: omission_marker_def show_int_def nat_digits.simps)

theorem LogBuffer_refines_ClipLog_witness:
  "LogResult (foldl (\<lambda>b v. AddPart v b) (newLogBuffer 64) sample_log) =
   ClipLog (replicate 60 (CHR ''a'') @ replicate 60 (CHR ''b'')) 64 zero_gap"
proof -
  have "marker_fits 64 (concat (map ToValidUTF8 sample_log), [])"
    unfolding sample_log_text using sample_marker by (simp add: marker_fits_def)
  then show ?thesis using LogBuffer_refines_ClipLog [of sample_log 64] unfolding sample_log_text Let_def by simp
qed

theorem LogBuffer_fits_witness:
  "length (fst (ResultWithGap (add_parts 64 (map (\<lambda>v. (v, zero_gap)) sample_log)))) \<le> 64"
proof -
  obtain r gap clipped where r: "ResultWithGap (add_parts 64 (map (\<lambda>v. (v, zero_gap)) sample_log)) = (r, gap, clipped)"
    by (cases "ResultWithGap (add_parts 64 (map (\<lambda>v. (v, zero_gap)) sample_log))")
  have "\<forall>p \<in> set (map (\<lambda>v. (v, zero_gap)) sample_log). part_ok p" by (simp add: part_ok_def zero_gap_def)
  from LogBuffer_fits [OF this r] show ?thesis unfolding r by simp
qed

theorem ClipText_spec_witness: "int (length (fst (ClipText ''abcdef'' 4))) \<le> 4 \<and> prefix (fst (ClipText ''abcdef'' 4)) ''abcdef''"
proof -
  have "ToValidUTF8 ''abcdef'' = ''abcdef''" by (rule ToValidUTF8_id) code_simp
  then show ?thesis using ClipText_spec [of "''abcdef''" 4] by (cases "ClipText ''abcdef'' 4") simp
qed

text \<open>Without room for the marker the buffer has only a quarter of the limit left of the
  beginning, where \<open>ClipLog\<close> on the whole text keeps the limit.\<close>

lemma clip_log_no_marker: "limit < 24 \<Longrightarrow> clip_log head tail n limit gaps = (fst (ClipText head limit), zero_gap)"
  by (simp add: clip_log_def omission_marker_def Let_def)

lemma LogBuffer_small_limit:
  "LogResult (foldl (\<lambda>b v. AddPart v b) (newLogBuffer 8) [''abcdefghij'']) = (''ab'', True)"
  "ClipLog ''abcdefghij'' 8 zero_gap = (''abcdefgh'', True)"
proof -
  have b: "lb_total (AddPart ''abcdefghij'' (newLogBuffer 8)) = 10" "lb_Limit (AddPart ''abcdefghij'' (newLogBuffer 8)) = 8"
    "lb_head (AddPart ''abcdefghij'' (newLogBuffer 8)) = ''ab''" by code_simp+
  have c: "fst (ClipText ''ab'' 8) = ''ab''" "fst (ClipText ''abcdefghij'' 8) = ''abcdefgh''" "ToValidUTF8 ''abcdefghij'' = ''abcdefghij''"
    by code_simp+
  show "LogResult (foldl (\<lambda>b v. AddPart v b) (newLogBuffer 8) [''abcdefghij'']) = (''ab'', True)"
    by (simp add: LogResult_def ResultWithGap_def b clip_log_no_marker c)
  show "ClipLog ''abcdefghij'' 8 zero_gap = (''abcdefgh'', True)"
    by (simp add: ClipLog_def zero_gap_def c clip_log_no_marker)
qed

end
