(* ===== verification/MaskOutput.thy ===== *)
theory MaskOutput
  imports MaskStream LogParts
begin

text \<open>
  The kept output of a workflow step: what the masking writer of \<open>MaskStream\<close> puts into the log
  buffer of \<open>CheckOutput\<close>. The writer on the buffer is related to the same writer on plain text,
  which does not depend on the pieces of the stream.
\<close>

subsection \<open>The kept text and the log buffer\<close>

lemma rune_text_valid: "valid_utf8 (rune_text invalid s)"
  using decode_valid(1) [of s] RuneErrorText_valid by (auto simp: rune_text_def split: prod.split)

lemma redact_loop_output:
  "redact_loop masks final s covered invalid = (r, c, i, out) \<Longrightarrow> valid_utf8 out \<and> length out + 10 * length r \<le> 10 * length s"
proof (induction s arbitrary: covered invalid r c i out rule: length_induct)
  case (1 s)
  show ?case
  proof (cases "s = [] \<or> \<not> final \<and> (mask_partial masks s \<or> \<not> FullRune s)")
    case True
    then show ?thesis using 1(2) redact_loop_stops [OF True, of covered invalid] by simp
  next
    case False
    then have ne: "s \<noteq> []" and go: "final \<or> \<not> (mask_partial masks s \<or> \<not> FullRune s)" by auto
    define c1 where "c1 = (if mask_size masks s > 0 then max covered (mask_size masks s) else covered)"
    define mark where "mark = (if mask_size masks s > 0 \<and> covered = 0 then redacted_text else [])"
    define w where "w = fst (DecodeRune s)"
    have w: "1 \<le> w" "w \<le> length s" using decode_width(1,2) [OF ne] by (simp_all add: w_def)
    have shorter: "length (drop 1 s) < length s" "length (drop w s) < length s" using ne w by auto
    have mark: "valid_utf8 mark" "length mark \<le> 10" by (simp_all add: mark_def redacted_text_def valid_utf8_ascii byte_def)
    note st = redact_loop_step [OF ne go c1_def, of invalid, folded w_def mark_def]
    show ?thesis
    proof (cases "c1 > 0")
      case True
      then obtain o1 where o1: "redact_loop masks final (drop 1 s) (c1 - 1) invalid = (r, c, i, o1)" "out = mark @ o1"
        using 1(2) st by (auto split: prod.splits)
      show ?thesis using 1(1) [rule_format, OF shorter(1) o1(1)] mark ne by (cases s) (auto simp: o1(2) valid_utf8_append)
    next
      case False
      then obtain o1 where o1: "redact_loop masks final (drop w s) 0 (\<not> snd (DecodeRune s)) = (r, c, i, o1)"
        "out = rune_text invalid s @ o1"
        using 1(2) st by (auto split: prod.splits)
      show ?thesis
        using 1(1) [rule_format, OF shorter(2) o1(1)] rune_text_valid [of invalid s] rune_text_length [OF ne, of invalid] w
        by (auto simp: o1(2) valid_utf8_append)
    qed
  qed
qed

lemma lr_write_output:
  assumes "lr_write masks v final r = (r', out)"
  shows "valid_utf8 out" "length out + 10 * length (lr_pending r') \<le> 10 * (length (lr_pending r) + length v)"
  using assms redact_loop_output [of masks final "lr_pending r @ v" "lr_covered r" "lr_invalid r"]
  by (auto simp: lr_write_def split: prod.splits)

text \<open>The writer keeps two sinks related, and the text it keeps is bounded by what it was given.\<close>

definition writer_rel :: "('a \<Rightarrow> 'b \<Rightarrow> bool) \<Rightarrow> 'a maskWriter \<Rightarrow> 'b maskWriter \<Rightarrow> bool" where
  "writer_rel R a b \<longleftrightarrow> mw_mask a = mw_mask b \<and> mw_pending a = mw_pending b \<and> mw_literal a = mw_literal b \<and>
     mw_err a = mw_err b \<and> R (mw_kept a) (mw_kept b)"

definition sinks_agree :: "('a \<Rightarrow> 'b \<Rightarrow> bool) \<Rightarrow> (bytes \<Rightarrow> 'a \<Rightarrow> 'a) \<Rightarrow> (bytes \<Rightarrow> 'b \<Rightarrow> 'b) \<Rightarrow> bool" where
  "sinks_agree R e f \<longleftrightarrow> (\<forall>v k l. valid_utf8 v \<longrightarrow> R k l \<longrightarrow> R (e v k) (f v l))"

lemma rel_simple:
  assumes "writer_rel R a b"
  shows "mw_pending a = mw_pending b" "mw_err a = mw_err b"
    and "writer_rel R (with_pending p a) (with_pending p b)"
    and "writer_rel R (add_command enc a) (add_command enc b)"
    and "writer_rel R (stop_command a) (stop_command b)"
  using assms by (simp_all add: writer_rel_def with_pending_def add_command_def stop_command_def split: prod.split)

lemma rel_literal:
  "sinks_agree R e f \<Longrightarrow> writer_rel R a b \<Longrightarrow> writer_rel R (literal_write e v final a) (literal_write f v final b)"
  using lr_write_output(1) [of "mk_values (mw_mask b)" v final "mw_literal b"]
  by (auto simp: writer_rel_def literal_write_def sinks_agree_def split: prod.split)

lemma rel_consume:
  assumes "sinks_agree R e f" and "writer_rel R a b"
  shows "writer_rel R (consume e final a) (consume f final b)"
  using assms(2)
proof (induction a arbitrary: b rule: measure_induct_rule [of "\<lambda>st. length (mw_pending st)"])
  case (less a)
  note lit = rel_literal [OF assms(1) less.prems] and prem = rel_simple [OF less.prems]
  define p where "p = mw_pending a"
  show ?case
  proof (cases "mw_pending a = [] \<or> mw_err a \<noteq> None")
    case True
    then show ?thesis using less.prems prem by (simp add: consume_stop)
  next
    case False
    then have err: "mw_err a = None" "mw_err b = None" and p: "p \<noteq> []" using prem by (auto simp: p_def)
    have self: "with_pending p a = a" "with_pending p b = b" using prem(1) by (auto simp: p_def)
    show ?thesis
    proof (cases "command_at p")
      case (Some k)
      have "writer_rel R (after_command e final q (literal_write e v False a)) (after_command f final q (literal_write f v False b))"
        if "length q \<le> length p" for q v
      proof (cases "index_byte LFc q")
        case (Some n)
        then have "n < length q" by (simp add: index_byte_Some)
        then show ?thesis
          unfolding after_command_def Some Let_def option.case
          using that by (intro less.IH rel_simple(3,4) lit) (simp add: p_def)
      qed (auto simp: after_command_def Let_def intro!: rel_simple(3-5) lit)
      from this [of "drop k p" "take k p"] show ?thesis
        using consume_command [OF err(1) Some, of e final] consume_command [OF err(2) Some, of f final] self by simp
    next
      case none: None
      show ?thesis
      proof (cases "index_byte LFc p")
        case (Some n)
        show ?thesis
          using consume_line [OF err(1) none Some, of e final] consume_line [OF err(2) none Some, of f final] self p
          by (auto simp: p_def intro!: less.IH rel_simple(3) lit)
      next
        case None
        show ?thesis
          using consume_rest [OF err(1) none None p, of e final] consume_rest [OF err(2) none None p, of f final] self
          by (auto intro!: rel_simple(3) lit)
      qed
    qed
  qed
qed

lemma rel_Write:
  "sinks_agree R e f \<Longrightarrow> writer_rel R a b \<Longrightarrow> writer_rel R (mask_Write e v a) (mask_Write f v b)"
  by (cases "mw_err a = None") (simp_all add: mask_Write_ok mask_Write_stopped rel_simple rel_consume flip: rel_simple(1,2))

lemma limit_text_valid: "valid_utf8 (LFc # mask_limit_message @ [LFc])"
  by (rule valid_utf8_ascii) (simp add: mask_limit_message_def byte_def)

lemma rel_finish:
  assumes "sinks_agree R e f" and "writer_rel R a b"
  shows "writer_rel R (finish_text e a) (finish_text f b)"
proof -
  have c: "writer_rel R (consume e True a) (consume f True b)" by (rule rel_consume [OF assms])
  then show ?thesis
    using rel_literal [OF assms(1) c, of "[]" True] limit_text_valid assms(1)
    by (auto simp: finish_text_def Let_def writer_rel_def sinks_agree_def)
qed

definition budgeted :: "nat \<Rightarrow> bytes maskWriter \<Rightarrow> bool" where
  "budgeted n st \<longleftrightarrow> valid_utf8 (mw_kept st) \<and>
     length (mw_kept st) + 10 * (length (lr_pending (mw_literal st)) + length (mw_pending st)) \<le> 10 * n"

lemma budgeted_literal:
  assumes "budgeted n (with_pending (v @ p) st)"
  shows "budgeted n (with_pending p (literal_write collect v final st))"
proof -
  obtain r out where l: "lr_write (mk_values (mw_mask st)) v final (mw_literal st) = (r, out)" by fastforce
  show ?thesis using assms lr_write_output [OF l] by (simp add: budgeted_def literal_write_def collect_def l with_pending_def valid_utf8_append)
qed

lemma budgeted_less: "budgeted n (with_pending p st) \<Longrightarrow> length q \<le> length p \<Longrightarrow> budgeted n (with_pending q st)"
  by (simp add: budgeted_def)

lemma budgeted_commands:
  "budgeted n (with_pending q (add_command enc st)) \<longleftrightarrow> budgeted n (with_pending q st)"
  "budgeted n (with_pending q (stop_command st)) \<longleftrightarrow> budgeted n (with_pending q st)"
  by (simp_all add: budgeted_def add_command_def stop_command_def with_pending_def split: prod.split)

lemma budgeted_consume: "budgeted n st \<Longrightarrow> budgeted n (consume collect final st)"
proof (induction st rule: measure_induct_rule [of "\<lambda>st. length (mw_pending st)"])
  case (less st)
  define p where "p = mw_pending st"
  have self: "with_pending p st = st" by (simp add: p_def)
  have part: "budgeted n (with_pending (drop k p) (literal_write collect (take k p) f st))" for k f
    using budgeted_literal [of n "take k p" "drop k p" st f] less.prems self by simp
  show ?case
  proof (cases "mw_pending st = [] \<or> mw_err st \<noteq> None")
    case True
    then show ?thesis using less.prems by (simp add: consume_stop)
  next
    case False
    then have err: "mw_err st = None" and p: "p \<noteq> []" by (auto simp: p_def)
    show ?thesis
    proof (cases "command_at p")
      case (Some k)
      define q where "q = drop k p"
      note st1 = part [of k False, folded q_def]
      have "budgeted n (after_command collect final q (literal_write collect (take k p) False st))"
      proof (cases "index_byte LFc q")
        case (Some e)
        then have "e < length q" by (simp add: index_byte_Some)
        then show ?thesis
          unfolding after_command_def Some Let_def option.case
          using budgeted_less [OF st1, of "drop (e + 1) q"]
          by (intro less.IH) (simp_all add: p_def q_def budgeted_commands del: drop_drop)
      qed (use st1 budgeted_less [OF st1, of "[]"] in \<open>auto simp: after_command_def Let_def budgeted_commands\<close>)
      then show ?thesis using consume_command [OF err Some, of collect final] self by (simp add: q_def)
    next
      case none: None
      show ?thesis
      proof (cases "index_byte LFc p")
        case (Some m)
        show ?thesis
          using consume_line [OF err none Some, of collect final] self p part [of "m + 1" False] by (auto simp: p_def intro!: less.IH)
      next
        case None
        show ?thesis using consume_rest [OF err none None p, of collect final] self part by simp
      qed
    qed
  qed
qed

lemma budgeted_finish:
  assumes "budgeted n st"
  shows "valid_utf8 (mw_kept (finish_text collect st)) \<and> length (mw_kept (finish_text collect st)) \<le> 10 * n + 80"
proof -
  define x where "x = consume collect True st"
  have c: "budgeted n x" unfolding x_def by (rule budgeted_consume [OF assms])
  then have "budgeted n (with_pending [] x)" using budgeted_less [of n "mw_pending x" x "[]"] by simp
  then have l: "budgeted n (with_pending [] (literal_write collect [] True x))" by (intro budgeted_literal) simp
  have f: "mw_kept (finish_text collect st) =
      (if mw_err x = None then mw_kept (literal_write collect [] True x) else mw_kept x @ LFc # mask_limit_message @ [LFc])"
    by (simp add: finish_text_def Let_def x_def [symmetric] collect_def)
  have "length (LFc # mask_limit_message @ [LFc]) \<le> 80" by (simp add: mask_limit_message_def)
  then show ?thesis
    unfolding f using c l limit_text_valid by (simp add: budgeted_def valid_utf8_append del: valid_utf8.simps)
qed

subsection \<open>The stream\<close>

text \<open>What is kept of the text as a whole.\<close>

definition masked_stream :: "masker \<Rightarrow> bytes \<Rightarrow> bytes \<times> mask_fail option" where
  "masked_stream m s = outcome (finish_text collect (with_pending s (newMaskWriter m [])))"

definition write_all :: "(bytes \<Rightarrow> 'k \<Rightarrow> 'k) \<Rightarrow> 'k maskWriter \<Rightarrow> bytes list \<Rightarrow> 'k maskWriter" where
  "write_all emit st chunks = foldl (\<lambda>st v. mask_Write emit v st) st chunks"

lemma masked_stream_chunks: "outcome (finish_text collect (write_all collect (newMaskWriter m []) chunks)) = masked_stream m (concat chunks)"
proof -
  let ?new = "newMaskWriter m []" and ?s = "with_pending (concat chunks) (newMaskWriter m [])"
  have new: "mw_err ?new = None" "mw_err ?s = None" by (simp_all add: newMaskWriter_def)
  have "same_writer (consume collect True (write_all collect ?new chunks)) (consume collect True (mask_Write collect (concat chunks) ?new))"
    unfolding write_all_def by (rule same_consume [OF writes_join])
  also have "mask_Write collect (concat chunks) ?new = consume collect False ?s"
    using mask_Write_ok [OF new(1)] by (simp add: newMaskWriter_def)
  finally show ?thesis
    unfolding masked_stream_def
    using same_outcome [OF same_trans [OF _ consume_append [OF new(2), of True "[]"]]] by simp
qed

lemma nat_digits_length: "n < 10 ^ Suc k \<Longrightarrow> length (nat_digits n) \<le> Suc k"
proof (induction k arbitrary: n)
  case (Suc k)
  have "n div 10 < 10 ^ Suc k" using Suc.prems by (simp add: less_mult_imp_div_less mult.commute)
  then show ?case using Suc.IH [of "n div 10"] by (subst nat_digits.simps) simp
qed (simp add: nat_digits.simps)

lemma marker_fits_output:
  assumes "length T < 10 ^ 19" shows "marker_fits maximumStepOutput (T, [])"
proof -
  have "length (nat_digits (length T)) \<le> 19" using nat_digits_length [of "length T" 18] assms by simp
  then show ?thesis by (simp add: marker_fits_def maximumStepOutput_def omission_marker_def show_int_def)
qed

definition buffered :: "LogBuffer \<Rightarrow> bytes \<Rightarrow> bool" where
  "buffered b k \<longleftrightarrow> (\<exists>vs. b = add_parts maximumStepOutput (map (\<lambda>v. (v, zero_gap)) vs) \<and> k = concat (map ToValidUTF8 vs))"

lemma buffered_sinks: "sinks_agree buffered AddPart collect"
  unfolding sinks_agree_def
proof (intro allI impI)
  fix v b k assume v: "valid_utf8 v" and "buffered b k"
  then obtain vs where vs: "b = add_parts maximumStepOutput (map (\<lambda>v. (v, zero_gap)) vs)" "k = concat (map ToValidUTF8 vs)"
    by (auto simp: buffered_def)
  show "buffered (AddPart v b) (collect v k)"
    unfolding buffered_def by (rule exI [of _ "vs @ [v]"]) (simp add: vs add_parts_def AddPart_def collect_def ToValidUTF8_id [OF v])
qed

lemma buffered_result:
  assumes "buffered b T" and "length T < 10 ^ 19"
  shows "ResultWithGap b = clip_stream maximumStepOutput (T, [])"
proof -
  obtain vs where vs: "b = add_parts maximumStepOutput (map (\<lambda>v. (v, zero_gap)) vs)" "T = concat (map ToValidUTF8 vs)"
    using assms(1) by (auto simp: buffered_def)
  show ?thesis
    using add_parts_result [of "map (\<lambda>v. (v, zero_gap)) vs" maximumStepOutput, unfolded join_plain] marker_fits_output [OF assms(2)]
    by (simp add: vs)
qed

lemma masked_stream_length: "length (fst (masked_stream m s)) \<le> 10 * length s + 80"
  using budgeted_finish [of "length s" "with_pending s (newMaskWriter m [])"]
  by (simp add: masked_stream_def outcome_def budgeted_def newMaskWriter_def newRedactor_def)

definition shown :: "bytes \<times> mask_fail option \<Rightarrow> bytes \<times> Gap \<times> mask_fail option" where
  "shown o' = (case clip_stream maximumStepOutput (fst o', []) of (text', gap, clipped) \<Rightarrow> (text', gap, snd o'))"

definition step_output :: "masker \<Rightarrow> bytes list \<Rightarrow> bytes \<times> Gap \<times> mask_fail option" where
  "step_output m chunks = mask_finish (write_all AddPart (newMaskWriter m (newLogBuffer maximumStepOutput)) chunks)"

lemma step_output_masked:
  assumes "length (concat chunks) < 10 ^ 17"
  shows "step_output m chunks = shown (masked_stream m (concat chunks))"
proof -
  define a where "a = write_all AddPart (newMaskWriter m (newLogBuffer maximumStepOutput)) chunks"
  define b where "b = write_all collect (newMaskWriter m []) chunks"
  have "buffered (newLogBuffer maximumStepOutput) []"
    unfolding buffered_def by (rule exI [of _ "[]"]) (simp add: add_parts_def)
  then have "writer_rel buffered (newMaskWriter m (newLogBuffer maximumStepOutput)) (newMaskWriter m [])"
    by (simp add: writer_rel_def newMaskWriter_def)
  then have "writer_rel buffered a b"
    unfolding a_def b_def write_all_def
    by (induction chunks rule: rev_induct) (simp_all add: rel_Write [OF buffered_sinks])
  then have r: "writer_rel buffered (finish_text AddPart a) (finish_text collect b)" by (rule rel_finish [OF buffered_sinks])
  have o: "outcome (finish_text collect b) = masked_stream m (concat chunks)" unfolding b_def by (rule masked_stream_chunks)
  then have "length (mw_kept (finish_text collect b)) < 10 ^ 19"
    using masked_stream_length [of m "concat chunks"] assms by (simp add: outcome_def flip: o)
  then have "ResultWithGap (mw_kept (finish_text AddPart a)) = clip_stream maximumStepOutput (mw_kept (finish_text collect b), [])"
    using r by (intro buffered_result) (simp_all add: writer_rel_def)
  then show ?thesis
    using r by (simp add: step_output_def a_def [symmetric] mask_finish_def shown_def o [symmetric] outcome_def writer_rel_def)
qed

text \<open>C31. The output of a step does not depend on the pieces in which the process writes it: neither
  the masks a command adds, nor what the masks hide, nor where the log is cut, also when a piece
  ends inside a command, a secret or a rune.\<close>

theorem step_output_chunks:
  assumes "length (concat chunks) < 10 ^ 17"
  shows "step_output m chunks = step_output m [concat chunks]"
  using step_output_masked [of "[concat chunks]"] step_output_masked [OF assms] assms by simp

subsection \<open>What the stream means\<close>

text \<open>
  A text in lines: a line is plain up to the first command in it, and the command goes on to the end of the
  line. The line end belongs to a plain line, and it is dropped with a command.
\<close>

datatype stream_part = Plain bytes | MaskCommand bytes

definition line_parts :: "bytes \<Rightarrow> bytes \<Rightarrow> stream_part list" where
  "line_parts l feed =
     (case index_of maskCommand l of
        None \<Rightarrow> [Plain (l @ feed)]
      | Some k \<Rightarrow> [Plain (take k l), MaskCommand (drop (k + length maskCommand) l)])"

definition stream_parts :: "bytes \<Rightarrow> stream_part list" where
  "stream_parts s =
     (let ls = split_on LFc s in concat (map (\<lambda>l. line_parts l [LFc]) (butlast ls)) @ line_parts (last ls) [])"

text \<open>
  The parts in order: plain text goes through the redactor with the masks of that moment, a command adds its
  mask, and a refused command ends the output with the message in place of all that follows.
\<close>

fun play :: "masker \<Rightarrow> literalRedactor \<Rightarrow> stream_part list \<Rightarrow> bytes \<times> mask_fail option" where
  "play m r [] = (snd (lr_write (mk_values m) [] True r), None)"
| "play m r (Plain t # parts) =
     (case lr_write (mk_values m) t False r of (r1, out) \<Rightarrow>
       case play m r1 parts of (rest, e) \<Rightarrow> (out @ rest, e))"
| "play m r (MaskCommand enc # parts) =
     (case add_mask (unescape (trim_suffix [CHR 0x0D] enc)) m of
        (m1, None) \<Rightarrow> play m1 r parts
      | (m1, Some e) \<Rightarrow> (LFc # mask_limit_message @ [LFc], Some e))"

lemma split_line: "LFc \<notin> set x \<Longrightarrow> split_on LFc (x @ LFc # y) = x # split_on LFc y"
  by (rule split_on_append)

lemma stream_parts_line: "LFc \<notin> set x \<Longrightarrow> stream_parts (x @ LFc # y) = line_parts x [LFc] @ stream_parts y"
  by (simp add: stream_parts_def split_line Let_def)

lemma stream_parts_last: "LFc \<notin> set x \<Longrightarrow> stream_parts x = line_parts x []"
  by (simp add: stream_parts_def split_on_no_sep)

lemma index_of_command: "index_of maskCommand p = Some k \<longleftrightarrow> is_command p k \<and> (\<forall>j < k. \<not> is_command p j)"
  unfolding is_command_def by (rule index_of_Some) (rule maskCommand_facts(1))

lemma command_at_line:
  assumes "LFc \<notin> set x" shows "command_at (x @ LFc # y) = index_of maskCommand x"
proof -
  have inside: "is_command (x @ LFc # y) k \<longleftrightarrow> is_command x k" if "LFc \<notin> set (take k (x @ LFc # y))" for k
  proof -
    have "k \<le> length x" using that by (cases "k - length x") (auto split: if_splits)
    moreover have "k + 12 \<le> length x" if c: "is_command (x @ LFc # y) k"
    proof (rule ccontr)
      assume "\<not> k + 12 \<le> length x"
      then show False using is_command_nth [OF c, of "length x"] \<open>k \<le> length x\<close> by simp
    qed
    ultimately show ?thesis using is_command_append [of x k "LFc # y"] is_command_append_iff [of k x "LFc # y"] by blast
  qed
  have lf: "LFc \<notin> set (take k (x @ LFc # y))" if "k \<le> length x" for k
    using assms that in_set_takeD [of LFc k x] by auto
  show ?thesis
  proof (cases "index_of maskCommand x")
    case (Some k)
    then have k: "is_command x k" "\<forall>j < k. \<not> is_command x j" by (simp_all add: index_of_command)
    then have "k \<le> length x" using is_command_length [OF k(1)] by simp
    then have "command_at (x @ LFc # y) = Some k"
      using k inside [OF lf] lf by (simp add: command_at_Some)
    then show ?thesis using Some by simp
  next
    case None
    then have none: "\<not> is_command x k" for k unfolding is_command_def using index_of_None [OF maskCommand_facts(1)] by blast
    have "command_at (x @ LFc # y) \<noteq> Some k" for k using none inside by (auto simp: command_at_Some)
    then have "command_at (x @ LFc # y) = None" by blast
    then show ?thesis using None by simp
  qed
qed

lemma command_at_last: "LFc \<notin> set x \<Longrightarrow> command_at x = index_of maskCommand x"
  by (simp add: command_at_def index_byte_None [symmetric] split: option.split)

definition shown_behind :: "bytes maskWriter \<Rightarrow> stream_part list \<Rightarrow> bytes \<times> mask_fail option" where
  "shown_behind st parts = (case play (mw_mask st) (mw_literal st) parts of (out, e) \<Rightarrow> (mw_kept st @ out, e))"

lemma shown_behind_plain:
  "shown_behind st (Plain t # parts) = shown_behind (literal_write collect t False st) parts"
  by (simp add: shown_behind_def literal_write_def collect_def split: prod.split)

lemma shown_behind_command:
  assumes "add_mask (unescape (trim_suffix [CHR 0x0D] enc)) (mw_mask st) = (m, e)" and "mw_err st = None"
  shows "shown_behind st (MaskCommand enc # parts) =
    (if e = None then shown_behind (add_command enc st) parts
     else outcome (finish_text collect (with_pending q (add_command enc st))))"
    "mw_err (add_command enc st) = e"
  using assms
  by (auto simp: shown_behind_def add_command_def finish_text_def consume_stop outcome_def collect_def Let_def)

lemma shown_behind_nil: "mw_err st = None \<Longrightarrow> shown_behind st [] = outcome (finish_text collect (with_pending [] st))"
  by (simp add: shown_behind_def finish_text_def consume_stop outcome_def literal_write_def collect_def with_pending_def
      split: prod.split)

lemma literal_write_last:
  "literal_write collect [] True (literal_write collect t False st) = literal_write collect t True st"
  by (simp add: literal_write_join)

text \<open>The writer at the end of the stream, from any state without an error.\<close>

lemma finish_same: "consume collect True a = consume collect True b \<Longrightarrow> finish_text collect a = finish_text collect b"
  by (simp add: finish_text_def)

lemma finish_parts:
  "mw_err st = None \<Longrightarrow> outcome (finish_text collect (with_pending p st)) = shown_behind st (stream_parts p)"
proof (induction p arbitrary: st rule: length_induct)
  case (1 p)
  show ?case
  proof (cases "LFc \<in> set p")
    case False
    define x where "x = p"
    then have p: "p = x" and x: "LFc \<notin> set x" using False by simp_all
    have lf: "index_byte LFc x = None" using x by (simp add: index_byte_None)
    show ?thesis
    proof (cases "index_of maskCommand x")
      case None
      then have at: "command_at x = None" using command_at_last [OF x] by simp
      have "finish_text collect (with_pending x st) = finish_text collect (with_pending [] (literal_write collect x False st))"
      proof (cases "x = []")
        case True
        then show ?thesis using 1(2) literal_write_last [of "[]" st]
          by (simp add: finish_text_def consume_stop)
      next
        case ne: False
        show ?thesis
          by (rule finish_same) (simp add: consume_rest [OF 1(2) at lf ne] held_back_def consume_stop)
      qed
      then show ?thesis
        using 1(2) unfolding p stream_parts_last [OF x] by (simp add: line_parts_def None shown_behind_plain shown_behind_nil)
    next
      case (Some k)
      let ?st = "literal_write collect (take k x) False st" and ?enc = "drop (k + length maskCommand) x"
      have at: "command_at x = Some k" using command_at_last [OF x] Some by simp
      have "index_byte LFc (drop k x) = None" using x in_set_dropD [of LFc k x] by (auto simp: index_byte_None)
      then have c: "finish_text collect (with_pending x st) = finish_text collect (with_pending [] (add_command ?enc ?st))"
        by (intro finish_same) (simp add: consume_command [OF 1(2) at] after_command_def Let_def consume_stop add.commute)
      obtain m e where m: "add_mask (unescape (trim_suffix [CHR 0x0D] ?enc)) (mw_mask ?st) = (m, e)" by fastforce
      have err: "mw_err ?st = None" using 1(2) by simp
      note cmd = shown_behind_command [OF m err]
      show ?thesis
        unfolding p stream_parts_last [OF x] c
        using cmd(1) [of "[]" "[]"] cmd(2) by (simp add: line_parts_def Some shown_behind_plain shown_behind_nil)
    qed
  next
    case True
    then obtain x y where p: "p = x @ LFc # y" and x: "LFc \<notin> set x" by (blast dest: split_list_first)
    have shorter: "length y < length p" using p by simp
    have IH: "outcome (finish_text collect (with_pending y st')) = shown_behind st' (stream_parts y)" if "mw_err st' = None" for st'
      using 1(1) shorter that by blast
    show ?thesis
    proof (cases "index_of maskCommand x")
      case None
      then have at: "command_at p = None" using command_at_line [OF x] p by simp
      have lf: "index_byte LFc p = Some (length x)" using index_byte_None [of LFc x] x by (simp add: p index_byte_append)
      have "finish_text collect (with_pending p st) = finish_text collect (with_pending y (literal_write collect (x @ [LFc]) False st))"
        by (rule finish_same) (simp only: consume_line [OF 1(2) at lf], simp add: p)
      then show ?thesis
        using IH 1(2) unfolding p stream_parts_line [OF x] by (simp add: line_parts_def None shown_behind_plain)
    next
      case (Some k)
      let ?st = "literal_write collect (take k x) False st" and ?enc = "drop (k + length maskCommand) x"
      have at: "command_at p = Some k" using command_at_line [OF x] Some p by simp
      have k: "k \<le> length x" "is_command x k" using Some is_command_length [of x k] by (simp_all add: index_of_command)
      have "LFc \<notin> set (drop k x)" using x in_set_dropD [of LFc k x] by blast
      then have "index_byte LFc (drop k x) = None" by (simp add: index_byte_None)
      then have lf: "index_byte LFc (drop k p) = Some (length x - k)" using k by (simp add: p index_byte_append)
      have c: "finish_text collect (with_pending p st) = finish_text collect (with_pending y (add_command ?enc ?st))"
        using k(1) lf by (intro finish_same) (simp only: consume_command [OF 1(2) at], simp add: after_command_def Let_def p add.commute)
      obtain m e where m: "add_mask (unescape (trim_suffix [CHR 0x0D] ?enc)) (mw_mask ?st) = (m, e)" by fastforce
      have err: "mw_err ?st = None" using 1(2) by simp
      note cmd = shown_behind_command [OF m err]
      show ?thesis
        unfolding c using cmd(1) [of "stream_parts y" y] cmd(2) IH
        unfolding p stream_parts_line [OF x] by (simp add: line_parts_def Some shown_behind_plain)
    qed
  qed
qed

lemma newWriter_simple [simp]:
  "mw_err (newMaskWriter m k) = None" "mw_mask (newMaskWriter m k) = m" "mw_kept (newMaskWriter m k) = k"
  "mw_literal (newMaskWriter m k) = newRedactor" "mw_pending (newMaskWriter m k) = []"
  by (simp_all add: newMaskWriter_def)

lemma masked_stream_parts: "masked_stream m s = play m newRedactor (stream_parts s)"
  using finish_parts [of "newMaskWriter m []" s] by (simp add: masked_stream_def shown_behind_def split: prod.split)

text \<open>C32. What the output of a step shows, for any number of commands anywhere in it and in whatever pieces it is
  written: line by line the text in front of the first command of the line, redacted with the masks known at the
  start and those that the commands before it have added; no command is shown; a command that is refused ends
  the output with the message, and nothing behind it is shown. (The length bound is the room for the number in
  the marker of a clipped log.)\<close>

theorem step_output_meaning:
  assumes "length (concat chunks) < 10 ^ 17"
  shows "step_output m chunks = shown (play m newRedactor (stream_parts (concat chunks)))"
  using step_output_masked [OF assms] by (simp add: masked_stream_parts)

definition sample_chunks :: "bytes list" where
  "sample_chunks = [''::add-'', ''mask::ab%2'', ''5'' @ [LFc] @ ''xa'', ''b%y'']"

theorem step_output_chunks_witness:
  "step_output (newMasker []) sample_chunks = step_output (newMasker []) [''::add-mask::ab%25'' @ [LFc] @ ''xab%y'']"
  using step_output_chunks [of sample_chunks "newMasker []"] by (simp add: sample_chunks_def)

definition sample_lines :: "bytes list" where
  "sample_lines = [''ab%y ::add-'', ''mask::ab%2'', ''5'' @ [LFc] @ ''xa'', ''b%y::add-mask::y'', [LFc] @ ''say ab'']"

text \<open>The second command is behind text on its line, and hides a text that was shown before.\<close>

theorem step_output_meaning_witness:
  "step_output (newMasker []) sample_lines = (''ab%y x[redacted]ysa[redacted] ab'', zero_gap, None)"
proof -
  have "play (newMasker []) newRedactor (stream_parts (concat sample_lines)) = (''ab%y x[redacted]ysa[redacted] ab'', None)"
    by code_simp
  moreover have "length (concat sample_lines) = 48" by code_simp
  ultimately have "step_output (newMasker []) sample_lines = shown (''ab%y x[redacted]ysa[redacted] ab'', None)"
    using step_output_meaning [of sample_lines "newMasker []"] by simp
  then show ?thesis by (simp add: shown_def clip_stream_def maximumStepOutput_def)
qed

end
