(* ===== verification/CheckPolicy.thy ===== *)
theory CheckPolicy
  imports RefName CheckOutput
begin

text \<open>
  Check policies and runner credentials of \<open>state/check_jobs.go\<close>: the operator's policy of a
  repository, the consent to run its checks, and the credentials of its runners. A table is a map
  or a list of rows; an operation is one transaction, so a refused operation leaves the store as it
  was unless the code commits before it reports the error. A failing database is not modelled.
\<close>

subsection \<open>Rows\<close>

datatype check_fail =
    ErrCheckPolicyMissing | ErrCheckPolicyStale | ErrCheckConsentRequired | ErrCheckEventNotAllowed
  | ErrCheckQueueFull | ErrInvalidCheckPolicy | ErrInvalidCheckJob | ErrCheckJobNotFound | ErrCheckJobState
  | ErrCheckJobStartReplay | ErrCheckJobLease | ErrCheckJobCredential | ErrCheckJobAttemptBound | ErrCheckJobFacts
  | ErrCheckJobCompletionRequired | ErrCheckRunnerCredential | ErrCheckRunnerRevoked | ErrCheckRunnerCreationConflict
  | ErrCheckCeilingExceeded | ErrCheckConfigurationMissing | ErrCheckJobCommandsUnavailable | ErrAttemptConflict
  | ErrAttemptNotFound | ErrTaskNotFound | ErrResultMismatch
  | CheckJobNotStartedError check_fail
  | ErrTaskElsewhere | ErrStaleClaimable | ErrInvalidRegistration | ErrInvalidCompletion | ErrConstraint

datatype executor = CheckExecutorHost | CheckExecutorContainer | CheckExecutorExternalRunner

datatype runner_role = NoRole | RunnerRoleServer | RunnerRoleExternal

record CheckSourceLimits =
  MaxEntries :: int
  MaxFileBytes :: int
  MaxTotalBytes :: int
  MaxPathDepth :: int
  MaxPathBytes :: int
  MaxNameBytes :: int
  MetadataLimit :: int

record CheckExecutionSettings =
  Source :: CheckSourceLimits
  ContainerImage :: bytes
  ContainerRuntime :: bytes
  ContainerNetwork :: bytes
  ContainerCPUMillis :: int
  ContainerMemoryBytes :: int
  ContainerPIDs :: int
  ContainerScratchBytes :: int
  ContainerAllowTags :: bool
  ContainerPullMissing :: bool
  ContainerMissingEnforcement :: "bytes list"
  ContainerImageVolumes :: bool
  ContainerWritableRoot :: bool
  Legacy :: bool

text \<open>A time is a number of nanoseconds, \<open>None\<close> Go's zero time.\<close>

type_synonym moment = "int option"

record CheckPolicy =
  pol_Version :: int
  pol_Digest :: bytes
  pol_Executor :: executor
  pol_AllowedEvents :: "bytes list"
  pol_MaxTimeoutMS :: int
  pol_MaxOutputLimitBytes :: int
  pol_QueueLimit :: int
  pol_MaxActiveJobs :: int
  pol_MaxLeaseMS :: int
  pol_Execution :: CheckExecutionSettings
  pol_ConsentVersion :: int
  pol_ConsentDigest :: bytes
  pol_ConsentActive :: bool
  pol_RunnerGeneration :: int
  pol_AuthorityEpoch :: bytes

record ExpectedCheckPolicy =
  exp_Version :: int
  exp_Digest :: bytes

record RunnerCredential =
  rc_ID :: bytes
  rc_RepositoryID :: bytes
  rc_Label :: bytes
  rc_CreationID :: bytes
  rc_Generation :: int
  rc_Role :: runner_role
  rc_RevokedAt :: "int option"

record CheckDefinition =
  cd_Name :: bytes
  cd_Command :: bytes

record CheckConfiguration =
  cf_RepositoryID :: bytes
  cf_Version :: int
  cf_ConfigHash :: bytes
  cf_Checks :: "CheckDefinition list"

record CheckJobLimits =
  lim_TimeoutMS :: int
  lim_OutputLimitBytes :: int

datatype job_status =
    CheckJobPending | CheckJobClaimed | CheckJobStarted | CheckJobPassed | CheckJobFailed | CheckJobError
  | CheckJobCancelled | CheckJobIncomplete | CheckJobUnavailable | CheckJobAmbiguous | CheckJobInterrupted

datatype protection = ProtectionUnknown | ProtectionHost | ProtectionContainer | ProtectionRunnerReported

text \<open>A job of configured checks, whose \<open>RunID\<close> is empty; the facts of workflow jobs are left out.\<close>

record CheckJob =
  cj_ID :: bytes
  cj_RepositoryID :: bytes
  cj_TaskID :: bytes
  cj_Trigger :: bytes
  cj_EventKey :: bytes
  cj_SourceOID :: bytes
  cj_BaseOID :: bytes
  cj_PullRequestNumber :: int
  cj_TriggerRef :: bytes
  cj_WorkflowPath :: bytes
  cj_WorkflowOID :: bytes
  cj_WorkflowDigest :: bytes
  cj_ConfigurationVersion :: int
  cj_Executor :: executor
  cj_PolicyVersion :: int
  cj_ConsentVersion :: int
  cj_Limits :: CheckJobLimits
  cj_Execution :: CheckExecutionSettings
  cj_DedupDigest :: bytes
  cj_RerunRoot :: bytes
  cj_RerunGeneration :: int
  cj_Status :: job_status
  cj_AttemptID :: bytes
  cj_LeaseID :: bytes
  cj_LeaseExpiresAt :: "int option"
  cj_CredentialID :: bytes
  cj_CredentialGeneration :: int
  cj_CredentialRole :: runner_role
  cj_Protection :: protection
  cj_AdmittedAt :: int
  cj_ClaimedAt :: "int option"
  cj_StartedAt :: "int option"
  cj_FinishedAt :: "int option"
  cj_LeaseLostAt :: "int option"
  cj_CancelRequestedAt :: "int option"
  cj_InterruptedAt :: "int option"
  cj_Summary :: bytes

datatype worktree = WorktreeClean | WorktreeDirty | WorktreeUnknown

datatype scope = NoScope | ExecutionScopeInherited | ExecutionScopeContainer | ExecutionScopeExternalRunner

text \<open>An attempt; \<open>at_Status\<close> is \<open>None\<close> while the attempt is pending.\<close>

record CheckAttempt =
  at_ID :: bytes
  at_TaskID :: bytes
  at_RepositoryID :: bytes
  at_RevisionOID :: bytes
  at_WorktreeState :: worktree
  at_ConfigurationVersion :: int
  at_Checks :: "CheckDefinition list"
  at_Status :: "job_status option"
  at_StartedAt :: moment
  at_CreatedAt :: moment
  at_Summary :: bytes
  at_Protection :: protection
  at_ExecutionScope :: scope
  at_CredentialID :: bytes
  at_JobID :: bytes
  at_TimeoutMS :: int
  at_OutputLimitBytes :: int
  at_Sequence :: int
  at_CycleID :: bytes
  at_RegistrationDigest :: bytes
  at_CompletionDigest :: bytes

record CheckCeilings =
  cl_TimeoutMS :: int
  cl_OutputLimitBytes :: int
  cl_QueueLimit :: int
  cl_ActiveJobs :: int
  cl_ContainerCPUMillis :: int
  cl_ContainerMemoryBytes :: int
  cl_ContainerPIDs :: int
  cl_ContainerScratchBytes :: int
  cl_SourceTotalBytes :: int

record CheckStore =
  cs_policies :: "bytes \<rightharpoonup> CheckPolicy"
  cs_credentials :: "RunnerCredential list"
  cs_jobs :: "CheckJob list"
  cs_tasks :: "bytes \<rightharpoonup> bytes"
  cs_configs :: "CheckConfiguration list"
  cs_attempts :: "CheckAttempt list"
  cs_sequences :: "bytes \<Rightarrow> int"
  cs_ceilings :: CheckCeilings

text \<open>What the standard library computes: SHA-256 in hexadecimal, and the JSON text of settings and of
  a list of checks.\<close>

record CheckLibrary =
  lib_sha256 :: "bytes \<Rightarrow> bytes"
  lib_execution_json :: "CheckExecutionSettings \<Rightarrow> bytes"
  lib_checks_json :: "CheckDefinition list \<Rightarrow> bytes"

definition digestFields :: "CheckLibrary \<Rightarrow> bytes list \<Rightarrow> bytes" where
  "digestFields lib parts = lib_sha256 lib (concat (map (\<lambda>f. nat_digits (length f) @ '':'' @ f) parts))"

subsection \<open>Identities and texts\<close>

definition lower_hex :: "char \<Rightarrow> bool" where
  "lower_hex c \<longleftrightarrow> c \<in> set ''0123456789abcdef''"

definition validAttemptID :: "bytes \<Rightarrow> bool" where
  "validAttemptID v \<longleftrightarrow> length v = 32 \<and> list_all lower_hex v"

definition validDigest :: "bytes \<Rightarrow> bool" where
  "validDigest v \<longleftrightarrow> length v = 64 \<and> list_all lower_hex v"

definition stateObjectID :: "bytes \<Rightarrow> bool" where
  "stateObjectID v \<longleftrightarrow> (length v = 40 \<or> length v = 64) \<and> list_all lower_hex v"

definition validCheckText :: "bytes \<Rightarrow> nat \<Rightarrow> bool" where
  "validCheckText v maximum \<longleftrightarrow> TrimSpace v \<noteq> [] \<and> length v \<le> maximum \<and> valid_utf8 v \<and> \<not> list_ex line_break v"

definition validBranchText :: "bytes \<Rightarrow> bool" where
  "validBranchText v \<longleftrightarrow> v \<noteq> [] \<and> length v \<le> 255 \<and> v = TrimSpace v \<and> ValidBranchName v"

subsection \<open>Ceilings\<close>

definition CeilingExceeded :: "CheckCeilings \<Rightarrow> CheckPolicy \<Rightarrow> bool list" where
  "CeilingExceeded c p =
     [pol_MaxTimeoutMS p > cl_TimeoutMS c, pol_MaxOutputLimitBytes p > cl_OutputLimitBytes c,
      pol_QueueLimit p > cl_QueueLimit c, pol_MaxActiveJobs p > cl_ActiveJobs c,
      ContainerCPUMillis (pol_Execution p) > cl_ContainerCPUMillis c,
      ContainerMemoryBytes (pol_Execution p) > cl_ContainerMemoryBytes c,
      ContainerPIDs (pol_Execution p) > cl_ContainerPIDs c,
      ContainerScratchBytes (pol_Execution p) > cl_ContainerScratchBytes c,
      MaxTotalBytes (Source (pol_Execution p)) > cl_SourceTotalBytes c]"

definition above_ceilings :: "CheckCeilings \<Rightarrow> CheckPolicy \<Rightarrow> bool" where
  "above_ceilings c p \<longleftrightarrow> list_ex (\<lambda>b. b) (CeilingExceeded c p)"

subsection \<open>Consent and authority\<close>

definition checkConsentCurrent :: "CheckPolicy \<Rightarrow> bool" where
  "checkConsentCurrent p \<longleftrightarrow> pol_ConsentActive p \<and> pol_ConsentVersion p > 0 \<and> pol_ConsentDigest p = pol_Digest p"

definition policyAllowsCheckEvent :: "CheckPolicy \<Rightarrow> bytes \<Rightarrow> bool" where
  "policyAllowsCheckEvent p event \<longleftrightarrow> event \<in> set (pol_AllowedEvents p)"

definition checkJobAuthorityCurrent :: "CheckJob \<Rightarrow> CheckPolicy \<Rightarrow> bool" where
  "checkJobAuthorityCurrent j p \<longleftrightarrow> checkConsentCurrent p \<and> cj_PolicyVersion j = pol_Version p \<and>
     cj_ConsentVersion j = pol_ConsentVersion p \<and> cj_Executor j = pol_Executor p \<and> policyAllowsCheckEvent p (cj_Trigger j)"

text \<open>\<open>UPDATE ... WHERE\<close> on the jobs, and the rows it affects.\<close>

definition update_jobs :: "(CheckJob \<Rightarrow> bool) \<Rightarrow> (CheckJob \<Rightarrow> CheckJob) \<Rightarrow> CheckStore \<Rightarrow> CheckStore" where
  "update_jobs P f st = st\<lparr>cs_jobs := map (\<lambda>j. if P j then f j else j) (cs_jobs st)\<rparr>"

definition affected_jobs :: "(CheckJob \<Rightarrow> bool) \<Rightarrow> CheckStore \<Rightarrow> nat" where
  "affected_jobs P st = length (filter P (cs_jobs st))"

definition interrupted :: "int \<Rightarrow> bytes \<Rightarrow> CheckJob \<Rightarrow> CheckJob" where
  "interrupted t summary j =
     j\<lparr>cj_Status := CheckJobInterrupted, cj_LeaseID := [], cj_LeaseExpiresAt := None, cj_FinishedAt := Some t,
       cj_InterruptedAt := Some t, cj_Summary := summary\<rparr>"

definition interruptCheckJobTx :: "CheckJob \<Rightarrow> int \<Rightarrow> bytes \<Rightarrow> CheckStore \<Rightarrow> check_fail + CheckStore" where
  "interruptCheckJobTx job t summary st =
     (let P = (\<lambda>j. cj_ID j = cj_ID job \<and> cj_Status j = cj_Status job) in
      if affected_jobs P st \<noteq> 1 then Inl ErrCheckJobState else Inr (update_jobs P (interrupted t summary) st))"

definition authority_changed :: bytes where
  "authority_changed = ''Execution authority changed before start.''"

text \<open>\<open>ORDER BY admitted_at,id\<close>.\<close>

fun text_before :: "bytes \<Rightarrow> bytes \<Rightarrow> bool" where
  "text_before [] b = True"
| "text_before (x # a) [] = False"
| "text_before (x # a) (y # b) = (byte x < byte y \<or> x = y \<and> text_before a b)"

definition queue_before :: "CheckJob \<Rightarrow> CheckJob \<Rightarrow> bool" where
  "queue_before a b \<longleftrightarrow> cj_AdmittedAt a < cj_AdmittedAt b \<or> cj_AdmittedAt a = cj_AdmittedAt b \<and> text_before (cj_ID a) (cj_ID b)"

fun insert_before :: "('a \<Rightarrow> 'a \<Rightarrow> bool) \<Rightarrow> 'a \<Rightarrow> 'a list \<Rightarrow> 'a list" where
  "insert_before before j [] = [j]"
| "insert_before before j (k # ks) = (if before j k then j # k # ks else k # insert_before before j ks)"

definition in_order :: "('a \<Rightarrow> 'a \<Rightarrow> bool) \<Rightarrow> 'a list \<Rightarrow> 'a list" where
  "in_order before js = foldr (insert_before before) js []"

fun interrupt_all :: "CheckJob list \<Rightarrow> int \<Rightarrow> CheckStore \<Rightarrow> check_fail + CheckStore" where
  "interrupt_all [] t st = Inr st"
| "interrupt_all (j # js) t st =
     (case interruptCheckJobTx j t authority_changed st of Inl e \<Rightarrow> Inl e | Inr st1 \<Rightarrow> interrupt_all js t st1)"

definition interruptStalePendingCheckJobsTx :: "bytes \<Rightarrow> CheckPolicy \<Rightarrow> int \<Rightarrow> CheckStore \<Rightarrow> check_fail + CheckStore" where
  "interruptStalePendingCheckJobsTx repo p t st =
     interrupt_all
       (filter (\<lambda>j. \<not> checkJobAuthorityCurrent j p)
         (in_order queue_before (filter (\<lambda>j. cj_RepositoryID j = repo \<and> cj_Status j \<in> {CheckJobPending, CheckJobClaimed}) (cs_jobs st)))) t st"

subsection \<open>The policy of a repository\<close>

text \<open>A transaction that returns an error is rolled back.\<close>

definition commit_or_rollback :: "check_fail + 'a \<times> CheckStore \<Rightarrow> CheckStore \<Rightarrow> (check_fail + 'a) \<times> CheckStore" where
  "commit_or_rollback r st = (case r of Inl e \<Rightarrow> (Inl e, st) | Inr (a, st1) \<Rightarrow> (Inr a, st1))"

definition grantCheckConsentTx :: "bytes \<Rightarrow> ExpectedCheckPolicy option \<Rightarrow> CheckStore \<Rightarrow> check_fail + CheckPolicy \<times> CheckStore" where
  "grantCheckConsentTx repo expected st =
     (case cs_policies st repo of
       None \<Rightarrow> Inl ErrCheckPolicyMissing
     | Some p \<Rightarrow>
         if expected \<noteq> None \<and> (exp_Version (the expected) \<noteq> pol_Version p \<or> exp_Digest (the expected) \<noteq> pol_Digest p)
         then Inl ErrCheckPolicyStale
         else if Legacy (pol_Execution p) then Inl ErrInvalidCheckPolicy
         else if pol_ConsentActive p \<and> pol_ConsentDigest p = pol_Digest p \<and> pol_ConsentVersion p > 0 then Inr (p, st)
         else let p1 = p\<lparr>pol_ConsentVersion := pol_ConsentVersion p + 1, pol_ConsentDigest := pol_Digest p, pol_ConsentActive := True\<rparr> in
           Inr (p1, st\<lparr>cs_policies := (cs_policies st)(repo \<mapsto> p1)\<rparr>))"

definition grantCheckConsent :: "bytes \<Rightarrow> ExpectedCheckPolicy option \<Rightarrow> moment \<Rightarrow> CheckStore \<Rightarrow> (check_fail + CheckPolicy) \<times> CheckStore" where
  "grantCheckConsent repo expected now st =
     (if now = None then (Inl ErrInvalidCheckPolicy, st) else commit_or_rollback (grantCheckConsentTx repo expected st) st)"

definition GrantCheckConsentFor :: "bytes \<Rightarrow> ExpectedCheckPolicy \<Rightarrow> moment \<Rightarrow> CheckStore \<Rightarrow> (check_fail + CheckPolicy) \<times> CheckStore" where
  "GrantCheckConsentFor repo expected now st =
     (if \<not> (exp_Version expected > 0 \<and> exp_Digest expected \<noteq> []) then (Inl ErrCheckPolicyStale, st)
      else grantCheckConsent repo (Some expected) now st)"

definition RevokeCheckConsent :: "bytes \<Rightarrow> moment \<Rightarrow> CheckStore \<Rightarrow> (check_fail + CheckPolicy) \<times> CheckStore" where
  "RevokeCheckConsent repo now st =
     (case (now, cs_policies st repo) of
       (None, _) \<Rightarrow> (Inl ErrInvalidCheckPolicy, st)
     | (_, None) \<Rightarrow> (Inl ErrCheckPolicyMissing, st)
     | (Some t, Some p) \<Rightarrow>
         if \<not> pol_ConsentActive p then (Inr p, st)
         else let p1 = p\<lparr>pol_ConsentActive := False\<rparr>; st1 = st\<lparr>cs_policies := (cs_policies st)(repo \<mapsto> p1)\<rparr> in
           commit_or_rollback
             (case interruptStalePendingCheckJobsTx repo p1 t st1 of Inl e \<Rightarrow> Inl e | Inr st2 \<Rightarrow> Inr (p1, st2)) st)"

text \<open>The three ways in which a candidate meets the stored policy.\<close>

definition replace_policy :: "bytes \<Rightarrow> CheckPolicy \<Rightarrow> bytes \<Rightarrow> int \<Rightarrow> CheckStore \<Rightarrow> check_fail + CheckPolicy \<times> CheckStore" where
  "replace_policy repo candidate epoch t st =
     (case cs_policies st repo of
       None \<Rightarrow>
         let p1 = candidate\<lparr>pol_Version := 1, pol_AuthorityEpoch := epoch, pol_ConsentVersion := 0, pol_ConsentDigest := [],
             pol_ConsentActive := False, pol_RunnerGeneration := 0\<rparr> in
         Inr (p1, st\<lparr>cs_policies := (cs_policies st)(repo \<mapsto> p1)\<rparr>)
     | Some p \<Rightarrow>
         if pol_Digest p = pol_Digest candidate then Inr (p, st)
         else let p1 = candidate\<lparr>pol_Version := pol_Version p + 1, pol_AuthorityEpoch := pol_AuthorityEpoch p,
               pol_ConsentVersion := pol_ConsentVersion p, pol_ConsentDigest := pol_ConsentDigest p,
               pol_ConsentActive := False, pol_RunnerGeneration := pol_RunnerGeneration p\<rparr>;
             st1 = st\<lparr>cs_policies := (cs_policies st)(repo \<mapsto> p1)\<rparr> in
           (case interruptStalePendingCheckJobsTx repo p1 t st1 of Inl e \<Rightarrow> Inl e | Inr st2 \<Rightarrow> Inr (p1, st2)))"

definition writeCheckPolicy ::
    "bytes \<Rightarrow> CheckPolicy \<Rightarrow> ExpectedCheckPolicy option \<Rightarrow> bool \<Rightarrow> bytes \<Rightarrow> moment \<Rightarrow> CheckStore \<Rightarrow> (check_fail + CheckPolicy) \<times> CheckStore" where
  "writeCheckPolicy repo candidate base enable epoch now st =
     (case now of
       None \<Rightarrow> (Inl ErrInvalidCheckPolicy, st)
     | Some t \<Rightarrow>
         let seen = (case cs_policies st repo of None \<Rightarrow> (0, []) | Some p \<Rightarrow> (pol_Version p, pol_Digest p)) in
         if base \<noteq> None \<and> (exp_Version (the base), exp_Digest (the base)) \<noteq> seen then (Inl ErrCheckPolicyStale, st)
         else if above_ceilings (cs_ceilings st) candidate then (Inl ErrInvalidCheckPolicy, st)
         else commit_or_rollback
           (case replace_policy repo candidate epoch t st of
             Inl e \<Rightarrow> Inl e
           | Inr (stored, st1) \<Rightarrow>
               if enable then grantCheckConsentTx repo (Some \<lparr>exp_Version = pol_Version stored, exp_Digest = pol_Digest candidate\<rparr>) st1
               else Inr (stored, st1)) st)"

subsection \<open>Runner credentials\<close>

definition liveRunnerCredentialTx :: "bytes \<Rightarrow> bytes \<Rightarrow> CheckStore \<Rightarrow> RunnerCredential option" where
  "liveRunnerCredentialTx repo credential st =
     find (\<lambda>c. rc_RepositoryID c = repo \<and> rc_ID c = credential \<and> rc_RevokedAt c = None) (cs_credentials st)"

definition label_blank :: "char \<Rightarrow> bool" where
  "label_blank c \<longleftrightarrow> c = CHR '' '' \<or> c = CHR 0x09"

definition trimLabel :: "bytes \<Rightarrow> bytes" where
  "trimLabel v = rev (dropWhile label_blank (rev (dropWhile label_blank v)))"

definition runner_label :: "bytes \<Rightarrow> bytes" where
  "runner_label label = (if trimLabel label = [] then ''check runner'' else trimLabel label)"

text \<open>Issuing a credential; the token and its hash are left out, \<open>new\<close> is the identity that
  \<open>RandomID\<close> returns.\<close>

definition IssueCheckRunnerToken ::
    "bytes \<Rightarrow> bytes \<Rightarrow> bytes \<Rightarrow> bytes \<Rightarrow> moment \<Rightarrow> CheckStore \<Rightarrow> (check_fail + RunnerCredential \<times> bool) \<times> CheckStore" where
  "IssueCheckRunnerToken repo label creation new now st =
     (if repo = [] \<or> now = None \<or> creation \<noteq> [] \<and> \<not> validAttemptID creation \<or> length label > 100 \<or> list_ex line_break label \<or>
         \<not> validCheckText (runner_label label) 100
      then (Inl ErrInvalidCheckJob, st)
      else case cs_policies st repo of
        None \<Rightarrow> (Inl ErrCheckPolicyMissing, st)
      | Some p \<Rightarrow>
          (case (if creation = [] then None
              else find (\<lambda>c. rc_RepositoryID c = repo \<and> rc_CreationID c = creation) (cs_credentials st)) of
            Some c \<Rightarrow> if rc_Label c \<noteq> runner_label label then (Inl ErrCheckRunnerCreationConflict, st) else (Inr (c, False), st)
          | None \<Rightarrow>
              if list_ex (\<lambda>c. rc_ID c = new) (cs_credentials st) then (Inl ErrConstraint, st)
              else let p1 = p\<lparr>pol_RunnerGeneration := pol_RunnerGeneration p + 1\<rparr>;
                  c = \<lparr>rc_ID = new, rc_RepositoryID = repo, rc_Label = runner_label label, rc_CreationID = creation,
                    rc_Generation = pol_RunnerGeneration p1, rc_Role = RunnerRoleExternal, rc_RevokedAt = None\<rparr> in
                (Inr (c, True), st\<lparr>cs_policies := (cs_policies st)(repo \<mapsto> p1), cs_credentials := cs_credentials st @ [c]\<rparr>)))"

definition revoke_where :: "(RunnerCredential \<Rightarrow> bool) \<Rightarrow> int \<Rightarrow> CheckStore \<Rightarrow> CheckStore" where
  "revoke_where P t st =
     st\<lparr>cs_credentials := map (\<lambda>c. if P c \<and> rc_RevokedAt c = None then c\<lparr>rc_RevokedAt := Some t\<rparr> else c) (cs_credentials st)\<rparr>"

definition authority_revoked :: bytes where
  "authority_revoked = ''Runner authority was revoked before start.''"

definition interrupt_claims_of :: "bytes \<Rightarrow> bytes \<Rightarrow> int \<Rightarrow> CheckStore \<Rightarrow> CheckStore" where
  "interrupt_claims_of repo credential t st =
     update_jobs (\<lambda>j. cj_RepositoryID j = repo \<and> cj_CredentialID j = credential \<and> cj_Status j = CheckJobClaimed)
       (interrupted t authority_revoked) st"

definition RevokeCheckRunnerToken :: "bytes \<Rightarrow> bytes \<Rightarrow> moment \<Rightarrow> CheckStore \<Rightarrow> (check_fail + unit) \<times> CheckStore" where
  "RevokeCheckRunnerToken repo credential now st =
     (case now of
       None \<Rightarrow> (Inl ErrCheckRunnerRevoked, st)
     | Some t \<Rightarrow>
         let P = (\<lambda>c. rc_RepositoryID c = repo \<and> rc_ID c = credential) in
         if repo = [] \<or> \<not> validAttemptID credential \<or> length (filter (\<lambda>c. P c \<and> rc_RevokedAt c = None) (cs_credentials st)) \<noteq> 1
         then (Inl ErrCheckRunnerRevoked, st)
         else (Inr (), interrupt_claims_of repo credential t (revoke_where P t st)))"

definition RevokeCheckRunnerTokenByCreation :: "bytes \<Rightarrow> bytes \<Rightarrow> int \<Rightarrow> CheckStore \<Rightarrow> CheckStore" where
  "RevokeCheckRunnerTokenByCreation repo creation t st =
     (if creation = [] then st
      else let P = (\<lambda>c. rc_RepositoryID c = repo \<and> rc_CreationID c = creation) in
        case find (\<lambda>c. P c \<and> rc_RevokedAt c = None) (cs_credentials st) of
          None \<Rightarrow> st
        | Some c \<Rightarrow> interrupt_claims_of repo (rc_ID c) t (revoke_where P t st))"

text \<open>The credential under which a job was claimed still counts.\<close>

definition checkJobCredentialCurrentTx :: "CheckJob \<Rightarrow> CheckStore \<Rightarrow> bool" where
  "checkJobCredentialCurrentTx job st =
     (case cj_CredentialRole job of
       RunnerRoleServer \<Rightarrow>
         (case cs_policies st (cj_RepositoryID job) of
           None \<Rightarrow> False
         | Some p \<Rightarrow> cj_CredentialID job = pol_AuthorityEpoch p \<and> cj_CredentialGeneration job = cj_PolicyVersion job)
     | RunnerRoleExternal \<Rightarrow>
         (case liveRunnerCredentialTx (cj_RepositoryID job) (cj_CredentialID job) st of
           None \<Rightarrow> False
         | Some c \<Rightarrow> rc_Role c = RunnerRoleExternal \<and> rc_Generation c = cj_CredentialGeneration job)
     | NoRole \<Rightarrow> False)"

end
