(* ===== verification/CheckAttempts.thy ===== *)
theory CheckAttempts
  imports CheckPolicy
begin

text \<open>
  Attempts of \<open>state/checks.go\<close>: the registration of the attempt of a job, which derives its
  origin from the job, and the outcome that a completion gives.
\<close>

subsection \<open>Texts\<close>

fun status_text :: "job_status \<Rightarrow> bytes" where
  "status_text CheckJobPending = ''pending''"
| "status_text CheckJobClaimed = ''claimed''"
| "status_text CheckJobStarted = ''started''"
| "status_text CheckJobPassed = ''passed''"
| "status_text CheckJobFailed = ''failed''"
| "status_text CheckJobError = ''error''"
| "status_text CheckJobCancelled = ''cancelled''"
| "status_text CheckJobIncomplete = ''incomplete''"
| "status_text CheckJobUnavailable = ''unavailable''"
| "status_text CheckJobAmbiguous = ''ambiguous''"
| "status_text CheckJobInterrupted = ''interrupted''"

fun protection_text :: "protection \<Rightarrow> bytes" where
  "protection_text ProtectionUnknown = ''unknown''"
| "protection_text ProtectionHost = ''host''"
| "protection_text ProtectionContainer = ''container''"
| "protection_text ProtectionRunnerReported = ''runner_reported''"

fun scope_text :: "scope \<Rightarrow> bytes" where
  "scope_text NoScope = []"
| "scope_text ExecutionScopeInherited = ''inherited''"
| "scope_text ExecutionScopeContainer = ''container''"
| "scope_text ExecutionScopeExternalRunner = ''external_runner''"

fun worktree_text :: "worktree \<Rightarrow> bytes" where
  "worktree_text WorktreeClean = ''clean''"
| "worktree_text WorktreeDirty = ''dirty''"
| "worktree_text WorktreeUnknown = ''unknown''"

fun executor_text :: "executor \<Rightarrow> bytes" where
  "executor_text CheckExecutorHost = ''host''"
| "executor_text CheckExecutorContainer = ''container''"
| "executor_text CheckExecutorExternalRunner = ''external_runner''"

definition bool_text :: "bool \<Rightarrow> bytes" where
  "bool_text b = (if b then ''true'' else ''false'')"

subsection \<open>Configurations\<close>

definition readCheckConfigurationTx :: "bytes \<Rightarrow> int \<Rightarrow> CheckStore \<Rightarrow> CheckConfiguration option" where
  "readCheckConfigurationTx repo version st =
     find (\<lambda>c. cf_RepositoryID c = repo \<and> cf_Version c = version) (cs_configs st)"

definition ensureCheckConfiguration :: "CheckLibrary \<Rightarrow> bytes \<Rightarrow> CheckDefinition list \<Rightarrow> CheckStore \<Rightarrow> (int \<times> bytes) \<times> CheckStore" where
  "ensureCheckConfiguration lib repo checks st =
     (let hash = lib_sha256 lib (lib_checks_json lib checks) in
      case find (\<lambda>c. cf_RepositoryID c = repo \<and> cf_ConfigHash c = hash) (cs_configs st) of
        Some c \<Rightarrow> ((cf_Version c, hash), st)
      | None \<Rightarrow>
          let version = fold max (map cf_Version (filter (\<lambda>c. cf_RepositoryID c = repo) (cs_configs st))) 0 + 1 in
          ((version, hash),
           st\<lparr>cs_configs := cs_configs st @ [\<lparr>cf_RepositoryID = repo, cf_Version = version, cf_ConfigHash = hash, cf_Checks = checks\<rparr>]\<rparr>))"

subsection \<open>Registration\<close>

text \<open>Whole seconds since 1970.\<close>

definition unix_seconds :: "int \<Rightarrow> int" where
  "unix_seconds t = t div 1000000000"

definition registrationDigest :: "CheckLibrary \<Rightarrow> CheckAttempt \<Rightarrow> bytes" where
  "registrationDigest lib a = digestFields lib
     ([at_ID a, at_TaskID a, at_RepositoryID a, at_RevisionOID a, worktree_text (at_WorktreeState a), at_CycleID a,
       show_int (at_TimeoutMS a), show_int (at_OutputLimitBytes a), show_int (the (at_StartedAt a)),
       show_int (unix_seconds (the (at_CreatedAt a))), protection_text (at_Protection a), scope_text (at_ExecutionScope a),
       at_CredentialID a] @
      (if at_JobID a \<noteq> [] then [''job:'' @ at_JobID a] else []) @
      concat (map (\<lambda>c. [cd_Name c, cd_Command c]) (at_Checks a)))"

text \<open>A stored time that is zero is read as none.\<close>

definition nullableNanoTime :: "int option \<Rightarrow> int option" where
  "nullableNanoTime v = (if v = Some 0 then None else v)"

fun executionScopeForExecutor :: "executor \<Rightarrow> scope" where
  "executionScopeForExecutor CheckExecutorContainer = ExecutionScopeContainer"
| "executionScopeForExecutor CheckExecutorExternalRunner = ExecutionScopeExternalRunner"
| "executionScopeForExecutor CheckExecutorHost = ExecutionScopeInherited"

definition validProtectionForExecutor :: "executor \<Rightarrow> protection \<Rightarrow> bool" where
  "validProtectionForExecutor e p \<longleftrightarrow> p = ProtectionUnknown \<or>
     (case e of
       CheckExecutorHost \<Rightarrow> p = ProtectionHost
     | CheckExecutorContainer \<Rightarrow> p = ProtectionContainer
     | CheckExecutorExternalRunner \<Rightarrow> p = ProtectionRunnerReported)"

definition origin_applied :: "CheckAttempt \<Rightarrow> CheckJob \<Rightarrow> CheckAttempt" where
  "origin_applied a job =
     a\<lparr>at_TaskID := cj_TaskID job, at_ConfigurationVersion := cj_ConfigurationVersion job,
       at_TimeoutMS := lim_TimeoutMS (cj_Limits job), at_OutputLimitBytes := lim_OutputLimitBytes (cj_Limits job),
       at_StartedAt := nullableNanoTime (cj_StartedAt job), at_CredentialID := cj_CredentialID job,
       at_Protection := cj_Protection job, at_ExecutionScope := executionScopeForExecutor (cj_Executor job)\<rparr>"

definition applyJobOrigin :: "CheckAttempt \<Rightarrow> CheckJob \<Rightarrow> CheckConfiguration \<Rightarrow> bool \<Rightarrow> check_fail + CheckAttempt" where
  "applyJobOrigin a job configuration replay =
     (if cj_RepositoryID job \<noteq> at_RepositoryID a then Inl ErrCheckJobNotFound
      else if replay \<and> cj_AttemptID job \<noteq> at_ID a then Inl ErrCheckJobAttemptBound
      else if \<not> replay \<and> cj_Status job \<noteq> CheckJobStarted \<and> cj_Status job \<noteq> CheckJobAmbiguous then Inl ErrCheckJobState
      else if nullableNanoTime (cj_StartedAt job) = None \<or> cj_CredentialID job = [] then Inl ErrCheckJobCredential
      else if cj_AttemptID job \<noteq> [] \<and> cj_AttemptID job \<noteq> at_ID a then Inl ErrCheckJobAttemptBound
      else if at_TaskID a \<noteq> [] \<and> at_TaskID a \<noteq> cj_TaskID job then Inl ErrCheckJobFacts
      else if at_RevisionOID a \<noteq> cj_SourceOID job
        \<or> at_ConfigurationVersion a \<noteq> 0 \<and> at_ConfigurationVersion a \<noteq> cj_ConfigurationVersion job
        \<or> at_Checks a \<noteq> cf_Checks configuration \<or> at_CycleID a \<noteq> [] then Inl ErrCheckJobFacts
      else if at_TimeoutMS a \<noteq> 0 \<and> at_TimeoutMS a \<noteq> lim_TimeoutMS (cj_Limits job) then Inl ErrCheckJobFacts
      else if at_OutputLimitBytes a \<noteq> 0 \<and> at_OutputLimitBytes a \<noteq> lim_OutputLimitBytes (cj_Limits job) then Inl ErrCheckJobFacts
      else if at_CredentialID a \<noteq> [] \<and> at_CredentialID a \<noteq> cj_CredentialID job then Inl ErrCheckJobCredential
      else if at_StartedAt a \<noteq> None \<and> at_StartedAt a \<noteq> nullableNanoTime (cj_StartedAt job) then Inl ErrCheckJobFacts
      else Inr (origin_applied a job))"

definition MaximumCheckDefinitions :: nat where
  "MaximumCheckDefinitions = 50"

definition MaximumCheckNameBytes :: nat where
  "MaximumCheckNameBytes = 100"

definition MaximumCheckCommandBytes :: nat where
  "MaximumCheckCommandBytes = 24000"

definition validCheckDefinition :: "CheckDefinition \<Rightarrow> bool" where
  "validCheckDefinition c \<longleftrightarrow> validCheckText (cd_Name c) MaximumCheckNameBytes \<and> validCheckText (cd_Command c) MaximumCheckCommandBytes"

definition validAttemptStatus :: "job_status \<Rightarrow> bool" where
  "validAttemptStatus s \<longleftrightarrow>
     s \<in> {CheckJobPassed, CheckJobFailed, CheckJobError, CheckJobCancelled, CheckJobIncomplete, CheckJobUnavailable}"

definition validateRegistration :: "CheckAttempt \<Rightarrow> bool" where
  "validateRegistration a \<longleftrightarrow>
     validAttemptID (at_ID a) \<and> at_TaskID a \<noteq> [] \<and> at_RepositoryID a \<noteq> [] \<and> stateObjectID (at_RevisionOID a) \<and>
     (case at_Status a of None \<Rightarrow> True | Some s \<Rightarrow> validAttemptStatus s) \<and>
     at_StartedAt a \<noteq> None \<and> at_CreatedAt a \<noteq> None \<and>
     length (at_CredentialID a) \<le> 100 \<and> at_TimeoutMS a \<ge> 0 \<and> at_OutputLimitBytes a \<ge> 0 \<and>
     (at_JobID a \<noteq> [] \<longrightarrow> validAttemptID (at_JobID a)) \<and> at_ExecutionScope a \<noteq> NoScope \<and>
     (at_CycleID a \<noteq> [] \<longrightarrow> validAttemptID (at_CycleID a)) \<and>
     length (at_Checks a) \<le> MaximumCheckDefinitions \<and> list_all validCheckDefinition (at_Checks a)"

definition readCheckJobTx :: "bytes \<Rightarrow> bytes \<Rightarrow> CheckStore \<Rightarrow> CheckJob option" where
  "readCheckJobTx repo id' st = find (\<lambda>j. cj_RepositoryID j = repo \<and> cj_ID j = id') (cs_jobs st)"

definition readCheckJobByIDTx :: "bytes \<Rightarrow> CheckStore \<Rightarrow> CheckJob option" where
  "readCheckJobByIDTx id' st = find (\<lambda>j. cj_ID j = id') (cs_jobs st)"

definition readAttemptTx :: "bytes \<Rightarrow> CheckStore \<Rightarrow> CheckAttempt option" where
  "readAttemptTx id' st = find (\<lambda>a. at_ID a = id') (cs_attempts st)"

text \<open>A new attempt with its place in the repository's sequence.\<close>

definition insert_attempt :: "CheckLibrary \<Rightarrow> CheckAttempt \<Rightarrow> CheckStore \<Rightarrow> CheckAttempt \<times> CheckStore" where
  "insert_attempt lib a st =
     (case ensureCheckConfiguration lib (at_RepositoryID a) (at_Checks a) st of ((version, hash), st1) \<Rightarrow>
       let a1 = a\<lparr>at_ConfigurationVersion := version\<rparr>;
         sequence = cs_sequences st1 (at_RepositoryID a) + 1;
         a2 = a1\<lparr>at_RegistrationDigest := registrationDigest lib a1, at_Sequence := sequence, at_Status := None, at_Summary := []\<rparr> in
       (a2, st1\<lparr>cs_sequences := (cs_sequences st1)(at_RepositoryID a := sequence), cs_attempts := cs_attempts st1 @ [a2]\<rparr>))"

text \<open>\<open>registerCheckAttemptTx\<close> for an attempt that names a job.\<close>

definition registerCheckAttemptTx :: "CheckLibrary \<Rightarrow> CheckAttempt \<Rightarrow> CheckStore \<Rightarrow> check_fail + CheckAttempt \<times> CheckStore" where
  "registerCheckAttemptTx lib attempt st =
     (let a0 = (if at_ExecutionScope attempt = NoScope then attempt\<lparr>at_ExecutionScope := ExecutionScopeInherited\<rparr> else attempt);
        existing = readAttemptTx (at_ID a0) st in
      case readCheckJobTx (at_RepositoryID a0) (at_JobID a0) st of
        None \<Rightarrow> Inl ErrCheckJobNotFound
      | Some job \<Rightarrow>
        (case readCheckConfigurationTx (cj_RepositoryID job) (cj_ConfigurationVersion job) st of
          None \<Rightarrow> Inl ErrCheckConfigurationMissing
        | Some configuration \<Rightarrow>
          (case applyJobOrigin a0 job configuration (existing \<noteq> None) of
            Inl e \<Rightarrow> Inl e
          | Inr a \<Rightarrow>
            if \<not> validateRegistration a then Inl ErrInvalidRegistration
            else (case existing of
              Some old \<Rightarrow>
                if at_RegistrationDigest old \<noteq> registrationDigest lib (a\<lparr>at_CreatedAt := at_CreatedAt old\<rparr>) then Inl ErrAttemptConflict
                else Inr (old, st)
            | None \<Rightarrow>
                if cs_tasks st (at_TaskID a) \<noteq> Some (at_RepositoryID a) then Inl ErrTaskNotFound
                else (case insert_attempt lib a st of (a2, st2) \<Rightarrow>
                  let P = (\<lambda>j. cj_ID j = at_JobID a2 \<and> cj_RepositoryID j = at_RepositoryID a2 \<and>
                      (cj_AttemptID j = [] \<or> cj_AttemptID j = at_ID a2)) in
                  if affected_jobs P st2 \<noteq> 1 then Inl ErrCheckJobAttemptBound
                  else Inr (a2, update_jobs P (\<lambda>j. j\<lparr>cj_AttemptID := at_ID a2\<rparr>) st2))))))"

text \<open>The registration a helper sends; without a job it does not touch the jobs.\<close>

definition RegisterJobAttempt :: "CheckLibrary \<Rightarrow> CheckAttempt \<Rightarrow> CheckStore \<Rightarrow> (check_fail + CheckAttempt) \<times> CheckStore" where
  "RegisterJobAttempt lib attempt st =
     (if at_CredentialID attempt = ''json-admission-refusal'' then (Inl ErrInvalidCheckJob, st)
      else commit_or_rollback (registerCheckAttemptTx lib attempt st) st)"

subsection \<open>Completion\<close>

text \<open>The status of a result is one of the statuses of an attempt, or any other.\<close>

record CheckResult =
  res_Name :: bytes
  res_Command :: bytes
  res_Status :: job_status
  res_ExitCode :: "int option"
  res_DurationMS :: int
  res_OutputExcerpt :: bytes
  res_Truncated :: bool
  res_OutputLimitExceededBytes :: int
  res_CleanupError :: bytes
  res_Role :: bytes

record CheckCompletion =
  cmp_AttemptID :: bytes
  cmp_RepositoryID :: bytes
  cmp_TaskID :: bytes
  cmp_Results :: "CheckResult list"
  cmp_Cancelled :: bool
  cmp_FinishedAt :: moment
  cmp_WorktreeState :: worktree
  cmp_Log :: bytes
  cmp_LogTruncated :: bool

definition ValidOutputLimitFact :: "int \<Rightarrow> job_status \<Rightarrow> bool \<Rightarrow> bool" where
  "ValidOutputLimitFact limit status truncated \<longleftrightarrow>
     limit = 0 \<or> limit > 0 \<and> truncated \<and> status \<in> {CheckJobIncomplete, CheckJobError, CheckJobCancelled}"

definition validResult :: "CheckResult \<Rightarrow> bool" where
  "validResult r \<longleftrightarrow> validCheckText (res_Name r) MaximumCheckNameBytes \<and> validCheckText (res_Command r) MaximumCheckCommandBytes \<and>
     res_Role r = [] \<and> validAttemptStatus (res_Status r) \<and> res_DurationMS r \<ge> 0 \<and>
     ValidOutputLimitFact (res_OutputLimitExceededBytes r) (res_Status r) (res_Truncated r) \<and>
     length (res_OutputExcerpt r) \<le> 8 * 1024 \<and> length (res_CleanupError r) \<le> 500"

text \<open>\<open>validateCompletion\<close> together with the check that the results are of the lane of configured
  checks: both refuse before anything is written.\<close>

definition validateCompletion :: "CheckCompletion \<Rightarrow> bool" where
  "validateCompletion c \<longleftrightarrow> validAttemptID (cmp_AttemptID c) \<and> cmp_RepositoryID c \<noteq> [] \<and> cmp_TaskID c \<noteq> [] \<and>
     cmp_FinishedAt c \<noteq> None \<and> length (cmp_Log c) \<le> 256 * 1024 \<and> length (cmp_Results c) \<le> MaximumCheckDefinitions \<and>
     list_all validResult (cmp_Results c)"

fun matchResults :: "CheckDefinition list \<Rightarrow> CheckResult list \<Rightarrow> bool" where
  "matchResults [] [] = True"
| "matchResults (c # cs) (r # rs) = (cd_Name c = res_Name r \<and> cd_Command c = res_Command r \<and> matchResults cs rs)"
| "matchResults cs rs = False"

definition hasCleanupFailure :: "CheckResult list \<Rightarrow> bool" where
  "hasCleanupFailure results = list_ex (\<lambda>r. res_CleanupError r \<noteq> []) results"

definition attempt_rank :: "job_status \<Rightarrow> nat option" where
  "attempt_rank s = (case s of
     CheckJobPassed \<Rightarrow> Some 5 | CheckJobIncomplete \<Rightarrow> Some 4 | CheckJobUnavailable \<Rightarrow> Some 3 | CheckJobFailed \<Rightarrow> Some 2
   | CheckJobError \<Rightarrow> Some 1 | CheckJobCancelled \<Rightarrow> Some 0 | _ \<Rightarrow> None)"

definition worse_status :: "CheckResult \<Rightarrow> job_status \<times> nat \<Rightarrow> job_status \<times> nat" where
  "worse_status r sw = (case attempt_rank (res_Status r) of
     Some v \<Rightarrow> if v < snd sw then (res_Status r, v) else sw
   | None \<Rightarrow> sw)"

definition AggregateCheckStatus :: "CheckResult list \<Rightarrow> bool \<Rightarrow> job_status" where
  "AggregateCheckStatus results cancelled =
     (if hasCleanupFailure results then CheckJobError
      else let first = (if results = [] then CheckJobUnavailable else CheckJobPassed);
        status = fst (fold worse_status results (first, the (attempt_rank first))) in
        if status = CheckJobError then CheckJobError else if cancelled then CheckJobCancelled else status)"

definition effectiveCheckStatus :: "CheckResult \<Rightarrow> job_status" where
  "effectiveCheckStatus r = (if res_CleanupError r \<noteq> [] then CheckJobError else res_Status r)"

definition worseWorktree :: "worktree \<Rightarrow> worktree \<Rightarrow> worktree" where
  "worseWorktree a b =
     (if a = WorktreeDirty \<or> b = WorktreeDirty then WorktreeDirty
      else if a = WorktreeUnknown \<or> b = WorktreeUnknown then WorktreeUnknown else WorktreeClean)"

fun join_texts :: "bytes \<Rightarrow> bytes list \<Rightarrow> bytes" where
  "join_texts sep [] = []"
| "join_texts sep [x] = x"
| "join_texts sep (x # y # xs) = x @ sep @ join_texts sep (y # xs)"

definition AttemptSummary :: "CheckResult list \<Rightarrow> worktree \<Rightarrow> job_status \<Rightarrow> bytes \<Rightarrow> bytes" where
  "AttemptSummary results tree status credential =
     (if credential = ''json-admission-refusal'' \<and> results \<noteq> [] then ''Check unavailable: '' @ res_OutputExcerpt (hd results)
      else let n = (\<lambda>s. length (filter (\<lambda>r. effectiveCheckStatus r = s) results));
        parts = map (\<lambda>s. show_int (int (n s)) @ '' '' @ status_text s)
          (filter (\<lambda>s. n s \<noteq> 0) [CheckJobFailed, CheckJobError, CheckJobUnavailable, CheckJobIncomplete, CheckJobCancelled, CheckJobPassed]) in
        take 500
          (show_int (int (length results)) @ '' checks'' @
           (if parts \<noteq> [] then '': '' @ join_texts '', '' parts else []) @
           (if tree = WorktreeDirty then ''; worktree dirty'' else if tree = WorktreeUnknown then ''; worktree state unknown'' else []) @
           (if status = CheckJobCancelled then ''; cancelled'' else [])))"

definition result_fields :: "CheckResult \<Rightarrow> bytes list" where
  "result_fields r =
     [res_Name r, res_Command r, status_text (res_Status r),
      (case res_ExitCode r of None \<Rightarrow> ''nil'' | Some n \<Rightarrow> show_int n), show_int (res_DurationMS r), res_OutputExcerpt r,
      bool_text (res_Truncated r), res_CleanupError r] @
     (if res_Role r \<noteq> [] then [''role'', res_Role r] else []) @
     (if res_OutputLimitExceededBytes r > 0 then [''output_limit'', show_int (res_OutputLimitExceededBytes r)] else [])"

definition completionDigest :: "CheckLibrary \<Rightarrow> CheckCompletion \<Rightarrow> bytes" where
  "completionDigest lib c = digestFields lib
     ([cmp_AttemptID c, worktree_text (cmp_WorktreeState c), bool_text (cmp_Cancelled c), show_int (the (cmp_FinishedAt c)),
       bool_text (cmp_LogTruncated c), digestFields lib [cmp_Log c]] @ concat (map result_fields (cmp_Results c)))"

end
