(* ===== verification/CheckJobs.thy ===== *)
theory CheckJobs
  imports CheckAttempts
begin

text \<open>
  The queue of configured-check jobs, \<open>state/check_jobs.go\<close>: admission, claims under a lease, the
  one-shot start, and every way in which a job ends. The jobs of workflow runs are not modelled: all
  jobs here have an empty \<open>RunID\<close>, for which the claim guards hold and no run is settled.
\<close>

subsection \<open>Admission\<close>

record CheckJobRequest =
  req_RepositoryID :: bytes
  req_Trigger :: bytes
  req_EventKey :: bytes
  req_SourceOID :: bytes
  req_BaseOID :: bytes
  req_PullRequestNumber :: int
  req_TriggerRef :: bytes
  req_WorkflowPath :: bytes
  req_WorkflowOID :: bytes
  req_WorkflowDigest :: bytes
  req_Checks :: "CheckDefinition list"
  req_TimeoutMS :: int
  req_OutputLimitBytes :: int
  req_RerunRoot :: bytes
  req_RerunGeneration :: int

definition EventPush :: bytes where
  "EventPush = ''push''"

definition EventPullRequest :: bytes where
  "EventPullRequest = ''pull_request''"

definition check_path :: bytes where
  "check_path = ''.owngit/checks.json''"

definition validateCheckJobRequest :: "CheckJobRequest \<Rightarrow> bool" where
  "validateCheckJobRequest r \<longleftrightarrow> req_RepositoryID r \<noteq> [] \<and>
     (req_Trigger r = EventPush \<and> req_PullRequestNumber r = 0 \<and> req_BaseOID r = [] \<or>
      req_Trigger r = EventPullRequest \<and> req_PullRequestNumber r > 0 \<and> stateObjectID (req_BaseOID r)) \<and>
     stateObjectID (req_SourceOID r) \<and>
     req_EventKey r \<noteq> [] \<and> length (req_EventKey r) \<le> 200 \<and> \<not> list_ex line_break (req_EventKey r) \<and>
     req_TriggerRef r \<noteq> ''@'' \<and> length (req_TriggerRef r) \<le> 200 \<and> validBranchText (req_TriggerRef r) \<and>
     (req_WorkflowPath r = [] \<or> req_WorkflowPath r = check_path) \<and> validDigest (req_WorkflowDigest r) \<and>
     (req_WorkflowOID r = [] \<or> stateObjectID (req_WorkflowOID r)) \<and>
     req_Checks r \<noteq> [] \<and> length (req_Checks r) \<le> MaximumCheckDefinitions \<and> list_all validCheckDefinition (req_Checks r) \<and>
     req_TimeoutMS r \<ge> 0 \<and> req_OutputLimitBytes r \<ge> 0 \<and>
     (req_RerunRoot r = [] \<or> validAttemptID (req_RerunRoot r)) \<and> req_RerunGeneration r \<ge> 0"

definition automaticCheckTaskID :: "CheckLibrary \<Rightarrow> CheckJobRequest \<Rightarrow> bytes" where
  "automaticCheckTaskID lib r =
     take 32 (digestFields lib [''automatic-check-task-v1'', req_RepositoryID r, req_Trigger r,
       if req_Trigger r = EventPullRequest then show_int (req_PullRequestNumber r) else req_TriggerRef r])"

definition ensureAutomaticCheckTaskTx :: "bytes \<Rightarrow> bytes \<Rightarrow> CheckStore \<Rightarrow> check_fail + CheckStore" where
  "ensureAutomaticCheckTaskTx repo task st =
     (case cs_tasks st task of
       None \<Rightarrow> Inr (st\<lparr>cs_tasks := (cs_tasks st)(task \<mapsto> repo)\<rparr>)
     | Some owner \<Rightarrow> if owner \<noteq> repo then Inl ErrTaskElsewhere else Inr st)"

definition effectiveCheckJobLimits :: "CheckJobRequest \<Rightarrow> CheckPolicy \<Rightarrow> CheckJobLimits" where
  "effectiveCheckJobLimits r p =
     (let timeout = (if req_TimeoutMS r \<le> 0 then 600000 else req_TimeoutMS r);
        output = (if req_OutputLimitBytes r \<le> 0 then 65536 else req_OutputLimitBytes r) in
      \<lparr>lim_TimeoutMS = min (max timeout 1000) (pol_MaxTimeoutMS p),
       lim_OutputLimitBytes = min (max output 1024) (pol_MaxOutputLimitBytes p)\<rparr>)"

definition checkJobDedupDigest :: "CheckLibrary \<Rightarrow> CheckJob \<Rightarrow> bytes \<Rightarrow> bytes" where
  "checkJobDedupDigest lib j hash =
     (let facts = [cj_RepositoryID j, cj_TaskID j, cj_Trigger j, cj_EventKey j, cj_SourceOID j, cj_BaseOID j,
        show_int (cj_PullRequestNumber j), cj_TriggerRef j, cj_WorkflowPath j, cj_WorkflowOID j, cj_WorkflowDigest j, hash,
        executor_text (cj_Executor j), show_int (cj_PolicyVersion j), show_int (cj_ConsentVersion j),
        show_int (lim_TimeoutMS (cj_Limits j)), show_int (lim_OutputLimitBytes (cj_Limits j)),
        cj_RerunRoot j, show_int (cj_RerunGeneration j)] in
      if Legacy (cj_Execution j) then digestFields lib (''check-job-v1'' # facts)
      else digestFields lib ((''check-job-v2'' # facts) @ [lib_execution_json lib (cj_Execution j)]))"

definition unfinished :: "CheckJob \<Rightarrow> bool" where
  "unfinished j \<longleftrightarrow> cj_Status j \<in> {CheckJobPending, CheckJobClaimed, CheckJobStarted}"

definition active :: "CheckJob \<Rightarrow> bool" where
  "active j \<longleftrightarrow> cj_Status j \<in> {CheckJobClaimed, CheckJobStarted}"

definition countUnfinishedCheckJobsTx :: "bytes \<Rightarrow> CheckStore \<Rightarrow> int" where
  "countUnfinishedCheckJobsTx repo st = int (length (filter (\<lambda>j. cj_RepositoryID j = repo \<and> unfinished j) (cs_jobs st)))"

definition countActiveCheckJobsTx :: "bytes \<Rightarrow> CheckStore \<Rightarrow> int" where
  "countActiveCheckJobsTx repo st = int (length (filter (\<lambda>j. cj_RepositoryID j = repo \<and> active j) (cs_jobs st)))"

text \<open>The row of a new job.\<close>

definition admitted_job :: "CheckLibrary \<Rightarrow> CheckJobRequest \<Rightarrow> CheckPolicy \<Rightarrow> int \<times> bytes \<Rightarrow> bytes \<Rightarrow> int \<Rightarrow> CheckJob" where
  "admitted_job lib r p config new t =
     (let j = \<lparr>cj_ID = new, cj_RepositoryID = req_RepositoryID r, cj_TaskID = automaticCheckTaskID lib r,
         cj_Trigger = req_Trigger r, cj_EventKey = req_EventKey r, cj_SourceOID = req_SourceOID r, cj_BaseOID = req_BaseOID r,
         cj_PullRequestNumber = req_PullRequestNumber r, cj_TriggerRef = req_TriggerRef r,
         cj_WorkflowPath = (if req_WorkflowPath r = [] then check_path else req_WorkflowPath r),
         cj_WorkflowOID = req_WorkflowOID r, cj_WorkflowDigest = req_WorkflowDigest r, cj_ConfigurationVersion = fst config,
         cj_Executor = pol_Executor p, cj_PolicyVersion = pol_Version p, cj_ConsentVersion = pol_ConsentVersion p,
         cj_Limits = effectiveCheckJobLimits r p, cj_Execution = pol_Execution p, cj_DedupDigest = [],
         cj_RerunRoot = req_RerunRoot r, cj_RerunGeneration = req_RerunGeneration r, cj_Status = CheckJobPending,
         cj_AttemptID = [], cj_LeaseID = [], cj_LeaseExpiresAt = None, cj_CredentialID = [], cj_CredentialGeneration = 0,
         cj_CredentialRole = NoRole, cj_Protection = ProtectionUnknown, cj_AdmittedAt = t, cj_ClaimedAt = None,
         cj_StartedAt = None, cj_FinishedAt = None, cj_LeaseLostAt = None, cj_CancelRequestedAt = None,
         cj_InterruptedAt = None, cj_Summary = []\<rparr> in
      j\<lparr>cj_DedupDigest := checkJobDedupDigest lib j (snd config)\<rparr>)"

definition readCheckJobByDedupTx :: "bytes \<Rightarrow> bytes \<Rightarrow> CheckStore \<Rightarrow> CheckJob option" where
  "readCheckJobByDedupTx repo digest st = find (\<lambda>j. cj_RepositoryID j = repo \<and> cj_DedupDigest j = digest) (cs_jobs st)"

text \<open>\<open>new\<close> is the identity that \<open>RandomID\<close> returns; the primary key refuses one that is in use.\<close>

definition admitCheckJobTx :: "CheckLibrary \<Rightarrow> CheckJobRequest \<Rightarrow> bytes \<Rightarrow> int \<Rightarrow> CheckStore \<Rightarrow> check_fail + (CheckJob \<times> bool) \<times> CheckStore" where
  "admitCheckJobTx lib r new t st =
     (case cs_policies st (req_RepositoryID r) of
       None \<Rightarrow> Inl ErrCheckPolicyMissing
     | Some p \<Rightarrow>
         if \<not> checkConsentCurrent p then Inl ErrCheckConsentRequired
         else if \<not> policyAllowsCheckEvent p (req_Trigger r) then Inl ErrCheckEventNotAllowed
         else if above_ceilings (cs_ceilings st) p then Inl ErrCheckCeilingExceeded
         else (case ensureAutomaticCheckTaskTx (req_RepositoryID r) (automaticCheckTaskID lib r) st of
           Inl e \<Rightarrow> Inl e
         | Inr st1 \<Rightarrow>
             (case ensureCheckConfiguration lib (req_RepositoryID r) (req_Checks r) st1 of (config, st2) \<Rightarrow>
               let job = admitted_job lib r p config new t in
               (case readCheckJobByDedupTx (req_RepositoryID r) (cj_DedupDigest job) st2 of
                 Some old \<Rightarrow> Inr ((old, True), st2)
               | None \<Rightarrow>
                   if countUnfinishedCheckJobsTx (req_RepositoryID r) st2 \<ge> pol_QueueLimit p then Inl ErrCheckQueueFull
                   else if list_ex (\<lambda>j. cj_ID j = new) (cs_jobs st2) then Inl ErrConstraint
                   else Inr ((job, False), st2\<lparr>cs_jobs := cs_jobs st2 @ [job]\<rparr>)))))"

definition AdmitCheckJob :: "CheckLibrary \<Rightarrow> CheckJobRequest \<Rightarrow> bytes \<Rightarrow> moment \<Rightarrow> CheckStore \<Rightarrow> (check_fail + CheckJob \<times> bool) \<times> CheckStore" where
  "AdmitCheckJob lib r new now st =
     (case now of
       None \<Rightarrow> (Inl ErrInvalidCheckJob, st)
     | Some t \<Rightarrow>
         if \<not> validateCheckJobRequest r then (Inl ErrInvalidCheckJob, st)
         else commit_or_rollback (admitCheckJobTx lib r new t st) st)"

subsection \<open>Reruns\<close>

definition terminalCheckJob :: "job_status \<Rightarrow> bool" where
  "terminalCheckJob s \<longleftrightarrow> s \<notin> {CheckJobPending, CheckJobClaimed, CheckJobStarted}"

text \<open>\<open>ORDER BY rerun_generation DESC,id\<close>.\<close>

definition rerun_before :: "CheckJob \<Rightarrow> CheckJob \<Rightarrow> bool" where
  "rerun_before a b \<longleftrightarrow> cj_RerunGeneration a > cj_RerunGeneration b \<or>
     cj_RerunGeneration a = cj_RerunGeneration b \<and> text_before (cj_ID a) (cj_ID b)"

definition first_of :: "'a list \<Rightarrow> 'a option" where
  "first_of xs = (case xs of [] \<Rightarrow> None | x # _ \<Rightarrow> Some x)"

definition readUnfinishedRerunTx :: "bytes \<Rightarrow> bytes \<Rightarrow> CheckStore \<Rightarrow> CheckJob option" where
  "readUnfinishedRerunTx repo root st =
     first_of (in_order rerun_before (filter (\<lambda>j. cj_RepositoryID j = repo \<and> cj_RerunRoot j = root \<and> unfinished j) (cs_jobs st)))"

definition rerun_request :: "CheckJob \<Rightarrow> CheckDefinition list \<Rightarrow> CheckJobLimits \<Rightarrow> bytes \<Rightarrow> int \<Rightarrow> CheckJobRequest" where
  "rerun_request j checks limits root generation =
     \<lparr>req_RepositoryID = cj_RepositoryID j, req_Trigger = cj_Trigger j, req_EventKey = cj_EventKey j,
      req_SourceOID = cj_SourceOID j, req_BaseOID = cj_BaseOID j, req_PullRequestNumber = cj_PullRequestNumber j,
      req_TriggerRef = cj_TriggerRef j, req_WorkflowPath = cj_WorkflowPath j, req_WorkflowOID = cj_WorkflowOID j,
      req_WorkflowDigest = cj_WorkflowDigest j, req_Checks = checks, req_TimeoutMS = lim_TimeoutMS limits,
      req_OutputLimitBytes = lim_OutputLimitBytes limits, req_RerunRoot = root, req_RerunGeneration = generation\<rparr>"

definition RerunCheckJob ::
    "CheckLibrary \<Rightarrow> bytes \<Rightarrow> bytes \<Rightarrow> CheckJobLimits option \<Rightarrow> bytes \<Rightarrow> moment \<Rightarrow> CheckStore \<Rightarrow> (check_fail + CheckJob \<times> bool) \<times> CheckStore" where
  "RerunCheckJob lib repo id' requested new now st =
     (if repo = [] \<or> \<not> validAttemptID id' \<or> now = None then (Inl ErrInvalidCheckJob, st)
      else case readCheckJobTx repo id' st of
        None \<Rightarrow> (Inl ErrCheckJobNotFound, st)
      | Some original \<Rightarrow>
          if \<not> terminalCheckJob (cj_Status original) then (Inl ErrCheckJobState, st)
          else (case readCheckConfigurationTx repo (cj_ConfigurationVersion original) st of
            None \<Rightarrow> (Inl ErrCheckConfigurationMissing, st)
          | Some configuration \<Rightarrow>
              let root = (if cj_RerunRoot original = [] then cj_ID original else cj_RerunRoot original) in
              (case readUnfinishedRerunTx repo root st of
                Some outstanding \<Rightarrow> (Inr (outstanding, True), st)
              | None \<Rightarrow>
                  let generations = map cj_RerunGeneration
                      (filter (\<lambda>j. cj_RepositoryID j = repo \<and> (cj_ID j = root \<or> cj_RerunRoot j = root)) (cs_jobs st));
                    maximum = (if generations = [] then 0 else fold max (tl generations) (hd generations));
                    limits = (case requested of None \<Rightarrow> cj_Limits original | Some l \<Rightarrow> l) in
                  commit_or_rollback
                    (admitCheckJobTx lib (rerun_request original (cf_Checks configuration) limits root (maximum + 1)) new (the now) st) st)))"

subsection \<open>Claims\<close>

definition oldestPendingCheckJobTx :: "bytes \<Rightarrow> CheckStore \<Rightarrow> CheckJob option" where
  "oldestPendingCheckJobTx repo st =
     first_of (in_order queue_before (filter (\<lambda>j. cj_RepositoryID j = repo \<and> cj_Status j = CheckJobPending) (cs_jobs st)))"

definition claimed :: "int \<Rightarrow> int \<Rightarrow> bytes \<Rightarrow> bytes \<times> int \<times> runner_role \<Rightarrow> CheckJob \<Rightarrow> CheckJob" where
  "claimed t lease_ms lease holder j =
     (case holder of (credential, generation, role) \<Rightarrow>
       j\<lparr>cj_Status := CheckJobClaimed, cj_ClaimedAt := Some t, cj_LeaseID := lease, cj_LeaseExpiresAt := Some (t + lease_ms * 1000000),
         cj_CredentialID := credential, cj_CredentialGeneration := generation, cj_CredentialRole := role\<rparr>)"

text \<open>From the interruption of stale jobs on, for a policy of the claimer's kind.\<close>

definition claim_from_queue ::
    "bytes \<Rightarrow> CheckPolicy \<Rightarrow> bytes \<times> int \<times> runner_role \<Rightarrow> int \<Rightarrow> bytes \<Rightarrow> CheckStore \<Rightarrow> check_fail + CheckJob option \<times> CheckStore" where
  "claim_from_queue repo p holder t lease st =
     (case interruptStalePendingCheckJobsTx repo p t st of
       Inl e \<Rightarrow> Inl e
     | Inr st1 \<Rightarrow>
         if \<not> checkConsentCurrent p \<or> Legacy (pol_Execution p) then Inr (None, st1)
         else if countActiveCheckJobsTx repo st1 \<ge> pol_MaxActiveJobs p then Inr (None, st1)
         else (case oldestPendingCheckJobTx repo st1 of
           None \<Rightarrow> Inr (None, st1)
         | Some job \<Rightarrow>
             if \<not> checkJobAuthorityCurrent job p \<or> Legacy (cj_Execution job) then Inl ErrStaleClaimable
             else let P = (\<lambda>j. cj_ID j = cj_ID job \<and> cj_Status j = CheckJobPending); f = claimed t (pol_MaxLeaseMS p) lease holder in
               if affected_jobs P st1 \<noteq> 1 then Inr (None, st)
               else Inr (Some (f job), update_jobs P f st1)))"

definition claimCheckJob ::
    "bytes \<Rightarrow> bytes \<Rightarrow> runner_role \<Rightarrow> int \<Rightarrow> bytes \<Rightarrow> CheckStore \<Rightarrow> (check_fail + CheckJob option) \<times> CheckStore" where
  "claimCheckJob repo credentialID role t lease st =
     (let credential = (if role = RunnerRoleExternal then liveRunnerCredentialTx repo credentialID st else None) in
      if role = RunnerRoleExternal \<and> (case credential of None \<Rightarrow> True | Some c \<Rightarrow> rc_Role c \<noteq> RunnerRoleExternal)
      then (Inl ErrCheckRunnerCredential, st)
      else case cs_policies st repo of
        None \<Rightarrow> (Inr None, st)
      | Some p \<Rightarrow>
          (case role of
            RunnerRoleExternal \<Rightarrow>
              if pol_Executor p \<noteq> CheckExecutorExternalRunner then (Inr None, st)
              else commit_or_rollback
                (claim_from_queue repo p (rc_ID (the credential), rc_Generation (the credential), RunnerRoleExternal) t lease st) st
          | RunnerRoleServer \<Rightarrow>
              if pol_Executor p = CheckExecutorExternalRunner then (Inr None, st)
              else commit_or_rollback (claim_from_queue repo p (pol_AuthorityEpoch p, pol_Version p, RunnerRoleServer) t lease st) st
          | NoRole \<Rightarrow> (Inl ErrCheckRunnerCredential, st)))"

definition ClaimCheckJob :: "bytes \<Rightarrow> bytes \<Rightarrow> moment \<Rightarrow> bytes \<Rightarrow> CheckStore \<Rightarrow> (check_fail + CheckJob option) \<times> CheckStore" where
  "ClaimCheckJob repo credentialID now lease st =
     (if repo = [] \<or> \<not> validAttemptID credentialID \<or> now = None then (Inl ErrInvalidCheckJob, st)
      else claimCheckJob repo credentialID RunnerRoleExternal (the now) lease st)"

definition ClaimLocalCheckJob :: "bytes \<Rightarrow> moment \<Rightarrow> bytes \<Rightarrow> CheckStore \<Rightarrow> (check_fail + CheckJob option) \<times> CheckStore" where
  "ClaimLocalCheckJob repo now lease st =
     (if repo = [] \<or> now = None then (Inl ErrInvalidCheckJob, st)
      else claimCheckJob repo [] RunnerRoleServer (the now) lease st)"

end
