(* ===== verification/CheckLeases.thy ===== *)
theory CheckLeases
  imports CheckJobs
begin

text \<open>
  A claimed job to its end, \<open>state/check_jobs.go\<close> and the completion of \<open>state/checks.go\<close>: the
  start, which is granted once, the renewal and loss of the lease, cancellation, failure before
  the start, restarts of the server and the completion of the attempt.
\<close>

record CheckJobStart =
  sta_RepositoryID :: bytes
  sta_JobID :: bytes
  sta_LeaseID :: bytes
  sta_CredentialID :: bytes
  sta_CredentialGeneration :: int
  sta_Protection :: "protection option"
  sta_AttemptID :: bytes

record CheckJobCompletionAuthority =
  aut_JobID :: bytes
  aut_LeaseID :: bytes
  aut_CredentialID :: bytes
  aut_CredentialGeneration :: int

definition held_by :: "CheckJob \<Rightarrow> bytes \<Rightarrow> bytes \<Rightarrow> int \<Rightarrow> bool" where
  "held_by j lease credential generation \<longleftrightarrow>
     cj_LeaseID j = lease \<and> cj_CredentialID j = credential \<and> cj_CredentialGeneration j = generation"

text \<open>The lease has run out, or there is none.\<close>

definition lease_over :: "CheckJob \<Rightarrow> int \<Rightarrow> bool" where
  "lease_over j t \<longleftrightarrow> (case nullableNanoTime (cj_LeaseExpiresAt j) of None \<Rightarrow> True | Some e \<Rightarrow> e \<le> t)"

subsection \<open>The start\<close>

definition job_attempt :: "CheckJob \<Rightarrow> bytes \<Rightarrow> CheckDefinition list \<Rightarrow> int \<Rightarrow> CheckAttempt" where
  "job_attempt job attempt checks t =
     \<lparr>at_ID = attempt, at_TaskID = cj_TaskID job, at_RepositoryID = cj_RepositoryID job, at_RevisionOID = cj_SourceOID job,
      at_WorktreeState = WorktreeClean, at_ConfigurationVersion = 0, at_Checks = checks, at_Status = None,
      at_StartedAt = Some t, at_CreatedAt = Some t, at_Summary = [], at_Protection = ProtectionUnknown,
      at_ExecutionScope = NoScope, at_CredentialID = cj_CredentialID job, at_JobID = cj_ID job, at_TimeoutMS = 0,
      at_OutputLimitBytes = 0, at_Sequence = 0, at_CycleID = [], at_RegistrationDigest = [], at_CompletionDigest = []\<rparr>"

definition startCheckJobTx :: "CheckLibrary \<Rightarrow> CheckJob \<Rightarrow> bytes \<Rightarrow> protection \<Rightarrow> int \<Rightarrow> CheckStore \<Rightarrow> check_fail + CheckAttempt \<times> CheckStore" where
  "startCheckJobTx lib job attempt protection t st =
     (case readCheckConfigurationTx (cj_RepositoryID job) (cj_ConfigurationVersion job) st of
       None \<Rightarrow> Inl ErrCheckJobCommandsUnavailable
     | Some configuration \<Rightarrow>
         registerCheckAttemptTx lib (job_attempt job attempt (cf_Checks configuration) t)
           (update_jobs (\<lambda>j. cj_ID j = cj_ID job \<and> cj_Status j = CheckJobClaimed)
             (\<lambda>j. j\<lparr>cj_Status := CheckJobStarted, cj_StartedAt := Some t, cj_Protection := protection\<rparr>) st))"

definition validStart :: "CheckJobStart \<Rightarrow> bool" where
  "validStart r \<longleftrightarrow> sta_RepositoryID r \<noteq> [] \<and> validAttemptID (sta_JobID r) \<and> validAttemptID (sta_LeaseID r) \<and>
     validAttemptID (sta_CredentialID r) \<and> sta_CredentialGeneration r > 0 \<and> validAttemptID (sta_AttemptID r)"

definition lost_lease :: "int \<Rightarrow> CheckJob \<Rightarrow> CheckJob" where
  "lost_lease at j = j\<lparr>cj_Status := CheckJobAmbiguous, cj_LeaseLostAt := Some at\<rparr>"

text \<open>The checks of the authority and the grant, for a claimed job whose lease runs.\<close>

definition start_claimed :: "CheckLibrary \<Rightarrow> CheckJobStart \<Rightarrow> CheckJob \<Rightarrow> int \<Rightarrow> CheckStore \<Rightarrow> (check_fail + CheckJob \<times> CheckAttempt) \<times> CheckStore" where
  "start_claimed lib r job t st =
     (let policy = cs_policies st (sta_RepositoryID r); current = checkJobCredentialCurrentTx job st in
      if (case policy of None \<Rightarrow> True | Some p \<Rightarrow> \<not> checkJobAuthorityCurrent job p) \<or> \<not> current
      then (case interruptCheckJobTx job t authority_changed st of
          Inl e \<Rightarrow> (Inl e, st)
        | Inr st1 \<Rightarrow> (Inl (if \<not> current then ErrCheckRunnerCredential else ErrCheckConsentRequired), st1))
      else if nullableNanoTime (cj_CancelRequestedAt job) \<noteq> None then (Inl ErrCheckJobState, st)
      else let protection = (case sta_Protection r of None \<Rightarrow> ProtectionUnknown | Some v \<Rightarrow> v) in
        (case startCheckJobTx lib job (sta_AttemptID r) protection t st of
          Inl e \<Rightarrow> (Inl (CheckJobNotStartedError e), st)
        | Inr (attempt, st1) \<Rightarrow>
            (Inr (job\<lparr>cj_Status := CheckJobStarted, cj_StartedAt := Some t, cj_Protection := protection, cj_AttemptID := at_ID attempt\<rparr>, attempt), st1)))"

definition StartCheckJob :: "CheckLibrary \<Rightarrow> CheckJobStart \<Rightarrow> moment \<Rightarrow> CheckStore \<Rightarrow> (check_fail + CheckJob \<times> CheckAttempt) \<times> CheckStore" where
  "StartCheckJob lib r now st =
     (if \<not> validStart r \<or> now = None then (Inl ErrInvalidCheckJob, st)
      else case readCheckJobTx (sta_RepositoryID r) (sta_JobID r) st of
        None \<Rightarrow> (Inl ErrCheckJobNotFound, st)
      | Some job \<Rightarrow>
          if \<not> held_by job (sta_LeaseID r) (sta_CredentialID r) (sta_CredentialGeneration r) then (Inl ErrCheckJobLease, st)
          else if \<not> validProtectionForExecutor (cj_Executor job) (case sta_Protection r of None \<Rightarrow> ProtectionUnknown | Some v \<Rightarrow> v)
            then (Inl ErrInvalidCheckJob, st)
          else if cj_Status job = CheckJobStarted \<or> cj_Status job = CheckJobAmbiguous \<and> nullableNanoTime (cj_StartedAt job) \<noteq> None
            then (Inl ErrCheckJobStartReplay, st)
          else if cj_Status job \<noteq> CheckJobClaimed then (Inl ErrCheckJobState, st)
          else if lease_over job (the now)
            then (Inl ErrCheckJobLease,
              update_jobs (\<lambda>j. cj_ID j = cj_ID job \<and> cj_Status j = CheckJobClaimed)
                (lost_lease (case nullableNanoTime (cj_LeaseExpiresAt job) of None \<Rightarrow> the now | Some e \<Rightarrow> e)) st)
          else start_claimed lib r job (the now) st)"

subsection \<open>The lease\<close>

definition valid_authority :: "CheckJobCompletionAuthority \<Rightarrow> bool" where
  "valid_authority a \<longleftrightarrow> validAttemptID (aut_JobID a) \<and> validAttemptID (aut_LeaseID a) \<and> validAttemptID (aut_CredentialID a) \<and>
     aut_CredentialGeneration a > 0"

definition RenewCheckJobLease :: "CheckJobCompletionAuthority \<Rightarrow> moment \<Rightarrow> CheckStore \<Rightarrow> (check_fail + CheckJob) \<times> CheckStore" where
  "RenewCheckJobLease a now st =
     (if \<not> valid_authority a \<or> now = None then (Inl ErrInvalidCheckJob, st)
      else case readCheckJobByIDTx (aut_JobID a) st of
        None \<Rightarrow> (Inl ErrCheckJobNotFound, st)
      | Some job \<Rightarrow>
          let policy = cs_policies st (cj_RepositoryID job); t = the now in
          if \<not> held_by job (aut_LeaseID a) (aut_CredentialID a) (aut_CredentialGeneration a) then (Inl ErrCheckJobLease, st)
          else if lease_over job t
            then (Inl ErrCheckJobLease,
              update_jobs (\<lambda>j. cj_ID j = cj_ID job \<and> active j)
                (\<lambda>j. j\<lparr>cj_Status := CheckJobAmbiguous, cj_LeaseLostAt := cj_LeaseExpiresAt j\<rparr>) st)
          else if \<not> checkJobCredentialCurrentTx job st then (Inl ErrCheckRunnerCredential, st)
          else (case policy of
            None \<Rightarrow> (Inl ErrCheckConsentRequired, st)
          | Some p \<Rightarrow>
              if \<not> checkJobAuthorityCurrent job p then (Inl ErrCheckConsentRequired, st)
              else if \<not> active job then (Inl ErrCheckJobState, st)
              else let P = (\<lambda>j. cj_ID j = cj_ID job \<and> cj_Status j = cj_Status job \<and> cj_LeaseID j = cj_LeaseID job);
                  f = (\<lambda>j. j\<lparr>cj_LeaseExpiresAt := Some (t + pol_MaxLeaseMS p * 1000000)\<rparr>) in
                if affected_jobs P st \<noteq> 1 then (Inl ErrCheckJobState, st)
                else (Inr (f job), update_jobs P f st)))"

text \<open>The permission to read the source of a claimed external job; it changes nothing.\<close>

definition AuthorizeCheckJobSource ::
    "bytes \<Rightarrow> bytes \<Rightarrow> bytes \<Rightarrow> bytes \<Rightarrow> int \<Rightarrow> int \<Rightarrow> CheckStore \<Rightarrow> check_fail + CheckJob" where
  "AuthorizeCheckJobSource repo id' lease credential generation t st =
     (case readCheckJobTx repo id' st of
       None \<Rightarrow> Inl ErrCheckJobNotFound
     | Some job \<Rightarrow>
         if cj_CredentialRole job \<noteq> RunnerRoleExternal \<or> cj_Executor job \<noteq> CheckExecutorExternalRunner \<or>
            \<not> held_by job lease credential generation then Inl ErrCheckJobLease
         else if \<not> active job then Inl ErrCheckJobState
         else if lease_over job t then Inl ErrCheckJobLease
         else (case cs_policies st repo of
           None \<Rightarrow> Inl ErrCheckConsentRequired
         | Some p \<Rightarrow> if \<not> checkJobAuthorityCurrent job p then Inl ErrCheckConsentRequired else Inr job))"

definition ExpireCheckJobLeases :: "moment \<Rightarrow> CheckStore \<Rightarrow> (check_fail + nat) \<times> CheckStore" where
  "ExpireCheckJobLeases now st =
     (case now of
       None \<Rightarrow> (Inl ErrInvalidCheckJob, st)
     | Some t \<Rightarrow>
         let P = (\<lambda>j. active j \<and> (case cj_LeaseExpiresAt j of None \<Rightarrow> False | Some e \<Rightarrow> e \<le> t)) in
         (Inr (affected_jobs P st), update_jobs P (\<lambda>j. j\<lparr>cj_Status := CheckJobAmbiguous, cj_LeaseLostAt := cj_LeaseExpiresAt j\<rparr>) st))"

subsection \<open>Other ends\<close>

definition FailCheckJobBeforeStart ::
    "CheckJobCompletionAuthority \<Rightarrow> job_status \<Rightarrow> bytes \<Rightarrow> moment \<Rightarrow> CheckStore \<Rightarrow> (check_fail + CheckJob) \<times> CheckStore" where
  "FailCheckJobBeforeStart a status summary now st =
     (if status \<notin> {CheckJobUnavailable, CheckJobError, CheckJobInterrupted} \<or> \<not> validText summary 500 \<or> now = None
      then (Inl ErrInvalidCheckJob, st)
      else case readCheckJobByIDTx (aut_JobID a) st of
        None \<Rightarrow> (Inl ErrCheckJobNotFound, st)
      | Some job \<Rightarrow>
          if cj_Status job \<noteq> CheckJobClaimed \<or> \<not> held_by job (aut_LeaseID a) (aut_CredentialID a) (aut_CredentialGeneration a)
          then (Inl ErrCheckJobLease, st)
          else if \<not> checkJobCredentialCurrentTx job st then (Inl ErrCheckRunnerCredential, st)
          else let P = (\<lambda>j. cj_ID j = cj_ID job \<and> cj_Status j = CheckJobClaimed \<and> cj_LeaseID j = cj_LeaseID job);
              f = (\<lambda>j. j\<lparr>cj_Status := status, cj_FinishedAt := now, cj_Summary := summary\<rparr>) in
            if affected_jobs P st \<noteq> 1 then (Inl ErrCheckJobState, st) else (Inr (f job), update_jobs P f st))"

definition cancelCheckJobTx :: "CheckJob \<Rightarrow> int \<Rightarrow> bytes \<Rightarrow> CheckStore \<Rightarrow> CheckJob \<times> CheckStore" where
  "cancelCheckJobTx job t summary st =
     (if cj_Status job \<in> {CheckJobPending, CheckJobClaimed}
      then (job\<lparr>cj_Status := CheckJobCancelled, cj_FinishedAt := Some t, cj_CancelRequestedAt := Some t, cj_Summary := summary\<rparr>,
        update_jobs (\<lambda>j. cj_ID j = cj_ID job \<and> cj_Status j \<in> {CheckJobPending, CheckJobClaimed})
          (\<lambda>j. j\<lparr>cj_Status := CheckJobCancelled, cj_CancelRequestedAt := Some t, cj_FinishedAt := Some t, cj_Summary := summary\<rparr>) st)
      else if cj_Status job \<in> {CheckJobStarted, CheckJobAmbiguous}
      then (if nullableNanoTime (cj_CancelRequestedAt job) \<noteq> None then (job, st)
        else (job\<lparr>cj_CancelRequestedAt := Some t, cj_Summary := summary\<rparr>,
          update_jobs (\<lambda>j. cj_ID j = cj_ID job) (\<lambda>j. j\<lparr>cj_CancelRequestedAt := Some t, cj_Summary := summary\<rparr>) st))
      else (job, st))"

definition CancelCheckJob :: "bytes \<Rightarrow> bytes \<Rightarrow> moment \<Rightarrow> CheckStore \<Rightarrow> (check_fail + CheckJob) \<times> CheckStore" where
  "CancelCheckJob repo id' now st =
     (if repo = [] \<or> \<not> validAttemptID id' \<or> now = None then (Inl ErrInvalidCheckJob, st)
      else case readCheckJobTx repo id' st of
        None \<Rightarrow> (Inl ErrCheckJobNotFound, st)
      | Some job \<Rightarrow> (case cancelCheckJobTx job (the now) (cj_Summary job) st of (job1, st1) \<Rightarrow> (Inr job1, st1)))"

definition restarted_before :: bytes where
  "restarted_before = ''The server restarted before execution began.''"

definition restarted_during :: bytes where
  "restarted_during = ''The server restarted while execution cleanup was uncertain.''"

definition ReconcileCheckJobRestart :: "moment \<Rightarrow> CheckStore \<Rightarrow> (check_fail + nat) \<times> CheckStore" where
  "ReconcileCheckJobRestart now st =
     (case now of
       None \<Rightarrow> (Inl ErrInvalidCheckJob, st)
     | Some t \<Rightarrow>
         let P = (\<lambda>j. cj_Status j = CheckJobClaimed); st1 = update_jobs P (interrupted t restarted_before) st;
           Q = (\<lambda>j. cj_Status j = CheckJobStarted) in
         (Inr (affected_jobs P st + affected_jobs Q st1),
          update_jobs Q (\<lambda>j. j\<lparr>cj_Status := CheckJobAmbiguous, cj_LeaseLostAt := Some t, cj_Summary := restarted_during\<rparr>) st1))"

subsection \<open>Completion\<close>

definition authorizeCheckJobCompletionTx :: "CheckAttempt \<Rightarrow> CheckJobCompletionAuthority \<Rightarrow> CheckStore \<Rightarrow> check_fail option" where
  "authorizeCheckJobCompletionTx attempt a st =
     (if aut_JobID a \<noteq> at_JobID attempt \<or> \<not> valid_authority a then Some ErrCheckJobCredential
      else case readCheckJobTx (at_RepositoryID attempt) (at_JobID attempt) st of
        None \<Rightarrow> Some ErrCheckJobNotFound
      | Some job \<Rightarrow>
          if cj_AttemptID job \<noteq> at_ID attempt then Some ErrCheckJobAttemptBound
          else if \<not> held_by job (aut_LeaseID a) (aut_CredentialID a) (aut_CredentialGeneration a) then Some ErrCheckJobLease
          else if at_Status attempt \<noteq> None then None
          else if cj_Status job \<noteq> CheckJobStarted \<and> cj_Status job \<noteq> CheckJobAmbiguous then Some ErrCheckJobState
          else if \<not> checkJobCredentialCurrentTx job st then Some ErrCheckRunnerCredential
          else None)"

definition finalizeCheckJobTx :: "CheckAttempt \<Rightarrow> job_status \<Rightarrow> int \<Rightarrow> bytes \<Rightarrow> bool \<Rightarrow> CheckStore \<Rightarrow> check_fail + CheckStore" where
  "finalizeCheckJobTx attempt status t summary cancelled st =
     (case readCheckJobTx (at_RepositoryID attempt) (at_JobID attempt) st of
       None \<Rightarrow> Inl ErrCheckJobNotFound
     | Some job \<Rightarrow>
         if cj_AttemptID job \<noteq> at_ID attempt then Inl ErrCheckJobAttemptBound
         else if cj_Status job \<noteq> CheckJobStarted \<and> cj_Status job \<noteq> CheckJobAmbiguous then Inl ErrCheckJobState
         else let requested = nullableNanoTime (cj_CancelRequestedAt job) in
           Inr (update_jobs (\<lambda>j. cj_ID j = cj_ID job)
             (\<lambda>j. j\<lparr>cj_Status := status, cj_FinishedAt := Some t, cj_Summary := summary,
               cj_CancelRequestedAt := (if cancelled \<and> requested = None then Some t else requested)\<rparr>) st))"

text \<open>The completion of the attempt of a job. The raw log, its retention and the rows of the results
  are left out.\<close>

definition complete_attempt ::
    "CheckLibrary \<Rightarrow> CheckCompletion \<Rightarrow> CheckAttempt \<Rightarrow> int \<Rightarrow> CheckStore \<Rightarrow> check_fail + CheckAttempt \<times> CheckStore" where
  "complete_attempt lib c attempt t st =
     (let status = AggregateCheckStatus (cmp_Results c) (cmp_Cancelled c);
        summary = AttemptSummary (cmp_Results c) (worseWorktree (at_WorktreeState attempt) (cmp_WorktreeState c)) status (at_CredentialID attempt);
        f = (\<lambda>a. a\<lparr>at_Status := Some status, at_Summary := summary, at_CompletionDigest := completionDigest lib c\<rparr>);
        st1 = st\<lparr>cs_attempts := map (\<lambda>a. if at_ID a = at_ID attempt then f a else a) (cs_attempts st)\<rparr> in
      (case finalizeCheckJobTx attempt status t summary (cmp_Cancelled c) st1 of Inl e \<Rightarrow> Inl e | Inr st2 \<Rightarrow> Inr (f attempt, st2)))"

definition CompleteCheckJobAttempt ::
    "CheckLibrary \<Rightarrow> CheckCompletion \<Rightarrow> CheckJobCompletionAuthority \<Rightarrow> int \<Rightarrow> CheckStore \<Rightarrow> (check_fail + CheckAttempt) \<times> CheckStore" where
  "CompleteCheckJobAttempt lib c a t st =
     (if \<not> validateCompletion c then (Inl ErrInvalidCompletion, st)
      else case readAttemptTx (cmp_AttemptID c) st of
        None \<Rightarrow> (Inl ErrAttemptNotFound, st)
      | Some attempt \<Rightarrow>
          if at_RepositoryID attempt \<noteq> cmp_RepositoryID c \<or> at_TaskID attempt \<noteq> cmp_TaskID c then (Inl ErrAttemptNotFound, st)
          else if at_JobID attempt = [] then (Inl ErrCheckJobNotFound, st)
          else (case authorizeCheckJobCompletionTx attempt a st of
            Some e \<Rightarrow> (Inl e, st)
          | None \<Rightarrow>
              (case readCheckConfigurationTx (at_RepositoryID attempt) (at_ConfigurationVersion attempt) st of
                None \<Rightarrow> (Inl ErrCheckConfigurationMissing, st)
              | Some configuration \<Rightarrow>
                  if list_ex (\<lambda>r. res_OutputLimitExceededBytes r > at_OutputLimitBytes attempt) (cmp_Results c) \<or>
                     \<not> matchResults (cf_Checks configuration) (cmp_Results c) then (Inl ErrResultMismatch, st)
                  else if at_Status attempt \<noteq> None
                  then (if at_CompletionDigest attempt \<noteq> completionDigest lib c then (Inl ErrAttemptConflict, st) else (Inr attempt, st))
                  else commit_or_rollback (complete_attempt lib c attempt t st) st)))"

end
