(* ===== verification/CheckRuns.thy ===== *)
theory CheckRuns
  imports CheckLeases
begin

text \<open>
  Histories of the check jobs: the operations of the store as one step, what a row may become, and
  what every step keeps.
\<close>

subsection \<open>Steps\<close>

datatype check_op =
    WritePolicy bytes CheckPolicy "ExpectedCheckPolicy option" bool bytes moment
  | GrantConsent bytes "ExpectedCheckPolicy option" moment
  | GrantConsentFor bytes ExpectedCheckPolicy moment
  | RevokeConsent bytes moment
  | SetCeilings CheckCeilings
  | IssueToken bytes bytes bytes bytes moment
  | RevokeToken bytes bytes moment
  | RevokeTokenByCreation bytes bytes int
  | AdmitJob CheckJobRequest bytes moment
  | RerunJob bytes bytes "CheckJobLimits option" bytes moment
  | ClaimJob bytes bytes moment bytes
  | ClaimLocalJob bytes moment bytes
  | StartJob CheckJobStart moment
  | RenewLease CheckJobCompletionAuthority moment
  | ExpireLeases moment
  | FailBeforeStart CheckJobCompletionAuthority job_status bytes moment
  | CancelJob bytes bytes moment
  | RestartServer moment
  | RegisterAttempt CheckAttempt
  | CompleteAttempt CheckCompletion CheckJobCompletionAuthority int

fun check_step :: "CheckLibrary \<Rightarrow> check_op \<Rightarrow> CheckStore \<Rightarrow> CheckStore" where
  "check_step lib (WritePolicy repo c base enable epoch now) st = snd (writeCheckPolicy repo c base enable epoch now st)"
| "check_step lib (GrantConsent repo e now) st = snd (grantCheckConsent repo e now st)"
| "check_step lib (GrantConsentFor repo e now) st = snd (GrantCheckConsentFor repo e now st)"
| "check_step lib (RevokeConsent repo now) st = snd (RevokeCheckConsent repo now st)"
| "check_step lib (SetCeilings c) st = st\<lparr>cs_ceilings := c\<rparr>"
| "check_step lib (IssueToken repo label creation new now) st = snd (IssueCheckRunnerToken repo label creation new now st)"
| "check_step lib (RevokeToken repo c now) st = snd (RevokeCheckRunnerToken repo c now st)"
| "check_step lib (RevokeTokenByCreation repo c t) st = RevokeCheckRunnerTokenByCreation repo c t st"
| "check_step lib (AdmitJob r new now) st = snd (AdmitCheckJob lib r new now st)"
| "check_step lib (RerunJob repo j limits new now) st = snd (RerunCheckJob lib repo j limits new now st)"
| "check_step lib (ClaimJob repo c now lease) st = snd (ClaimCheckJob repo c now lease st)"
| "check_step lib (ClaimLocalJob repo now lease) st = snd (ClaimLocalCheckJob repo now lease st)"
| "check_step lib (StartJob r now) st = snd (StartCheckJob lib r now st)"
| "check_step lib (RenewLease a now) st = snd (RenewCheckJobLease a now st)"
| "check_step lib (ExpireLeases now) st = snd (ExpireCheckJobLeases now st)"
| "check_step lib (FailBeforeStart a s summary now) st = snd (FailCheckJobBeforeStart a s summary now st)"
| "check_step lib (CancelJob repo j now) st = snd (CancelCheckJob repo j now st)"
| "check_step lib (RestartServer now) st = snd (ReconcileCheckJobRestart now st)"
| "check_step lib (RegisterAttempt a) st = snd (RegisterJobAttempt lib a st)"
| "check_step lib (CompleteAttempt c a t) st = snd (CompleteCheckJobAttempt lib c a t st)"

text \<open>The job whose start a step grants.\<close>

fun granted :: "CheckLibrary \<Rightarrow> check_op \<Rightarrow> CheckStore \<Rightarrow> bytes option" where
  "granted lib (StartJob r now) st = (case fst (StartCheckJob lib r now st) of Inr _ \<Rightarrow> Some (sta_JobID r) | Inl _ \<Rightarrow> None)"
| "granted lib op st = None"

fun check_steps :: "CheckLibrary \<Rightarrow> check_op list \<Rightarrow> CheckStore \<Rightarrow> CheckStore" where
  "check_steps lib [] st = st"
| "check_steps lib (op # ops) st = check_steps lib ops (check_step lib op st)"

fun start_grants :: "CheckLibrary \<Rightarrow> check_op list \<Rightarrow> CheckStore \<Rightarrow> bytes list" where
  "start_grants lib [] st = []"
| "start_grants lib (op # ops) st = (case granted lib op st of None \<Rightarrow> [] | Some j \<Rightarrow> [j]) @ start_grants lib ops (check_step lib op st)"

definition empty_store :: "CheckCeilings \<Rightarrow> CheckStore" where
  "empty_store c = \<lparr>cs_policies = Map.empty, cs_credentials = [], cs_jobs = [], cs_tasks = Map.empty, cs_configs = [],
     cs_attempts = [], cs_sequences = (\<lambda>_. 0), cs_ceilings = c\<rparr>"

subsection \<open>What a row may become\<close>

definition attempt_statuses :: "job_status set" where
  "attempt_statuses = {CheckJobPassed, CheckJobFailed, CheckJobError, CheckJobCancelled, CheckJobIncomplete, CheckJobUnavailable}"

inductive moves :: "job_status \<Rightarrow> job_status \<Rightarrow> bool" where
  "s \<in> {CheckJobClaimed, CheckJobCancelled, CheckJobInterrupted} \<Longrightarrow> moves CheckJobPending s"
| "s \<in> {CheckJobStarted, CheckJobAmbiguous, CheckJobInterrupted, CheckJobCancelled, CheckJobUnavailable, CheckJobError} \<Longrightarrow>
    moves CheckJobClaimed s"
| "s \<in> insert CheckJobAmbiguous attempt_statuses \<Longrightarrow> moves CheckJobStarted s"
| "s \<in> attempt_statuses \<Longrightarrow> moves CheckJobAmbiguous s"

inductive_simps moves_simps [simp]:
  "moves CheckJobPending s" "moves CheckJobClaimed s" "moves CheckJobStarted s" "moves CheckJobAmbiguous s"

text \<open>The facts of an admitted job never change.\<close>

definition job_facts where
  "job_facts j = (cj_ID j, cj_RepositoryID j, cj_TaskID j, cj_Trigger j, cj_EventKey j, cj_SourceOID j, cj_BaseOID j,
     cj_PullRequestNumber j, cj_TriggerRef j, cj_WorkflowPath j, cj_WorkflowOID j, cj_WorkflowDigest j,
     cj_ConfigurationVersion j, cj_Executor j, cj_PolicyVersion j, cj_ConsentVersion j, cj_Limits j, cj_Execution j,
     cj_DedupDigest j, cj_RerunRoot j, cj_RerunGeneration j, cj_AdmittedAt j)"

definition final :: "CheckJob \<Rightarrow> bool" where
  "final j \<longleftrightarrow> cj_Status j \<notin> {CheckJobPending, CheckJobClaimed, CheckJobStarted, CheckJobAmbiguous}"

definition row_le :: "CheckJob \<Rightarrow> CheckJob \<Rightarrow> bool" where
  "row_le j k \<longleftrightarrow> job_facts j = job_facts k \<and> moves\<^sup>*\<^sup>* (cj_Status j) (cj_Status k) \<and>
     (cj_ClaimedAt j \<noteq> None \<longrightarrow> cj_ClaimedAt k = cj_ClaimedAt j \<and> cj_CredentialID k = cj_CredentialID j \<and>
       cj_CredentialGeneration k = cj_CredentialGeneration j \<and> cj_CredentialRole k = cj_CredentialRole j) \<and>
     (cj_AttemptID j \<noteq> [] \<longrightarrow> cj_AttemptID k = cj_AttemptID j \<and> cj_StartedAt k = cj_StartedAt j \<and> cj_Protection k = cj_Protection j) \<and>
     (final j \<longrightarrow> k = j)"

text \<open>A row by itself: what its status says about its other columns.\<close>

definition never_started :: "CheckJob \<Rightarrow> bool" where
  "never_started j \<longleftrightarrow> cj_AttemptID j = [] \<and> cj_StartedAt j = None"

definition was_started :: "CheckJob \<Rightarrow> bool" where
  "was_started j \<longleftrightarrow> cj_AttemptID j \<noteq> [] \<and> cj_StartedAt j \<noteq> None \<and> cj_StartedAt j \<noteq> Some 0 \<and> cj_ClaimedAt j \<noteq> None"

definition row_ok :: "CheckJob \<Rightarrow> bool" where
  "row_ok j \<longleftrightarrow>
     (case cj_Status j of
       CheckJobPending \<Rightarrow> never_started j \<and> cj_ClaimedAt j = None \<and> cj_LeaseID j = [] \<and> cj_LeaseExpiresAt j = None \<and>
         cj_FinishedAt j = None \<and> cj_CancelRequestedAt j = None
     | CheckJobClaimed \<Rightarrow> never_started j \<and> cj_ClaimedAt j \<noteq> None \<and> cj_LeaseExpiresAt j \<noteq> None \<and> cj_FinishedAt j = None \<and>
         cj_CancelRequestedAt j = None \<and> cj_CredentialRole j \<noteq> NoRole
     | CheckJobStarted \<Rightarrow> was_started j \<and> cj_LeaseExpiresAt j \<noteq> None \<and> cj_FinishedAt j = None \<and> cj_CredentialRole j \<noteq> NoRole
     | CheckJobAmbiguous \<Rightarrow> (never_started j \<or> was_started j) \<and> cj_LeaseLostAt j \<noteq> None \<and> cj_FinishedAt j = None
     | CheckJobInterrupted \<Rightarrow> never_started j \<and> cj_FinishedAt j \<noteq> None
     | CheckJobPassed \<Rightarrow> was_started j \<and> cj_FinishedAt j \<noteq> None
     | CheckJobFailed \<Rightarrow> was_started j \<and> cj_FinishedAt j \<noteq> None
     | CheckJobIncomplete \<Rightarrow> was_started j \<and> cj_FinishedAt j \<noteq> None
     | _ \<Rightarrow> (never_started j \<or> was_started j) \<and> cj_FinishedAt j \<noteq> None)"

subsection \<open>The store\<close>

definition policy_ok :: "CheckPolicy \<Rightarrow> bool" where
  "policy_ok p \<longleftrightarrow> pol_Version p \<ge> 1 \<and> pol_ConsentVersion p \<ge> 0 \<and> (pol_ConsentActive p \<longrightarrow> \<not> Legacy (pol_Execution p))"

definition policy_le :: "CheckPolicy \<Rightarrow> CheckPolicy \<Rightarrow> bool" where
  "policy_le p q \<longleftrightarrow> pol_Version p \<le> pol_Version q \<and> pol_ConsentVersion p \<le> pol_ConsentVersion q \<and>
     (pol_Version p = pol_Version q \<longrightarrow> pol_Executor q = pol_Executor p \<and> pol_AllowedEvents q = pol_AllowedEvents p \<and>
       pol_Execution q = pol_Execution p \<and> pol_Digest q = pol_Digest p \<and>
       (pol_ConsentVersion p = pol_ConsentVersion q \<longrightarrow> (pol_ConsentActive q \<longrightarrow> pol_ConsentActive p) \<and>
         pol_ConsentDigest q = pol_ConsentDigest p))"

definition admitted_under :: "CheckJob \<Rightarrow> CheckPolicy \<Rightarrow> bool" where
  "admitted_under j p \<longleftrightarrow> cj_PolicyVersion j \<le> pol_Version p \<and> cj_ConsentVersion j \<le> pol_ConsentVersion p \<and>
     (cj_PolicyVersion j = pol_Version p \<longrightarrow> cj_Executor j = pol_Executor p \<and> cj_Execution j = pol_Execution p)"

definition evidenced :: "CheckAttempt list \<Rightarrow> CheckJob \<Rightarrow> bool" where
  "evidenced as j \<longleftrightarrow> (\<exists>a \<in> set as. at_ID a = cj_AttemptID j \<and> at_JobID a = cj_ID j \<and>
     (case at_Status a of None \<Rightarrow> cj_Status j \<in> {CheckJobStarted, CheckJobAmbiguous}
     | Some s \<Rightarrow> cj_Status j = s \<and> s \<in> attempt_statuses))"

definition store_ok :: "CheckStore \<Rightarrow> bool" where
  "store_ok st \<longleftrightarrow> distinct (map cj_ID (cs_jobs st)) \<and> distinct (map (\<lambda>j. (cj_RepositoryID j, cj_DedupDigest j)) (cs_jobs st)) \<and>
     distinct (map at_ID (cs_attempts st)) \<and> (\<forall>repo p. cs_policies st repo = Some p \<longrightarrow> policy_ok p) \<and>
     (\<forall>j \<in> set (cs_jobs st). row_ok j \<and> (\<exists>p. cs_policies st (cj_RepositoryID j) = Some p \<and> admitted_under j p) \<and>
       (cj_AttemptID j \<noteq> [] \<longrightarrow> evidenced (cs_attempts st) j))"

definition jobs_le :: "CheckJob list \<Rightarrow> CheckJob list \<Rightarrow> bool" where
  "jobs_le js ks \<longleftrightarrow> length js \<le> length ks \<and> (\<forall>i < length js. row_le (js ! i) (ks ! i))"

definition store_le :: "CheckStore \<Rightarrow> CheckStore \<Rightarrow> bool" where
  "store_le st st' \<longleftrightarrow> jobs_le (cs_jobs st) (cs_jobs st') \<and>
     (\<forall>repo p. cs_policies st repo = Some p \<longrightarrow> (\<exists>q. cs_policies st' repo = Some q \<and> policy_le p q))"

lemma row_le_refl [simp]: "row_le j j"
  by (simp add: row_le_def)

lemma row_le_trans: "row_le i j \<Longrightarrow> row_le j k \<Longrightarrow> row_le i k"
  unfolding row_le_def by (metis rtranclp_trans)

lemma policy_le_refl [simp]: "policy_le p p"
  by (simp add: policy_le_def)

lemma policy_le_trans: "policy_le p q \<Longrightarrow> policy_le q r \<Longrightarrow> policy_le p r"
  unfolding policy_le_def by (cases "pol_Version p = pol_Version r"; cases "pol_ConsentVersion p = pol_ConsentVersion r") auto

lemma store_le_refl [simp]: "store_le st st"
  by (simp add: store_le_def jobs_le_def)

lemma jobs_le_trans:
  assumes "jobs_le a b" and "jobs_le b c" shows "jobs_le a c"
proof -
  have "row_le (a ! i) (c ! i)" if i: "i < length a" for i
  proof -
    have "row_le (a ! i) (b ! i)" "i < length b" using assms(1) i by (simp_all add: jobs_le_def)
    moreover from this have "row_le (b ! i) (c ! i)" using assms(2) by (simp add: jobs_le_def)
    ultimately show ?thesis using row_le_trans by blast
  qed
  then show ?thesis using assms by (simp add: jobs_le_def)
qed

lemma store_le_trans:
  assumes "store_le a b" and "store_le b c" shows "store_le a c"
proof -
  have "\<exists>r. cs_policies c repo = Some r \<and> policy_le p r" if p: "cs_policies a repo = Some p" for repo p
  proof -
    obtain q where q: "cs_policies b repo = Some q" "policy_le p q" using assms(1) p by (auto simp: store_le_def)
    then obtain r where "cs_policies c repo = Some r" "policy_le q r" using assms(2) by (auto simp: store_le_def)
    then show ?thesis using policy_le_trans [OF q(2)] by blast
  qed
  then show ?thesis using assms jobs_le_trans [of "cs_jobs a" "cs_jobs b" "cs_jobs c"] by (simp add: store_le_def)
qed

lemma store_ok_job:
  assumes "store_ok st" and "j \<in> set (cs_jobs st)"
  shows "row_ok j" "\<exists>p. cs_policies st (cj_RepositoryID j) = Some p \<and> admitted_under j p"
    "cj_AttemptID j \<noteq> [] \<Longrightarrow> evidenced (cs_attempts st) j"
  using assms by (auto simp: store_ok_def)

text \<open>Rows are found by their identity.\<close>

lemma store_ok_distinct: "store_ok st \<Longrightarrow> j \<in> set (cs_jobs st) \<Longrightarrow> k \<in> set (cs_jobs st) \<Longrightarrow> cj_ID j = cj_ID k \<Longrightarrow> j = k"
proof -
  assume "store_ok st" and jk: "j \<in> set (cs_jobs st)" "k \<in> set (cs_jobs st)" "cj_ID j = cj_ID k"
  then have "inj_on cj_ID (set (cs_jobs st))" by (simp add: store_ok_def distinct_map)
  then show ?thesis using jk by (intro inj_onD [of cj_ID])
qed

lemma read_job:
  "readCheckJobTx repo i st = Some j \<Longrightarrow> j \<in> set (cs_jobs st) \<and> cj_ID j = i \<and> cj_RepositoryID j = repo"
  "readCheckJobByIDTx i st = Some j \<Longrightarrow> j \<in> set (cs_jobs st) \<and> cj_ID j = i"
  by (auto simp: readCheckJobTx_def readCheckJobByIDTx_def find_Some_iff)

lemma affected_one:
  assumes "store_ok st" and "j \<in> set (cs_jobs st)" and "P j" and "\<And>k. P k \<Longrightarrow> cj_ID k = cj_ID j"
  shows "affected_jobs P st = 1"
proof -
  have "distinct (cs_jobs st)" using assms(1) by (simp add: store_ok_def distinct_map)
  moreover have "k = j" if "k \<in> set (filter P (cs_jobs st))" for k
    using store_ok_distinct [OF assms(1), of k j] assms(2) assms(4) [of k] that by simp
  then have "set (filter P (cs_jobs st)) \<subseteq> {j}" by blast
  moreover have "j \<in> set (filter P (cs_jobs st))" using assms(2,3) by simp
  ultimately have "set (filter P (cs_jobs st)) = {j}" "distinct (filter P (cs_jobs st))" by (blast, simp)
  then show ?thesis using distinct_card [of "filter P (cs_jobs st)"] by (simp add: affected_jobs_def)
qed

lemma update_fields [simp]:
  "cs_jobs (update_jobs P f st) = map (\<lambda>j. if P j then f j else j) (cs_jobs st)"
  "cs_attempts (update_jobs P f st) = cs_attempts st" "cs_policies (update_jobs P f st) = cs_policies st"
  "cs_credentials (update_jobs P f st) = cs_credentials st" "cs_configs (update_jobs P f st) = cs_configs st"
  "cs_tasks (update_jobs P f st) = cs_tasks st"
  by (simp_all add: update_jobs_def)

text \<open>An update that keeps the rows in order and says nothing about attempts.\<close>

definition quiet :: "(CheckJob \<Rightarrow> bool) \<Rightarrow> (CheckJob \<Rightarrow> CheckJob) \<Rightarrow> bool" where
  "quiet P f \<longleftrightarrow> (\<forall>j. P j \<longrightarrow> row_ok j \<longrightarrow> row_le j (f j) \<and> row_ok (f j) \<and> cj_AttemptID (f j) = cj_AttemptID j \<and>
     (cj_AttemptID j \<noteq> [] \<longrightarrow> cj_Status j \<in> {CheckJobStarted, CheckJobAmbiguous} \<and> cj_Status (f j) \<in> {CheckJobStarted, CheckJobAmbiguous}))"

lemma row_le_facts: "row_le j k \<Longrightarrow> job_facts j = job_facts k"
  by (simp add: row_le_def)

lemma facts_simps:
  assumes "job_facts j = job_facts k"
  shows "cj_ID j = cj_ID k" "cj_RepositoryID j = cj_RepositoryID k" "cj_DedupDigest j = cj_DedupDigest k"
    "cj_PolicyVersion j = cj_PolicyVersion k" "cj_ConsentVersion j = cj_ConsentVersion k" "cj_Executor j = cj_Executor k"
    "cj_Execution j = cj_Execution k" "cj_Trigger j = cj_Trigger k" "cj_AdmittedAt j = cj_AdmittedAt k"
  using assms by (simp_all add: job_facts_def)

lemma admitted_under_facts: "job_facts j = job_facts k \<Longrightarrow> admitted_under j p = admitted_under k p"
  using facts_simps(4-7) [of j k] by (simp add: admitted_under_def)

lemma authority_facts: "job_facts j = job_facts k \<Longrightarrow> checkJobAuthorityCurrent j p = checkJobAuthorityCurrent k p"
  using facts_simps(4-8) [of j k] by (simp add: checkJobAuthorityCurrent_def)

lemma update_quiet:
  assumes "store_ok st" and "quiet P f"
  shows "store_ok (update_jobs P f st)" "store_le st (update_jobs P f st)"
proof -
  let ?g = "\<lambda>j. if P j then f j else j"
  have g: "row_le j (?g j)" "row_ok (?g j)" "cj_AttemptID (?g j) = cj_AttemptID j"
    "cj_AttemptID j \<noteq> [] \<Longrightarrow> ?g j = j \<or> cj_Status j \<in> {CheckJobStarted, CheckJobAmbiguous} \<and> cj_Status (?g j) \<in> {CheckJobStarted, CheckJobAmbiguous}"
    if "j \<in> set (cs_jobs st)" for j
    using assms(2) store_ok_job(1) [OF assms(1) that] by (auto simp: quiet_def)
  have facts: "job_facts (?g j) = job_facts j" if "j \<in> set (cs_jobs st)" for j using g(1) [OF that] by (simp add: row_le_def)
  have ids: "map cj_ID (map ?g (cs_jobs st)) = map cj_ID (cs_jobs st)"
    "map (\<lambda>j. (cj_RepositoryID j, cj_DedupDigest j)) (map ?g (cs_jobs st)) = map (\<lambda>j. (cj_RepositoryID j, cj_DedupDigest j)) (cs_jobs st)"
    using facts_simps [OF facts] by (simp_all add: o_def cong: map_cong)
  have ev: "evidenced (cs_attempts st) (?g j)" if j: "j \<in> set (cs_jobs st)" "cj_AttemptID (?g j) \<noteq> []" for j
  proof -
    have ne: "cj_AttemptID j \<noteq> []" using j g(3) by metis
    then obtain a where a: "a \<in> set (cs_attempts st)" "at_ID a = cj_AttemptID j" "at_JobID a = cj_ID j"
      "case at_Status a of None \<Rightarrow> cj_Status j \<in> {CheckJobStarted, CheckJobAmbiguous} | Some s \<Rightarrow> cj_Status j = s \<and> s \<in> attempt_statuses"
      using store_ok_job(3) [OF assms(1) j(1)] by (auto simp: evidenced_def)
    from g(4) [OF j(1) ne] show ?thesis
    proof
      assume "?g j = j"
      then show ?thesis using store_ok_job(3) [OF assms(1) j(1) ne] by simp
    next
      assume s: "cj_Status j \<in> {CheckJobStarted, CheckJobAmbiguous} \<and> cj_Status (?g j) \<in> {CheckJobStarted, CheckJobAmbiguous}"
      have "at_Status a = None" using a(4) s by (auto simp: attempt_statuses_def split: option.splits)
      then show ?thesis unfolding evidenced_def using a s g(3) [OF j(1)] facts_simps(1) [OF facts [OF j(1)]] by (intro bexI [of _ a]) auto
    qed
  qed
  show "store_ok (update_jobs P f st)"
    unfolding store_ok_def update_fields ids
  proof (intro conjI)
    show "\<forall>j \<in> set (map ?g (cs_jobs st)). row_ok j \<and> (\<exists>p. cs_policies st (cj_RepositoryID j) = Some p \<and> admitted_under j p) \<and>
        (cj_AttemptID j \<noteq> [] \<longrightarrow> evidenced (cs_attempts st) j)"
    proof (intro ballI)
      fix k assume "k \<in> set (map ?g (cs_jobs st))"
      then obtain j where j: "j \<in> set (cs_jobs st)" "k = ?g j" by auto
      show "row_ok k \<and> (\<exists>p. cs_policies st (cj_RepositoryID k) = Some p \<and> admitted_under k p) \<and>
          (cj_AttemptID k \<noteq> [] \<longrightarrow> evidenced (cs_attempts st) k)"
        using g(2) [OF j(1)] ev [OF j(1)] store_ok_job(2) [OF assms(1) j(1)]
          facts_simps(2) [OF facts [OF j(1)]] admitted_under_facts [OF facts [OF j(1)]] unfolding j(2) by metis
    qed
  qed (use assms(1) in \<open>simp_all add: store_ok_def\<close>)
  show "store_le st (update_jobs P f st)"
    unfolding store_le_def update_fields jobs_le_def using g(1) by simp
qed

end
