(* ===== verification/CheckSteps.thy ===== *)
theory CheckSteps
  imports CheckRuns
begin

text \<open>
  Every operation on the check jobs keeps the invariant of the store and only moves rows forward.
\<close>

subsection \<open>Rows that an operation changes\<close>

named_theorems row_defs

lemmas [row_defs] = row_le_def row_ok_def job_facts_def never_started_def was_started_def final_def active_def

lemma moves_once: "moves s s' \<Longrightarrow> moves\<^sup>*\<^sup>* s s'"
  by blast

lemma quietI:
  assumes st: "\<And>j. P j \<Longrightarrow> cj_Status j \<in> S"
    and "\<And>j. cj_Status j \<in> S \<Longrightarrow> row_ok j \<Longrightarrow> cj_Status j \<in> {CheckJobPending, CheckJobClaimed, CheckJobStarted, CheckJobAmbiguous} \<and>
      (cj_Status (f j) = cj_Status j \<or> moves (cj_Status j) (cj_Status (f j)))"
    and "\<And>j. cj_Status j \<in> S \<Longrightarrow> row_ok j \<Longrightarrow> job_facts (f j) = job_facts j \<and> cj_AttemptID (f j) = cj_AttemptID j \<and>
      cj_StartedAt (f j) = cj_StartedAt j \<and> cj_Protection (f j) = cj_Protection j"
    and "\<And>j. cj_Status j \<in> S \<Longrightarrow> row_ok j \<Longrightarrow> cj_ClaimedAt j \<noteq> None \<Longrightarrow> cj_ClaimedAt (f j) = cj_ClaimedAt j \<and>
      cj_CredentialID (f j) = cj_CredentialID j \<and> cj_CredentialGeneration (f j) = cj_CredentialGeneration j \<and>
      cj_CredentialRole (f j) = cj_CredentialRole j"
    and "\<And>j. cj_Status j \<in> S \<Longrightarrow> row_ok j \<Longrightarrow> row_ok (f j)"
    and "\<And>j. cj_Status j \<in> S \<Longrightarrow> row_ok j \<Longrightarrow> cj_AttemptID j \<noteq> [] \<Longrightarrow> cj_Status (f j) \<in> {CheckJobStarted, CheckJobAmbiguous}"
  shows "quiet P f"
  unfolding quiet_def
proof (intro allI impI)
  fix j assume j: "P j" "row_ok j"
  note * = assms(2,3,5) [OF st [OF j(1)] j(2)] assms(4) [OF st [OF j(1)] j(2)] assms(6) [OF st [OF j(1)] j(2)]
  have "cj_AttemptID j \<noteq> [] \<Longrightarrow> cj_Status j \<in> {CheckJobStarted, CheckJobAmbiguous}"
    using *(1) j(2) by (auto simp: row_ok_def never_started_def)
  moreover have "row_le j (f j)" using * by (auto simp: row_le_def final_def)
  ultimately show "row_le j (f j) \<and> row_ok (f j) \<and> cj_AttemptID (f j) = cj_AttemptID j \<and>
      (cj_AttemptID j \<noteq> [] \<longrightarrow> cj_Status j \<in> {CheckJobStarted, CheckJobAmbiguous} \<and> cj_Status (f j) \<in> {CheckJobStarted, CheckJobAmbiguous})"
    using * by blast
qed

lemma quiet_interrupted: "(\<And>j. P j \<Longrightarrow> cj_Status j \<in> {CheckJobPending, CheckJobClaimed}) \<Longrightarrow> quiet P (interrupted t s)"
  by (rule quietI, assumption) (auto simp: interrupted_def row_defs)

lemma quiet_claimed: "(\<And>j. P j \<Longrightarrow> cj_Status j \<in> {CheckJobPending}) \<Longrightarrow> snd (snd holder) \<noteq> NoRole \<Longrightarrow> quiet P (claimed t ms lease holder)"
  by (rule quietI, assumption) (auto simp: claimed_def row_defs split: prod.splits)

lemma quiet_lost: "(\<And>j. P j \<Longrightarrow> cj_Status j \<in> {CheckJobClaimed}) \<Longrightarrow> quiet P (lost_lease at)"
  by (rule quietI, assumption) (auto simp: lost_lease_def row_defs)

lemma quiet_expired: "(\<And>j. P j \<Longrightarrow> cj_Status j \<in> {CheckJobClaimed, CheckJobStarted}) \<Longrightarrow> quiet P (\<lambda>j. j\<lparr>cj_Status := CheckJobAmbiguous, cj_LeaseLostAt := cj_LeaseExpiresAt j\<rparr>)"
  by (rule quietI, assumption) (auto simp: row_defs)

lemma quiet_restarted:
  "(\<And>j. P j \<Longrightarrow> cj_Status j \<in> {CheckJobStarted}) \<Longrightarrow> quiet P (\<lambda>j. j\<lparr>cj_Status := CheckJobAmbiguous, cj_LeaseLostAt := Some t, cj_Summary := s\<rparr>)"
  by (rule quietI, assumption) (auto simp: row_defs)

lemma quiet_renewed: "(\<And>j. P j \<Longrightarrow> cj_Status j \<in> {CheckJobClaimed, CheckJobStarted}) \<Longrightarrow> quiet P (\<lambda>j. j\<lparr>cj_LeaseExpiresAt := Some e\<rparr>)"
  by (rule quietI, assumption) (auto simp: row_defs)

lemma quiet_failed:
  "(\<And>j. P j \<Longrightarrow> cj_Status j \<in> {CheckJobClaimed}) \<Longrightarrow> s \<in> {CheckJobUnavailable, CheckJobError, CheckJobInterrupted} \<Longrightarrow>
   quiet P (\<lambda>j. j\<lparr>cj_Status := s, cj_FinishedAt := Some t, cj_Summary := summary\<rparr>)"
  by (rule quietI, assumption) (auto simp: row_defs)

lemma quiet_cancelled:
  "(\<And>j. P j \<Longrightarrow> cj_Status j \<in> {CheckJobPending, CheckJobClaimed}) \<Longrightarrow>
   quiet P (\<lambda>j. j\<lparr>cj_Status := CheckJobCancelled, cj_CancelRequestedAt := Some t, cj_FinishedAt := Some t, cj_Summary := summary\<rparr>)"
  by (rule quietI, assumption) (auto simp: row_defs)

lemma quiet_requested:
  "(\<And>j. P j \<Longrightarrow> cj_Status j \<in> {CheckJobStarted, CheckJobAmbiguous}) \<Longrightarrow>
   quiet P (\<lambda>j. j\<lparr>cj_CancelRequestedAt := Some t, cj_Summary := summary\<rparr>)"
  by (rule quietI, assumption) (auto simp: row_defs)

subsection \<open>Operations on policies and credentials\<close>

definition step_ok :: "CheckStore \<Rightarrow> CheckStore \<Rightarrow> bool" where
  "step_ok st st' \<longleftrightarrow> store_ok st' \<and> store_le st st'"

lemma step_ok_refl: "store_ok st \<Longrightarrow> step_ok st st"
  by (simp add: step_ok_def)

lemma step_ok_trans: "step_ok a b \<Longrightarrow> step_ok b c \<Longrightarrow> step_ok a c"
  unfolding step_ok_def using store_le_trans by blast

lemma step_quiet: "store_ok st \<Longrightarrow> quiet P f \<Longrightarrow> step_ok st (update_jobs P f st)"
  using update_quiet [of st P f] by (simp add: step_ok_def)

text \<open>Parts of the store that the invariant does not mention.\<close>

lemma step_credentials: "store_ok st \<Longrightarrow> step_ok st (st\<lparr>cs_credentials := cs\<rparr>)"
  by (simp add: step_ok_def store_ok_def store_le_def jobs_le_def)

lemma step_other: "store_ok st \<Longrightarrow> cs_jobs st' = cs_jobs st \<Longrightarrow> cs_attempts st' = cs_attempts st \<Longrightarrow> cs_policies st' = cs_policies st \<Longrightarrow> step_ok st st'"
  by (simp add: step_ok_def store_ok_def store_le_def jobs_le_def)

lemma admitted_under_le: "admitted_under j p \<Longrightarrow> policy_le p q \<Longrightarrow> admitted_under j q"
  by (auto simp: admitted_under_def policy_le_def)

lemma step_policy:
  assumes "store_ok st" and "policy_ok q" and "\<And>p. cs_policies st repo = Some p \<Longrightarrow> policy_le p q"
  shows "step_ok st (st\<lparr>cs_policies := (cs_policies st)(repo \<mapsto> q)\<rparr>)"
proof -
  have "\<exists>p. ((cs_policies st)(repo \<mapsto> q)) (cj_RepositoryID j) = Some p \<and> admitted_under j p" if "j \<in> set (cs_jobs st)" for j
    using store_ok_job(2) [OF assms(1) that] assms(3) admitted_under_le by fastforce
  then show ?thesis
    using assms by (auto simp: step_ok_def store_ok_def store_le_def jobs_le_def)
qed

lemma interrupt_step:
  assumes "store_ok st" and "interruptCheckJobTx job t s st = Inr st1" and "cj_Status job \<in> {CheckJobPending, CheckJobClaimed}"
  shows "step_ok st st1"
proof -
  have "quiet (\<lambda>j. cj_ID j = cj_ID job \<and> cj_Status j = cj_Status job) (interrupted t s)"
    by (rule quiet_interrupted) (use assms(3) in auto)
  then show ?thesis using assms(2) step_quiet [OF assms(1)] by (auto simp: interruptCheckJobTx_def Let_def split: if_splits)
qed

lemma interrupt_all_step:
  "store_ok st \<Longrightarrow> \<forall>j \<in> set js. cj_Status j \<in> {CheckJobPending, CheckJobClaimed} \<Longrightarrow> interrupt_all js t st = Inr st1 \<Longrightarrow> step_ok st st1"
proof (induction js arbitrary: st)
  case Nil
  then show ?case by (simp add: step_ok_refl)
next
  case (Cons j js)
  then obtain st2 where st2: "interruptCheckJobTx j t authority_changed st = Inr st2" "interrupt_all js t st2 = Inr st1"
    by (auto split: sum.splits)
  have "step_ok st st2" using interrupt_step [OF Cons.prems(1) st2(1)] Cons.prems(2) by simp
  moreover from this have "step_ok st2 st1" using Cons.IH [OF _ _ st2(2)] Cons.prems(2) by (simp add: step_ok_def)
  ultimately show ?case by (rule step_ok_trans)
qed

lemma set_insert_before [simp]: "set (insert_before r x xs) = insert x (set xs)"
  by (induction xs) auto

lemma set_in_order [simp]: "set (in_order r xs) = set xs"
  by (induction xs) (auto simp: in_order_def)

lemma stale_step:
  assumes "store_ok st" and "interruptStalePendingCheckJobsTx repo p t st = Inr st1"
  shows "step_ok st st1"
  using assms(2) unfolding interruptStalePendingCheckJobsTx_def by (rule interrupt_all_step [OF assms(1), rotated]) auto

lemma commit_step: "store_ok st \<Longrightarrow> (\<And>a st1. r = Inr (a, st1) \<Longrightarrow> step_ok st st1) \<Longrightarrow> step_ok st (snd (commit_or_rollback r st))"
  by (auto simp: commit_or_rollback_def step_ok_refl split: sum.splits)

lemma grant_step:
  assumes "store_ok st" and "grantCheckConsentTx repo e st = Inr (p, st1)"
  shows "step_ok st st1"
proof -
  obtain q where q: "cs_policies st repo = Some q" using assms(2) by (auto simp: grantCheckConsentTx_def split: option.splits)
  then have "policy_ok q" using assms(1) by (auto simp: store_ok_def)
  then show ?thesis
    using assms q
    by (auto simp: grantCheckConsentTx_def policy_ok_def policy_le_def Let_def split: if_splits intro!: step_policy step_ok_refl)
qed

lemma revoke_consent_step: "store_ok st \<Longrightarrow> step_ok st (snd (RevokeCheckConsent repo now st))"
proof -
  assume ok: "store_ok st"
  have "step_ok st st2"
    if "cs_policies st repo = Some p" "interruptStalePendingCheckJobsTx repo q t (st\<lparr>cs_policies := (cs_policies st)(repo \<mapsto> q)\<rparr>) = Inr st2"
      "q = p\<lparr>pol_ConsentActive := False\<rparr>" for p q t st2
  proof -
    have "policy_ok p" using ok that(1) by (auto simp: store_ok_def)
    then have *: "step_ok st (st\<lparr>cs_policies := (cs_policies st)(repo \<mapsto> q)\<rparr>)"
      using that by (intro step_policy [OF ok]) (auto simp: policy_ok_def policy_le_def)
    then have "store_ok (st\<lparr>cs_policies := (cs_policies st)(repo \<mapsto> q)\<rparr>)" by (simp add: step_ok_def)
    from step_ok_trans [OF * stale_step [OF this that(2)]] show ?thesis .
  qed
  then show ?thesis
    by (auto simp: RevokeCheckConsent_def Let_def step_ok_refl [OF ok] split: option.splits sum.splits intro!: commit_step [OF ok])
qed

lemma replace_step:
  assumes "store_ok st" and "replace_policy repo c epoch t st = Inr (q, st1)"
  shows "step_ok st st1"
proof (cases "cs_policies st repo")
  case None
  then show ?thesis
    using assms(2) by (auto simp: replace_policy_def Let_def policy_ok_def intro!: step_policy [OF assms(1)])
next
  case (Some p)
  then have p: "policy_ok p" using assms(1) by (auto simp: store_ok_def)
  show ?thesis
  proof (cases "pol_Digest p = pol_Digest c")
    case True
    then show ?thesis using assms Some by (simp add: replace_policy_def step_ok_refl)
  next
    case False
    let ?q = "c\<lparr>pol_Version := pol_Version p + 1, pol_AuthorityEpoch := pol_AuthorityEpoch p,
      pol_ConsentVersion := pol_ConsentVersion p, pol_ConsentDigest := pol_ConsentDigest p,
      pol_ConsentActive := False, pol_RunnerGeneration := pol_RunnerGeneration p\<rparr>"
    let ?st = "st\<lparr>cs_policies := (cs_policies st)(repo \<mapsto> ?q)\<rparr>"
    have *: "step_ok st ?st" using p Some by (intro step_policy [OF assms(1)]) (auto simp: policy_ok_def policy_le_def)
    have "interruptStalePendingCheckJobsTx repo ?q t ?st = Inr st1"
      using assms(2) Some False by (auto simp: replace_policy_def Let_def split: sum.splits)
    then show ?thesis using step_ok_trans [OF *] stale_step [of ?st] * by (simp add: step_ok_def)
  qed
qed

lemma write_policy_step: "store_ok st \<Longrightarrow> step_ok st (snd (writeCheckPolicy repo c base enable epoch now st))"
proof -
  assume ok: "store_ok st"
  have "step_ok st st2"
    if "replace_policy repo c epoch t st = Inr (q, st1)" "grantCheckConsentTx repo e st1 = Inr (q2, st2)" for t q st1 e q2 st2
    using replace_step [OF ok that(1)] grant_step [OF _ that(2)] step_ok_trans by (auto simp: step_ok_def)
  then show ?thesis
    using replace_step [OF ok]
    by (auto simp: writeCheckPolicy_def Let_def step_ok_refl [OF ok] split: option.splits sum.splits prod.splits if_splits
        intro!: commit_step [OF ok])
qed

lemma consent_steps:
  assumes "store_ok st"
  shows "step_ok st (snd (grantCheckConsent repo e now st))" "step_ok st (snd (GrantCheckConsentFor repo e' now st))"
proof -
  show 1: "step_ok st (snd (grantCheckConsent repo e now st))" for e
    using grant_step [OF assms] by (auto simp: grantCheckConsent_def step_ok_refl [OF assms] intro!: commit_step [OF assms])
  then show "step_ok st (snd (GrantCheckConsentFor repo e' now st))" by (simp add: GrantCheckConsentFor_def step_ok_refl [OF assms])
qed

lemma issue_step: "store_ok st \<Longrightarrow> step_ok st (snd (IssueCheckRunnerToken repo label creation new now st))"
proof -
  assume ok: "store_ok st"
  have "step_ok st (st\<lparr>cs_policies := (cs_policies st)(repo \<mapsto> p\<lparr>pol_RunnerGeneration := n\<rparr>), cs_credentials := cs\<rparr>)"
    if "cs_policies st repo = Some p" for p n cs
  proof -
    let ?st = "st\<lparr>cs_policies := (cs_policies st)(repo \<mapsto> p\<lparr>pol_RunnerGeneration := n\<rparr>)\<rparr>"
    have "policy_ok p" using ok that by (auto simp: store_ok_def)
    then have "step_ok st ?st" using that by (intro step_policy [OF ok]) (auto simp: policy_ok_def policy_le_def)
    moreover from this have "step_ok ?st (?st\<lparr>cs_credentials := cs\<rparr>)" by (intro step_credentials) (simp add: step_ok_def)
    ultimately show ?thesis using step_ok_trans by fastforce
  qed
  then show ?thesis by (auto simp: IssueCheckRunnerToken_def Let_def step_ok_refl [OF ok] split: option.splits)
qed

lemma revoke_token_steps:
  assumes "store_ok st"
  shows "step_ok st (snd (RevokeCheckRunnerToken repo c now st))" "step_ok st (RevokeCheckRunnerTokenByCreation repo c t st)"
proof -
  have "step_ok st (interrupt_claims_of repo i t (revoke_where P t st))" for i P t
  proof -
    have *: "step_ok st (revoke_where P t st)" unfolding revoke_where_def by (rule step_credentials [OF assms])
    then have "store_ok (revoke_where P t st)" by (simp add: step_ok_def)
    then have "step_ok (revoke_where P t st) (interrupt_claims_of repo i t (revoke_where P t st))"
      unfolding interrupt_claims_of_def by (intro step_quiet quiet_interrupted) auto
    with * show ?thesis by (rule step_ok_trans)
  qed
  then show "step_ok st (snd (RevokeCheckRunnerToken repo c now st))" "step_ok st (RevokeCheckRunnerTokenByCreation repo c t st)"
    by (auto simp: RevokeCheckRunnerToken_def RevokeCheckRunnerTokenByCreation_def Let_def step_ok_refl [OF assms] split: option.splits)
qed

subsection \<open>Operations on jobs\<close>

lemma ensure_config_other:
  "cs_jobs (snd (ensureCheckConfiguration lib repo checks st)) = cs_jobs st"
  "cs_attempts (snd (ensureCheckConfiguration lib repo checks st)) = cs_attempts st"
  "cs_policies (snd (ensureCheckConfiguration lib repo checks st)) = cs_policies st"
  by (simp_all add: ensureCheckConfiguration_def Let_def split: option.split)

lemma ensure_task_other:
  "ensureAutomaticCheckTaskTx repo task st = Inr st1 \<Longrightarrow>
   cs_jobs st1 = cs_jobs st \<and> cs_attempts st1 = cs_attempts st \<and> cs_policies st1 = cs_policies st"
  by (auto simp: ensureAutomaticCheckTaskTx_def split: option.splits if_splits)

text \<open>A new row at the end.\<close>

lemma step_new_job:
  assumes "store_ok st" and "row_ok j" and "cj_AttemptID j = []"
    and "cs_policies st (cj_RepositoryID j) = Some p" and "admitted_under j p"
    and "cj_ID j \<notin> cj_ID ` set (cs_jobs st)" and "\<forall>k \<in> set (cs_jobs st). cj_RepositoryID k = cj_RepositoryID j \<longrightarrow> cj_DedupDigest k \<noteq> cj_DedupDigest j"
  shows "step_ok st (st\<lparr>cs_jobs := cs_jobs st @ [j]\<rparr>)"
proof -
  have "(cj_RepositoryID j, cj_DedupDigest j) \<notin> (\<lambda>k. (cj_RepositoryID k, cj_DedupDigest k)) ` set (cs_jobs st)"
    using assms(7) by auto
  then have "store_ok (st\<lparr>cs_jobs := cs_jobs st @ [j]\<rparr>)" using assms by (auto simp: store_ok_def)
  moreover have "store_le st (st\<lparr>cs_jobs := cs_jobs st @ [j]\<rparr>)" by (simp add: store_le_def jobs_le_def nth_append)
  ultimately show ?thesis by (simp add: step_ok_def)
qed

lemma admitted_job_simps:
  "cj_ID (admitted_job lib r p config new t) = new" "cj_RepositoryID (admitted_job lib r p config new t) = req_RepositoryID r"
  "cj_AttemptID (admitted_job lib r p config new t) = []" "row_ok (admitted_job lib r p config new t)"
  "admitted_under (admitted_job lib r p config new t) p" "cj_Status (admitted_job lib r p config new t) = CheckJobPending"
  by (simp_all add: admitted_job_def Let_def row_ok_def never_started_def admitted_under_def)

lemma admit_cases:
  assumes "admitCheckJobTx lib r new t st = Inr ((j, old), st1)"
  obtains p config st2 where "cs_policies st (req_RepositoryID r) = Some p" "checkConsentCurrent p"
    "cs_jobs st2 = cs_jobs st" "cs_attempts st2 = cs_attempts st" "cs_policies st2 = cs_policies st"
    "old \<Longrightarrow> st1 = st2"
    "\<not> old \<Longrightarrow> j = admitted_job lib r p config new t \<and> st1 = st2\<lparr>cs_jobs := cs_jobs st2 @ [j]\<rparr> \<and>
      readCheckJobByDedupTx (req_RepositoryID r) (cj_DedupDigest j) st2 = None \<and> new \<notin> cj_ID ` set (cs_jobs st2) \<and>
      countUnfinishedCheckJobsTx (req_RepositoryID r) st2 < pol_QueueLimit p"
proof -
  obtain p where p: "cs_policies st (req_RepositoryID r) = Some p" "checkConsentCurrent p"
    using assms by (auto simp: admitCheckJobTx_def split: option.splits if_splits)
  obtain st0 where st0: "ensureAutomaticCheckTaskTx (req_RepositoryID r) (automaticCheckTaskID lib r) st = Inr st0"
    using assms by (auto simp: admitCheckJobTx_def split: option.splits if_splits sum.splits)
  obtain config st2 where st2: "ensureCheckConfiguration lib (req_RepositoryID r) (req_Checks r) st0 = (config, st2)" by fastforce
  have same: "cs_jobs st2 = cs_jobs st" "cs_attempts st2 = cs_attempts st" "cs_policies st2 = cs_policies st"
    using ensure_config_other [of lib "req_RepositoryID r" "req_Checks r" st0] ensure_task_other [OF st0] st2 by auto
  show ?thesis
    by (rule that [OF p same])
      (use assms p st0 st2 in \<open>auto simp: admitCheckJobTx_def Let_def list_ex_iff not_le split: option.splits if_splits prod.splits\<close>)
qed

lemma admit_tx_step: "store_ok st \<Longrightarrow> admitCheckJobTx lib r new t st = Inr (x, st1) \<Longrightarrow> step_ok st st1"
proof -
  assume ok: "store_ok st" and "admitCheckJobTx lib r new t st = Inr (x, st1)"
  then obtain j old where x: "admitCheckJobTx lib r new t st = Inr ((j, old), st1)" by (cases x) auto
  from admit_cases [OF x] obtain p config st2 where p: "cs_policies st (req_RepositoryID r) = Some p"
    and same: "cs_jobs st2 = cs_jobs st" "cs_attempts st2 = cs_attempts st" "cs_policies st2 = cs_policies st"
    and old: "old \<Longrightarrow> st1 = st2"
    and new: "\<not> old \<Longrightarrow> j = admitted_job lib r p config new t \<and> st1 = st2\<lparr>cs_jobs := cs_jobs st2 @ [j]\<rparr> \<and>
      readCheckJobByDedupTx (req_RepositoryID r) (cj_DedupDigest j) st2 = None \<and> new \<notin> cj_ID ` set (cs_jobs st2)"
    by metis
  have st2: "step_ok st st2" by (rule step_other [OF ok same])
  show ?thesis
  proof (cases old)
    case True
    then show ?thesis using st2 old by simp
  next
    case False
    let ?j = "admitted_job lib r p config new t"
    have st1: "st1 = st2\<lparr>cs_jobs := cs_jobs st2 @ [?j]\<rparr>" using new [OF False] by simp
    have "step_ok st2 st1"
      unfolding st1
    proof (rule step_new_job [of st2 ?j p])
      show "\<forall>k \<in> set (cs_jobs st2). cj_RepositoryID k = cj_RepositoryID ?j \<longrightarrow> cj_DedupDigest k \<noteq> cj_DedupDigest ?j"
        using new [OF False] by (auto simp: readCheckJobByDedupTx_def find_None_iff admitted_job_simps)
    qed (use new [OF False] st2 p same in \<open>simp_all add: admitted_job_simps step_ok_def\<close>)
    with st2 show ?thesis by (rule step_ok_trans)
  qed
qed

lemma admit_steps:
  assumes "store_ok st"
  shows "step_ok st (snd (AdmitCheckJob lib r new now st))" "step_ok st (snd (RerunCheckJob lib repo i limits new now st))"
proof -
  have "step_ok st (snd (commit_or_rollback (admitCheckJobTx lib r new t st) st))" for r t
    by (rule commit_step [OF assms]) (rule admit_tx_step [OF assms])
  then show "step_ok st (snd (AdmitCheckJob lib r new now st))" "step_ok st (snd (RerunCheckJob lib repo i limits new now st))"
    by (simp_all add: AdmitCheckJob_def RerunCheckJob_def Let_def step_ok_refl [OF assms] split: option.split)
qed

lemma first_of_in: "first_of xs = Some x \<Longrightarrow> x \<in> set xs"
  by (cases xs) (auto simp: first_of_def)

lemma oldest_pending: "oldestPendingCheckJobTx repo st = Some j \<Longrightarrow> j \<in> set (cs_jobs st) \<and> cj_RepositoryID j = repo \<and> cj_Status j = CheckJobPending"
  unfolding oldestPendingCheckJobTx_def by (drule first_of_in) simp

lemma claim_queue_step:
  assumes "store_ok st" and "snd (snd holder) \<noteq> NoRole" and "claim_from_queue repo p holder t lease st = Inr (x, st1)"
  shows "step_ok st st1"
proof -
  obtain st2 where st2: "interruptStalePendingCheckJobsTx repo p t st = Inr st2"
    using assms(3) by (auto simp: claim_from_queue_def split: sum.splits)
  have s: "step_ok st st2" by (rule stale_step [OF assms(1) st2])
  then have ok2: "store_ok st2" by (simp add: step_ok_def)
  have "step_ok st2 (update_jobs (\<lambda>j. cj_ID j = i \<and> cj_Status j = CheckJobPending) (claimed t m lease holder) st2)" for i m
    by (rule step_quiet [OF ok2]) (rule quiet_claimed, use assms(2) in auto)
  then show ?thesis
    using assms(3) s step_ok_trans [OF s] step_ok_refl [OF assms(1)]
    by (auto simp: claim_from_queue_def st2 Let_def split: option.splits if_splits)
qed

lemma claim_steps:
  assumes "store_ok st"
  shows "step_ok st (snd (ClaimCheckJob repo c now lease st))" "step_ok st (snd (ClaimLocalCheckJob repo now lease st))"
proof -
  have "step_ok st (snd (claimCheckJob repo c role t lease st))" for c role t
  proof -
    have "step_ok st (snd (commit_or_rollback (claim_from_queue repo p (i, g, k) t lease st) st))" if "k \<noteq> NoRole" for p i g k
      by (rule commit_step [OF assms]) (rule claim_queue_step [OF assms], use that in auto)
    then show ?thesis by (simp add: claimCheckJob_def Let_def step_ok_refl [OF assms] split: option.split runner_role.split)
  qed
  then show "step_ok st (snd (ClaimCheckJob repo c now lease st))" "step_ok st (snd (ClaimLocalCheckJob repo now lease st))"
    by (simp_all add: ClaimCheckJob_def ClaimLocalCheckJob_def step_ok_refl [OF assms])
qed

lemma renew_step: "store_ok st \<Longrightarrow> step_ok st (snd (RenewCheckJobLease a now st))"
proof -
  assume ok: "store_ok st"
  have "step_ok st (update_jobs (\<lambda>j. cj_ID j = i \<and> active j) (\<lambda>j. j\<lparr>cj_Status := CheckJobAmbiguous, cj_LeaseLostAt := cj_LeaseExpiresAt j\<rparr>) st)" for i
    by (rule step_quiet [OF ok]) (rule quiet_expired, simp add: active_def)
  moreover have "step_ok st (update_jobs (\<lambda>j. cj_ID j = i \<and> cj_Status j = s \<and> cj_LeaseID j = l) (\<lambda>j. j\<lparr>cj_LeaseExpiresAt := Some e\<rparr>) st)"
    if "s \<in> {CheckJobClaimed, CheckJobStarted}" for i s l e
    by (rule step_quiet [OF ok]) (rule quiet_renewed, use that in auto)
  ultimately show ?thesis
    by (auto simp: RenewCheckJobLease_def Let_def step_ok_refl [OF ok] active_def split: option.splits)
qed

lemma other_steps:
  assumes "store_ok st"
  shows "step_ok st (snd (ExpireCheckJobLeases now st))" "step_ok st (snd (FailCheckJobBeforeStart a s summary now st))"
    "step_ok st (snd (CancelCheckJob repo i now st))"
proof -
  have "quiet (\<lambda>j. active j \<and> Q j) (\<lambda>j. j\<lparr>cj_Status := CheckJobAmbiguous, cj_LeaseLostAt := cj_LeaseExpiresAt j\<rparr>)" for Q
    by (rule quiet_expired) (simp add: active_def)
  note expired = step_quiet [OF assms this]
  show "step_ok st (snd (ExpireCheckJobLeases now st))"
    unfolding ExpireCheckJobLeases_def Let_def by (cases now) (simp_all only: option.case snd_conv step_ok_refl [OF assms] expired)
  have "quiet (\<lambda>j. cj_ID j = i \<and> cj_Status j = CheckJobClaimed \<and> cj_LeaseID j = l) (\<lambda>j. j\<lparr>cj_Status := s, cj_FinishedAt := Some t, cj_Summary := summary\<rparr>)"
    if "s \<in> {CheckJobUnavailable, CheckJobError, CheckJobInterrupted}" for i l t
    by (rule quiet_failed) (use that in auto)
  then show "step_ok st (snd (FailCheckJobBeforeStart a s summary now st))"
    by (auto simp: FailCheckJobBeforeStart_def Let_def step_ok_refl [OF assms] split: option.split intro!: step_quiet [OF assms])
  have "quiet (\<lambda>j. cj_ID j = i \<and> (cj_Status j = CheckJobPending \<or> cj_Status j = CheckJobClaimed))
      (\<lambda>j. j\<lparr>cj_Status := CheckJobCancelled, cj_CancelRequestedAt := Some t, cj_FinishedAt := Some t, cj_Summary := s\<rparr>)" for i t s
    by (rule quiet_cancelled) auto
  note step_quiet [OF assms this]
  moreover have "step_ok st (update_jobs (\<lambda>k. cj_ID k = cj_ID j) (\<lambda>k. k\<lparr>cj_CancelRequestedAt := Some t, cj_Summary := s\<rparr>) st)"
    if j: "readCheckJobTx repo i st = Some j" "cj_Status j \<in> {CheckJobStarted, CheckJobAmbiguous}" for j t s
  proof -
    have "(cj_ID k = cj_ID j) = (k = j)" if "k \<in> set (cs_jobs st)" for k
      using store_ok_distinct [OF assms that, of j] read_job(1) [OF j(1)] by blast
    then have "update_jobs (\<lambda>k. cj_ID k = cj_ID j) f st = update_jobs (\<lambda>k. k = j) f st" for f
      by (simp add: update_jobs_def cong: map_cong)
    moreover have "quiet (\<lambda>k. k = j) (\<lambda>k. k\<lparr>cj_CancelRequestedAt := Some t, cj_Summary := s\<rparr>)"
      by (rule quiet_requested) (use j(2) in auto)
    ultimately show ?thesis using step_quiet [OF assms] by simp
  qed
  ultimately show "step_ok st (snd (CancelCheckJob repo i now st))"
    by (auto simp: CancelCheckJob_def cancelCheckJobTx_def Let_def step_ok_refl [OF assms] split: option.split)
qed

lemma restart_step: "store_ok st \<Longrightarrow> step_ok st (snd (ReconcileCheckJobRestart now st))"
proof -
  assume ok: "store_ok st"
  have 1: "step_ok st (update_jobs (\<lambda>j. cj_Status j = CheckJobClaimed) (interrupted t restarted_before) st)" for t
    by (rule step_quiet [OF ok]) (rule quiet_interrupted, simp)
  have 2: "step_ok st1 (update_jobs (\<lambda>j. cj_Status j = CheckJobStarted)
      (\<lambda>j. j\<lparr>cj_Status := CheckJobAmbiguous, cj_LeaseLostAt := Some t, cj_Summary := restarted_during\<rparr>) st1)" if "store_ok st1" for st1 t
    by (rule step_quiet [OF that]) (rule quiet_restarted, simp)
  show ?thesis
  proof (cases now)
    case (Some t)
    have "store_ok (update_jobs (\<lambda>j. cj_Status j = CheckJobClaimed) (interrupted t restarted_before) st)"
      using 1 [of t] by (simp add: step_ok_def)
    from step_ok_trans [OF 1 2 [OF this]] show ?thesis by (simp add: ReconcileCheckJobRestart_def Some Let_def)
  qed (simp add: ReconcileCheckJobRestart_def step_ok_refl [OF ok])
qed

end
