(* ===== verification/CheckEvidence.thy ===== *)
theory CheckEvidence
  imports CheckSteps
begin

text \<open>
  Jobs and their attempts: a start writes both, a registration alone never binds a job, and a
  completion ends both with the same status. With this every operation keeps the store's invariant.
\<close>

subsection \<open>Registration\<close>

lemma insert_attempt_simps:
  assumes "insert_attempt lib a st = (b, st1)"
  shows "at_ID b = at_ID a" "at_JobID b = at_JobID a" "at_RepositoryID b = at_RepositoryID a" "at_Status b = None"
    "cs_jobs st1 = cs_jobs st" "cs_policies st1 = cs_policies st" "cs_attempts st1 = cs_attempts st @ [b]"
proof -
  obtain v h st2 where st2: "ensureCheckConfiguration lib (at_RepositoryID a) (at_Checks a) st = ((v, h), st2)" by (metis prod.exhaust)
  note other = ensure_config_other [of lib "at_RepositoryID a" "at_Checks a" st, unfolded st2 snd_conv]
  show "at_ID b = at_ID a" "at_JobID b = at_JobID a" "at_RepositoryID b = at_RepositoryID a" "at_Status b = None"
    "cs_jobs st1 = cs_jobs st" "cs_policies st1 = cs_policies st" "cs_attempts st1 = cs_attempts st @ [b]"
    using sym [OF arg_cong [OF assms, of fst]] sym [OF arg_cong [OF assms, of snd]] other by (simp_all add: insert_attempt_def st2 Let_def)
qed

text \<open>A chain of refusals that ends well.\<close>

lemma not_refused: "((if c then Inl e else x) = Inr y) = (\<not> c \<and> x = Inr y)"
  by simp

lemma origin_facts:
  assumes "applyJobOrigin a job configuration replay = Inr b"
  shows "at_ID b = at_ID a" "at_JobID b = at_JobID a" "at_RepositoryID b = at_RepositoryID a" "at_RepositoryID a = cj_RepositoryID job"
    "replay \<Longrightarrow> cj_AttemptID job = at_ID a" "\<not> replay \<Longrightarrow> cj_Status job \<in> {CheckJobStarted, CheckJobAmbiguous}"
    "nullableNanoTime (cj_StartedAt job) \<noteq> None" "cj_AttemptID job = [] \<or> cj_AttemptID job = at_ID a"
proof -
  note * = assms [unfolded applyJobOrigin_def not_refused]
  then have b: "b = origin_applied a job" by simp
  show "at_ID b = at_ID a" "at_JobID b = at_JobID a" "at_RepositoryID b = at_RepositoryID a" by (simp_all add: b origin_applied_def)
  show "at_RepositoryID a = cj_RepositoryID job" "nullableNanoTime (cj_StartedAt job) \<noteq> None" "cj_AttemptID job = [] \<or> cj_AttemptID job = at_ID a"
    using * by argo+
  show "replay \<Longrightarrow> cj_AttemptID job = at_ID a" using * by argo
  have "\<not> replay \<Longrightarrow> cj_Status job = CheckJobStarted \<or> cj_Status job = CheckJobAmbiguous" using * by argo
  then show "\<not> replay \<Longrightarrow> cj_Status job \<in> {CheckJobStarted, CheckJobAmbiguous}" by simp
qed

text \<open>A registration replays an attempt, or it adds one and binds it to its job.\<close>

lemma register_cases:
  assumes "registerCheckAttemptTx lib attempt st = Inr (a, st1)"
  obtains (Replay) job where "readCheckJobTx (at_RepositoryID attempt) (at_JobID attempt) st = Some job"
      "cj_AttemptID job = at_ID attempt" "readAttemptTx (at_ID attempt) st = Some a" "st1 = st"
  | (New) job where "readCheckJobTx (at_RepositoryID attempt) (at_JobID attempt) st = Some job"
      "readAttemptTx (at_ID attempt) st = None" "cj_Status job \<in> {CheckJobStarted, CheckJobAmbiguous}"
      "nullableNanoTime (cj_StartedAt job) \<noteq> None" "cj_AttemptID job = [] \<or> cj_AttemptID job = at_ID attempt"
      "at_ID a = at_ID attempt" "at_JobID a = cj_ID job" "at_Status a = None" "cs_policies st1 = cs_policies st"
      "cs_attempts st1 = cs_attempts st @ [a]"
      "cs_jobs st1 = map (\<lambda>j. if cj_ID j = cj_ID job \<and> cj_RepositoryID j = cj_RepositoryID job \<and>
         (cj_AttemptID j = [] \<or> cj_AttemptID j = at_ID attempt) then j\<lparr>cj_AttemptID := at_ID attempt\<rparr> else j) (cs_jobs st)"
proof -
  define a0 where "a0 = (if at_ExecutionScope attempt = NoScope then attempt\<lparr>at_ExecutionScope := ExecutionScopeInherited\<rparr> else attempt)"
  have a0: "at_ID a0 = at_ID attempt" "at_JobID a0 = at_JobID attempt" "at_RepositoryID a0 = at_RepositoryID attempt" by (simp_all add: a0_def)
  note r = assms [unfolded registerCheckAttemptTx_def Let_def, folded a0_def, unfolded a0]
  obtain job where job: "readCheckJobTx (at_RepositoryID attempt) (at_JobID attempt) st = Some job"
    using r by (simp split: option.splits)
  note r = r [unfolded job option.case]
  obtain c where c: "readCheckConfigurationTx (cj_RepositoryID job) (cj_ConfigurationVersion job) st = Some c"
    using r by (simp split: option.splits)
  note r = r [unfolded c option.case]
  obtain b where b: "applyJobOrigin a0 job c (readAttemptTx (at_ID attempt) st \<noteq> None) = Inr b"
    using r by (simp split: sum.splits)
  note r = r [unfolded b sum.case]
  note o = origin_facts [OF b, unfolded a0]
  show ?thesis
  proof (cases "readAttemptTx (at_ID attempt) st")
    case (Some old)
    have "a = old \<and> st1 = st" using r unfolding Some by (simp split: if_splits)
    then show ?thesis using Replay [OF job] o(5) Some by simp
  next
    case None
    obtain a2 st2 where i: "insert_attempt lib b st = (a2, st2)" by fastforce
    note ia = insert_attempt_simps [OF i]
    have job': "at_JobID attempt = cj_ID job" "cj_RepositoryID job = at_RepositoryID attempt" using read_job(1) [OF job] by simp_all
    note same = r [unfolded None option.case i prod.case not_refused sum.inject prod.inject, THEN conjunct2, THEN conjunct2, THEN conjunct2]
    have vals: "at_ID a2 = at_ID attempt" "at_JobID a2 = cj_ID job" "at_RepositoryID a2 = cj_RepositoryID job"
      using ia(1-3) o(1-4) job'(1) by simp_all
    have a: "a = a2" and st1: "st1 = update_jobs (\<lambda>j. cj_ID j = cj_ID job \<and> cj_RepositoryID j = cj_RepositoryID job \<and>
        (cj_AttemptID j = [] \<or> cj_AttemptID j = at_ID attempt)) (\<lambda>j. j\<lparr>cj_AttemptID := at_ID attempt\<rparr>) st2"
      using same unfolding vals by (rule conjunct1 [THEN sym], rule conjunct2 [THEN sym])
    show ?thesis
      by (rule New [OF job None]) (use o(6-8) None in \<open>simp_all only: a st1 vals update_fields ia(4-7) not_False_eq_True simp_thms\<close>)
  qed
qed

lemma read_attempt: "readAttemptTx i st = Some a \<Longrightarrow> a \<in> set (cs_attempts st) \<and> at_ID a = i"
  "readAttemptTx i st = None \<Longrightarrow> i \<notin> at_ID ` set (cs_attempts st)"
  by (auto simp: readAttemptTx_def find_Some_iff find_None_iff)

text \<open>By itself a registration changes nothing: the job of a started attempt has it bound already.\<close>

lemma register_no_change:
  assumes "store_ok st"
  shows "snd (RegisterJobAttempt lib attempt st) = st"
proof -
  have "st1 = st" if r: "registerCheckAttemptTx lib attempt st = Inr (a, st1)" for a st1
    using r
  proof (cases rule: register_cases)
    case (New job)
    have job: "job \<in> set (cs_jobs st)" using read_job(1) [OF New(1)] by simp
    have "was_started job"
      using store_ok_job(1) [OF assms job] New(3,4) by (auto simp: row_ok_def never_started_def nullableNanoTime_def)
    then have ne: "cj_AttemptID job \<noteq> []" by (simp add: was_started_def)
    then have "cj_AttemptID job \<in> at_ID ` set (cs_attempts st)"
      using store_ok_job(3) [OF assms job] unfolding evidenced_def by (metis image_eqI)
    then show ?thesis using New(5) ne read_attempt(2) [OF New(2)] by simp
  qed
  then show ?thesis by (auto simp: RegisterJobAttempt_def commit_or_rollback_def split: sum.split)
qed

subsection \<open>The start\<close>

text \<open>The row of the job and the new attempt.\<close>

definition started_row :: "CheckJob \<Rightarrow> bytes \<Rightarrow> protection \<Rightarrow> int \<Rightarrow> CheckJob" where
  "started_row job attempt prot t =
     job\<lparr>cj_Status := CheckJobStarted, cj_StartedAt := Some t, cj_Protection := prot, cj_AttemptID := attempt\<rparr>"

lemma start_tx_writes:
  assumes "store_ok st" and "job \<in> set (cs_jobs st)" and "cj_Status job = CheckJobClaimed" and "attempt \<noteq> []"
    and "startCheckJobTx lib job attempt prot t st = Inr (a, st1)"
  shows "at_ID a = attempt \<and> at_JobID a = cj_ID job \<and> at_Status a = None \<and> attempt \<notin> at_ID ` set (cs_attempts st) \<and> t \<noteq> 0 \<and>
    cs_attempts st1 = cs_attempts st @ [a] \<and> cs_policies st1 = cs_policies st \<and>
    cs_jobs st1 = map (\<lambda>j. if j = job then started_row job attempt prot t else j) (cs_jobs st)"
proof -
  let ?f = "\<lambda>j. j\<lparr>cj_Status := CheckJobStarted, cj_StartedAt := Some t, cj_Protection := prot\<rparr>"
  let ?st = "update_jobs (\<lambda>j. cj_ID j = cj_ID job \<and> cj_Status j = CheckJobClaimed) ?f st"
  have one: "(cj_ID j = cj_ID job) = (j = job)" if "j \<in> set (cs_jobs st)" for j
    using store_ok_distinct [OF assms(1) that assms(2)] by blast
  have jobs: "cs_jobs ?st = map (\<lambda>j. if j = job then ?f job else j) (cs_jobs st)"
    unfolding update_fields by (rule map_cong [OF refl]) (auto simp: one assms(3))
  have never: "cj_AttemptID job = []" using store_ok_job(1) [OF assms(1,2)] assms(3) by (simp add: row_ok_def never_started_def)
  obtain c :: CheckConfiguration where r: "registerCheckAttemptTx lib (job_attempt job attempt (cf_Checks c) t) ?st = Inr (a, st1)"
    using assms(5) by (auto simp: startCheckJobTx_def split: option.splits)
  let ?a = "job_attempt job attempt (cf_Checks c) t"
  have at: "at_ID ?a = attempt" "at_JobID ?a = cj_ID job" by (simp_all add: job_attempt_def)
  have read: "k = ?f job" if "readCheckJobTx (at_RepositoryID ?a) (at_JobID ?a) ?st = Some k" for k
    using read_job(1) [OF that] one unfolding at jobs by (auto split: if_splits)
  show ?thesis
    using r
  proof (cases rule: register_cases)
    case (Replay k)
    have "[] = attempt" using Replay(2) unfolding read [OF Replay(1)] at using never by simp
    then show ?thesis using assms(4) by simp
  next
    case (New k)
    have k: "k = ?f job" by (rule read [OF New(1)])
    have "cs_jobs st1 = map (\<lambda>j. if j = job then started_row job attempt prot t else j) (cs_jobs st)"
      unfolding New(11) jobs map_map
    proof (rule map_cong [OF refl])
      fix j assume "j \<in> set (cs_jobs st)"
      from one [OF this] show "((\<lambda>j. if cj_ID j = cj_ID k \<and> cj_RepositoryID j = cj_RepositoryID k \<and> (cj_AttemptID j = [] \<or> cj_AttemptID j = at_ID ?a)
          then j\<lparr>cj_AttemptID := at_ID ?a\<rparr> else j) \<circ> (\<lambda>j. if j = job then ?f job else j)) j = (if j = job then started_row job attempt prot t else j)"
        by (cases "j = job") (simp_all add: k never at started_row_def)
    qed
    moreover have "t \<noteq> 0" using New(4) by (auto simp: k nullableNanoTime_def)
    ultimately show ?thesis using New(6-10) read_attempt(2) [OF New(2)] by (simp add: k at readAttemptTx_def)
  qed
qed

lemma started_row_simps [simp]:
  "job_facts (started_row j a p t) = job_facts j" "cj_ID (started_row j a p t) = cj_ID j" "cj_AttemptID (started_row j a p t) = a"
  "cj_RepositoryID (started_row j a p t) = cj_RepositoryID j" "cj_DedupDigest (started_row j a p t) = cj_DedupDigest j"
  "cj_Status (started_row j a p t) = CheckJobStarted"
  by (simp_all add: started_row_def job_facts_def)

lemma started_row_ok:
  "row_ok j \<Longrightarrow> cj_Status j = CheckJobClaimed \<Longrightarrow> a \<noteq> [] \<Longrightarrow> t \<noteq> 0 \<Longrightarrow> row_ok (started_row j a p t) \<and> row_le j (started_row j a p t)"
  by (auto simp: started_row_def row_defs)

lemma evidenced_more: "evidenced as j \<Longrightarrow> evidenced (as @ bs) j"
  by (auto simp: evidenced_def)

lemma start_tx_step:
  assumes "store_ok st" and "job \<in> set (cs_jobs st)" and "cj_Status job = CheckJobClaimed" and "attempt \<noteq> []"
    and "startCheckJobTx lib job attempt prot t st = Inr (a, st1)"
  shows "step_ok st st1"
proof -
  let ?k = "started_row job attempt prot t"
  let ?g = "\<lambda>j. if j = job then ?k else j"
  have w: "at_ID a = attempt" "at_JobID a = cj_ID job" "at_Status a = None" "attempt \<notin> at_ID ` set (cs_attempts st)" "t \<noteq> 0"
    "cs_attempts st1 = cs_attempts st @ [a]" "cs_policies st1 = cs_policies st" "cs_jobs st1 = map ?g (cs_jobs st)"
    using start_tx_writes [OF assms] by simp_all
  have k: "row_ok ?k" "row_le job ?k" using started_row_ok [OF store_ok_job(1) [OF assms(1,2)] assms(3,4) w(5)] by simp_all
  have ids: "map cj_ID (map ?g (cs_jobs st)) = map cj_ID (cs_jobs st)"
    "map (\<lambda>j. (cj_RepositoryID j, cj_DedupDigest j)) (map ?g (cs_jobs st)) = map (\<lambda>j. (cj_RepositoryID j, cj_DedupDigest j)) (cs_jobs st)"
    by (simp_all add: o_def cong: map_cong)
  have one: "row_ok j \<and> (\<exists>p. cs_policies st (cj_RepositoryID j) = Some p \<and> admitted_under j p) \<and>
      (cj_AttemptID j \<noteq> [] \<longrightarrow> evidenced (cs_attempts st1) j)" if "j \<in> set (cs_jobs st1)" for j
  proof (cases "j = ?k")
    case True
    have "evidenced (cs_attempts st1) ?k" unfolding evidenced_def w(6) using w(1-3) by (intro bexI [of _ a]) simp_all
    then show ?thesis
      using k(1) store_ok_job(2) [OF assms(1,2)] admitted_under_facts [of ?k job] by (simp add: True)
  next
    case False
    then have "j \<in> set (cs_jobs st)" using that unfolding w(8) by (auto split: if_splits)
    then show ?thesis using store_ok_job [OF assms(1)] evidenced_more unfolding w(6) by blast
  qed
  have "store_ok st1"
    unfolding store_ok_def w(7) using assms(1) one w(1,4) by (simp add: w(6,8) ids store_ok_def del: map_map)
  moreover have "store_le st st1" unfolding store_le_def jobs_le_def w(7,8) using k(2) by simp
  ultimately show ?thesis by (simp add: step_ok_def)
qed

end
