(* ===== verification/CheckHistory.thy ===== *)
theory CheckHistory
  imports CheckEvidence
begin

text \<open>
  The remaining operations and whole histories: whatever operations run, the store keeps its
  invariant and every row only moves forward.
\<close>

lemma valid_id_nonempty: "validAttemptID i \<Longrightarrow> i \<noteq> []"
  by (auto simp: validAttemptID_def)

subsection \<open>The start of a claimed job\<close>

lemma start_claimed_step:
  assumes "store_ok st" and "job \<in> set (cs_jobs st)" and "cj_Status job = CheckJobClaimed" and "sta_AttemptID r \<noteq> []"
  shows "step_ok st (snd (start_claimed lib r job t st))"
proof -
  have 1: "step_ok st st1" if "interruptCheckJobTx job t s st = Inr st1" for s st1
    using interrupt_step [OF assms(1) that] assms(3) by simp
  have 2: "step_ok st st1" if "startCheckJobTx lib job (sta_AttemptID r) p t st = Inr (a, st1)" for p a st1
    by (rule start_tx_step [OF assms that])
  show ?thesis
    using 1 2 by (simp add: start_claimed_def Let_def step_ok_refl [OF assms(1)] split: sum.split prod.split option.split)
qed

lemma start_step: "store_ok st \<Longrightarrow> step_ok st (snd (StartCheckJob lib r now st))"
proof -
  assume ok: "store_ok st"
  have "step_ok st (update_jobs (\<lambda>j. cj_ID j = i \<and> cj_Status j = CheckJobClaimed) (lost_lease t) st)" for i t
    by (rule step_quiet [OF ok]) (rule quiet_lost, simp)
  moreover have "step_ok st (snd (start_claimed lib r job t st))"
    if "readCheckJobTx repo i st = Some job" "cj_Status job = CheckJobClaimed" "validStart r" for repo i job t
    using start_claimed_step [OF ok _ that(2)] read_job(1) [OF that(1)] that(3) valid_id_nonempty by (simp add: validStart_def)
  ultimately show ?thesis
    by (simp add: StartCheckJob_def step_ok_refl [OF ok] split: option.split)
qed

subsection \<open>The completion\<close>

lemma aggregate_status: "list_all validResult results \<Longrightarrow> AggregateCheckStatus results cancelled \<in> attempt_statuses"
proof -
  have "fst (fold worse_status rs sw) \<in> attempt_statuses" if "fst sw \<in> attempt_statuses" "list_all validResult rs" for rs sw
    using that by (induction rs arbitrary: sw)
      (auto simp: worse_status_def validResult_def validAttemptStatus_def attempt_statuses_def split: option.splits)
  moreover assume "list_all validResult results"
  ultimately have "fst (fold worse_status results (CheckJobPassed, w)) \<in> attempt_statuses" for w
    by (simp add: attempt_statuses_def)
  then show ?thesis by (cases "results = []") (auto simp: AggregateCheckStatus_def Let_def attempt_statuses_def)
qed

definition completed_row :: "CheckJob \<Rightarrow> job_status \<Rightarrow> int \<Rightarrow> bytes \<Rightarrow> int option \<Rightarrow> CheckJob" where
  "completed_row j s t summary requested =
     j\<lparr>cj_Status := s, cj_FinishedAt := Some t, cj_Summary := summary, cj_CancelRequestedAt := requested\<rparr>"

lemma completed_row_simps [simp]:
  "job_facts (completed_row j s t u r) = job_facts j" "cj_ID (completed_row j s t u r) = cj_ID j"
  "cj_AttemptID (completed_row j s t u r) = cj_AttemptID j" "cj_RepositoryID (completed_row j s t u r) = cj_RepositoryID j"
  "cj_DedupDigest (completed_row j s t u r) = cj_DedupDigest j" "cj_Status (completed_row j s t u r) = s"
  by (simp_all add: completed_row_def job_facts_def)

lemma completed_row_ok:
  assumes "row_ok j" and "cj_Status j \<in> {CheckJobStarted, CheckJobAmbiguous}" and "cj_AttemptID j \<noteq> []" and "s \<in> attempt_statuses"
  shows "row_ok (completed_row j s t u r) \<and> row_le j (completed_row j s t u r)"
proof -
  have w: "was_started j" using assms(1-3) by (auto simp: row_ok_def never_started_def)
  then have "was_started (completed_row j s t u r)" by (simp add: completed_row_def was_started_def)
  then have "row_ok (completed_row j s t u r)"
    using assms(4) by (auto simp: row_ok_def attempt_statuses_def completed_row_def)
  moreover have "moves (cj_Status j) s" using assms(2,4) by auto
  then have "row_le j (completed_row j s t u r)"
    using assms(2) moves_once by (auto simp: row_le_def final_def) (auto simp: completed_row_def)
  ultimately show ?thesis ..
qed

lemma finalize_writes:
  assumes "store_ok st" and "cs_jobs st0 = cs_jobs st"
    and "finalizeCheckJobTx attempt s t u cancelled st0 = Inr st1"
  obtains job r where "job \<in> set (cs_jobs st)" "cj_ID job = at_JobID attempt" "cj_AttemptID job = at_ID attempt"
    "cj_Status job \<in> {CheckJobStarted, CheckJobAmbiguous}"
    "st1 = update_jobs (\<lambda>j. cj_ID j = cj_ID job) (\<lambda>j. completed_row j s t u r) st0"
proof -
  obtain job where job: "readCheckJobTx (at_RepositoryID attempt) (at_JobID attempt) st0 = Some job"
    using assms(3) by (auto simp: finalizeCheckJobTx_def split: option.splits)
  have 1: "job \<in> set (cs_jobs st)" "cj_ID job = at_JobID attempt" using read_job(1) [OF job] assms(2) by simp_all
  have "cj_AttemptID job = at_ID attempt \<and> cj_Status job \<in> {CheckJobStarted, CheckJobAmbiguous} \<and>
      (\<exists>r. st1 = update_jobs (\<lambda>j. cj_ID j = cj_ID job) (\<lambda>j. completed_row j s t u r) st0)"
    using assms(3) unfolding finalizeCheckJobTx_def job option.case Let_def not_refused completed_row_def by (auto split: if_splits)
  then show ?thesis using that [OF 1] by blast
qed

text \<open>One attempt and one job, both with the same status.\<close>

lemma complete_writes_step:
  assumes "store_ok st" and "attempt \<in> set (cs_attempts st)" and "job \<in> set (cs_jobs st)"
    and "cj_ID job = at_JobID attempt" "cj_AttemptID job = at_ID attempt" "cj_AttemptID job \<noteq> []"
    and "cj_Status job \<in> {CheckJobStarted, CheckJobAmbiguous}" and "s \<in> attempt_statuses"
    and "\<And>a. at_ID (f a) = at_ID a \<and> at_JobID (f a) = at_JobID a \<and> at_Status (f a) = Some s"
  shows "step_ok st (update_jobs (\<lambda>j. cj_ID j = cj_ID job) (\<lambda>j. completed_row j s t u r)
    (st\<lparr>cs_attempts := map (\<lambda>a. if at_ID a = at_ID attempt then f a else a) (cs_attempts st)\<rparr>))" (is "step_ok st ?st")
proof -
  let ?k = "completed_row job s t u r"
  let ?as = "map (\<lambda>a. if at_ID a = at_ID attempt then f a else a) (cs_attempts st)"
  let ?g = "\<lambda>j. if j = job then ?k else j"
  have one: "(cj_ID j = cj_ID job) = (j = job)" if "j \<in> set (cs_jobs st)" for j
    using store_ok_distinct [OF assms(1) that assms(3)] by blast
  have st: "cs_jobs ?st = map ?g (cs_jobs st)" "cs_attempts ?st = ?as" "cs_policies ?st = cs_policies st"
    using one by (auto simp: cong: map_cong)
  have k: "row_ok ?k" "row_le job ?k"
    using completed_row_ok [OF store_ok_job(1) [OF assms(1,3)] assms(7,6,8)] by simp_all
  have ids: "map cj_ID (map ?g (cs_jobs st)) = map cj_ID (cs_jobs st)" "map at_ID ?as = map at_ID (cs_attempts st)"
    "map (\<lambda>j. (cj_RepositoryID j, cj_DedupDigest j)) (map ?g (cs_jobs st)) = map (\<lambda>j. (cj_RepositoryID j, cj_DedupDigest j)) (cs_jobs st)"
    using assms(9) by (simp_all add: o_def cong: map_cong)
  have ev: "evidenced ?as ?k"
    unfolding evidenced_def using assms(2,4,5,8,9) by (intro bexI [of _ "f attempt"]) (auto simp: image_iff)
  have other: "evidenced ?as j" if j: "j \<in> set (cs_jobs st)" "j \<noteq> job" "cj_AttemptID j \<noteq> []" for j
  proof -
    obtain a where a: "a \<in> set (cs_attempts st)" "at_ID a = cj_AttemptID j" "at_JobID a = cj_ID j"
      "case at_Status a of None \<Rightarrow> cj_Status j \<in> {CheckJobStarted, CheckJobAmbiguous} | Some s \<Rightarrow> cj_Status j = s \<and> s \<in> attempt_statuses"
      using store_ok_job(3) [OF assms(1) j(1,3)] by (auto simp: evidenced_def)
    have "inj_on at_ID (set (cs_attempts st))" using assms(1) by (simp add: store_ok_def distinct_map)
    then have "at_ID a \<noteq> at_ID attempt" using inj_onD a(1,3) assms(2,4) one [OF j(1)] j(2) by metis
    then have "a \<in> set ?as" using a(1) by force
    then show ?thesis unfolding evidenced_def using a(2-4) by blast
  qed
  have row: "row_ok j \<and> (\<exists>p. cs_policies st (cj_RepositoryID j) = Some p \<and> admitted_under j p) \<and>
      (cj_AttemptID j \<noteq> [] \<longrightarrow> evidenced ?as j)" if j: "j \<in> set (map ?g (cs_jobs st))" for j
  proof (cases "j = ?k")
    case True
    then show ?thesis using k(1) ev store_ok_job(2) [OF assms(1,3)] admitted_under_facts [of ?k job] by simp
  next
    case False
    then have "j \<in> set (cs_jobs st)" "j \<noteq> job" using j by (auto split: if_splits)
    then show ?thesis using store_ok_job(1,2) [OF assms(1)] other by blast
  qed
  have "store_ok ?st"
    unfolding store_ok_def st ids using assms(1) row by (simp add: store_ok_def del: map_map)
  moreover have "store_le st ?st" unfolding store_le_def jobs_le_def st using k(2) by simp
  ultimately show ?thesis by (simp add: step_ok_def)
qed

lemma complete_attempt_step:
  assumes "store_ok st" and "attempt \<in> set (cs_attempts st)" and "at_ID attempt \<noteq> []" and "validateCompletion c"
    and "complete_attempt lib c attempt t st = Inr (a, st1)"
  shows "step_ok st st1"
proof -
  define s where "s = AggregateCheckStatus (cmp_Results c) (cmp_Cancelled c)"
  define u where "u = AttemptSummary (cmp_Results c) (worseWorktree (at_WorktreeState attempt) (cmp_WorktreeState c)) s (at_CredentialID attempt)"
  define f where "f = (\<lambda>a :: CheckAttempt. a\<lparr>at_Status := Some s, at_Summary := u, at_CompletionDigest := completionDigest lib c\<rparr>)"
  let ?st = "st\<lparr>cs_attempts := map (\<lambda>a. if at_ID a = at_ID attempt then f a else a) (cs_attempts st)\<rparr>"
  have s: "s \<in> attempt_statuses" unfolding s_def using assms(4) by (intro aggregate_status) (simp add: validateCompletion_def)
  have f: "at_ID (f a) = at_ID a \<and> at_JobID (f a) = at_JobID a \<and> at_Status (f a) = Some s" for a by (simp add: f_def)
  have jobs: "cs_jobs ?st = cs_jobs st" by simp
  have "finalizeCheckJobTx attempt s t u (cmp_Cancelled c) ?st = Inr st1"
    unfolding f_def s_def u_def using assms(5) by (auto simp: complete_attempt_def Let_def split: sum.splits)
  from finalize_writes [OF assms(1) jobs this] obtain job r where "job \<in> set (cs_jobs st)" "cj_ID job = at_JobID attempt"
    "cj_AttemptID job = at_ID attempt" "cj_Status job \<in> {CheckJobStarted, CheckJobAmbiguous}"
    "st1 = update_jobs (\<lambda>j. cj_ID j = cj_ID job) (\<lambda>j. completed_row j s t u r) ?st" .
  then show ?thesis using complete_writes_step [OF assms(1,2) _ _ _ _ _ s f, of job] assms(3) by simp
qed

lemma complete_step: "store_ok st \<Longrightarrow> step_ok st (snd (CompleteCheckJobAttempt lib c a t st))"
proof -
  assume ok: "store_ok st"
  have "step_ok st (snd (commit_or_rollback (complete_attempt lib c attempt t st) st))"
    if "readAttemptTx (cmp_AttemptID c) st = Some attempt" "validateCompletion c" for attempt
  proof (rule commit_step [OF ok])
    have "at_ID attempt \<noteq> []" using read_attempt(1) [OF that(1)] that(2) valid_id_nonempty by (auto simp: validateCompletion_def)
    then show "step_ok st st1" if "complete_attempt lib c attempt t st = Inr (x, st1)" for x st1
      using complete_attempt_step [OF ok _ _ \<open>validateCompletion c\<close> that] read_attempt(1) [OF \<open>readAttemptTx (cmp_AttemptID c) st = Some attempt\<close>] by blast
  qed
  then show ?thesis by (simp add: CompleteCheckJobAttempt_def step_ok_refl [OF ok] split: option.split)
qed

subsection \<open>Histories\<close>

lemma check_step_ok: "store_ok st \<Longrightarrow> step_ok st (check_step lib op st)"
proof (cases op)
  case (SetCeilings c)
  then show "store_ok st \<Longrightarrow> ?thesis" by (simp add: step_other)
next
  case (RegisterAttempt a)
  then show "store_ok st \<Longrightarrow> ?thesis" by (simp add: register_no_change step_ok_refl)
qed (simp_all add: write_policy_step consent_steps revoke_consent_step issue_step revoke_token_steps admit_steps claim_steps
  start_step renew_step other_steps restart_step complete_step)

lemma check_steps_ok: "store_ok st \<Longrightarrow> step_ok st (check_steps lib ops st)"
proof (induction ops arbitrary: st)
  case (Cons op ops)
  note 1 = check_step_ok [OF Cons.prems, of lib op]
  then have "step_ok (check_step lib op st) (check_steps lib ops (check_step lib op st))"
    by (intro Cons.IH) (simp add: step_ok_def)
  with 1 show ?case by (simp add: step_ok_trans)
qed (simp add: step_ok_refl)

lemma empty_store_ok [simp]: "store_ok (empty_store c)"
  by (simp add: store_ok_def empty_store_def)

end
