(* ===== verification/CheckQueue.thy ===== *)
theory CheckQueue
  imports CheckHistory
begin

text \<open>
  The claim from the queue: the oldest pending job, within the limit of active jobs, after the jobs
  whose authority is gone were interrupted.
\<close>

subsection \<open>The order of the queue\<close>

lemma text_before_total: "text_before a b \<or> text_before b a"
proof (induction a b rule: text_before.induct)
  case (3 x a y b)
  then show ?case by (cases "byte x" "byte y" rule: linorder_cases) (auto simp: byte_eq_iff)
qed simp_all

lemma text_before_trans: "text_before a b \<Longrightarrow> text_before b c \<Longrightarrow> text_before a c"
proof (induction a c arbitrary: b rule: text_before.induct)
  case (2 x a)
  then show ?case by (cases b) auto
next
  case (3 x a y c)
  then show ?case by (cases b) auto
qed simp

text \<open>The contract of an \<open>ORDER BY\<close>: any two rows are in order, and the order is transitive. The first
  row of the sorted result then comes before every other.\<close>

locale row_order =
  fixes before :: "'a \<Rightarrow> 'a \<Rightarrow> bool"
  assumes total: "before a b \<or> before b a" and trans: "before a b \<Longrightarrow> before b c \<Longrightarrow> before a c"
begin

lemma refl: "before a a"
  using total by blast

lemma first_in_order: "first_of (in_order before js) = Some j \<Longrightarrow> k \<in> set js \<Longrightarrow> before j k"
proof (induction js arbitrary: j k)
  case (Cons i js)
  show ?case
  proof (cases "in_order before js")
    case Nil
    then have "js = []" by (metis set_empty set_in_order)
    then show ?thesis using Cons.prems refl by (simp add: in_order_def first_of_def)
  next
    case (Cons l ls)
    then have l: "\<And>k. k \<in> set js \<Longrightarrow> before l k" using Cons.IH by (simp add: first_of_def)
    have "in_order before (i # js) = insert_before before i (l # ls)" using Cons by (simp add: in_order_def)
    then have "j = i \<and> before i l \<or> j = l \<and> \<not> before i l" using Cons.prems(1) by (auto simp: first_of_def split: if_splits)
    then show ?thesis using l total trans refl Cons.prems(2) by (metis set_ConsD)
  qed
qed (simp add: in_order_def first_of_def)

end

interpretation queue: row_order queue_before
proof
  show "queue_before a b \<or> queue_before b a" for a b
    using text_before_total [of "cj_ID a" "cj_ID b"] by (auto simp: queue_before_def)
  show "queue_before a b \<Longrightarrow> queue_before b c \<Longrightarrow> queue_before a c" for a b c
    using text_before_trans [of "cj_ID a" "cj_ID b" "cj_ID c"] by (auto simp: queue_before_def)
qed

interpretation reruns: row_order rerun_before
proof
  show "rerun_before a b \<or> rerun_before b a" for a b
    using text_before_total [of "cj_ID a" "cj_ID b"] by (auto simp: rerun_before_def)
  show "rerun_before a b \<Longrightarrow> rerun_before b c \<Longrightarrow> rerun_before a c" for a b c
    using text_before_trans [of "cj_ID a" "cj_ID b" "cj_ID c"] by (auto simp: rerun_before_def)
qed

text \<open>The unfinished rerun that a rerun request returns is the latest one.\<close>

lemma unfinished_rerun_latest:
  assumes "readUnfinishedRerunTx repo root st = Some j" and "k \<in> set (cs_jobs st)" and "cj_RepositoryID k = repo"
    and "cj_RerunRoot k = root" and "unfinished k"
  shows "cj_RerunGeneration k \<le> cj_RerunGeneration j"
  using reruns.first_in_order [OF assms(1) [unfolded readUnfinishedRerunTx_def], of k] assms(2-5)
  by (auto simp: rerun_before_def)

lemma first_of_order_None [simp]: "first_of (in_order r js) = None \<longleftrightarrow> js = []"
proof -
  have "(in_order r js = []) = (js = [])" by (metis set_empty set_in_order)
  then show ?thesis by (cases "in_order r js") (simp_all add: first_of_def)
qed

subsection \<open>Jobs whose authority is gone\<close>

lemma interrupt_one:
  assumes "store_ok st" and "j \<in> set (cs_jobs st)"
  shows "interruptCheckJobTx j t s st = Inr (st\<lparr>cs_jobs := map (\<lambda>k. if k = j then interrupted t s j else k) (cs_jobs st)\<rparr>)"
proof -
  let ?P = "\<lambda>k. cj_ID k = cj_ID j \<and> cj_Status k = cj_Status j"
  have "?P k = (k = j)" if "k \<in> set (cs_jobs st)" for k using store_ok_distinct [OF assms(1) that assms(2)] by blast
  then have "update_jobs ?P (interrupted t s) st = st\<lparr>cs_jobs := map (\<lambda>k. if k = j then interrupted t s j else k) (cs_jobs st)\<rparr>"
    by (auto simp: update_jobs_def cong: map_cong)
  moreover have "affected_jobs ?P st = 1" by (rule affected_one [OF assms]) simp_all
  ultimately show ?thesis by (simp add: interruptCheckJobTx_def Let_def)
qed

lemma interrupt_all_ok:
  assumes "store_ok st" and "set js \<subseteq> set (cs_jobs st)" and "distinct js"
    and "\<forall>j \<in> set js. cj_Status j \<in> {CheckJobPending, CheckJobClaimed}"
  shows "interrupt_all js t st =
    Inr (st\<lparr>cs_jobs := map (\<lambda>k. if k \<in> set js then interrupted t authority_changed k else k) (cs_jobs st)\<rparr>)"
  using assms
proof (induction js arbitrary: st)
  case (Cons j js)
  let ?f = "interrupted t authority_changed"
  let ?st = "st\<lparr>cs_jobs := map (\<lambda>k. if k = j then ?f j else k) (cs_jobs st)\<rparr>"
  have j: "j \<in> set (cs_jobs st)" using Cons.prems(2) by simp
  note one = interrupt_one [OF Cons.prems(1) j, of t authority_changed]
  have "store_ok ?st" using interrupt_step [OF Cons.prems(1) one] Cons.prems(4) by (simp add: step_ok_def)
  moreover have "set js \<subseteq> set (cs_jobs ?st)" using Cons.prems(2,3) by (auto simp: image_iff)
  ultimately have "interrupt_all js t ?st =
      Inr (?st\<lparr>cs_jobs := map (\<lambda>k. if k \<in> set js then ?f k else k) (cs_jobs ?st)\<rparr>)"
    using Cons.IH [of ?st] Cons.prems(3,4) by simp
  moreover have "?f j \<notin> set js"
    using Cons.prems(4) by (auto simp: interrupted_def)
  ultimately show ?case using Cons.prems(3) by (auto simp: one cong: map_cong)
qed simp

lemma distinct_in_order: "distinct js \<Longrightarrow> distinct (in_order r js)"
proof (induction js)
  case (Cons j js)
  have "distinct (insert_before r j ks)" if "distinct ks" "j \<notin> set ks" for ks
    using that by (induction ks) auto
  moreover have "in_order r (j # js) = insert_before r j (in_order r js)" by (simp add: in_order_def)
  ultimately show ?case using Cons by simp
qed (simp add: in_order_def)

lemma distinct_jobs: "store_ok st \<Longrightarrow> distinct (cs_jobs st)"
  by (simp add: store_ok_def distinct_map)

definition stale :: "bytes \<Rightarrow> CheckPolicy \<Rightarrow> CheckJob \<Rightarrow> bool" where
  "stale repo p j \<longleftrightarrow> cj_RepositoryID j = repo \<and> cj_Status j \<in> {CheckJobPending, CheckJobClaimed} \<and> \<not> checkJobAuthorityCurrent j p"

lemma stale_ok:
  assumes "store_ok st"
  shows "interruptStalePendingCheckJobsTx repo p t st =
    Inr (st\<lparr>cs_jobs := map (\<lambda>k. if stale repo p k then interrupted t authority_changed k else k) (cs_jobs st)\<rparr>)"
proof -
  let ?js = "filter (\<lambda>j. \<not> checkJobAuthorityCurrent j p) (in_order queue_before
    (filter (\<lambda>j. cj_RepositoryID j = repo \<and> cj_Status j \<in> {CheckJobPending, CheckJobClaimed}) (cs_jobs st)))"
  have mem: "k \<in> set ?js \<longleftrightarrow> k \<in> set (cs_jobs st) \<and> stale repo p k" for k by (auto simp: stale_def)
  have "distinct ?js" using distinct_jobs [OF assms] by (intro distinct_filter distinct_in_order)
  then have "interrupt_all ?js t st = Inr (st\<lparr>cs_jobs := map (\<lambda>k. if k \<in> set ?js then interrupted t authority_changed k else k) (cs_jobs st)\<rparr>)"
    by (intro interrupt_all_ok [OF assms]) auto
  moreover have "map (\<lambda>k. if k \<in> set ?js then interrupted t authority_changed k else k) (cs_jobs st) =
      map (\<lambda>k. if stale repo p k then interrupted t authority_changed k else k) (cs_jobs st)"
    by (rule map_cong [OF refl]) (simp only: mem simp_thms)
  ultimately show ?thesis unfolding interruptStalePendingCheckJobsTx_def by simp
qed

subsection \<open>The claim\<close>

lemma read_job_in: "store_ok st \<Longrightarrow> j \<in> set (cs_jobs st) \<Longrightarrow> cj_RepositoryID j = repo \<Longrightarrow> readCheckJobTx repo (cj_ID j) st = Some j"
proof -
  assume ok: "store_ok st" and j: "j \<in> set (cs_jobs st)" "cj_RepositoryID j = repo"
  obtain k where k: "readCheckJobTx repo (cj_ID j) st = Some k"
    using j by (cases "readCheckJobTx repo (cj_ID j) st") (auto simp: readCheckJobTx_def find_None_iff)
  then show ?thesis using read_job(1) [OF k] store_ok_distinct [OF ok _ j(1), of k] by simp
qed

lemma count_one_more:
  assumes "distinct js" and "j \<in> set js" and "P k" and "\<not> P j"
  shows "length (filter P (map (\<lambda>i. if i = j then k else i) js)) = Suc (length (filter P js))"
  using assms(1,2)
proof (induction js)
  case (Cons i js)
  then show ?case
  proof (cases "i = j")
    case True
    have "map (\<lambda>i. if i = j then k else i) js = js" using Cons.prems(1) True by (intro map_idI) auto
    with True show ?thesis using assms(3,4) by simp
  qed simp
qed simp

lemma authority_current_facts:
  assumes "admitted_under j p" and "checkJobAuthorityCurrent j p" and "policy_ok p"
  shows "\<not> Legacy (cj_Execution j)" "\<not> Legacy (pol_Execution p)"
  using assms by (auto simp: admitted_under_def checkJobAuthorityCurrent_def checkConsentCurrent_def policy_ok_def)

definition claim_good :: "bytes \<Rightarrow> CheckPolicy \<Rightarrow> bytes \<Rightarrow> CheckJob \<Rightarrow> CheckStore \<Rightarrow> CheckStore \<Rightarrow> bool" where
  "claim_good repo p lease j st st' \<longleftrightarrow>
     map_option cj_Status (readCheckJobTx repo (cj_ID j) st) = Some CheckJobPending \<and>
     readCheckJobTx repo (cj_ID j) st' = Some j \<and> cj_Status j = CheckJobClaimed \<and> cj_LeaseID j = lease \<and>
     checkJobAuthorityCurrent j p \<and> countActiveCheckJobsTx repo st' \<le> pol_MaxActiveJobs p \<and>
     list_all (\<lambda>k. queue_before j k) (filter (\<lambda>k. cj_RepositoryID k = repo \<and> cj_Status k = CheckJobPending) (cs_jobs st'))"

text \<open>Why a claim returns no job.\<close>

definition claim_blocked :: "bytes \<Rightarrow> CheckPolicy \<Rightarrow> CheckStore \<Rightarrow> bool" where
  "claim_blocked repo p st \<longleftrightarrow> \<not> checkConsentCurrent p \<or> Legacy (pol_Execution p) \<or>
     countActiveCheckJobsTx repo st \<ge> pol_MaxActiveJobs p \<or>
     filter (\<lambda>k. cj_RepositoryID k = repo \<and> cj_Status k = CheckJobPending) (cs_jobs st) = []"

lemma claim_from_queue_good:
  assumes "store_ok st" and "cs_policies st repo = Some p" and "snd (snd holder) \<noteq> NoRole"
  obtains r st' where "claim_from_queue repo p holder t lease st = Inr (r, st')"
    "case r of None \<Rightarrow> claim_blocked repo p st' | Some j \<Rightarrow> claim_good repo p lease j st st'"
proof -
  let ?f = "interrupted t authority_changed"
  let ?st = "st\<lparr>cs_jobs := map (\<lambda>k. if stale repo p k then ?f k else k) (cs_jobs st)\<rparr>"
  have ok: "store_ok ?st" using stale_step [OF assms(1) stale_ok [OF assms(1)]] by (simp add: step_ok_def)
  have kept: "k \<in> set (cs_jobs st) \<and> \<not> stale repo p k" if "k \<in> set (cs_jobs ?st)" "cj_Status k = CheckJobPending" for k
    using that by (auto simp: interrupted_def split: if_splits)
  show ?thesis
  proof (cases "\<not> checkConsentCurrent p \<or> Legacy (pol_Execution p) \<or> countActiveCheckJobsTx repo ?st \<ge> pol_MaxActiveJobs p \<or>
      oldestPendingCheckJobTx repo ?st = None")
    case True
    then have "claim_from_queue repo p holder t lease st = Inr (None, ?st)"
      by (auto simp: claim_from_queue_def stale_ok [OF assms(1)])
    moreover have "claim_blocked repo p ?st"
      using True by (auto simp: claim_blocked_def oldestPendingCheckJobTx_def filter_empty_conv)
    ultimately show ?thesis using that by fastforce
  next
    case False
    then obtain j where j: "oldestPendingCheckJobTx repo ?st = Some j" by auto
    have mem: "j \<in> set (cs_jobs ?st)" "cj_RepositoryID j = repo" "cj_Status j = CheckJobPending" using oldest_pending [OF j] by simp_all
    have st: "j \<in> set (cs_jobs st)" "checkJobAuthorityCurrent j p" using kept [OF mem(1,3)] mem(2,3) by (auto simp: stale_def)
    have "\<not> Legacy (cj_Execution j)"
      using authority_current_facts(1) [OF _ st(2)] store_ok_job(2) [OF assms(1) st(1)] assms(1,2) mem(2) by (auto simp: store_ok_def)
    let ?P = "\<lambda>i. cj_ID i = cj_ID j \<and> cj_Status i = CheckJobPending" and ?k = "claimed t (pol_MaxLeaseMS p) lease holder j"
    have one: "?P i = (i = j)" if "i \<in> set (cs_jobs ?st)" for i using store_ok_distinct [OF ok that mem(1)] mem(3) by blast
    have aff: "affected_jobs ?P ?st = 1" by (rule affected_one [OF ok mem(1)]) (simp_all add: mem(3))
    let ?st2 = "update_jobs ?P (claimed t (pol_MaxLeaseMS p) lease holder) ?st"
    have jobs: "cs_jobs ?st2 = map (\<lambda>i. if i = j then ?k else i) (cs_jobs ?st)" unfolding update_fields using one by (auto cong: map_cong)
    have r: "claim_from_queue repo p holder t lease st = Inr (Some ?k, ?st2)"
      using False j st(2) \<open>\<not> Legacy (cj_Execution j)\<close> aff by (simp add: claim_from_queue_def stale_ok [OF assms(1)] Let_def)
    have k: "cj_ID ?k = cj_ID j" "cj_RepositoryID ?k = repo" "cj_Status ?k = CheckJobClaimed" "cj_LeaseID ?k = lease" "cj_AdmittedAt ?k = cj_AdmittedAt j"
      "job_facts ?k = job_facts j"
      by (cases holder; simp add: claimed_def mem(2) job_facts_def)+
    have "quiet ?P (claimed t (pol_MaxLeaseMS p) lease holder)" by (rule quiet_claimed [OF _ assms(3)]) simp
    then have "store_ok ?st2" using step_quiet [OF ok] by (simp add: step_ok_def)
    moreover have "?k \<in> set (cs_jobs ?st2)" unfolding jobs using mem(1) by (auto simp: image_iff)
    ultimately have "readCheckJobTx repo (cj_ID j) ?st2 = Some ?k" using read_job_in [of ?st2 ?k repo] k by simp
    moreover have "readCheckJobTx repo (cj_ID j) st = Some j" by (rule read_job_in [OF assms(1) st(1) mem(2)])
    moreover have "checkJobAuthorityCurrent ?k p" using st(2) authority_facts [OF k(6)] by simp
    moreover have "countActiveCheckJobsTx repo ?st2 \<le> pol_MaxActiveJobs p"
    proof -
      note distinct_jobs [OF ok]
      then have "countActiveCheckJobsTx repo ?st2 = countActiveCheckJobsTx repo ?st + 1"
        unfolding countActiveCheckJobsTx_def jobs using count_one_more [OF _ mem(1)] mem k by (simp add: active_def)
      then show ?thesis using False by linarith
    qed
    moreover have "queue_before ?k i" if i: "i \<in> set (cs_jobs ?st2)" "cj_RepositoryID i = repo" "cj_Status i = CheckJobPending" for i
    proof -
      have "i \<in> set (cs_jobs ?st)" using i k(3) unfolding jobs by (auto split: if_splits)
      then have "queue_before j i"
        using queue.first_in_order [OF j [unfolded oldestPendingCheckJobTx_def]] i by simp
      then show ?thesis using k by (simp add: queue_before_def)
    qed
    ultimately show ?thesis using that [OF r] mem(3) st k by (simp add: claim_good_def list_all_iff)
  qed
qed

lemma claim_outcome:
  assumes "store_ok st"
  shows "case claimCheckJob repo credential role t lease st of
     (Inr (Some j), st') \<Rightarrow> (case cs_policies st repo of None \<Rightarrow> False | Some p \<Rightarrow> claim_good repo p lease j st st')
   | (Inr None, st') \<Rightarrow> (case cs_policies st repo of
        None \<Rightarrow> st' = st
      | Some p \<Rightarrow> (role = RunnerRoleExternal) = (pol_Executor p \<noteq> CheckExecutorExternalRunner) \<or> claim_blocked repo p st')
   | (Inl e, st') \<Rightarrow> e = ErrCheckRunnerCredential \<and> st' = st"
proof -
  have c: "case commit_or_rollback (claim_from_queue repo p (i, g, k) t lease st) st of
      (Inr (Some j), st') \<Rightarrow> claim_good repo p lease j st st' | (Inr None, st') \<Rightarrow> claim_blocked repo p st' | (Inl e, st') \<Rightarrow> False"
    if p: "cs_policies st repo = Some p" and k: "k \<noteq> NoRole" for p i g k
  proof -
    have "snd (snd (i, g, k)) \<noteq> NoRole" using k by simp
    from claim_from_queue_good [OF assms p this] obtain x st' where "claim_from_queue repo p (i, g, k) t lease st = Inr (x, st')"
      "case x of None \<Rightarrow> claim_blocked repo p st' | Some j \<Rightarrow> claim_good repo p lease j st st'" .
    then show ?thesis by (cases x) (simp_all add: commit_or_rollback_def)
  qed
  show ?thesis
  proof (cases "cs_policies st repo")
    case None
    then show ?thesis by (auto simp: claimCheckJob_def Let_def split: option.split)
  next
    case (Some p)
    show ?thesis
    proof (cases role)
      case NoRole
      then show ?thesis by (simp add: claimCheckJob_def Some)
    next
      case RunnerRoleServer
      then show ?thesis
        using c [OF Some, of RunnerRoleServer "pol_AuthorityEpoch p" "pol_Version p"]
        by (cases "pol_Executor p = CheckExecutorExternalRunner") (auto simp: claimCheckJob_def Some split: sum.splits prod.splits option.splits)
    next
      case RunnerRoleExternal
      show ?thesis
      proof (cases "liveRunnerCredentialTx repo credential st")
        case None
        then show ?thesis by (simp add: claimCheckJob_def RunnerRoleExternal)
      next
        case live: (Some k)
        show ?thesis
          using c [OF Some, of RunnerRoleExternal "rc_ID k" "rc_Generation k"]
          by (cases "pol_Executor p = CheckExecutorExternalRunner"; cases "rc_Role k = RunnerRoleExternal")
            (auto simp: claimCheckJob_def Some RunnerRoleExternal live split: sum.splits prod.splits option.splits)
      qed
    qed
  qed
qed

subsection \<open>Admission again\<close>

lemma dedup_digest_same:
  "cj_DedupDigest (admitted_job lib r p (v, h) new t) = cj_DedupDigest (admitted_job lib r p (v', h) new' t')"
  by (simp add: admitted_job_def checkJobDedupDigest_def Let_def)

lemma configuration_again:
  assumes "ensureCheckConfiguration lib repo checks st = ((v, h), st1)"
  obtains v' where "ensureCheckConfiguration lib repo checks (st1\<lparr>cs_jobs := js\<rparr>) = ((v', h), st1\<lparr>cs_jobs := js\<rparr>)"
proof -
  have h: "h = lib_sha256 lib (lib_checks_json lib checks)" using assms by (auto simp: ensureCheckConfiguration_def Let_def split: option.splits)
  have "\<exists>c \<in> set (cs_configs st1). cf_RepositoryID c = repo \<and> cf_ConfigHash c = h"
  proof (cases "find (\<lambda>c. cf_RepositoryID c = repo \<and> cf_ConfigHash c = h) (cs_configs st)")
    case None
    then show ?thesis using assms by (auto simp: ensureCheckConfiguration_def Let_def h)
  next
    case (Some c)
    then have "c \<in> set (cs_configs st) \<and> cf_RepositoryID c = repo \<and> cf_ConfigHash c = h" by (auto simp: find_Some_iff)
    moreover have "st1 = st" using assms Some by (simp add: ensureCheckConfiguration_def Let_def h)
    ultimately show ?thesis by blast
  qed
  then obtain c where "find (\<lambda>c. cf_RepositoryID c = repo \<and> cf_ConfigHash c = h) (cs_configs st1) = Some c"
    by (metis (mono_tags, lifting) find_None_iff option.exhaust)
  then show ?thesis using that by (simp add: ensureCheckConfiguration_def Let_def h)
qed

lemma ensure_config_rest:
  "cs_policies (snd (ensureCheckConfiguration lib repo checks st)) = cs_policies st"
  "cs_tasks (snd (ensureCheckConfiguration lib repo checks st)) = cs_tasks st"
  "cs_ceilings (snd (ensureCheckConfiguration lib repo checks st)) = cs_ceilings st"
  by (simp_all add: ensureCheckConfiguration_def Let_def split: option.split)

lemma ensure_task_rest: "ensureAutomaticCheckTaskTx repo task st = Inr st1 \<Longrightarrow>
    cs_policies st1 = cs_policies st \<and> cs_ceilings st1 = cs_ceilings st \<and> cs_tasks st1 task = Some repo"
  by (auto simp: ensureAutomaticCheckTaskTx_def split: option.splits if_splits)

lemma find_snoc: "find P xs = None \<Longrightarrow> P x \<Longrightarrow> find P (xs @ [x]) = Some x"
  by (induction xs) (auto split: if_splits)

lemma admit_same:
  assumes "AdmitCheckJob lib r new (Some t) st = (Inr (j, existing), st')"
  shows "AdmitCheckJob lib r new' (Some t') st' = (Inr (j, True), st')"
proof -
  let ?repo = "req_RepositoryID r" and ?task = "automaticCheckTaskID lib r"
  have valid: "validateCheckJobRequest r" and a: "admitCheckJobTx lib r new t st = Inr ((j, existing), st')"
    using assms by (auto simp: AdmitCheckJob_def commit_or_rollback_def split: if_splits sum.splits)
  obtain p where p: "cs_policies st ?repo = Some p" using a by (auto simp: admitCheckJobTx_def split: option.splits)
  note a = a [unfolded admitCheckJobTx_def p option.case not_refused]
  obtain st1 where st1: "ensureAutomaticCheckTaskTx ?repo ?task st = Inr st1" using a by (cases "ensureAutomaticCheckTaskTx ?repo ?task st") simp_all
  obtain v h st2 where st2: "ensureCheckConfiguration lib ?repo (req_Checks r) st1 = ((v, h), st2)" by (metis prod.exhaust)
  let ?job = "admitted_job lib r p (v, h) new t"
  have x: "case readCheckJobByDedupTx ?repo (cj_DedupDigest ?job) st2 of Some old \<Rightarrow> j = old \<and> st' = st2
      | None \<Rightarrow> j = ?job \<and> st' = st2\<lparr>cs_jobs := cs_jobs st2 @ [?job]\<rparr>"
    using a by (auto simp: st1 st2 Let_def split: option.splits if_splits)
  then have "st' = st2\<lparr>cs_jobs := cs_jobs st'\<rparr>"
    by (cases "readCheckJobByDedupTx ?repo (cj_DedupDigest ?job) st2") (simp_all only: option.case, simp_all)
  then obtain js where js: "st' = st2\<lparr>cs_jobs := js\<rparr>" by blast
  have dedup: "readCheckJobByDedupTx ?repo (cj_DedupDigest ?job) st' = Some j"
    using x by (auto simp: readCheckJobByDedupTx_def admitted_job_simps find_snoc split: option.splits)
  have same: "cs_policies st' = cs_policies st" "cs_tasks st' = cs_tasks st1" "cs_ceilings st' = cs_ceilings st"
    using ensure_config_rest [of lib ?repo "req_Checks r" st1, unfolded st2 snd_conv] ensure_task_rest [OF st1] by (simp_all add: js)
  have "cs_tasks st1 ?task = Some ?repo" using ensure_task_rest [OF st1] by simp
  then have task: "ensureAutomaticCheckTaskTx ?repo ?task st' = Inr st'" using same(2) by (simp add: ensureAutomaticCheckTaskTx_def)
  obtain v' where c: "ensureCheckConfiguration lib ?repo (req_Checks r) st' = ((v', h), st')"
    using configuration_again [OF st2, of js] js by blast
  have "readCheckJobByDedupTx ?repo (cj_DedupDigest (admitted_job lib r p (v', h) new' t')) st' = Some j"
    using dedup dedup_digest_same by metis
  then have "admitCheckJobTx lib r new' t' st' = Inr ((j, True), st')"
    using a p by (simp add: admitCheckJobTx_def same task c Let_def)
  then show ?thesis by (simp add: AdmitCheckJob_def valid commit_or_rollback_def)
qed

end
