(* ===== verification/CheckGrants.thy ===== *)
theory CheckGrants
  imports CheckQueue
begin

text \<open>
  What the queue of check jobs promises: a job is started at most once, never without the current
  authority, and every refusal leaves the job as it was or ends it.
\<close>

subsection \<open>The start\<close>

text \<open>What a start needs, read off the store at once.\<close>

abbreviation start_protection :: "CheckJobStart \<Rightarrow> protection" where
  "start_protection r \<equiv> (case sta_Protection r of None \<Rightarrow> ProtectionUnknown | Some v \<Rightarrow> v)"

definition start_permitted :: "CheckJobStart \<Rightarrow> int \<Rightarrow> CheckStore \<Rightarrow> bool" where
  "start_permitted r t st \<longleftrightarrow> validStart r \<and>
     (case readCheckJobTx (sta_RepositoryID r) (sta_JobID r) st of
       None \<Rightarrow> False
     | Some job \<Rightarrow>
         held_by job (sta_LeaseID r) (sta_CredentialID r) (sta_CredentialGeneration r) \<and>
         validProtectionForExecutor (cj_Executor job) (start_protection r) \<and>
         cj_Status job = CheckJobClaimed \<and> \<not> lease_over job t \<and> nullableNanoTime (cj_CancelRequestedAt job) = None \<and>
         checkJobCredentialCurrentTx job st \<and>
         (case cs_policies st (sta_RepositoryID r) of None \<Rightarrow> False | Some p \<Rightarrow> checkJobAuthorityCurrent job p))"

fun not_started :: "check_fail \<Rightarrow> bool" where
  "not_started (CheckJobNotStartedError e) = True"
| "not_started e = False"

definition status_of :: "bytes \<Rightarrow> bytes \<Rightarrow> CheckStore \<Rightarrow> job_status option" where
  "status_of repo i st = map_option cj_Status (readCheckJobTx repo i st)"

lemma start_permitted_job:
  assumes "start_permitted r t st"
  obtains job p where "readCheckJobTx (sta_RepositoryID r) (sta_JobID r) st = Some job"
    "cj_Status job = CheckJobClaimed" "cs_policies st (sta_RepositoryID r) = Some p" "checkJobAuthorityCurrent job p"
    "sta_AttemptID r \<noteq> []"
  using assms valid_id_nonempty by (auto simp: start_permitted_def validStart_def split: option.splits)

lemma start_of_permitted:
  assumes "start_permitted r t st" and "readCheckJobTx (sta_RepositoryID r) (sta_JobID r) st = Some job"
  shows "StartCheckJob lib r (Some t) st =
    (case startCheckJobTx lib job (sta_AttemptID r) (start_protection r) t st of
      Inl e \<Rightarrow> (Inl (CheckJobNotStartedError e), st)
    | Inr (a, st1) \<Rightarrow> (Inr (started_row job (at_ID a) (start_protection r) t, a), st1))"
  using assms
  by (simp add: start_permitted_def StartCheckJob_def start_claimed_def Let_def started_row_def split: option.splits sum.splits)

lemma read_after:
  assumes "store_ok st" and "job \<in> set (cs_jobs st)" and "cj_RepositoryID job = repo"
    and "store_ok st'" and "cs_jobs st' = map (\<lambda>k. if k = job then j else k) (cs_jobs st)" and "job_facts j = job_facts job"
  shows "readCheckJobTx repo (cj_ID job) st' = Some j"
  using read_job_in [OF assms(4), of j repo] assms(2,3,5) facts_simps(1,2) [OF assms(6)] by (auto simp: image_iff)

lemma start_refused:
  assumes "store_ok st" and "\<not> start_permitted r t st"
  obtains e st' where "StartCheckJob lib r (Some t) st = (Inl e, st')" "\<not> not_started e"
    "st' = st \<or> e = ErrCheckJobLease \<and> status_of (sta_RepositoryID r) (sta_JobID r) st' = Some CheckJobAmbiguous \<or>
      e \<in> {ErrCheckRunnerCredential, ErrCheckConsentRequired} \<and> status_of (sta_RepositoryID r) (sta_JobID r) st' = Some CheckJobInterrupted"
proof (cases "readCheckJobTx (sta_RepositoryID r) (sta_JobID r) st")
  case None
  then have "\<exists>e. StartCheckJob lib r (Some t) st = (Inl e, st) \<and> \<not> not_started e" by (auto simp: StartCheckJob_def)
  then show ?thesis using that by blast
next
  case (Some job)
  note job = conjunct1 [OF read_job(1) [OF Some]] conjunct2 [OF read_job(1) [OF Some]]
  have one: "(cj_ID j = cj_ID job) = (j = job)" if "j \<in> set (cs_jobs st)" for j
    using store_ok_distinct [OF assms(1) that job(1)] by blast
  show ?thesis
  proof (cases "validStart r \<and> held_by job (sta_LeaseID r) (sta_CredentialID r) (sta_CredentialGeneration r) \<and>
      validProtectionForExecutor (cj_Executor job) (start_protection r) \<and>
      cj_Status job = CheckJobClaimed")
    case False
    then have "\<exists>e. StartCheckJob lib r (Some t) st = (Inl e, st) \<and> \<not> not_started e" by (auto simp: StartCheckJob_def Some)
    then show ?thesis using that by blast
  next
    case True
    show ?thesis
    proof (cases "lease_over job t")
      case over: True
      let ?f = "lost_lease (case nullableNanoTime (cj_LeaseExpiresAt job) of None \<Rightarrow> t | Some e \<Rightarrow> e)"
      let ?st = "update_jobs (\<lambda>j. cj_ID j = cj_ID job \<and> cj_Status j = CheckJobClaimed) ?f st"
      have r: "StartCheckJob lib r (Some t) st = (Inl ErrCheckJobLease, ?st)"
        unfolding StartCheckJob_def option.sel using True over by (simp add: Some)
      have "cs_jobs ?st = map (\<lambda>k. if k = job then ?f job else k) (cs_jobs st)"
        unfolding update_fields using one True by (auto cong: map_cong)
      moreover have "store_ok ?st" using start_step [OF assms(1), of lib r "Some t"] r by (simp add: step_ok_def)
      moreover have "job_facts (?f job) = job_facts job" by (simp add: lost_lease_def job_facts_def)
      ultimately have "readCheckJobTx (sta_RepositoryID r) (cj_ID job) ?st = Some (?f job)"
        using read_after [OF assms(1) job(1)] job(2) by blast
      then show ?thesis using that [OF r] job(2) by (simp add: status_of_def lost_lease_def)
    next
      case runs: False
      have r: "StartCheckJob lib r (Some t) st = start_claimed lib r job t st"
        using True runs by (simp add: StartCheckJob_def Some)
      let ?st = "st\<lparr>cs_jobs := map (\<lambda>k. if k = job then interrupted t authority_changed job else k) (cs_jobs st)\<rparr>"
      have "step_ok st ?st" using interrupt_step [OF assms(1) interrupt_one [OF assms(1) job(1)]] True by simp
      then have "readCheckJobTx (sta_RepositoryID r) (cj_ID job) ?st = Some (interrupted t authority_changed job)"
        by (intro read_after [OF assms(1) job(1)]) (simp_all add: job step_ok_def interrupted_def job_facts_def)
      then have s: "status_of (sta_RepositoryID r) (sta_JobID r) ?st = Some CheckJobInterrupted"
        using job(2) by (simp add: status_of_def interrupted_def)
      show ?thesis
      proof (cases "(case cs_policies st (sta_RepositoryID r) of None \<Rightarrow> True | Some p \<Rightarrow> \<not> checkJobAuthorityCurrent job p) \<or>
          \<not> checkJobCredentialCurrentTx job st")
        case gone: True
        then have "start_claimed lib r job t st = (Inl (if \<not> checkJobCredentialCurrentTx job st then ErrCheckRunnerCredential else ErrCheckConsentRequired), ?st)"
          by (simp add: start_claimed_def Let_def interrupt_one [OF assms(1) job(1)])
        then show ?thesis using that s by (simp add: r split: if_splits)
      next
        case False
        then have "nullableNanoTime (cj_CancelRequestedAt job) \<noteq> None"
          using assms(2) True runs by (auto simp: start_permitted_def Some split: option.splits)
        then have "start_claimed lib r job t st = (Inl ErrCheckJobState, st)" using False by (simp add: start_claimed_def Let_def)
        then show ?thesis using that by (simp add: r)
      qed
    qed
  qed
qed

text \<open>
  When the attempt of a permitted start can be recorded: its identity is new, the start has a time, and the
  facts of the job make a valid registration under the configuration of the job and the task of its repository.
\<close>

definition registrable :: "CheckJob \<Rightarrow> CheckConfiguration \<Rightarrow> bool" where
  "registrable job cf \<longleftrightarrow> cj_TaskID job \<noteq> [] \<and> stateObjectID (cj_SourceOID job) \<and> lim_TimeoutMS (cj_Limits job) \<ge> 0 \<and>
     lim_OutputLimitBytes (cj_Limits job) \<ge> 0 \<and> length (cf_Checks cf) \<le> MaximumCheckDefinitions \<and>
     list_all validCheckDefinition (cf_Checks cf)"

definition start_recordable :: "CheckJobStart \<Rightarrow> int \<Rightarrow> CheckStore \<Rightarrow> bool" where
  "start_recordable r t st \<longleftrightarrow> readAttemptTx (sta_AttemptID r) st = None \<and> t \<noteq> 0 \<and>
     (case readCheckJobTx (sta_RepositoryID r) (sta_JobID r) st of
       None \<Rightarrow> False
     | Some job \<Rightarrow> cs_tasks st (cj_TaskID job) = Some (cj_RepositoryID job) \<and>
         (case readCheckConfigurationTx (cj_RepositoryID job) (cj_ConfigurationVersion job) st of
           None \<Rightarrow> False
         | Some cf \<Rightarrow> registrable job cf))"

lemma read_updated:
  assumes "store_ok st" and "readCheckJobTx repo i st = Some job" and "P job"
    and "\<And>k. P k \<Longrightarrow> cj_ID k = cj_ID job" and "\<And>k. cj_ID (f k) = cj_ID k \<and> cj_RepositoryID (f k) = cj_RepositoryID k"
  shows "readCheckJobTx repo i (update_jobs P f st) = Some (f job)"
proof -
  note job = read_job(1) [OF assms(2)]
  have only: "P k \<longleftrightarrow> k = job" if "k \<in> set (cs_jobs st)" for k
    using assms(3,4) store_ok_distinct [OF assms(1) that] job by metis
  have "find (\<lambda>j. cj_RepositoryID j = repo \<and> cj_ID j = i) (map (\<lambda>j. if P j then f j else j) js) =
      map_option (\<lambda>j. if P j then f j else j) (find (\<lambda>j. cj_RepositoryID j = repo \<and> cj_ID j = i) js)" for js
    using assms(5) by (induction js) auto
  then show ?thesis using assms(2,3) by (simp add: readCheckJobTx_def)
qed

lemma start_origin:
  assumes "cj_AttemptID job = []" and "attempt \<noteq> []" and "cj_CredentialID job \<noteq> []"
  shows "applyJobOrigin ((job_attempt job attempt (cf_Checks cf) t)\<lparr>at_ExecutionScope := ExecutionScopeInherited\<rparr>)
      (job\<lparr>cj_Status := CheckJobStarted, cj_StartedAt := Some t, cj_Protection := prot\<rparr>) cf replay =
    (if replay then Inl ErrCheckJobAttemptBound
     else if t = 0 then Inl ErrCheckJobCredential
     else Inr (origin_applied ((job_attempt job attempt (cf_Checks cf) t)\<lparr>at_ExecutionScope := ExecutionScopeInherited\<rparr>)
       (job\<lparr>cj_Status := CheckJobStarted, cj_StartedAt := Some t, cj_Protection := prot\<rparr>)))"
  using assms by (simp add: applyJobOrigin_def job_attempt_def nullableNanoTime_def)

lemma start_registration:
  assumes "validAttemptID attempt" and "validAttemptID (cj_ID job)" and "validAttemptID (cj_CredentialID job)"
    and "cj_RepositoryID job \<noteq> []" and "t \<noteq> 0"
  shows "validateRegistration (origin_applied ((job_attempt job attempt (cf_Checks cf) t)\<lparr>at_ExecutionScope := ExecutionScopeInherited\<rparr>)
      (job\<lparr>cj_Status := CheckJobStarted, cj_StartedAt := Some t, cj_Protection := prot\<rparr>)) \<longleftrightarrow> registrable job cf"
proof -
  have "executionScopeForExecutor e \<noteq> NoScope" for e by (cases e) simp_all
  moreover have "length (cj_CredentialID job) \<le> 100" using assms(3) by (simp add: validAttemptID_def)
  ultimately show ?thesis
    using assms by (auto simp: validateRegistration_def origin_applied_def job_attempt_def registrable_def nullableNanoTime_def)
qed

lemma register_unfold:
  assumes "at_ExecutionScope a = NoScope" and "readCheckJobTx (at_RepositoryID a) (at_JobID a) st = Some job"
    and "readCheckConfigurationTx (cj_RepositoryID job) (cj_ConfigurationVersion job) st = Some cf"
    and "applyJobOrigin (a\<lparr>at_ExecutionScope := ExecutionScopeInherited\<rparr>) job cf (readAttemptTx (at_ID a) st \<noteq> None) = o'"
  shows "registerCheckAttemptTx lib a st = (case o' of
      Inl e \<Rightarrow> Inl e
    | Inr b \<Rightarrow>
        if \<not> validateRegistration b then Inl ErrInvalidRegistration
        else (case readAttemptTx (at_ID a) st of
          Some old \<Rightarrow>
            if at_RegistrationDigest old \<noteq> registrationDigest lib (b\<lparr>at_CreatedAt := at_CreatedAt old\<rparr>) then Inl ErrAttemptConflict
            else Inr (old, st)
        | None \<Rightarrow>
            if cs_tasks st (at_TaskID b) \<noteq> Some (at_RepositoryID b) then Inl ErrTaskNotFound
            else (case insert_attempt lib b st of (a2, st2) \<Rightarrow>
              let P = (\<lambda>j. cj_ID j = at_JobID a2 \<and> cj_RepositoryID j = at_RepositoryID a2 \<and>
                  (cj_AttemptID j = [] \<or> cj_AttemptID j = at_ID a2)) in
              if affected_jobs P st2 \<noteq> 1 then Inl ErrCheckJobAttemptBound
              else Inr (a2, update_jobs P (\<lambda>j. j\<lparr>cj_AttemptID := at_ID a2\<rparr>) st2))))"
  using assms by (simp add: registerCheckAttemptTx_def)

lemma start_tx_recorded:
  assumes "store_ok st" and "start_permitted r t st" and "readCheckJobTx (sta_RepositoryID r) (sta_JobID r) st = Some job"
  shows "(\<exists>x. startCheckJobTx lib job (sta_AttemptID r) prot t st = Inr x) \<longleftrightarrow> start_recordable r t st"
proof -
  let ?id = "sta_AttemptID r"
  let ?P = "\<lambda>j. cj_ID j = cj_ID job \<and> cj_Status j = CheckJobClaimed"
  let ?f = "\<lambda>j. j\<lparr>cj_Status := CheckJobStarted, cj_StartedAt := Some t, cj_Protection := prot\<rparr>"
  let ?st = "update_jobs ?P ?f st"
  have job: "job \<in> set (cs_jobs st)" "cj_ID job = sta_JobID r" "cj_RepositoryID job = sta_RepositoryID r"
    using read_job(1) [OF assms(3)] by simp_all
  have p: "validStart r" "held_by job (sta_LeaseID r) (sta_CredentialID r) (sta_CredentialGeneration r)" "cj_Status job = CheckJobClaimed"
    using assms(2,3) by (simp_all add: start_permitted_def)
  then have v: "validAttemptID ?id" "validAttemptID (cj_ID job)" "validAttemptID (cj_CredentialID job)" "cj_RepositoryID job \<noteq> []"
    using job by (simp_all add: validStart_def held_by_def)
  then have ne: "?id \<noteq> []" "cj_CredentialID job \<noteq> []" by (simp_all add: valid_id_nonempty)
  have never: "cj_AttemptID job = []" using store_ok_job(1) [OF assms(1) job(1)] p(3) by (simp add: row_ok_def never_started_def)
  have read: "readCheckJobTx (cj_RepositoryID job) (cj_ID job) ?st = Some (?f job)"
    using read_updated [OF assms(1,3), of ?P ?f] p(3) job by simp
  have same: "readCheckConfigurationTx repo n ?st = readCheckConfigurationTx repo n st" "readAttemptTx i ?st = readAttemptTx i st" for repo n i
    by (simp_all add: readCheckConfigurationTx_def readAttemptTx_def)
  show ?thesis
  proof (cases "readCheckConfigurationTx (cj_RepositoryID job) (cj_ConfigurationVersion job) st")
    case None
    then show ?thesis by (simp add: startCheckJobTx_def start_recordable_def assms(3))
  next
    case (Some cf)
    let ?a = "job_attempt job ?id (cf_Checks cf) t"
    define J where "J = ?f job"
    define b where "b = origin_applied (?a\<lparr>at_ExecutionScope := ExecutionScopeInherited\<rparr>) J"
    have a: "at_ExecutionScope ?a = NoScope" "at_ID ?a = ?id" "at_RepositoryID ?a = cj_RepositoryID job" "at_JobID ?a = cj_ID job"
      by (simp_all add: job_attempt_def)
    have b: "at_TaskID b = cj_TaskID job" "at_RepositoryID b = cj_RepositoryID job" "at_ID b = ?id" "at_JobID b = cj_ID job"
      by (simp_all add: b_def J_def origin_applied_def job_attempt_def)
    have J: "cj_RepositoryID J = cj_RepositoryID job" "cj_ConfigurationVersion J = cj_ConfigurationVersion job" by (simp_all add: J_def)
    have valid: "validateRegistration b \<longleftrightarrow> registrable job cf" if "t \<noteq> 0"
      unfolding b_def J_def by (rule start_registration [OF v that])
    have "applyJobOrigin (?a\<lparr>at_ExecutionScope := ExecutionScopeInherited\<rparr>) J cf (readAttemptTx (at_ID ?a) ?st \<noteq> None) =
        (if readAttemptTx ?id st \<noteq> None then Inl ErrCheckJobAttemptBound else if t = 0 then Inl ErrCheckJobCredential else Inr b)"
      unfolding a same b_def J_def by (rule start_origin [OF never ne])
    note reg = register_unfold [OF a(1) _ _ this, of lib, unfolded a J same, OF read [folded J_def] Some]
    have tx: "startCheckJobTx lib job ?id prot t st = registerCheckAttemptTx lib ?a ?st"
      by (simp add: startCheckJobTx_def Some)
    have one: "affected_jobs (\<lambda>j. cj_ID j = cj_ID job \<and> cj_RepositoryID j = cj_RepositoryID job \<and> (cj_AttemptID j = [] \<or> cj_AttemptID j = ?id)) st2 = 1"
      if "cs_jobs st2 = cs_jobs ?st" for st2
    proof -
      let ?Q = "\<lambda>j. cj_ID j = cj_ID job \<and> cj_RepositoryID j = cj_RepositoryID job \<and> (cj_AttemptID j = [] \<or> cj_AttemptID j = ?id)"
      have "?Q \<circ> (\<lambda>j. if ?P j then ?f j else j) = ?Q" by (rule ext) auto
      then have "affected_jobs ?Q st2 = affected_jobs ?Q st"
        unfolding affected_jobs_def that update_fields filter_map length_map by (rule arg_cong)
      also have "\<dots> = 1" by (rule affected_one [OF assms(1) job(1)]) (use never in auto)
      finally show ?thesis .
    qed
    have rec: "start_recordable r t st \<longleftrightarrow> readAttemptTx ?id st = None \<and> t \<noteq> 0 \<and>
        cs_tasks st (cj_TaskID job) = Some (cj_RepositoryID job) \<and> registrable job cf"
      by (simp add: start_recordable_def assms(3) Some)
    show ?thesis
    proof (cases "readAttemptTx ?id st \<noteq> None \<or> t = 0")
      case True
      then show ?thesis unfolding tx reg rec by auto
    next
      case False
      then have new: "readAttemptTx ?id st = None" "t \<noteq> 0" by simp_all
      obtain a2 st2 where i: "insert_attempt lib b ?st = (a2, st2)" by fastforce
      note ia = insert_attempt_simps [OF i, unfolded b]
      show ?thesis
        unfolding tx reg rec using valid [OF new(2)] one [OF ia(5)] by (simp add: new b i ia(1-3))
    qed
  qed
qed

lemma start_permitted_grant:
  assumes "store_ok st" and "start_permitted r t st"
  shows "case StartCheckJob lib r (Some t) st of
     (Inr (job, a), st') \<Rightarrow> cj_Status job = CheckJobStarted \<and> cj_AttemptID job = sta_AttemptID r \<and>
       at_JobID a = sta_JobID r \<and> at_Status a = None \<and> readAttemptTx (sta_AttemptID r) st = None \<and>
       readAttemptTx (sta_AttemptID r) st' = Some a \<and> readCheckJobTx (sta_RepositoryID r) (sta_JobID r) st' = Some job \<and>
       start_recordable r t st
   | (Inl e, st') \<Rightarrow> not_started e \<and> st' = st \<and> \<not> start_recordable r t st"
proof -
  from start_permitted_job [OF assms(2)] obtain job p where job: "readCheckJobTx (sta_RepositoryID r) (sta_JobID r) st = Some job"
    "cj_Status job = CheckJobClaimed" "sta_AttemptID r \<noteq> []" .
  note recorded = start_tx_recorded [OF assms job(1), of lib "start_protection r"]
  note mem = conjunct1 [OF read_job(1) [OF job(1)]] conjunct2 [OF read_job(1) [OF job(1)]]
  show ?thesis
  proof (cases "startCheckJobTx lib job (sta_AttemptID r) (start_protection r) t st")
    case (Inl e)
    then show ?thesis using recorded by (simp add: start_of_permitted [OF assms(2) job(1)])
  next
    case (Inr x)
    then obtain a st1 where s: "startCheckJobTx lib job (sta_AttemptID r) (start_protection r) t st = Inr (a, st1)" by (cases x) simp
    note w = start_tx_writes [OF assms(1) mem(1) job(2,3) s]
    have "store_ok st1" using start_tx_step [OF assms(1) mem(1) job(2,3) s] by (simp add: step_ok_def)
    then have "readCheckJobTx (sta_RepositoryID r) (cj_ID job) st1 = Some (started_row job (sta_AttemptID r) (start_protection r) t)"
      using w mem(2) by (intro read_after [OF assms(1) mem(1)]) (simp_all cong: map_cong)
    moreover have "readAttemptTx (sta_AttemptID r) st = None" using w unfolding readAttemptTx_def find_None_iff by (metis image_eqI)
    moreover from this have "readAttemptTx (sta_AttemptID r) st1 = Some a" using w by (simp add: readAttemptTx_def find_snoc)
    moreover have "start_recordable r t st" using recorded s by blast
    ultimately show ?thesis using w mem(2) by (simp add: start_of_permitted [OF assms(2) job(1)] s)
  qed
qed

lemma start_outcome_of:
  assumes "store_ok st"
  shows "case StartCheckJob lib r (Some t) st of
     (Inr (job, a), st') \<Rightarrow> start_permitted r t st \<and> start_recordable r t st \<and>
       cj_Status job = CheckJobStarted \<and> cj_AttemptID job = sta_AttemptID r \<and>
       at_JobID a = sta_JobID r \<and> at_Status a = None \<and> readAttemptTx (sta_AttemptID r) st = None \<and>
       readAttemptTx (sta_AttemptID r) st' = Some a \<and> readCheckJobTx (sta_RepositoryID r) (sta_JobID r) st' = Some job
   | (Inl e, st') \<Rightarrow>
       if start_permitted r t st then \<not> start_recordable r t st \<and> not_started e \<and> st' = st
       else \<not> not_started e \<and>
         (st' = st \<or> e = ErrCheckJobLease \<and> status_of (sta_RepositoryID r) (sta_JobID r) st' = Some CheckJobAmbiguous \<or>
          e \<in> {ErrCheckRunnerCredential, ErrCheckConsentRequired} \<and>
          status_of (sta_RepositoryID r) (sta_JobID r) st' = Some CheckJobInterrupted)"
proof (cases "start_permitted r t st")
  case True
  obtain x st' where s: "StartCheckJob lib r (Some t) st = (x, st')" by fastforce
  from start_permitted_grant [OF assms True, of lib] show ?thesis
    unfolding s by (cases x) (simp_all add: True split: prod.splits)
next
  case False
  obtain e st' where s: "StartCheckJob lib r (Some t) st = (Inl e, st')" "\<not> not_started e"
    and e: "st' = st \<or> e = ErrCheckJobLease \<and> status_of (sta_RepositoryID r) (sta_JobID r) st' = Some CheckJobAmbiguous \<or>
      e \<in> {ErrCheckRunnerCredential, ErrCheckConsentRequired} \<and> status_of (sta_RepositoryID r) (sta_JobID r) st' = Some CheckJobInterrupted"
    by (rule start_refused [OF assms False])
  show ?thesis unfolding s(1) prod.case sum.case if_not_P [OF False] using e s(2) by blast
qed

subsection \<open>Grants\<close>

lemma granted_facts:
  assumes "store_ok st" and "granted lib op st = Some i"
  obtains job p k where "job \<in> set (cs_jobs st)" "cj_ID job = i" "cj_Status job = CheckJobClaimed"
    "cs_policies st (cj_RepositoryID job) = Some p" "checkJobAuthorityCurrent job p"
    "k \<in> set (cs_jobs (check_step lib op st))" "cj_ID k = i" "cj_AttemptID k \<noteq> []"
proof -
  obtain r now x where op: "op = StartJob r now" "fst (StartCheckJob lib r now st) = Inr x" "sta_JobID r = i"
    using assms(2) by (cases op) (auto split: sum.splits)
  then obtain t where t: "now = Some t" by (cases now) (auto simp: StartCheckJob_def)
  have permitted: "start_permitted r t st"
  proof (rule ccontr)
    assume "\<not> start_permitted r t st"
    from start_refused [OF assms(1) this, of lib] show False using op(2) by (metis Inl_Inr_False fst_conv t)
  qed
  from start_permitted_job [OF permitted] obtain job p where job: "readCheckJobTx (sta_RepositoryID r) (sta_JobID r) st = Some job"
    "cj_Status job = CheckJobClaimed" "cs_policies st (sta_RepositoryID r) = Some p" "checkJobAuthorityCurrent job p" "sta_AttemptID r \<noteq> []" .
  have mem: "job \<in> set (cs_jobs st)" "cj_ID job = i" "cj_RepositoryID job = sta_RepositoryID r" using read_job(1) [OF job(1)] op(3) by simp_all
  obtain a st1 where s: "startCheckJobTx lib job (sta_AttemptID r) (start_protection r) t st = Inr (a, st1)"
    "StartCheckJob lib r (Some t) st = (Inr (started_row job (at_ID a) (start_protection r) t, a), st1)"
    using start_of_permitted [OF permitted job(1), of lib] op(2) t by (auto split: sum.splits)
  have "started_row job (sta_AttemptID r) (start_protection r) t \<in> set (cs_jobs st1)"
    using start_tx_writes [OF assms(1) mem(1) job(2,5) s(1)] mem(1) by (auto simp: image_iff)
  then show ?thesis using that [OF mem(1,2) job(2)] job(3-5) mem(2,3) op(1) t s(2) by simp
qed

lemma store_le_row: "store_le st st' \<Longrightarrow> j \<in> set (cs_jobs st) \<Longrightarrow> \<exists>k \<in> set (cs_jobs st'). row_le j k"
  unfolding store_le_def jobs_le_def by (metis in_set_conv_nth order_less_le_trans)

lemma step_job:
  assumes "store_ok st" and "j \<in> set (cs_jobs st)"
  obtains k where "k \<in> set (cs_jobs (check_step lib op st))" "row_le j k" "store_ok (check_step lib op st)"
  using check_step_ok [OF assms(1), of lib op] store_le_row [of st _ j] assms(2) unfolding step_ok_def by blast

lemma never_again:
  "store_ok st \<Longrightarrow> j \<in> set (cs_jobs st) \<Longrightarrow> cj_AttemptID j \<noteq> [] \<Longrightarrow> cj_ID j \<notin> set (start_grants lib ops st)"
proof (induction ops arbitrary: st j)
  case (Cons op ops)
  have "granted lib op st \<noteq> Some (cj_ID j)"
  proof
    assume "granted lib op st = Some (cj_ID j)"
    from granted_facts [OF Cons.prems(1) this] obtain job where job: "job \<in> set (cs_jobs st)" "cj_ID job = cj_ID j" "cj_Status job = CheckJobClaimed"
      by metis
    have "job = j" using store_ok_distinct [OF Cons.prems(1) job(1) Cons.prems(2) job(2)] .
    then show False using store_ok_job(1) [OF Cons.prems(1,2)] job(3) Cons.prems(3) by (simp add: row_ok_def never_started_def)
  qed
  moreover obtain k where k: "k \<in> set (cs_jobs (check_step lib op st))" "row_le j k" "store_ok (check_step lib op st)"
    using step_job [OF Cons.prems(1,2)] .
  then have "cj_ID k = cj_ID j" "cj_AttemptID k \<noteq> []" using Cons.prems(3) facts_simps(1) [of j k] by (simp_all add: row_le_def)
  then have "cj_ID j \<notin> set (start_grants lib ops (check_step lib op st))" using Cons.IH [OF k(3,1)] by metis
  ultimately show ?case by (auto split: option.split)
qed simp

lemma grants_distinct: "store_ok st \<Longrightarrow> distinct (start_grants lib ops st)"
proof (induction ops arbitrary: st)
  case (Cons op ops)
  have ok: "store_ok (check_step lib op st)" using check_step_ok [OF Cons.prems] by (simp add: step_ok_def)
  show ?case
  proof (cases "granted lib op st")
    case (Some i)
    from granted_facts [OF Cons.prems Some] obtain k where "k \<in> set (cs_jobs (check_step lib op st))" "cj_ID k = i" "cj_AttemptID k \<noteq> []"
      by metis
    then have "i \<notin> set (start_grants lib ops (check_step lib op st))" using never_again [OF ok] by blast
    then show ?thesis using Cons.IH [OF ok] Some by simp
  qed (use Cons.IH [OF ok] in simp)
qed simp

text \<open>Authority that is gone does not come back to a job.\<close>

lemma authority_back: "admitted_under j p \<Longrightarrow> policy_le p q \<Longrightarrow> checkJobAuthorityCurrent j q \<Longrightarrow> checkJobAuthorityCurrent j p"
  by (auto simp: admitted_under_def policy_le_def checkJobAuthorityCurrent_def checkConsentCurrent_def policyAllowsCheckEvent_def)

lemma never_after_withdrawal:
  "store_ok st \<Longrightarrow> j \<in> set (cs_jobs st) \<Longrightarrow> cs_policies st (cj_RepositoryID j) = Some p \<Longrightarrow> \<not> checkJobAuthorityCurrent j p \<Longrightarrow>
   cj_ID j \<notin> set (start_grants lib ops st)"
proof (induction ops arbitrary: st j p)
  case (Cons op ops)
  have "granted lib op st \<noteq> Some (cj_ID j)"
  proof
    assume "granted lib op st = Some (cj_ID j)"
    from granted_facts [OF Cons.prems(1) this] obtain job q where job: "job \<in> set (cs_jobs st)" "cj_ID job = cj_ID j"
      "cs_policies st (cj_RepositoryID job) = Some q" "checkJobAuthorityCurrent job q" by metis
    have "job = j" using store_ok_distinct [OF Cons.prems(1) job(1) Cons.prems(2) job(2)] .
    then show False using job(3,4) Cons.prems(3,4) by simp
  qed
  moreover have "cj_ID j \<notin> set (start_grants lib ops (check_step lib op st))"
  proof -
    obtain k where k: "k \<in> set (cs_jobs (check_step lib op st))" "row_le j k" "store_ok (check_step lib op st)"
      using step_job [OF Cons.prems(1,2)] .
    have facts: "job_facts j = job_facts k" using k(2) by (rule row_le_facts)
    obtain q where q: "cs_policies (check_step lib op st) (cj_RepositoryID j) = Some q" "policy_le p q"
      using check_step_ok [OF Cons.prems(1), of lib op] Cons.prems(3) by (auto simp: step_ok_def store_le_def)
    have "admitted_under j p" using store_ok_job(2) [OF Cons.prems(1,2)] Cons.prems(3) by simp
    then have "\<not> checkJobAuthorityCurrent k q" using authority_back [OF _ q(2)] Cons.prems(4) authority_facts [OF facts] by blast
    then show ?thesis using Cons.IH [OF k(3,1)] q(1) facts_simps(1,2) [OF facts] by simp
  qed
  ultimately show ?case by (auto split: option.split)
qed simp

end
