(* ===== verification/CheckJobProps.thy ===== *)
theory CheckJobProps
  imports CheckGrants
begin

text \<open>
  The properties of the queue of check jobs, and a history in which a job is admitted, claimed,
  started and completed.
\<close>

subsection \<open>A history\<close>

definition sample_lib :: CheckLibrary where
  "sample_lib = \<lparr>lib_sha256 = (\<lambda>b. b), lib_execution_json = (\<lambda>e. ''{}''), lib_checks_json = (\<lambda>cs. concat (map cd_Command cs))\<rparr>"

definition sample_id :: "char \<Rightarrow> bytes" where
  "sample_id c = replicate 32 c"

definition sample_ceilings :: CheckCeilings where
  "sample_ceilings =
     \<lparr>cl_TimeoutMS = 3600000, cl_OutputLimitBytes = 262144, cl_QueueLimit = 100, cl_ActiveJobs = 8, cl_ContainerCPUMillis = 4000,
      cl_ContainerMemoryBytes = 2000000000, cl_ContainerPIDs = 512, cl_ContainerScratchBytes = 2000000000, cl_SourceTotalBytes = 1000000000\<rparr>"

definition sample_policy :: CheckPolicy where
  "sample_policy =
     \<lparr>pol_Version = 0, pol_Digest = ''policy'', pol_Executor = CheckExecutorHost, pol_AllowedEvents = [EventPush], pol_MaxTimeoutMS = 600000,
      pol_MaxOutputLimitBytes = 65536, pol_QueueLimit = 2, pol_MaxActiveJobs = 1, pol_MaxLeaseMS = 60000,
      pol_Execution = \<lparr>Source = \<lparr>MaxEntries = 1000, MaxFileBytes = 1000000, MaxTotalBytes = 1000000, MaxPathDepth = 20, MaxPathBytes = 1000,
          MaxNameBytes = 200, MetadataLimit = 100000\<rparr>,
        ContainerImage = [], ContainerRuntime = [], ContainerNetwork = [], ContainerCPUMillis = 0, ContainerMemoryBytes = 0, ContainerPIDs = 0,
        ContainerScratchBytes = 0, ContainerAllowTags = False, ContainerPullMissing = False, ContainerMissingEnforcement = [],
        ContainerImageVolumes = False, ContainerWritableRoot = False, Legacy = False\<rparr>,
      pol_ConsentVersion = 0, pol_ConsentDigest = [], pol_ConsentActive = False, pol_RunnerGeneration = 0, pol_AuthorityEpoch = []\<rparr>"

definition sample_job_request :: CheckJobRequest where
  "sample_job_request =
     \<lparr>req_RepositoryID = ''repo'', req_Trigger = EventPush, req_EventKey = ''push-1'', req_SourceOID = replicate 40 CHR ''a'', req_BaseOID = [],
      req_PullRequestNumber = 0, req_TriggerRef = ''main'', req_WorkflowPath = [], req_WorkflowOID = [], req_WorkflowDigest = replicate 64 CHR ''b'',
      req_Checks = [\<lparr>cd_Name = ''test'', cd_Command = ''make test''\<rparr>], req_TimeoutMS = 0, req_OutputLimitBytes = 0, req_RerunRoot = [],
      req_RerunGeneration = 0\<rparr>"

definition sample_start :: CheckJobStart where
  "sample_start =
     \<lparr>sta_RepositoryID = ''repo'', sta_JobID = sample_id CHR ''1'', sta_LeaseID = sample_id CHR ''2'', sta_CredentialID = sample_id CHR ''e'',
      sta_CredentialGeneration = 1, sta_Protection = None, sta_AttemptID = sample_id CHR ''3''\<rparr>"

definition sample_authority :: CheckJobCompletionAuthority where
  "sample_authority =
     \<lparr>aut_JobID = sample_id CHR ''1'', aut_LeaseID = sample_id CHR ''2'', aut_CredentialID = sample_id CHR ''e'', aut_CredentialGeneration = 1\<rparr>"

definition sample_completion :: CheckCompletion where
  "sample_completion =
     \<lparr>cmp_AttemptID = sample_id CHR ''3'', cmp_RepositoryID = ''repo'', cmp_TaskID = automaticCheckTaskID sample_lib sample_job_request,
      cmp_Results = [\<lparr>res_Name = ''test'', res_Command = ''make test'', res_Status = CheckJobPassed, res_ExitCode = Some 0, res_DurationMS = 12,
        res_OutputExcerpt = ''ok'', res_Truncated = False, res_OutputLimitExceededBytes = 0, res_CleanupError = [], res_Role = []\<rparr>],
      cmp_Cancelled = False, cmp_FinishedAt = Some 9, cmp_WorktreeState = WorktreeClean, cmp_Log = ''ok'', cmp_LogTruncated = False\<rparr>"

definition sample_admitted :: "check_op list" where
  "sample_admitted = [WritePolicy ''repo'' sample_policy None True (sample_id CHR ''e'') (Some 1), AdmitJob sample_job_request (sample_id CHR ''1'') (Some 2)]"

definition sample_ops :: "check_op list" where
  "sample_ops = [ClaimLocalJob ''repo'' (Some 3) (sample_id CHR ''2''), StartJob sample_start (Some 4), StartJob sample_start (Some 5),
     CompleteAttempt sample_completion sample_authority 9]"

definition sample_consented :: CheckPolicy where
  "sample_consented = sample_policy\<lparr>pol_Version := 1, pol_AuthorityEpoch := sample_id CHR ''e'', pol_ConsentVersion := 1,
     pol_ConsentDigest := ''policy'', pol_ConsentActive := True\<rparr>"

definition sample_job :: CheckJob where
  "sample_job = admitted_job sample_lib sample_job_request sample_consented (1, ''make test'') (sample_id CHR ''1'') 2"

definition sample_store :: CheckStore where
  "sample_store = \<lparr>cs_policies = [''repo'' \<mapsto> sample_consented], cs_credentials = [], cs_jobs = [sample_job],
     cs_tasks = [automaticCheckTaskID sample_lib sample_job_request \<mapsto> ''repo''],
     cs_configs = [\<lparr>cf_RepositoryID = ''repo'', cf_Version = 1, cf_ConfigHash = ''make test'', cf_Checks = req_Checks sample_job_request\<rparr>],
     cs_attempts = [], cs_sequences = (\<lambda>_. 0), cs_ceilings = sample_ceilings\<rparr>"

lemma valid_request: "validateCheckJobRequest sample_job_request"
  by code_simp

lemma sample_policy_step:
  "check_step sample_lib (sample_admitted ! 0) (empty_store sample_ceilings) =
     (empty_store sample_ceilings)\<lparr>cs_policies := [''repo'' \<mapsto> sample_consented]\<rparr>"
  by (simp add: sample_admitted_def writeCheckPolicy_def empty_store_def replace_policy_def grantCheckConsentTx_def
      commit_or_rollback_def above_ceilings_def CeilingExceeded_def sample_ceilings_def sample_policy_def sample_consented_def Let_def)

lemma sample_hash: "lib_sha256 sample_lib (lib_checks_json sample_lib (req_Checks sample_job_request)) = ''make test''"
  by (simp add: sample_lib_def sample_job_request_def)

lemma sample_admit:
  "AdmitCheckJob sample_lib sample_job_request (sample_id CHR ''1'') (Some 2) ((empty_store sample_ceilings)\<lparr>cs_policies := [''repo'' \<mapsto> sample_consented]\<rparr>) =
     (Inr (sample_job, False), sample_store)"
proof -
  have p: "checkConsentCurrent sample_consented" "policyAllowsCheckEvent sample_consented EventPush" "\<not> above_ceilings sample_ceilings sample_consented"
    "pol_QueueLimit sample_consented = 2"
    by (simp_all add: sample_consented_def sample_policy_def checkConsentCurrent_def policyAllowsCheckEvent_def above_ceilings_def CeilingExceeded_def sample_ceilings_def)
  have r: "req_RepositoryID sample_job_request = ''repo''" "req_Trigger sample_job_request = EventPush" by (simp_all add: sample_job_request_def)
  show ?thesis
    by (simp add: AdmitCheckJob_def valid_request admitCheckJobTx_def p r sample_hash empty_store_def ensureAutomaticCheckTaskTx_def
        ensureCheckConfiguration_def readCheckJobByDedupTx_def countUnfinishedCheckJobsTx_def commit_or_rollback_def sample_store_def sample_job_def Let_def)
qed

lemma sample_admitted_store: "check_steps sample_lib sample_admitted (empty_store sample_ceilings) = sample_store"
  using sample_policy_step sample_admit by (simp add: sample_admitted_def)

lemma sample_facts:
  "cj_ID sample_job = sample_id CHR ''1''" "cj_RepositoryID sample_job = ''repo''" "cj_Status sample_job = CheckJobPending"
  "cj_Trigger sample_job = EventPush" "cj_PolicyVersion sample_job = 1" "cj_ConsentVersion sample_job = 1"
  "cj_Executor sample_job = CheckExecutorHost" "Legacy (cj_Execution sample_job) = False" "cj_ConfigurationVersion sample_job = 1"
  "cj_StartedAt sample_job = None" "cj_AttemptID sample_job = []" "cj_CancelRequestedAt sample_job = None"
  "cj_SourceOID sample_job = replicate 40 CHR ''a''" "cj_TaskID sample_job = automaticCheckTaskID sample_lib sample_job_request"
  "cj_Limits sample_job = \<lparr>lim_TimeoutMS = 600000, lim_OutputLimitBytes = 65536\<rparr>"
  by (simp_all add: sample_job_def admitted_job_def sample_job_request_def sample_consented_def sample_policy_def effectiveCheckJobLimits_def Let_def)

lemma sample_ids: "validAttemptID (sample_id CHR ''1'')" "validAttemptID (sample_id CHR ''2'')" "validAttemptID (sample_id CHR ''3'')"
  "validAttemptID (sample_id CHR ''e'')" "sample_id CHR ''3'' \<noteq> []" "sample_id CHR ''e'' \<noteq> []" "length (sample_id CHR ''e'') = 32"
  by code_simp+

definition sample_claimed :: CheckJob where
  "sample_claimed = claimed 3 60000 (sample_id CHR ''2'') (sample_id CHR ''e'', 1, RunnerRoleServer) sample_job"

lemma sample_policy_facts:
  "checkConsentCurrent sample_consented" "Legacy (pol_Execution sample_consented) = False" "pol_MaxActiveJobs sample_consented = 1"
  "pol_Executor sample_consented = CheckExecutorHost" "pol_Version sample_consented = 1" "pol_MaxLeaseMS sample_consented = 60000"
  "pol_AuthorityEpoch sample_consented = sample_id CHR ''e''" "pol_ConsentVersion sample_consented = 1"
  "policyAllowsCheckEvent sample_consented EventPush"
  by (simp_all add: sample_consented_def sample_policy_def checkConsentCurrent_def policyAllowsCheckEvent_def)

lemma sample_authority: "checkJobAuthorityCurrent sample_job sample_consented"
  by (simp add: checkJobAuthorityCurrent_def sample_facts sample_policy_facts)

lemma sample_claim_step:
  "check_step sample_lib (sample_ops ! 0) sample_store = sample_store\<lparr>cs_jobs := [sample_claimed]\<rparr>"
proof -
  have "interruptStalePendingCheckJobsTx ''repo'' sample_consented 3 sample_store = Inr sample_store"
    by (simp add: interruptStalePendingCheckJobsTx_def in_order_def sample_store_def sample_facts sample_authority)
  moreover have "oldestPendingCheckJobTx ''repo'' sample_store = Some sample_job"
    by (simp add: oldestPendingCheckJobTx_def first_of_def in_order_def sample_store_def sample_facts)
  moreover have "countActiveCheckJobsTx ''repo'' sample_store = 0"
    by (simp add: countActiveCheckJobsTx_def active_def sample_store_def sample_facts)
  moreover have "cs_policies sample_store ''repo'' = Some sample_consented" by (simp add: sample_store_def)
  ultimately show ?thesis
    by (simp add: sample_ops_def ClaimLocalCheckJob_def claimCheckJob_def claim_from_queue_def sample_policy_facts sample_facts sample_authority
        commit_or_rollback_def affected_jobs_def update_jobs_def sample_store_def sample_claimed_def Let_def)
qed

definition sample_started :: CheckJob where
  "sample_started = started_row sample_claimed (sample_id CHR ''3'') ProtectionUnknown 4"

lemma sample_claimed_facts:
  "cj_ID sample_claimed = sample_id CHR ''1''" "cj_RepositoryID sample_claimed = ''repo''" "cj_Status sample_claimed = CheckJobClaimed"
  "cj_StartedAt sample_claimed = None" "cj_AttemptID sample_claimed = []" "cj_CancelRequestedAt sample_claimed = None"
  "cj_LeaseID sample_claimed = sample_id CHR ''2''" "cj_CredentialID sample_claimed = sample_id CHR ''e''" "cj_CredentialGeneration sample_claimed = 1"
  "cj_CredentialRole sample_claimed = RunnerRoleServer" "cj_LeaseExpiresAt sample_claimed = Some 60000000003"
  "cj_PolicyVersion sample_claimed = 1" "cj_Executor sample_claimed = CheckExecutorHost" "cj_ConfigurationVersion sample_claimed = 1"
  "cj_SourceOID sample_claimed = replicate 40 CHR ''a''" "cj_TaskID sample_claimed = automaticCheckTaskID sample_lib sample_job_request"
  "cj_Limits sample_claimed = \<lparr>lim_TimeoutMS = 600000, lim_OutputLimitBytes = 65536\<rparr>"
  "cj_ConsentVersion sample_claimed = 1" "cj_Trigger sample_claimed = EventPush"
  by (simp_all add: sample_claimed_def claimed_def sample_facts)

lemma nat_digits_nonempty [simp]: "nat_digits n \<noteq> []"
  by (subst nat_digits.simps) simp

lemma sample_task: "automaticCheckTaskID sample_lib sample_job_request \<noteq> []"
  by (simp add: automaticCheckTaskID_def digestFields_def sample_lib_def)

lemma sample_valid: "stateObjectID (replicate 40 CHR ''a'')" "list_all validCheckDefinition (req_Checks sample_job_request)"
  "length (req_Checks sample_job_request) = 1"
  by code_simp+

lemma sample_permitted: "start_permitted sample_start 4 (sample_store\<lparr>cs_jobs := [sample_claimed]\<rparr>)"
  by (simp add: start_permitted_def validStart_def sample_start_def sample_ids readCheckJobTx_def sample_claimed_facts held_by_def
      validProtectionForExecutor_def lease_over_def nullableNanoTime_def checkJobCredentialCurrentTx_def sample_store_def sample_policy_facts
      checkJobAuthorityCurrent_def)

definition sample_registration :: CheckAttempt where
  "sample_registration = (job_attempt sample_claimed (sample_id CHR ''3'') (req_Checks sample_job_request) 4)
     \<lparr>at_ConfigurationVersion := 1, at_ExecutionScope := ExecutionScopeInherited, at_TimeoutMS := 600000, at_OutputLimitBytes := 65536\<rparr>"

definition sample_attempt :: CheckAttempt where
  "sample_attempt = sample_registration\<lparr>at_RegistrationDigest := registrationDigest sample_lib sample_registration, at_Sequence := 1\<rparr>"

definition sample_running :: CheckStore where
  "sample_running = sample_store\<lparr>cs_jobs := [sample_started], cs_attempts := [sample_attempt], cs_sequences := (\<lambda>_. 0)(''repo'' := 1)\<rparr>"

lemma sample_start_step:
  "StartCheckJob sample_lib sample_start (Some 4) (sample_store\<lparr>cs_jobs := [sample_claimed]\<rparr>) = (Inr (sample_started, sample_attempt), sample_running)"
proof -
  let ?st = "sample_store\<lparr>cs_jobs := [sample_claimed]\<rparr>"
  have read: "readCheckJobTx (sta_RepositoryID sample_start) (sta_JobID sample_start) ?st = Some sample_claimed"
    by (simp add: readCheckJobTx_def sample_start_def sample_claimed_facts)
  have "startCheckJobTx sample_lib sample_claimed (sample_id CHR ''3'') ProtectionUnknown 4 ?st = Inr (sample_attempt, sample_running)"
    by (simp add: startCheckJobTx_def sample_store_def sample_claimed_facts readCheckConfigurationTx_def update_jobs_def
        registerCheckAttemptTx_def job_attempt_def readAttemptTx_def readCheckJobTx_def applyJobOrigin_def nullableNanoTime_def sample_ids
        sample_task sample_valid validateRegistration_def origin_applied_def Let_def MaximumCheckDefinitions_def
        insert_attempt_def ensureCheckConfiguration_def sample_hash affected_jobs_def sample_attempt_def sample_registration_def sample_running_def
        sample_started_def started_row_def)
  then show ?thesis
    using start_of_permitted [OF sample_permitted read, of sample_lib]
    by (simp add: sample_start_def sample_started_def sample_attempt_def sample_registration_def job_attempt_def)
qed

lemma sample_replay_step: "StartCheckJob sample_lib sample_start (Some 5) sample_running = (Inl ErrCheckJobStartReplay, sample_running)"
  by (simp add: StartCheckJob_def validStart_def sample_start_def sample_ids readCheckJobTx_def sample_running_def sample_started_def
      started_row_def sample_claimed_facts held_by_def validProtectionForExecutor_def)

lemma sample_valid_completion: "validateCompletion sample_completion"
proof -
  have "list_all validResult (cmp_Results sample_completion)" by code_simp
  moreover have "length (cmp_Log sample_completion) = 2" "length (cmp_Results sample_completion) = 1" "cmp_AttemptID sample_completion = sample_id CHR ''3''"
    "cmp_RepositoryID sample_completion = ''repo''" "cmp_TaskID sample_completion \<noteq> []" "cmp_FinishedAt sample_completion \<noteq> None"
    by (simp_all add: sample_completion_def sample_task)
  ultimately show ?thesis by (simp add: validateCompletion_def sample_ids MaximumCheckDefinitions_def)
qed

lemma sample_aggregate: "AggregateCheckStatus (cmp_Results sample_completion) False = CheckJobPassed"
  by code_simp

lemma sample_complete_step:
  "status_of ''repo'' (sample_id CHR ''1'') (snd (CompleteCheckJobAttempt sample_lib sample_completion sample_authority 9 sample_running)) = Some CheckJobPassed"
proof -
  have c: "cmp_AttemptID sample_completion = sample_id CHR ''3''" "cmp_RepositoryID sample_completion = ''repo''"
    "cmp_TaskID sample_completion = automaticCheckTaskID sample_lib sample_job_request" "cmp_Cancelled sample_completion = False"
    "matchResults (req_Checks sample_job_request) (cmp_Results sample_completion)"
    "list_ex (\<lambda>r. 65536 < res_OutputLimitExceededBytes r) (cmp_Results sample_completion) = False"
    by (simp_all add: sample_completion_def sample_job_request_def)
  have j: "cj_ID sample_started = sample_id CHR ''1''" "cj_RepositoryID sample_started = ''repo''" "cj_Status sample_started = CheckJobStarted"
    "cj_AttemptID sample_started = sample_id CHR ''3''" "cj_LeaseID sample_started = sample_id CHR ''2''"
    "cj_CredentialID sample_started = sample_id CHR ''e''" "cj_CredentialGeneration sample_started = 1"
    "cj_CredentialRole sample_started = RunnerRoleServer" "cj_PolicyVersion sample_started = 1"
    by (simp_all add: sample_started_def started_row_def sample_claimed_facts)
  have a: "at_ID sample_attempt = sample_id CHR ''3''" "at_JobID sample_attempt = sample_id CHR ''1''" "at_RepositoryID sample_attempt = ''repo''"
    "at_TaskID sample_attempt = automaticCheckTaskID sample_lib sample_job_request" "at_Status sample_attempt = None"
    "at_ConfigurationVersion sample_attempt = 1" "at_OutputLimitBytes sample_attempt = 65536"
    by (simp_all add: sample_attempt_def sample_registration_def job_attempt_def sample_claimed_facts)
  have authority: "authorizeCheckJobCompletionTx sample_attempt sample_authority sample_running = None"
    by (simp add: authorizeCheckJobCompletionTx_def sample_authority_def valid_authority_def sample_ids a j readCheckJobTx_def sample_running_def
        held_by_def checkJobCredentialCurrentTx_def sample_store_def sample_policy_facts)
  have "sample_id CHR ''1'' \<noteq> []" by (simp add: sample_id_def)
  moreover have "cs_attempts sample_running = [sample_attempt]" "cs_jobs sample_running = [sample_started]"
    "cs_configs sample_running = [\<lparr>cf_RepositoryID = ''repo'', cf_Version = 1, cf_ConfigHash = ''make test'', cf_Checks = req_Checks sample_job_request\<rparr>]"
    by (simp_all add: sample_running_def sample_store_def)
  ultimately show ?thesis
    by (simp add: CompleteCheckJobAttempt_def sample_valid_completion c a j authority readAttemptTx_def readCheckConfigurationTx_def
        complete_attempt_def finalizeCheckJobTx_def sample_aggregate readCheckJobTx_def commit_or_rollback_def status_of_def Let_def)
qed

lemma check_steps_append: "check_steps lib (xs @ ys) st = check_steps lib ys (check_steps lib xs st)"
  by (induction xs arbitrary: st) simp_all

text \<open>The job is started once, and it passes.\<close>

lemma sample_history:
  "start_grants sample_lib (sample_admitted @ sample_ops) (empty_store sample_ceilings) = [sample_id CHR ''1''] \<and>
   status_of ''repo'' (sample_id CHR ''1'') (check_steps sample_lib (sample_admitted @ sample_ops) (empty_store sample_ceilings)) = Some CheckJobPassed"
proof -
  have grants: "start_grants lib (xs @ ys) st = start_grants lib xs st @ start_grants lib ys (check_steps lib xs st)" for lib xs ys st
    by (induction xs arbitrary: st) simp_all
  have "start_grants sample_lib sample_admitted (empty_store sample_ceilings) = []" by (simp add: sample_admitted_def)
  moreover have claim: "snd (ClaimLocalCheckJob ''repo'' (Some 3) (sample_id CHR ''2'') sample_store) = sample_store\<lparr>cs_jobs := [sample_claimed]\<rparr>"
    using sample_claim_step by (simp add: sample_ops_def)
  moreover have "sta_JobID sample_start = sample_id CHR ''1''" by (simp add: sample_start_def)
  ultimately show ?thesis
    unfolding check_steps_append grants sample_admitted_store
    by (simp add: sample_ops_def sample_start_step sample_replay_step sample_complete_step)
qed

subsection \<open>Properties\<close>

lemma history_ok: "store_ok (check_steps lib ops (empty_store c))"
  using check_steps_ok [OF empty_store_ok] by (simp add: step_ok_def)

text \<open>C15. A check job is started at most once: over any sequence of operations, with restarts of the
  server, lost leases, changes of policy and repeated requests, no job is granted a start twice.\<close>

theorem check_jobs_start_once: "distinct (start_grants lib ops (empty_store c))"
  by (rule grants_distinct) simp

text \<open>C16. Authority that is withdrawn does not come back: once the policy of the repository no longer
  covers a job (consent revoked, policy replaced, event or executor taken out), no later history
  starts that job, not even after consent is given again.\<close>

theorem no_start_after_withdrawal:
  assumes "readCheckJobByIDTx i (check_steps lib before (empty_store c)) = Some j"
    and "cs_policies (check_steps lib before (empty_store c)) (cj_RepositoryID j) = Some p"
    and "\<not> checkJobAuthorityCurrent j p"
  shows "i \<notin> set (start_grants lib later (check_steps lib before (empty_store c)))"
  using never_after_withdrawal [OF history_ok, of j lib before c p lib later] read_job(2) [OF assms(1)] assms(2,3) by blast

lemma sample_revoked:
  "check_steps sample_lib (sample_admitted @ [RevokeConsent ''repo'' (Some 3)]) (empty_store sample_ceilings) =
   sample_store\<lparr>cs_policies := [''repo'' \<mapsto> sample_consented\<lparr>pol_ConsentActive := False\<rparr>], cs_jobs := [interrupted 3 authority_changed sample_job]\<rparr>"
proof -
  let ?p = "sample_consented\<lparr>pol_ConsentActive := False\<rparr>"
  have "pol_ConsentActive sample_consented" by (simp add: sample_consented_def)
  moreover have "cs_policies sample_store = [''repo'' \<mapsto> sample_consented]" "cs_jobs sample_store = [sample_job]" by (simp_all add: sample_store_def)
  moreover have "\<not> checkJobAuthorityCurrent sample_job ?p" by (simp add: checkJobAuthorityCurrent_def checkConsentCurrent_def)
  ultimately have "check_step sample_lib (RevokeConsent ''repo'' (Some 3)) sample_store =
      sample_store\<lparr>cs_policies := [''repo'' \<mapsto> ?p], cs_jobs := [interrupted 3 authority_changed sample_job]\<rparr>"
    by (simp add: RevokeCheckConsent_def interruptStalePendingCheckJobsTx_def in_order_def sample_facts interruptCheckJobTx_def affected_jobs_def
        update_jobs_def commit_or_rollback_def Let_def)
  moreover have "check_steps sample_lib (sample_admitted @ [op]) (empty_store sample_ceilings) = check_step sample_lib op sample_store" for op
    using sample_admitted_store by (simp add: sample_admitted_def)
  ultimately show ?thesis by simp
qed

lemma no_start_after_withdrawal_witness:
  "sample_id CHR ''1'' \<notin> set (start_grants sample_lib [GrantConsent ''repo'' None (Some 4), ClaimLocalJob ''repo'' (Some 5) (sample_id CHR ''2''), StartJob sample_start (Some 6)]
     (check_steps sample_lib (sample_admitted @ [RevokeConsent ''repo'' (Some 3)]) (empty_store sample_ceilings)))"
proof (rule no_start_after_withdrawal [where j = "interrupted 3 authority_changed sample_job" and p = "sample_consented\<lparr>pol_ConsentActive := False\<rparr>"])
qed (simp_all only: sample_revoked, simp_all add: readCheckJobByIDTx_def interrupted_def sample_facts checkJobAuthorityCurrent_def checkConsentCurrent_def)

text \<open>C17. Every history keeps the rows of jobs and attempts consistent: the status of a job says which of
  its times, its lease and its attempt are set, a bound attempt exists and has the status of its job,
  and rows only move forward, a finished one never changes and admitted facts never change.\<close>

theorem check_rows_consistent:
  "store_ok (check_steps lib ops (empty_store c)) \<and>
   store_le (check_steps lib ops (empty_store c)) (check_steps lib (ops @ later) (empty_store c))"
  using history_ok check_steps_ok [OF history_ok] by (simp add: check_steps_append step_ok_def)

text \<open>C18. What a start answers: it is granted exactly when it is permitted (the lease, the credential and the
  authority hold, and the job is claimed and not cancelled) and its attempt can be recorded (the identity is new,
  and the job has its task, its configuration and the facts of a valid registration); a grant binds a new attempt
  to the job. A permitted start whose attempt cannot be recorded is reported as not started, and no other refusal
  is; it changes nothing. A start that is not permitted leaves the store as it was, except that a lost lease
  leaves the job ambiguous and lost authority leaves it interrupted.\<close>

theorem start_outcome:
  "let st = check_steps lib ops (empty_store c) in
   case StartCheckJob lib r (Some t) st of
     (Inr (job, a), st') \<Rightarrow> start_permitted r t st \<and> start_recordable r t st \<and>
       cj_Status job = CheckJobStarted \<and> cj_AttemptID job = sta_AttemptID r \<and>
       at_JobID a = sta_JobID r \<and> at_Status a = None \<and> readAttemptTx (sta_AttemptID r) st = None \<and>
       readAttemptTx (sta_AttemptID r) st' = Some a \<and> readCheckJobTx (sta_RepositoryID r) (sta_JobID r) st' = Some job
   | (Inl e, st') \<Rightarrow>
       if start_permitted r t st then \<not> start_recordable r t st \<and> not_started e \<and> st' = st
       else \<not> not_started e \<and>
         (st' = st \<or> e = ErrCheckJobLease \<and> status_of (sta_RepositoryID r) (sta_JobID r) st' = Some CheckJobAmbiguous \<or>
          e \<in> {ErrCheckRunnerCredential, ErrCheckConsentRequired} \<and>
          status_of (sta_RepositoryID r) (sta_JobID r) st' = Some CheckJobInterrupted)"
  using start_outcome_of [OF history_ok] by (simp only: Let_def)

text \<open>The start of the sample history is permitted and recordable.\<close>

lemma sample_recordable: "start_recordable sample_start 4 (sample_store\<lparr>cs_jobs := [sample_claimed]\<rparr>)"
proof -
  have "registrable sample_claimed \<lparr>cf_RepositoryID = ''repo'', cf_Version = 1, cf_ConfigHash = ''make test'', cf_Checks = req_Checks sample_job_request\<rparr>"
    by (simp add: registrable_def sample_claimed_facts sample_task sample_valid MaximumCheckDefinitions_def)
  then show ?thesis
    by (simp add: start_recordable_def sample_start_def readAttemptTx_def sample_store_def readCheckJobTx_def sample_claimed_facts
        readCheckConfigurationTx_def)
qed

text \<open>C19. A claim gives the oldest pending job of the repository, under the new lease and with current
  authority, and never more active jobs than the policy allows; it gives none only when consent is
  missing, the limit is reached or nothing is pending, and it fails only for its credential.\<close>

theorem claim_takes_oldest:
  "let st = check_steps lib ops (empty_store c) in
   case claimCheckJob repo credential role t lease st of
     (Inr (Some j), st') \<Rightarrow> (case cs_policies st repo of None \<Rightarrow> False | Some p \<Rightarrow> claim_good repo p lease j st st')
   | (Inr None, st') \<Rightarrow> (case cs_policies st repo of
        None \<Rightarrow> st' = st
      | Some p \<Rightarrow> (role = RunnerRoleExternal) = (pol_Executor p \<noteq> CheckExecutorExternalRunner) \<or> claim_blocked repo p st')
   | (Inl e, st') \<Rightarrow> e = ErrCheckRunnerCredential \<and> st' = st"
  using claim_outcome [OF history_ok] by (simp only: Let_def)

text \<open>C20. Admission is idempotent: the same request, sent again at any time under any new identity,
  returns the job that the first one admitted, marks it as existing and changes nothing.\<close>

theorem admit_again:
  assumes "AdmitCheckJob lib r new (Some t) st = (Inr (j, existing), st')"
  shows "AdmitCheckJob lib r new' (Some t') st' = (Inr (j, True), st')"
  using assms by (rule admit_same)

lemma admit_again_witness:
  "AdmitCheckJob sample_lib sample_job_request (sample_id CHR ''4'') (Some 7) sample_store = (Inr (sample_job, True), sample_store)"
  using admit_again [OF sample_admit] .

end
