(* ===== verification/Expression.thy ===== *)
theory Expression
  imports Prelude
begin

text \<open>
  The expression language of workflows, up to the accepted expression
  (\<open>internal/actions/expression.go\<close>): the lexer \<open>next\<close>, the parser \<open>parse\<close> with its depth limit,
  the check \<open>validate\<close> of functions, contexts and secrets, and \<open>templateParts\<close>. A parser state
  is the text still to read with the current token; \<open>float64\<close> is the type \<open>'n\<close>, and what the
  code calls of \<open>strconv\<close> on it is a record of functions, for the value of a number decides
  nothing here.
\<close>

subsection \<open>Values and errors\<close>

text \<open>
  A Go \<open>any\<close> of an evaluation. A map and an \<open>expressionArray\<close> carry the identity their pointers
  give them; an \<open>Env\<close> is an \<open>expressionEnvironment\<close> around the map of that identity.
\<close>

datatype 'n gvalue =
    Null
  | Boolean bool
  | Text bytes
  | Float 'n
  | Integer int
  | JsonNumber bytes
  | Array nat "'n gvalue list"
  | Object nat "(bytes \<times> 'n gvalue) list"
  | Env bool nat "(bytes \<times> 'n gvalue) list"

text \<open>
  The refusals, with the arguments that tell them apart. \<open>Panic\<close> is an index out of range in
  Go; \<open>NoFuel\<close> belongs to the model and is never the result of a complete run.
\<close>

datatype xerror =
    WrongType bytes bytes
  | Limit bytes
  | ContextError bytes bytes
  | SecretReference bytes
  | TokenError bytes
  | UnsupportedFunction bytes
  | NoEvaluator bytes
  | TooManyJobs int
  | Panic
  | NoFuel

definition MaxExpressionBytes :: nat where "MaxExpressionBytes = 4096"
definition MaxExpressionDepth :: nat where "MaxExpressionDepth = 32"
definition MaxValueBytes :: nat where "MaxValueBytes = 65536"
definition MaxEvaluationSteps :: nat where "MaxEvaluationSteps = 10000"

text \<open>The functions of \<open>strconv\<close>, \<open>math\<close> and the operators of \<open>float64\<close> the code uses. \<open>ParseFloat\<close> gives a value and whether there was no error.\<close>

record 'n floats =
  fl_ParseFloat :: "bytes \<Rightarrow> 'n \<times> bool"
  fl_Format :: "'n \<Rightarrow> bytes"
  fl_of_int :: "int \<Rightarrow> 'n"
  fl_trunc :: "'n \<Rightarrow> int"
  fl_less :: "'n \<Rightarrow> 'n \<Rightarrow> bool"
  fl_equal :: "'n \<Rightarrow> 'n \<Rightarrow> bool"
  fl_IsNaN :: "'n \<Rightarrow> bool"
  fl_IsInf :: "'n \<Rightarrow> bool"
  fl_NaN :: 'n

subsection \<open>The lexer\<close>

text \<open>The token of \<open>expressionParser\<close> with its value: the empty token stands at the end of the text.\<close>

datatype 'n token =
    NoToken
  | Literal "'n gvalue"
  | Identifier bytes
  | Operator bytes

record 'n expressionParser =
  ps_rest :: bytes
  ps_token :: "'n token"

definition asciiLetter :: "char \<Rightarrow> bool" where
  "asciiLetter b \<longleftrightarrow> is_lower b \<or> is_upper b"

definition blank_byte :: "char \<Rightarrow> bool" where
  "blank_byte b \<longleftrightarrow> b \<in> {CHR 0x20, CHR 0x09, CHR 0x0D, CHR 0x0A}"

definition identifier_start :: "char \<Rightarrow> bool" where
  "identifier_start b \<longleftrightarrow> asciiLetter b \<or> b = CHR ''_''"

definition identifier_part :: "char \<Rightarrow> bool" where
  "identifier_part b \<longleftrightarrow> asciiLetter b \<or> is_digit b \<or> b = CHR ''_'' \<or> b = CHR ''-''"

definition number_part :: "char \<Rightarrow> bool" where
  "number_part b \<longleftrightarrow> b \<in> set ''0123456789abcdefABCDEFxX.eE+-''"

definition quote :: char where "quote = CHR 0x27"

text \<open>The loop over a quoted string, after its first quote: the value and the text behind it.\<close>

fun quoted :: "bytes \<Rightarrow> (bytes \<times> bytes) option" where
  "quoted [] = None"
| "quoted (c # cs) =
     (if c \<noteq> quote then map_option (apfst (Cons c)) (quoted cs)
      else case cs of
        [] \<Rightarrow> Some ([], [])
      | d # ds \<Rightarrow> if d = quote then map_option (apfst (Cons c)) (quoted ds) else Some ([], cs))"

text \<open>\<open>strconv.ParseInt\<close> with base 0 on a text that \<open>parseNumber\<close> found to be hexadecimal.\<close>

fun hex_digits :: "nat \<Rightarrow> bytes \<Rightarrow> nat option" where
  "hex_digits n [] = Some n"
| "hex_digits n (d # ds) = (case hex_value (lower_char d) of None \<Rightarrow> None | Some v \<Rightarrow> hex_digits (16 * n + v) ds)"

definition ParseHex :: "bytes \<Rightarrow> int option" where
  "ParseHex s =
     (let neg = prefix ''-'' s; digits = drop (if neg then 3 else 2) s in
      if digits = [] then None
      else case hex_digits 0 digits of
        None \<Rightarrow> None
      | Some n \<Rightarrow> if neg then (if n \<le> 2 ^ 63 then Some (- int n) else None)
                 else if n < 2 ^ 63 then Some (int n) else None)"

definition TrimMinus :: "bytes \<Rightarrow> bytes" where
  "TrimMinus s = (case cut_prefix ''-'' s of None \<Rightarrow> s | Some r \<Rightarrow> r)"

definition parseNumber :: "'n floats \<Rightarrow> bytes \<Rightarrow> 'n option" where
  "parseNumber fl s =
     (if prefix ''0x'' (ascii_lower (TrimMinus s)) then map_option (fl_of_int fl) (ParseHex s)
      else case fl_ParseFloat fl s of
        (n, ok) \<Rightarrow> if fl_IsInf fl n \<or> fl_IsNaN fl n \<or> \<not> ok then None else Some n)"

definition single_operators :: bytes where
  "single_operators = ''!<>()[],.''"

definition pairs :: "bytes list" where
  "pairs = [''=='', ''!='', ''<='', ''>='', ''&&'', ''||'']"

definition word_token :: "bytes \<Rightarrow> 'n token" where
  "word_token w =
     (let l = ascii_lower w in
      if l = ''true'' then Literal (Boolean True)
      else if l = ''false'' then Literal (Boolean False)
      else if l = ''null'' then Literal Null
      else Identifier w)"

text \<open>\<open>next\<close> on the rest of the text: the next token and the text behind it.\<close>

definition next_token :: "'n floats \<Rightarrow> bytes \<Rightarrow> bytes \<Rightarrow> xerror + ('n token \<times> bytes)" where
  "next_token fl key text =
     (case dropWhile blank_byte text of
       [] \<Rightarrow> Inr (NoToken, [])
     | b # s \<Rightarrow>
         if b = quote then
           (case quoted s of
              None \<Rightarrow> Inl (WrongType key ''a closed single-quoted string'')
            | Some (v, rest) \<Rightarrow> Inr (Literal (Text v), rest))
         else if identifier_start b then
           Inr (word_token (b # takeWhile identifier_part s), dropWhile identifier_part s)
         else if is_digit b \<or> b = CHR ''-'' then
           (case parseNumber fl (b # takeWhile number_part s) of
              None \<Rightarrow> Inl (WrongType key ''a number'')
            | Some n \<Rightarrow> Inr (Literal (Float n), dropWhile number_part s))
         else if s \<noteq> [] \<and> [b, hd s] \<in> set pairs then Inr (Operator [b, hd s], tl s)
         else if b \<in> set single_operators then Inr (Operator [b], s)
         else Inl (WrongType key ''a supported expression operator (object filters are not supported)''))"

definition next_tok :: "'n floats \<Rightarrow> bytes \<Rightarrow> 'n expressionParser \<Rightarrow> xerror + 'n expressionParser" where
  "next_tok fl key p =
     bindE (next_token fl key (ps_rest p)) (\<lambda>(tok, rest). Inr \<lparr>ps_rest = rest, ps_token = tok\<rparr>)"

definition take_tok :: "'n floats \<Rightarrow> bytes \<Rightarrow> bytes \<Rightarrow> 'n expressionParser \<Rightarrow> xerror + 'n expressionParser" where
  "take_tok fl key tok p = (if ps_token p = Operator tok then next_tok fl key p else Inl (WrongType key tok))"

subsection \<open>The parser\<close>

text \<open>
  The nodes of \<open>expression\<close>, one constructor for each kind of \<open>op\<close>: an access is \<open>.\<close> when its
  first argument holds and \<open>[\<close> otherwise.
\<close>

datatype 'n expression =
    ELiteral "'n gvalue"
  | EContext bytes
  | ECall bytes "'n expression list"
  | EAccess bool "'n expression" "'n expression"
  | ENot "'n expression"
  | EBinary bytes "'n expression" "'n expression"

definition precedence :: "'n token \<Rightarrow> nat" where
  "precedence tok =
     (if tok = Operator ''||'' then 1
      else if tok = Operator ''&&'' then 2
      else if tok = Operator ''=='' \<or> tok = Operator ''!='' then 3
      else if tok \<in> {Operator ''<'', Operator ''<='', Operator ''>'', Operator ''>=''} then 4
      else 0)"

definition operator_text :: "'n token \<Rightarrow> bytes" where
  "operator_text tok = (case tok of Operator op \<Rightarrow> op | _ \<Rightarrow> [])"

abbreviation nesting :: xerror where "nesting \<equiv> Limit ''expression nesting''"

text \<open>
  \<open>parse\<close>, with its loops over arguments, property accesses and binary operators as functions
  of their own. The fuel counts calls; \<open>parse_fuel\<close> shows how much is enough.
\<close>

function (sequential) parse :: "nat \<Rightarrow> 'n floats \<Rightarrow> bytes \<Rightarrow> nat \<Rightarrow> nat \<Rightarrow> 'n expressionParser \<Rightarrow> xerror + ('n expression \<times> 'n expressionParser)"
  and parse_primary :: "nat \<Rightarrow> 'n floats \<Rightarrow> bytes \<Rightarrow> nat \<Rightarrow> 'n expressionParser \<Rightarrow> xerror + ('n expression \<times> 'n expressionParser)"
  and parse_args :: "nat \<Rightarrow> 'n floats \<Rightarrow> bytes \<Rightarrow> nat \<Rightarrow> 'n expressionParser \<Rightarrow> xerror + ('n expression list \<times> 'n expressionParser)"
  and parse_postfix :: "nat \<Rightarrow> 'n floats \<Rightarrow> bytes \<Rightarrow> nat \<Rightarrow> 'n expression \<Rightarrow> 'n expressionParser \<Rightarrow> xerror + ('n expression \<times> nat \<times> 'n expressionParser)"
  and parse_binary :: "nat \<Rightarrow> 'n floats \<Rightarrow> bytes \<Rightarrow> nat \<Rightarrow> nat \<Rightarrow> 'n expression \<Rightarrow> 'n expressionParser \<Rightarrow> xerror + ('n expression \<times> 'n expressionParser)"
where
  "parse 0 fl key low depth p = Inl NoFuel"
| "parse (Suc n) fl key low depth p =
     (if depth > MaxExpressionDepth then Inl nesting
      else bindE (parse_primary n fl key depth p) (\<lambda>(e, p).
        bindE (parse_postfix n fl key depth e p) (\<lambda>(e, depth, p).
          parse_binary n fl key low depth e p)))"
| "parse_primary 0 fl key depth p = Inl NoFuel"
| "parse_primary (Suc n) fl key depth p =
     (case ps_token p of
        Operator op \<Rightarrow>
          if op = ''!'' then
            bindE (next_tok fl key p) (\<lambda>p.
              bindE (parse n fl key 5 (depth + 1) p) (\<lambda>(child, p). Inr (ENot child, p)))
          else if op = ''('' then
            bindE (next_tok fl key p) (\<lambda>p.
              bindE (parse n fl key 1 (depth + 1) p) (\<lambda>(e, p).
                bindE (take_tok fl key '')'' p) (\<lambda>p. Inr (e, p))))
          else Inl (WrongType key ''a valid expression'')
      | Literal v \<Rightarrow> bindE (next_tok fl key p) (\<lambda>p. Inr (ELiteral v, p))
      | Identifier name \<Rightarrow>
          bindE (next_tok fl key p) (\<lambda>p.
            if ps_token p = Operator ''('' then
              bindE (next_tok fl key p) (\<lambda>p.
                bindE (parse_args n fl key depth p) (\<lambda>(args, p).
                  bindE (take_tok fl key '')'' p) (\<lambda>p. Inr (ECall (ascii_lower name) args, p))))
            else Inr (EContext (ascii_lower name), p))
      | NoToken \<Rightarrow> Inl (WrongType key ''a valid expression''))"
| "parse_args 0 fl key depth p = Inl NoFuel"
| "parse_args (Suc n) fl key depth p =
     (if ps_token p = Operator '')'' then Inr ([], p)
      else bindE (parse n fl key 1 (depth + 1) p) (\<lambda>(arg, p).
        if ps_token p \<noteq> Operator '','' then Inr ([arg], p)
        else bindE (next_tok fl key p) (\<lambda>p.
          bindE (parse_args n fl key depth p) (\<lambda>(args, p). Inr (arg # args, p)))))"
| "parse_postfix 0 fl key depth e p = Inl NoFuel"
| "parse_postfix (Suc n) fl key depth e p =
     (if ps_token p = Operator ''.'' then
        bindE (next_tok fl key p) (\<lambda>p.
          case ps_token p of
            Identifier name \<Rightarrow>
              bindE (next_tok fl key p) (\<lambda>p.
                if depth + 1 > MaxExpressionDepth then Inl nesting
                else parse_postfix n fl key (depth + 1) (EAccess True e (ELiteral (Text name))) p)
          | _ \<Rightarrow> Inl (WrongType key ''a property name''))
      else if ps_token p = Operator ''['' then
        bindE (next_tok fl key p) (\<lambda>p.
          bindE (parse n fl key 1 (depth + 1) p) (\<lambda>(property, p).
            bindE (take_tok fl key '']'' p) (\<lambda>p.
              if depth + 1 > MaxExpressionDepth then Inl nesting
              else parse_postfix n fl key (depth + 1) (EAccess False e property) p)))
      else Inr (e, depth, p))"
| "parse_binary 0 fl key low depth e p = Inl NoFuel"
| "parse_binary (Suc n) fl key low depth e p =
     (if precedence (ps_token p) \<ge> low then
        bindE (next_tok fl key p) (\<lambda>q.
          bindE (parse n fl key (precedence (ps_token p) + 1) (depth + 1) q) (\<lambda>(right, q).
            parse_binary n fl key low depth (EBinary (operator_text (ps_token p)) e right) q))
      else Inr (e, p))"
  by pat_completeness auto
termination
  by (relation "measure (\<lambda>x. case x of Inl (Inl (n, _)) \<Rightarrow> n | Inl (Inr (n, _)) \<Rightarrow> n | Inr (Inl (n, _)) \<Rightarrow> n | Inr (Inr (Inl (n, _))) \<Rightarrow> n | Inr (Inr (Inr (n, _))) \<Rightarrow> n)") auto

declare parse.simps [simp del] parse_primary.simps [simp del] parse_args.simps [simp del]
  parse_postfix.simps [simp del] parse_binary.simps [simp del]


subsection \<open>The parser always returns\<close>

text \<open>
  The tokens left: every step of the parser reads one. A state with a token has more left than
  any state that comes after it.
\<close>

definition tokens_left :: "'n expressionParser \<Rightarrow> nat" where
  "tokens_left p = (if ps_token p = NoToken then 0 else Suc (length (ps_rest p)))"

lemma quoted_shorter: "quoted s = Some (v, r) \<Longrightarrow> length r < length s"
proof (induction s arbitrary: v r rule: quoted.induct)
  case (2 c cs)
  show ?case
  proof (cases "c = quote")
    case False
    then show ?thesis using 2 by fastforce
  next
    case True
    then show ?thesis using "2.prems" "2.IH"(2)
      by (auto split: list.splits if_splits) (metis less_SucI)
  qed
qed simp

lemma next_token_shorter:
  assumes "next_token fl key text = Inr (tok, rest)" and "tok \<noteq> NoToken"
  shows "length rest < length text"
proof -
  obtain b s where bs: "dropWhile blank_byte text = b # s"
    using assms by (auto simp: next_token_def split: list.splits)
  have "length (dropWhile blank_byte text) \<le> length text" by (rule length_dropWhile_le)
  then have "length s < length text" by (simp add: bs)
  moreover have "length rest \<le> length s"
    using assms(1) quoted_shorter [of s]
    by (auto simp: next_token_def bs length_dropWhile_le less_imp_le split: if_splits option.splits)
  ultimately show ?thesis by simp
qed

lemma left_next [simp]:
  assumes "next_tok fl key p = Inr q" and "ps_token p \<noteq> NoToken"
  shows "tokens_left q < tokens_left p"
  using assms next_token_shorter [of fl key "ps_rest p"] by (auto simp: next_tok_def tokens_left_def)

lemma left_take:
  assumes "take_tok fl key tok p = Inr q"
  shows "tokens_left q < tokens_left p"
  using assms by (auto simp: take_tok_def split: if_splits)

lemma next_tok_fuel [simp]: "next_tok fl key p \<noteq> Inl NoFuel"
  by (auto simp: next_tok_def next_token_def bindE_eq_Inl split: list.splits if_splits option.splits prod.splits)

lemma take_tok_fuel [simp]: "take_tok fl key tok p \<noteq> Inl NoFuel"
  by (simp add: take_tok_def)

lemma precedence_token: "0 < low \<Longrightarrow> low \<le> precedence tok \<Longrightarrow> tok \<noteq> NoToken"
  by (auto simp: precedence_def)

lemma take_tok_Inr: "take_tok fl key tok p = Inr q \<longleftrightarrow> ps_token p = Operator tok \<and> next_tok fl key p = Inr q"
  by (simp add: take_tok_def)

text \<open>What is left never grows, and every operand takes something away. \<open>shrinks\<close> collects the claims for one fuel, for the induction.\<close>

definition shrinks :: "'n floats \<Rightarrow> bytes \<Rightarrow> nat \<Rightarrow> bool" where
  "shrinks fl key n \<longleftrightarrow>
     (\<forall>low depth p e q. parse n fl key low depth p = Inr (e, q) \<longrightarrow> 0 < low \<longrightarrow> tokens_left q < tokens_left p) \<and>
     (\<forall>depth p e q. parse_primary n fl key depth p = Inr (e, q) \<longrightarrow> tokens_left q < tokens_left p) \<and>
     (\<forall>depth p es q. parse_args n fl key depth p = Inr (es, q) \<longrightarrow> tokens_left q \<le> tokens_left p) \<and>
     (\<forall>depth p e' e d q. parse_postfix n fl key depth e' p = Inr (e, d, q) \<longrightarrow> tokens_left q \<le> tokens_left p) \<and>
     (\<forall>low depth p e' e q. parse_binary n fl key low depth e' p = Inr (e, q) \<longrightarrow> 0 < low \<longrightarrow> tokens_left q \<le> tokens_left p)"

lemma shrinksD:
  assumes "shrinks fl key n"
  shows "parse n fl key low depth p = Inr (e, q) \<Longrightarrow> 0 < low \<Longrightarrow> tokens_left q < tokens_left p"
    and "parse_primary n fl key depth p = Inr (e, q) \<Longrightarrow> tokens_left q < tokens_left p"
    and "parse_args n fl key depth p = Inr (es, q) \<Longrightarrow> tokens_left q \<le> tokens_left p"
    and "parse_postfix n fl key depth e' p = Inr (e, d, q) \<Longrightarrow> tokens_left q \<le> tokens_left p"
    and "parse_binary n fl key low depth e' p = Inr (e, q) \<Longrightarrow> 0 < low \<Longrightarrow> tokens_left q \<le> tokens_left p"
  using assms by (simp_all add: shrinks_def; blast)+

lemma left_step: "next_tok fl key p = Inr q \<Longrightarrow> ps_token p = tok \<Longrightarrow> tok \<noteq> NoToken \<Longrightarrow> tokens_left q < tokens_left p"
  by simp

lemma parse_shrinks:
  assumes n: "shrinks fl key n" and p: "parse (Suc n) fl key low depth p = Inr (e, q)" "0 < low"
  shows "tokens_left q < tokens_left p"
proof -
  from p(1) obtain e1 p1 e2 d p2 where "parse_primary n fl key depth p = Inr (e1, p1)"
    "parse_postfix n fl key depth e1 p1 = Inr (e2, d, p2)" "parse_binary n fl key low d e2 p2 = Inr (e, q)"
    by (auto simp: parse.simps split: if_splits)
  from shrinksD(2) [OF n this(1)] shrinksD(4) [OF n this(2)] shrinksD(5) [OF n this(3) p(2)]
  show ?thesis by linarith
qed

lemma primary_shrinks:
  assumes n: "shrinks fl key n" and p: "parse_primary (Suc n) fl key depth p = Inr (e, q)"
  shows "tokens_left q < tokens_left p"
proof (cases "ps_token p")
  case (Operator op)
  from p Operator show ?thesis
    by (auto simp: parse_primary.simps take_tok_Inr split: if_splits dest!: left_next shrinksD [OF n])
next
  case (Identifier name)
  from p Identifier show ?thesis
    by (auto simp: parse_primary.simps take_tok_Inr split: if_splits dest!: left_next shrinksD [OF n])
qed (use p in \<open>auto simp: parse_primary.simps\<close>)


lemma args_shrinks:
  assumes n: "shrinks fl key n" and p: "parse_args (Suc n) fl key depth p = Inr (es, q)"
  shows "tokens_left q \<le> tokens_left p"
  using p by (fastforce simp: parse_args.simps split: if_splits dest: left_next shrinksD [OF n])

lemma identifier_Inr:
  "(case tok of Identifier name \<Rightarrow> f name | _ \<Rightarrow> Inl x) = Inr y \<longleftrightarrow> (\<exists>name. tok = Identifier name \<and> f name = Inr y)"
  by (cases tok) auto

lemma postfix_shrinks:
  assumes n: "shrinks fl key n" and p: "parse_postfix (Suc n) fl key depth e' p = Inr (e, d, q)"
  shows "tokens_left q \<le> tokens_left p"
  using p
  by (auto simp: parse_postfix.simps take_tok_Inr identifier_Inr split: if_splits dest!: left_next shrinksD [OF n])

lemma binary_shrinks:
  assumes n: "shrinks fl key n" and p: "parse_binary (Suc n) fl key low depth e' p = Inr (e, q)" "0 < low"
  shows "tokens_left q \<le> tokens_left p"
  using p precedence_token [OF p(2)]
  by (auto simp: parse_binary.simps split: if_splits dest!: left_next shrinksD [OF n])

lemma shrinks: "shrinks fl key n"
proof (induction n)
  case 0
  then show ?case
    by (simp add: shrinks_def parse.simps parse_primary.simps parse_args.simps parse_postfix.simps parse_binary.simps)
next
  case (Suc n)
  show ?case unfolding shrinks_def
    by (intro conjI allI impI)
      (rule parse_shrinks [OF Suc] primary_shrinks [OF Suc] args_shrinks [OF Suc] postfix_shrinks [OF Suc]
        binary_shrinks [OF Suc]; assumption)+
qed

text \<open>Fuel of three times the tokens left is enough, in the same way.\<close>

definition suffices :: "'n floats \<Rightarrow> bytes \<Rightarrow> nat \<Rightarrow> bool" where
  "suffices fl key n \<longleftrightarrow>
     (\<forall>low depth p. parse n fl key low depth p = Inl NoFuel \<longrightarrow> 0 < low \<longrightarrow> n < 3 * tokens_left p + 2) \<and>
     (\<forall>depth p. parse_primary n fl key depth p = Inl NoFuel \<longrightarrow> n < 3 * tokens_left p + 1) \<and>
     (\<forall>depth p. parse_args n fl key depth p = Inl NoFuel \<longrightarrow> n < 3 * tokens_left p + 3) \<and>
     (\<forall>depth p e. parse_postfix n fl key depth e p = Inl NoFuel \<longrightarrow> n < 3 * tokens_left p + 1) \<and>
     (\<forall>low depth p e. parse_binary n fl key low depth e p = Inl NoFuel \<longrightarrow> 0 < low \<longrightarrow> n < 3 * tokens_left p + 1)"

lemma sufficesD:
  assumes "suffices fl key n"
  shows "parse n fl key low depth p = Inl NoFuel \<Longrightarrow> 0 < low \<Longrightarrow> n < 3 * tokens_left p + 2"
    and "parse_primary n fl key depth p = Inl NoFuel \<Longrightarrow> n < 3 * tokens_left p + 1"
    and "parse_args n fl key depth p = Inl NoFuel \<Longrightarrow> n < 3 * tokens_left p + 3"
    and "parse_postfix n fl key depth e p = Inl NoFuel \<Longrightarrow> n < 3 * tokens_left p + 1"
    and "parse_binary n fl key low depth e p = Inl NoFuel \<Longrightarrow> 0 < low \<Longrightarrow> n < 3 * tokens_left p + 1"
  using assms by (simp_all add: suffices_def; blast)+

lemmas parse_left = shrinksD [OF shrinks]

lemma identifier_Inl:
  "(case tok of Identifier name \<Rightarrow> f name | _ \<Rightarrow> Inl x) = Inl y \<longleftrightarrow>
     (\<exists>name. tok = Identifier name \<and> f name = Inl y) \<or> ((\<forall>name. tok \<noteq> Identifier name) \<and> x = y)"
  by (cases tok) auto

lemma parse_suffices:
  assumes n: "suffices fl key n" and p: "parse (Suc n) fl key low depth p = Inl NoFuel" "0 < low"
  shows "Suc n < 3 * tokens_left p + 2"
  using p by (auto simp: parse.simps bindE_eq_Inl split: if_splits dest!: parse_left sufficesD [OF n])

lemma primary_suffices:
  assumes n: "suffices fl key n" and p: "parse_primary (Suc n) fl key depth p = Inl NoFuel"
  shows "Suc n < 3 * tokens_left p + 1"
proof (cases "ps_token p")
  case (Operator op)
  from p Operator show ?thesis
    by (auto simp: parse_primary.simps bindE_eq_Inl split: if_splits dest!: left_next parse_left sufficesD [OF n])
next
  case (Identifier name)
  from p Identifier show ?thesis
    by (auto simp: parse_primary.simps bindE_eq_Inl split: if_splits dest!: left_next parse_left sufficesD [OF n])
qed (use p in \<open>auto simp: parse_primary.simps bindE_eq_Inl\<close>)

lemma args_suffices:
  assumes n: "suffices fl key n" and p: "parse_args (Suc n) fl key depth p = Inl NoFuel"
  shows "Suc n < 3 * tokens_left p + 3"
  using p by (auto simp: parse_args.simps bindE_eq_Inl split: if_splits dest!: left_next parse_left sufficesD [OF n])

lemma postfix_suffices:
  assumes n: "suffices fl key n" and p: "parse_postfix (Suc n) fl key depth e p = Inl NoFuel"
  shows "Suc n < 3 * tokens_left p + 1"
  using p
  by (auto simp: parse_postfix.simps take_tok_Inr identifier_Inl bindE_eq_Inl split: if_splits
      dest!: left_next parse_left sufficesD [OF n])

lemma binary_suffices:
  assumes n: "suffices fl key n" and p: "parse_binary (Suc n) fl key low depth e p = Inl NoFuel" "0 < low"
  shows "Suc n < 3 * tokens_left p + 1"
  using p precedence_token [OF p(2)]
  by (auto simp: parse_binary.simps bindE_eq_Inl split: if_splits dest!: left_next parse_left sufficesD [OF n])

lemma suffices: "suffices fl key n"
proof (induction n)
  case 0
  then show ?case by (simp add: suffices_def)
next
  case (Suc n)
  show ?case unfolding suffices_def
    by (intro conjI allI impI)
      (rule parse_suffices [OF Suc] primary_suffices [OF Suc] args_suffices [OF Suc] postfix_suffices [OF Suc]
        binary_suffices [OF Suc]; assumption)+
qed

text \<open>So a run of the parser with the fuel \<open>compileExpression\<close> gives it always ends on its own.\<close>

lemma parse_fuel: "0 < low \<Longrightarrow> 3 * tokens_left p + 2 \<le> n \<Longrightarrow> parse n fl key low depth p \<noteq> Inl NoFuel"
  using sufficesD(1) [OF suffices, of n fl key low depth p] by auto

text \<open>More fuel never changes a result: \<open>refines\<close> compares a run with one that has one more.\<close>

definition refines :: "xerror + 'a \<Rightarrow> xerror + 'a \<Rightarrow> bool" where
  "refines r r' \<longleftrightarrow> r = Inl NoFuel \<or> r' = r"

lemma refines_refl: "refines r r" "refines (Inl NoFuel) r"
  by (simp_all add: refines_def)

lemma refines_bind: "refines m m' \<Longrightarrow> (\<And>x. refines (f x) (f' x)) \<Longrightarrow> refines (bindE m f) (bindE m' f')"
  by (cases m) (auto simp: refines_def)

lemma refines_if: "refines a a' \<Longrightarrow> refines b b' \<Longrightarrow> refines (if c then a else b) (if c then a' else b')"
  by simp

lemma refines_prod: "(\<And>a b. refines (f a b) (f' a b)) \<Longrightarrow> refines (case x of (a, b) \<Rightarrow> f a b) (case x of (a, b) \<Rightarrow> f' a b)"
  by (simp split: prod.split)

lemma refines_token:
  "refines a a' \<Longrightarrow> (\<And>v. refines (b v) (b' v)) \<Longrightarrow> (\<And>i. refines (c i) (c' i)) \<Longrightarrow> (\<And>op. refines (d op) (d' op)) \<Longrightarrow>
     refines (case tok of NoToken \<Rightarrow> a | Literal v \<Rightarrow> b v | Identifier i \<Rightarrow> c i | Operator op \<Rightarrow> d op)
       (case tok of NoToken \<Rightarrow> a' | Literal v \<Rightarrow> b' v | Identifier i \<Rightarrow> c' i | Operator op \<Rightarrow> d' op)"
  by (cases tok) simp_all

lemmas refines_intros = refines_refl refines_bind refines_if refines_prod refines_token

lemma parse_refines:
  "refines (parse n fl key low depth p) (parse (Suc n) fl key low depth p) \<and>
   refines (parse_primary n fl key depth p) (parse_primary (Suc n) fl key depth p) \<and>
   refines (parse_args n fl key depth p) (parse_args (Suc n) fl key depth p) \<and>
   refines (parse_postfix n fl key depth e p) (parse_postfix (Suc n) fl key depth e p) \<and>
   refines (parse_binary n fl key low depth e p) (parse_binary (Suc n) fl key low depth e p)"
proof (induction n arbitrary: low depth p e)
  case 0
  show ?case by (simp add: parse.simps parse_primary.simps parse_args.simps parse_postfix.simps parse_binary.simps refines_refl)
next
  case (Suc n)
  note IH = Suc.IH [THEN conjunct1] Suc.IH [THEN conjunct2, THEN conjunct1] Suc.IH [THEN conjunct2, THEN conjunct2, THEN conjunct1]
    Suc.IH [THEN conjunct2, THEN conjunct2, THEN conjunct2, THEN conjunct1] Suc.IH [THEN conjunct2, THEN conjunct2, THEN conjunct2, THEN conjunct2]
  show ?case
  proof (intro conjI)
    show "refines (parse (Suc n) fl key low depth p) (parse (Suc (Suc n)) fl key low depth p)"
      by (subst parse.simps(2) [of n], subst parse.simps(2) [of "Suc n"]) (intro refines_intros IH)
    show "refines (parse_primary (Suc n) fl key depth p) (parse_primary (Suc (Suc n)) fl key depth p)"
      by (subst parse_primary.simps(2) [of n], subst parse_primary.simps(2) [of "Suc n"]) (intro refines_intros IH)
    show "refines (parse_args (Suc n) fl key depth p) (parse_args (Suc (Suc n)) fl key depth p)"
      by (subst parse_args.simps(2) [of n], subst parse_args.simps(2) [of "Suc n"]) (intro refines_intros IH)
    show "refines (parse_postfix (Suc n) fl key depth e p) (parse_postfix (Suc (Suc n)) fl key depth e p)"
      by (subst parse_postfix.simps(2) [of n], subst parse_postfix.simps(2) [of "Suc n"]) (intro refines_intros IH)
    show "refines (parse_binary (Suc n) fl key low depth e p) (parse_binary (Suc (Suc n)) fl key low depth e p)"
      by (subst parse_binary.simps(2) [of n], subst parse_binary.simps(2) [of "Suc n"]) (intro refines_intros IH)
  qed
qed

lemma parse_more_fuel: "parse n fl key low depth p \<noteq> Inl NoFuel \<Longrightarrow> parse (n + k) fl key low depth p = parse n fl key low depth p"
proof (induction k)
  case (Suc k)
  then show ?case using parse_refines [of "n + k" fl key low depth p] by (auto simp: refines_def)
qed simp

end
