(* ===== verification/Patterns.thy ===== *)
theory Patterns
  imports Expression Utf8
begin

text \<open>
  The filters of events (\<open>internal/actions/patterns.go\<close>): the translation of a GitHub pattern to the
  text of a regular expression, \<open>MatchPatterns\<close> and \<open>MatchEvent\<close>. Go's package \<open>regexp\<close> is
  modelled for the syntax that the translation writes: a name is matched rune by rune, and an invalid byte of it is
  read as U+FFFD. Details and paths of messages are left out.
\<close>

subsection \<open>The regular expressions of Go\<close>

text \<open>A rune is its bytes.\<close>

definition rune_of :: "bytes \<Rightarrow> bytes" where
  "rune_of s = (case DecodeRune s of (w, ok) \<Rightarrow> if ok then take w s else RuneErrorText)"

function runes :: "bytes \<Rightarrow> bytes list" where
  "runes s = (if s = [] then [] else rune_of s # runes (drop (fst (DecodeRune s)) s))"
  by pat_completeness auto
termination
proof (relation "measure length", goal_cases)
  case (2 s)
  then show ?case using decode_width(1) [of s] by simp
qed simp

declare runes.simps [simp del]

datatype single =
    Rune bytes
  | AnyRune
  | Class bool "(char \<times> char) list"

fun accepts :: "single \<Rightarrow> bytes \<Rightarrow> bool" where
  "accepts (Rune r) x = (x = r)"
| "accepts AnyRune x = True"
| "accepts (Class negated ranges) x =
     (negated \<noteq> list_ex (\<lambda>(a, b). length x = 1 \<and> byte a \<le> byte (hd x) \<and> byte (hd x) \<le> byte b) ranges)"

datatype repeated =
    One single
  | Optional single
  | Some_of single
  | Any_of single

datatype item =
    Simple repeated
  | OptionalGroup "repeated list"

text \<open>\<open>MatchString\<close> of an expression that is anchored at both ends: some way to cut the name exists.\<close>

fun match_seq :: "repeated list \<Rightarrow> (bytes list \<Rightarrow> bool) \<Rightarrow> bytes list \<Rightarrow> bool" where
  "match_seq [] k s = k s"
| "match_seq (One a # rs) k s = (case s of [] \<Rightarrow> False | x # t \<Rightarrow> accepts a x \<and> match_seq rs k t)"
| "match_seq (Optional a # rs) k s =
     (match_seq rs k s \<or> (case s of [] \<Rightarrow> False | x # t \<Rightarrow> accepts a x \<and> match_seq rs k t))"
| "match_seq (Some_of a # rs) k s =
     (case s of [] \<Rightarrow> False | x # t \<Rightarrow> accepts a x \<and> (match_seq rs k t \<or> match_seq (Some_of a # rs) k t))"
| "match_seq (Any_of a # rs) k s =
     (match_seq rs k s \<or> (case s of [] \<Rightarrow> False | x # t \<Rightarrow> accepts a x \<and> match_seq (Any_of a # rs) k t))"

fun match_items :: "item list \<Rightarrow> bytes list \<Rightarrow> bool" where
  "match_items [] s = (s = [])"
| "match_items (Simple r # is) s = match_seq [r] (match_items is) s"
| "match_items (OptionalGroup rs # is) s = (match_items is s \<or> match_seq rs (match_items is) s)"

text \<open>
  The syntax: \<open>None\<close> is an error of \<open>regexp.Compile\<close> or syntax that is not modelled. A literal above
  ASCII must be a whole rune.
\<close>

definition meta_chars :: bytes where
  "meta_chars = [CHR 0x5C, CHR ''.'', CHR ''+'', CHR ''*'', CHR ''?'', CHR ''('', CHR '')'', CHR ''|'',
     CHR ''['', CHR '']'', CHR ''{'', CHR ''}'', CHR ''^'', CHR ''$'']"

definition class_char :: "char \<Rightarrow> bool" where
  "class_char a \<longleftrightarrow> a = CHR ''/'' \<or> asciiLetter a \<or> is_digit a"

fun class_ranges :: "bytes \<Rightarrow> ((char \<times> char) list \<times> bytes) option" where
  "class_ranges [] = None"
| "class_ranges (a # s) =
     (if a = CHR '']'' then Some ([], s)
      else if \<not> class_char a then None
      else case s of
        x # b # t \<Rightarrow>
          (if x = CHR ''-'' then
             (if byte b < byte a \<or> b = CHR '']'' then None
              else map_option (apfst (Cons (a, b))) (class_ranges t))
           else map_option (apfst (Cons (a, a))) (class_ranges s))
      | _ \<Rightarrow> map_option (apfst (Cons (a, a))) (class_ranges s))"

definition read_single :: "bytes \<Rightarrow> (single \<times> bytes) option" where
  "read_single s =
     (case s of
        [] \<Rightarrow> None
      | a # t \<Rightarrow>
          (if a = CHR ''.'' then Some (AnyRune, t)
           else if a = CHR 0x5C then
             (case t of [] \<Rightarrow> None | c # u \<Rightarrow> if c \<in> set meta_chars then Some (Rune [c], u) else None)
           else if a = CHR ''['' then
             (case cut_prefix ''^'' t of
                Some u \<Rightarrow> map_option (\<lambda>(ranges, r). (Class True ranges, r)) (class_ranges u)
              | None \<Rightarrow> map_option (\<lambda>(ranges, r). (Class False ranges, r)) (class_ranges t))
           else if a \<in> set meta_chars then None
           else case DecodeRune s of (w, ok) \<Rightarrow> if ok then Some (Rune (take w s), drop w s) else None))"

definition quantifier :: "char \<Rightarrow> bool" where
  "quantifier c \<longleftrightarrow> c = CHR ''*'' \<or> c = CHR ''+'' \<or> c = CHR ''?''"

definition read_repeated :: "bytes \<Rightarrow> (repeated \<times> bytes) option" where
  "read_repeated s =
     (case read_single s of
        None \<Rightarrow> None
      | Some (a, []) \<Rightarrow> Some (One a, [])
      | Some (a, q # t) \<Rightarrow>
          (if \<not> quantifier q then Some (One a, q # t)
           else if t \<noteq> [] \<and> quantifier (hd t) then None
           else Some ((if q = CHR ''*'' then Any_of a else if q = CHR ''+'' then Some_of a else Optional a), t)))"

lemma class_ranges_length: "class_ranges s = Some (r, t) \<Longrightarrow> length t < length s"
proof (induction s arbitrary: r t rule: length_induct)
  case (1 s)
  show ?case
  proof (cases s)
    case Nil
    then show ?thesis using "1.prems" by simp
  next
    case s: (Cons a u)
    consider "a = CHR '']''" | b v r' where "u = CHR ''-'' # b # v" "class_ranges v = Some (r', t)"
      | r' where "class_ranges u = Some (r', t)"
      using "1.prems" by (cases u; cases "tl u"; cases "hd u = CHR ''-''") (auto simp: s simp del: class_ranges.simps(1) split: if_splits)
    then show ?thesis
    proof cases
      case 1
      then show ?thesis using "1.prems" by (simp add: s)
    next
      case 2
      then show ?thesis using "1.IH" [rule_format, of v r' t] by (simp add: s)
    next
      case 3
      then show ?thesis using "1.IH" [rule_format, of u r' t] by (simp add: s)
    qed
  qed
qed

lemma read_single_length:
  assumes "read_single s = Some (a, t)"
  shows "length t < length s"
proof (cases s)
  case Nil
  then show ?thesis using assms by (simp add: read_single_def)
next
  case (Cons c u)
  have "1 \<le> fst (DecodeRune s)" by (rule decode_width(1)) (simp add: Cons)
  then have d: "length (drop (fst (DecodeRune s)) s) < length s" using Cons by simp
  consider "c = CHR ''.''" | "c = CHR 0x5C" | "c = CHR ''[''" | "c \<notin> {CHR ''.'', CHR 0x5C, CHR ''[''}" by blast
  then show ?thesis
  proof cases
    case 1
    then show ?thesis using assms by (simp add: read_single_def Cons)
  next
    case 2
    then show ?thesis using assms by (auto simp: read_single_def Cons split: list.splits if_splits)
  next
    case 3
    then show ?thesis using assms
      by (auto simp: read_single_def Cons cut_prefix_Some split: option.splits dest!: class_ranges_length)
  next
    case 4
    then show ?thesis using assms d by (auto simp: read_single_def Cons split: if_splits prod.splits)
  qed
qed

lemma read_repeated_length: "read_repeated s = Some (r, t) \<Longrightarrow> length t < length s"
  by (auto simp: read_repeated_def split: list.splits if_splits option.splits prod.splits dest!: read_single_length)

function read_group :: "bytes \<Rightarrow> (repeated list \<times> bytes) option" where
  "read_group s =
     (if prefix '')'' s then Some ([], tl s)
      else case read_repeated s of
        None \<Rightarrow> None
      | Some (r, t) \<Rightarrow> map_option (apfst (Cons r)) (read_group t))"
  by pat_completeness auto
termination
  by (relation "measure length") (auto dest: read_repeated_length)

declare read_group.simps [simp del]

lemma read_group_length: "read_group s = Some (rs, t) \<Longrightarrow> length t < length s"
proof (induction s arbitrary: rs rule: read_group.induct)
  case (1 s)
  then show ?case
    unfolding read_group.simps [of s]
    by (fastforce simp: prefix_def split: if_splits option.splits dest: read_repeated_length)
qed

function read_items :: "bytes \<Rightarrow> item list option" where
  "read_items s =
     (if s = ''$'' then Some []
      else case cut_prefix ''(?:'' s of
        Some u \<Rightarrow>
          (case read_group u of
             None \<Rightarrow> None
           | Some (rs, v) \<Rightarrow>
               (case cut_prefix ''?'' v of
                  None \<Rightarrow> None
                | Some t \<Rightarrow>
                    if t \<noteq> [] \<and> quantifier (hd t) then None
                    else map_option (Cons (OptionalGroup rs)) (read_items t)))
      | None \<Rightarrow>
          (case read_repeated s of
             None \<Rightarrow> None
           | Some (r, t) \<Rightarrow> map_option (Cons (Simple r)) (read_items t)))"
  by pat_completeness auto
termination
  by (relation "measure length") (auto simp: cut_prefix_Some dest: read_repeated_length dest!: read_group_length)

declare read_items.simps [simp del]

definition regexp_Compile :: "bytes \<Rightarrow> item list option" where
  "regexp_Compile s = Option.bind (cut_prefix ''(?s)^'' s) read_items"

subsection \<open>The translation of a pattern\<close>

definition QuoteMeta :: "char \<Rightarrow> bytes" where
  "QuoteMeta c = (if c \<in> set meta_chars then [CHR 0x5C, c] else [c])"

fun validPatternClass :: "bytes \<Rightarrow> bool" where
  "validPatternClass [] = True"
| "validPatternClass (a # s) =
     ((asciiLetter a \<or> is_digit a) \<and>
      (case s of
         x # t \<Rightarrow>
           (if x = CHR ''-'' then
              (case t of
                 [] \<Rightarrow> False
               | b # u \<Rightarrow>
                   byte a \<le> byte b \<and> (is_lower a \<and> byte b \<le> 122 \<or> is_upper a \<and> byte b \<le> 90 \<or> is_digit a \<and> byte b \<le> 57) \<and>
                   validPatternClass u)
            else validPatternClass s)
       | [] \<Rightarrow> validPatternClass s))"

definition filter_error :: "bytes \<Rightarrow> xerror" where
  "filter_error expected = WrongType ''filter'' expected"

lemma cut_length: "(a, b, f) = cut c p \<Longrightarrow> length b \<le> length p"
  by (cases rule: cut_cases [of p c]) auto

function (sequential) compile_loop :: "bool \<Rightarrow> bytes \<Rightarrow> xerror + bytes" where
  "compile_loop repeatable [] = Inr []"
| "compile_loop repeatable (c # p) =
     (if c = CHR 0x5C then
        (case p of
           [] \<Rightarrow> Inl (filter_error ''a character after an escape'')
         | d # q \<Rightarrow> bindE (compile_loop True q) (\<lambda>out. Inr (QuoteMeta d @ out)))
      else if c = CHR ''*'' then
        (case cut_prefix ''*/'' p of
           Some q \<Rightarrow> bindE (compile_loop False q) (\<lambda>out. Inr (''(?:.*/)?'' @ out))
         | None \<Rightarrow>
             (case cut_prefix ''*'' p of
                Some q \<Rightarrow> bindE (compile_loop False q) (\<lambda>out. Inr (''.*'' @ out))
              | None \<Rightarrow> bindE (compile_loop False p) (\<lambda>out. Inr (''[^/]*'' @ out))))
      else if c = CHR ''?'' \<or> c = CHR ''+'' then
        (if \<not> repeatable then Inl (filter_error ''a character or character class before ? or +'')
         else bindE (compile_loop False p) (\<lambda>out. Inr (c # out)))
      else if c = CHR ''['' then
        (case cut (CHR '']'') p of
           (class_text, q, closed) \<Rightarrow>
             (if \<not> closed \<or> class_text = [] then Inl (filter_error ''a closed, nonempty character class'')
              else if \<not> validPatternClass class_text then Inl (filter_error ''alphanumeric characters or ranges'')
              else bindE (compile_loop True q) (\<lambda>out. Inr ([c] @ class_text @ '']'' @ out))))
      else bindE (compile_loop True p) (\<lambda>out. Inr (QuoteMeta c @ out)))"
  by pat_completeness auto
termination
  by (relation "measure (\<lambda>(repeatable, p). length p)") (auto simp: cut_prefix_Some dest: cut_length)

definition compilePattern :: "bytes \<Rightarrow> xerror + item list" where
  "compilePattern pattern =
     (if length pattern > MaxExpressionBytes then Inl (Limit ''filter pattern'')
      else bindE (compile_loop False pattern) (\<lambda>out.
        case regexp_Compile (''(?s)^'' @ out @ ''$'') of
          None \<Rightarrow> Inl (filter_error ''a valid GitHub filter pattern'')
        | Some re \<Rightarrow> Inr re))"

subsection \<open>Sets of patterns\<close>

record patternSet =
  set_patterns :: "(item list \<times> bool) list"
  set_initial :: bool

fun compile_patterns :: "bool \<Rightarrow> bytes list \<Rightarrow> xerror + (item list \<times> bool) list" where
  "compile_patterns is_ordered [] = Inr []"
| "compile_patterns is_ordered (p # ps) =
     (let negative = is_ordered \<and> prefix ''!'' p in
      bindE (compilePattern (if negative then tl p else p)) (\<lambda>re.
      bindE (compile_patterns is_ordered ps) (\<lambda>rest. Inr ((re, negative) # rest))))"

definition compilePatternSet :: "bytes list \<Rightarrow> bool \<Rightarrow> xerror + patternSet" where
  "compilePatternSet patterns is_ordered =
     bindE (compile_patterns is_ordered patterns) (\<lambda>compiled.
       if patterns \<noteq> [] \<and> list_all snd compiled then
         Inl (filter_error ''at least one positive pattern, or an ignore filter'')
       else Inr \<lparr>set_patterns = compiled, set_initial = is_ordered \<and> patterns = []\<rparr>)"

definition set_matches :: "patternSet \<Rightarrow> bytes \<Rightarrow> bool" where
  "set_matches s name =
     fold (\<lambda>(re, negative) matched. if match_items re (runes name) then \<not> negative else matched)
       (set_patterns s) (set_initial s)"

definition MatchPatterns :: "bytes list \<Rightarrow> bytes \<Rightarrow> xerror + bool" where
  "MatchPatterns patterns name = bindE (compilePatternSet patterns True) (\<lambda>s. Inr (set_matches s name))"

definition matchesIgnore :: "bytes list \<Rightarrow> bytes \<Rightarrow> xerror + bool" where
  "matchesIgnore patterns name = bindE (compilePatternSet patterns False) (\<lambda>s. Inr (set_matches s name))"

subsection \<open>Events\<close>

record Message =
  msg_Code :: bytes
  msg_Args :: "(bytes \<times> bytes) list"

record Trigger =
  tr_Branches :: "bytes list"
  tr_BranchesIgnore :: "bytes list"
  tr_Tags :: "bytes list"
  tr_TagsIgnore :: "bytes list"
  tr_Paths :: "bytes list"
  tr_PathsIgnore :: "bytes list"
  tr_Types :: "bytes list"

record ChangedPaths =
  ch_Files :: "bytes list"
  ch_Complete :: bool
  ch_Reason :: bytes

record Event =
  evt_Name :: bytes
  evt_RefName :: bytes
  evt_RefType :: bytes
  evt_BaseRef :: bytes
  evt_Action :: bytes
  evt_Changed :: ChangedPaths
  evt_BypassPaths :: bool

record FilterDecision =
  dec_Matched :: bool
  dec_Unknown :: bool
  dec_Note :: "Message option"

definition containsWord :: "bytes \<Rightarrow> bytes \<Rightarrow> bool" where
  "containsWord words word \<longleftrightarrow> word \<in> set (Fields words)"

fun Join :: "bytes \<Rightarrow> bytes list \<Rightarrow> bytes" where
  "Join sep [] = []"
| "Join sep [x] = x"
| "Join sep (x # xs) = x @ sep @ Join sep xs"

definition supportedEvent :: "bytes \<Rightarrow> bool" where
  "supportedEvent name \<longleftrightarrow> name \<in> {''push'', ''pull_request'', ''workflow_dispatch'', ''schedule''}"

definition eventMessage :: "bytes \<Rightarrow> Message" where
  "eventMessage name =
     (if name = ''pull_request_target'' then \<lparr>msg_Code = ''workflow.event_pr_target'', msg_Args = []\<rparr>
      else \<lparr>msg_Code = ''workflow.event'', msg_Args = [(''event'', name)]\<rparr>)"

definition no_match :: FilterDecision where
  "no_match = \<lparr>dec_Matched = False, dec_Unknown = False, dec_Note = None\<rparr>"

definition noted :: "Message \<Rightarrow> FilterDecision" where
  "noted m = no_match\<lparr>dec_Note := Some m\<rparr>"

definition tags_message :: Message where
  "tags_message = \<lparr>msg_Code = ''workflow.tags'', msg_Args = []\<rparr>"

definition matchPaths :: "Trigger \<Rightarrow> ChangedPaths \<Rightarrow> xerror + FilterDecision" where
  "matchPaths trigger changed =
     bindE (compilePatternSet (tr_Paths trigger) True) (\<lambda>paths.
     bindE (compilePatternSet (tr_PathsIgnore trigger) False) (\<lambda>ignored.
       if list_ex (\<lambda>path. set_matches paths path \<and> \<not> set_matches ignored path) (ch_Files changed) then
         Inr (no_match\<lparr>dec_Matched := True\<rparr>)
       else if \<not> ch_Complete changed then
         Inr (no_match\<lparr>dec_Unknown := True,
           dec_Note := Some \<lparr>msg_Code = ''note.paths_unknown'', msg_Args = [(''reason'', ch_Reason changed)]\<rparr>\<rparr>)
       else Inr no_match))"

definition MatchEvent :: "(bytes \<times> Trigger) list \<Rightarrow> Event \<Rightarrow> xerror + FilterDecision" where
  "MatchEvent workflow event =
     (case map_of workflow (evt_Name event) of
        None \<Rightarrow> Inr no_match
      | Some trigger \<Rightarrow>
          (if \<not> supportedEvent (evt_Name event) then Inr (noted (eventMessage (evt_Name event)))
           else if evt_Name event = ''workflow_dispatch'' \<or> evt_Name event = ''schedule'' then
             Inr (no_match\<lparr>dec_Matched := True\<rparr>)
           else if evt_Name event = ''push'' \<and> evt_RefType event = ''tag'' then Inr (noted tags_message)
           else if evt_Name event = ''pull_request'' \<and> tr_Types trigger \<noteq> [] \<and>
               \<not> containsWord (Join '' '' (tr_Types trigger)) (evt_Action event) then Inr no_match
           else if evt_Name event = ''push'' \<and> tr_Branches trigger = [] \<and> tr_BranchesIgnore trigger = [] \<and>
               (tr_Tags trigger \<noteq> [] \<or> tr_TagsIgnore trigger \<noteq> []) then Inr (noted tags_message)
           else
             let name = (if evt_Name event = ''pull_request'' then evt_BaseRef event else evt_RefName event) in
             bindE (MatchPatterns (tr_Branches trigger) name) (\<lambda>matched.
               if \<not> matched then Inr no_match
               else bindE (matchesIgnore (tr_BranchesIgnore trigger) name) (\<lambda>ignored.
                 if ignored then Inr no_match
                 else if evt_BypassPaths event \<or> tr_Paths trigger = [] \<and> tr_PathsIgnore trigger = [] then
                   Inr (no_match\<lparr>dec_Matched := True\<rparr>)
                 else matchPaths trigger (evt_Changed event)))))"

text \<open>What the reader of a workflow checks of the filters of an event.\<close>

fun checkIgnore :: "bytes list \<Rightarrow> xerror + unit" where
  "checkIgnore [] = Inr ()"
| "checkIgnore (p # ps) =
     (if prefix ''!'' p then Inl (filter_error ''patterns without ! in an ignore filter'')
      else bindE (compilePattern p) (\<lambda>_. checkIgnore ps))"

definition checkPatterns :: "bytes list \<Rightarrow> xerror + unit" where
  "checkPatterns ps = bindE (MatchPatterns ps []) (\<lambda>_. Inr ())"

definition checkFilters :: "Trigger \<Rightarrow> xerror + unit" where
  "checkFilters t =
     bindE (checkPatterns (tr_Branches t)) (\<lambda>_. bindE (checkIgnore (tr_BranchesIgnore t)) (\<lambda>_.
     bindE (checkPatterns (tr_Tags t)) (\<lambda>_. bindE (checkIgnore (tr_TagsIgnore t)) (\<lambda>_.
     bindE (checkPatterns (tr_Paths t)) (\<lambda>_. checkIgnore (tr_PathsIgnore t))))))"

end
