(* ===== verification/PatternProps.thy ===== *)
theory PatternProps
  imports Patterns
begin

text \<open>
  What a pattern means, said on its own text (\<open>glob\<close>, over the runes of a name), and that the regular expression the
  code writes for it means the same; then what an incomplete list of changed files can decide.
\<close>

subsection \<open>The meaning of a pattern\<close>


definition read_rune :: "bytes \<Rightarrow> (single \<times> bytes) option" where
  "read_rune p = (case DecodeRune p of (w, ok) \<Rightarrow> if ok then Some (Rune (take w p), drop w p) else None)"

definition read_unit :: "bytes \<Rightarrow> (single \<times> bytes) option" where
  "read_unit p =
     (case p of
        [] \<Rightarrow> None
      | c # s \<Rightarrow>
          (if c = CHR 0x5C then read_rune s
           else if c = CHR ''?'' \<or> c = CHR ''+'' then None
           else if c = CHR ''['' then
             (case cut (CHR '']'') s of (class_text, q, closed) \<Rightarrow>
                if closed \<and> class_text \<noteq> [] \<and> validPatternClass class_text then
                  map_option (\<lambda>(ranges, _). (Class False ranges, q)) (class_ranges (class_text @ '']''))
                else None)
           else read_rune p))"

lemma read_rune_length: "read_rune p = Some (a, q) \<Longrightarrow> length q < length p"
proof -
  assume r: "read_rune p = Some (a, q)"
  then have "p \<noteq> []" by (auto simp: read_rune_def)
  then show ?thesis using r decode_width(1) [of p] by (cases p) (auto simp: read_rune_def split: prod.splits if_splits)
qed

lemma read_unit_length: "read_unit p = Some (a, q) \<Longrightarrow> length q < length p"
  by (auto simp: read_unit_def split: list.splits if_splits prod.splits dest: read_rune_length cut_length [OF sym])

function glob :: "bytes \<Rightarrow> bytes list \<Rightarrow> bool" where
  "glob p name =
     (if p = [] then name = []
      else if prefix ''**/'' p then
        glob (drop 3 p) name \<or> (\<exists>k < length name. name ! k = ''/'' \<and> glob (drop 3 p) (drop (Suc k) name))
      else if prefix ''**'' p then \<exists>k \<le> length name. glob (drop 2 p) (drop k name)
      else if prefix ''*'' p then \<exists>k \<le> length name. ''/'' \<notin> set (take k name) \<and> glob (tl p) (drop k name)
      else case read_unit p of
        None \<Rightarrow> False
      | Some (a, q) \<Rightarrow>
          (if prefix ''?'' q then
             glob (tl q) name \<or> (name \<noteq> [] \<and> accepts a (hd name) \<and> glob (tl q) (tl name))
           else if prefix ''+'' q then
             (\<exists>k. 0 < k \<and> k \<le> length name \<and> (\<forall>x \<in> set (take k name). accepts a x) \<and> glob (tl q) (drop k name))
           else name \<noteq> [] \<and> accepts a (hd name) \<and> glob q (tl name)))"
  by pat_completeness auto
termination
  by (relation "measure (\<lambda>(p, name). length p)") (auto dest: read_unit_length simp: prefix_def)

declare glob.simps [simp del]

lemma match_any: "match_seq [Any_of a] k s \<longleftrightarrow> (\<exists>j \<le> length s. (\<forall>x \<in> set (take j s). accepts a x) \<and> k (drop j s))"
proof (induction s)
  case (Cons x s)
  show ?case
  proof
    assume "match_seq [Any_of a] k (x # s)"
    then consider "k (x # s)" | j where "accepts a x" "j \<le> length s" "\<forall>y \<in> set (take j s). accepts a y" "k (drop j s)"
      using Cons by auto
    then show "\<exists>j \<le> length (x # s). (\<forall>y \<in> set (take j (x # s)). accepts a y) \<and> k (drop j (x # s))"
    proof cases
      case 1
      then show ?thesis by (intro exI [of _ 0]) simp
    next
      case 2
      then show ?thesis by (intro exI [of _ "Suc j"]) simp
    qed
  next
    assume "\<exists>j \<le> length (x # s). (\<forall>y \<in> set (take j (x # s)). accepts a y) \<and> k (drop j (x # s))"
    then obtain j where "j \<le> Suc (length s)" "\<forall>y \<in> set (take j (x # s)). accepts a y" "k (drop j (x # s))" by auto
    then show "match_seq [Any_of a] k (x # s)" using Cons by (cases j) auto
  qed
qed simp

lemma match_some: "match_seq [Some_of a] k s \<longleftrightarrow>
    (\<exists>j. 0 < j \<and> j \<le> length s \<and> (\<forall>x \<in> set (take j s). accepts a x) \<and> k (drop j s))"
proof (induction s)
  case (Cons x s)
  show ?case
  proof
    assume "match_seq [Some_of a] k (x # s)"
    then consider "accepts a x" "k s" | j where "accepts a x" "0 < j" "j \<le> length s" "\<forall>y \<in> set (take j s). accepts a y" "k (drop j s)"
      using Cons by auto
    then show "\<exists>j. 0 < j \<and> j \<le> length (x # s) \<and> (\<forall>y \<in> set (take j (x # s)). accepts a y) \<and> k (drop j (x # s))"
    proof cases
      case 1
      then show ?thesis by (intro exI [of _ 1]) simp
    next
      case 2
      then show ?thesis by (intro exI [of _ "Suc j"]) simp
    qed
  next
    assume "\<exists>j. 0 < j \<and> j \<le> length (x # s) \<and> (\<forall>y \<in> set (take j (x # s)). accepts a y) \<and> k (drop j (x # s))"
    then obtain i where i: "i \<le> length s" "\<forall>y \<in> set (take (Suc i) (x # s)). accepts a y" "k (drop i s)"
      by (metis Suc_le_mono drop_Suc_Cons gr0_implies_Suc length_Cons)
    then show "match_seq [Some_of a] k (x # s)" using Cons by (cases i) auto
  qed
qed simp

lemma match_Cons: "rs \<noteq> [] \<Longrightarrow> match_seq (r # rs) k s = match_seq [r] (match_seq rs k) s"
  by (cases r; induction s) auto

lemma match_dirs: "match_items (OptionalGroup [Any_of AnyRune, One (Rune ''/'')] # is) s \<longleftrightarrow>
    match_items is s \<or> (\<exists>k < length s. s ! k = ''/'' \<and> match_items is (drop (Suc k) s))"
proof -
  have "match_seq [Any_of AnyRune, One (Rune ''/'')] k s \<longleftrightarrow> match_seq [Any_of AnyRune] (match_seq [One (Rune ''/'')] k) s" for k s
    by (rule match_Cons) simp
  moreover have "(\<exists>j \<le> length s. match_seq [One (Rune ''/'')] (match_items is) (drop j s)) \<longleftrightarrow>
      (\<exists>k < length s. s ! k = ''/'' \<and> match_items is (drop (Suc k) s))"
    (is "?l \<longleftrightarrow> ?r")
  proof
    assume ?l
    then obtain j where j: "j \<le> length s" "match_seq [One (Rune ''/'')] (match_items is) (drop j s)" by auto
    then have "j < length s" by (cases "j < length s") auto
    then show ?r using j(2) by (auto simp: Cons_nth_drop_Suc [symmetric] intro!: exI [of _ j])
  next
    assume ?r
    then obtain k where "k < length s" "s ! k = ''/''" "match_items is (drop (Suc k) s)" by auto
    then show ?l by (intro exI [of _ k]) (auto simp: Cons_nth_drop_Suc [symmetric])
  qed
  ultimately show ?thesis unfolding match_items.simps match_any by simp
qed

subsection \<open>A single character\<close>

lemma match_one: "match_seq [One a] k s \<longleftrightarrow> s \<noteq> [] \<and> accepts a (hd s) \<and> k (tl s)"
  by (cases s) auto

lemma match_optional: "match_seq [Optional a] k s \<longleftrightarrow> k s \<or> (s \<noteq> [] \<and> accepts a (hd s) \<and> k (tl s))"
  by (cases s) auto

lemma class_range_end:
  assumes "validPatternClass (x # CHR ''-'' # v)"
  obtains y w where "v = y # w" "byte x \<le> byte y" "y \<noteq> CHR '']''" "validPatternClass w"
proof -
  obtain y w where v: "v = y # w" "byte x \<le> byte y" "validPatternClass w"
      "is_lower x \<and> byte y \<le> 122 \<or> is_upper x \<and> byte y \<le> 90 \<or> is_digit x \<and> byte y \<le> 57"
    using assms by (cases v) auto
  have "byte y \<noteq> 93" using v(2,4) unfolding char_defs by linarith
  then have "y \<noteq> CHR '']''" by (auto simp: byte_def)
  then show thesis using that v by blast
qed

lemma class_head: "validPatternClass (x # u) \<Longrightarrow> class_char x \<and> x \<noteq> CHR '']'' \<and> x \<noteq> CHR ''^''"
  by (auto simp: class_char_def asciiLetter_def char_defs byte_def)

lemma class_read: "validPatternClass b \<Longrightarrow> \<exists>rs. \<forall>t. class_ranges (b @ '']'' @ t) = Some (rs, t)"
proof (induction b rule: length_induct)
  case (1 b)
  note IH = "1.IH" [rule_format]
  show ?case
  proof (cases b)
    case b: (Cons x u)
    have x: "class_char x" "x \<noteq> CHR '']''" using "1.prems" class_head by (auto simp: b)
    show ?thesis
    proof (cases "\<exists>v. u = CHR ''-'' # v")
      case True
      then obtain v where v: "u = CHR ''-'' # v" by blast
      with "1.prems" obtain y w where "v = y # w" "byte x \<le> byte y" "y \<noteq> CHR '']''" "validPatternClass w"
        using class_range_end unfolding b by metis
      then show ?thesis using IH [of w] x v by (auto simp: b not_less)
    next
      case False
      then have v: "validPatternClass u" using "1.prems" by (auto simp: b split: list.splits)
      then obtain rs where "\<And>t. class_ranges (u @ '']'' @ t) = Some (rs, t)" using IH [of u] by (auto simp: b)
      moreover have "class_ranges (b @ '']'' @ t) = map_option (apfst (Cons (x, x))) (class_ranges (u @ '']'' @ t))" for t
        using False x by (cases u; cases "tl u"; cases t) (auto simp: b)
      ultimately show ?thesis by auto
    qed
  qed simp
qed

text \<open>The translation writes for a single character the text that is read back as it.\<close>

lemma raw_loop:
  assumes "list_all (\<lambda>c. 128 \<le> byte c) u" and "u \<noteq> []"
  shows "compile_loop r (u @ q) = bindE (compile_loop True q) (\<lambda>out. Inr (u @ out))"
  using assms
proof (induction u arbitrary: r)
  case (Cons c u)
  have c: "c \<notin> set meta_chars" using Cons.prems by (auto simp: meta_chars_def byte_def)
  then have "c \<noteq> CHR 0x5C" "c \<noteq> CHR ''*''" "c \<noteq> CHR ''?''" "c \<noteq> CHR ''+''" "c \<noteq> CHR ''[''" by (auto simp: meta_chars_def)
  then show ?case using Cons c by (cases "u = []") (auto simp: QuoteMeta_def bindE_def split: sum.splits)
qed simp


definition writes :: "bool \<Rightarrow> bytes \<Rightarrow> bytes \<Rightarrow> bytes \<Rightarrow> bool" where
  "writes r p u q \<longleftrightarrow> compile_loop r p = bindE (compile_loop True q) (\<lambda>out. Inr (u @ out))"

definition unit_text :: "single \<Rightarrow> bytes \<Rightarrow> bool" where
  "unit_text a u \<longleftrightarrow> u \<noteq> [] \<and> \<not> quantifier (hd u) \<and> hd u \<noteq> CHR ''('' \<and> hd u \<noteq> CHR ''$'' \<and>
     (\<forall>t. read_single (u @ t) = Some (a, t))"

definition syntax_chars :: bytes where
  "syntax_chars = [CHR 0x5C, CHR ''*'', CHR ''?'', CHR ''+'', CHR ''['']"

lemma meta_syntax: "set syntax_chars \<subseteq> set meta_chars" "CHR ''('' \<in> set meta_chars" "CHR ''$'' \<in> set meta_chars"
    "quantifier c \<Longrightarrow> c \<in> set meta_chars" "CHR ''.'' \<in> set meta_chars"
  by (auto simp: syntax_chars_def meta_chars_def quantifier_def)

lemma unit_plain:
  assumes "c \<notin> set meta_chars" and "DecodeRune (c # s) = (w, True)"
  shows "unit_text (Rune (take w (c # s))) (take w (c # s))"
proof -
  have w: "1 \<le> w" "w \<le> length (c # s)" using decode_width [of "c # s"] assms(2) by auto
  have n: "c \<noteq> CHR ''.''" "c \<noteq> CHR 0x5C" "c \<noteq> CHR ''[''" using assms(1) meta_syntax by (auto simp: syntax_chars_def)
  have "DecodeRune (take w (c # s) @ t) = (w, True)" for t
    using decode_ok_append decode_take [OF assms(2)] by simp
  moreover obtain v where "w = Suc v" using w(1) by (cases w) auto
  ultimately show ?thesis using assms(1) n w meta_syntax
    by (auto simp: unit_text_def read_single_def)
qed

lemma quoted_text: "byte c < 128 \<Longrightarrow> unit_text (Rune [c]) (QuoteMeta c)"
proof (cases "c \<in> set meta_chars")
  case True
  then show ?thesis by (simp add: unit_text_def QuoteMeta_def read_single_def quantifier_def)
next
  case False
  assume "byte c < 128"
  then show ?thesis using unit_plain [OF False, of "[]" 1] by (simp add: QuoteMeta_def False)
qed

lemma rune_written:
  assumes "valid_utf8 s" and "read_rune s = Some (a, q)"
  obtains u where "unit_text a u" "valid_utf8 q" "\<And>r. writes r (CHR 0x5C # s) u q"
    "\<And>r. s = [] \<or> hd s \<notin> set syntax_chars \<Longrightarrow> writes r s u q"
proof -
  obtain w where w: "DecodeRune s = (w, True)" "a = Rune (take w s)" "q = drop w s"
    using assms(2) by (auto simp: read_rune_def split: prod.splits if_splits)
  then obtain c t where s: "s = c # t" by (cases s) auto
  have q: "valid_utf8 q" using decode_valid(2) [OF w(1)] assms(1) w(3) by simp
  show thesis
  proof (cases "byte c < 128")
    case True
    then have "w = 1" using w(1) by (simp add: s)
    then have "writes r (CHR 0x5C # s) (QuoteMeta c) q" "hd s \<notin> set syntax_chars \<Longrightarrow> writes r s (QuoteMeta c) q" for r
      by (simp_all add: writes_def s w(3) syntax_chars_def)
    then show thesis using that [of "QuoteMeta c"] quoted_text [OF True] q w(2) \<open>w = 1\<close> by (auto simp: s)
  next
    case False
    have "128 \<le> byte (s ! j)" if "j < w" for j
      using False decode_tails [OF w(1), of j] that by (cases j) (auto simp: s utf8_tail_def in_range_def)
    then have "list_all (\<lambda>x. 128 \<le> byte x) (take w s)" by (simp add: list_all_length)
    moreover obtain v where v: "w = Suc v" using decode_width(1) [of s] w(1) by (cases w) (auto simp: s)
    ultimately have all: "list_all (\<lambda>x. 128 \<le> byte x) (c # take v t)" by (simp add: s)
    have c: "c \<notin> set meta_chars" using False by (auto simp: meta_chars_def byte_def)
    have "compile_loop True t = bindE (compile_loop True q) (\<lambda>out. Inr (take v t @ out))"
      using raw_loop [of "take v t" True q] all by (cases "take v t = []") (auto simp: w(3) s v bindE_def split: sum.splits)
    then have "writes r (CHR 0x5C # s) (take w s) q" for r
      using c by (simp add: writes_def s v QuoteMeta_def bindE_def split: sum.splits)
    moreover have "writes r s (take w s) q" for r
      using raw_loop [OF all, of r q] by (simp add: writes_def s v w(3))
    ultimately show thesis using that unit_plain [OF c w(1) [unfolded s]] q by (simp add: w(2) s)
  qed
qed

lemma unit_written:
  assumes "valid_utf8 p" and "read_unit p = Some (a, q)" and "\<not> prefix ''*'' p"
  obtains u where "unit_text a u" "valid_utf8 q" "\<And>r. writes r p u q"
proof -
  obtain c s where p: "p = c # s" using assms(2) by (cases p) (auto simp: read_unit_def)
  consider "c = CHR 0x5C" | "c = CHR ''[''" | "c \<notin> set syntax_chars"
    using assms(2,3) by (auto simp: p read_unit_def syntax_chars_def split: if_splits)
  then show thesis
  proof cases
    case 1
    then have "valid_utf8 s" "read_rune s = Some (a, q)" using assms by (simp_all add: p read_unit_def byte_def)
    then show thesis using rune_written that 1 unfolding p by metis
  next
    case 2
    then obtain b where b: "cut (CHR '']'') s = (b, q, True)" "b \<noteq> []" "validPatternClass b"
        and a: "map_option (\<lambda>(ranges, _). (Class False ranges, q)) (class_ranges (b @ '']'')) = Some (a, q)"
      using assms(2) by (auto simp: p read_unit_def split: prod.splits if_splits)
    obtain rs where rs: "\<And>t. class_ranges (b @ '']'' @ t) = Some (rs, t)" using class_read [OF b(3)] by auto
    from rs [of "[]"] a have a: "a = Class False rs" by simp
    have s: "s = b @ '']'' @ q" using b(1) by (cases rule: cut_cases [of s "CHR '']''"]) auto
    have "hd b \<noteq> CHR ''^''" using class_head b(2,3) by (cases b) auto
    then have "unit_text a (''['' @ b @ '']'')"
      using rs b(2) by (cases b) (auto simp: unit_text_def read_single_def a quantifier_def cut_prefix_def)
    moreover have "writes r p (''['' @ b @ '']'') q" for r
      using b by (simp add: writes_def p 2)
    moreover have "valid_utf8 (drop (Suc (length b)) p)"
      using assms(1) by (rule valid_drop) (simp add: p s nth_append RuneStart_def utf8_tail_def in_range_def byte_def)
    then have "valid_utf8 q" by (simp add: p s byte_def)
    ultimately show thesis using that by blast
  next
    case 3
    then have "read_rune p = Some (a, q)" using assms(2) by (auto simp: p read_unit_def syntax_chars_def split: if_splits)
    then show thesis using rune_written [OF assms(1)] that 3 unfolding p by (metis list.sel(1))
  qed
qed


subsection \<open>A whole pattern\<close>

definition read_as :: "bytes \<Rightarrow> bytes \<Rightarrow> bool" where
  "read_as p out \<longleftrightarrow> (out \<noteq> [] \<longrightarrow> \<not> quantifier (hd out)) \<and>
     (\<exists>is. read_items (out @ ''$'') = Some is \<and> (\<forall>n. match_items is n = glob p n))"

lemma read_asD:
  assumes "read_as p out"
  obtains "is" t where "out @ ''$'' = t" "t \<noteq> []" "\<not> quantifier (hd t)" "read_items t = Some is" "\<And>n. match_items is n = glob p n"
  using assms that by (cases out) (auto simp: read_as_def quantifier_def)

lemma read_item:
  assumes "read_repeated s = Some (r, t)" and "s \<noteq> []" and "hd s \<noteq> CHR ''$''" and "hd s \<noteq> CHR ''(''"
  shows "read_items s = map_option (Cons (Simple r)) (read_items t)"
  by (subst read_items.simps) (use assms in \<open>auto simp: cut_prefix_def prefix_def\<close>)

lemma read_item_as:
  assumes "read_repeated s = Some (r, t)" and "s = o1 @ ''$''" and "o1 \<noteq> []"
    and "hd o1 \<noteq> CHR ''$''" and "hd o1 \<noteq> CHR ''(''" and "\<not> quantifier (hd o1)"
    and "read_items t = Some is" and "\<And>n. glob p n = match_seq [r] (match_items is) n"
  shows "read_as p o1"
proof -
  have "read_items s = Some (Simple r # is)" using read_item [OF assms(1)] assms(2-5,7) by simp
  then show ?thesis using assms(2,3,6,8) by (auto simp: read_as_def)
qed

lemma read_dirs: "t \<noteq> [] \<Longrightarrow> \<not> quantifier (hd t) \<Longrightarrow> read_items (''(?:.*/)?'' @ t) =
    map_option (Cons (OptionalGroup [Any_of AnyRune, One (Rune ''/'')])) (read_items t)"
proof -
  assume t: "t \<noteq> []" "\<not> quantifier (hd t)"
  have "read_group (''.*/)'' @ u) = Some ([Any_of AnyRune, One (Rune ''/'')], u)" for u
    by (simp add: read_group.simps read_repeated_def read_single_def quantifier_def meta_chars_def byte_def)
  from this [of "''?'' @ t"] show ?thesis
    using t by (simp add: read_items.simps [of "CHR ''('' # s" for s] cut_prefix_def)
qed

lemma read_star: "t \<noteq> [] \<Longrightarrow> \<not> quantifier (hd t) \<Longrightarrow> read_repeated (''.*'' @ t) = Some (Any_of AnyRune, t)"
    "t \<noteq> [] \<Longrightarrow> \<not> quantifier (hd t) \<Longrightarrow>
      read_repeated (''[^/]*'' @ t) = Some (Any_of (Class True [(CHR ''/'', CHR ''/'')]), t)"
  by (simp_all add: read_repeated_def read_single_def cut_prefix_def quantifier_def class_char_def)

lemma slash_class: "accepts (Class True [(CHR ''/'', CHR ''/'')]) x \<longleftrightarrow> x \<noteq> ''/''"
proof -
  have "byte (hd x) = byte (CHR ''/'') \<longleftrightarrow> hd x = CHR ''/''" by (rule byte_eq_iff)
  then show ?thesis by (cases x) (auto simp: le_antisym)
qed

lemma loop_plain: "q = [] \<or> hd q \<noteq> CHR ''?'' \<and> hd q \<noteq> CHR ''+'' \<Longrightarrow> compile_loop True q = compile_loop False q"
  by (cases q) simp_all

lemma unit_exists:
  assumes "valid_utf8 p" and "compile_loop False p = Inr out" and "p \<noteq> []" and "\<not> prefix ''*'' p"
  obtains a q where "read_unit p = Some (a, q)"
proof -
  obtain c s where p: "p = c # s" using assms(3) by (cases p) auto
  have rune: "read_rune x \<noteq> None" if "valid_utf8 x" "x \<noteq> []" for x
    using that valid_utf8_iff_decode [of x] by (auto simp: read_rune_def split: prod.splits)
  consider "c = CHR 0x5C" "s \<noteq> []" "valid_utf8 s" | "c = CHR ''[''" | "c \<notin> set syntax_chars"
    using assms(1,2,4) by (cases "c \<in> set syntax_chars") (auto simp: p syntax_chars_def byte_def split: if_splits list.splits)
  then have "read_unit p \<noteq> None"
  proof cases
    case 1
    then show ?thesis using rune by (simp add: p read_unit_def)
  next
    case 2
    then obtain b q where b: "cut (CHR '']'') s = (b, q, True)" "b \<noteq> []" "validPatternClass b"
      using assms(2) by (auto simp: p split: prod.splits if_splits)
    then show ?thesis using class_read [OF b(3)] 2 by (auto simp: p read_unit_def dest: spec [of _ "[]"])
  next
    case 3
    then show ?thesis using rune [OF assms(1,3)] by (auto simp: p read_unit_def syntax_chars_def)
  qed
  then show thesis using that by (cases "read_unit p") auto
qed

lemma compiled_glob: "valid_utf8 p \<Longrightarrow> compile_loop False p = Inr out \<Longrightarrow> read_as p out"
proof (induction p arbitrary: out rule: length_induct)
  case (1 p)
  note IH = "1.IH" [rule_format]
  consider "p = []" | q where "p = ''**/'' @ q" | q where "p = ''**'' @ q" "\<not> prefix ''**/'' p"
    | q where "p = ''*'' @ q" "\<not> prefix ''**'' p" | "p \<noteq> []" "\<not> prefix ''*'' p"
    by (cases "prefix ''**/'' p"; cases "prefix ''**'' p"; cases "prefix ''*'' p") (auto simp: prefix_def)
  then show ?case
  proof cases
    case 1
    then show ?thesis using "1.prems" by (simp add: read_as_def read_items.simps glob.simps)
  next
    case (2 q)
    have "valid_utf8 q" using "1.prems"(1) by (simp add: 2 byte_def)
    moreover obtain o1 where o1: "compile_loop False q = Inr o1" "out = ''(?:.*/)?'' @ o1"
      using "1.prems"(2) by (auto simp: 2 cut_prefix_def)
    ultimately have "read_as q o1" using IH [of q o1] by (simp add: 2)
    then obtain "is" t where t: "o1 @ ''$'' = t" "t \<noteq> []" "\<not> quantifier (hd t)" "read_items t = Some is"
        "\<And>n. match_items is n = glob q n" by (rule read_asD) blast
    have "glob p n = match_items (OptionalGroup [Any_of AnyRune, One (Rune ''/'')] # is) n" for n
      unfolding match_dirs t(5) by (subst glob.simps) (simp add: 2)
    then show ?thesis using read_dirs [OF t(2,3)] by (simp add: read_as_def o1(2) t(1,4) quantifier_def)
  next
    case (3 q)
    have q: "valid_utf8 q" "cut_prefix ''*/'' (tl p) = None"
      using "1.prems"(1) 3 by (auto simp: byte_def cut_prefix_def)
    then obtain o1 where o1: "compile_loop False q = Inr o1" "out = ''.*'' @ o1"
      using "1.prems"(2) by (auto simp: 3(1) cut_prefix_def)
    then have "read_as q o1" using IH [of q o1] q(1) by (simp add: 3(1))
    then obtain "is" t where t: "o1 @ ''$'' = t" "t \<noteq> []" "\<not> quantifier (hd t)" "read_items t = Some is"
        "\<And>n. match_items is n = glob q n" by (rule read_asD) blast
    show ?thesis
    proof (rule read_item_as [OF read_star(1) [OF t(2,3)] _ _ _ _ _ t(4)])
      show "glob p n = match_seq [Any_of AnyRune] (match_items is) n" for n
        unfolding match_any t(5) by (subst glob.simps) (use 3 in simp)
    qed (simp_all add: o1(2) t(1) quantifier_def)
  next
    case (4 q)
    have q: "valid_utf8 q" "cut_prefix ''*/'' (tl p) = None" "cut_prefix ''*'' (tl p) = None"
      using "1.prems"(1) 4 by (auto simp: byte_def cut_prefix_def prefix_def)
    then obtain o1 where o1: "compile_loop False q = Inr o1" "out = ''[^/]*'' @ o1"
      using "1.prems"(2) by (auto simp: 4(1))
    then have "read_as q o1" using IH [of q o1] q(1) by (simp add: 4(1))
    then obtain "is" t where t: "o1 @ ''$'' = t" "t \<noteq> []" "\<not> quantifier (hd t)" "read_items t = Some is"
        "\<And>n. match_items is n = glob q n" by (rule read_asD) blast
    show ?thesis
    proof (rule read_item_as [OF read_star(2) [OF t(2,3)] _ _ _ _ _ t(4)])
      have "\<not> prefix ''**/'' p" using 4 by (auto simp: prefix_def)
      then show "glob p n = match_seq [Any_of (Class True [(CHR ''/'', CHR ''/'')])] (match_items is) n" for n
        unfolding match_any t(5) slash_class by (subst glob.simps) (use 4 in auto)
    qed (simp_all add: o1(2) t(1) quantifier_def)
  next
    case 5
    from "1.prems" 5 obtain a q where aq: "read_unit p = Some (a, q)" by (rule unit_exists)
    then have len: "length q < length p" by (rule read_unit_length)
    obtain u where u: "unit_text a u" "valid_utf8 q" "\<And>r. writes r p u q"
      using unit_written [OF "1.prems"(1) aq 5(2)] by metis
    obtain o1 where o1: "compile_loop True q = Inr o1" "out = u @ o1"
      using "1.prems"(2) unfolding u(3) [unfolded writes_def] by auto
    have g: "glob p n =
        (if prefix ''?'' q then glob (tl q) n \<or> (n \<noteq> [] \<and> accepts a (hd n) \<and> glob (tl q) (tl n))
         else if prefix ''+'' q then
           (\<exists>k. 0 < k \<and> k \<le> length n \<and> (\<forall>x \<in> set (take k n). accepts a x) \<and> glob (tl q) (drop k n))
         else n \<noteq> [] \<and> accepts a (hd n) \<and> glob q (tl n))" for n
      using 5 by (subst glob.simps) (auto simp: aq prefix_def)
    consider v where "q = CHR ''?'' # v" | v where "q = CHR ''+'' # v" | "q = [] \<or> hd q \<noteq> CHR ''?'' \<and> hd q \<noteq> CHR ''+''"
      by (cases q) auto
    then show ?thesis
    proof cases
      case q: (1 v)
      then obtain o2 where o2: "compile_loop False v = Inr o2" "o1 = CHR ''?'' # o2" using o1(1) by auto
      have "read_as v o2" using IH [of v o2] o2(1) u(2) len by (simp add: q byte_def)
      then obtain "is" t where t: "o2 @ ''$'' = t" "t \<noteq> []" "\<not> quantifier (hd t)" "read_items t = Some is"
        "\<And>n. match_items is n = glob v n" by (rule read_asD) blast
      have "read_repeated (u @ ''?'' @ t) = Some (Optional a, t)"
        using u(1) t(3) by (simp add: read_repeated_def unit_text_def quantifier_def)
      then show ?thesis
      proof (rule read_item_as [OF _ _ _ _ _ _ t(4)])
        show "glob p n = match_seq [Optional a] (match_items is) n" for n
          unfolding g match_optional t(5) by (simp add: q)
      qed (use u(1) in \<open>simp_all add: o1(2) o2(2) t(1) [symmetric] unit_text_def\<close>)
    next
      case q: (2 v)
      then obtain o2 where o2: "compile_loop False v = Inr o2" "o1 = CHR ''+'' # o2" using o1(1) by auto
      have "read_as v o2" using IH [of v o2] o2(1) u(2) len by (simp add: q byte_def)
      then obtain "is" t where t: "o2 @ ''$'' = t" "t \<noteq> []" "\<not> quantifier (hd t)" "read_items t = Some is"
        "\<And>n. match_items is n = glob v n" by (rule read_asD) blast
      have "read_repeated (u @ ''+'' @ t) = Some (Some_of a, t)"
        using u(1) t(3) by (simp add: read_repeated_def unit_text_def quantifier_def)
      then show ?thesis
      proof (rule read_item_as [OF _ _ _ _ _ _ t(4)])
        show "glob p n = match_seq [Some_of a] (match_items is) n" for n
          unfolding g match_some t(5) by (simp add: q)
      qed (use u(1) in \<open>simp_all add: o1(2) o2(2) t(1) [symmetric] unit_text_def\<close>)
    next
      case q: 3
      then have "compile_loop False q = Inr o1" using loop_plain o1(1) by simp
      then have "read_as q o1" using IH [of q o1] u(2) len by simp
      then obtain "is" t where t: "o1 @ ''$'' = t" "t \<noteq> []" "\<not> quantifier (hd t)" "read_items t = Some is"
        "\<And>n. match_items is n = glob q n" by (rule read_asD) blast
      have "read_repeated (u @ t) = Some (One a, t)"
        using u(1) t(2,3) by (cases t) (simp_all add: read_repeated_def unit_text_def)
      then show ?thesis
      proof (rule read_item_as [OF _ _ _ _ _ _ t(4)])
        have "\<not> prefix ''?'' q" "\<not> prefix ''+'' q" using q by (auto simp: prefix_def)
        then show "glob p n = match_seq [One a] (match_items is) n" for n
          unfolding g match_one t(5) by simp
      qed (use u(1) in \<open>simp_all add: o1(2) t(1) [symmetric] unit_text_def\<close>)
    qed
  qed
qed


subsection \<open>Which patterns are accepted\<close>

function pattern_ok :: "bytes \<Rightarrow> bool" where
  "pattern_ok p =
     (if p = [] then True
      else if prefix ''**/'' p then pattern_ok (drop 3 p)
      else if prefix ''**'' p then pattern_ok (drop 2 p)
      else if prefix ''*'' p then pattern_ok (tl p)
      else case read_unit p of
        None \<Rightarrow> False
      | Some (a, q) \<Rightarrow> pattern_ok (if prefix ''?'' q \<or> prefix ''+'' q then tl q else q))"
  by pat_completeness auto
termination
  by (relation "measure length") (auto dest: read_unit_length simp: prefix_def)

declare pattern_ok.simps [simp del]

definition compiles :: "bytes \<Rightarrow> bool" where
  "compiles p \<longleftrightarrow> (\<exists>out. compile_loop False p = Inr out)"

lemma compiles_iff: "valid_utf8 p \<Longrightarrow> compiles p \<longleftrightarrow> pattern_ok p"
proof (induction p rule: length_induct)
  case (1 p)
  note IH = "1.IH" [rule_format]
  consider "p = []" | q where "p = ''**/'' @ q" | q where "p = ''**'' @ q" "\<not> prefix ''**/'' p"
    | q where "p = ''*'' @ q" "\<not> prefix ''**'' p" | "p \<noteq> []" "\<not> prefix ''*'' p"
    by (cases "prefix ''**/'' p"; cases "prefix ''**'' p"; cases "prefix ''*'' p") (auto simp: prefix_def)
  then show ?case
  proof cases
    case 1
    then show ?thesis by (simp add: compiles_def pattern_ok.simps)
  next
    case (2 q)
    then have "valid_utf8 q" "compiles p = compiles q" using "1.prems" by (auto simp: byte_def compiles_def cut_prefix_def)
    then show ?thesis using IH [of q] by (subst pattern_ok.simps) (simp add: 2)
  next
    case (3 q)
    then have q: "valid_utf8 q" "cut_prefix ''*/'' (tl p) = None" using "1.prems" by (auto simp: byte_def cut_prefix_def)
    then have "compiles p = compiles q" using 3 by (auto simp: compiles_def cut_prefix_def)
    then show ?thesis using IH [of q] q(1) 3(2) by (subst pattern_ok.simps) (simp add: 3(1))
  next
    case (4 q)
    then have q: "valid_utf8 q" "cut_prefix ''*/'' (tl p) = None" "cut_prefix ''*'' (tl p) = None" "\<not> prefix ''**/'' p"
      using "1.prems" by (auto simp: byte_def cut_prefix_def prefix_def)
    then have "compiles p = compiles q" using 4 by (auto simp: compiles_def)
    then show ?thesis using IH [of q] q(1,4) 4(2) by (subst pattern_ok.simps) (simp add: 4(1))
  next
    case 5
    have w: "pattern_ok p = (case read_unit p of None \<Rightarrow> False
        | Some (a, q) \<Rightarrow> pattern_ok (if prefix ''?'' q \<or> prefix ''+'' q then tl q else q))"
      using 5 by (subst pattern_ok.simps) (auto simp: prefix_def)
    show ?thesis
    proof (cases "read_unit p")
      case None
      then have "\<not> compiles p" using unit_exists [OF "1.prems" _ 5] by (auto simp: compiles_def)
      then show ?thesis by (simp add: w None)
    next
      case (Some aq)
      obtain a q where aq: "read_unit p = Some (a, q)" using Some by (cases aq) auto
      obtain u where u: "valid_utf8 q" "writes False p u q" using unit_written [OF "1.prems" aq 5(2)] by metis
      have len: "length q < length p" using aq by (rule read_unit_length)
      have c: "compiles p \<longleftrightarrow> (\<exists>out. compile_loop True q = Inr out)" using u(2) by (auto simp: compiles_def writes_def)
      show ?thesis
      proof (cases "prefix ''?'' q \<or> prefix ''+'' q")
        case True
        then obtain x v where q: "q = x # v" "x = CHR ''?'' \<or> x = CHR ''+''" by (auto simp: prefix_def)
        then have "valid_utf8 v" "compiles p = compiles v" using u(1) unfolding c by (auto simp: compiles_def byte_def)
        then show ?thesis using IH [of v] len True by (simp add: w aq q(1))
      next
        case False
        then have "compiles p = compiles q" using loop_plain [of q] unfolding c by (cases q) (auto simp: compiles_def)
        then show ?thesis using IH [of q] u(1) len False by (simp add: w aq)
      qed
    qed
  qed
qed

subsection \<open>Lists of patterns\<close>

definition bare :: "bytes \<Rightarrow> bytes" where
  "bare p = (if prefix ''!'' p then tl p else p)"

definition accepted_patterns :: "bytes list \<Rightarrow> bool" where
  "accepted_patterns ps \<longleftrightarrow> (\<forall>p \<in> set ps. length (bare p) \<le> MaxExpressionBytes \<and> pattern_ok (bare p)) \<and>
     (ps = [] \<or> (\<exists>p \<in> set ps. \<not> prefix ''!'' p))"

definition wanted :: "bytes list \<Rightarrow> bytes \<Rightarrow> bool" where
  "wanted ps name \<longleftrightarrow> ps = [] \<or>
     (let hits = filter (\<lambda>p. glob (bare p) (runes name)) ps in hits \<noteq> [] \<and> \<not> prefix ''!'' (last hits))"

lemma compilePattern_glob:
  assumes "valid_utf8 p"
  shows "(\<exists>re. compilePattern p = Inr re) \<longleftrightarrow> length p \<le> MaxExpressionBytes \<and> pattern_ok p"
    and "compilePattern p = Inr re \<Longrightarrow> match_items re n = glob p n"
proof -
  have c: "\<exists>is. regexp_Compile (''(?s)^'' @ out @ ''$'') = Some is \<and> (\<forall>n. match_items is n = glob p n)"
    if "compile_loop False p = Inr out" for out
    using compiled_glob [OF assms that] by (auto simp: read_as_def regexp_Compile_def cut_prefix_def)
  show "(\<exists>re. compilePattern p = Inr re) \<longleftrightarrow> length p \<le> MaxExpressionBytes \<and> pattern_ok p"
  proof (cases "length p \<le> MaxExpressionBytes \<and> compiles p")
    case True
    then obtain out where out: "compile_loop False p = Inr out" by (auto simp: compiles_def)
    with c obtain "is" where "regexp_Compile (''(?s)^'' @ out @ ''$'') = Some is" by blast
    then have "compilePattern p = Inr is" using True out by (simp add: compilePattern_def)
    then show ?thesis using True compiles_iff [OF assms] by blast
  next
    case False
    then have "compilePattern p \<noteq> Inr re" for re by (auto simp: compilePattern_def compiles_def)
    then show ?thesis using False compiles_iff [OF assms] by blast
  qed
  show "match_items re n = glob p n" if re: "compilePattern p = Inr re"
  proof -
    obtain out where out: "compile_loop False p = Inr out"
      using re unfolding compilePattern_def by (auto split: if_splits)
    with c obtain "is" where "is": "regexp_Compile (''(?s)^'' @ out @ ''$'') = Some is" "\<forall>n. match_items is n = glob p n" by blast
    then have "re = is" using re out by (simp add: compilePattern_def split: if_splits)
    then show ?thesis using "is"(2) by simp
  qed
qed

lemma valid_bare: "valid_utf8 p \<Longrightarrow> valid_utf8 (bare p)"
  by (auto simp: bare_def prefix_def byte_def)

lemma compile_patterns_spec:
  assumes "\<forall>p \<in> set ps. valid_utf8 p"
  shows "(\<exists>cs. compile_patterns True ps = Inr cs) \<longleftrightarrow> (\<forall>p \<in> set ps. length (bare p) \<le> MaxExpressionBytes \<and> pattern_ok (bare p))"
    and "compile_patterns True ps = Inr cs \<Longrightarrow>
      list_all2 (\<lambda>p (re, negative). negative = prefix ''!'' p \<and> (\<forall>n. match_items re n = glob (bare p) n)) ps cs"
proof -
  have step: "(if prefix ''!'' p then tl p else p) = bare p" for p by (simp add: bare_def)
  show "(\<exists>cs. compile_patterns True ps = Inr cs) \<longleftrightarrow> (\<forall>p \<in> set ps. length (bare p) \<le> MaxExpressionBytes \<and> pattern_ok (bare p))"
    using assms
  proof (induction ps)
    case (Cons p ps)
    have "valid_utf8 (bare p)" using Cons.prems valid_bare by simp
    from compilePattern_glob(1) [OF this] show ?case using Cons by (auto simp: Let_def step)
  qed simp
  show "list_all2 (\<lambda>p (re, negative). negative = prefix ''!'' p \<and> (\<forall>n. match_items re n = glob (bare p) n)) ps cs"
    if "compile_patterns True ps = Inr cs"
    using assms that
  proof (induction ps arbitrary: cs)
    case (Cons p ps)
    have "valid_utf8 (bare p)" using Cons.prems valid_bare by simp
    from compilePattern_glob(2) [OF this] show ?case using Cons by (auto simp: Let_def step)
  qed simp
qed

lemma fold_last:
  assumes "list_all2 (\<lambda>p (re, negative). negative = prefix ''!'' p \<and> (\<forall>n. match_items re n = glob (bare p) n)) ps cs"
  shows "fold (\<lambda>(re, negative) matched. if match_items re n then \<not> negative else matched) cs m =
    (let hits = filter (\<lambda>p. glob (bare p) n) ps in if hits = [] then m else \<not> prefix ''!'' (last hits))"
  using assms by (induction ps cs arbitrary: m rule: list_all2_induct) (auto simp: Let_def)

text \<open>
  C9. A list of patterns means what the language says, for every name. It is accepted exactly when each pattern is
  well formed and not all are exclusions; then \<open>MatchPatterns\<close>, through the regular expression it writes, compiles
  and runs, is true just when the list is empty or the last pattern that fits the whole name is no
  exclusion. No character of a pattern is read as syntax of the regular expression.
\<close>

theorem MatchPatterns_meaning:
  assumes "\<forall>p \<in> set ps. valid_utf8 p"
  shows "MatchPatterns ps name = Inr b \<longleftrightarrow> accepted_patterns ps \<and> b = wanted ps name"
proof (cases "compile_patterns True ps")
  case (Inl e)
  then have "\<not> accepted_patterns ps" using compile_patterns_spec(1) [OF assms] by (auto simp: accepted_patterns_def)
  then show ?thesis using Inl by (simp add: MatchPatterns_def compilePatternSet_def)
next
  case (Inr cs)
  note cs = compile_patterns_spec(2) [OF assms Inr]
  have "list_all snd cs \<longleftrightarrow> (\<forall>p \<in> set ps. prefix ''!'' p)"
    using cs by (induction ps cs rule: list_all2_induct) auto
  moreover have "\<forall>p \<in> set ps. length (bare p) \<le> MaxExpressionBytes \<and> pattern_ok (bare p)"
    using compile_patterns_spec(1) [OF assms] Inr by blast
  ultimately have "accepted_patterns ps \<longleftrightarrow> \<not> (ps \<noteq> [] \<and> list_all snd cs)" by (auto simp: accepted_patterns_def)
  then show ?thesis using Inr fold_last [OF cs, of "runes name" "ps = []"]
    by (auto simp: MatchPatterns_def compilePatternSet_def set_matches_def wanted_def Let_def)
qed

lemma MatchPatterns_meaning_witness:
  "MatchPatterns [''src/**/*.go'', ''!src/old/**''] ''src/a/b.go'' = Inr True \<and>
   wanted [''src/**/*.go'', ''!src/old/**''] ''src/a/b.go''"
proof -
  have v: "\<forall>p \<in> set [''src/**/*.go'', ''!src/old/**'']. valid_utf8 p" by code_simp
  have "MatchPatterns [''src/**/*.go'', ''!src/old/**''] ''src/a/b.go'' = Inr True" by code_simp
  with MatchPatterns_meaning [OF v, of "''src/a/b.go''" True] show ?thesis by simp
qed

subsection \<open>Incomplete lists of files\<close>

lemma checkIgnore_compiles: "checkIgnore ps = Inr () \<Longrightarrow> \<exists>s. compilePatternSet ps False = Inr s"
proof -
  assume "checkIgnore ps = Inr ()"
  then have "\<exists>cs. compile_patterns False ps = Inr cs \<and> length cs = length ps \<and> list_all (\<lambda>c. \<not> snd c) cs"
    by (induction ps) (auto simp: Let_def split: if_splits)
  then obtain cs where cs: "compile_patterns False ps = Inr cs" "length cs = length ps" "list_all (\<lambda>c. \<not> snd c) cs" by blast
  then have "\<not> (ps \<noteq> [] \<and> list_all snd cs)" by (cases cs) auto
  then show ?thesis using cs(1) by (simp add: compilePatternSet_def)
qed

lemma checkPatterns_compiles: "checkPatterns ps = Inr () \<Longrightarrow> \<exists>s. compilePatternSet ps True = Inr s"
  by (auto simp: checkPatterns_def MatchPatterns_def)

lemma checked_compiles:
  assumes "checkFilters t = Inr ()"
  obtains b bi p pi where "compilePatternSet (tr_Branches t) True = Inr b" "compilePatternSet (tr_BranchesIgnore t) False = Inr bi"
    "compilePatternSet (tr_Paths t) True = Inr p" "compilePatternSet (tr_PathsIgnore t) False = Inr pi"
  using assms checkIgnore_compiles checkPatterns_compiles by (auto simp: checkFilters_def) blast

text \<open>
  C10. A cut list of changed files never passes for a complete one. For the filters a workflow was accepted with, an
  event is decided without an error, and with an incomplete list the decision is the one of every
  complete list that extends it, or it is reported as unknown, which a complete list never is.
\<close>

theorem incomplete_list_decides:
  assumes "\<And>t. map_of workflow (evt_Name event) = Some t \<Longrightarrow> checkFilters t = Inr ()"
    and "\<not> ch_Complete (evt_Changed event)" and "ch_Complete full" and "set (ch_Files (evt_Changed event)) \<subseteq> set (ch_Files full)"
  shows "\<exists>d whole. MatchEvent workflow event = Inr d \<and> MatchEvent workflow (event\<lparr>evt_Changed := full\<rparr>) = Inr whole \<and>
    \<not> dec_Unknown whole \<and> (d = whole \<or> dec_Unknown d \<and> \<not> dec_Matched d)"
proof (cases "map_of workflow (evt_Name event)")
  case None
  then show ?thesis by (simp add: MatchEvent_def no_match_def)
next
  case (Some t)
  then obtain b bi p pi where c: "compilePatternSet (tr_Branches t) True = Inr b" "compilePatternSet (tr_BranchesIgnore t) False = Inr bi"
    "compilePatternSet (tr_Paths t) True = Inr p" "compilePatternSet (tr_PathsIgnore t) False = Inr pi"
    using assms(1) checked_compiles by metis
  have paths: "\<exists>d whole. matchPaths t (evt_Changed event) = Inr d \<and> matchPaths t full = Inr whole \<and>
      \<not> dec_Unknown whole \<and> (d = whole \<or> dec_Unknown d \<and> \<not> dec_Matched d)"
    using assms(2-4) by (auto simp: matchPaths_def c list_ex_iff no_match_def)
  show ?thesis
    using paths by (auto simp: MatchEvent_def Some MatchPatterns_def matchesIgnore_def c no_match_def noted_def Let_def)
qed

lemma incomplete_list_decides_witness:
  "\<exists>d whole. MatchEvent [(''push'', \<lparr>tr_Branches = [], tr_BranchesIgnore = [], tr_Tags = [], tr_TagsIgnore = [],
        tr_Paths = [''**.go''], tr_PathsIgnore = [], tr_Types = []\<rparr>)]
      \<lparr>evt_Name = ''push'', evt_RefName = ''main'', evt_RefType = ''branch'', evt_BaseRef = [], evt_Action = [],
        evt_Changed = \<lparr>ch_Files = [''a.md''], ch_Complete = False, ch_Reason = ''file limit''\<rparr>, evt_BypassPaths = False\<rparr> = Inr d \<and>
    MatchEvent [(''push'', \<lparr>tr_Branches = [], tr_BranchesIgnore = [], tr_Tags = [], tr_TagsIgnore = [],
        tr_Paths = [''**.go''], tr_PathsIgnore = [], tr_Types = []\<rparr>)]
      \<lparr>evt_Name = ''push'', evt_RefName = ''main'', evt_RefType = ''branch'', evt_BaseRef = [], evt_Action = [],
        evt_Changed = \<lparr>ch_Files = [''a.md'', ''b.go''], ch_Complete = True, ch_Reason = []\<rparr>, evt_BypassPaths = False\<rparr> = Inr whole \<and>
    dec_Unknown d \<and> dec_Matched whole"
proof -
  let ?t = "\<lparr>tr_Branches = [], tr_BranchesIgnore = [], tr_Tags = [], tr_TagsIgnore = [],
        tr_Paths = [''**.go''], tr_PathsIgnore = [], tr_Types = []\<rparr>"
  let ?e = "\<lparr>evt_Name = ''push'', evt_RefName = ''main'', evt_RefType = ''branch'', evt_BaseRef = [], evt_Action = [],
        evt_Changed = \<lparr>ch_Files = [''a.md''], ch_Complete = False, ch_Reason = ''file limit''\<rparr>, evt_BypassPaths = False\<rparr>"
  let ?f = "\<lparr>ch_Files = [''a.md'', ''b.go''], ch_Complete = True, ch_Reason = []\<rparr>"
  have check: "checkFilters ?t = Inr ()" by code_simp
  have cut_list: "(case MatchEvent [(''push'', ?t)] ?e of Inr d \<Rightarrow> dec_Unknown d | _ \<Rightarrow> False)" by code_simp
  have whole_list: "(case MatchEvent [(''push'', ?t)] (?e\<lparr>evt_Changed := ?f\<rparr>) of Inr d \<Rightarrow> dec_Matched d | _ \<Rightarrow> False)" by code_simp
  show ?thesis
    using incomplete_list_decides [of "[(''push'', ?t)]" ?e ?f] check cut_list whole_list by auto
qed

end
