(* ===== verification/ExpressionCheck.thy ===== *)
theory ExpressionCheck
  imports Expression "HOL-Library.List_Lexorder"
begin

text \<open>
  The check of a parsed expression and the expressions of a template
  (\<open>validate\<close>, \<open>validateAccess\<close>, \<open>compileExpression\<close>, \<open>templateParts\<close>, \<open>ValidateTemplate\<close> of
  \<open>internal/actions/expression.go\<close>), with what the check settles: the functions have their
  arguments, and the secrets an expression names are reported.
\<close>

subsection \<open>Contexts\<close>

definition isIfKey :: "bytes \<Rightarrow> bool" where
  "isIfKey key \<longleftrightarrow> key = ''job.if'' \<or> key = ''step.if''"

definition allowedContexts :: "bytes \<Rightarrow> bytes list" where
  "allowedContexts key =
     (if key \<in> {''run-name'', ''workflow.concurrency'', ''job.strategy''} then [''github'', ''inputs'']
      else if key = ''workflow.env'' then [''github'', ''secrets'', ''inputs'']
      else if key = ''job.if'' then [''github'', ''needs'', ''inputs'']
      else if key \<in> {''job.name'', ''job.runs-on'', ''job.timeout-minutes'', ''job.continue-on-error'', ''job.concurrency''}
        then [''github'', ''needs'', ''strategy'', ''matrix'', ''inputs'']
      else if key = ''job.env'' then [''github'', ''needs'', ''strategy'', ''matrix'', ''secrets'', ''inputs'']
      else if key = ''job.defaults.run'' then [''github'', ''needs'', ''strategy'', ''matrix'', ''env'', ''inputs'']
      else if key = ''step.if''
        then [''github'', ''needs'', ''strategy'', ''matrix'', ''job'', ''runner'', ''env'', ''steps'', ''inputs'']
      else if key \<in> {''step.name'', ''step.run'', ''step.env'', ''step.with'', ''step.working-directory'',
          ''step.timeout-minutes'', ''step.continue-on-error''}
        then [''github'', ''needs'', ''strategy'', ''matrix'', ''job'', ''runner'', ''env'', ''steps'', ''inputs'', ''secrets'']
      else if key = ''builtin.with'' then [''github'', ''strategy'', ''matrix'', ''inputs'']
      else [])"

text \<open>
  \<open>strings.ToLower\<close> where the result is only compared with ASCII text: besides the ASCII
  capitals, the Kelvin sign and the capital I with a dot are the characters whose lower case is ASCII.
\<close>

fun lowered :: "bytes \<Rightarrow> bytes" where
  "lowered [] = []"
| "lowered (a # s) =
     (if prefix [CHR 0x84, CHR 0xAA] s \<and> a = CHR 0xE2 then CHR ''k'' # lowered (drop 2 s)
      else if prefix [CHR 0xB0] s \<and> a = CHR 0xC4 then CHR ''i'' # lowered (drop 1 s)
      else lower_char a # lowered s)"

text \<open>\<open>strings.Join\<close> with a point, and the names of \<open>reader.go\<close>.\<close>

fun join_path :: "bytes list \<Rightarrow> bytes" where
  "join_path [] = []"
| "join_path [x] = x"
| "join_path (x # xs) = x @ ''.'' @ join_path xs"

definition validIdentifier :: "bytes \<Rightarrow> bool" where
  "validIdentifier s \<longleftrightarrow>
     (case s of [] \<Rightarrow> False | b # r \<Rightarrow> identifier_start b \<and> list_all identifier_part r)"

definition validEnvName :: "bytes \<Rightarrow> bool" where
  "validEnvName s \<longleftrightarrow> validIdentifier s \<and> CHR ''-'' \<notin> set s"

definition upper_char :: "char \<Rightarrow> char" where
  "upper_char c = (if is_lower c then char_of (byte c - 32) else c)"

definition github_fields :: "bytes list" where
  "github_fields =
     [''sha'', ''ref'', ''ref_name'', ''ref_type'', ''head_ref'', ''base_ref'', ''event_name'', ''repository'',
      ''actor'', ''triggering_actor'', ''run_id'', ''run_number'', ''run_attempt'', ''workflow'', ''job'', ''event'',
      ''event.action'', ''event.inputs'', ''event.number'', ''event.pull_request'', ''event.pull_request.number'',
      ''event.pull_request.head'', ''event.pull_request.head.ref'', ''event.pull_request.head.sha'',
      ''event.pull_request.base'', ''event.pull_request.base.ref'', ''event.pull_request.base.sha'']"

definition closed_fields :: "bytes \<Rightarrow> bytes list option" where
  "closed_fields root =
     (if root = ''runner'' then Some [''os'', ''arch'', ''temp'', ''name'']
      else if root = ''job'' then Some [''status'']
      else if root = ''strategy'' then Some [''job-index'', ''job-total'', ''fail-fast'', ''max-parallel'']
      else None)"

definition workspace_key :: "bytes \<Rightarrow> bool" where
  "workspace_key key \<longleftrightarrow> prefix ''step.'' key \<or> key \<in> {''workflow.env'', ''job.env'', ''job.defaults.run''}"

definition github_path :: "bytes \<Rightarrow> bytes \<Rightarrow> xerror + unit" where
  "github_path joined key =
     (if joined = ''token'' then Inl (TokenError key)
      else if joined \<noteq> [] \<and> joined \<notin> set github_fields \<and> \<not> (joined = ''workspace'' \<and> workspace_key key)
        \<and> \<not> prefix ''event.inputs.'' joined then Inl (ContextError (''github.'' @ joined) key)
      else Inr ())"

definition validateContextPath :: "bytes \<Rightarrow> bytes list \<Rightarrow> bytes \<Rightarrow> xerror + unit" where
  "validateContextPath root path key =
     (let joined = lowered (join_path path); refused = Inl (ContextError (root @ ''.'' @ joined) key) in
      bindE (if root = ''github'' then github_path joined key else Inr ()) (\<lambda>_.
      if root = ''needs'' \<and> length path > 1 \<and> (lowered (path ! 1) \<noteq> ''result'' \<or> length path > 2) then refused
      else if (case closed_fields root of None \<Rightarrow> False
          | Some allowed \<Rightarrow> length path > 0 \<and> (length path > 1 \<or> joined \<notin> set allowed)) then refused
      else if root = ''steps'' \<and> length path > 1 \<and>
          (lowered (path ! 1) \<notin> {''outputs'', ''outcome'', ''conclusion''} \<or>
           lowered (path ! 1) \<noteq> ''outputs'' \<and> length path > 2) then refused
      else Inr ()))"

subsection \<open>The check of an expression\<close>

text \<open>The fields \<open>status\<close> and \<open>secrets\<close> of \<open>expressionParser\<close>, which \<open>validate\<close> fills.\<close>

record findings =
  found_status :: bool
  found_secrets :: "bytes list"

definition status_functions :: "bytes list" where
  "status_functions = [''success'', ''failure'', ''always'', ''cancelled'']"

text \<open>The fewest and the most arguments of a function, or \<open>None\<close> when there is no such function.\<close>

definition arguments :: "bytes \<Rightarrow> (nat \<times> nat) option" where
  "arguments name =
     (if name \<in> set status_functions then Some (0, 0)
      else if name \<in> {''contains'', ''startswith'', ''endswith''} then Some (2, 2)
      else if name = ''join'' then Some (1, 2)
      else if name = ''format'' then Some (1, MaxExpressionBytes)
      else if name \<in> {''tojson'', ''fromjson''} then Some (1, 1)
      else None)"

definition validateCall :: "bytes \<Rightarrow> bytes \<Rightarrow> nat \<Rightarrow> findings \<Rightarrow> xerror + findings" where
  "validateCall key name args f =
     (if name \<in> set status_functions \<and> \<not> isIfKey key then Inl (ContextError (name @ ''()'') key)
      else case arguments name of
        None \<Rightarrow> Inl (UnsupportedFunction name)
      | Some (fewest, most) \<Rightarrow>
          if args < fewest \<or> args > most then Inl (WrongType key ''the documented function arguments'')
          else Inr (if name \<in> set status_functions then f\<lparr>found_status := True\<rparr> else f))"

definition validateRoot :: "bytes \<Rightarrow> bytes \<Rightarrow> bytes list \<Rightarrow> bool \<Rightarrow> findings \<Rightarrow> xerror + findings" where
  "validateRoot key root path direct f =
     (if root = ''secrets'' \<and> isIfKey key then Inl (SecretReference key)
      else if root \<notin> set (allowedContexts key) then Inl (ContextError root key)
      else if root = ''secrets'' then
        (if length path \<noteq> 1 \<or> \<not> direct \<or> \<not> validEnvName (path ! 0) then Inl (SecretReference key)
         else let name = map upper_char (path ! 0) in
           if name = ''GITHUB_TOKEN'' then Inl (TokenError key)
           else bindE (validateContextPath root path key) (\<lambda>_.
             Inr (f\<lparr>found_secrets := List.insert name (found_secrets f)\<rparr>)))
      else bindE (validateContextPath root path key) (\<lambda>_. Inr f))"

definition property_name :: "'n expression \<Rightarrow> bytes" where
  "property_name property = (case property of ELiteral (Text name) \<Rightarrow> name | _ \<Rightarrow> ''*'')"

definition access_node :: "'n expression \<Rightarrow> bool" where
  "access_node e = (case e of EContext _ \<Rightarrow> True | EAccess _ _ _ \<Rightarrow> True | _ \<Rightarrow> False)"

function (sequential) validate :: "bytes \<Rightarrow> 'n expression \<Rightarrow> findings \<Rightarrow> xerror + findings"
  and validateAccess :: "bytes \<Rightarrow> 'n expression \<Rightarrow> bytes list \<Rightarrow> bool \<Rightarrow> findings \<Rightarrow> xerror + findings"
  and validateAll :: "bytes \<Rightarrow> 'n expression list \<Rightarrow> findings \<Rightarrow> xerror + findings"
where
  "validate key (ECall name args) f =
     bindE (validateCall key name (length args) f) (\<lambda>f. validateAll key args f)"
| "validate key (ELiteral v) f = Inr f"
| "validate key (ENot e) f = validate key e f"
| "validate key (EBinary op l r) f = bindE (validate key l f) (\<lambda>f. validate key r f)"
| "validate key (EContext root) f = validateAccess key (EContext root) [] True f"
| "validate key (EAccess dot e property) f = validateAccess key (EAccess dot e property) [] True f"
| "validateAccess key (EAccess dot e property) path direct f =
     bindE (validate key property f) (\<lambda>f.
       validateAccess key e (property_name property # path) (direct \<and> dot) f)"
| "validateAccess key (EBinary op l r) path direct f =
     (if op = ''&&'' \<or> op = ''||'' then
        bindE (validateAccess key l path False f) (\<lambda>f. validateAccess key r path False f)
      else validate key (EBinary op l r) f)"
| "validateAccess key (EContext root) path direct f = validateRoot key root path direct f"
| "validateAccess key (ECall name args) path direct f = validate key (ECall name args) f"
| "validateAccess key (ELiteral v) path direct f = validate key (ELiteral v) f"
| "validateAccess key (ENot e) path direct f = validate key (ENot e) f"
| "validateAll key [] f = Inr f"
| "validateAll key (e # es) f = bindE (validate key e f) (\<lambda>f. validateAll key es f)"
  by pat_completeness auto
termination
  by (relation "measure (\<lambda>x. case x of
      Inl (_, e, _) \<Rightarrow> 3 * size e + (if access_node e then 2 else 0)
    | Inr (Inl (_, e, _, _, _)) \<Rightarrow> 3 * size e + 1
    | Inr (Inr (_, es, _)) \<Rightarrow> 3 * size_list size es + 2)")
    (auto simp: access_node_def split: expression.splits)

fun expressionDepth :: "'n expression \<Rightarrow> nat" where
  "expressionDepth (ELiteral v) = 1"
| "expressionDepth (EContext c) = 1"
| "expressionDepth (ECall name args) = fold max (map (\<lambda>a. 1 + expressionDepth a) args) 1"
| "expressionDepth (EAccess dot e property) = max (1 + expressionDepth e) (1 + expressionDepth property)"
| "expressionDepth (ENot e) = 1 + expressionDepth e"
| "expressionDepth (EBinary op l r) = max (1 + expressionDepth l) (1 + expressionDepth r)"

definition expression_text :: "bytes \<Rightarrow> bytes" where
  "expression_text text =
     (let t = TrimSpace text in
      if prefix ''${{'' t \<and> suffix ''}}'' t then TrimSpace (take (length t - 5) (drop 3 t)) else t)"

definition no_findings :: findings where
  "no_findings = \<lparr>found_status = False, found_secrets = []\<rparr>"

definition parse_with :: "nat \<Rightarrow> 'n floats \<Rightarrow> bytes \<Rightarrow> bytes \<Rightarrow> xerror + 'n expression" where
  "parse_with fuel fl key t =
     bindE (next_tok fl key \<lparr>ps_rest = t, ps_token = NoToken\<rparr>) (\<lambda>p.
     bindE (parse fuel fl key 1 0 p) (\<lambda>(e, p).
     if ps_token p \<noteq> NoToken then Inl (WrongType key ''a valid expression'') else Inr e))"

definition parse_text :: "'n floats \<Rightarrow> bytes \<Rightarrow> bytes \<Rightarrow> xerror + 'n expression" where
  "parse_text fl key t = parse_with (3 * length t + 2) fl key t"

definition compileExpression :: "'n floats \<Rightarrow> bytes \<Rightarrow> bytes \<Rightarrow> xerror + ('n expression \<times> findings)" where
  "compileExpression fl text key =
     (if length text > MaxExpressionBytes then Inl (Limit ''expression'')
      else bindE (parse_text fl key (expression_text text)) (\<lambda>e.
        if expressionDepth e > MaxExpressionDepth then Inl nesting
        else bindE (validate key e no_findings) (\<lambda>f. Inr (e, f))))"

subsection \<open>Templates\<close>

record templatePart =
  part_text :: bytes
  part_expr :: bool

text \<open>\<open>strings.Index\<close> with the two slices around the match.\<close>

fun cut_at :: "bytes \<Rightarrow> bytes \<Rightarrow> (bytes \<times> bytes) option" where
  "cut_at p [] = (if p = [] then Some ([], []) else None)"
| "cut_at p (c # s) =
     (if prefix p (c # s) then Some ([], drop (length p) (c # s)) else map_option (apfst (Cons c)) (cut_at p s))"

text \<open>The search for the closing braces outside quotes: the text before and behind them.\<close>

fun closing :: "bool \<Rightarrow> bytes \<Rightarrow> (bytes \<times> bytes) option" where
  "closing inside (c # d # r) =
     (if c = quote then
        (if inside \<and> d = quote then map_option (apfst (\<lambda>t. c # d # t)) (closing inside r)
         else map_option (apfst (Cons c)) (closing (\<not> inside) (d # r)))
      else if \<not> inside \<and> c = CHR ''}'' \<and> d = CHR ''}'' then Some ([], r)
      else map_option (apfst (Cons c)) (closing inside (d # r)))"
| "closing inside s = None"

lemma cut_at_append: "cut_at p s = Some (a, b) \<Longrightarrow> s = a @ p @ b"
  by (induction p s arbitrary: a rule: cut_at.induct) (fastforce split: if_splits simp: prefix_def)+

lemma closing_append: "closing q s = Some (a, b) \<Longrightarrow> s = a @ ''}}'' @ b"
  by (induction q s arbitrary: a rule: closing.induct) (fastforce split: if_splits)+

text \<open>The loop, with a flag for the parts before: an empty text is a part only when it is the whole template.\<close>

function template_loop :: "bool \<Rightarrow> bytes \<Rightarrow> xerror + templatePart list" where
  "template_loop first text =
     (case cut_at ''${{'' text of
        None \<Rightarrow> Inr (if text \<noteq> [] \<or> first then [\<lparr>part_text = text, part_expr = False\<rparr>] else [])
      | Some (before, after) \<Rightarrow>
          (case closing False after of
             None \<Rightarrow> Inl (WrongType ''expression'' ''a closing }}'')
           | Some (expr, rest) \<Rightarrow>
               bindE (template_loop False rest) (\<lambda>parts.
                 Inr ((if before \<noteq> [] then [\<lparr>part_text = before, part_expr = False\<rparr>] else []) @
                   \<lparr>part_text = expr, part_expr = True\<rparr> # parts))))"
  by pat_completeness auto
termination
  by (relation "measure (\<lambda>(first, text). length text)") (auto dest!: cut_at_append closing_append)

declare template_loop.simps [simp del]

definition templateParts :: "bytes \<Rightarrow> xerror + templatePart list" where
  "templateParts text = template_loop True text"

fun collect_secrets :: "'n floats \<Rightarrow> bytes \<Rightarrow> bytes list \<Rightarrow> templatePart list \<Rightarrow> xerror + bytes list" where
  "collect_secrets fl key secrets [] = Inr secrets"
| "collect_secrets fl key secrets (part # parts) =
     (if \<not> part_expr part then collect_secrets fl key secrets parts
      else bindE (compileExpression fl (part_text part) key) (\<lambda>(e, f).
        collect_secrets fl key (fold List.insert (found_secrets f) secrets) parts))"

definition ValidateTemplate :: "'n floats \<Rightarrow> bytes \<Rightarrow> bytes \<Rightarrow> xerror + bytes list" where
  "ValidateTemplate fl text key =
     bindE (templateParts text) (\<lambda>parts.
       if isIfKey key \<and> TrimSpace text = [] then Inr []
       else bindE (collect_secrets fl key [] (if isIfKey key then [\<lparr>part_text = text, part_expr = True\<rparr>] else parts))
         (\<lambda>secrets. Inr (sort secrets)))"

subsection \<open>The fuel of a text\<close>

lemma first_token_left: "next_tok fl key \<lparr>ps_rest = t, ps_token = NoToken\<rparr> = Inr p \<Longrightarrow> tokens_left p \<le> length t"
  using next_token_shorter [of fl key t] by (auto simp: next_tok_def tokens_left_def Suc_le_eq)

lemma parse_enough:
  "next_tok fl key \<lparr>ps_rest = t, ps_token = NoToken\<rparr> = Inr p \<Longrightarrow> parse (3 * length t + 2) fl key 1 0 p \<noteq> Inl NoFuel"
  using first_token_left by (intro parse_fuel) auto

lemma parse_text_fuel: "parse_text fl key t \<noteq> Inl NoFuel"
proof (cases "next_tok fl key \<lparr>ps_rest = t, ps_token = NoToken\<rparr>")
  case (Inl err)
  then show ?thesis using next_tok_fuel by (auto simp: parse_text_def parse_with_def)
next
  case (Inr p)
  then show ?thesis using parse_enough [OF Inr]
    by (cases "parse (3 * length t + 2) fl key 1 0 p") (auto simp: parse_text_def parse_with_def split: if_splits)
qed

lemma parse_with_more: "parse_with (3 * length t + 2 + k) fl key t = parse_text fl key t"
proof (cases "next_tok fl key \<lparr>ps_rest = t, ps_token = NoToken\<rparr>")
  case (Inr p)
  show ?thesis using parse_more_fuel [OF parse_enough [OF Inr], of k]
    by (simp add: parse_text_def parse_with_def Inr)
qed (simp add: parse_text_def parse_with_def)

subsection \<open>What the check settles\<close>

text \<open>An accepted expression keeps every property of the findings that a call and a context keep.\<close>

lemma validate_keeps:
  fixes e :: "'n expression" and es :: "'n expression list"
  assumes root: "\<And>key root path direct f f'. validateRoot key root path direct f = Inr f' \<Longrightarrow> P key f \<Longrightarrow> P key f'"
    and call: "\<And>key name n f f'. validateCall key name n f = Inr f' \<Longrightarrow> P key f \<Longrightarrow> P key f'"
  shows "validate key e f = Inr f' \<Longrightarrow> P key f \<Longrightarrow> P key f'"
    and "validateAccess key e path direct f = Inr f' \<Longrightarrow> P key f \<Longrightarrow> P key f'"
    and "validateAll key es f = Inr f' \<Longrightarrow> P key f \<Longrightarrow> P key f'"
proof (induction key e f and key e path direct f and key es f arbitrary: f' and f' and f'
    rule: validate_validateAccess_validateAll.induct)
  case (1 key name args f)
  then obtain f1 where f1: "validateCall key name (length args) f = Inr f1" "validateAll key args f1 = Inr f'" by auto
  then show ?case using 1(1) [OF f1 call [OF f1(1) 1(3)]] by blast
next
  case (8 key op l r path direct f)
  show ?case
  proof (cases "op = ''&&'' \<or> op = ''||''")
    case True
    with 8(4) obtain f1 where f1: "validateAccess key l path False f = Inr f1" "validateAccess key r path False f1 = Inr f'"
      by auto
    show ?thesis using 8(1) [OF True f1(1)] 8(2) [OF True f1] 8(5) by blast
  next
    case False
    with 8(4) have "validate key (EBinary op l r) f = Inr f'" by (simp only: validateAccess.simps if_False)
    then show ?thesis using 8(3) [OF False] 8(5) by blast
  qed
next
  case (9 key root path direct f)
  then show ?case using root by simp
qed fastforce+

text \<open>The calls of an expression, with the numbers of their arguments.\<close>

fun calls :: "'n expression \<Rightarrow> (bytes \<times> nat) set" where
  "calls (ECall name args) = insert (name, length args) (\<Union> (calls ` set args))"
| "calls (ELiteral v) = {}"
| "calls (EContext root) = {}"
| "calls (EAccess dot e property) = calls e \<union> calls property"
| "calls (ENot e) = calls e"
| "calls (EBinary op l r) = calls l \<union> calls r"

definition calls_status :: "'n expression \<Rightarrow> bool" where
  "calls_status e \<longleftrightarrow> (\<exists>(name, n) \<in> calls e. name \<in> set status_functions)"

definition call_ok :: "bytes \<Rightarrow> bytes \<times> nat \<Rightarrow> bool" where
  "call_ok key c \<longleftrightarrow>
     (\<exists>fewest most. arguments (fst c) = Some (fewest, most) \<and> fewest \<le> snd c \<and> snd c \<le> most) \<and>
     (fst c \<in> set status_functions \<longrightarrow> isIfKey key)"

lemma validateCall_Inr:
  "validateCall key name n f = Inr f' \<Longrightarrow>
     call_ok key (name, n) \<and> found_status f' = (found_status f \<or> name \<in> set status_functions)"
  by (auto simp: validateCall_def call_ok_def split: if_splits option.splits)

lemma validateRoot_status: "validateRoot key root path direct f = Inr f' \<Longrightarrow> found_status f' = found_status f"
  by (auto simp: validateRoot_def Let_def split: if_splits)

definition checked :: "bytes \<Rightarrow> (bytes \<times> nat) set \<Rightarrow> findings \<Rightarrow> findings \<Rightarrow> bool" where
  "checked key cs f f' \<longleftrightarrow> (\<forall>c \<in> cs. call_ok key c) \<and>
     found_status f' = (found_status f \<or> (\<exists>(name, n) \<in> cs. name \<in> set status_functions))"

lemma checked_trans: "checked key A f g \<Longrightarrow> checked key B g h \<Longrightarrow> checked key (A \<union> B) f h"
  by (auto simp: checked_def)

lemma checked_empty: "checked key {} f f" by (simp add: checked_def)

lemma validate_calls:
  fixes e :: "'n expression" and es :: "'n expression list"
  shows "validate key e f = Inr f' \<Longrightarrow> checked key (calls e) f f'"
    and "validateAccess key e path direct f = Inr f' \<Longrightarrow> checked key (calls e) f f'"
    and "validateAll key es f = Inr f' \<Longrightarrow> checked key (\<Union> (calls ` set es)) f f'"
proof (induction key e f and key e path direct f and key es f arbitrary: f' and f' and f'
    rule: validate_validateAccess_validateAll.induct)
  case (1 key name args f)
  then obtain f1 where f1: "validateCall key name (length args) f = Inr f1" "validateAll key args f1 = Inr f'" by auto
  then have "checked key {(name, length args)} f f1" using validateCall_Inr [OF f1(1)] by (simp add: checked_def)
  from checked_trans [OF this 1(1) [OF f1]] show ?case by simp
next
  case (4 key op l r f)
  then show ?case by (auto intro: checked_trans)
next
  case (7 key dot e property path direct f)
  then show ?case by (auto intro: checked_trans simp: Un_commute [of "calls e"])
next
  case (8 key op l r path direct f)
  show ?case
  proof (cases "op = ''&&'' \<or> op = ''||''")
    case True
    with 8(4) obtain f1 where f1: "validateAccess key l path False f = Inr f1" "validateAccess key r path False f1 = Inr f'"
      by auto
    show ?thesis using checked_trans [OF 8(1) [OF True f1(1)] 8(2) [OF True f1]] by simp
  next
    case False
    with 8(4) have "validate key (EBinary op l r) f = Inr f'" by (simp only: validateAccess.simps if_False)
    then show ?thesis by (rule 8(3) [OF False])
  qed
next
  case (9 key root path direct f)
  then show ?case using validateRoot_status by (simp add: checked_def)
next
  case (14 key e es f)
  then show ?case by (auto intro: checked_trans)
qed (simp_all add: checked_empty)


lemma validateCall_secrets: "validateCall key name n f = Inr f' \<Longrightarrow> found_secrets f' = found_secrets f"
  by (auto simp: validateCall_def split: if_splits option.splits)

lemma validateRoot_secrets: "validateRoot key root path direct f = Inr f' \<Longrightarrow> set (found_secrets f) \<subseteq> set (found_secrets f')"
  by (auto simp: validateRoot_def Let_def split: if_splits)

text \<open>What is reported stays reported.\<close>

lemma reported_call:
  "validateCall key name n g = Inr g' \<Longrightarrow> set (found_secrets f) \<subseteq> set (found_secrets g) \<Longrightarrow>
     set (found_secrets f) \<subseteq> set (found_secrets g')"
  by (simp add: validateCall_secrets)

lemma reported_root:
  "validateRoot key root path direct g = Inr g' \<Longrightarrow> set (found_secrets f) \<subseteq> set (found_secrets g) \<Longrightarrow>
     set (found_secrets f) \<subseteq> set (found_secrets g')"
  using validateRoot_secrets by blast

lemmas reported = validate_keeps [where P = "\<lambda>_ g. set (found_secrets f) \<subseteq> set (found_secrets g)" for f,
    OF reported_root reported_call]

lemma validate_mono: "validate key e f = Inr f' \<Longrightarrow> set (found_secrets f) \<subseteq> set (found_secrets f')"
  by (rule reported(1)) (assumption | rule subset_refl)+

lemma validateAccess_mono: "validateAccess key e path direct f = Inr f' \<Longrightarrow> set (found_secrets f) \<subseteq> set (found_secrets f')"
  by (rule reported(2)) (assumption | rule subset_refl)+

lemma validateAll_mono: "validateAll key es f = Inr f' \<Longrightarrow> set (found_secrets f) \<subseteq> set (found_secrets f')"
  by (rule reported(3)) (assumption | rule subset_refl)+

text \<open>The refusals of the check are its own, so reading an expression never lacks fuel.\<close>

lemma validateCall_fuel: "validateCall key name n f \<noteq> Inl NoFuel"
  by (simp add: validateCall_def split: option.split)

lemma validateContextPath_fuel: "validateContextPath root path key \<noteq> Inl NoFuel"
  by (simp add: validateContextPath_def github_path_def Let_def bindE_eq_Inl)

lemma validateRoot_fuel: "validateRoot key root path direct f \<noteq> Inl NoFuel"
  using validateContextPath_fuel by (simp add: validateRoot_def Let_def bindE_eq_Inl)

lemma validate_fuel:
  fixes e :: "'n expression" and es :: "'n expression list"
  shows "validate key e f \<noteq> Inl NoFuel" and "validateAccess key e path direct f \<noteq> Inl NoFuel"
    and "validateAll key es f \<noteq> Inl NoFuel"
  by (induction key e f and key e path direct f and key es f rule: validate_validateAccess_validateAll.induct)
    (auto simp: bindE_eq_Inl validateCall_fuel validateRoot_fuel split: if_splits)

end
