(* ===== verification/ExpressionValue.thy ===== *)
theory ExpressionValue
  imports ExpressionCheck Utf8
begin

text \<open>
  The values of the expression language (\<open>internal/actions/expression_values.go\<close>, and the
  conversions and comparisons of \<open>expression.go\<close>): the copy of the contexts that gives every
  array an identity, the limits on values, property access and equality. What the code calls of
  \<open>encoding/json\<close> and the case folding of \<open>strings\<close> is a record of functions beside the one of
  \<open>strconv\<close>.
\<close>

text \<open>
  \<open>lib_Unmarshal\<close> gives a value whose identities \<open>allocate\<close> replaces by new ones, and
  \<open>lib_Encode\<close> the text of a value with the line end of \<open>json.Encoder\<close>.
\<close>

record 'n library = "'n floats" +
  lib_ToLower :: "bytes \<Rightarrow> bytes"
  lib_EqualFold :: "bytes \<Rightarrow> bytes \<Rightarrow> bool"
  lib_Valid :: "bytes \<Rightarrow> bool"
  lib_Unmarshal :: "bytes \<Rightarrow> 'n gvalue option"
  lib_Encode :: "'n gvalue \<Rightarrow> bytes option"

text \<open>The counter \<open>*steps\<close> of an evaluation, and the next unused identity.\<close>

record evaluation =
  ev_steps :: nat
  ev_fresh :: nat

subsection \<open>Conversions\<close>

definition ScalarString :: "('n, 'm) library_scheme \<Rightarrow> 'n gvalue \<Rightarrow> xerror + bytes" where
  "ScalarString lib v =
     (case v of
        Null \<Rightarrow> Inr []
      | Text s \<Rightarrow> Inr s
      | Boolean b \<Rightarrow> Inr (if b then ''true'' else ''false'')
      | Integer i \<Rightarrow> Inr (show_int i)
      | Float n \<Rightarrow> Inr (fl_Format lib n)
      | JsonNumber s \<Rightarrow> Inr s
      | _ \<Rightarrow> Inl (WrongType ''expression'' ''a scalar value (arrays and objects are not strings)''))"

definition number :: "('n, 'm) library_scheme \<Rightarrow> 'n gvalue \<Rightarrow> 'n" where
  "number lib v =
     (case v of
        Null \<Rightarrow> fl_of_int lib 0
      | Boolean b \<Rightarrow> fl_of_int lib (if b then 1 else 0)
      | _ \<Rightarrow>
          (case ScalarString lib v of
             Inl _ \<Rightarrow> fl_NaN lib
           | Inr text \<Rightarrow>
               let s = TrimSpace text in
               if s = [] then fl_of_int lib 0
               else if \<not> lib_Valid lib s then fl_NaN lib
               else case fl_ParseFloat lib s of (n, ok) \<Rightarrow> if ok then n else fl_NaN lib))"

definition nonzero :: "('n, 'm) library_scheme \<Rightarrow> 'n \<Rightarrow> bool" where
  "nonzero lib n \<longleftrightarrow> \<not> fl_equal lib n (fl_of_int lib 0) \<and> \<not> fl_IsNaN lib n"

definition Truthy :: "('n, 'm) library_scheme \<Rightarrow> 'n gvalue \<Rightarrow> bool" where
  "Truthy lib v =
     (case v of
        Null \<Rightarrow> False
      | Boolean b \<Rightarrow> b
      | Text s \<Rightarrow> s \<noteq> []
      | Float n \<Rightarrow> nonzero lib n
      | Integer i \<Rightarrow> i \<noteq> 0
      | JsonNumber s \<Rightarrow> nonzero lib (fst (fl_ParseFloat lib s))
      | _ \<Rightarrow> True)"

subsection \<open>Comparisons\<close>

definition arrayValues :: "'n gvalue \<Rightarrow> 'n gvalue list option" where
  "arrayValues v = (case v of Array _ vs \<Rightarrow> Some vs | _ \<Rightarrow> None)"

text \<open>\<open>objectValues\<close>, with the identity of the map.\<close>

definition objectValues :: "'n gvalue \<Rightarrow> (nat \<times> (bytes \<times> 'n gvalue) list) option" where
  "objectValues v = (case v of Object i es \<Rightarrow> Some (i, es) | Env _ i es \<Rightarrow> Some (i, es) | _ \<Rightarrow> None)"

definition collectionEqual :: "'n gvalue \<Rightarrow> 'n gvalue \<Rightarrow> bool option" where
  "collectionEqual a b =
     (case a of
        Array i _ \<Rightarrow> Some (case b of Array j _ \<Rightarrow> i = j | _ \<Rightarrow> False)
      | _ \<Rightarrow>
          (case objectValues a of
             None \<Rightarrow> None
           | Some (i, _) \<Rightarrow> Some (case objectValues b of None \<Rightarrow> False | Some (j, _) \<Rightarrow> i = j)))"

definition equal_numbers :: "('n, 'm) library_scheme \<Rightarrow> 'n \<Rightarrow> 'n \<Rightarrow> bool" where
  "equal_numbers lib x y \<longleftrightarrow> \<not> fl_IsNaN lib x \<and> \<not> fl_IsNaN lib y \<and> fl_equal lib x y"

definition equalValue :: "('n, 'm) library_scheme \<Rightarrow> 'n gvalue \<Rightarrow> 'n gvalue \<Rightarrow> bool" where
  "equalValue lib a b =
     (case (a, b) of
        (Text x, Text y) \<Rightarrow> lib_EqualFold lib x y
      | _ \<Rightarrow>
          (case collectionEqual a b of
             Some equal \<Rightarrow> equal
           | None \<Rightarrow> equal_numbers lib (number lib a) (number lib b)))"

definition ordered :: "int \<Rightarrow> bytes \<Rightarrow> bool" where
  "ordered c op \<longleftrightarrow>
     op = ''<'' \<and> c < 0 \<or> op = ''<='' \<and> c \<le> 0 \<or> op = ''>'' \<and> c > 0 \<or> op = ''>='' \<and> c \<ge> 0"

definition Compare :: "bytes \<Rightarrow> bytes \<Rightarrow> int" where
  "Compare a b = (if a = b then 0 else if a < b then -1 else 1)"

definition compareValues :: "('n, 'm) library_scheme \<Rightarrow> 'n gvalue \<Rightarrow> 'n gvalue \<Rightarrow> bytes \<Rightarrow> bool" where
  "compareValues lib a b op =
     (case (a, b) of
        (Text x, Text y) \<Rightarrow> ordered (Compare (lib_ToLower lib x) (lib_ToLower lib y)) op
      | _ \<Rightarrow>
          (let x = number lib a; y = number lib b in
           if fl_IsNaN lib x \<or> fl_IsNaN lib y then False
           else ordered (if fl_less lib x y then -1 else if fl_less lib y x then 1 else 0) op))"

subsection \<open>Properties of a value\<close>

text \<open>Indexing a Go map whose values are \<open>any\<close>.\<close>

definition lookup :: "(bytes \<times> 'n gvalue) list \<Rightarrow> bytes \<Rightarrow> 'n gvalue" where
  "lookup es name = (case map_of es name of None \<Rightarrow> Null | Some v \<Rightarrow> v)"

definition objectProperty :: "('n, 'm) library_scheme \<Rightarrow> (bytes \<times> 'n gvalue) list \<Rightarrow> bytes \<Rightarrow> 'n gvalue" where
  "objectProperty lib es name =
     (case map_of es name of
        Some v \<Rightarrow> v
      | None \<Rightarrow>
          (case List.find (\<lambda>key. lib_EqualFold lib key name) (sort (map fst es)) of
             None \<Rightarrow> Null
           | Some key \<Rightarrow> lookup es key))"

text \<open>An array index: the test of \<open>propertyValue\<close>, and the index expression behind it.\<close>

definition index_in :: "('n, 'm) library_scheme \<Rightarrow> 'n \<Rightarrow> nat \<Rightarrow> bool" where
  "index_in lib n len \<longleftrightarrow>
     (fl_less lib (fl_of_int lib 0) n \<or> fl_equal lib (fl_of_int lib 0) n) \<and>
     fl_less lib n (fl_of_int lib (int len)) \<and> fl_equal lib n (fl_of_int lib (fl_trunc lib n))"

definition element :: "'a list \<Rightarrow> int \<Rightarrow> xerror + 'a" where
  "element vs i = (if 0 \<le> i \<and> i < int (length vs) then Inr (vs ! nat i) else Inl Panic)"

definition propertyValue :: "('n, 'm) library_scheme \<Rightarrow> 'n gvalue \<Rightarrow> 'n gvalue \<Rightarrow> xerror + 'n gvalue" where
  "propertyValue lib v property =
     (case v of
        Env insensitive _ es \<Rightarrow>
          Inr (case property of
             Text name \<Rightarrow> if insensitive then objectProperty lib es name else lookup es name
           | _ \<Rightarrow> Null)
      | Object _ es \<Rightarrow> Inr (case property of Text name \<Rightarrow> objectProperty lib es name | _ \<Rightarrow> Null)
      | Array _ vs \<Rightarrow>
          (let n = number lib property in
           if index_in lib n (length vs) then element vs (fl_trunc lib n) else Inr Null)
      | _ \<Rightarrow> Inr Null)"

subsection \<open>Limits on values\<close>

text \<open>
  \<open>check\<close> of \<open>checkedExpressionValue\<close>, with the remaining bytes and the steps as its state. An
  array of an evaluation counts two steps, for its \<open>expressionArray\<close> and its slice; a \<open>native\<close>
  one, decoded from JSON or read from a file, is a slice only.
\<close>

definition visit_node :: "nat \<Rightarrow> int \<times> nat \<Rightarrow> xerror + (int \<times> nat)" where
  "visit_node depth s =
     (if snd s + 1 > MaxEvaluationSteps \<or> depth > MaxExpressionDepth
      then Inl (Limit ''expression value depth or nodes'') else Inr (fst s, snd s + 1))"

definition spend :: "int \<Rightarrow> int \<times> nat \<Rightarrow> int \<times> nat" where
  "spend n s = (fst s - n, snd s)"

definition settle :: "int \<times> nat \<Rightarrow> xerror + (int \<times> nat)" where
  "settle s = (if fst s < 0 then Inl (Limit ''expression value'') else Inr s)"

function (sequential) check_value :: "bool \<Rightarrow> ('n, 'm) library_scheme \<Rightarrow> 'n gvalue \<Rightarrow> nat \<Rightarrow> int \<times> nat \<Rightarrow> xerror + (int \<times> nat)"
  and check_items :: "bool \<Rightarrow> ('n, 'm) library_scheme \<Rightarrow> 'n gvalue list \<Rightarrow> nat \<Rightarrow> int \<times> nat \<Rightarrow> xerror + (int \<times> nat)"
  and check_entries :: "bool \<Rightarrow> ('n, 'm) library_scheme \<Rightarrow> (bytes \<times> 'n gvalue) list \<Rightarrow> nat \<Rightarrow> int \<times> nat \<Rightarrow> xerror + (int \<times> nat)"
where
  "check_value native lib v depth s =
     (case v of
        Env insensitive i es \<Rightarrow>
          bindE (visit_node depth s) (\<lambda>s. bindE (visit_node depth s) (\<lambda>s.
            bindE (check_entries native lib es (depth + 1) (spend 2 s)) settle))
      | Array i vs \<Rightarrow>
          bindE (visit_node depth s) (\<lambda>s. bindE (if native then Inr s else visit_node depth s) (\<lambda>s.
            bindE (check_items native lib vs (depth + 1) (spend 2 s)) settle))
      | Object i es \<Rightarrow>
          bindE (visit_node depth s) (\<lambda>s. bindE (check_entries native lib es (depth + 1) (spend 2 s)) settle)
      | _ \<Rightarrow>
          bindE (visit_node depth s) (\<lambda>s. bindE (ScalarString lib v) (\<lambda>text.
            settle (spend (int (length text) + (if v = Null then 4 else 0)) s))))"
| "check_items native lib [] depth s = Inr s"
| "check_items native lib (v # vs) depth s = bindE (check_value native lib v depth (spend 1 s)) (check_items native lib vs depth)"
| "check_entries native lib [] depth s = Inr s"
| "check_entries native lib ((key, v) # es) depth s =
     bindE (check_value native lib v depth (spend (int (length key)) s)) (check_entries native lib es depth)"
  by pat_completeness auto
termination
  by (relation "measure (\<lambda>x. case x of
      Inl (_, _, v, _, _) \<Rightarrow> size v
    | Inr (Inl (_, _, vs, _, _)) \<Rightarrow> size_list size vs
    | Inr (Inr (_, _, es, _, _)) \<Rightarrow> size_list (size_prod (\<lambda>_. 0) size) es)") auto

declare check_value.simps [simp del]

definition checkedValue :: "('n, 'm) library_scheme \<Rightarrow> 'n gvalue \<Rightarrow> xerror + 'n gvalue" where
  "checkedValue lib v = bindE (check_value True lib v 0 (int MaxValueBytes, 0)) (\<lambda>_. Inr v)"

definition checkedExpressionValue :: "('n, 'm) library_scheme \<Rightarrow> 'n gvalue \<Rightarrow> evaluation \<Rightarrow> xerror + ('n gvalue \<times> evaluation)" where
  "checkedExpressionValue lib v st =
     bindE (check_value False lib v 0 (int MaxValueBytes, ev_steps st)) (\<lambda>(_, steps). Inr (v, st\<lparr>ev_steps := steps\<rparr>))"

subsection \<open>The copy of the contexts\<close>

type_synonym 'n cache = "((bool \<times> nat \<times> nat) \<times> 'n gvalue) list"

definition enter :: "nat \<Rightarrow> evaluation \<Rightarrow> xerror + evaluation" where
  "enter depth st =
     (if depth > MaxExpressionDepth \<or> ev_steps st + 1 > MaxEvaluationSteps
      then Inl (Limit ''expression context depth or evaluation steps'')
      else Inr (st\<lparr>ev_steps := ev_steps st + 1\<rparr>))"

definition new_identity :: "evaluation \<Rightarrow> evaluation" where
  "new_identity st = st\<lparr>ev_fresh := ev_fresh st + 1\<rparr>"

text \<open>
  \<open>expressionValues\<close>. A value here is a tree, so no map contains itself, and an entry of the
  cache is read only after its value is complete. An empty array is never in the cache.
\<close>

function (sequential) expressionValues :: "'n gvalue \<Rightarrow> 'n cache \<Rightarrow> nat \<Rightarrow> evaluation \<Rightarrow> xerror + ('n gvalue \<times> 'n cache \<times> evaluation)"
  and expressionItems :: "'n gvalue list \<Rightarrow> 'n cache \<Rightarrow> nat \<Rightarrow> evaluation \<Rightarrow> xerror + ('n gvalue list \<times> 'n cache \<times> evaluation)"
  and expressionEntries :: "(bytes \<times> 'n gvalue) list \<Rightarrow> 'n cache \<Rightarrow> nat \<Rightarrow> evaluation \<Rightarrow> xerror + ((bytes \<times> 'n gvalue) list \<times> 'n cache \<times> evaluation)"
where
  "expressionValues v cache depth st =
     bindE (enter depth st) (\<lambda>st.
       case v of
         Object i es \<Rightarrow>
           (case map_of cache (True, i, 0) of
              Some old \<Rightarrow> Inr (old, cache, st)
            | None \<Rightarrow>
                bindE (expressionEntries es cache (depth + 1) (new_identity st)) (\<lambda>(out, cache, st').
                  Inr (Object (ev_fresh st) out, ((True, i, 0), Object (ev_fresh st) out) # cache, st')))
       | Array i vs \<Rightarrow>
           (case (if vs = [] then None else map_of cache (False, i, length vs)) of
              Some old \<Rightarrow> Inr (old, cache, st)
            | None \<Rightarrow>
                bindE (expressionItems vs cache (depth + 1) (new_identity st)) (\<lambda>(out, cache, st').
                  Inr (Array (ev_fresh st) out,
                    (if vs = [] then cache else ((False, i, length vs), Array (ev_fresh st) out) # cache), st')))
       | _ \<Rightarrow> Inr (v, cache, st))"
| "expressionItems [] cache depth st = Inr ([], cache, st)"
| "expressionItems (v # vs) cache depth st =
     bindE (expressionValues v cache depth st) (\<lambda>(v, cache, st).
       bindE (expressionItems vs cache depth st) (\<lambda>(vs, cache, st). Inr (v # vs, cache, st)))"
| "expressionEntries [] cache depth st = Inr ([], cache, st)"
| "expressionEntries ((key, v) # es) cache depth st =
     bindE (expressionValues v cache depth st) (\<lambda>(v, cache, st).
       bindE (expressionEntries es cache depth st) (\<lambda>(es, cache, st). Inr ((key, v) # es, cache, st)))"
  by pat_completeness auto
termination
  by (relation "measure (\<lambda>x. case x of
      Inl (v, _, _, _) \<Rightarrow> size v
    | Inr (Inl (vs, _, _, _)) \<Rightarrow> size_list size vs
    | Inr (Inr (es, _, _, _)) \<Rightarrow> size_list (size_prod (\<lambda>_. 0) size) es)") auto

declare expressionValues.simps [simp del]

text \<open>\<open>nativeValue\<close>: only the environment needs to become a map again.\<close>

fun nativeValue :: "'n gvalue \<Rightarrow> 'n gvalue" where
  "nativeValue (Env insensitive i es) = Object i (map (\<lambda>(k, v). (k, nativeValue v)) es)"
| "nativeValue (Array i vs) = Array i (map nativeValue vs)"
| "nativeValue (Object i es) = Object i (map (\<lambda>(k, v). (k, nativeValue v)) es)"
| "nativeValue v = v"

end
