(* ===== verification/Matrix.thy ===== *)
theory Matrix
  imports ExpressionCheck ExpressionValue "HOL-Library.AList"
begin

text \<open>
  The expansion of a matrix into the combinations of its jobs (\<open>internal/actions/matrix.go\<close>). A Go map
  is a list of entries with distinct keys; where the code walks a map in Go's undetermined
  order, the order of the list stands for it. The integers of a matrix are Go \<open>int\<close>s.
\<close>

type_synonym 'n combination = "(bytes \<times> 'n gvalue) list"

definition MaxJobs :: nat where "MaxJobs = 16"

text \<open>\<open>reflect.DeepEqual\<close> on decoded values: the same map or the same nonempty slice is equal without a look inside.\<close>

function (sequential) deepEqual :: "('n, 'm) floats_scheme \<Rightarrow> 'n gvalue \<Rightarrow> 'n gvalue \<Rightarrow> bool"
  and deepItems :: "('n, 'm) floats_scheme \<Rightarrow> 'n gvalue list \<Rightarrow> 'n gvalue list \<Rightarrow> bool"
  and deepEntries :: "('n, 'm) floats_scheme \<Rightarrow> (bytes \<times> 'n gvalue) list \<Rightarrow> (bytes \<times> 'n gvalue) list \<Rightarrow> bool"
where
  "deepEqual fl v w =
     (case v of
        Null \<Rightarrow> w = Null
      | Boolean a \<Rightarrow> w = Boolean a
      | Text a \<Rightarrow> w = Text a
      | Float a \<Rightarrow> (case w of Float b \<Rightarrow> fl_equal fl a b | _ \<Rightarrow> False)
      | Integer a \<Rightarrow> w = Integer a
      | JsonNumber a \<Rightarrow> w = JsonNumber a
      | Array i vs \<Rightarrow>
          (case w of Array j ws \<Rightarrow> length vs = length ws \<and> (vs \<noteq> [] \<and> i = j \<or> deepItems fl vs ws) | _ \<Rightarrow> False)
      | Object i es \<Rightarrow>
          (case w of Object j fs \<Rightarrow> length es = length fs \<and> (i = j \<or> deepEntries fl es fs) | _ \<Rightarrow> False)
      | Env a i es \<Rightarrow>
          (case w of Env b j fs \<Rightarrow> a = b \<and> length es = length fs \<and> (i = j \<or> deepEntries fl es fs) | _ \<Rightarrow> False))"
| "deepItems fl (v # vs) (w # ws) = (deepEqual fl v w \<and> deepItems fl vs ws)"
| "deepItems fl vs ws = (vs = [] \<and> ws = [])"
| "deepEntries fl [] fs = True"
| "deepEntries fl ((k, v) # es) fs =
     ((case map_of fs k of None \<Rightarrow> False | Some w \<Rightarrow> deepEqual fl v w) \<and> deepEntries fl es fs)"
  by pat_completeness auto
termination
  by (relation "measure (\<lambda>x. case x of
      Inl (_, v, _) \<Rightarrow> size v
    | Inr (Inl (_, vs, _)) \<Rightarrow> size_list size vs
    | Inr (Inr (_, es, _)) \<Rightarrow> size_list (size_prod (\<lambda>_. 0) size) es)") auto

declare deepEqual.simps [simp del]

subsection \<open>The parts of a matrix\<close>

record 'n matrix_parts =
  mx_axes :: "(bytes \<times> 'n gvalue list) list"
  mx_order :: "bytes list"
  mx_include :: "'n combination list"
  mx_exclude :: "'n combination list"

definition is_array :: "'n gvalue \<Rightarrow> bool" where
  "is_array v = (case v of Array _ _ \<Rightarrow> True | _ \<Rightarrow> False)"

fun read_axes :: "(bytes \<times> 'n gvalue) list \<Rightarrow> xerror + (bytes \<times> 'n gvalue list) list" where
  "read_axes [] = Inr []"
| "read_axes ((key, v) # es) =
     (if key = ''include'' \<or> key = ''exclude'' then read_axes es
      else if \<not> validIdentifier key then Inl (WrongType (''strategy.matrix.'' @ key) ''a matrix identifier'')
      else case v of
        Array _ vs \<Rightarrow>
          (if vs = [] then Inl (WrongType (''strategy.matrix.'' @ key) ''a nonempty list of scalars or mappings'')
           else if list_ex is_array vs then Inl (WrongType (''strategy.matrix.'' @ key) ''scalars or mappings, not nested lists'')
           else bindE (read_axes es) (\<lambda>axes. Inr ((key, vs) # axes)))
      | _ \<Rightarrow> Inl (WrongType (''strategy.matrix.'' @ key) ''a nonempty list of scalars or mappings''))"

fun order_ok :: "(bytes \<times> 'a) list \<Rightarrow> bytes list \<Rightarrow> bytes list \<Rightarrow> bool" where
  "order_ok axes seen [] = True"
| "order_ok axes seen (key # keys) =
     (key \<in> set (map fst axes) \<and> key \<notin> set seen \<and> order_ok axes (key # seen) keys)"

fun objects_of :: "bytes \<Rightarrow> 'n gvalue list \<Rightarrow> xerror + 'n combination list" where
  "objects_of key [] = Inr []"
| "objects_of key (v # vs) =
     (case v of
        Object _ es \<Rightarrow> bindE (objects_of key vs) (\<lambda>objects. Inr (es # objects))
      | _ \<Rightarrow> Inl (WrongType (''strategy.matrix.'' @ key) ''a list of mappings''))"

definition matrixObjects :: "'n gvalue \<Rightarrow> bytes \<Rightarrow> xerror + 'n combination list" where
  "matrixObjects v key =
     (case v of
        Null \<Rightarrow> Inr []
      | Array _ vs \<Rightarrow> objects_of key vs
      | _ \<Rightarrow> Inl (WrongType (''strategy.matrix.'' @ key) ''a list of mappings''))"

definition read_matrix :: "('n, 'm) library_scheme \<Rightarrow> 'n combination \<Rightarrow> bytes list \<Rightarrow> xerror + 'n matrix_parts" where
  "read_matrix lib matrix order =
     bindE (checkedValue lib (Object 0 matrix)) (\<lambda>_.
     bindE (read_axes matrix) (\<lambda>axes.
       let keys = (if order = [] then sort (map fst axes) else order) in
       if length keys \<noteq> length axes \<or> \<not> order_ok axes [] keys
       then Inl (WrongType ''strategy.matrix'' ''each axis exactly once in axis order'')
       else bindE (matrixObjects (lookup matrix ''include'') ''include'') (\<lambda>include.
         bindE (matrixObjects (lookup matrix ''exclude'') ''exclude'') (\<lambda>exclude.
           if list_ex (list_ex (\<lambda>(key, _). key \<notin> set (map fst axes))) exclude
           then Inl (WrongType ''strategy.matrix.exclude'' ''only declared axis keys'')
           else Inr \<lparr>mx_axes = axes, mx_order = keys, mx_include = include, mx_exclude = exclude\<rparr>))))"

subsection \<open>Combinations\<close>

definition containsCombination :: "('n, 'm) floats_scheme \<Rightarrow> 'n combination \<Rightarrow> 'n combination \<Rightarrow> bool" where
  "containsCombination fl combination part =
     list_all (\<lambda>(key, v). case map_of combination key of None \<Rightarrow> False | Some old \<Rightarrow> deepEqual fl old v) part"

definition isExcludedSubtree :: "('n, 'm) floats_scheme \<Rightarrow> 'n combination \<Rightarrow> 'n combination list \<Rightarrow> bool" where
  "isExcludedSubtree fl combination exclusions = list_ex (containsCombination fl combination) exclusions"

definition axis :: "(bytes \<times> 'n gvalue list) list \<Rightarrow> bytes \<Rightarrow> 'n gvalue list" where
  "axis axes key = (case map_of axes key of None \<Rightarrow> [] | Some vs \<Rightarrow> vs)"

text \<open>\<open>expand\<close> of \<open>ExpandMatrix\<close>, with its steps and the combinations so far as the state.\<close>

type_synonym 'n expansion = "nat \<times> 'n combination list"

function (sequential) expand ::
    "('n, 'm) floats_scheme \<Rightarrow> 'n matrix_parts \<Rightarrow> int \<Rightarrow> bytes list \<Rightarrow> 'n combination \<Rightarrow> 'n expansion \<Rightarrow> xerror + 'n expansion"
  and expand_values ::
    "('n, 'm) floats_scheme \<Rightarrow> 'n matrix_parts \<Rightarrow> int \<Rightarrow> bytes \<Rightarrow> bytes list \<Rightarrow> 'n gvalue list \<Rightarrow> 'n combination \<Rightarrow>
      'n expansion \<Rightarrow> xerror + 'n expansion"
where
  "expand fl m limit keys combination (steps, out) =
     (if steps + 1 > MaxEvaluationSteps then Inl (Limit ''matrix expansion steps'')
      else if isExcludedSubtree fl combination (mx_exclude m) then Inr (steps + 1, out)
      else case keys of
        [] \<Rightarrow>
          (if int (length out) \<ge> limit then Inl (TooManyJobs (limit + 1))
           else Inr (steps + 1, out @ [combination]))
      | key # rest \<Rightarrow> expand_values fl m limit key rest (axis (mx_axes m) key) combination (steps + 1, out))"
| "expand_values fl m limit key rest [] combination st = Inr st"
| "expand_values fl m limit key rest (v # vs) combination st =
     bindE (expand fl m limit rest (AList.update key v combination) st)
       (expand_values fl m limit key rest vs combination)"
  by pat_completeness auto
termination
  by (relation "inv_image (less_than <*lex*> less_than) (\<lambda>x. case x of
      Inl (_, _, _, keys, _, _) \<Rightarrow> (2 * length keys, 0)
    | Inr (_, _, _, _, rest, vs, _, _) \<Rightarrow> (2 * length rest + 1, length vs))") auto

declare expand.simps [simp del]

subsection \<open>Inclusions\<close>

definition compatible :: "('n, 'm) floats_scheme \<Rightarrow> 'n combination \<Rightarrow> 'n combination \<Rightarrow> bool" where
  "compatible fl original addition =
     list_all (\<lambda>(key, v). case map_of original key of None \<Rightarrow> True | Some old \<Rightarrow> deepEqual fl old v) addition"

definition add_entries :: "'n combination \<Rightarrow> 'n combination \<Rightarrow> 'n combination" where
  "add_entries addition job = fold (\<lambda>(key, v). AList.update key v) addition job"

definition include_one :: "('n, 'm) floats_scheme \<Rightarrow> 'n combination list \<Rightarrow> 'n combination \<Rightarrow> 'n combination list \<Rightarrow> 'n combination list" where
  "include_one fl originals addition jobs =
     map (\<lambda>(original, job). if compatible fl original addition then add_entries addition job else job) (zip originals jobs) @
     drop (length originals) jobs"

fun include_all ::
    "('n, 'm) floats_scheme \<Rightarrow> int \<Rightarrow> 'n combination list \<Rightarrow> 'n combination list \<Rightarrow> 'n combination list \<Rightarrow> xerror + 'n combination list"
where
  "include_all fl limit originals [] jobs = Inr jobs"
| "include_all fl limit originals (addition # additions) jobs =
     (if list_ex (\<lambda>original. compatible fl original addition) originals then
        include_all fl limit originals additions (include_one fl originals addition jobs)
      else if int (length jobs) \<ge> limit then Inl (TooManyJobs (limit + 1))
      else include_all fl limit originals additions (jobs @ [addition]))"

definition matrix_limit :: "int \<Rightarrow> int" where
  "matrix_limit limit = (if limit < 0 \<or> limit > int MaxJobs then int MaxJobs else limit)"

definition expand_parts :: "('n, 'm) floats_scheme \<Rightarrow> 'n matrix_parts \<Rightarrow> int \<Rightarrow> xerror + 'n combination list" where
  "expand_parts fl m limit =
     bindE (if mx_axes m \<noteq> [] \<or> mx_include m = [] then expand fl m limit (mx_order m) [] (0, []) else Inr (0, []))
       (\<lambda>(_, originals). include_all fl limit originals (mx_include m) originals)"

definition ExpandMatrix :: "('n, 'm) library_scheme \<Rightarrow> 'n combination \<Rightarrow> bytes list \<Rightarrow> int \<Rightarrow> xerror + 'n combination list" where
  "ExpandMatrix lib matrix order limit =
     bindE (read_matrix lib matrix order) (\<lambda>m. expand_parts (floats.truncate lib) m (matrix_limit limit))"

end
