(* ===== verification/ExpressionEval.thy ===== *)
theory ExpressionEval
  imports ExpressionValue "HOL-Library.AList"
begin

text \<open>
  The evaluation of an expression (\<open>internal/actions/expression_functions.go\<close> and \<open>Eval\<close>,
  \<open>EvalIf\<close>, \<open>EvalTemplate\<close>, \<open>evaluate\<close>, \<open>access\<close> of \<open>expression.go\<close>). The recorded key order of
  a matrix, \<open>matrixOrders\<close>, is left out: it decides nothing about a value.
\<close>

text \<open>\<open>EvalContext\<close>: the map \<open>Values\<close> with its identity, and the three states of \<open>if\<close>.\<close>

record 'n EvalContext =
  ctx_id :: nat
  ctx_Values :: "(bytes \<times> 'n gvalue) list"
  ctx_Success :: bool
  ctx_Failure :: bool
  ctx_Cancelled :: bool

subsection \<open>Functions\<close>

text \<open>The depth of brackets outside strings, which \<open>fromJSON\<close> bounds before it decodes.\<close>

fun json_deep :: "bool \<Rightarrow> bool \<Rightarrow> int \<Rightarrow> bytes \<Rightarrow> bool" where
  "json_deep inside escaped depth [] = False"
| "json_deep inside escaped depth (c # s) =
     (if inside then
        (if escaped then json_deep True False depth s
         else if c = CHR 0x5C then json_deep True True depth s
         else json_deep (c \<noteq> CHR 0x22) False depth s)
      else if c = CHR 0x22 then json_deep True escaped depth s
      else if c = CHR ''['' \<or> c = CHR ''{'' then
        depth + 1 > int MaxExpressionDepth \<or> json_deep False escaped (depth + 1) s
      else if c = CHR '']'' \<or> c = CHR ''}'' then json_deep False escaped (depth - 1) s
      else json_deep False escaped depth s)"

text \<open>The identities of a decoded value are new ones: each array and map is an allocation.\<close>

fun allocate :: "'n gvalue \<Rightarrow> nat \<Rightarrow> 'n gvalue \<times> nat"
  and allocate_items :: "'n gvalue list \<Rightarrow> nat \<Rightarrow> 'n gvalue list \<times> nat"
  and allocate_entries :: "(bytes \<times> 'n gvalue) list \<Rightarrow> nat \<Rightarrow> (bytes \<times> 'n gvalue) list \<times> nat"
where
  "allocate (Array i vs) n = (case allocate_items vs (n + 1) of (vs, m) \<Rightarrow> (Array n vs, m))"
| "allocate (Object i es) n = (case allocate_entries es (n + 1) of (es, m) \<Rightarrow> (Object n es, m))"
| "allocate v n = (v, n)"
| "allocate_items [] n = ([], n)"
| "allocate_items (v # vs) n =
     (case allocate v n of (v, n) \<Rightarrow> case allocate_items vs n of (vs, n) \<Rightarrow> (v # vs, n))"
| "allocate_entries [] n = ([], n)"
| "allocate_entries ((key, v) # es) n =
     (case allocate v n of (v, n) \<Rightarrow> case allocate_entries es n of (es, n) \<Rightarrow> ((key, v) # es, n))"

definition fromJSON :: "('n, 'm) library_scheme \<Rightarrow> 'n gvalue \<Rightarrow> evaluation \<Rightarrow> xerror + ('n gvalue \<times> evaluation)" where
  "fromJSON lib arg st =
     bindE (ScalarString lib arg) (\<lambda>s.
       if length s > MaxValueBytes then Inl (Limit ''fromJSON input'')
       else if json_deep False False 0 s then Inl (Limit ''fromJSON depth'')
       else case lib_Unmarshal lib s of
         None \<Rightarrow> Inl (WrongType ''fromJSON'' ''valid JSON'')
       | Some decoded \<Rightarrow>
           (case allocate decoded (ev_fresh st) of (v, next) \<Rightarrow>
              bindE (checkedValue lib v) (\<lambda>_.
              bindE (expressionValues v [] 0 (st\<lparr>ev_fresh := next\<rparr>)) (\<lambda>(v, _, st). Inr (v, st)))))"

text \<open>The sizes \<open>toJSON\<close> adds up before it encodes.\<close>

lemma decode_progress: "(width, ok) = DecodeRune s \<Longrightarrow> s \<noteq> [] \<Longrightarrow> length (drop width s) < length s"
  using decode_width(1) [of s] by (cases "DecodeRune s"; cases s) auto

function jsonStringRest :: "bytes \<Rightarrow> nat" where
  "jsonStringRest s =
     (if s = [] then 0
      else case DecodeRune s of (width, ok) \<Rightarrow>
        (if hd s \<in> {CHR 0x5C, CHR 0x22, CHR 0x08, CHR 0x0C, CHR 0x0A, CHR 0x0D, CHR 0x09} then 2
         else if byte (hd s) < 32 \<or> prefix [CHR 0xE2, CHR 0x80, CHR 0xA8] s \<or> prefix [CHR 0xE2, CHR 0x80, CHR 0xA9] s
         then 6
         else if \<not> ok then 6 else width) + jsonStringRest (drop width s))"
  by pat_completeness auto
termination
  by (relation "measure length") (auto dest: decode_progress)

declare jsonStringRest.simps [simp del]

definition jsonStringSize :: "bytes \<Rightarrow> nat" where
  "jsonStringSize text = 2 + jsonStringRest text"

definition json_within :: "nat \<Rightarrow> xerror + nat" where
  "json_within n = (if n > MaxValueBytes then Inl (Limit ''toJSON output'') else Inr n)"

definition json_depth :: "nat \<Rightarrow> xerror + unit" where
  "json_depth depth = requireE (depth \<le> MaxExpressionDepth) (Limit ''JSON value depth'')"

fun preflight :: "('n, 'm) library_scheme \<Rightarrow> 'n gvalue \<Rightarrow> nat \<Rightarrow> xerror + nat"
  and preflight_items :: "('n, 'm) library_scheme \<Rightarrow> 'n gvalue list \<Rightarrow> nat \<Rightarrow> nat \<Rightarrow> xerror + nat"
  and preflight_entries :: "('n, 'm) library_scheme \<Rightarrow> (bytes \<times> 'n gvalue) list \<Rightarrow> nat \<Rightarrow> nat \<Rightarrow> xerror + nat"
where
  "preflight lib (Array i vs) depth =
     bindE (json_depth depth) (\<lambda>_. bindE (preflight_items lib vs depth 2) (\<lambda>n.
       Inr (if vs \<noteq> [] then n + 2 * depth else n)))"
| "preflight lib (Object i es) depth =
     bindE (json_depth depth) (\<lambda>_. bindE (preflight_entries lib es depth 2) (\<lambda>n.
       Inr (if es \<noteq> [] then n + 2 * depth else n)))"
| "preflight lib (Env insensitive i es) depth =
     bindE (json_depth depth) (\<lambda>_. bindE (preflight_entries lib es depth 2) (\<lambda>n.
       Inr (if es \<noteq> [] then n + 2 * depth else n)))"
| "preflight lib (Text s) depth = bindE (json_depth depth) (\<lambda>_. Inr (jsonStringSize s))"
| "preflight lib Null depth = bindE (json_depth depth) (\<lambda>_. Inr 4)"
| "preflight lib v depth =
     bindE (json_depth depth) (\<lambda>_. bindE (ScalarString lib v) (\<lambda>s. Inr (length s)))"
| "preflight_items lib [] depth n = Inr n"
| "preflight_items lib (v # vs) depth n =
     bindE (preflight lib v (depth + 1)) (\<lambda>size.
     bindE (json_within (n + size + 2 * (depth + 1) + 2)) (preflight_items lib vs depth))"
| "preflight_entries lib [] depth n = Inr n"
| "preflight_entries lib ((key, v) # es) depth n =
     bindE (preflight lib v (depth + 1)) (\<lambda>size.
     bindE (json_within (n + jsonStringSize key + size + 2 * (depth + 1) + 4)) (preflight_entries lib es depth))"

definition toJSON :: "('n, 'm) library_scheme \<Rightarrow> 'n gvalue \<Rightarrow> xerror + bytes" where
  "toJSON lib v =
     bindE (preflight lib v 0) (\<lambda>size.
       if size > MaxValueBytes then Inl (Limit ''toJSON output'')
       else case lib_Encode lib (nativeValue v) of
         None \<Rightarrow> Inl (WrongType ''toJSON'' ''a JSON value within 64 KiB'')
       | Some out \<Rightarrow>
           if length out > MaxValueBytes + 1 then Inl (WrongType ''toJSON'' ''a JSON value within 64 KiB'')
           else Inr (trim_suffix [CHR 0x0A] out))"

text \<open>\<open>boundedBuffer.Write\<close> with the limit of a value.\<close>

definition write_value :: "bytes \<Rightarrow> bytes \<Rightarrow> xerror + bytes" where
  "write_value out data =
     (if length data > MaxValueBytes - length out then Inl (Limit ''expression value'') else Inr (out @ data))"

fun join_items :: "('n, 'm) library_scheme \<Rightarrow> bytes \<Rightarrow> bool \<Rightarrow> 'n gvalue list \<Rightarrow> bytes \<Rightarrow> xerror + bytes" where
  "join_items lib separator first [] out = Inr out"
| "join_items lib separator first (v # vs) out =
     bindE (ScalarString lib v) (\<lambda>text.
     bindE (if first then Inr out else write_value out separator) (\<lambda>out.
     bindE (write_value out text) (join_items lib separator False vs)))"

text \<open>An index expression \<open>args[i]\<close>.\<close>

definition argument :: "'a list \<Rightarrow> nat \<Rightarrow> xerror + 'a" where
  "argument args i = (if i < length args then Inr (args ! i) else Inl Panic)"

definition join_values :: "('n, 'm) library_scheme \<Rightarrow> 'n gvalue list \<Rightarrow> xerror + bytes" where
  "join_values lib args =
     bindE (if length args = 2 then bindE (argument args 1) (ScalarString lib) else Inr '','') (\<lambda>separator.
     bindE (argument args 0) (\<lambda>v.
       case arrayValues v of
         None \<Rightarrow> ScalarString lib v
       | Some vs \<Rightarrow> join_items lib separator True vs []))"

lemma cut_shorter: "(a, rest, True) = cut c s \<Longrightarrow> length rest < length s"
  by (cases rule: cut_cases [of s c]) auto

text \<open>The loop of \<open>format\<close>; \<open>args\<close> are the ones behind the text.\<close>

function format_loop :: "('n, 'm) library_scheme \<Rightarrow> 'n gvalue list \<Rightarrow> bytes \<Rightarrow> bytes \<Rightarrow> xerror + bytes" where
  "format_loop lib args [] out = Inr out"
| "format_loop lib args (c # s) out =
     (if c = CHR ''{'' \<or> c = CHR ''}'' then
        (if s \<noteq> [] \<and> hd s = c then bindE (write_value out [c]) (format_loop lib args (tl s))
         else if c = CHR ''{'' then
           (case cut CHR ''}'' s of
              (placeholder, rest, found) \<Rightarrow>
                if \<not> found then Inl (WrongType ''format'' ''a closed placeholder'')
                else case Atoi placeholder of
                  None \<Rightarrow> Inl (WrongType ''format'' ''a placeholder with a supplied argument'')
                | Some index \<Rightarrow>
                    if index < 0 \<or> index \<ge> int (length args) then
                      Inl (WrongType ''format'' ''a placeholder with a supplied argument'')
                    else bindE (ScalarString lib (args ! nat index)) (\<lambda>v.
                      bindE (write_value out v) (format_loop lib args rest)))
         else Inl (WrongType ''format'' ''escaped braces''))
      else bindE (write_value out [c]) (format_loop lib args s))"
  by pat_completeness auto
termination
  by (relation "measure (\<lambda>(lib, args, s, out). length s)") (auto dest: cut_shorter)


declare format_loop.simps [simp del]

definition format_values :: "('n, 'm) library_scheme \<Rightarrow> 'n gvalue list \<Rightarrow> xerror + bytes" where
  "format_values lib args =
     bindE (bindE (argument args 0) (ScalarString lib)) (\<lambda>text. format_loop lib (tl args) text [])"

definition text_test :: "('n, 'm) library_scheme \<Rightarrow> (bytes \<Rightarrow> bytes \<Rightarrow> bool) \<Rightarrow> 'n gvalue list \<Rightarrow> xerror + 'n gvalue" where
  "text_test lib test args =
     bindE (bindE (argument args 0) (ScalarString lib)) (\<lambda>a.
     bindE (bindE (argument args 1) (ScalarString lib)) (\<lambda>b.
       Inr (Boolean (test (lib_ToLower lib a) (lib_ToLower lib b)))))"

definition contains_value :: "('n, 'm) library_scheme \<Rightarrow> 'n gvalue list \<Rightarrow> xerror + 'n gvalue" where
  "contains_value lib args =
     bindE (argument args 0) (\<lambda>a.
       case arrayValues a of
         None \<Rightarrow> text_test lib (\<lambda>a b. contains_str b a) args
       | Some [] \<Rightarrow> Inr (Boolean False)
       | Some vs \<Rightarrow> bindE (argument args 1) (\<lambda>b. Inr (Boolean (list_ex (\<lambda>v. equalValue lib v b) vs))))"

text \<open>A result that uses no steps and makes no array.\<close>

definition plain :: "evaluation \<Rightarrow> xerror + 'a \<Rightarrow> xerror + ('a \<times> evaluation)" where
  "plain st r = bindE r (\<lambda>v. Inr (v, st))"

definition as_text :: "xerror + bytes \<Rightarrow> xerror + 'n gvalue" where
  "as_text r = bindE r (\<lambda>s. Inr (Text s))"

definition callExpression ::
  "('n, 'm) library_scheme \<Rightarrow> bytes \<Rightarrow> 'n gvalue list \<Rightarrow> 'n EvalContext \<Rightarrow> evaluation \<Rightarrow> xerror + ('n gvalue \<times> evaluation)" where
  "callExpression lib name args ctx st =
     (if name = ''success'' then Inr (Boolean (ctx_Success ctx), st)
      else if name = ''failure'' then Inr (Boolean (ctx_Failure ctx), st)
      else if name = ''cancelled'' then Inr (Boolean (ctx_Cancelled ctx), st)
      else if name = ''always'' then Inr (Boolean True, st)
      else if name = ''fromjson'' then bindE (argument args 0) (\<lambda>a. fromJSON lib a st)
      else if name = ''tojson'' then plain st (as_text (bindE (argument args 0) (toJSON lib)))
      else if name = ''contains'' then plain st (contains_value lib args)
      else if name = ''startswith'' then plain st (text_test lib (\<lambda>a b. prefix b a) args)
      else if name = ''endswith'' then plain st (text_test lib (\<lambda>a b. suffix b a) args)
      else if name = ''join'' then plain st (as_text (join_values lib args))
      else if name = ''format'' then plain st (as_text (format_values lib args))
      else Inl (WrongType ''expression'' ''a supported function''))"

subsection \<open>Evaluation\<close>

definition step_error :: xerror where
  "step_error = Limit ''expression evaluation steps''"

definition tick :: "evaluation \<Rightarrow> xerror + evaluation" where
  "tick st =
     (if ev_steps st + 1 > MaxEvaluationSteps then Inl step_error else Inr (st\<lparr>ev_steps := ev_steps st + 1\<rparr>))"

fun directContextAccess :: "'n expression \<Rightarrow> bool" where
  "directContextAccess (EAccess dot e property) = directContextAccess e"
| "directContextAccess (EContext root) = True"
| "directContextAccess e = False"

definition binary_value :: "('n, 'm) library_scheme \<Rightarrow> bytes \<Rightarrow> 'n gvalue \<Rightarrow> 'n gvalue \<Rightarrow> xerror + 'n gvalue" where
  "binary_value lib op left right =
     (if op = ''&&'' \<or> op = ''||'' then Inr right
      else if op = ''=='' then Inr (Boolean (equalValue lib left right))
      else if op = ''!='' then Inr (Boolean (\<not> equalValue lib left right))
      else if op \<in> {''<'', ''<='', ''>'', ''>=''} then Inr (Boolean (compareValues lib left right op))
      else Inl (WrongType ''expression'' ''a supported operator''))"

definition decided :: "('n, 'm) library_scheme \<Rightarrow> bytes \<Rightarrow> 'n gvalue \<Rightarrow> bool" where
  "decided lib op left \<longleftrightarrow> op = ''&&'' \<and> \<not> Truthy lib left \<or> op = ''||'' \<and> Truthy lib left"

text \<open>
  \<open>evaluate\<close> with the loop over arguments and \<open>access\<close>, whose two loops collect the properties
  from the outside in and apply them from the inside out.
\<close>

function (sequential) evaluate ::
    "('n, 'm) library_scheme \<Rightarrow> 'n EvalContext \<Rightarrow> 'n expression \<Rightarrow> evaluation \<Rightarrow> xerror + ('n gvalue \<times> evaluation)"
  and evaluate_args ::
    "('n, 'm) library_scheme \<Rightarrow> 'n EvalContext \<Rightarrow> 'n expression list \<Rightarrow> evaluation \<Rightarrow> xerror + ('n gvalue list \<times> evaluation)"
  and access ::
    "('n, 'm) library_scheme \<Rightarrow> 'n EvalContext \<Rightarrow> 'n expression \<Rightarrow> evaluation \<Rightarrow> xerror + ('n gvalue \<times> evaluation)"
where
  "evaluate lib ctx (ELiteral v) st = bindE (tick st) (\<lambda>st. Inr (v, st))"
| "evaluate lib ctx (EContext root) st =
     bindE (tick st) (\<lambda>st. checkedExpressionValue lib (lookup (ctx_Values ctx) root) st)"
| "evaluate lib ctx (ECall name args) st =
     bindE (tick st) (\<lambda>st. bindE (evaluate_args lib ctx args st) (\<lambda>(vs, st). callExpression lib name vs ctx st))"
| "evaluate lib ctx (EAccess dot e property) st =
     bindE (tick st) (\<lambda>st.
       if directContextAccess e then
         bindE (access lib ctx (EAccess dot e property) st) (\<lambda>(v, st). checkedExpressionValue lib v st)
       else
         bindE (evaluate lib ctx e st) (\<lambda>(left, st).
         bindE (evaluate lib ctx property st) (\<lambda>(right, st).
         bindE (propertyValue lib left right) (\<lambda>v. checkedExpressionValue lib v st))))"
| "evaluate lib ctx (ENot e) st =
     bindE (tick st) (\<lambda>st. bindE (evaluate lib ctx e st) (\<lambda>(v, st). Inr (Boolean (\<not> Truthy lib v), st)))"
| "evaluate lib ctx (EBinary op l r) st =
     bindE (tick st) (\<lambda>st. bindE (evaluate lib ctx l st) (\<lambda>(left, st).
       if decided lib op left then Inr (left, st)
       else bindE (evaluate lib ctx r st) (\<lambda>(right, st). plain st (binary_value lib op left right))))"
| "evaluate_args lib ctx [] st = Inr ([], st)"
| "evaluate_args lib ctx (e # es) st =
     bindE (evaluate lib ctx e st) (\<lambda>(v, st). bindE (evaluate_args lib ctx es st) (\<lambda>(vs, st). Inr (v # vs, st)))"
| "access lib ctx (EAccess dot e property) st =
     bindE (access lib ctx e st) (\<lambda>(v, st). bindE (evaluate lib ctx property st) (\<lambda>(p, st).
       plain st (propertyValue lib v p)))"
| "access lib ctx (EContext root) st = Inr (lookup (ctx_Values ctx) root, st)"
| "access lib ctx e st = Inl Panic"
  by pat_completeness auto
termination
  by (relation "measure (\<lambda>x. case x of
      Inl (_, _, e, _) \<Rightarrow> 2 * size e + 1
    | Inr (Inl (_, _, es, _)) \<Rightarrow> 2 * size_list size es + 2
    | Inr (Inr (_, _, e, _)) \<Rightarrow> 2 * size e)") auto

subsection \<open>Entry points\<close>

text \<open>\<open>prepareContext\<close>: the values are copied, and \<open>env\<close> becomes an environment of the runner's system.\<close>

definition runner_os :: "(bytes \<times> 'n gvalue) list \<Rightarrow> bytes" where
  "runner_os values =
     (case lookup values ''runner'' of
        Object _ es \<Rightarrow> (case lookup es ''os'' of Text os \<Rightarrow> os | _ \<Rightarrow> [])
      | _ \<Rightarrow> [])"

definition with_environment :: "('n, 'm) library_scheme \<Rightarrow> (bytes \<times> 'n gvalue) list \<Rightarrow> (bytes \<times> 'n gvalue) list" where
  "with_environment lib values =
     (case lookup values ''env'' of
        Object i es \<Rightarrow>
          AList.update ''env'' (Env (lib_EqualFold lib (runner_os values) ''Windows'') i es) values
      | _ \<Rightarrow> values)"

definition prepareContext :: "('n, 'm) library_scheme \<Rightarrow> 'n EvalContext \<Rightarrow> evaluation \<Rightarrow> xerror + ('n EvalContext \<times> evaluation)" where
  "prepareContext lib ctx st =
     bindE (expressionValues (Object (ctx_id ctx) (ctx_Values ctx)) [] 0 st) (\<lambda>(v, _, st).
       case v of
         Object i values \<Rightarrow> Inr (ctx\<lparr>ctx_id := i, ctx_Values := with_environment lib values\<rparr>, st)
       | _ \<Rightarrow> Inl Panic)"

text \<open>New identities start behind \<open>fresh\<close>, the ones in use.\<close>

definition Eval :: "('n, 'm) library_scheme \<Rightarrow> nat \<Rightarrow> bytes \<Rightarrow> bytes \<Rightarrow> 'n EvalContext \<Rightarrow> xerror + 'n gvalue" where
  "Eval lib fresh text key ctx =
     bindE (compileExpression (floats.truncate lib) text key) (\<lambda>(e, _).
     bindE (prepareContext lib ctx \<lparr>ev_steps = 0, ev_fresh = fresh\<rparr>) (\<lambda>(ctx, st).
     bindE (evaluate lib ctx e st) (\<lambda>(v, _). Inr (nativeValue v))))"

definition EvalIf :: "('n, 'm) library_scheme \<Rightarrow> nat \<Rightarrow> bytes \<Rightarrow> bytes \<Rightarrow> 'n EvalContext \<Rightarrow> xerror + bool" where
  "EvalIf lib fresh text key ctx =
     (if TrimSpace text = [] then Inr (ctx_Success ctx)
      else bindE (compileExpression (floats.truncate lib) text key) (\<lambda>(e, f).
        if \<not> found_status f \<and> \<not> ctx_Success ctx then Inr False
        else bindE (prepareContext lib ctx \<lparr>ev_steps = 0, ev_fresh = fresh\<rparr>) (\<lambda>(ctx, st).
          bindE (evaluate lib ctx e st) (\<lambda>(v, _). Inr (Truthy lib v)))))"

fun template_text :: "('n, 'm) library_scheme \<Rightarrow> nat \<Rightarrow> bytes \<Rightarrow> 'n EvalContext \<Rightarrow> templatePart list \<Rightarrow> bytes \<Rightarrow> xerror + bytes" where
  "template_text lib fresh key ctx [] out = Inr out"
| "template_text lib fresh key ctx (part # parts) out =
     bindE (if part_expr part then bindE (Eval lib fresh (part_text part) key ctx) (ScalarString lib)
            else Inr (part_text part)) (\<lambda>v.
       if length v > MaxValueBytes - length out then Inl (Limit key)
       else template_text lib fresh key ctx parts (out @ v))"

definition EvalTemplate :: "('n, 'm) library_scheme \<Rightarrow> nat \<Rightarrow> bytes \<Rightarrow> bytes \<Rightarrow> 'n EvalContext \<Rightarrow> xerror + 'n gvalue" where
  "EvalTemplate lib fresh text key ctx =
     bindE (templateParts text) (\<lambda>parts.
       if length parts = 1 \<and> part_expr (hd parts) then Eval lib fresh (part_text (hd parts)) key ctx
       else as_text (template_text lib fresh key ctx parts []))"

end
