(* ===== verification/ExpressionErrors.thy ===== *)
theory ExpressionErrors
  imports ExpressionEval
begin

text \<open>
  What can go wrong when an accepted expression is evaluated: \<open>fails_well\<close> says that a result is a
  value or one of the errors listed by \<open>runtime_error\<close>, and it holds of every function of the
  evaluator on the calls and operators that \<open>validate\<close> and the parser let through.
\<close>

subsection \<open>Errors of an evaluation\<close>

text \<open>
  What the value of an accepted expression can fail with: a limit, a value that is no scalar, and
  the texts \<open>fromJSON\<close>, \<open>toJSON\<close> and \<open>format\<close> refuse.
\<close>

definition runtime_error :: "xerror \<Rightarrow> bool" where
  "runtime_error err \<longleftrightarrow>
     (\<exists>what. err = Limit what) \<or>
     err \<in> {WrongType ''expression'' ''a scalar value (arrays and objects are not strings)'',
       WrongType ''fromJSON'' ''valid JSON'', WrongType ''toJSON'' ''a JSON value within 64 KiB'',
       WrongType ''format'' ''a closed placeholder'', WrongType ''format'' ''a placeholder with a supplied argument'',
       WrongType ''format'' ''escaped braces''}"

definition fails_well :: "xerror + 'a \<Rightarrow> bool" where
  "fails_well r \<longleftrightarrow> (\<forall>err. r = Inl err \<longrightarrow> runtime_error err)"

named_theorems fails

lemma fails_Inr [fails]: "fails_well (Inr x)"
  by (simp add: fails_well_def)

lemma fails_Limit [fails]: "fails_well (Inl (Limit what))"
  by (simp add: fails_well_def runtime_error_def)

lemma fails_texts [fails]:
  "fails_well (Inl (WrongType ''fromJSON'' ''valid JSON''))"
  "fails_well (Inl (WrongType ''toJSON'' ''a JSON value within 64 KiB''))"
  "fails_well (Inl (WrongType ''format'' ''a closed placeholder''))"
  "fails_well (Inl (WrongType ''format'' ''a placeholder with a supplied argument''))"
  "fails_well (Inl (WrongType ''format'' ''escaped braces''))"
  by (simp_all add: fails_well_def runtime_error_def)

lemma fails_bind: "fails_well r \<Longrightarrow> (\<And>x. r = Inr x \<Longrightarrow> fails_well (k x)) \<Longrightarrow> fails_well (bindE r k)"
  by (cases r) (auto simp: fails_well_def)

lemma fails_if: "(c \<Longrightarrow> fails_well a) \<Longrightarrow> (\<not> c \<Longrightarrow> fails_well b) \<Longrightarrow> fails_well (if c then a else b)"
  by simp

lemma fails_option:
  "(x = None \<Longrightarrow> fails_well a) \<Longrightarrow> (\<And>i. x = Some i \<Longrightarrow> fails_well (b i)) \<Longrightarrow>
     fails_well (case x of None \<Rightarrow> a | Some i \<Rightarrow> b i)"
  by (cases x) auto

lemma fails_scalar [fails]: "fails_well (ScalarString lib v)"
  by (auto simp: fails_well_def ScalarString_def runtime_error_def split: gvalue.splits)

lemma fails_visit [fails]: "fails_well (visit_node depth s)" "fails_well (settle s)" "fails_well (enter depth st)"
    "fails_well (tick st)" "fails_well (write_value out data)" "fails_well (json_within n)" "fails_well (json_depth n)"
  by (auto simp: visit_node_def settle_def enter_def tick_def step_error_def write_value_def json_within_def
      json_depth_def requireE_def intro: fails)

lemma fails_check [fails]:
  fixes v :: "'n gvalue" and vs :: "'n gvalue list"
  shows "fails_well (check_value native lib v depth s)"
    and "fails_well (check_items native lib vs depth s)"
    and "fails_well (check_entries native lib es depth s)"
proof (induction native lib v depth s and native lib vs depth s and native lib es depth s rule: check_value_check_items_check_entries.induct)
  case (1 native lib v depth s)
  then show ?case by (cases v; cases native) (auto simp: check_value.simps intro!: fails_bind intro: fails)
qed (auto intro!: fails_bind intro: fails)

lemma fails_checked [fails]: "fails_well (checkedExpressionValue lib v st)" "fails_well (checkedValue lib v)"
  by (auto simp: checkedExpressionValue_def checkedValue_def intro!: fails_bind intro: fails)

lemma fails_values [fails]:
  fixes v :: "'n gvalue" and vs :: "'n gvalue list"
  shows "fails_well (expressionValues v cache depth st)"
    and "fails_well (expressionItems vs cache depth st)"
    and "fails_well (expressionEntries es cache depth st)"
proof (induction v cache depth st and vs cache depth st and es cache depth st
    rule: expressionValues_expressionItems_expressionEntries.induct)
  case (1 v cache depth st)
  then show ?case
    by (cases v) (auto simp: expressionValues.simps split: option.splits intro!: fails_bind intro: fails)
qed (auto intro!: fails_bind intro: fails)

lemma fails_preflight [fails]:
  fixes v :: "'n gvalue" and vs :: "'n gvalue list"
  shows "fails_well (preflight lib v depth)"
    and "fails_well (preflight_items lib vs depth n)"
    and "fails_well (preflight_entries lib es depth n)"
  by (induction lib v depth and lib vs depth n and lib es depth n rule: preflight_preflight_items_preflight_entries.induct)
    (auto intro!: fails_bind intro: fails)

lemma fails_json [fails]: "fails_well (fromJSON lib v st)" "fails_well (toJSON lib v)"
  by (auto simp: fromJSON_def toJSON_def
      intro!: fails_bind fails_if intro: fails split: option.splits prod.splits)

lemma fails_join [fails]: "fails_well (join_items lib separator first vs out)"
  by (induction vs arbitrary: first out) (auto intro!: fails_bind intro: fails)

lemma fails_format [fails]: "fails_well (format_loop lib args s out)"
proof (induction "length s" arbitrary: s out rule: less_induct)
  case less
  show ?case
  proof (cases s)
    case Nil
    then show ?thesis by (simp add: format_loop.simps fails)
  next
    case (Cons c t)
    have IH: "fails_well (format_loop lib args u out)" if "length u \<le> length t" for u out
      using less that by (simp add: Cons)
    obtain p rest found where cut: "cut CHR ''}'' t = (p, rest, found)" by (cases "cut CHR ''}'' t")
    then have rest: "found \<Longrightarrow> length rest \<le> length t" using cut_shorter [of p rest "CHR ''}''" t] by simp
    show ?thesis unfolding Cons format_loop.simps(2) cut prod.case
      by (intro fails_if fails_bind fails_option fails IH) (use rest in simp_all)
  qed
qed


text \<open>The arguments a call needs are there.\<close>

lemma fails_argument [fails]: "i < length args \<Longrightarrow> fails_well (argument args i)"
  by (simp add: argument_def fails)

lemma fails_argument_hd [fails]: "args \<noteq> [] \<Longrightarrow> fails_well (argument args 0)"
  by (simp add: fails)

lemma fails_plain: "fails_well r \<Longrightarrow> fails_well (plain st r)" "fails_well s \<Longrightarrow> fails_well (as_text s)"
  by (auto simp: plain_def as_text_def intro!: fails_bind intro: fails)

lemma fails_text_test: "length args = 2 \<Longrightarrow> fails_well (text_test lib test args)"
  by (auto simp: text_test_def intro!: fails_bind intro: fails)

lemma fails_contains: "length args = 2 \<Longrightarrow> fails_well (contains_value lib args)"
  by (auto simp: contains_value_def fails fails_text_test intro!: fails_bind split: option.splits list.splits)

lemma fails_join_values: "args \<noteq> [] \<Longrightarrow> fails_well (join_values lib args)"
  by (auto simp: join_values_def fails intro!: fails_bind split: option.splits)

lemma fails_format_values: "args \<noteq> [] \<Longrightarrow> fails_well (format_values lib args)"
  by (auto simp: format_values_def intro!: fails_bind intro: fails)

lemma fails_call:
  assumes "call_ok key (name, length args)"
  shows "fails_well (callExpression lib name args ctx st)"
proof -
  from assms consider "name \<in> {''success'', ''failure'', ''always'', ''cancelled''}"
    | "name \<in> {''contains'', ''startswith'', ''endswith''}" "length args = 2"
    | "name \<in> {''join'', ''format'', ''tojson'', ''fromjson''}" "args \<noteq> []"
    by (fastforce simp: call_ok_def arguments_def status_functions_def split: if_split_asm)
  then show ?thesis
  proof cases
    case 1
    then show ?thesis by (elim insertE emptyE) (simp_all add: callExpression_def fails)
  next
    case 2
    then show ?thesis
      by (elim insertE emptyE) (simp_all add: callExpression_def fails_plain fails_text_test fails_contains)
  next
    case 3
    have "fails_well (bindE (argument args 0) (\<lambda>a. fromJSON lib a st))" "fails_well (bindE (argument args 0) (toJSON lib))"
      using 3(2) by (auto intro!: fails_bind intro: fails)
    with 3 show ?thesis
      by (elim insertE emptyE) (simp_all add: callExpression_def fails_plain fails_join_values fails_format_values)
  qed
qed


text \<open>
  What the code relies on of \<open>float64\<close>: a number that is equal to its integer part, at least zero
  and less than a length has that integer part in the range.
\<close>

definition index_law :: "('n, 'm) library_scheme \<Rightarrow> bool" where
  "index_law lib \<longleftrightarrow> (\<forall>n len. index_in lib n len \<longrightarrow> 0 \<le> fl_trunc lib n \<and> fl_trunc lib n < int len)"

lemma fails_property: "index_law lib \<Longrightarrow> fails_well (propertyValue lib v p)"
  by (cases v) (auto simp: propertyValue_def element_def Let_def index_law_def fails)

definition binary_operators :: "bytes set" where
  "binary_operators = {''||'', ''&&'', ''=='', ''!='', ''<'', ''<='', ''>'', ''>=''}"

fun operators :: "'n expression \<Rightarrow> bytes set" where
  "operators (ECall name args) = \<Union> (operators ` set args)"
| "operators (ELiteral v) = {}"
| "operators (EContext root) = {}"
| "operators (EAccess dot e property) = operators e \<union> operators property"
| "operators (ENot e) = operators e"
| "operators (EBinary op l r) = insert op (operators l \<union> operators r)"

lemma fails_binary: "op \<in> binary_operators \<Longrightarrow> fails_well (binary_value lib op left right)"
  unfolding binary_operators_def by (elim insertE emptyE) (simp_all add: binary_value_def fails)

lemma evaluate_args_length: "evaluate_args lib ctx es st = Inr (vs, st') \<Longrightarrow> length vs = length es"
  by (induction es arbitrary: st vs) (auto split: prod.splits)

lemma evaluate_fails:
  fixes e :: "'n expression" and es :: "'n expression list"
  assumes law: "index_law lib"
  shows "\<forall>c \<in> calls e. call_ok key c \<Longrightarrow> operators e \<subseteq> binary_operators \<Longrightarrow> fails_well (evaluate lib ctx e st)"
    and "\<forall>e \<in> set es. (\<forall>c \<in> calls e. call_ok key c) \<and> operators e \<subseteq> binary_operators \<Longrightarrow> fails_well (evaluate_args lib ctx es st)"
    and "\<forall>c \<in> calls e. call_ok key c \<Longrightarrow> operators e \<subseteq> binary_operators \<Longrightarrow> directContextAccess e \<Longrightarrow>
      fails_well (access lib ctx e st)"
  using law
proof (induction lib ctx e st and lib ctx es st and lib ctx e st rule: evaluate_evaluate_args_access.induct)
  case (3 lib ctx name args st)
  have "fails_well (callExpression lib name vs ctx st'')" if "evaluate_args lib ctx args st' = Inr (vs, st'')" for st' vs st''
    using 3 evaluate_args_length [OF that] by (intro fails_call [where key = key]) simp
  then show ?case using 3 by (auto simp: fails UN_subset_iff split: prod.splits intro!: fails_bind)
next
  case (4 lib ctx dot e property st)
  then show ?case by (auto simp: fails fails_property simp del: access.simps split: prod.splits intro!: fails_bind)
next
  case (6 lib ctx op l r st)
  then show ?case by (auto simp: fails fails_plain fails_binary split: prod.splits intro!: fails_bind)
qed (auto simp: fails fails_plain fails_property split: prod.splits intro!: fails_bind)


text \<open>The parser makes nodes of known operators only; the claims for one fuel, as before.\<close>

definition known :: "'n expression \<Rightarrow> bool" where
  "known e \<longleftrightarrow> operators e \<subseteq> binary_operators"

lemma known_simps [simp]:
  "known (ECall name args) \<longleftrightarrow> (\<forall>e \<in> set args. known e)" "known (ELiteral v)" "known (EContext root)"
  "known (EAccess dot e property) \<longleftrightarrow> known e \<and> known property" "known (ENot e) \<longleftrightarrow> known e"
  "known (EBinary op l r) \<longleftrightarrow> op \<in> binary_operators \<and> known l \<and> known r"
  by (auto simp: known_def)

definition builds_known :: "'n floats \<Rightarrow> bytes \<Rightarrow> nat \<Rightarrow> bool" where
  "builds_known fl key n \<longleftrightarrow>
     (\<forall>low depth p e q. parse n fl key low depth p = Inr (e, q) \<longrightarrow> 0 < low \<longrightarrow> known e) \<and>
     (\<forall>depth p e q. parse_primary n fl key depth p = Inr (e, q) \<longrightarrow> known e) \<and>
     (\<forall>depth p es q. parse_args n fl key depth p = Inr (es, q) \<longrightarrow> (\<forall>e \<in> set es. known e)) \<and>
     (\<forall>depth p e' e d q. parse_postfix n fl key depth e' p = Inr (e, d, q) \<longrightarrow> known e' \<longrightarrow> known e) \<and>
     (\<forall>low depth p e' e q. parse_binary n fl key low depth e' p = Inr (e, q) \<longrightarrow> 0 < low \<longrightarrow> known e' \<longrightarrow> known e)"

lemma builds_knownD:
  assumes "builds_known fl key n"
  shows "parse n fl key low depth p = Inr (e, q) \<Longrightarrow> 0 < low \<Longrightarrow> known e"
    and "parse_primary n fl key depth p = Inr (e, q) \<Longrightarrow> known e"
    and "parse_args n fl key depth p = Inr (es, q) \<Longrightarrow> (\<forall>e \<in> set es. known e)"
    and "parse_postfix n fl key depth e' p = Inr (e, d, q) \<Longrightarrow> known e' \<Longrightarrow> known e"
    and "parse_binary n fl key low depth e' p = Inr (e, q) \<Longrightarrow> 0 < low \<Longrightarrow> known e' \<Longrightarrow> known e"
  using assms unfolding builds_known_def by (elim conjE, metis)+

lemma precedence_known:
  assumes "0 < precedence tok" shows "operator_text tok \<in> binary_operators"
proof (rule ccontr)
  assume "operator_text tok \<notin> binary_operators"
  then have "tok \<noteq> Operator op" if "op \<in> binary_operators" for op
    using that by (auto simp: operator_text_def)
  then have "precedence tok = 0" unfolding precedence_def binary_operators_def by simp
  with assms show False by simp
qed

lemma parse_known:
  assumes n: "builds_known fl key n" and p: "parse (Suc n) fl key low depth p = Inr (e, q)" "0 < low"
  shows "known e"
proof -
  from p(1) obtain e1 p1 e2 d p2 where "parse_primary n fl key depth p = Inr (e1, p1)"
    "parse_postfix n fl key depth e1 p1 = Inr (e2, d, p2)" "parse_binary n fl key low d e2 p2 = Inr (e, q)"
    by (auto simp: parse.simps split: if_splits)
  from builds_knownD(5) [OF n this(3) p(2) builds_knownD(4) [OF n this(2) builds_knownD(2) [OF n this(1)]]]
  show ?thesis .
qed

lemma primary_known:
  assumes n: "builds_known fl key n" and p: "parse_primary (Suc n) fl key depth p = Inr (e, q)"
  shows "known e"
proof (cases "ps_token p")
  case (Operator op)
  from p Operator show ?thesis
    by (auto simp: parse_primary.simps split: if_splits dest!: builds_knownD(1) [OF n])
next
  case (Identifier name)
  from p Identifier show ?thesis
    by (auto simp: parse_primary.simps split: if_splits dest!: builds_knownD(3) [OF n])
qed (use p in \<open>auto simp: parse_primary.simps\<close>)

lemma args_known:
  assumes n: "builds_known fl key n" and p: "parse_args (Suc n) fl key depth p = Inr (es, q)"
  shows "\<forall>e \<in> set es. known e"
  using p by (auto simp: parse_args.simps split: if_splits dest!: builds_knownD(1,3) [OF n])

lemma postfix_known:
  assumes n: "builds_known fl key n" and p: "parse_postfix (Suc n) fl key depth e' p = Inr (e, d, q)" "known e'"
  shows "known e"
  using p
  by (auto simp: parse_postfix.simps identifier_Inr split: if_splits dest!: builds_knownD(1,4) [OF n])

lemma binary_known:
  assumes n: "builds_known fl key n" and p: "parse_binary (Suc n) fl key low depth e' p = Inr (e, q)" "0 < low" "known e'"
  shows "known e"
  using p precedence_known [of "ps_token p"]
  by (auto simp: parse_binary.simps split: if_splits dest!: builds_knownD(1,5) [OF n])

lemma builds_known: "builds_known fl key n"
proof (induction n)
  case 0
  then show ?case
    by (simp add: builds_known_def parse.simps parse_primary.simps parse_args.simps parse_postfix.simps parse_binary.simps)
next
  case (Suc n)
  show ?case unfolding builds_known_def
    by (intro conjI allI impI)
      (rule parse_known [OF Suc] primary_known [OF Suc] args_known [OF Suc] postfix_known [OF Suc]
        binary_known [OF Suc]; assumption)+
qed

end
