(* ===== verification/ExpressionSecrets.thy ===== *)
theory ExpressionSecrets
  imports ExpressionEval
begin

text \<open>
  Which secrets an accepted expression can read: in two contexts that agree on everything but
  the secrets \<open>validate\<close> did not report, its evaluation is the same.
\<close>

text \<open>
  Two maps of secrets with the same entries at every key by which a reported name can be found,
  and two contexts that are alike apart from the other secrets.
\<close>

definition same_secrets :: "('n, 'm) library_scheme \<Rightarrow> bytes set \<Rightarrow> (bytes \<times> 'n gvalue) list \<Rightarrow> (bytes \<times> 'n gvalue) list \<Rightarrow> bool" where
  "same_secrets lib names es es' \<longleftrightarrow>
     (\<forall>name key. map upper_char name \<in> names \<and> (key = name \<or> lib_EqualFold lib key name) \<longrightarrow>
        map_of es key = map_of es' key)"

definition agree :: "('n, 'm) library_scheme \<Rightarrow> bytes set \<Rightarrow> 'n EvalContext \<Rightarrow> 'n EvalContext \<Rightarrow> bool" where
  "agree lib names a b \<longleftrightarrow>
     ctx_Success a = ctx_Success b \<and> ctx_Failure a = ctx_Failure b \<and> ctx_Cancelled a = ctx_Cancelled b \<and>
     (\<forall>root. root \<noteq> ''secrets'' \<longrightarrow> lookup (ctx_Values a) root = lookup (ctx_Values b) root) \<and>
     (\<exists>i es j es'. lookup (ctx_Values a) ''secrets'' = Object i es \<and> lookup (ctx_Values b) ''secrets'' = Object j es' \<and>
       same_secrets lib names es es')"

lemma find_sorted_entry:
  fixes xs :: "'a :: linorder list"
  shows "List.find P (sort xs) = (if \<exists>x \<in> set xs. P x then Some (Min {x \<in> set xs. P x}) else None)"
proof (cases "List.find P (sort xs)")
  case None
  then show ?thesis by (auto simp: find_None_iff)
next
  case (Some x)
  then obtain i where i: "i < length xs" "P (sort xs ! i)" "x = sort xs ! i" "\<forall>j<i. \<not> P (sort xs ! j)"
    by (auto simp: find_Some_iff)
  have "x \<in> set xs" using i by (metis length_sort nth_mem set_sort)
  moreover have "x \<le> y" if y: "y \<in> set xs" "P y" for y
  proof -
    obtain j where j: "j < length xs" "y = sort xs ! j" using y(1) by (metis in_set_conv_nth length_sort set_sort)
    then have "i \<le> j" using i(4) y(2) by (metis not_le)
    then show ?thesis using i(1,3) j by (simp add: sorted_nth_mono)
  qed
  ultimately have "Min {x \<in> set xs. P x} = x" using i(2,3) by (intro Min_eqI) auto
  then show ?thesis using Some \<open>x \<in> set xs\<close> i(2,3) by auto
qed

lemma objectProperty_agree:
  assumes "\<And>key. key = name \<or> lib_EqualFold lib key name \<Longrightarrow> map_of es key = map_of es' key"
  shows "objectProperty lib es name = objectProperty lib es' name"
proof -
  have dom: "key \<in> fst ` set es \<longleftrightarrow> key \<in> fst ` set es'" if "lib_EqualFold lib key name" for key
    using assms [of key] that by (metis map_of_eq_None_iff)
  then have keys: "{k \<in> fst ` set es. lib_EqualFold lib k name} = {k \<in> fst ` set es'. lib_EqualFold lib k name}"
    "(\<exists>k \<in> fst ` set es. lib_EqualFold lib k name) \<longleftrightarrow> (\<exists>k \<in> fst ` set es'. lib_EqualFold lib k name)"
    using dom by blast+
  have find: "List.find (\<lambda>k. lib_EqualFold lib k name) (sort (map fst es)) =
      List.find (\<lambda>k. lib_EqualFold lib k name) (sort (map fst es'))"
    using keys by (simp add: find_sorted_entry del: bex_simps ball_simps image_iff)
  have "lookup es k = lookup es' k" if "List.find (\<lambda>k. lib_EqualFold lib k name) (sort (map fst es')) = Some k" for k
    using that assms [of k] by (auto simp: find_Some_iff lookup_def)
  then show ?thesis using assms [of name] by (auto simp: objectProperty_def find split: option.splits)
qed

lemma callExpression_agree: "agree lib names a b \<Longrightarrow> callExpression lib name args a = callExpression lib name args b"
  by (rule ext) (simp add: callExpression_def agree_def)

lemma same_secrets_mono: "same_secrets lib S es es' \<Longrightarrow> T \<subseteq> S \<Longrightarrow> same_secrets lib T es es'"
  unfolding same_secrets_def by blast

lemma agree_secrets:
  assumes "agree lib names a b"
  obtains i es j es' where "lookup (ctx_Values a) ''secrets'' = Object i es"
    and "lookup (ctx_Values b) ''secrets'' = Object j es'" and "same_secrets lib names es es'"
  using assms unfolding agree_def by (elim conjE exE) (rule that)

lemma agree_mono:
  assumes "agree lib S a b" and "T \<subseteq> S"
  shows "agree lib T a b"
proof -
  obtain i es j es' where s: "lookup (ctx_Values a) ''secrets'' = Object i es"
    "lookup (ctx_Values b) ''secrets'' = Object j es'" "same_secrets lib S es es'"
    using assms(1) by (rule agree_secrets)
  show ?thesis using assms(1) s(1,2) same_secrets_mono [OF s(3) assms(2)] by (simp add: agree_def)
qed

lemma star_not_env_name: "\<not> validEnvName ''*''"
  by (simp add: validEnvName_def validIdentifier_def identifier_start_def asciiLetter_def is_lower_def is_upper_def byte_def)

lemma property_name_valid:
  assumes "validEnvName (property_name p)"
  shows "p = ELiteral (Text (property_name p))"
proof -
  have "property_name p \<noteq> ''*''" using assms star_not_env_name by auto
  then show ?thesis by (auto simp: property_name_def split: expression.splits gvalue.splits)
qed

lemma validateRoot_path:
  "validateRoot key ''secrets'' path direct f = Inr f' \<Longrightarrow>
     \<exists>name. path = [name] \<and> direct \<and> validEnvName name \<and> map upper_char name \<in> set (found_secrets f')"
  by (cases path) (auto simp: validateRoot_def Let_def length_Suc_conv split: if_splits)


lemma secret_access:
  assumes "agree lib (set (found_secrets f)) a b" and "map upper_char name \<in> set (found_secrets f)"
  shows "access lib a (EAccess dot (EContext ''secrets'') (ELiteral (Text name))) st =
     access lib b (EAccess dot (EContext ''secrets'') (ELiteral (Text name))) st"
proof -
  obtain i es j es' where s: "lookup (ctx_Values a) ''secrets'' = Object i es"
    "lookup (ctx_Values b) ''secrets'' = Object j es'" "same_secrets lib (set (found_secrets f)) es es'"
    using assms(1) by (rule agree_secrets)
  have "objectProperty lib es name = objectProperty lib es' name"
    using s(3) assms(2) by (intro objectProperty_agree) (simp add: same_secrets_def)
  then show ?thesis by (simp add: s(1,2) tick_def propertyValue_def plain_def)
qed

lemma context_agree: "agree lib names a b \<Longrightarrow> root \<noteq> ''secrets'' \<Longrightarrow> lookup (ctx_Values a) root = lookup (ctx_Values b) root"
  by (simp add: agree_def)

text \<open>A chain of accesses either names one reported secret or never reads the secrets.\<close>

definition alike :: "('n, 'm) library_scheme \<Rightarrow> 'n EvalContext \<Rightarrow> 'n EvalContext \<Rightarrow> 'n expression \<Rightarrow> bool" where
  "alike lib a b e \<longleftrightarrow> evaluate lib a e = evaluate lib b e \<and>
     (directContextAccess e \<longrightarrow> access lib a e = access lib b e)"

lemma alike_access:
  assumes "alike lib a b e" and "alike lib a b p"
  shows "alike lib a b (EAccess dot e p)"
  using assms by (cases "directContextAccess e") (simp_all add: alike_def fun_eq_iff)

lemma alike_binary: "alike lib a b l \<Longrightarrow> alike lib a b r \<Longrightarrow> alike lib a b (EBinary op l r)"
  by (simp add: alike_def fun_eq_iff cong: if_cong)

lemma alike_args:
  "alike lib a b e \<Longrightarrow> evaluate_args lib a es = evaluate_args lib b es \<Longrightarrow>
     evaluate_args lib a (e # es) = evaluate_args lib b (e # es)"
  by (simp add: alike_def fun_eq_iff)

lemma evaluate_agree:
  fixes e :: "'n expression" and es :: "'n expression list"
  shows "validate key e f = Inr f' \<Longrightarrow> agree lib (set (found_secrets f')) a b \<Longrightarrow> alike lib a b e"
    and "validateAccess key e path direct f = Inr f' \<Longrightarrow> agree lib (set (found_secrets f')) a b \<Longrightarrow>
      (if e = EContext ''secrets'' then \<exists>name. path = [name] \<and> direct \<and> validEnvName name \<and>
         map upper_char name \<in> set (found_secrets f') else alike lib a b e)"
    and "validateAll key es f = Inr f' \<Longrightarrow> agree lib (set (found_secrets f')) a b \<Longrightarrow>
      evaluate_args lib a es = evaluate_args lib b es"
proof (induction key e f and key e path direct f and key es f arbitrary: f' and f' and f'
    rule: validate_validateAccess_validateAll.induct)
  case (1 key name args f)
  then obtain f1 where "validateAll key args f1 = Inr f'" "validateCall key name (length args) f = Inr f1" by auto
  then have "evaluate_args lib a args = evaluate_args lib b args" using 1(1) [OF _ _ 1(3)] by blast
  then show ?case by (simp add: alike_def fun_eq_iff callExpression_agree [OF 1(3)])
next
  case (4 key op l r f)
  then obtain f1 where f1: "validate key l f = Inr f1" "validate key r f1 = Inr f'" by auto
  have g: "agree lib (set (found_secrets f1)) a b" using "4.prems"(2) validate_mono [OF f1(2)] by (rule agree_mono)
  show ?case using 4(1) [OF f1(1) g] 4(2) [OF f1 "4.prems"(2)] by (rule alike_binary)
next
  case (7 key dot e property path direct f)
  then obtain f1 where f1: "validate key property f = Inr f1"
    "validateAccess key e (property_name property # path) (direct \<and> dot) f1 = Inr f'" by auto
  have "agree lib (set (found_secrets f1)) a b"
    using "7.prems"(2) validateAccess_mono [OF f1(2)] by (rule agree_mono)
  then have p: "alike lib a b property" using 7(1) [OF f1(1)] by simp
  note IH = 7(2) [OF f1 "7.prems"(2)]
  show ?case
  proof (cases "e = EContext ''secrets''")
    case True
    with IH have valid: "validEnvName (property_name property)"
      and reported: "map upper_char (property_name property) \<in> set (found_secrets f')" by auto
    obtain n where n: "property = ELiteral (Text n)" using property_name_valid [OF valid] by blast
    then have up: "map upper_char n \<in> set (found_secrets f')" using reported by (simp add: property_name_def)
    show ?thesis
      using secret_access [OF "7.prems"(2) up] by (simp add: alike_def fun_eq_iff True n del: access.simps)
  next
    case False
    with IH p show ?thesis by (simp add: alike_access)
  qed
next
  case (8 key op l r path direct f)
  show ?case
  proof (cases "op = ''&&'' \<or> op = ''||''")
    case True
    with 8(4) obtain f1 where f1: "validateAccess key l path False f = Inr f1" "validateAccess key r path False f1 = Inr f'"
      by auto
    have g: "agree lib (set (found_secrets f1)) a b" using "8.prems"(2) validateAccess_mono [OF f1(2)] by (rule agree_mono)
    have "alike lib a b l" "alike lib a b r"
      using 8(1) [OF True f1(1) g] 8(2) [OF True f1 "8.prems"(2)] by (simp_all split: if_splits)
    then show ?thesis by (simp add: alike_binary)
  next
    case False
    with 8(4) have "validate key (EBinary op l r) f = Inr f'" by (simp only: validateAccess.simps if_False)
    then show ?thesis using 8(3) [OF False _ "8.prems"(2)] by simp
  qed
next
  case (9 key root path direct f)
  show ?case
  proof (cases "root = ''secrets''")
    case True
    then show ?thesis using 9 validateRoot_path by simp
  next
    case False
    then show ?thesis using context_agree [OF 9(2) False] by (simp add: alike_def fun_eq_iff)
  qed
next
  case (14 key e es f)
  then obtain f1 where f1: "validate key e f = Inr f1" "validateAll key es f1 = Inr f'" by auto
  have g: "agree lib (set (found_secrets f1)) a b" using "14.prems"(2) validateAll_mono [OF f1(2)] by (rule agree_mono)
  show ?case using 14(1) [OF f1(1) g] 14(2) [OF f1 "14.prems"(2)] by (rule alike_args)
qed (auto simp: alike_def fun_eq_iff split: if_splits)

end
