(* ===== verification/ExpressionTemplate.thy ===== *)
theory ExpressionTemplate
  imports ExpressionCheck
begin

text \<open>The parts of a template (\<open>templateParts\<close> of \<open>internal/actions/expression.go\<close>): what their list can be, and that it determines the text.\<close>

subsection \<open>Templates and their parts\<close>

abbreviation open_mark :: bytes where "open_mark \<equiv> ''${{''"

lemma cut_at_None: "cut_at p s = None \<longleftrightarrow> \<not> contains_str p s"
  by (induction p s rule: cut_at.induct) auto

lemma cut_at_opening: "\<not> contains_str open_mark t \<Longrightarrow> cut_at open_mark (t @ open_mark @ r) = Some (t, r)"
proof (induction t)
  case (Cons c t)
  have "\<not> prefix open_mark (c # t @ open_mark @ r)"
  proof
    assume "prefix open_mark (c # t @ open_mark @ r)"
    then have "prefix open_mark (c # t)" by (cases t; cases "tl t") (auto simp: prefix_def)
    then show False using Cons.prems by simp
  qed
  then show ?case using Cons by simp
qed simp

lemma cut_at_before: "cut_at open_mark s = Some (a, b) \<Longrightarrow> \<not> contains_str open_mark a"
proof (induction s arbitrary: a)
  case (Cons c s)
  show ?case
  proof (cases "prefix open_mark (c # s)")
    case True
    then show ?thesis using Cons.prems by simp
  next
    case False
    with Cons.prems obtain a' where a': "a = c # a'" "cut_at open_mark s = Some (a', b)" by auto
    then have "s = a' @ open_mark @ b" by (rule_tac cut_at_append)
    then have "\<not> prefix open_mark (c # a')" using False by (auto simp: prefix_def)
    then show ?thesis using Cons.IH [OF a'(2)] a'(1) by simp
  qed
qed simp

definition render_part :: "templatePart \<Rightarrow> bytes" where
  "render_part p = (if part_expr p then open_mark @ part_text p @ ''}}'' else part_text p)"

lemma render_part_simps [simp]:
  "part_expr p \<Longrightarrow> render_part p = open_mark @ part_text p @ ''}}''"
  "\<not> part_expr p \<Longrightarrow> render_part p = part_text p"
  by (simp_all add: render_part_def)

definition closed_expr :: "bytes \<Rightarrow> bool" where
  "closed_expr e \<longleftrightarrow> closing False (e @ ''}}'') = Some (e, [])"

lemma closing_rest: "closing q s = Some (a, b) \<Longrightarrow> closing q (a @ ''}}'' @ r) = Some (a, r)"
proof (induction q s arbitrary: a rule: closing.induct)
  case (1 inside c d s)
  show ?case
  proof (cases "c = quote")
    case True
    show ?thesis
    proof (cases "inside \<and> d = quote")
      case True
      with "1.prems" \<open>c = quote\<close> obtain t where t: "a = c # d # t" "closing inside s = Some (t, b)" by auto
      show ?thesis using "1.IH"(1) [OF \<open>c = quote\<close> True t(2)] True \<open>c = quote\<close> by (simp add: t(1))
    next
      case False
      with "1.prems" True obtain t where t: "a = c # t" "closing (\<not> inside) (d # s) = Some (t, b)" by auto
      note IH = "1.IH"(2) [OF True False t(2)]
      have "\<not> (inside \<and> hd (t @ ''}}'') = quote)"
        using False closing_append [OF t(2)] by (cases t) (auto simp: quote_def)
      then show ?thesis using IH True by (cases t) (auto simp: t(1) quote_def)
    qed
  next
    case c: False
    show ?thesis
    proof (cases "\<not> inside \<and> c = CHR ''}'' \<and> d = CHR ''}''")
      case True
      then show ?thesis using "1.prems" c by (auto simp: quote_def)
    next
      case False
      with "1.prems" c obtain t where t: "a = c # t" "closing inside (d # s) = Some (t, b)" by auto
      note IH = "1.IH"(3) [OF c False t(2)]
      have "\<not> (\<not> inside \<and> c = CHR ''}'' \<and> hd (t @ ''}}'') = CHR ''}'')"
        using False closing_append [OF t(2)] IH by (cases t) auto
      then show ?thesis using IH c by (cases t) (auto simp: t(1))
    qed
  qed
qed simp_all

text \<open>
  The lists of parts a template can have: no two texts in a row, no empty text beside other
  parts, no opening braces in a text, and every expression closed by the first braces behind it.
\<close>

fun canonical :: "bool \<Rightarrow> templatePart list \<Rightarrow> bool" where
  "canonical first [] \<longleftrightarrow> \<not> first"
| "canonical first (p # ps) \<longleftrightarrow>
     (if part_expr p then closed_expr (part_text p) \<and> canonical False ps
      else \<not> contains_str open_mark (part_text p) \<and>
        (if ps = [] then part_text p \<noteq> [] \<or> first
         else part_text p \<noteq> [] \<and> part_expr (hd ps) \<and> canonical False ps))"

lemma template_loop_sound:
  "template_loop first s = Inr parts \<Longrightarrow> s = concat (map render_part parts) \<and> canonical first parts"
proof (induction first s arbitrary: parts rule: template_loop.induct)
  case (1 first s)
  show ?case
  proof (cases "cut_at open_mark s")
    case None
    then have "\<not> contains_str open_mark s" using cut_at_None by blast
    then show ?thesis using "1.prems" None
      by (auto simp: template_loop.simps [of first s] split: if_splits)
  next
    case (Some ba)
    then obtain before after where cut: "cut_at open_mark s = Some (before, after)" by (cases ba) auto
    with "1.prems" obtain e rest ps where c: "closing False after = Some (e, rest)" "template_loop False rest = Inr ps"
      and parts: "parts = (if before \<noteq> [] then [\<lparr>part_text = before, part_expr = False\<rparr>] else []) @
        \<lparr>part_text = e, part_expr = True\<rparr> # ps"
      by (subst (asm) template_loop.simps) (auto split: option.splits)
    from "1.IH" cut c have IH: "rest = concat (map render_part ps)" "canonical False ps" by auto
    have "closed_expr e" using closing_rest [OF c(1), of "[]"] by (simp add: closed_expr_def)
    then show ?thesis
      using IH cut_at_append [OF cut] closing_append [OF c(1)] cut_at_before [OF cut]
      by (auto simp: parts)
  qed
qed

lemma template_loop_complete:
  "canonical first parts \<Longrightarrow> template_loop first (concat (map render_part parts)) = Inr parts"
proof (induction first parts rule: canonical.induct)
  case (1 first)
  then show ?case by (simp add: template_loop.simps)
next
  case (2 first p ps)
  have step: "template_loop f (t @ open_mark @ e @ ''}}'' @ r) =
      bindE (template_loop False r) (\<lambda>parts. Inr ((if t \<noteq> [] then [\<lparr>part_text = t, part_expr = False\<rparr>] else []) @
        \<lparr>part_text = e, part_expr = True\<rparr> # parts))"
    if "\<not> contains_str open_mark t" "closed_expr e" for f t e r
    using cut_at_opening [OF that(1), of "e @ ''}}'' @ r"] closing_rest [OF that(2) [unfolded closed_expr_def], of r]
    by (subst template_loop.simps) simp
  show ?case
  proof (cases "part_expr p")
    case True
    then show ?thesis using 2 step [of "[]" "part_text p" first] by auto
  next
    case False
    show ?thesis
    proof (cases ps)
      case Nil
      then have "cut_at open_mark (part_text p) = None" using "2.prems" False by (simp add: cut_at_None split: if_splits)
      then show ?thesis using "2.prems" False Nil
        by (subst template_loop.simps) auto
    next
      case (Cons q qs)
      then have q: "part_expr q" "closed_expr (part_text q)" "canonical False qs" using "2.prems" False by auto
      have tail: "template_loop False (concat (map render_part ps)) = Inr ps" using 2 False Cons by auto
      have "template_loop False (concat (map render_part qs)) = Inr qs"
        using trans [OF step [of "[]" "part_text q" False "concat (map render_part qs)", symmetric], of "Inr (q # qs)"]
          tail q by (auto simp: Cons)
      then show ?thesis using step [of "part_text p" "part_text q" first "concat (map render_part qs)"] "2.prems" False q
        by (auto simp: Cons)
    qed
  qed
qed

text \<open>
  C7. \<open>templateParts\<close> finds the parts of a template exactly: a list of parts is its result if and
  only if the list is canonical and the parts, the expressions in their braces, put together are
  the text. So nothing of a template is lost or read twice, and texts that hold no expression
  stay as they are.
\<close>

theorem templateParts_exact:
  "templateParts s = Inr parts \<longleftrightarrow> s = concat (map render_part parts) \<and> canonical True parts"
  unfolding templateParts_def using template_loop_sound template_loop_complete by blast

end
