(* ===== verification/ExpressionScan.thy ===== *)
theory ExpressionScan
  imports ExpressionEval
begin

text \<open>
  The search for a status function in the text of a condition (\<open>hasStatusFunction\<close> of
  \<open>internal/actions/conditions.go\<close>), and what it sees of the tokens the lexer of expressions
  reads from the same text.
\<close>

subsection \<open>The search in the text\<close>

definition identifierByte :: "char \<Rightarrow> bool" where
  "identifierByte c \<longleftrightarrow> c = CHR ''_'' \<or> is_lower c \<or> is_upper c \<or> is_digit c"

text \<open>\<open>unicode.IsSpace\<close> of a single byte.\<close>

definition space_byte :: "char \<Rightarrow> bool" where
  "space_byte c \<longleftrightarrow> c \<in> {CHR 0x09, CHR 0x0A, CHR 0x0B, CHR 0x0C, CHR 0x0D, CHR 0x20, CHR 0x85, CHR 0xA0}"

definition call_follows :: "bytes \<Rightarrow> bool" where
  "call_follows s \<longleftrightarrow> prefix ''('' (dropWhile space_byte s)"

function status_scan :: "bool \<Rightarrow> bytes \<Rightarrow> bool" where
  "status_scan inside [] = False"
| "status_scan inside (c # s) =
     (if c = quote then
        (if inside \<and> prefix [quote] s then status_scan inside (tl s) else status_scan (\<not> inside) s)
      else if inside \<or> \<not> identifierByte c then status_scan inside s
      else
        (ascii_lower (c # takeWhile identifierByte s) \<in> set status_functions \<and>
           call_follows (dropWhile identifierByte s)) \<or>
        status_scan inside (dropWhile identifierByte s))"
  by pat_completeness auto
termination
  by (relation "measure (\<lambda>(inside, s). length s)") (auto simp: le_imp_less_Suc length_dropWhile_le)

declare status_scan.simps(2) [simp del]

definition hasStatusFunction :: "bytes \<Rightarrow> bool" where
  "hasStatusFunction s = status_scan False s"

subsection \<open>The search along the tokens\<close>

lemma scan_plain: "c \<noteq> quote \<Longrightarrow> \<not> identifierByte c \<Longrightarrow> status_scan False (c # s) = status_scan False s"
  by (simp add: status_scan.simps(2))

lemma scan_quote: "status_scan False (quote # s) = status_scan True s"
  by (simp add: status_scan.simps(2))

lemma scan_skip: "list_all (\<lambda>c. c \<noteq> quote \<and> \<not> identifierByte c) p \<Longrightarrow> status_scan False (p @ s) = status_scan False s"
  by (induction p) (simp_all add: scan_plain)

lemma scan_quoted: "quoted s = Some (v, r) \<Longrightarrow> status_scan True s = status_scan False r"
proof (induction s arbitrary: v rule: quoted.induct)
  case (2 c cs)
  show ?case
  proof (cases "c = quote")
    case False
    then show ?thesis using 2 by (auto simp: status_scan.simps(2))
  next
    case True
    then show ?thesis using 2 by (cases cs) (auto simp: status_scan.simps(2) split: if_splits)
  qed
qed simp

definition last_part :: "bytes \<Rightarrow> bytes" where
  "last_part w = rev (takeWhile identifierByte (rev w))"

definition status_name :: "bytes \<Rightarrow> bool" where
  "status_name w \<longleftrightarrow> ascii_lower w \<in> set status_functions"

lemma identifierByte_part: "identifier_part c \<longleftrightarrow> identifierByte c \<or> c = CHR ''-''"
  by (auto simp: identifier_part_def identifierByte_def asciiLetter_def)

lemma quote_no_identifier: "\<not> identifier_part quote" "\<not> identifierByte quote"
  by (simp_all add: identifier_part_def identifierByte_def asciiLetter_def quote_def char_defs byte_def)

lemma minus_no_byte: "\<not> identifierByte (CHR ''-'')" "CHR ''-'' \<noteq> quote"
  by (simp_all add: identifierByte_def quote_def char_defs byte_def)


lemma call_follows_minus: "\<not> call_follows (CHR ''-'' # s)"
  by (simp add: call_follows_def space_byte_def)

lemma last_part_minus: "last_part (u @ CHR ''-'' # v) = last_part v"
proof -
  have "takeWhile identifierByte (rev v @ CHR ''-'' # rev u) = takeWhile identifierByte (rev v)"
    using minus_no_byte(1) takeWhile_eq_all_conv [THEN iffD2, of "rev v" identifierByte, symmetric]
    by (auto simp: takeWhile_append takeWhile_tail simp del: takeWhile_eq_all_conv)
  then show ?thesis by (simp add: last_part_def)
qed

lemma last_part_all: "list_all identifierByte w \<Longrightarrow> last_part w = w"
  by (simp add: last_part_def list_all_iff takeWhile_eq_all_conv [THEN iffD2])

lemma status_name_Nil [simp]: "\<not> status_name []"
  by (simp add: status_name_def status_functions_def ascii_lower_def)

text \<open>A word of the lexer may be several words of the search, and only the last can be a call.\<close>

lemma scan_word:
  assumes "list_all identifier_part w" and "rest = [] \<or> \<not> identifier_part (hd rest)"
  shows "status_scan False (w @ rest) \<longleftrightarrow> status_name (last_part w) \<and> call_follows rest \<or> status_scan False rest"
  using assms(1)
proof (induction "length w" arbitrary: w rule: less_induct)
  case less
  show ?case
  proof (cases w)
    case Nil
    then show ?thesis by (simp add: last_part_def)
  next
    case (Cons c v)
    show ?thesis
    proof (cases "c = CHR ''-''")
      case True
      then show ?thesis
        using less minus_no_byte last_part_minus [of "[]" v] by (simp add: Cons scan_plain)
    next
      case False
      then have c: "identifierByte c" "c \<noteq> quote" using less.prems quote_no_identifier by (auto simp: Cons identifierByte_part)
      have rest: "rest = [] \<or> \<not> identifierByte (hd rest)" using assms(2) identifierByte_part by blast
      show ?thesis
      proof (cases "list_all identifierByte v")
        case True
        then have "takeWhile identifierByte (v @ rest) = v" "dropWhile identifierByte (v @ rest) = rest"
          using rest by (cases rest; simp add: list_all_iff takeWhile_append dropWhile_append)+
        moreover have "last_part w = w" using True c by (simp add: Cons last_part_all)
        ultimately show ?thesis using c by (simp add: Cons status_scan.simps(2) status_name_def)
      next
        case v: False
        define u where "u = takeWhile identifierByte v"
        obtain x t where t: "dropWhile identifierByte v = x # t" "\<not> identifierByte x"
          using v by (metis dropWhile_eq_Nil_conv hd_dropWhile list.collapse list_all_iff list.sel(1))
        have split: "v = u @ x # t" using t(1) takeWhile_dropWhile_id [of identifierByte v] by (simp add: u_def)
        then have "identifier_part x" using less.prems by (simp add: Cons)
        then have x: "x = CHR ''-''" using t(2) identifierByte_part by blast
        have "takeWhile identifierByte (v @ rest) = u" "dropWhile identifierByte (v @ rest) = x # t @ rest"
          using t v by (auto simp: u_def takeWhile_append dropWhile_append list_all_iff)
        then have "status_scan False (w @ rest) \<longleftrightarrow> status_scan False ((x # t) @ rest)"
          using c call_follows_minus x by (simp add: Cons status_scan.simps(2))
        moreover have "last_part w = last_part (x # t)"
          using last_part_minus [of "c # u" t] last_part_minus [of "[]" t] by (simp add: Cons split x)
        moreover have "length (x # t) < length w" "list_all identifier_part (x # t)"
          using less.prems by (simp_all add: Cons split)
        ultimately show ?thesis using less.hyps [of "x # t"] by simp
      qed
    qed
  qed
qed


definition scan_state :: "'n expressionParser \<Rightarrow> bool" where
  "scan_state p \<longleftrightarrow>
     (case ps_token p of Identifier w \<Rightarrow> status_name (last_part w) \<and> call_follows (ps_rest p) | _ \<Rightarrow> False) \<or>
     status_scan False (ps_rest p)"

text \<open>A literal that ends in the middle of a word of the search; no accepted expression has one.\<close>

definition glued :: "'n expressionParser \<Rightarrow> bool" where
  "glued p \<longleftrightarrow> (\<exists>v. ps_token p = Literal v) \<and> ps_rest p \<noteq> [] \<and> identifierByte (hd (ps_rest p))"

text \<open>The tokens that can follow a complete operand.\<close>

definition ends :: "'n expressionParser \<Rightarrow> bool" where
  "ends p \<longleftrightarrow> (case ps_token p of NoToken \<Rightarrow> True | Operator op \<Rightarrow> op \<noteq> ''('' | _ \<Rightarrow> False)"

lemma ends_not_glued: "ends p \<Longrightarrow> \<not> glued p"
  by (auto simp: ends_def glued_def)

lemma blank_plain: "blank_byte c \<Longrightarrow> c \<noteq> quote \<and> \<not> identifierByte c"
  by (auto simp: blank_byte_def quote_def identifierByte_def char_defs byte_def)

lemma scan_blanks: "status_scan False s = status_scan False (dropWhile blank_byte s)"
proof -
  have "list_all (\<lambda>c. c \<noteq> quote \<and> \<not> identifierByte c) (takeWhile blank_byte s)"
    using blank_plain by (auto simp: list_all_iff dest: set_takeWhileD)
  from scan_skip [OF this, of "dropWhile blank_byte s"] show ?thesis by simp
qed

lemma number_bytes: "number_part c \<Longrightarrow> byte c \<notin> {76, 83, 108, 115}"
  by (auto simp: number_part_def byte_def)

lemma number_word:
  assumes "list_all number_part w"
  shows "\<not> status_name w"
proof
  assume w: "status_name w"
  have "\<forall>x \<in> set status_functions. CHR ''s'' \<in> set x \<or> CHR ''l'' \<in> set x"
    by (simp add: status_functions_def)
  then have "CHR ''s'' \<in> set (ascii_lower w) \<or> CHR ''l'' \<in> set (ascii_lower w)"
    using w unfolding status_name_def by blast
  then obtain c where c: "c \<in> set w" "lower_char c = CHR ''s'' \<or> lower_char c = CHR ''l''" by (auto simp: ascii_lower_def)
  then have "byte (lower_char c) \<in> {115, 108}" by (auto simp: byte_def)
  then have "byte c \<in> {76, 83, 108, 115}" by (auto simp: byte_lower_char split: if_splits)
  moreover have "number_part c" using c(1) assms by (simp add: list_all_iff)
  ultimately show False using number_bytes by blast
qed

lemma run_end:
  "rest = [] \<or> \<not> P (hd rest) \<Longrightarrow>
     takeWhile P (v @ rest) = takeWhile P v \<and> dropWhile P (v @ rest) = dropWhile P v @ rest"
  by (induction v) (cases rest; auto)+

lemma scan_number:
  assumes "list_all number_part w" and "rest = [] \<or> \<not> identifierByte (hd rest)"
  shows "status_scan False (w @ rest) = status_scan False rest"
  using assms(1)
proof (induction "length w" arbitrary: w rule: less_induct)
  case less
  show ?case
  proof (cases w)
    case (Cons c v)
    have q: "c \<noteq> quote" using less.prems by (auto simp: Cons number_part_def quote_def)
    show ?thesis
    proof (cases "identifierByte c")
      case False
      then show ?thesis using less q by (simp add: Cons scan_plain)
    next
      case True
      let ?u = "takeWhile identifierByte v" and ?d = "dropWhile identifierByte v"
      have split: "takeWhile identifierByte (v @ rest) = ?u" "dropWhile identifierByte (v @ rest) = ?d @ rest"
        using run_end [of rest identifierByte v] assms(2) by blast+
      have "list_all number_part (c # ?u)" "list_all number_part ?d"
        using less.prems by (auto simp: Cons list_all_iff dest: set_takeWhileD set_dropWhileD)
      moreover have "length ?d < length w" by (simp add: Cons le_imp_less_Suc length_dropWhile_le)
      ultimately show ?thesis
        using less.hyps [of ?d] True q number_word [of "c # ?u"] split
        by (simp add: Cons status_scan.simps(2) status_name_def)
    qed
  qed simp
qed

lemma lower_identifier: "is_lower (lower_char c) \<Longrightarrow> identifierByte c"
  by (auto simp: identifierByte_def is_lower_def is_upper_def byte_lower_char split: if_splits)

lemma literal_word:
  assumes "word_token w \<noteq> Identifier w"
  shows "\<not> status_name (last_part w)"
proof -
  define l where "l = ascii_lower w"
  have l: "l \<in> {''true'', ''false'', ''null''}" using assms unfolding word_token_def Let_def l_def [symmetric] by (simp split: if_split_asm)
  then have "\<forall>x \<in> set l. is_lower x" by (elim insertE emptyE) (simp_all add: is_lower_def byte_def)
  then have "list_all identifierByte w" by (auto simp: l_def ascii_lower_def list_all_iff lower_identifier)
  moreover have "l \<notin> set status_functions" using l by (elim insertE emptyE) (simp_all add: status_functions_def)
  ultimately show ?thesis by (simp add: last_part_all status_name_def l_def)
qed


lemma digit_part:
  assumes "is_digit c" shows "number_part c"
proof -
  have "48 \<le> byte c" "byte c \<le> 57" using assms by (simp_all add: is_digit_def)
  then have "byte c \<in> {48, 49, 50, 51, 52, 53, 54, 55, 56, 57}" by (simp, presburger)
  then have "byte c \<in> byte ` set ''0123456789''" by (simp add: byte_def)
  then have "c \<in> set ''0123456789''" by (metis byte_eq_iff imageE)
  then show ?thesis unfolding number_part_def by (elim set_mp [rotated]) simp
qed

lemma minus_part: "number_part (CHR ''-'')"
  by (simp add: number_part_def)

lemma list_all_takeWhile: "list_all P (takeWhile P s)"
  by (induction s) auto

lemma start_part: "identifier_start b \<Longrightarrow> identifier_part b" "identifier_start b \<Longrightarrow> identifierByte b"
  by (auto simp: identifier_start_def identifier_part_def identifierByte_def asciiLetter_def)

text \<open>The first byte behind the blanks decides the token.\<close>

lemma next_token_cases:
  assumes "next_token fl key s = Inr (tok, rest)"
  obtains (eof) "dropWhile blank_byte s = []" "tok = NoToken" "rest = []"
  | (quoted) t v where "dropWhile blank_byte s = quote # t" "quoted t = Some (v, rest)" "tok = Literal (Text v)"
  | (word) w where "dropWhile blank_byte s = w @ rest" "w \<noteq> []" "list_all identifier_part w" "rest = [] \<or> \<not> identifier_part (hd rest)"
      "identifierByte (hd w)" "tok = word_token w"
  | (number) w n where "dropWhile blank_byte s = w @ rest" "w \<noteq> []" "list_all number_part w" "rest = [] \<or> \<not> number_part (hd rest)"
      "tok = Literal (Float n)" "is_digit (hd w) \<or> hd w = CHR ''-''"
  | (pair) b c where "dropWhile blank_byte s = b # c # rest" "[b, c] \<in> set pairs" "tok = Operator [b, c]"
  | (single) b where "dropWhile blank_byte s = b # rest" "b \<in> set single_operators" "tok = Operator [b]"
proof (cases "dropWhile blank_byte s")
  case Nil
  have "Inr (NoToken, []) = (Inr (tok, rest) :: xerror + _)" using assms unfolding next_token_def Nil by simp
  then show ?thesis using eof [OF Nil] by simp
next
  case (Cons b t)
  note step = assms [unfolded next_token_def Cons list.case]
  have hd_drop: "dropWhile P t = [] \<or> \<not> P (hd (dropWhile P t))" for P
    using hd_dropWhile by blast
  show ?thesis
  proof (cases "b = quote")
    case True
    then show ?thesis using step quoted [of t] Cons by (auto split: option.splits)
  next
    case q: False
    show ?thesis
    proof (cases "identifier_start b")
      case True
      have r: "rest = dropWhile identifier_part t" "tok = word_token (b # takeWhile identifier_part t)"
        using step True q by simp_all
      show ?thesis
        by (rule word [of "b # takeWhile identifier_part t"])
          (use r True hd_drop [of identifier_part] in \<open>simp_all add: Cons start_part list_all_takeWhile\<close>)
    next
      case w: False
      show ?thesis
      proof (cases "is_digit b \<or> b = CHR ''-''")
        case True
        then have "number_part b" using digit_part minus_part by blast
        moreover obtain n where r: "rest = dropWhile number_part t" "tok = Literal (Float n)"
          using step True q w by (auto split: option.splits)
        ultimately show ?thesis using True
          by (intro number [of "b # takeWhile number_part t" n])
            (use hd_drop [of number_part] in \<open>simp_all add: Cons list_all_takeWhile\<close>)
      next
        case False
        show ?thesis
        proof (cases "t \<noteq> [] \<and> [b, hd t] \<in> set pairs")
          case True
          then have "rest = tl t" "tok = Operator [b, hd t]" using step q w False by simp_all
          then show ?thesis using pair [of b "hd t"] True Cons by simp
        next
          case one: False
          then have "b \<in> set single_operators" using step q w False by (simp split: if_split_asm)
          then show ?thesis using step q w False one single [of b] Cons by (simp split: if_split_asm)
        qed
      qed
    qed
  qed
qed


lemma operator_plain:
  "b \<in> set single_operators \<Longrightarrow> b \<noteq> quote \<and> \<not> identifierByte b"
  "[b, c] \<in> set pairs \<Longrightarrow> (b \<noteq> quote \<and> \<not> identifierByte b) \<and> (c \<noteq> quote \<and> \<not> identifierByte c)"
  by (auto simp: single_operators_def pairs_def quote_def identifierByte_def char_defs byte_def)

lemma word_token_cases: "word_token w = Identifier w \<or> (\<exists>v. word_token w = Literal v)"
  by (simp add: word_token_def Let_def)

lemma next_scan:
  assumes "next_tok fl key p = Inr q" and "\<not> glued q"
  shows "status_scan False (ps_rest p) = scan_state q"
proof -
  obtain tok rest where n: "next_token fl key (ps_rest p) = Inr (tok, rest)" and q: "q = \<lparr>ps_rest = rest, ps_token = tok\<rparr>"
    using assms(1) by (auto simp: next_tok_def)
  let ?s = "dropWhile blank_byte (ps_rest p)"
  from n have "status_scan False ?s = scan_state q"
  proof (cases rule: next_token_cases)
    case eof
    show ?thesis unfolding eof(1) by (simp add: q eof scan_state_def)
  next
    case (quoted t v)
    then show ?thesis by (simp add: q scan_state_def scan_quote scan_quoted)
  next
    case (word w)
    have kinds: "tok = Identifier w \<or> (\<exists>v. tok = Literal v)" unfolding word(6) by (rule word_token_cases)
    show ?thesis
    proof (cases "tok = Identifier w")
      case True
      then show ?thesis using scan_word [OF word(3,4)] word(1) by (simp add: q scan_state_def)
    next
      case False
      then obtain v where "tok = Literal v" using kinds by blast
      then show ?thesis
        using scan_word [OF word(3,4)] literal_word [OF False [unfolded word(6)]] word(1) by (simp add: q scan_state_def)
    qed
  next
    case (number w n)
    then have "rest = [] \<or> \<not> identifierByte (hd rest)" using assms(2) by (auto simp: q glued_def)
    from scan_number [OF number(3) this] show ?thesis using number by (simp add: q scan_state_def)
  next
    case (pair b c)
    then show ?thesis using operator_plain(2) [OF pair(2)] by (simp add: q scan_state_def scan_plain)
  next
    case (single b)
    then show ?thesis using operator_plain(1) [OF single(2)] by (simp add: q scan_state_def scan_plain)
  qed
  then show ?thesis using scan_blanks by blast
qed

lemma next_ends:
  assumes "next_tok fl key p = Inr q" and "ends q"
  shows "\<not> glued p"
proof
  assume "glued p"
  then obtain b s where b: "ps_rest p = b # s" "identifierByte b" by (cases "ps_rest p") (auto simp: glued_def)
  have "\<not> blank_byte b" using b(2) blank_plain by blast
  then have d: "dropWhile blank_byte (ps_rest p) = b # s" by (simp add: b(1))
  obtain tok rest where n: "next_token fl key (ps_rest p) = Inr (tok, rest)" and q: "q = \<lparr>ps_rest = rest, ps_token = tok\<rparr>"
    using assms(1) by (auto simp: next_tok_def)
  from n show False
  proof (cases rule: next_token_cases)
    case (word w)
    have "tok = Identifier w \<or> (\<exists>v. tok = Literal v)" unfolding word(6) by (rule word_token_cases)
    then show False using assms(2) by (auto simp: q ends_def)
  next
    case (pair x c)
    then show False using d b(2) operator_plain(2) [OF pair(2)] by simp
  next
    case (single x)
    then show False using d b(2) operator_plain(1) [OF single(2)] by simp
  qed (use d assms(2) in \<open>auto simp: q ends_def\<close>)
qed

lemma space_token:
  assumes "space_byte b" and "\<not> blank_byte b"
  shows "b \<noteq> quote" "\<not> identifier_part b" "\<not> number_part b" "b \<notin> set single_operators" "[b, c] \<notin> set pairs"
proof -
  have "b \<in> {CHR 0x0B, CHR 0x0C, CHR 0x85, CHR 0xA0}" using assms unfolding space_byte_def blank_byte_def by blast
  then show "b \<noteq> quote" "\<not> identifier_part b" "\<not> number_part b" "b \<notin> set single_operators" "[b, c] \<notin> set pairs"
    by (elim insertE emptyE; simp add: quote_def identifier_part_def asciiLetter_def char_defs byte_def
      number_part_def single_operators_def pairs_def)+
qed

lemma blank_space: "blank_byte c \<Longrightarrow> space_byte c"
  by (auto simp: blank_byte_def space_byte_def)

lemma call_follows_blank: "call_follows s \<longleftrightarrow> call_follows (dropWhile blank_byte s)"
  by (induction s) (auto simp: call_follows_def blank_space)

lemma next_call:
  assumes "next_tok fl key p = Inr q"
  shows "ps_token q = Operator ''('' \<longleftrightarrow> call_follows (ps_rest p)"
proof -
  obtain tok rest where n: "next_token fl key (ps_rest p) = Inr (tok, rest)" and q: "q = \<lparr>ps_rest = rest, ps_token = tok\<rparr>"
    using assms(1) by (auto simp: next_tok_def)
  let ?s = "dropWhile blank_byte (ps_rest p)"
  have first: "space_byte (hd ?s) \<Longrightarrow> ?s \<noteq> [] \<Longrightarrow> False"
    using n by (cases rule: next_token_cases)
      (use space_token [of "hd ?s"] hd_dropWhile [of blank_byte "ps_rest p"] in \<open>auto simp: list_all_iff\<close>)
  have "call_follows ?s \<longleftrightarrow> ?s \<noteq> [] \<and> hd ?s = CHR ''(''"
    using first by (cases ?s) (auto simp: call_follows_def prefix_def simp del: dropWhile_eq_Nil_conv)
  moreover from n have "tok = Operator ''('' \<longleftrightarrow> ?s \<noteq> [] \<and> hd ?s = CHR ''(''"
  proof (cases rule: next_token_cases)
    case (word w)
    have "tok = Identifier w \<or> (\<exists>v. tok = Literal v)" unfolding word(6) by (rule word_token_cases)
    then show ?thesis using word(1,2,5) by (cases w) (auto simp: identifierByte_def char_defs byte_def)
  next
    case (number w n)
    then show ?thesis by (cases w) (auto simp: char_defs byte_def)
  next
    case (pair b c)
    then show ?thesis by (auto simp: pairs_def)
  qed (auto simp: quote_def)
  ultimately show ?thesis using call_follows_blank [of "ps_rest p"] by (simp add: q)
qed

end
