(* ===== verification/ExpressionConditions.thy ===== *)
theory ExpressionConditions
  imports ExpressionScan
begin

text \<open>
  The conditions of steps (\<open>stepCondition\<close> of \<open>internal/actions/conditions.go\<close>, and the evaluator
  of \<open>internal/checkrun/actions_host.go\<close>, which the runner repeats). \<open>tracks\<close> follows the parser
  over the text: on every accepted expression the search and the parser see the same status
  functions, so the condition of a step is what \<open>EvalIf\<close> says.
\<close>

subsection \<open>The condition of a step\<close>

definition condition_value :: "('n, 'm) library_scheme \<Rightarrow> 'n gvalue \<Rightarrow> bool" where
  "condition_value lib v =
     (case v of
        Null \<Rightarrow> False
      | Boolean b \<Rightarrow> b
      | Text s \<Rightarrow> s \<noteq> []
      | Integer i \<Rightarrow> i \<noteq> 0
      | Float n \<Rightarrow> nonzero lib n
      | _ \<Rightarrow> True)"

definition stepCondition ::
    "('n, 'm) library_scheme \<Rightarrow> bytes \<Rightarrow> bool \<Rightarrow> (bytes \<Rightarrow> bytes \<Rightarrow> xerror + 'n gvalue) option \<Rightarrow> xerror + bool" where
  "stepCondition lib s successful evaluator =
     (if \<not> hasStatusFunction s \<and> \<not> successful then Inr False
      else if TrimSpace s = [] then Inr successful
      else case evaluator of
        None \<Rightarrow>
          (if lowered (TrimSpace s) = ''true'' then Inr True
           else if lowered (TrimSpace s) = ''false'' then Inr False
           else Inl (NoEvaluator ''step.if''))
      | Some eval \<Rightarrow> bindE (eval ''step.if'' s) (\<lambda>v. Inr (condition_value lib v)))"

definition flag :: "(bytes \<times> 'n gvalue) list \<Rightarrow> bytes \<Rightarrow> bool" where
  "flag values name = (case lookup values name of Boolean b \<Rightarrow> b | _ \<Rightarrow> False)"

definition workflowContext :: "nat \<Rightarrow> (bytes \<times> 'n gvalue) list \<Rightarrow> 'n EvalContext" where
  "workflowContext i values = \<lparr>ctx_id = i, ctx_Values = values, ctx_Success = flag values ''success'',
     ctx_Failure = flag values ''failure'', ctx_Cancelled = flag values ''cancelled''\<rparr>"

definition workflowEvaluator ::
    "('n, 'm) library_scheme \<Rightarrow> nat \<Rightarrow> nat \<Rightarrow> (bytes \<times> 'n gvalue) list \<Rightarrow> bytes \<Rightarrow> bytes \<Rightarrow> xerror + 'n gvalue" where
  "workflowEvaluator lib fresh i values key s =
     (if key = ''step.if'' then Eval lib fresh s key (workflowContext i values)
      else EvalTemplate lib fresh s key (workflowContext i values))"

subsection \<open>The search along the parser\<close>

definition good :: "'n expressionParser \<Rightarrow> bool" where
  "good p \<longleftrightarrow> (\<forall>w. ps_token p = Identifier w \<longrightarrow> list_all identifier_part w) \<and>
     (ps_token p = NoToken \<longrightarrow> ps_rest p = [])"

definition names_ok :: "'n expression \<Rightarrow> bool" where
  "names_ok e \<longleftrightarrow> (\<forall>c \<in> calls e. arguments (fst c) \<noteq> None)"

lemma names_ok_simps [simp]:
  "names_ok (ECall name args) \<longleftrightarrow> arguments name \<noteq> None \<and> (\<forall>e \<in> set args. names_ok e)"
  "names_ok (ELiteral v)" "names_ok (EContext root)" "names_ok (EAccess dot e p) \<longleftrightarrow> names_ok e \<and> names_ok p"
  "names_ok (ENot e) \<longleftrightarrow> names_ok e" "names_ok (EBinary op l r) \<longleftrightarrow> names_ok l \<and> names_ok r"
  by (auto simp: names_ok_def)

lemma calls_status_simps [simp]:
  "calls_status (ECall name args) \<longleftrightarrow> name \<in> set status_functions \<or> (\<exists>e \<in> set args. calls_status e)"
  "\<not> calls_status (ELiteral v)" "\<not> calls_status (EContext root)"
  "calls_status (EAccess dot e p) \<longleftrightarrow> calls_status e \<or> calls_status p"
  "calls_status (ENot e) \<longleftrightarrow> calls_status e" "calls_status (EBinary op l r) \<longleftrightarrow> calls_status l \<or> calls_status r"
  by (auto simp: calls_status_def)

lemma next_good: "next_tok fl key p = Inr q \<Longrightarrow> good q"
proof -
  assume "next_tok fl key p = Inr q"
  then obtain tok rest where n: "next_token fl key (ps_rest p) = Inr (tok, rest)" and q: "q = \<lparr>ps_rest = rest, ps_token = tok\<rparr>"
    by (auto simp: next_tok_def)
  from n show ?thesis
  proof (cases rule: next_token_cases)
    case (word w)
    have "tok = Identifier w \<or> (\<exists>v. tok = Literal v)" unfolding word(6) by (rule word_token_cases)
    then show ?thesis using word(3) by (auto simp: good_def q)
  qed (simp_all add: good_def q)
qed

lemma function_name:
  assumes "arguments (ascii_lower w) \<noteq> None" and "list_all identifier_part w"
  shows "last_part w = w"
proof -
  have "\<forall>x \<in> {n. arguments n \<noteq> None}. CHR ''-'' \<notin> set x"
    by (auto simp: arguments_def status_functions_def split: if_split_asm)
  then have "CHR ''-'' \<notin> set (ascii_lower w)" using assms(1) by blast
  moreover have "lower_char (CHR ''-'') = CHR ''-''" by (simp add: lower_char_def is_upper_def byte_def)
  ultimately have "CHR ''-'' \<notin> set w" by (force simp: ascii_lower_def)
  then have "list_all identifierByte w" using assms(2) by (auto simp: list_all_iff identifierByte_part)
  then show ?thesis by (rule last_part_all)
qed

definition tracks :: "'n floats \<Rightarrow> bytes \<Rightarrow> nat \<Rightarrow> bool" where
  "tracks fl key n \<longleftrightarrow>
     (\<forall>low depth p e q. parse n fl key low depth p = Inr (e, q) \<longrightarrow> 0 < low \<and> good p \<and> ends q \<and> names_ok e \<longrightarrow>
        \<not> glued p \<and> good q \<and> (scan_state p \<longleftrightarrow> calls_status e \<or> scan_state q)) \<and>
     (\<forall>depth p e q. parse_primary n fl key depth p = Inr (e, q) \<longrightarrow> good p \<and> ends q \<and> names_ok e \<longrightarrow>
        \<not> glued p \<and> good q \<and> (scan_state p \<longleftrightarrow> calls_status e \<or> scan_state q)) \<and>
     (\<forall>depth p es q. parse_args n fl key depth p = Inr (es, q) \<longrightarrow> good p \<and> ends q \<and> (\<forall>e \<in> set es. names_ok e) \<longrightarrow>
        \<not> glued p \<and> good q \<and> (scan_state p \<longleftrightarrow> (\<exists>e \<in> set es. calls_status e) \<or> scan_state q)) \<and>
     (\<forall>depth p e' e d q. parse_postfix n fl key depth e' p = Inr (e, d, q) \<longrightarrow> ends q \<and> names_ok e \<longrightarrow>
        ends p \<and> names_ok e' \<and> (good p \<longrightarrow> good q) \<and> (calls_status e' \<or> scan_state p \<longleftrightarrow> calls_status e \<or> scan_state q)) \<and>
     (\<forall>low depth p e' e q. parse_binary n fl key low depth e' p = Inr (e, q) \<longrightarrow> 0 < low \<and> ends q \<and> names_ok e \<longrightarrow>
        ends p \<and> names_ok e' \<and> (good p \<longrightarrow> good q) \<and> (calls_status e' \<or> scan_state p \<longleftrightarrow> calls_status e \<or> scan_state q))"

lemma tracksD:
  assumes "tracks fl key n"
  shows "parse n fl key low depth p = Inr (e, q) \<Longrightarrow> 0 < low \<and> good p \<and> ends q \<and> names_ok e \<Longrightarrow>
      \<not> glued p \<and> good q \<and> (scan_state p \<longleftrightarrow> calls_status e \<or> scan_state q)"
    and "parse_primary n fl key depth p = Inr (e, q) \<Longrightarrow> good p \<and> ends q \<and> names_ok e \<Longrightarrow>
      \<not> glued p \<and> good q \<and> (scan_state p \<longleftrightarrow> calls_status e \<or> scan_state q)"
    and "parse_args n fl key depth p = Inr (es, q) \<Longrightarrow> good p \<and> ends q \<and> (\<forall>e \<in> set es. names_ok e) \<Longrightarrow>
      \<not> glued p \<and> good q \<and> (scan_state p \<longleftrightarrow> (\<exists>e \<in> set es. calls_status e) \<or> scan_state q)"
    and "parse_postfix n fl key depth e' p = Inr (e, d, q) \<Longrightarrow> ends q \<and> names_ok e \<Longrightarrow>
      ends p \<and> names_ok e' \<and> (good p \<longrightarrow> good q) \<and> (calls_status e' \<or> scan_state p \<longleftrightarrow> calls_status e \<or> scan_state q)"
    and "parse_binary n fl key low depth e' p = Inr (e, q) \<Longrightarrow> 0 < low \<and> ends q \<and> names_ok e \<Longrightarrow>
      ends p \<and> names_ok e' \<and> (good p \<longrightarrow> good q) \<and> (calls_status e' \<or> scan_state p \<longleftrightarrow> calls_status e \<or> scan_state q)"
proof -
  note t = assms [unfolded tracks_def]
  show "parse n fl key low depth p = Inr (e, q) \<Longrightarrow> 0 < low \<and> good p \<and> ends q \<and> names_ok e \<Longrightarrow>
      \<not> glued p \<and> good q \<and> (scan_state p \<longleftrightarrow> calls_status e \<or> scan_state q)"
    by (rule t [THEN conjunct1, rule_format])
  show "parse_primary n fl key depth p = Inr (e, q) \<Longrightarrow> good p \<and> ends q \<and> names_ok e \<Longrightarrow>
      \<not> glued p \<and> good q \<and> (scan_state p \<longleftrightarrow> calls_status e \<or> scan_state q)"
    by (rule t [THEN conjunct2, THEN conjunct1, rule_format])
  show "parse_args n fl key depth p = Inr (es, q) \<Longrightarrow> good p \<and> ends q \<and> (\<forall>e \<in> set es. names_ok e) \<Longrightarrow>
      \<not> glued p \<and> good q \<and> (scan_state p \<longleftrightarrow> (\<exists>e \<in> set es. calls_status e) \<or> scan_state q)"
    by (rule t [THEN conjunct2, THEN conjunct2, THEN conjunct1, rule_format])
  show "parse_postfix n fl key depth e' p = Inr (e, d, q) \<Longrightarrow> ends q \<and> names_ok e \<Longrightarrow>
      ends p \<and> names_ok e' \<and> (good p \<longrightarrow> good q) \<and> (calls_status e' \<or> scan_state p \<longleftrightarrow> calls_status e \<or> scan_state q)"
    by (rule t [THEN conjunct2, THEN conjunct2, THEN conjunct2, THEN conjunct1, rule_format])
  show "parse_binary n fl key low depth e' p = Inr (e, q) \<Longrightarrow> 0 < low \<and> ends q \<and> names_ok e \<Longrightarrow>
      ends p \<and> names_ok e' \<and> (good p \<longrightarrow> good q) \<and> (calls_status e' \<or> scan_state p \<longleftrightarrow> calls_status e \<or> scan_state q)"
    by (rule t [THEN conjunct2, THEN conjunct2, THEN conjunct2, THEN conjunct2, rule_format])
qed


lemma scan_operator: "ps_token p = Operator op \<Longrightarrow> scan_state p = status_scan False (ps_rest p)"
  by (simp add: scan_state_def)

text \<open>Reading on over an operator, to a state that is not glued.\<close>

lemma scan_next: "ps_token p = Operator op \<Longrightarrow> next_tok fl key p = Inr q \<Longrightarrow> \<not> glued q \<Longrightarrow> scan_state p = scan_state q"
  using next_scan [of fl key p q] by (simp add: scan_operator)

lemma ends_operator: "ps_token p = Operator op \<Longrightarrow> op \<noteq> ''('' \<Longrightarrow> ends p"
  by (simp add: ends_def)

lemma parse_tracks:
  assumes n: "tracks fl key n" and p: "parse (Suc n) fl key low depth p = Inr (e, q)" "0 < low \<and> good p \<and> ends q \<and> names_ok e"
  shows "\<not> glued p \<and> good q \<and> (scan_state p \<longleftrightarrow> calls_status e \<or> scan_state q)"
proof -
  from p(1) obtain e1 p1 e2 d p2 where s: "parse_primary n fl key depth p = Inr (e1, p1)"
    "parse_postfix n fl key depth e1 p1 = Inr (e2, d, p2)" "parse_binary n fl key low d e2 p2 = Inr (e, q)"
    by (auto simp: parse.simps split: if_splits)
  note b = tracksD(5) [OF n s(3)]
  note f = tracksD(4) [OF n s(2)]
  show ?thesis using tracksD(2) [OF n s(1)] b f p(2) by argo
qed

lemma primary_tracks:
  assumes n: "tracks fl key n" and p: "parse_primary (Suc n) fl key depth p = Inr (e, q)" "good p \<and> ends q \<and> names_ok e"
  shows "\<not> glued p \<and> good q \<and> (scan_state p \<longleftrightarrow> calls_status e \<or> scan_state q)"
proof (cases "ps_token p")
  case NoToken
  then show ?thesis using p(1) by (simp add: parse_primary.simps)
next
  case (Literal v)
  then have s: "next_tok fl key p = Inr q" "e = ELiteral v" using p(1) by (auto simp: parse_primary.simps)
  have "scan_state p = status_scan False (ps_rest p)" using Literal by (simp add: scan_state_def)
  then show ?thesis using next_ends [OF s(1)] next_scan [OF s(1)] next_good [OF s(1)] ends_not_glued [of q] p(2) by (simp add: s(2))
next
  case (Operator op)
  note op = scan_next [OF Operator]
  have g: "\<not> glued p" using Operator by (simp add: glued_def)
  from p(1) Operator consider
      (neg) c p1 where "next_tok fl key p = Inr p1" "parse n fl key 5 (depth + 1) p1 = Inr (c, q)" "e = ENot c"
    | (group) p1 p2 where "next_tok fl key p = Inr p1" "parse n fl key 1 (depth + 1) p1 = Inr (e, p2)"
        "ps_token p2 = Operator '')''" "next_tok fl key p2 = Inr q"
    by (auto simp: parse_primary.simps take_tok_Inr split: if_splits)
  then show ?thesis
  proof cases
    case neg
    have "\<not> glued p1 \<and> good q \<and> (scan_state p1 \<longleftrightarrow> calls_status c \<or> scan_state q)"
      using tracksD(1) [OF n neg(2)] next_good [OF neg(1)] p(2) neg(3) by simp
    then show ?thesis using op [OF neg(1)] g by (simp add: neg(3))
  next
    case group
    have "\<not> glued p1 \<and> (scan_state p1 \<longleftrightarrow> calls_status e \<or> scan_state p2)"
      using tracksD(1) [OF n group(2)] next_good [OF group(1)] p(2) ends_operator [OF group(3)] by simp
    moreover have "scan_state p2 = scan_state q" using scan_next [OF group(3,4)] p(2) ends_not_glued by blast
    ultimately show ?thesis using op [OF group(1)] g next_good [OF group(4)] by simp
  qed
next
  case (Identifier name)
  have g: "\<not> glued p" using Identifier by (simp add: glued_def)
  have scan: "scan_state p \<longleftrightarrow> status_name (last_part name) \<and> call_follows (ps_rest p) \<or> status_scan False (ps_rest p)"
    by (simp add: scan_state_def Identifier)
  from p(1) Identifier consider
      (call) p1 p2 args p3 where "next_tok fl key p = Inr p1" "ps_token p1 = Operator ''(''" "next_tok fl key p1 = Inr p2"
        "parse_args n fl key depth p2 = Inr (args, p3)" "ps_token p3 = Operator '')''" "next_tok fl key p3 = Inr q"
        "e = ECall (ascii_lower name) args"
    | (root) "next_tok fl key p = Inr q" "ps_token q \<noteq> Operator ''(''" "e = EContext (ascii_lower name)"
    by (auto simp: parse_primary.simps take_tok_Inr split: if_splits)
  then show ?thesis
  proof cases
    case call
    have "\<not> glued p2 \<and> (scan_state p2 \<longleftrightarrow> (\<exists>e \<in> set args. calls_status e) \<or> scan_state p3)"
      using tracksD(3) [OF n call(4)] next_good [OF call(3)] p(2) ends_operator [OF call(5)] call(7) by simp
    moreover have "scan_state p3 = scan_state q" using scan_next [OF call(5,6)] p(2) ends_not_glued by blast
    moreover have "last_part name = name"
      using function_name [of name] p(2) Identifier by (simp add: call(7) good_def)
    moreover have "status_scan False (ps_rest p) = scan_state p1"
      using next_scan [OF call(1)] call(2) by (simp add: glued_def)
    ultimately show ?thesis
      using scan next_call [OF call(1)] call(2) scan_next [OF call(2,3)] g next_good [OF call(6)] by (auto simp: call(7) status_name_def)
  next
    case root
    then show ?thesis using scan next_call [OF root(1)] next_scan [OF root(1)] next_good [OF root(1)] ends_not_glued [of q] g p(2)
      by (simp add: root(3))
  qed
qed

lemma args_tracks:
  assumes n: "tracks fl key n" and p: "parse_args (Suc n) fl key depth p = Inr (es, q)"
    "good p \<and> ends q \<and> (\<forall>e \<in> set es. names_ok e)"
  shows "\<not> glued p \<and> good q \<and> (scan_state p \<longleftrightarrow> (\<exists>e \<in> set es. calls_status e) \<or> scan_state q)"
proof -
  from p(1) consider (none) "ps_token p = Operator '')''" "es = []" "q = p"
    | (last) arg where "parse n fl key 1 (depth + 1) p = Inr (arg, q)" "es = [arg]"
    | (more) arg p1 p2 args where "parse n fl key 1 (depth + 1) p = Inr (arg, p1)" "ps_token p1 = Operator '',''"
        "next_tok fl key p1 = Inr p2" "parse_args n fl key depth p2 = Inr (args, q)" "es = arg # args"
    by (auto simp: parse_args.simps split: if_splits)
  then show ?thesis
  proof cases
    case none
    then show ?thesis using p(2) by (simp add: glued_def)
  next
    case last
    then show ?thesis using tracksD(1) [OF n last(1)] p(2) by simp
  next
    case more
    have "\<not> glued p2 \<and> good q \<and> (scan_state p2 \<longleftrightarrow> (\<exists>e \<in> set args. calls_status e) \<or> scan_state q)"
      using tracksD(3) [OF n more(4)] next_good [OF more(3)] p(2) more(5) by simp
    moreover have "\<not> glued p \<and> (scan_state p \<longleftrightarrow> calls_status arg \<or> scan_state p1)"
      using tracksD(1) [OF n more(1)] p(2) ends_operator [OF more(2)] more(5) by simp
    ultimately show ?thesis using scan_next [OF more(2,3)] by (simp add: more(5))
  qed
qed

lemma postfix_tracks:
  assumes n: "tracks fl key n" and p: "parse_postfix (Suc n) fl key depth e' p = Inr (e, d, q)" "ends q \<and> names_ok e"
  shows "ends p \<and> names_ok e' \<and> (good p \<longrightarrow> good q) \<and> (calls_status e' \<or> scan_state p \<longleftrightarrow> calls_status e \<or> scan_state q)"
proof -
  from p(1) consider (dot) name p1 p2 where "ps_token p = Operator ''.''" "next_tok fl key p = Inr p1"
        "ps_token p1 = Identifier name" "next_tok fl key p1 = Inr p2"
        "parse_postfix n fl key (depth + 1) (EAccess True e' (ELiteral (Text name))) p2 = Inr (e, d, q)"
    | (index) p1 property p2 p3 where "ps_token p = Operator ''[''" "next_tok fl key p = Inr p1"
        "parse n fl key 1 (depth + 1) p1 = Inr (property, p2)" "ps_token p2 = Operator '']''" "next_tok fl key p2 = Inr p3"
        "parse_postfix n fl key (depth + 1) (EAccess False e' property) p3 = Inr (e, d, q)"
    | (stop) "e = e'" "q = p"
    by (auto simp: parse_postfix.simps take_tok_Inr identifier_Inr split: if_splits)
  then show ?thesis
  proof cases
    case dot
    have r: "ends p2 \<and> names_ok e' \<and> good q \<and> (calls_status e' \<or> scan_state p2 \<longleftrightarrow> calls_status e \<or> scan_state q)"
      using tracksD(4) [OF n dot(5)] next_good [OF dot(4)] p(2) by simp
    then have "\<not> call_follows (ps_rest p1)" using next_call [OF dot(4)] by (auto simp: ends_def)
    then have "scan_state p1 = status_scan False (ps_rest p1)" by (simp add: scan_state_def dot(3))
    also have "\<dots> = scan_state p2" using next_scan [OF dot(4)] r ends_not_glued by blast
    finally have "scan_state p = scan_state p2" using scan_next [OF dot(1,2)] by (simp add: glued_def dot(3))
    then show ?thesis using r ends_operator [OF dot(1)] by simp
  next
    case index
    have r: "ends p3 \<and> names_ok e' \<and> names_ok property \<and> good q \<and>
        (calls_status e' \<or> calls_status property \<or> scan_state p3 \<longleftrightarrow> calls_status e \<or> scan_state q)"
      using tracksD(4) [OF n index(6)] next_good [OF index(5)] p(2) by simp
    then have "\<not> glued p1 \<and> (scan_state p1 \<longleftrightarrow> calls_status property \<or> scan_state p2)"
      using tracksD(1) [OF n index(3)] next_good [OF index(2)] ends_operator [OF index(4)] by simp
    moreover have "scan_state p2 = scan_state p3" using scan_next [OF index(4,5)] r ends_not_glued by blast
    ultimately show ?thesis using r scan_next [OF index(1,2)] ends_operator [OF index(1)] by simp
  next
    case stop
    then show ?thesis using p(2) by simp
  qed
qed

lemma precedence_operator:
  assumes "0 < precedence tok"
  shows "\<exists>op. tok = Operator op \<and> op \<noteq> ''(''"
proof (cases tok)
  case (Operator op)
  then have "op \<noteq> ''(''" using assms by (auto simp: precedence_def)
  then show ?thesis using Operator by blast
qed (use assms in \<open>auto simp: precedence_def\<close>)

lemma binary_tracks:
  assumes n: "tracks fl key n" and p: "parse_binary (Suc n) fl key low depth e' p = Inr (e, q)" "0 < low \<and> ends q \<and> names_ok e"
  shows "ends p \<and> names_ok e' \<and> (good p \<longrightarrow> good q) \<and> (calls_status e' \<or> scan_state p \<longleftrightarrow> calls_status e \<or> scan_state q)"
proof -
  from p(1) consider (op) p1 right p2 where "low \<le> precedence (ps_token p)" "next_tok fl key p = Inr p1"
        "parse n fl key (precedence (ps_token p) + 1) (depth + 1) p1 = Inr (right, p2)"
        "parse_binary n fl key low depth (EBinary (operator_text (ps_token p)) e' right) p2 = Inr (e, q)"
    | (stop) "e = e'" "q = p"
    by (auto simp: parse_binary.simps split: if_splits)
  then show ?thesis
  proof cases
    case op
    obtain o1 where o1: "ps_token p = Operator o1" "o1 \<noteq> ''(''" using op(1) p(2) precedence_operator by (metis less_le_trans)
    have r: "ends p2 \<and> names_ok e' \<and> names_ok right \<and> (good p2 \<longrightarrow> good q) \<and>
        (calls_status e' \<or> calls_status right \<or> scan_state p2 \<longleftrightarrow> calls_status e \<or> scan_state q)"
      using tracksD(5) [OF n op(4)] p(2) by simp
    then have "\<not> glued p1 \<and> good p2 \<and> (scan_state p1 \<longleftrightarrow> calls_status right \<or> scan_state p2)"
      using tracksD(1) [OF n op(3)] next_good [OF op(2)] by simp
    then show ?thesis using r scan_next [OF o1(1) op(2)] ends_operator [OF o1] by blast
  next
    case stop
    then show ?thesis using p(2) by simp
  qed
qed

lemma tracks: "tracks fl key n"
proof (induction n)
  case 0
  then show ?case
    by (simp add: tracks_def parse.simps parse_primary.simps parse_args.simps parse_postfix.simps parse_binary.simps)
next
  case (Suc n)
  show ?case unfolding tracks_def
    using parse_tracks [OF Suc] primary_tracks [OF Suc] args_tracks [OF Suc] postfix_tracks [OF Suc] binary_tracks [OF Suc]
    by (intro conjI) presburger+
qed


subsection \<open>Conditions of accepted expressions\<close>

text \<open>Around an expression, white space and the delimiters hold nothing the search looks for.\<close>

definition outside :: "char \<Rightarrow> bool" where
  "outside c \<longleftrightarrow> c \<noteq> quote \<and> \<not> identifierByte c \<and> c \<noteq> CHR ''(''"

lemma call_follows_suffix: "list_all outside r \<Longrightarrow> call_follows (s @ r) = call_follows s"
proof (induction s)
  case Nil
  then have "\<not> call_follows r" by (induction r) (auto simp: call_follows_def outside_def)
  then show ?case by (simp add: call_follows_def)
qed (simp add: call_follows_def)

lemma scan_suffix:
  assumes r: "list_all outside r"
  shows "status_scan inside (s @ r) = status_scan inside s"
proof (induction inside s rule: status_scan.induct)
  case (1 inside)
  show ?case using r by (induction r) (auto simp: status_scan.simps(2) outside_def)
next
  case (2 inside c s)
  have h: "r = [] \<or> \<not> identifierByte (hd r)" "r = [] \<or> hd r \<noteq> quote"
    using r by (cases r; simp add: outside_def)+
  have quoted: "prefix [quote] (s @ r) = prefix [quote] s" "prefix [quote] s \<Longrightarrow> tl (s @ r) = tl s @ r"
    using h(2) by (cases s; cases r; auto)+
  show ?case
    using 2 run_end [of r identifierByte s] h(1) quoted call_follows_suffix [OF r, of "dropWhile identifierByte s"]
    by (cases inside; cases "c = quote"; cases "prefix [quote] s") (simp_all add: status_scan.simps(2))
qed

lemma scan_prefix: "list_all outside r \<Longrightarrow> status_scan False (r @ s) = status_scan False s"
  by (rule scan_skip) (auto simp: list_all_iff outside_def)

lemma strip_front_parts: "\<exists>p. s = p @ strip_front ws s \<and> set p \<subseteq> \<Union> (set ` set ws)"
proof (induction ws s rule: strip_front.induct)
  case (1 ws s)
  show ?case
  proof (cases "List.find (\<lambda>w. w \<noteq> [] \<and> prefix w s) ws")
    case None
    then show ?thesis by (intro exI [of _ "[]"]) (simp add: strip_front.simps [of ws s])
  next
    case (Some w)
    then obtain p where p: "drop (length w) s = p @ strip_front ws (drop (length w) s)" "set p \<subseteq> \<Union> (set ` set ws)"
      using 1 by blast
    have w: "w \<in> set ws" "prefix w s" using Some by (auto simp: find_Some_iff)
    then have "s = (w @ p) @ strip_front ws s"
      using p(1) Some by (simp add: strip_front.simps [of ws s]) (metis append_take_drop_id prefix_def append_eq_conv_conj)
    then show ?thesis using p(2) w(1) by (intro exI [of _ "w @ p"]) auto
  qed
qed

lemma space_outside: "\<forall>w \<in> set space_runes. list_all outside w"
  by (simp add: space_runes_def outside_def quote_def identifierByte_def char_defs byte_def)

lemma scan_trim: "status_scan False (TrimSpace s) = status_scan False s"
proof -
  let ?m = "strip_front space_runes s"
  obtain p where p: "s = p @ ?m" "set p \<subseteq> \<Union> (set ` set space_runes)"
    using strip_front_parts by blast
  obtain q where q: "rev ?m = q @ rev (TrimSpace s)" "set q \<subseteq> \<Union> (set ` set (map rev space_runes))"
    using strip_front_parts [of "rev ?m" "map rev space_runes"] by (auto simp: TrimSpace_def)
  have m: "?m = TrimSpace s @ rev q" using q(1) by (metis rev_append rev_rev_ident)
  have "list_all outside p" "list_all outside (rev q)"
    using p(2) q(2) space_outside by (fastforce simp: list_all_iff)+
  then show ?thesis using scan_prefix [of p ?m] scan_suffix [of "rev q" False "TrimSpace s"] p(1) m by simp
qed

lemma delimiters:
  assumes "prefix ''${{'' t" and "suffix ''}}'' t"
  shows "t = ''${{'' @ take (length t - 5) (drop 3 t) @ ''}}''"
proof -
  obtain u where u: "t = ''${{'' @ u" using assms(1) by (auto simp: prefix_def)
  obtain v where v: "u = v @ ''}}''"
    using assms(2) by (auto simp: suffix_def u Cons_eq_append_conv)
  show ?thesis by (simp add: u v)
qed

lemma scan_expression_text: "status_scan False (expression_text s) = status_scan False s"
proof (cases "prefix ''${{'' (TrimSpace s) \<and> suffix ''}}'' (TrimSpace s)")
  case True
  let ?t = "TrimSpace s" and ?u = "take (length (TrimSpace s) - 5) (drop 3 (TrimSpace s))"
  have "list_all outside ''${{''" "list_all outside ''}}''"
    by (simp_all add: outside_def quote_def identifierByte_def char_defs byte_def)
  then have "status_scan False (''${{'' @ ?u @ ''}}'') = status_scan False ?u"
    using scan_prefix [of "''${{''" "?u @ ''}}''"] scan_suffix [of "''}}''" False ?u] by simp
  then have "status_scan False ?t = status_scan False ?u" using delimiters True by metis
  then show ?thesis using True by (simp add: expression_text_def Let_def scan_trim)
next
  case False
  then show ?thesis by (auto simp: expression_text_def Let_def scan_trim)
qed

lemma scan_parse:
  assumes "parse_text fl key t = Inr e" and "names_ok e"
  shows "status_scan False t \<longleftrightarrow> calls_status e"
proof -
  obtain p q where p: "next_tok fl key \<lparr>ps_rest = t, ps_token = NoToken\<rparr> = Inr p"
    "parse (3 * length t + 2) fl key 1 0 p = Inr (e, q)" "ps_token q = NoToken"
    using assms(1) by (auto simp: parse_text_def parse_with_def split: if_splits)
  have "ends q" using p(3) by (simp add: ends_def)
  then have s: "\<not> glued p \<and> good q \<and> (scan_state p \<longleftrightarrow> calls_status e \<or> scan_state q)"
    using tracksD(1) [OF tracks p(2)] next_good [OF p(1)] assms(2) by simp
  moreover from s p(3) have "\<not> scan_state q" by (simp add: good_def scan_state_def)
  ultimately show ?thesis using next_scan [OF p(1)] by simp
qed


lemma accepted_status:
  assumes "compileExpression fl s key = Inr (e, f)"
  shows "hasStatusFunction s \<longleftrightarrow> found_status f"
proof -
  have c: "parse_text fl key (expression_text s) = Inr e" "validate key e no_findings = Inr f"
    using assms by (auto simp: compileExpression_def split: if_splits)
  from validate_calls(1) [OF c(2)] have "names_ok e" "found_status f \<longleftrightarrow> calls_status e"
    by (auto simp: checked_def names_ok_def call_ok_def calls_status_def no_findings_def)
  then show ?thesis using scan_parse [OF c(1)] scan_expression_text by (simp add: hasStatusFunction_def)
qed

lemma condition_native: "(\<And>t. nativeValue v \<noteq> JsonNumber t) \<Longrightarrow> condition_value lib (nativeValue v) = Truthy lib v"
  by (cases v) (auto simp: condition_value_def Truthy_def)

text \<open>
  C5. The runner decides about a step as the language does. For a condition \<open>step.if\<close> that is
  accepted, \<open>hasStatusFunction\<close> finds a status function in the text exactly when the parser saw a
  call of one, and \<open>stepCondition\<close> with the evaluator of the runners gives the answer of
  \<open>EvalIf\<close>, the implicit \<open>success()\<close> included: the same truth value or the same error. The one
  exception is a value that is a \<open>json.Number\<close>, which no context of the runners holds.
\<close>

theorem step_condition_agrees:
  assumes "compileExpression (floats.truncate lib) s ''step.if'' = Inr (e, f)"
    and "\<And>t. workflowEvaluator lib fresh i values ''step.if'' s \<noteq> Inr (JsonNumber t)"
  shows "(hasStatusFunction s \<longleftrightarrow> found_status f) \<and>
    stepCondition lib s (flag values ''success'') (Some (workflowEvaluator lib fresh i values)) =
      EvalIf lib fresh s ''step.if'' (workflowContext i values)"
proof
  show status: "hasStatusFunction s \<longleftrightarrow> found_status f" by (rule accepted_status [OF assms(1)])
  let ?ctx = "workflowContext i values" and ?st = "\<lparr>ev_steps = 0, ev_fresh = fresh\<rparr>"
  define r where "r = bindE (prepareContext lib ?ctx ?st) (\<lambda>(ctx, st). evaluate lib ctx e st)"
  have run: "workflowEvaluator lib fresh i values ''step.if'' s = bindE r (\<lambda>(v, _). Inr (nativeValue v))"
    by (simp add: workflowEvaluator_def Eval_def assms(1) r_def bindE_def split: sum.split prod.split)
  have truth: "condition_value lib (nativeValue v) = Truthy lib v" if "r = Inr (v, st)" for v st
    using assms(2) that by (intro condition_native) (auto simp: run)
  have "bindE (workflowEvaluator lib fresh i values ''step.if'' s) (\<lambda>v. Inr (condition_value lib v)) =
      bindE r (\<lambda>(v, _). Inr (Truthy lib v))"
    unfolding run using truth by (cases r) auto
  then show "stepCondition lib s (flag values ''success'') (Some (workflowEvaluator lib fresh i values)) =
      EvalIf lib fresh s ''step.if'' ?ctx"
    using status
    by (simp add: stepCondition_def EvalIf_def assms(1) workflowContext_def r_def bindE_def split: sum.splits prod.splits)
qed

end
