(* ===== verification/ExpressionProps.thy ===== *)
theory ExpressionProps
  imports ExpressionErrors ExpressionSecrets ExpressionTemplate ExpressionConditions
begin

text \<open>
  The properties of the expression language that span its theories, with the concrete library of
  their witnesses: whole numbers for \<open>float64\<close>, and ASCII letters for the case folding.
\<close>

definition whole_numbers :: "int option library" where
  "whole_numbers = \<lparr>fl_ParseFloat = (\<lambda>s. (Atoi s, Atoi s \<noteq> None)),
     fl_Format = (\<lambda>n. case n of None \<Rightarrow> ''NaN'' | Some i \<Rightarrow> show_int i),
     fl_of_int = Some, fl_trunc = (\<lambda>n. case n of None \<Rightarrow> 0 | Some i \<Rightarrow> i),
     fl_less = (\<lambda>a b. case (a, b) of (Some x, Some y) \<Rightarrow> x < y | _ \<Rightarrow> False),
     fl_equal = (\<lambda>a b. case (a, b) of (Some x, Some y) \<Rightarrow> x = y | _ \<Rightarrow> False),
     fl_IsNaN = (\<lambda>n. n = None), fl_IsInf = (\<lambda>_. False), fl_NaN = None,
     lib_ToLower = ascii_lower, lib_EqualFold = (\<lambda>a b. ascii_lower a = ascii_lower b),
     lib_Valid = (\<lambda>s. Atoi s \<noteq> None), lib_Unmarshal = (\<lambda>s. map_option (\<lambda>i. Float (Some i)) (Atoi s)),
     lib_Encode = (\<lambda>_. None)\<rparr>"

definition whole_floats :: "int option floats" where
  "whole_floats = floats.truncate whole_numbers"

definition deployed :: "bytes \<Rightarrow> int option EvalContext" where
  "deployed other = \<lparr>ctx_id = 0, ctx_Values = [(''secrets'', Object 1 [(''A'', Text ''key''), (''B'', Text other)])],
     ctx_Success = True, ctx_Failure = False, ctx_Cancelled = False\<rparr>"

lemmas limits = tick_def visit_node_def settle_def spend_def MaxEvaluationSteps_def MaxExpressionDepth_def MaxValueBytes_def

lemma compiled:
  assumes "compileExpression fl s key = Inr (e, f)"
  shows "parse_text fl key (expression_text s) = Inr e" and "validate key e no_findings = Inr f"
  using assms by (auto simp: compileExpression_def split: if_splits)

lemma parse_text_known:
  assumes "parse_text fl key t = Inr e"
  shows "known e"
  using assms by (auto simp: parse_text_def parse_with_def split: if_splits dest: builds_knownD(1) [OF builds_known])

lemma token_root: "validateRoot key root path direct g = Inr g' \<Longrightarrow> ''GITHUB_TOKEN'' \<notin> set (found_secrets g) \<Longrightarrow>
    ''GITHUB_TOKEN'' \<notin> set (found_secrets g')"
  by (auto simp: validateRoot_def Let_def split: if_splits)

lemma token_call: "validateCall key name n g = Inr g' \<Longrightarrow> ''GITHUB_TOKEN'' \<notin> set (found_secrets g) \<Longrightarrow>
    ''GITHUB_TOKEN'' \<notin> set (found_secrets g')"
  by (simp add: validateCall_secrets)

lemma no_token: "validate key e no_findings = Inr f \<Longrightarrow> ''GITHUB_TOKEN'' \<notin> set (found_secrets f)"
  by (rule validate_keeps(1) [where P = "\<lambda>_ g. ''GITHUB_TOKEN'' \<notin> set (found_secrets g)", OF token_root token_call])
    (auto simp: no_findings_def)

lemma if_root: "validateRoot key root path direct g = Inr g' \<Longrightarrow> isIfKey key \<longrightarrow> found_secrets g = [] \<Longrightarrow>
    isIfKey key \<longrightarrow> found_secrets g' = []"
  by (auto simp: validateRoot_def Let_def split: if_splits)

lemma if_call: "validateCall key name n g = Inr g' \<Longrightarrow> isIfKey key \<longrightarrow> found_secrets g = [] \<Longrightarrow>
    isIfKey key \<longrightarrow> found_secrets g' = []"
  by (simp add: validateCall_secrets)

lemma if_reports_none: "validate key e no_findings = Inr f \<Longrightarrow> isIfKey key \<longrightarrow> found_secrets f = []"
  by (rule validate_keeps(1) [where P = "\<lambda>key g. isIfKey key \<longrightarrow> found_secrets g = []", OF if_root if_call])
    (auto simp: no_findings_def)

text \<open>
  C8. Reading an expression always ends: \<open>compileExpression\<close> never runs out of the fuel of
  the model, the fuel it gives the parser is as good as any larger one, and so its answer, an
  expression or a refusal, is the answer of the unbounded loops of the code.
\<close>

theorem compile_returns:
  "compileExpression fl s key \<noteq> Inl NoFuel \<and> parse_with (3 * length t + 2 + k) fl key t = parse_text fl key t"
proof
  show "compileExpression fl s key \<noteq> Inl NoFuel"
    by (auto simp: compileExpression_def bindE_eq_Inl parse_text_fuel validate_fuel)
qed (rule parse_with_more)

text \<open>
  C4. An accepted expression reads no secret it does not report. Its evaluation is the same in
  any two contexts that agree on everything but secrets, and on the secrets whose names
  \<open>validate\<close> reported, found as the evaluator finds them. Reported names are environment names,
  the token of GitHub is never one, and in the conditions of jobs and steps there is none.
\<close>

theorem unreported_secrets_unread:
  assumes "compileExpression fl s key = Inr (e, f)" and "agree lib (set (found_secrets f)) a b"
  shows "evaluate lib a e st = evaluate lib b e st \<and> ''GITHUB_TOKEN'' \<notin> set (found_secrets f) \<and>
    (isIfKey key \<longrightarrow> found_secrets f = [])"
proof (intro conjI impI)
  have v: "validate key e no_findings = Inr f" by (rule compiled(2) [OF assms(1)])
  show "evaluate lib a e st = evaluate lib b e st"
    using evaluate_agree(1) [OF v assms(2)] by (simp add: alike_def)
  show "''GITHUB_TOKEN'' \<notin> set (found_secrets f)"
    by (rule no_token [OF v])
  show "found_secrets f = []" if "isIfKey key"
    using if_reports_none [OF v] that by simp
qed

lemma lower_b_upper_A: "lower_char CHR ''B'' = lower_char c \<Longrightarrow> upper_char c \<noteq> CHR ''A''"
proof
  assume c: "lower_char CHR ''B'' = lower_char c" "upper_char c = CHR ''A''"
  then have "byte (lower_char c) = 98" using byte_lower_char [of "CHR ''B''"] by (simp add: byte_def is_upper_def)
  then have "byte c = 66 \<or> byte c = 98" by (auto simp: byte_lower_char split: if_splits)
  then have "byte (upper_char c) = 66" by (auto simp: upper_char_def is_lower_def byte_def)
  then show False using c(2) by (simp add: byte_def)
qed

lemma unreported_secrets_unread_witness:
  "evaluate whole_numbers (deployed ''x'') (EAccess True (EContext ''secrets'') (ELiteral (Text ''A'')))
       \<lparr>ev_steps = 0, ev_fresh = 2\<rparr> =
     evaluate whole_numbers (deployed ''y'') (EAccess True (EContext ''secrets'') (ELiteral (Text ''A'')))
       \<lparr>ev_steps = 0, ev_fresh = 2\<rparr> \<and>
   evaluate whole_numbers (deployed ''x'') (EAccess True (EContext ''secrets'') (ELiteral (Text ''A'')))
       \<lparr>ev_steps = 0, ev_fresh = 2\<rparr> = Inr (Text ''key'', \<lparr>ev_steps = 3, ev_fresh = 2\<rparr>)"
proof -
  have c: "compileExpression whole_floats ''secrets.A'' ''step.run'' =
      Inr (EAccess True (EContext ''secrets'') (ELiteral (Text ''A'')), \<lparr>found_status = False, found_secrets = [''A'']\<rparr>)"
    by code_simp
  have "same_secrets whole_numbers {''A''} [(''A'', Text ''key''), (''B'', Text ''x'')] [(''A'', Text ''key''), (''B'', Text ''y'')]"
    using lower_b_upper_A by (auto simp: same_secrets_def whole_numbers_def ascii_lower_def)
  then have a: "agree whole_numbers (set (found_secrets \<lparr>found_status = False, found_secrets = [''A'']\<rparr>))
      (deployed ''x'') (deployed ''y'')"
    by (simp add: agree_def deployed_def lookup_def)
  have v: "evaluate whole_numbers (deployed ''x'') (EAccess True (EContext ''secrets'') (ELiteral (Text ''A'')))
       \<lparr>ev_steps = 0, ev_fresh = 2\<rparr> = Inr (Text ''key'', \<lparr>ev_steps = 3, ev_fresh = 2\<rparr>)"
    by (simp add: deployed_def lookup_def propertyValue_def objectProperty_def checkedExpressionValue_def ScalarString_def
        check_value.simps plain_def limits)
  show ?thesis using unreported_secrets_unread [OF c a, THEN conjunct1] v by (intro conjI)
qed

text \<open>
  C6. Evaluating an accepted expression fails only in documented ways: a limit on steps, depth or
  size, an object or an array where a scalar is needed, or an input \<open>fromJSON\<close>, \<open>toJSON\<close> or \<open>format\<close>
  cannot take. It never indexes an argument that is not there, meets no unknown function or
  operator and leaves no array. That \<open>float64\<close> rounds towards zero inside the range of an
  array's length is what the code relies on.
\<close>

theorem accepted_errors:
  assumes "compileExpression fl s key = Inr (e, f)" and "index_law lib" and "evaluate lib ctx e st = Inl err"
  shows "runtime_error err \<and> err \<noteq> Panic"
proof -
  note c = compiled [OF assms(1)]
  have "\<forall>c \<in> calls e. call_ok key c" using validate_calls(1) [OF c(2)] by (simp add: checked_def)
  moreover have "operators e \<subseteq> binary_operators" using parse_text_known [OF c(1)] by (simp add: known_def)
  ultimately have "fails_well (evaluate lib ctx e st)" by (rule evaluate_fails(1) [OF assms(2)])
  then have "runtime_error err" using assms(3) by (simp add: fails_well_def)
  then show ?thesis by (auto simp: runtime_error_def)
qed

lemma accepted_errors_witness:
  "runtime_error (WrongType ''format'' ''escaped braces'') \<and> WrongType ''format'' ''escaped braces'' \<noteq> Panic"
proof (rule accepted_errors)
  show "compileExpression whole_floats ''format('}')'' ''step.run'' = Inr (ECall ''format'' [ELiteral (Text ''}'')], no_findings)"
    by code_simp
  show "index_law whole_numbers"
    by (auto simp: index_law_def index_in_def whole_numbers_def split: option.splits)
  show "evaluate whole_numbers (deployed ''x'') (ECall ''format'' [ELiteral (Text ''}'')])
      \<lparr>ev_steps = 0, ev_fresh = 2\<rparr> = Inl (WrongType ''format'' ''escaped braces'')"
    by (simp add: callExpression_def format_values_def argument_def ScalarString_def format_loop.simps plain_def as_text_def limits)
qed

lemma step_condition_agrees_witness:
  "stepCondition whole_numbers ''always()'' False (Some (workflowEvaluator whole_numbers 2 0 [(''success'', Boolean False)])) =
     Inr True"
proof -
  have c: "compileExpression (floats.truncate whole_numbers) ''always()'' ''step.if'' =
      Inr (ECall ''always'' [], \<lparr>found_status = True, found_secrets = []\<rparr>)"
    by code_simp
  have nonblank: "TrimSpace ''always()'' \<noteq> []" by code_simp
  have v: "workflowEvaluator whole_numbers 2 0 [(''success'', Boolean False)] ''step.if'' ''always()'' = Inr (Boolean True)"
    by (simp add: workflowEvaluator_def Eval_def c prepareContext_def workflowContext_def expressionValues.simps enter_def
        new_identity_def with_environment_def lookup_def callExpression_def limits)
  have f: "flag [(''success'', Boolean False)] ''success'' = False" by (simp add: flag_def lookup_def)
  have i: "EvalIf whole_numbers 2 ''always()'' ''step.if'' (workflowContext 0 [(''success'', Boolean False)]) = Inr True"
    by (simp add: EvalIf_def nonblank c prepareContext_def workflowContext_def expressionValues.simps enter_def
        new_identity_def with_environment_def lookup_def callExpression_def Truthy_def limits)
  show ?thesis
    using step_condition_agrees [OF c, of 2 0 "[(''success'', Boolean False)]"] v by (simp add: f i)
qed

end
