(* ===== verification/MatrixProps.thy ===== *)
theory MatrixProps
  imports Matrix ExpressionProps
begin

text \<open>
  What a matrix means: the combinations of its axes in order without the excluded ones, each with the
  inclusions that fit it, and the other inclusions as jobs of their own; and that the
  expansion with its pruned search and its limits computes this.
\<close>

subsection \<open>The meaning\<close>

fun combinations :: "(bytes \<times> 'n gvalue list) list \<Rightarrow> bytes list \<Rightarrow> 'n combination list" where
  "combinations axes [] = [[]]"
| "combinations axes (key # keys) =
     concat (map (\<lambda>v. map (Cons (key, v)) (combinations axes keys)) (axis axes key))"

definition originals :: "('n, 'm) floats_scheme \<Rightarrow> 'n matrix_parts \<Rightarrow> 'n combination list" where
  "originals fl m =
     (if mx_axes m \<noteq> [] \<or> mx_include m = []
      then filter (\<lambda>c. \<not> isExcludedSubtree fl c (mx_exclude m)) (combinations (mx_axes m) (mx_order m)) else [])"

definition completed :: "('n, 'm) floats_scheme \<Rightarrow> 'n combination list \<Rightarrow> 'n combination \<Rightarrow> 'n combination \<Rightarrow> 'n combination" where
  "completed fl additions original job = fold add_entries (filter (compatible fl original) additions) job"

definition unmatched :: "('n, 'm) floats_scheme \<Rightarrow> 'n combination list \<Rightarrow> 'n combination list \<Rightarrow> 'n combination list" where
  "unmatched fl os additions = filter (\<lambda>a. \<not> list_ex (\<lambda>original. compatible fl original a) os) additions"

definition matrix_jobs :: "('n, 'm) floats_scheme \<Rightarrow> 'n matrix_parts \<Rightarrow> 'n combination list" where
  "matrix_jobs fl m =
     map (\<lambda>original. completed fl (mx_include m) original original) (originals fl m) @
     unmatched fl (originals fl m) (mx_include m)"

text \<open>The prefixes of combinations, which the search visits at most once each.\<close>

fun prefix_count :: "(bytes \<times> 'n gvalue list) list \<Rightarrow> bytes list \<Rightarrow> nat" where
  "prefix_count axes [] = 1"
| "prefix_count axes (key # keys) = 1 + length (axis axes key) * prefix_count axes keys"

subsection \<open>The search\<close>

lemma update_fresh: "key \<notin> fst ` set c \<Longrightarrow> AList.update key v c = c @ [(key, v)]"
  by (induction c) auto

lemma excluded_longer: "isExcludedSubtree fl c ex \<Longrightarrow> isExcludedSubtree fl (c @ d) ex"
  by (auto simp: isExcludedSubtree_def containsCombination_def list_ex_iff list_all_iff map_add_def split: option.splits)
    fastforce

definition remaining :: "('n, 'm) floats_scheme \<Rightarrow> 'n matrix_parts \<Rightarrow> bytes list \<Rightarrow> 'n combination \<Rightarrow> 'n combination list" where
  "remaining fl m keys c =
     filter (\<lambda>d. \<not> isExcludedSubtree fl d (mx_exclude m)) (map (append c) (combinations (mx_axes m) keys))"

definition expands :: "int \<Rightarrow> nat \<Rightarrow> 'n combination list \<Rightarrow> 'n expansion \<Rightarrow> xerror + 'n expansion \<Rightarrow> bool" where
  "expands limit n new st r =
     (case r of
        Inr (steps, out) \<Rightarrow> out = snd st @ new \<and> steps \<le> fst st + n \<and>
          (int (length (snd st)) \<le> limit \<longrightarrow> int (length out) \<le> limit)
      | Inl err \<Rightarrow> err = TooManyJobs (limit + 1) \<and> limit < int (length (snd st @ new)) \<or>
          err = Limit ''matrix expansion steps'' \<and> MaxEvaluationSteps < fst st + n)"

lemma expands_bind:
  assumes "expands limit n new st r" and "\<And>st'. r = Inr st' \<Longrightarrow> expands limit k rest st' (f st')"
  shows "expands limit (n + k) (new @ rest) st (bindE r f)"
proof (cases r)
  case (Inl e)
  then show ?thesis using assms(1) by (auto simp: expands_def)
next
  case (Inr st')
  obtain steps out where st': "st' = (steps, out)" by (cases st')
  show ?thesis using assms(1) assms(2) [OF Inr] by (auto simp: expands_def Inr st' split: sum.splits)
qed

lemma expand_spec:
  fixes c :: "'n combination" and vs :: "'n gvalue list"
  shows "distinct keys \<Longrightarrow> set keys \<inter> fst ` set c = {} \<Longrightarrow> 0 \<le> limit \<Longrightarrow>
      expands limit (prefix_count (mx_axes m) keys) (remaining fl m keys c) st (expand fl m limit keys c st)"
    and "distinct (key # rest) \<Longrightarrow> set (key # rest) \<inter> fst ` set c = {} \<Longrightarrow> 0 \<le> limit \<Longrightarrow>
      expands limit (length vs * prefix_count (mx_axes m) rest) (concat (map (\<lambda>v. remaining fl m rest (c @ [(key, v)])) vs)) st
        (expand_values fl m limit key rest vs c st)"
proof (induction fl m limit keys c st and fl m limit key rest vs c st rule: expand_expand_values.induct)
  case (1 fl m limit keys c steps out)
  show ?case
  proof (cases "MaxEvaluationSteps < steps + 1")
    case True
    then show ?thesis by (cases keys) (auto simp: expand.simps expands_def)
  next
    case steps: False
    show ?thesis
    proof (cases "isExcludedSubtree fl c (mx_exclude m)")
      case True
      then have "remaining fl m keys c = []" by (auto simp: remaining_def filter_empty_conv excluded_longer)
      then show ?thesis using steps True by (cases keys) (auto simp: expand.simps expands_def)
    next
      case False
      show ?thesis
      proof (cases keys)
        case Nil
        then show ?thesis using steps False by (auto simp: expand.simps expands_def remaining_def)
      next
        case (Cons key rest)
        have new: "remaining fl m keys c = concat (map (\<lambda>v. remaining fl m rest (c @ [(key, v)])) (axis (mx_axes m) key))"
        proof -
          have "append (c @ [(key, v)]) = (\<lambda>d. c @ (key, v) # d)" for v by (rule ext) simp
          then show ?thesis by (simp add: remaining_def Cons filter_concat map_concat comp_def)
        qed
        have "expand fl m limit keys c (steps, out) = expand_values fl m limit key rest (axis (mx_axes m) key) c (steps + 1, out)"
          using steps False by (simp add: expand.simps Cons)
        moreover have "expands limit (length (axis (mx_axes m) key) * prefix_count (mx_axes m) rest)
            (remaining fl m keys c) (steps + 1, out) (expand_values fl m limit key rest (axis (mx_axes m) key) c (steps + 1, out))"
          unfolding new using "1.IH" [of key rest] "1.prems" steps False by (simp add: Cons)
        ultimately show ?thesis by (auto simp: expands_def Cons split: sum.splits)
      qed
    qed
  qed
next
  case (2 fl m limit key rest c st)
  then show ?case by (cases st) (simp add: expands_def)
next
  case (3 fl m limit key rest v vs c st)
  have fresh: "AList.update key v c = c @ [(key, v)]" using "3.prems" by (intro update_fresh) auto
  have "expands limit (prefix_count (mx_axes m) rest) (remaining fl m rest (c @ [(key, v)])) st
      (expand fl m limit rest (AList.update key v c) st)"
    using "3.IH"(1) "3.prems" unfolding fresh by auto
  moreover have "expands limit (length vs * prefix_count (mx_axes m) rest)
      (concat (map (\<lambda>v. remaining fl m rest (c @ [(key, v)])) vs)) st' (expand_values fl m limit key rest vs c st')"
    if "expand fl m limit rest (AList.update key v c) st = Inr st'" for st'
    using "3.IH"(2) [OF that] "3.prems" by simp
  ultimately show ?case by (auto dest: expands_bind)
qed

subsection \<open>The inclusions\<close>

lemma include_all_spec:
  assumes "length js = length os"
  shows "case include_all fl limit os adds (js @ xs) of
      Inr jobs \<Rightarrow> jobs = map (\<lambda>(original, job). completed fl adds original job) (zip os js) @ xs @ unmatched fl os adds \<and>
        (int (length (js @ xs)) \<le> limit \<longrightarrow> int (length jobs) \<le> limit)
    | Inl err \<Rightarrow> err = TooManyJobs (limit + 1) \<and> limit < int (length js + length xs + length (unmatched fl os adds))"
  using assms
proof (induction adds arbitrary: js xs)
  case Nil
  have "(\<lambda>(original, job). job) = (snd :: 'a combination \<times> 'a combination \<Rightarrow> _)" by auto
  then have "map (\<lambda>(original, job). job) (zip os js) = js" using Nil by (simp only: map_snd_zip)
  moreover have "completed fl [] = (\<lambda>original job. job)" by (intro ext) (simp add: completed_def)
  ultimately show ?case by (simp add: unmatched_def)
next
  case (Cons a adds)
  show ?case
  proof (cases "list_ex (\<lambda>original. compatible fl original a) os")
    case True
    define js' where "js' = map (\<lambda>(original, job). if compatible fl original a then add_entries a job else job) (zip os js)"
    have j: "include_one fl os a (js @ xs) = js' @ xs" "length js' = length os"
      using Cons.prems zip_append [of os js "[]" xs] by (simp_all add: include_one_def js'_def)
    have "map (\<lambda>(original, job). completed fl adds original job) (zip os js') =
        map (\<lambda>(original, job). completed fl (a # adds) original job) (zip os js)"
      using Cons.prems unfolding js'_def by (intro nth_equalityI) (auto simp: completed_def)
    then show ?thesis using Cons.IH [OF j(2), of xs] True Cons.prems j
      by (simp add: unmatched_def split: sum.splits)
  next
    case False
    have none: "\<not> compatible fl original a" if "original \<in> set os" for original
      using False that by (simp add: list_ex_iff)
    have same: "map (\<lambda>(original, job). completed fl adds original job) (zip os js) =
        map (\<lambda>(original, job). completed fl (a # adds) original job) (zip os js)"
      by (auto simp: completed_def none dest: set_zip_leftD)
    show ?thesis using Cons.IH [OF Cons.prems, of "xs @ [a]"] False
      by (auto simp: unmatched_def same split: sum.splits)
  qed
qed

lemma add_entries_lookup: "map_of (add_entries a j) k =
    (case map_of (rev a) k of None \<Rightarrow> map_of j k | Some w \<Rightarrow> Some w)"
  by (induction a arbitrary: j) (auto simp: add_entries_def update_conv' map_add_def split: option.splits)

lemma completed_keeps:
  assumes "map_of original k = Some v" and "map_of job k = Some w" and "w = v \<or> deepEqual fl v w"
  shows "\<exists>w. map_of (completed fl adds original job) k = Some w \<and> (w = v \<or> deepEqual fl v w)"
  using assms(2,3)
proof (induction adds arbitrary: job w)
  case (Cons a adds)
  show ?case
  proof (cases "compatible fl original a")
    case True
    have "deepEqual fl v x" if "map_of (rev a) k = Some x" for x
      using map_of_SomeD [OF that] True assms(1) by (auto simp: compatible_def list_all_iff)
    then have "\<exists>w. map_of (add_entries a job) k = Some w \<and> (w = v \<or> deepEqual fl v w)"
      using Cons.prems by (auto simp: add_entries_lookup split: option.splits)
    then show ?thesis using Cons.IH [of "add_entries a job"] True by (auto simp: completed_def)
  qed (use Cons in \<open>simp add: completed_def\<close>)
qed (simp add: completed_def)

lemma order_distinct: "order_ok axes seen keys \<Longrightarrow> distinct keys \<and> set keys \<inter> set seen = {}"
  by (induction keys arbitrary: seen) fastforce+

lemma read_matrix_distinct: "read_matrix lib matrix order = Inr m \<Longrightarrow> distinct (mx_order m)"
  by (auto simp: read_matrix_def Let_def split: if_splits dest!: order_distinct)

text \<open>
  C11. A matrix expands to what it means. When its parts are read, the jobs are the combinations of
  the axes in order, the excluded ones left out, each completed by the inclusions that agree with it,
  and then the inclusions that agree with none; they stay within the limit, and no inclusion changes the
  value a combination has for an axis. The expansion is refused only when there are more jobs than
  the limit, or more prefixes of combinations than steps.
\<close>

theorem ExpandMatrix_meaning:
  assumes "read_matrix lib matrix order = Inr m"
  shows "case ExpandMatrix lib matrix order limit of
      Inr jobs \<Rightarrow> jobs = matrix_jobs (floats.truncate lib) m \<and> int (length jobs) \<le> matrix_limit limit \<and>
        list_all2 (\<lambda>original job. \<forall>k v. map_of original k = Some v \<longrightarrow>
            (\<exists>w. map_of job k = Some w \<and> (w = v \<or> deepEqual (floats.truncate lib) v w)))
          (originals (floats.truncate lib) m) (take (length (originals (floats.truncate lib) m)) jobs)
    | Inl err \<Rightarrow>
        err = TooManyJobs (matrix_limit limit + 1) \<and> matrix_limit limit < int (length (matrix_jobs (floats.truncate lib) m)) \<or>
        err = Limit ''matrix expansion steps'' \<and> MaxEvaluationSteps < prefix_count (mx_axes m) (mx_order m)"
proof -
  let ?fl = "floats.truncate lib" and ?limit = "matrix_limit limit"
  let ?r = "if mx_axes m \<noteq> [] \<or> mx_include m = [] then expand ?fl m ?limit (mx_order m) [] (0, []) else Inr (0, [])"
  have l: "0 \<le> ?limit" by (simp add: matrix_limit_def)
  have r: "expands ?limit (prefix_count (mx_axes m) (mx_order m)) (originals ?fl m) (0, []) ?r"
  proof (cases "mx_axes m \<noteq> [] \<or> mx_include m = []")
    case True
    have "append [] = (\<lambda>c :: 'a combination. c)" by (rule ext) simp
    then have "remaining ?fl m (mx_order m) [] = originals ?fl m" using True by (simp add: originals_def remaining_def)
    then show ?thesis using expand_spec(1) [where keys = "mx_order m" and c = "[]" and limit = ?limit and m = m and fl = ?fl and st = "(0, [])"] read_matrix_distinct [OF assms] l True
      by simp
  qed (simp add: originals_def expands_def)
  show ?thesis
  proof (cases ?r)
    case (Inl err)
    then have "ExpandMatrix lib matrix order limit = Inl err" by (simp add: ExpandMatrix_def assms expand_parts_def)
    then show ?thesis using r unfolding Inl by (auto simp: expands_def matrix_jobs_def)
  next
    case (Inr st)
    then obtain steps where st: "st = (steps, originals ?fl m)" "int (length (originals ?fl m)) \<le> ?limit"
      using r l by (cases st) (auto simp: expands_def)
    let ?os = "originals ?fl m"
    have "ExpandMatrix lib matrix order limit = include_all ?fl ?limit ?os (mx_include m) (?os @ [])"
      unfolding ExpandMatrix_def assms bindE_simps expand_parts_def Inr st(1) by simp
    moreover have "map (\<lambda>(original, job). completed ?fl (mx_include m) original job) (zip ?os ?os) =
        map (\<lambda>original. completed ?fl (mx_include m) original original) ?os"
      by (simp add: zip_same_conv_map)
    moreover have "list_all2 (\<lambda>original job. \<forall>k v. map_of original k = Some v \<longrightarrow>
        (\<exists>w. map_of job k = Some w \<and> (w = v \<or> deepEqual ?fl v w))) ?os
        (map (\<lambda>original. completed ?fl (mx_include m) original original) ?os)"
      using completed_keeps by (fastforce simp: list_all2_conv_all_nth)
    ultimately show ?thesis using include_all_spec [where js = ?os and os = ?os and fl = ?fl and limit = ?limit and adds = "mx_include m" and xs = "[]"] st(2)
      by (auto simp: matrix_jobs_def split: sum.splits)
  qed
qed

definition sample_matrix :: "int option combination" where
  "sample_matrix =
     [(''os'', Array 1 [Text ''a'', Text ''b'']), (''go'', Array 2 [Float (Some 1), Float (Some 2)]),
      (''include'', Array 3 [Object 4 [(''os'', Text ''a''), (''x'', Boolean True)], Object 5 [(''os'', Text ''c'')]]),
      (''exclude'', Array 6 [Object 7 [(''os'', Text ''b''), (''go'', Float (Some 1))]])]"

definition sample_parts :: "int option matrix_parts" where
  "sample_parts =
     \<lparr>mx_axes = [(''os'', [Text ''a'', Text ''b'']), (''go'', [Float (Some 1), Float (Some 2)])], mx_order = [''os'', ''go''],
      mx_include = [[(''os'', Text ''a''), (''x'', Boolean True)], [(''os'', Text ''c'')]],
      mx_exclude = [[(''os'', Text ''b''), (''go'', Float (Some 1))]]\<rparr>"

lemma ExpandMatrix_meaning_witness:
  "ExpandMatrix whole_numbers sample_matrix [''os'', ''go''] 16 =
     Inr [[(''os'', Text ''a''), (''go'', Float (Some 1)), (''x'', Boolean True)],
          [(''os'', Text ''a''), (''go'', Float (Some 2)), (''x'', Boolean True)],
          [(''os'', Text ''b''), (''go'', Float (Some 2))], [(''os'', Text ''c'')]] \<and>
   length (matrix_jobs whole_floats sample_parts) = 4"
proof -
  have parts: "read_matrix whole_numbers sample_matrix [''os'', ''go''] = Inr sample_parts"
    by (simp add: read_matrix_def sample_matrix_def sample_parts_def checkedValue_def check_value.simps limits ScalarString_def
        whole_numbers_def show_int_def nat_digits.simps lookup_def matrixObjects_def is_array_def validIdentifier_def identifier_start_def identifier_part_def asciiLetter_def char_defs byte_def)
  have jobs: "ExpandMatrix whole_numbers sample_matrix [''os'', ''go''] 16 =
     Inr [[(''os'', Text ''a''), (''go'', Float (Some 1)), (''x'', Boolean True)],
          [(''os'', Text ''a''), (''go'', Float (Some 2)), (''x'', Boolean True)],
          [(''os'', Text ''b''), (''go'', Float (Some 2))], [(''os'', Text ''c'')]]"
    unfolding ExpandMatrix_def parts bindE_simps
    by (simp add: sample_parts_def expand_parts_def expand.simps matrix_limit_def MaxJobs_def MaxEvaluationSteps_def
        isExcludedSubtree_def containsCombination_def axis_def deepEqual.simps compatible_def include_one_def add_entries_def
        whole_numbers_def floats.truncate_def)
  have "matrix_jobs whole_floats sample_parts = (case ExpandMatrix whole_numbers sample_matrix [''os'', ''go''] 16 of Inr js \<Rightarrow> js | _ \<Rightarrow> [])"
    using ExpandMatrix_meaning [OF parts, of 16] unfolding jobs whole_floats_def by simp
  then show ?thesis unfolding jobs by simp
qed

end
