(* ===== verification/Spec2Isabelle.thy ===== *)
theory Spec2Isabelle
  imports LsRefsProps RepoLockProps ActionsGraph Cron PackStream FetchInterop PushNames AdmissionProps MaskOutput CheckJobProps
    PatternProps MatrixProps
begin

text \<open>
  A verification development for owngit, a self-hosted Git server written in Go.

  \<^bold>\<open>The program.\<close> One process serves repositories over Git's smart HTTP protocol, imports
  repositories from other servers, and runs the checks of a repository and the workflows that are
  triggered by pushes, pull requests and schedules. Git itself does the work on objects: the Go code
  decides who may see what, in which order things happen, what is read from peers that are not
  trusted, and what a result means. That deciding code is what these theories model.

  A fetch or push request passes the transfer slots (\<open>internal/githttp/admission.go\<close>) and the
  memory gate (\<open>internal/hostmem/gate.go\<close>), takes the lock of its repository
  (\<open>internal/gitexec/locks.go\<close>), and passes a gate in front of Git: for a fetch
  \<open>internal/githttp/fetch_wants.go\<close>, for a push \<open>internal/githttp/push_commands.go\<close> with the
  name keys of \<open>internal/repository/refname_key.go\<close>. An import reads the advertisement of the other
  server (\<open>internal/importgit\<close>), asks for its objects and unpacks the answer
  (\<open>internal/importfetch/protocol.go\<close>). A push or a schedule (\<open>internal/actions/cron.go\<close>)
  admits check jobs and workflow runs into the store (\<open>internal/state/check_jobs.go\<close>,
  \<open>internal/state/checks.go\<close>); runners claim jobs under a lease, start them once, and report
  results, which \<open>internal/actions/outcome.go\<close> and \<open>internal/state/actions_graph.go\<close> combine. The
  output of a step goes through the masks of \<open>internal/actions/masking.go\<close> into the bounded log of
  \<open>internal/checkoutput/output.go\<close>.

  \<^bold>\<open>Conventions.\<close> A Go string or byte slice is a list of characters, one for each byte. A result with
  an error is a sum, \<open>Inl\<close> the error. Times are numbers of nanoseconds, Go's zero time is \<open>None\<close>.
  Counters that the code keeps in \<open>int\<close> are HOL's \<open>int\<close> or \<open>nat\<close> where a bound of the code keeps them far
  from the limits of the machine; texts of error messages are left out unless the code compares or
  shows them. \<open>Prelude\<close> has the functions of Go's standard library that the code calls, the binding
  of results, reachability with the locale of inductive invariants, the counting of callers and the
  locale \<open>wakeup\<close> for channels that are closed and replaced. \<open>Utf8\<close> has Go's decoding of runes in
  strings that need not be valid.

  \<^bold>\<open>Reading an advertisement\<close> (\<open>internal/importgit\<close>). \<open>PktLine\<close> is the framing of \<open>pktline.go\<close> with its
  two budgets over a byte source, and \<open>packet_handler\<close>, the contract under which a loop over packets
  keeps an invariant. \<open>RefName\<close> has the rules of \<open>refname.go\<close>. \<open>Advertisement\<close> is \<open>Parse\<close> of
  \<open>advertisement.go\<close> with the capability list of \<open>v2.go\<close>, \<open>LsRefs\<close> the answer to \<open>ls-refs\<close>. The
  properties: what is accepted is well formed, was read to its end within the limits, is no prefix of
  another accepted body, and the parser gives back what a valid listing encodes.

  \<^bold>\<open>Requests and packs of an import\<close> (\<open>internal/importfetch/protocol.go\<close>). \<open>UploadRequest\<close> builds the
  requests of both protocol versions, \<open>PackStream\<close> has the readers of the answer: byte budgets
  (the contract \<open>bounded_reader\<close>) and the side-band section, which is proved exact and, since
  a read may return nothing, also to deliver a complete section within a stated number of reads.

  \<^bold>\<open>The gates in front of Git\<close> (\<open>internal/githttp\<close>). \<open>FetchGate\<close> is the gate on fetch requests and the
  questions it asks Git, \<open>FetchServe\<close> its check of the wants. Git is a parameter there; the hypothesis
  \<open>git_answers\<close> says what its commands print when they succeed, over a record of the repository with
  annotated tags, missing objects and histories, and any command may fail. It can hold: \<open>model_git\<close>
  satisfies it for every sound repository. \<open>FetchInterop\<close> is the gate on the requests that
  \<open>UploadRequest\<close> builds. \<open>PushGate\<close> and \<open>PushNames\<close> are the gate on pushes and the comparison of
  names, also in an empty repository or with a detached HEAD; the Unicode operations of the key are
  parameters.

  \<^bold>\<open>Concurrency.\<close> A critical section of the code is a function; the callers between sections are steps of an
  inductive relation, so that every interleaving is covered and a context may end at any moment.
  \<open>RepoLock\<close> and \<open>RepoLockProps\<close> are the lock of a repository: exclusion, hand over to waiters, order
  of arrival, the generation. \<open>Admission\<close> and \<open>AdmissionProps\<close> are the transfer slots and the memory
  gate: exact counters, limits, room for idle repositories, jobs before transfers, and no sleeper
  that nobody wakes. The last are liveness in the sense of absence of a stuck state; that the Go
  scheduler runs a goroutine that can run is assumed.

  \<^bold>\<open>Check jobs\<close> (\<open>internal/state/check_jobs.go\<close>, \<open>internal/state/checks.go\<close>). A transaction is a
  function of the store, a record of the tables as maps and lists of rows; a refused transaction
  returns the store it began with unless the code commits before it reports the error. \<open>CheckPolicy\<close>
  has policies, consent and runner credentials, \<open>CheckAttempts\<close> the registration of attempts and the
  outcome of a completion, \<open>CheckJobs\<close> admission, reruns and claims, \<open>CheckLeases\<close> everything from the
  start of a claimed job to its end. \<open>CheckRuns\<close> makes the operations the steps of histories and
  says what a row may become; \<open>CheckSteps\<close>, \<open>CheckEvidence\<close> and \<open>CheckHistory\<close> prove that each
  operation keeps the store consistent and only moves rows forward; \<open>CheckQueue\<close> has the order of
  the queue (the contract \<open>row_order\<close>), \<open>CheckGrants\<close> the grants, \<open>CheckJobProps\<close> a history that
  passes and the properties: one start for each job, none after authority is withdrawn, the exact condition
  of every start, the outcome of every claim, and admission that may be repeated. SHA-256 and the JSON encoder are
  fields of a parameter about which nothing is assumed; random identities are arguments, and the
  primary key refuses those in use.

  \<^bold>\<open>Results, graphs and schedules.\<close> \<open>Outcome\<close> combines results and proves the loop with early returns
  equal to the order of severity. \<open>ActionsGraph\<close> checks the graph of a stored run and derives what
  the jobs depend on; its searches are fuelled by the number of keys, and the termination property
  shows that this is enough on every accepted run. \<open>Cron\<close> is the parser of expressions and
  the search over days of the Gregorian calendar; its window of five and eight years is the code's.

  \<^bold>\<open>Output of steps.\<close> \<open>Masking\<close> is the set of masks and the literal redactor, \<open>MaskStream\<close> the writer
  that takes mask commands out of a stream, \<open>CheckOutput\<close> the bounded texts, \<open>LogParts\<close> the log buffer
  that is fed in parts, against the text of the parts joined. \<open>MaskOutput\<close> composes them: what a step
  shows depends only on the whole stream, and is said by \<open>play\<close> over its lines, with any number of
  commands among them.

  \<^bold>\<open>Expressions of workflows\<close> (\<open>internal/actions/expression.go\<close>, \<open>expression_values.go\<close>,
  \<open>expression_functions.go\<close>, \<open>conditions.go\<close>). \<open>Expression\<close> is the lexer and the parser of precedences,
  \<open>ExpressionCheck\<close> the check of contexts, functions and secrets with the search for the braces of a
  template, \<open>ExpressionValue\<close> the values and their conversions, \<open>ExpressionEval\<close> the evaluator. The
  numbers of \<open>float64\<close>, the JSON decoder and encoder and the folding of letters are fields of a
  parameter. Maps and arrays carry an identity, since the code compares them as pointers. The
  recursive parser has a fuel of three times the length and two, one step for each level of call; it
  is proved enough, and more changes nothing. \<open>ExpressionErrors\<close> shows in which ways an accepted
  expression can fail, \<open>ExpressionSecrets\<close> that it reads no secret but those it reports,
  \<open>ExpressionTemplate\<close> that the parts of a template are exact, \<open>ExpressionScan\<close> and
  \<open>ExpressionConditions\<close> that the search for a status function in the text of a condition agrees with
  the parser. \<open>ExpressionProps\<close> has the properties that span these theories and a concrete
  library for their witnesses. The recorded key order of a matrix, the texts of errors and the conditions
  and timeouts of jobs that the planner evaluates are left out.

  \<^bold>\<open>Event filters and matrices.\<close> \<open>Patterns\<close> (\<open>internal/actions/patterns.go\<close>) has the translation of a
  pattern to the text of a regular expression, the part of \<open>regexp\<close> that reads and runs such texts, and
  the decision about an event; \<open>PatternProps\<close> proves it equal to a meaning said on the pattern alone,
  and that an incomplete list of files decides only what the whole list would. \<open>Matrix\<close>
  (\<open>internal/actions/matrix.go\<close>) is the pruned search over the combinations with its limits and the
  inclusions, \<open>MatrixProps\<close> its equality with the combinations, exclusions and inclusions as written.

  \<^bold>\<open>Not modelled.\<close> Of the workflow language the reader of files, which sits on a decoder of YAML that is not
  part of the repository, the planner of jobs and the execution of steps; expressions, filters,
  matrices, graphs, schedules, results and masks are modelled. Workflow runs in the store (admission,
  settling, guards of claims, schedules in tables), since they need those plans; the validation of new check
  policies; raw logs and stored results of attempts; tasks and correction cycles; tokens. The
  rest of the store, recovery and backups are SQL and files with little logic of their own that
  could be stated without a model of SQLite. The HTTP handlers, the web interface, the command line,
  the services of the operating systems and the tools of releases are input and output around the
  parts above. Git, SQLite, the network and the clock are outside.
\<close>

end
